(* ===== verification/Prelude.thy ===== *)
theory Prelude
  imports Main "HOL-Library.Word"
begin

text \<open>
  Shared vocabulary of the development: the machine integers of the Rust code as words, results
  with an error as sums, fallible loops over a vector, ordered maps (\<open>BTreeMap\<close>) as strictly
  sorted association lists behind a map interface, Unicode strings with their UTF-8 length, and
  the generic lemmas on lists the components share.
\<close>

named_theorems res_simps \<open>rules that take results apart\<close>
named_theorems wf_intros \<open>introduction rules for well-formedness invariants\<close>

type_synonym u8 = "8 word"
type_synonym u16 = "16 word"
type_synonym u32 = "32 word"
type_synonym u64 = "64 word"
type_synonym bytes = "u8 list"

section \<open>Results\<close>

text \<open>A Rust \<open>Result<T, E>\<close> is \<open>'e + 'a\<close> with \<open>Inl\<close> the error; \<open>and_then\<close> is what the
  \<open>?\<close> operator does: stop at the first error, otherwise go on with the value.\<close>

definition and_then :: "'e + 'a \<Rightarrow> ('a \<Rightarrow> 'e + 'b) \<Rightarrow> 'e + 'b" where
  "and_then r f = (case r of Inl e \<Rightarrow> Inl e | Inr x \<Rightarrow> f x)"

lemma and_then_simps [simp, res_simps]:
  "and_then (Inl e) f = Inl e"
  "and_then (Inr x) f = f x"
  by (simp_all add: and_then_def)

lemma and_then_Inr_iff [res_simps]:
  "and_then r f = Inr y \<longleftrightarrow> (\<exists>x. r = Inr x \<and> f x = Inr y)"
  by (cases r) simp_all

lemma and_then_Inl_iff [res_simps]:
  "and_then r f = Inl e \<longleftrightarrow> r = Inl e \<or> (\<exists>x. r = Inr x \<and> f x = Inl e)"
  by (cases r) simp_all

definition is_ok :: "'e + 'a \<Rightarrow> bool" where
  "is_ok r = (case r of Inl _ \<Rightarrow> False | Inr _ \<Rightarrow> True)"

lemma is_ok_simps [simp]: "is_ok (Inl e) = False" "is_ok (Inr x) = True"
  by (simp_all add: is_ok_def)

text \<open>\<open>for x in xs { f(x)?; }\<close> with no state, and with a state threaded through.\<close>

primrec check_all :: "('a \<Rightarrow> 'e + unit) \<Rightarrow> 'a list \<Rightarrow> 'e + unit" where
  "check_all f [] = Inr ()"
| "check_all f (x # xs) = and_then (f x) (\<lambda>_. check_all f xs)"

primrec fold_res :: "('a \<Rightarrow> 's \<Rightarrow> 'e + 's) \<Rightarrow> 'a list \<Rightarrow> 's \<Rightarrow> 'e + 's" where
  "fold_res f [] s = Inr s"
| "fold_res f (x # xs) s = and_then (f x s) (fold_res f xs)"

lemma check_all_ok_iff [res_simps]: "check_all f xs = Inr () \<longleftrightarrow> (\<forall>x\<in>set xs. f x = Inr ())"
  by (induction xs) (auto simp: and_then_Inr_iff)

lemma check_all_ok_iff' [res_simps]: "check_all f xs = Inr u \<longleftrightarrow> (\<forall>x\<in>set xs. f x = Inr ())"
  by (cases u) (simp add: check_all_ok_iff)

lemma fold_res_append: "fold_res f (xs @ ys) s = and_then (fold_res f xs s) (fold_res f ys)"
  by (induction xs arbitrary: s) (simp_all add: and_then_def split: sum.splits)

lemma fold_res_inv:
  assumes "fold_res f xs s = Inr s'" and "P s"
    and "\<And>x s s'. x \<in> set xs \<Longrightarrow> P s \<Longrightarrow> f x s = Inr s' \<Longrightarrow> P s'"
  shows "P s'"
  using assms
proof (induction xs arbitrary: s)
  case Nil
  then show ?case by simp
next
  case (Cons x xs)
  from Cons.prems(1) obtain t where t: "f x s = Inr t" "fold_res f xs t = Inr s'"
    by (auto simp: and_then_Inr_iff)
  have "P t"
    using Cons.prems(2,3) t(1) by (meson list.set_intros(1))
  with t(2) show ?case
    using Cons.IH Cons.prems(3) by (meson list.set_intros(2))
qed

section \<open>Saturating arithmetic\<close>

definition sat_add :: "'a::len word \<Rightarrow> 'a word \<Rightarrow> 'a word" where
  "sat_add a b = (if unat a + unat b < 2 ^ LENGTH('a) then a + b else - 1)"

definition sat_sub :: "'a::len word \<Rightarrow> 'a word \<Rightarrow> 'a word" where
  "sat_sub a b = (if b \<le> a then a - b else 0)"

lemma unat_lt2p: "unat (w :: 'a::len word) < 2 ^ LENGTH('a)"
  by (rule unsigned_less)

lemma unat_le_max: "unat (w :: 'a::len word) \<le> 2 ^ LENGTH('a) - 1"
  using unat_lt2p [of w] by linarith

lemma unat_max_word: "unat (- 1 :: 'a::len word) = 2 ^ LENGTH('a) - 1"
  by (simp add: unsigned_minus_1_eq_mask mask_eq_exp_minus_1)

lemma unat_sat_add: "unat (sat_add a b) = min (unat a + unat b) (2 ^ LENGTH('a) - 1)"
  for a b :: "'a::len word"
proof (cases "unat a + unat b < 2 ^ LENGTH('a)")
  case True
  then show ?thesis
    by (simp add: sat_add_def unat_word_ariths)
next
  case False
  then show ?thesis
    by (simp add: sat_add_def unat_max_word)
qed

lemma unat_sat_sub: "unat (sat_sub a b) = unat a - unat b"
  for a b :: "'a::len word"
  by (simp add: sat_sub_def unat_sub word_le_nat_alt)

lemma sat_add_ge: "a \<le> sat_add a b"
  for a b :: "'a::len word"
  using unat_le_max [of a] by (simp add: word_le_nat_alt unat_sat_add)

lemma unat_lt_16 [simp]: "unat (w :: u16) < 65536"
  using unat_lt2p [of w] by simp

lemma unat_lt_64: "unat (w :: u64) < 18446744073709551616"
  using unat_lt2p [of w] by simp

lemma unat_of_nat_16: "n < 65536 \<Longrightarrow> unat (of_nat n :: u16) = n"
  by (simp add: unat_of_nat)

lemma unat_of_nat_64: "n < 2 ^ 64 \<Longrightarrow> unat (of_nat n :: u64) = n"
  by (simp add: unat_of_nat)

lemma word_le_of_nat_16: "n < 65536 \<Longrightarrow> (of_nat n :: u16) < w \<longleftrightarrow> n < unat w"
  by (simp add: word_less_nat_alt unat_of_nat_16)

section \<open>Unicode strings\<close>

text \<open>A \<open>char\<close> is its scalar value and a string the list of its scalars; \<open>str::len\<close> counts the
  bytes of the UTF-8 form, which \<open>utf8\<close> spells out.\<close>

type_synonym scalar = nat
type_synonym ustr = "scalar list"

definition len_utf8 :: "scalar \<Rightarrow> nat" where
  "len_utf8 c = (if c < 128 then 1 else if c < 2048 then 2 else if c < 65536 then 3 else 4)"

definition utf8_scalar :: "scalar \<Rightarrow> bytes" where
  "utf8_scalar c =
    (if c < 128 then [of_nat c]
     else if c < 2048 then [of_nat (192 + c div 64), of_nat (128 + c mod 64)]
     else if c < 65536 then
       [of_nat (224 + c div 4096), of_nat (128 + c div 64 mod 64), of_nat (128 + c mod 64)]
     else [of_nat (240 + c div 262144), of_nat (128 + c div 4096 mod 64),
           of_nat (128 + c div 64 mod 64), of_nat (128 + c mod 64)])"

definition utf8 :: "ustr \<Rightarrow> bytes" where
  "utf8 s = concat (map utf8_scalar s)"

definition str_len :: "ustr \<Rightarrow> nat" where
  "str_len s = sum_list (map len_utf8 s)"

lemma length_utf8_scalar: "length (utf8_scalar c) = len_utf8 c"
  by (simp add: utf8_scalar_def len_utf8_def)

lemma length_utf8: "length (utf8 s) = str_len s"
  by (induction s) (simp_all add: utf8_def str_len_def length_utf8_scalar)

lemma str_len_simps [simp]:
  "str_len [] = 0"
  "str_len (c # s) = len_utf8 c + str_len s"
  "str_len (s @ t) = str_len s + str_len t"
  by (simp_all add: str_len_def)

lemma len_utf8_pos: "0 < len_utf8 c"
  by (simp add: len_utf8_def)

lemma length_le_str_len: "length s \<le> str_len s"
proof (induction s)
  case (Cons c s)
  then show ?case using len_utf8_pos [of c] by simp
qed simp

definition str_of :: "string \<Rightarrow> ustr" where
  "str_of s = map of_char s"

text \<open>What \<open>{}\<close> writes for an unsigned integer.\<close>

fun dec_str :: "nat \<Rightarrow> ustr" where
  "dec_str n = (if n < 10 then [48 + n] else dec_str (n div 10) @ [48 + n mod 10])"

declare dec_str.simps [simp del]

lemma dec_str_digits: "c \<in> set (dec_str n) \<Longrightarrow> 48 \<le> c \<and> c \<le> 57"
proof (induction n rule: less_induct)
  case (less n)
  show ?case
  proof (cases "n < 10")
    case False
    have "48 \<le> c \<and> c \<le> 57" if "c \<in> set (dec_str (n div 10))"
      using that False by (intro less.IH [of "n div 10"]) simp_all
    with less.prems False show ?thesis by (auto simp: dec_str.simps [of n])
  qed (use less.prems in \<open>simp add: dec_str.simps [of n]\<close>)
qed

section \<open>Ordered maps\<close>

text \<open>A \<open>BTreeMap\<close> is the list of its entries in key order. The constructors below keep the keys
  strictly increasing (\<open>bt_wf\<close>), so two maps are equal exactly when they look up the same.\<close>

type_synonym ('k, 'v) btmap = "('k \<times> 'v) list"

definition bt_wf :: "('k::linorder, 'v) btmap \<Rightarrow> bool" where
  "bt_wf m = sorted_wrt (<) (map fst m)"

primrec bt_insert :: "'k::linorder \<Rightarrow> 'v \<Rightarrow> ('k, 'v) btmap \<Rightarrow> ('k, 'v) btmap" where
  "bt_insert k v [] = [(k, v)]"
| "bt_insert k v (e # m) =
     (if k < fst e then (k, v) # e # m
      else if k = fst e then (k, v) # m
      else e # bt_insert k v m)"

definition bt_remove :: "'k \<Rightarrow> ('k, 'v) btmap \<Rightarrow> ('k, 'v) btmap" where
  "bt_remove k m = filter (\<lambda>e. fst e \<noteq> k) m"

definition bt_get :: "('k, 'v) btmap \<Rightarrow> 'k \<Rightarrow> 'v option" where
  "bt_get m k = map_of m k"

definition bt_has :: "('k, 'v) btmap \<Rightarrow> 'k \<Rightarrow> bool" where
  "bt_has m k = (bt_get m k \<noteq> None)"

lemma bt_wf_simps [simp]:
  "bt_wf []"
  "bt_wf (e # m) \<longleftrightarrow> (\<forall>x\<in>set m. fst e < fst x) \<and> bt_wf m"
  by (auto simp: bt_wf_def)

lemma set_bt_insert: "set (bt_insert k v m) \<subseteq> insert (k, v) (set m)"
  by (induction m) auto

lemma bt_wf_insert [wf_intros]: "bt_wf m \<Longrightarrow> bt_wf (bt_insert k v m)"
proof (induction m)
  case (Cons e m)
  have "\<forall>x\<in>set (bt_insert k v m). fst e < fst x" if "fst e < k"
    using Cons.prems that set_bt_insert [of k v m] by auto
  with Cons show ?case by fastforce
qed simp

lemma bt_wf_remove [wf_intros]: "bt_wf m \<Longrightarrow> bt_wf (bt_remove k m)"
  by (induction m) (auto simp: bt_remove_def)

lemma bt_get_insert: "bt_get (bt_insert k v m) = (bt_get m)(k \<mapsto> v)"
  by (induction m) (auto simp: bt_get_def fun_eq_iff)

lemma bt_get_remove: "bt_get (bt_remove k m) = (bt_get m)(k := None)"
  by (induction m) (auto simp: bt_get_def bt_remove_def fun_eq_iff)

text \<open>The interface the clients of an ordered map rely on.\<close>

locale ordered_map =
  fixes empty_map :: "'m"
    and insert_map :: "'k \<Rightarrow> 'v \<Rightarrow> 'm \<Rightarrow> 'm"
    and remove_map :: "'k \<Rightarrow> 'm \<Rightarrow> 'm"
    and get_map :: "'m \<Rightarrow> 'k \<Rightarrow> 'v option"
    and wf_map :: "'m \<Rightarrow> bool"
  assumes get_empty: "get_map empty_map = Map.empty"
    and get_insert: "wf_map m \<Longrightarrow> get_map (insert_map k v m) = (get_map m)(k \<mapsto> v)"
    and get_remove: "wf_map m \<Longrightarrow> get_map (remove_map k m) = (get_map m)(k := None)"
    and wf_empty: "wf_map empty_map"
    and wf_insert: "wf_map m \<Longrightarrow> wf_map (insert_map k v m)"
    and wf_remove: "wf_map m \<Longrightarrow> wf_map (remove_map k m)"
    and ext: "wf_map m \<Longrightarrow> wf_map n \<Longrightarrow> get_map m = get_map n \<Longrightarrow> m = n"
begin

text \<open>Applying a list of changes: \<open>Some v\<close> sets an entry, \<open>None\<close> removes it.\<close>

definition change :: "'k \<times> 'v option \<Rightarrow> 'm \<Rightarrow> 'm" where
  "change c m = (case snd c of Some v \<Rightarrow> insert_map (fst c) v m | None \<Rightarrow> remove_map (fst c) m)"

lemma wf_change: "wf_map m \<Longrightarrow> wf_map (change c m)"
  by (simp add: change_def wf_insert wf_remove split: option.splits)

lemma get_change: "wf_map m \<Longrightarrow> get_map (change c m) = (get_map m)(fst c := snd c)"
  by (simp add: change_def get_insert get_remove split: option.splits)

lemma wf_changes: "wf_map m \<Longrightarrow> wf_map (fold change cs m)"
  by (induction cs arbitrary: m) (simp_all add: wf_change)

text \<open>With each key changed at most once, the order of the changes does not matter: a changed key
  looks up its change, every other key what it looked up before.\<close>

lemma get_changes:
  assumes "wf_map m" and "distinct (map fst cs)"
  shows "get_map (fold change cs m) k =
    (case map_of cs k of Some c \<Rightarrow> c | None \<Rightarrow> get_map m k)"
  using assms
proof (induction cs arbitrary: m)
  case Nil
  then show ?case by simp
next
  case (Cons c cs)
  have none: "map_of cs (fst c) = None"
    using Cons.prems(2) by (simp add: map_of_eq_None_iff)
  show ?case
    using Cons none by (auto simp: wf_change get_change split: option.splits prod.splits)
qed

lemma changes_reach:
  assumes "wf_map m" and "wf_map n" and "distinct (map fst cs)"
    and "\<And>k. get_map n k = (case map_of cs k of Some c \<Rightarrow> c | None \<Rightarrow> get_map m k)"
  shows "fold change cs m = n"
  by (rule ext) (use assms in \<open>simp_all add: wf_changes get_changes fun_eq_iff\<close>)

end

lemma bt_get_Some_in: "bt_get m k = Some v \<Longrightarrow> (k, v) \<in> set m"
  by (simp add: bt_get_def map_of_SomeD)

lemma bt_wf_distinct: "bt_wf m \<Longrightarrow> distinct (map fst m)"
  by (simp add: bt_wf_def strict_sorted_iff)

lemma bt_get_iff: "bt_wf m \<Longrightarrow> bt_get m k = Some v \<longleftrightarrow> (k, v) \<in> set m"
  by (simp add: bt_get_def bt_wf_distinct)

lemma bt_has_iff: "bt_has m k \<longleftrightarrow> k \<in> fst ` set m"
  by (simp add: bt_has_def bt_get_def map_of_eq_None_iff)

lemma bt_ext:
  assumes "bt_wf m" and "bt_wf n" and "bt_get m = bt_get n"
  shows "m = n"
proof -
  have "set m = set n"
    using assms by (auto simp: bt_get_iff [symmetric])
  moreover have "sorted (map fst m)" "sorted (map fst n)"
    using assms(1,2) by (simp_all add: bt_wf_def strict_sorted_imp_sorted)
  ultimately show ?thesis
    using assms(1,2) map_sorted_distinct_set_unique [of fst m n]
      inj_onI [of "set m \<union> set n" fst]
    by (metis (mono_tags, lifting) Un_absorb bt_get_iff bt_wf_distinct distinct_map
        inj_on_def prod.collapse)
qed

interpretation bt: ordered_map "[]" bt_insert bt_remove bt_get bt_wf
  by unfold_locales
    (auto simp: bt_get_insert bt_get_remove bt_wf_insert bt_wf_remove bt_get_def [where m = "[]"]
      intro: bt_ext)

end
