(* ===== verification/Proto_Types.thy ===== *)
theory Proto_Types
  imports Prelude
begin

text \<open>
  The wire types of \<open>crates/oxutrm-proto\<close> that a screen is made of: the limits and sizes of
  \<open>types.rs\<close>, cells (\<open>cell.rs\<close>), the clipboard (\<open>clipboard.rs\<close>), the reasons a state or a diff is
  refused with (\<open>error.rs\<close>), and the content rules: painted text is text and not control
  (\<open>text.rs\<close>, invariant I8) and a link URI is printable and bounded (\<open>link.rs\<close>, invariant I10).
\<close>

unbundle bit_operations_syntax

section \<open>Limits\<close>

definition MAX_SCREEN_CELLS :: nat where "MAX_SCREEN_CELLS = 262144"
definition MAX_SCREEN_DIM :: u16 where "MAX_SCREEN_DIM = 2048"
definition MAX_CELL_TEXT :: nat where "MAX_CELL_TEXT = 32"
definition MAX_TITLE :: nat where "MAX_TITLE = 512"
definition MAX_CLIPBOARD :: nat where "MAX_CLIPBOARD = 256 * 1024"
definition MAX_LINK_URI :: nat where "MAX_LINK_URI = 2083"
definition MAX_LINKS :: nat where "MAX_LINKS = 512"

lemmas limit_defs = MAX_SCREEN_CELLS_def MAX_SCREEN_DIM_def MAX_CELL_TEXT_def MAX_TITLE_def
  MAX_CLIPBOARD_def MAX_LINK_URI_def MAX_LINKS_def

datatype text_field = CellTextField | TitleField | ClipboardField | LinkUriField

fun max_bytes :: "text_field \<Rightarrow> nat" where
  "max_bytes CellTextField = MAX_CELL_TEXT"
| "max_bytes TitleField = MAX_TITLE"
| "max_bytes ClipboardField = MAX_CLIPBOARD"
| "max_bytes LinkUriField = MAX_LINK_URI"

section \<open>Why a state or a diff is refused\<close>

datatype apply_error =
    BaseMismatch (err_base: u64) (err_current: u64)
  | OutOfBounds (err_row: u16) (err_rows: u16)
  | Decode string
  | LengthMismatch nat u16 u16
  | CursorOutOfBounds u16 u16 u16 u16
  | RunOverflowsRow u16 nat u16
  | SeqZero
  | BellWentBackwards u32 u32
  | ClipboardWentBackwards u32 u32
  | ScrollbackShrank u64 u64
  | ScreenTooLarge u16 u16
  | ControlInText text_field scalar
  | TextTooLong text_field nat nat
  | TooManyLinks nat nat
  | LinkIdZero
  | BadLinkUri u16 "u8 option"
  | UnknownLink u16

section \<open>Sizes\<close>

record term_size =
  ts_cols :: u16
  ts_rows :: u16

definition check_bounds :: "term_size \<Rightarrow> apply_error + unit" where
  "check_bounds sz =
    (if ts_rows sz > MAX_SCREEN_DIM \<or> ts_cols sz > MAX_SCREEN_DIM
        \<or> unat (ts_rows sz) * unat (ts_cols sz) > MAX_SCREEN_CELLS
     then Inl (ScreenTooLarge (ts_rows sz) (ts_cols sz))
     else Inr ())"

lemma check_bounds_ok_iff [res_simps]:
  "check_bounds sz = Inr u \<longleftrightarrow>
    ts_rows sz \<le> MAX_SCREEN_DIM \<and> ts_cols sz \<le> MAX_SCREEN_DIM
    \<and> unat (ts_rows sz) * unat (ts_cols sz) \<le> MAX_SCREEN_CELLS"
  by (cases u) (auto simp: check_bounds_def not_less)

section \<open>Cells\<close>

datatype color = Default | Idx u8 | Rgb u8 u8 u8

type_synonym attrs = u16

definition BOLD :: attrs where "BOLD = 1"
definition ITALIC :: attrs where "ITALIC = 2"
definition UNDERLINE :: attrs where "UNDERLINE = 4"
definition INVERSE :: attrs where "INVERSE = 8"
definition BLINK :: attrs where "BLINK = 16"
definition STRIKE :: attrs where "STRIKE = 32"
definition DIM :: attrs where "DIM = 64"
definition HIDDEN :: attrs where "HIDDEN = 128"
definition WIDE_CONT :: attrs where "WIDE_CONT = 256"

definition attrs_contains :: "attrs \<Rightarrow> attrs \<Rightarrow> bool" where
  "attrs_contains a b = (a AND b = b)"

record cell =
  c_text :: ustr
  c_fg :: color
  c_bg :: color
  c_attrs :: attrs
  c_link :: u16

definition cell_blank :: cell where
  "cell_blank = \<lparr>c_text = [32], c_fg = Default, c_bg = Default, c_attrs = 0, c_link = 0\<rparr>"

section \<open>Painted text is text (I8)\<close>

definition is_control_scalar :: "scalar \<Rightarrow> bool" where
  "is_control_scalar c = (c \<le> 31 \<or> c = 127 \<or> (128 \<le> c \<and> c \<le> 159))"

definition check_text :: "ustr \<Rightarrow> text_field \<Rightarrow> apply_error + unit" where
  "check_text text field =
    (if str_len text > max_bytes field
     then Inl (TextTooLong field (str_len text) (max_bytes field))
     else case find is_control_scalar text of
       Some c \<Rightarrow> Inl (ControlInText field c)
     | None \<Rightarrow> Inr ())"

definition check_cell_text :: "ustr \<Rightarrow> apply_error + unit" where
  "check_cell_text text = check_text text CellTextField"

definition check_title :: "ustr \<Rightarrow> apply_error + unit" where
  "check_title title = check_text title TitleField"

fun fit_loop :: "ustr \<Rightarrow> nat \<Rightarrow> ustr \<Rightarrow> ustr" where
  "fit_loop [] mx out = out"
| "fit_loop (c # text) mx out =
     (if is_control_scalar c then fit_loop text mx out
      else if str_len out + len_utf8 c > mx then out
      else fit_loop text mx (out @ [c]))"

definition fit :: "ustr \<Rightarrow> nat \<Rightarrow> ustr" where
  "fit text mx = fit_loop text mx []"

definition fit_cell_text :: "ustr \<Rightarrow> ustr" where
  "fit_cell_text text = (if is_ok (check_cell_text text) then text else fit text MAX_CELL_TEXT)"

definition fit_title :: "ustr \<Rightarrow> ustr" where
  "fit_title title = (if is_ok (check_title title) then title else fit title MAX_TITLE)"

lemma check_text_ok_iff [res_simps]:
  "check_text text field = Inr u \<longleftrightarrow>
    str_len text \<le> max_bytes field \<and> (\<forall>c\<in>set text. \<not> is_control_scalar c)"
  by (cases u) (auto simp: check_text_def find_None_iff find_Some_iff not_less split: option.splits
      intro: nth_mem)

lemma check_cell_text_ok_iff [res_simps]:
  "check_cell_text text = Inr u \<longleftrightarrow>
    str_len text \<le> MAX_CELL_TEXT \<and> (\<forall>c\<in>set text. \<not> is_control_scalar c)"
  by (simp add: check_cell_text_def check_text_ok_iff)

lemma check_title_ok_iff [res_simps]:
  "check_title text = Inr u \<longleftrightarrow>
    str_len text \<le> MAX_TITLE \<and> (\<forall>c\<in>set text. \<not> is_control_scalar c)"
  by (simp add: check_title_def check_text_ok_iff)

text \<open>The producers' repair: the controls go, and the longest prefix of the rest that fits stays.\<close>

primrec longest_fitting :: "ustr \<Rightarrow> nat \<Rightarrow> ustr" where
  "longest_fitting [] mx = []"
| "longest_fitting (c # s) mx =
     (if len_utf8 c \<le> mx then c # longest_fitting s (mx - len_utf8 c) else [])"

lemma fit_loop_eq:
  "str_len out \<le> mx \<Longrightarrow>
    fit_loop text mx out =
      out @ longest_fitting (filter (\<lambda>c. \<not> is_control_scalar c) text) (mx - str_len out)"
  by (induction "text" mx out rule: fit_loop.induct) auto

lemma fit_eq: "fit text mx = longest_fitting (filter (\<lambda>c. \<not> is_control_scalar c) text) mx"
  by (simp add: fit_def fit_loop_eq)

lemma longest_fitting_len: "str_len (longest_fitting s mx) \<le> mx"
proof (induction s arbitrary: mx)
  case (Cons c s)
  have "str_len (longest_fitting s (mx - len_utf8 c)) \<le> mx - len_utf8 c"
    by (rule Cons.IH)
  then show ?case by auto
qed simp

lemma longest_fitting_prefix: "\<exists>t. s = longest_fitting s mx @ t"
  by (induction s arbitrary: mx) auto

lemma set_longest_fitting: "set (longest_fitting s mx) \<subseteq> set s"
  using longest_fitting_prefix [of s mx] by (metis set_append sup_ge1)

lemma longest_fitting_all: "str_len s \<le> mx \<Longrightarrow> longest_fitting s mx = s"
  by (induction s arbitrary: mx) auto

section \<open>The clipboard\<close>

datatype clipboard_target = ToClipboard | ToSelection

record clipboard_copy =
  cc_target :: clipboard_target
  cc_text :: ustr

record clipboard =
  cb_serial :: u32
  cb_copy :: "clipboard_copy option"

definition clipboard_default :: clipboard where
  "clipboard_default = \<lparr>cb_serial = 0, cb_copy = None\<rparr>"

definition without_text :: "clipboard \<Rightarrow> clipboard" where
  "without_text c = \<lparr>cb_serial = cb_serial c, cb_copy = None\<rparr>"

definition check_clipboard :: "clipboard \<Rightarrow> apply_error + unit" where
  "check_clipboard c =
    (case cb_copy c of
       Some copy \<Rightarrow>
         (if str_len (cc_text copy) > MAX_CLIPBOARD
          then Inl (TextTooLong ClipboardField (str_len (cc_text copy)) MAX_CLIPBOARD)
          else Inr ())
     | None \<Rightarrow> Inr ())"

section \<open>Links (I10)\<close>

type_synonym link_table = "(u16, ustr) btmap"

definition uri_byte_ok :: "u8 \<Rightarrow> bool" where
  "uri_byte_ok b = (0x20 \<le> b \<and> b \<le> 0x7e)"

definition check_link_uri :: "u16 \<Rightarrow> ustr \<Rightarrow> apply_error + unit" where
  "check_link_uri lid uri =
    (if str_len uri > MAX_LINK_URI
     then Inl (TextTooLong LinkUriField (str_len uri) MAX_LINK_URI)
     else if uri = [] then Inl (BadLinkUri lid None)
     else case find (\<lambda>b. \<not> uri_byte_ok b) (utf8 uri) of
       Some b \<Rightarrow> Inl (BadLinkUri lid (Some b))
     | None \<Rightarrow> Inr ())"

definition check_links :: "link_table \<Rightarrow> apply_error + unit" where
  "check_links links =
    (if length links > MAX_LINKS then Inl (TooManyLinks (length links) MAX_LINKS)
     else check_all
       (\<lambda>e. if fst e = 0 then Inl LinkIdZero else check_link_uri (fst e) (snd e)) links)"

lemma check_link_uri_ok_iff [res_simps]:
  "check_link_uri lid uri = Inr u \<longleftrightarrow>
    str_len uri \<le> MAX_LINK_URI \<and> uri \<noteq> [] \<and> (\<forall>b\<in>set (utf8 uri). uri_byte_ok b)"
  by (cases u) (auto simp: check_link_uri_def find_None_iff find_Some_iff not_less split: option.splits
      intro: nth_mem)

lemma check_links_ok_iff [res_simps]:
  "check_links links = Inr u \<longleftrightarrow>
    length links \<le> MAX_LINKS \<and>
    (\<forall>e\<in>set links. fst e \<noteq> 0 \<and> check_link_uri (fst e) (snd e) = Inr ())"
  by (cases u) (auto simp: check_links_def check_all_ok_iff not_less split: if_splits)

section \<open>Properties\<close>

lemma fit_when_ok:
  assumes "str_len t \<le> mx" and "\<forall>c\<in>set t. \<not> is_control_scalar c"
  shows "longest_fitting (filter (\<lambda>c. \<not> is_control_scalar c) t) mx = t"
proof -
  have "filter (\<lambda>c. \<not> is_control_scalar c) t = t"
    using assms(2) by (simp add: filter_id_conv)
  with assms(1) show ?thesis by (simp add: longest_fitting_all)
qed

lemma longest_fitting_checked:
  "str_len (longest_fitting (filter (\<lambda>c. \<not> is_control_scalar c) t) mx) \<le> mx
   \<and> (\<forall>c\<in>set (longest_fitting (filter (\<lambda>c. \<not> is_control_scalar c) t) mx). \<not> is_control_scalar c)"
  using longest_fitting_len set_longest_fitting [of "filter (\<lambda>c. \<not> is_control_scalar c) t" mx] by auto

lemma fit_cell_text_eq: "fit_cell_text t = longest_fitting (filter (\<lambda>c. \<not> is_control_scalar c) t) MAX_CELL_TEXT"
  using fit_when_ok [of t MAX_CELL_TEXT]
  by (auto simp: fit_cell_text_def fit_eq is_ok_def check_cell_text_ok_iff split: sum.splits)

lemma fit_title_eq: "fit_title t = longest_fitting (filter (\<lambda>c. \<not> is_control_scalar c) t) MAX_TITLE"
  using fit_when_ok [of t MAX_TITLE]
  by (auto simp: fit_title_def fit_eq is_ok_def check_title_ok_iff split: sum.splits)

lemma check_fitted: "check_cell_text (fit_cell_text t) = Inr ()" "check_title (fit_title t) = Inr ()"
  unfolding fit_cell_text_eq fit_title_eq check_cell_text_ok_iff check_title_ok_iff
  by (rule longest_fitting_checked)+

text \<open>The repair a producer applies to painted text is the longest prefix of the text without
  its control characters that fits the field, and both receivers' checks accept it, whatever the
  text was; on text that is already legal it is therefore the identity.\<close>

theorem fitted_text_is_accepted:
  "fit_cell_text t = longest_fitting (filter (\<lambda>c. \<not> is_control_scalar c) t) MAX_CELL_TEXT
   \<and> check_cell_text (fit_cell_text t) = Inr ()
   \<and> fit_title t = longest_fitting (filter (\<lambda>c. \<not> is_control_scalar c) t) MAX_TITLE
   \<and> check_title (fit_title t) = Inr ()"
  by (intro conjI fit_cell_text_eq fit_title_eq check_fitted)

end
