(* ===== verification/Link_State.thy ===== *)
theory Link_State
  imports Proto_Types
begin

text \<open>
  Whether the host is still answering (\<open>src/linkstate.rs\<close>): the phases of a link, the rebuild
  back-off, the failover decision, the buffer of keystrokes typed blind and how it is shown.
  An \<open>Instant\<close> is a natural number of nanoseconds on the monotonic clock; \<open>duration_since\<close>
  saturates at zero, as subtraction on the naturals does.
\<close>

unbundle bit_operations_syntax

type_synonym instant = nat
type_synonym duration = nat

definition from_secs :: "nat \<Rightarrow> duration" where
  "from_secs n = n * 1000000000"

definition duration_since :: "instant \<Rightarrow> instant \<Rightarrow> duration" where
  "duration_since now since = now - since"

section \<open>Timings\<close>

definition SILENT_AFTER :: duration where "SILENT_AFTER = from_secs 2"
definition REBUILD_AFTER :: duration where "REBUILD_AFTER = from_secs 20"
definition HEARTBEAT_IDLE :: duration where "HEARTBEAT_IDLE = from_secs 5"
definition FAILOVER_GRACE :: duration where "FAILOVER_GRACE = from_secs 1"
definition PROBE_TIMEOUT :: duration where "PROBE_TIMEOUT = from_secs 2"
definition PROBE_RETRY :: duration where "PROBE_RETRY = from_secs 5"
definition STANDBY_DELAY :: duration where "STANDBY_DELAY = from_secs 5"
definition MAX_HELD :: nat where "MAX_HELD = 64 * 1024"
definition HELD_SHOWN :: nat where "HELD_SHOWN = 200"

lemmas timing_defs = SILENT_AFTER_def REBUILD_AFTER_def HEARTBEAT_IDLE_def FAILOVER_GRACE_def
  PROBE_TIMEOUT_def PROBE_RETRY_def STANDBY_DELAY_def from_secs_def

definition backoff :: "u32 \<Rightarrow> duration" where
  "backoff attempt = from_secs (unat (push_bit (unat (min attempt 3)) 1 :: u64))"

definition standby_backoff :: "u32 \<Rightarrow> duration" where
  "standby_backoff failures = from_secs
    (if failures = 0 then 30 else if failures = 1 then 60 else if failures = 2 then 120 else 300)"

section \<open>Phases and the failover decision\<close>

datatype phase =
    Live
  | Silent (silent_since: instant)
  | Recovering (rec_attempt: u32) (rec_next_try: instant)
  | Confirming

fun is_outage :: "phase \<Rightarrow> bool" where
  "is_outage (Silent _) = True"
| "is_outage (Recovering _ _) = True"
| "is_outage _ = False"

datatype probe_state =
    ProbeIdle
  | ProbePending (probe_sent: instant)
  | ProbeAnswered (probe_sent: instant)
  | ProbeFailed (probe_at: instant)

definition failover_due :: "phase \<Rightarrow> probe_state \<Rightarrow> instant \<Rightarrow> bool" where
  "failover_due ph probe now =
    (let outage = is_outage ph in
     case probe of
       ProbeAnswered s \<Rightarrow> outage \<and> duration_since now s \<ge> FAILOVER_GRACE
     | _ \<Rightarrow> False)"

section \<open>Showing what was typed blind\<close>

text \<open>\<open>held_cut\<close>: the loop steps the cut back over UTF-8 continuation bytes.\<close>

definition is_cont_byte :: "u8 \<Rightarrow> bool" where
  "is_cont_byte b = (b AND 0xc0 = 0x80)"

fun cut_back :: "bytes \<Rightarrow> nat \<Rightarrow> nat" where
  "cut_back bs 0 = 0"
| "cut_back bs (Suc c) =
     (if Suc c < length bs \<and> is_cont_byte (bs ! Suc c) then cut_back bs c else Suc c)"

definition held_cut :: "bytes \<Rightarrow> nat" where
  "held_cut bs = cut_back bs (min (length bs) HELD_SHOWN)"

text \<open>\<open>String::from_utf8_lossy\<close>: a well-formed sequence is its scalar, and each maximal prefix of
  one that is cut short, and each byte that starts none, is one U+FFFD.\<close>

definition in_range :: "u8 \<Rightarrow> nat \<Rightarrow> nat \<Rightarrow> bool" where
  "in_range b lo hi = (lo \<le> unat b \<and> unat b \<le> hi)"

definition second_ok3 :: "u8 \<Rightarrow> u8 \<Rightarrow> bool" where
  "second_ok3 b c =
    (if unat b = 0xe0 then in_range c 0xa0 0xbf
     else if unat b = 0xed then in_range c 0x80 0x9f
     else in_range c 0x80 0xbf)"

definition second_ok4 :: "u8 \<Rightarrow> u8 \<Rightarrow> bool" where
  "second_ok4 b c =
    (if unat b = 0xf0 then in_range c 0x90 0xbf
     else if unat b = 0xf4 then in_range c 0x80 0x8f
     else in_range c 0x80 0xbf)"

definition cont :: "u8 \<Rightarrow> bool" where
  "cont b = in_range b 0x80 0xbf"

definition low6 :: "u8 \<Rightarrow> nat" where
  "low6 b = unat b mod 64"

text \<open>One step: the scalar at the head of the bytes and how many bytes it took.\<close>

definition next_scalar :: "u8 \<Rightarrow> bytes \<Rightarrow> scalar \<times> nat" where
  "next_scalar b bs =
    (if unat b < 0x80 then (unat b, 1)
     else if in_range b 0xc2 0xdf then
       (case bs of
          c # _ \<Rightarrow> if cont c then (unat b mod 32 * 64 + low6 c, 2) else (0xfffd, 1)
        | [] \<Rightarrow> (0xfffd, 1))
     else if in_range b 0xe0 0xef then
       (case bs of
          c # cs \<Rightarrow>
            if \<not> second_ok3 b c then (0xfffd, 1)
            else (case cs of
                d # _ \<Rightarrow> if cont d then (unat b mod 16 * 4096 + low6 c * 64 + low6 d, 3)
                         else (0xfffd, 2)
              | [] \<Rightarrow> (0xfffd, 2))
        | [] \<Rightarrow> (0xfffd, 1))
     else if in_range b 0xf0 0xf4 then
       (case bs of
          c # cs \<Rightarrow>
            if \<not> second_ok4 b c then (0xfffd, 1)
            else (case cs of
                d # ds \<Rightarrow>
                  if \<not> cont d then (0xfffd, 2)
                  else (case ds of
                      e # _ \<Rightarrow>
                        if cont e
                        then (unat b mod 8 * 262144 + low6 c * 4096 + low6 d * 64 + low6 e, 4)
                        else (0xfffd, 3)
                    | [] \<Rightarrow> (0xfffd, 3))
              | [] \<Rightarrow> (0xfffd, 2))
        | [] \<Rightarrow> (0xfffd, 1))
     else (0xfffd, 1))"

lemma next_scalar_pos: "0 < snd (next_scalar b bs)"
  by (simp add: next_scalar_def split: list.splits)

function from_utf8_lossy :: "bytes \<Rightarrow> ustr" where
  "from_utf8_lossy [] = []"
| "from_utf8_lossy (b # bs) =
     fst (next_scalar b bs) # from_utf8_lossy (drop (snd (next_scalar b bs) - 1) bs)"
  by pat_completeness auto
termination by (relation "measure length") simp_all

text \<open>A digit of \<open>{:02X}\<close>.\<close>

definition hex_upper :: "nat \<Rightarrow> scalar" where
  "hex_upper d = (if d < 10 then 48 + d else 55 + d)"

definition render_scalar :: "scalar \<Rightarrow> ustr" where
  "render_scalar ch =
    (if ch = 13 \<or> ch = 10 then [0x21b5]
     else if ch \<le> 0x1f then [94, ch + 64]
     else if ch = 0x7f then [94, 63]
     else if 0x80 \<le> ch \<and> ch \<le> 0x9f then [60, hex_upper (ch div 16), hex_upper (ch mod 16), 62]
     else [ch])"

definition render_held :: "bytes \<Rightarrow> ustr" where
  "render_held bs =
    (let cut = held_cut bs;
         shown = take cut bs;
         out = concat (map render_scalar (from_utf8_lossy shown))
     in if length bs > length shown
        then out @ str_of ''  ...and '' @ dec_str (length bs - length shown) @ str_of '' more bytes''
        else out)"

section \<open>The link state\<close>

record link_state =
  ls_phase :: phase
  last_heard :: instant
  owed_since :: "instant option"
  last_sent :: instant
  ls_held :: bytes
  silent_after :: duration
  rebuild_after :: duration

definition link_new :: "instant \<Rightarrow> link_state" where
  "link_new now = \<lparr>ls_phase = Live, last_heard = now, owed_since = None, last_sent = now,
     ls_held = [], silent_after = SILENT_AFTER, rebuild_after = REBUILD_AFTER\<rparr>"

definition retune :: "duration \<Rightarrow> duration \<Rightarrow> link_state \<Rightarrow> link_state" where
  "retune sa ra l = l\<lparr>silent_after := sa, rebuild_after := ra\<rparr>"

definition heard :: "instant \<Rightarrow> link_state \<Rightarrow> link_state" where
  "heard now l = l\<lparr>last_heard := now, owed_since := None,
     ls_phase := (if ls_held l = [] then Live else Confirming)\<rparr>"

definition sent :: "instant \<Rightarrow> link_state \<Rightarrow> link_state" where
  "sent now l = l\<lparr>last_sent := now\<rparr>"

definition heartbeat_due :: "instant \<Rightarrow> link_state \<Rightarrow> bool" where
  "heartbeat_due now l =
    (let quiet_since = max (last_heard l) (last_sent l)
     in duration_since now quiet_since \<ge> HEARTBEAT_IDLE)"

definition note_owed :: "instant \<Rightarrow> bool \<Rightarrow> link_state \<Rightarrow> link_state" where
  "note_owed now reply_owed l =
    (case (reply_owed, owed_since l) of
       (True, None) \<Rightarrow> l\<lparr>owed_since := Some now\<rparr>
     | (False, _) \<Rightarrow> l\<lparr>owed_since := None\<rparr>
     | (True, Some _) \<Rightarrow> l)"

definition evaluate :: "instant \<Rightarrow> bool \<Rightarrow> link_state \<Rightarrow> phase \<times> link_state" where
  "evaluate now reply_owed l =
    (case ls_phase l of
       Recovering a t \<Rightarrow> (ls_phase l, l)
     | Silent since \<Rightarrow>
         (let l = (if duration_since now since \<ge> rebuild_after l
                   then l\<lparr>ls_phase := Recovering 0 now\<rparr> else l)
          in (ls_phase l, l))
     | _ \<Rightarrow>
         (let l = note_owed now reply_owed l;
              l = (case owed_since l of
                     Some since \<Rightarrow>
                       if duration_since now since \<ge> silent_after l
                       then l\<lparr>ls_phase := Silent (last_heard l)\<rparr> else l
                   | None \<Rightarrow> l)
          in (ls_phase l, l)))"

definition begin_attempt :: "instant \<Rightarrow> link_state \<Rightarrow> link_state" where
  "begin_attempt now l =
    (case ls_phase l of
       Recovering a _ \<Rightarrow> l\<lparr>ls_phase := Recovering a (now + backoff a)\<rparr>
     | _ \<Rightarrow> l)"

definition rebuilt :: "instant \<Rightarrow> link_state \<Rightarrow> link_state" where
  "rebuilt now l =
    (case ls_phase l of
       Recovering _ _ \<Rightarrow> l\<lparr>ls_phase := Recovering 0 (now + backoff 0)\<rparr>
     | _ \<Rightarrow> l)"

definition attempt_failed :: "instant \<Rightarrow> link_state \<Rightarrow> link_state" where
  "attempt_failed now l =
    (case ls_phase l of
       Recovering a _ \<Rightarrow>
         (let nxt = sat_add a 1 in l\<lparr>ls_phase := Recovering nxt (now + backoff nxt)\<rparr>)
     | _ \<Rightarrow> l)"

definition held_is_full :: "link_state \<Rightarrow> bool" where
  "held_is_full l = (length (ls_held l) \<ge> MAX_HELD)"

definition take_held :: "link_state \<Rightarrow> bytes \<times> link_state" where
  "take_held l = (ls_held l, l\<lparr>ls_phase := Live, ls_held := []\<rparr>)"

definition drop_held :: "link_state \<Rightarrow> link_state" where
  "drop_held l = l\<lparr>ls_held := [], ls_phase := Live\<rparr>"

definition hold_keys :: "bytes \<Rightarrow> link_state \<Rightarrow> link_state" where
  "hold_keys bs l =
    (let room = MAX_HELD - length (ls_held l)
     in l\<lparr>ls_held := ls_held l @ take (min (length bs) room) bs\<rparr>)"

section \<open>Events\<close>

text \<open>What a session does to its link state, as data, so that a history is a list of timed events.\<close>

datatype link_event =
    Heard
  | Sent
  | Evaluate (reply_is_owed: bool)
  | BeginAttempt
  | Rebuilt
  | AttemptFailed
  | TakeHeld
  | DropHeld
  | HoldKeys bytes

fun link_do :: "instant \<times> link_event \<Rightarrow> link_state \<Rightarrow> link_state" where
  "link_do (now, Heard) l = heard now l"
| "link_do (now, Sent) l = sent now l"
| "link_do (now, Evaluate owed) l = snd (evaluate now owed l)"
| "link_do (now, BeginAttempt) l = begin_attempt now l"
| "link_do (now, Rebuilt) l = rebuilt now l"
| "link_do (now, AttemptFailed) l = attempt_failed now l"
| "link_do (now, TakeHeld) l = snd (take_held l)"
| "link_do (now, DropHeld) l = drop_held l"
| "link_do (now, HoldKeys bs) l = hold_keys bs l"

definition link_run :: "(instant \<times> link_event) list \<Rightarrow> link_state \<Rightarrow> link_state" where
  "link_run es l = fold link_do es l"

lemma link_run_simps [simp]:
  "link_run [] l = l"
  "link_run (e # es) l = link_run es (link_do e l)"
  "link_run (es @ [e]) l = link_do e (link_run es l)"
  "link_run (es @ fs) l = link_run fs (link_run es l)"
  by (simp_all add: link_run_def)

lemmas link_op_defs = heard_def sent_def evaluate_def begin_attempt_def rebuilt_def
  attempt_failed_def take_held_def drop_held_def hold_keys_def note_owed_def Let_def

lemmas link_op_splits = phase.splits option.splits bool.splits if_splits

subsection \<open>What was typed blind\<close>

text \<open>The abstract buffer: everything typed since it was last delivered or discarded. The concrete
  one is its first \<open>MAX_HELD\<close> bytes.\<close>

fun typed_do :: "link_event \<Rightarrow> bytes \<Rightarrow> bytes" where
  "typed_do (HoldKeys bs) t = t @ bs"
| "typed_do TakeHeld t = []"
| "typed_do DropHeld t = []"
| "typed_do _ t = t"

lemma ls_held_do:
  assumes "ls_held l = take MAX_HELD t"
  shows "ls_held (link_do (now, e) l) = take MAX_HELD (typed_do e t)"
proof (cases e)
  case (HoldKeys bs)
  with assms show ?thesis
    by (simp add: hold_keys_def Let_def min_def)
next
  case (Evaluate owed)
  with assms show ?thesis
    by (simp add: link_op_defs split: link_op_splits)
qed (use assms in \<open>simp_all add: link_op_defs split: phase.splits\<close>)

lemma ls_held_run:
  assumes "ls_held l = take MAX_HELD t"
  shows "ls_held (link_run es l) = take MAX_HELD (fold (\<lambda>e. typed_do (snd e)) es t)"
  using assms
proof (induction es arbitrary: l t)
  case (Cons e es)
  then show ?case
    by (cases e) (simp add: ls_held_do)
qed simp

subsection \<open>Only a frame, or the user, ends an outage\<close>

lemma evaluate_phases:
  "is_outage (ls_phase l) \<Longrightarrow> is_outage (ls_phase (snd (evaluate now owed l)))"
  by (cases "ls_phase l") (simp_all add: evaluate_def Let_def)

lemma outage_stays:
  assumes "is_outage (ls_phase l)" and "e \<notin> {Heard, TakeHeld, DropHeld}"
  shows "is_outage (ls_phase (link_do (now, e) l))"
proof (cases e)
  case (Evaluate owed)
  with assms(1) show ?thesis by (simp add: evaluate_phases)
qed (use assms in \<open>auto simp: link_op_defs split: phase.splits\<close>)

lemma fst_evaluate: "fst (evaluate now owed l) = ls_phase (snd (evaluate now owed l))"
  by (simp add: evaluate_def Let_def split: phase.splits)

subsection \<open>An outage has a cause\<close>

text \<open>\<open>owed_for es s\<close>: the history holds a lap at \<open>s\<close> that owed a reply, and nothing was heard
  since; \<open>unanswered es d\<close>: some later lap came at least \<open>d\<close> after it.\<close>

definition quiet :: "(instant \<times> link_event) list \<Rightarrow> bool" where
  "quiet es = (\<forall>e\<in>set es. snd e \<noteq> Heard)"

definition owed_for :: "(instant \<times> link_event) list \<Rightarrow> instant \<Rightarrow> bool" where
  "owed_for es s = (\<exists>pre post. es = pre @ (s, Evaluate True) # post \<and> quiet post)"

definition unanswered :: "(instant \<times> link_event) list \<Rightarrow> duration \<Rightarrow> bool" where
  "unanswered es d =
    (\<exists>pre s post t r. es = pre @ (s, Evaluate True) # post \<and> quiet post
       \<and> (t, Evaluate r) \<in> set post \<and> s + d \<le> t)"

lemma owed_for_snoc:
  assumes "owed_for es s" and "snd e \<noteq> Heard"
  shows "owed_for (es @ [e]) s"
proof -
  from assms(1) obtain pre post where "es = pre @ (s, Evaluate True) # post" "quiet post"
    by (auto simp: owed_for_def)
  with assms(2) have "es @ [e] = pre @ (s, Evaluate True) # (post @ [e])" "quiet (post @ [e])"
    by (auto simp: quiet_def)
  then show ?thesis
    unfolding owed_for_def by blast
qed

lemma unanswered_snoc:
  assumes "unanswered es d" and "snd e \<noteq> Heard"
  shows "unanswered (es @ [e]) d"
proof -
  from assms(1) obtain pre s post t r where
    "es = pre @ (s, Evaluate True) # post" "quiet post" "(t, Evaluate r) \<in> set post" "s + d \<le> t"
    by (auto simp: unanswered_def)
  with assms(2) have "es @ [e] = pre @ (s, Evaluate True) # (post @ [e])" "quiet (post @ [e])"
      "(t, Evaluate r) \<in> set (post @ [e])" "s + d \<le> t"
    by (auto simp: quiet_def)
  then show ?thesis
    unfolding unanswered_def by blast
qed

lemma unansweredI:
  assumes "owed_for es s" and "s + d \<le> t"
  shows "unanswered (es @ [(t, Evaluate r)]) d"
proof -
  from assms(1) obtain pre post where "es = pre @ (s, Evaluate True) # post" "quiet post"
    by (auto simp: owed_for_def)
  then have "es @ [(t, Evaluate r)] = pre @ (s, Evaluate True) # (post @ [(t, Evaluate r)])"
    and "quiet (post @ [(t, Evaluate r)])" "(t, Evaluate r) \<in> set (post @ [(t, Evaluate r)])"
    by (auto simp: quiet_def)
  with assms(2) show ?thesis
    unfolding unanswered_def by blast
qed

definition cause_inv :: "(instant \<times> link_event) list \<Rightarrow> link_state \<Rightarrow> bool" where
  "cause_inv es l =
    (silent_after l = SILENT_AFTER
     \<and> (\<forall>s. owed_since l = Some s \<longrightarrow> owed_for es s)
     \<and> (is_outage (ls_phase l) \<longrightarrow> unanswered es SILENT_AFTER))"

lemma calm_cases:
  assumes "\<not> is_outage (ls_phase l)"
  obtains (same) "snd (evaluate now owed l) = note_owed now owed l"
  | (silent) since where "owed_since (note_owed now owed l) = Some since"
      "since + silent_after l \<le> now \<or> silent_after l = 0"
      "snd (evaluate now owed l) =
        (note_owed now owed l)\<lparr>ls_phase := Silent (last_heard l)\<rparr>"
proof -
  have keep: "silent_after (note_owed now owed l) = silent_after l"
      "last_heard (note_owed now owed l) = last_heard l"
    by (simp_all add: note_owed_def split: option.splits bool.splits)
  show thesis
  proof (cases "owed_since (note_owed now owed l)")
    case None
    with assms show thesis
      by (intro same) (cases "ls_phase l"; simp add: evaluate_def Let_def)
  next
    case (Some since)
    show thesis
    proof (cases "duration_since now since \<ge> silent_after l")
      case True
      with assms Some keep show thesis
        by (intro silent [of since])
          (cases "ls_phase l"; auto simp: evaluate_def Let_def duration_since_def)+
    next
      case False
      with assms Some keep show thesis
        by (intro same) (cases "ls_phase l"; simp add: evaluate_def Let_def)
    qed
  qed
qed

lemma note_owed_since:
  "owed_since (note_owed now owed l) = Some s \<longleftrightarrow>
    owed \<and> (owed_since l = Some s \<or> owed_since l = None \<and> s = now)"
  by (cases owed) (auto simp: note_owed_def split: option.splits)

lemma note_owed_phase [simp]:
  "ls_phase (note_owed now owed l) = ls_phase l"
  "last_heard (note_owed now owed l) = last_heard l"
  "silent_after (note_owed now owed l) = silent_after l"
  "rebuild_after (note_owed now owed l) = rebuild_after l"
  "ls_held (note_owed now owed l) = ls_held l"
  by (simp_all add: note_owed_def split: option.splits bool.splits)

lemma owed_for_now: "owed_for (es @ [(now, Evaluate True)]) now"
  unfolding owed_for_def quiet_def by (metis append_Nil2 emptyE empty_set)

lemma SILENT_AFTER_pos: "0 < SILENT_AFTER"
  by (simp add: timing_defs)

lemma cause_inv_evaluate:
  assumes "cause_inv es l"
  shows "cause_inv (es @ [(now, Evaluate owed)]) (snd (evaluate now owed l))"
proof (cases "is_outage (ls_phase l)")
  case True
  with assms show ?thesis
    by (cases "ls_phase l")
      (auto simp: cause_inv_def evaluate_def Let_def intro: owed_for_snoc unanswered_snoc)
next
  case False
  have owed: "owed_for (es @ [(now, Evaluate owed)]) s"
    if "owed_since (note_owed now owed l) = Some s" for s
    using that assms by (auto simp: note_owed_since cause_inv_def owed_for_now intro: owed_for_snoc)
  from False show ?thesis
  proof (cases rule: calm_cases [of l now owed])
    case same
    with assms False owed show ?thesis
      by (simp add: cause_inv_def)
  next
    case (silent since)
    have sa: "silent_after l = SILENT_AFTER"
      using assms by (simp add: cause_inv_def)
    with silent(2) have "since \<noteq> now" "since + SILENT_AFTER \<le> now"
      using SILENT_AFTER_pos by auto
    with silent(1) assms have "owed_for es since"
      by (auto simp: note_owed_since cause_inv_def)
    then have "unanswered (es @ [(now, Evaluate owed)]) SILENT_AFTER"
      using \<open>since + SILENT_AFTER \<le> now\<close> by (rule unansweredI)
    with silent(3) owed sa show ?thesis
      by (simp add: cause_inv_def)
  qed
qed

lemma cause_inv_do:
  assumes "cause_inv es l"
  shows "cause_inv (es @ [(now, e)]) (link_do (now, e) l)"
proof (cases "\<exists>owed. e = Evaluate owed")
  case True
  then show ?thesis using cause_inv_evaluate [OF assms] by auto
next
  case False
  have "owed_since l = owed_since (link_do (now, e) l)
      \<and> (is_outage (ls_phase (link_do (now, e) l)) \<longrightarrow> is_outage (ls_phase l))"
    if "e \<noteq> Heard"
    using that False by (cases e) (auto simp: link_op_defs split: phase.splits)
  moreover have "silent_after (link_do (now, e) l) = silent_after l"
    using False by (cases e) (auto simp: link_op_defs split: phase.splits)
  ultimately show ?thesis
    using assms
    by (cases "e = Heard")
      (auto simp: cause_inv_def heard_def intro: owed_for_snoc unanswered_snoc)
qed

lemma cause_inv_run: "cause_inv es (link_run es (link_new t0))"
proof (induction es rule: rev_induct)
  case Nil
  then show ?case by (simp add: cause_inv_def link_new_def)
next
  case (snoc e es)
  then show ?case using cause_inv_do [of es _ "fst e" "snd e"] by simp
qed

subsection \<open>A rebuild waits for real silence\<close>

text \<open>\<open>heard_last es t0\<close>: when the host was last heard in a history that began at \<open>t0\<close>.\<close>

fun heard_last :: "(instant \<times> link_event) list \<Rightarrow> instant \<Rightarrow> instant" where
  "heard_last [] t0 = t0"
| "heard_last ((now, Heard) # es) t0 = heard_last es now"
| "heard_last (_ # es) t0 = heard_last es t0"

definition clocked :: "(instant \<times> link_event) list \<Rightarrow> instant \<Rightarrow> bool" where
  "clocked es t0 = sorted (t0 # map fst es)"

definition silence_inv :: "instant \<Rightarrow> link_state \<Rightarrow> bool" where
  "silence_inv now l =
    (rebuild_after l = REBUILD_AFTER
     \<and> (case ls_phase l of
          Silent since \<Rightarrow> since = last_heard l
        | Recovering _ _ \<Rightarrow> last_heard l + REBUILD_AFTER \<le> now
        | _ \<Rightarrow> True))"

lemma REBUILD_AFTER_pos: "0 < REBUILD_AFTER"
  by (simp add: timing_defs)

lemma silence_inv_evaluate:
  assumes "silence_inv clock l" and "clock \<le> now"
  shows "silence_inv now (snd (evaluate now owed l))"
proof (cases "is_outage (ls_phase l)")
  case True
  with assms REBUILD_AFTER_pos show ?thesis
    by (cases "ls_phase l") (auto simp: silence_inv_def evaluate_def Let_def duration_since_def)
next
  case False
  then show ?thesis
  proof (cases rule: calm_cases [of l now owed])
    case same
    with False assms show ?thesis by (simp add: silence_inv_def split: phase.splits)
  next
    case silent
    with assms show ?thesis by (simp add: silence_inv_def)
  qed
qed

lemma silence_inv_do:
  assumes "silence_inv clock l" and "clock \<le> now"
  shows "silence_inv now (link_do (now, e) l)"
proof (cases "\<exists>owed. e = Evaluate owed")
  case True
  then show ?thesis using silence_inv_evaluate [OF assms] by auto
next
  case False
  with assms show ?thesis
    by (cases e) (auto simp: silence_inv_def link_op_defs split: phase.splits)
qed

lemma silence_inv_run:
  assumes "silence_inv t0 l" and "clocked es t0"
  shows "silence_inv (last (t0 # map fst es)) (link_run es l)"
  using assms
proof (induction es arbitrary: t0 l)
  case (Cons e es)
  have "silence_inv (fst e) (link_do e l)"
    using silence_inv_do [OF Cons.prems(1), of "fst e" "snd e"] Cons.prems(2)
    by (simp add: clocked_def)
  moreover have "clocked es (fst e)"
    using Cons.prems(2) by (simp add: clocked_def)
  ultimately show ?case
    using Cons.IH by fastforce
qed simp

lemma last_heard_do:
  "last_heard (link_do (now, e) l) = (if e = Heard then now else last_heard l)"
proof (cases "\<exists>owed. e = Evaluate owed")
  case True
  then show ?thesis
    by (auto simp: evaluate_def Let_def split: phase.splits option.splits)
next
  case False
  then show ?thesis
    by (cases e) (auto simp: link_op_defs split: phase.splits)
qed

lemma last_heard_run: "last_heard (link_run es l) = heard_last es (last_heard l)"
proof (induction es arbitrary: l)
  case (Cons e es)
  obtain now ev where "e = (now, ev)" by (cases e)
  with Cons last_heard_do [of now ev l] show ?case by (cases ev) simp_all
qed simp

subsection \<open>Back-off\<close>

lemma backoff_eq: "backoff a = from_secs (2 ^ min (unat a) 3)"
proof -
  have "unat (min a 3) = min (unat a) 3"
    by (simp add: min_def word_le_nat_alt)
  moreover have "unat (push_bit k 1 :: u64) = 2 ^ k" if "k \<le> 3" for k
    using that by (auto simp: le_Suc_eq numeral_3_eq_3 push_bit_eq_mult)
  ultimately show ?thesis
    by (simp add: backoff_def)
qed

lemma attempts_failed:
  assumes "ls_phase l = Recovering a t" and "ts \<noteq> []"
  shows "ls_phase (link_run (map (\<lambda>t. (t, AttemptFailed)) ts) l) =
    Recovering (of_nat (min (unat a + length ts) (2 ^ 32 - 1)))
      (last ts + backoff (of_nat (min (unat a + length ts) (2 ^ 32 - 1))))"
  using assms
proof (induction ts arbitrary: l a t)
  case (Cons now ts)
  have step: "ls_phase (attempt_failed now l) = Recovering (sat_add a 1) (now + backoff (sat_add a 1))"
    using Cons.prems(1) by (simp add: attempt_failed_def Let_def)
  have "of_nat (unat (sat_add a 1)) = sat_add a 1"
    by simp
  then have sat: "sat_add a 1 = of_nat (min (unat a + 1) (2 ^ 32 - 1))"
    unfolding unat_sat_add by simp
  show ?case
  proof (cases "ts = []")
    case True
    with step sat show ?thesis by simp
  next
    case False
    have "min (unat (sat_add a 1) + length ts) (2 ^ 32 - 1) = min (unat a + length (now # ts)) (2 ^ 32 - 1)"
      by (simp add: unat_sat_add)
    with Cons.IH [OF step False] False show ?thesis
      by simp
  qed
qed simp

subsection \<open>Dead links are noticed\<close>

lemma lap_owed:
  assumes "is_outage (ls_phase l) \<or> owed_since l = Some a"
  shows "let l' = snd (evaluate now True l) in
    is_outage (ls_phase l') \<or> owed_since l' = Some a"
  using assms evaluate_phases [of l now True]
  by (cases "is_outage (ls_phase l)")
    (auto simp: Let_def elim!: calm_cases [of l now True] simp: note_owed_since)

definition owed_laps :: "instant list \<Rightarrow> link_state \<Rightarrow> link_state" where
  "owed_laps ts l = link_run (map (\<lambda>t. (t, Evaluate True)) ts) l"

lemma owed_laps_simps [simp]:
  "owed_laps [] l = l"
  "owed_laps (t # ts) l = owed_laps ts (snd (evaluate t True l))"
  "owed_laps (ts @ us) l = owed_laps us (owed_laps ts l)"
  by (simp_all add: owed_laps_def)

lemma owed_laps_keep:
  assumes "is_outage (ls_phase l) \<or> owed_since l = Some a"
  shows "is_outage (ls_phase (owed_laps ts l)) \<or> owed_since (owed_laps ts l) = Some a"
  using assms
proof (induction ts arbitrary: l)
  case (Cons t ts)
  then show ?case using lap_owed [OF Cons.prems, of t] by (simp add: Let_def)
qed simp

lemma owed_laps_outage:
  "is_outage (ls_phase l) \<Longrightarrow> is_outage (ls_phase (owed_laps ts l))"
  by (induction ts arbitrary: l) (simp_all add: evaluate_phases)

lemma evaluate_keeps:
  "silent_after (snd (evaluate now owed l)) = silent_after l"
  "rebuild_after (snd (evaluate now owed l)) = rebuild_after l"
  "last_heard (snd (evaluate now owed l)) = last_heard l"
  by (simp_all add: evaluate_def Let_def split: phase.splits option.splits)

lemma owed_laps_keeps:
  "silent_after (owed_laps ts l) = silent_after l"
  "rebuild_after (owed_laps ts l) = rebuild_after l"
  "last_heard (owed_laps ts l) = last_heard l"
  by (induction ts arbitrary: l) (simp_all add: evaluate_keeps)

lemma lap_late:
  assumes "is_outage (ls_phase l) \<or> owed_since l = Some a" and "a + silent_after l \<le> now"
  shows "is_outage (ls_phase (snd (evaluate now True l)))"
proof (cases "is_outage (ls_phase l)")
  case True
  then show ?thesis by (rule evaluate_phases)
next
  case False
  with assms have "owed_since (note_owed now True l) = Some a"
    by (simp add: note_owed_since)
  with False assms(2) show ?thesis
    by (cases "ls_phase l") (simp_all add: evaluate_def Let_def duration_since_def)
qed

lemma lap_first:
  assumes "owed_since l = None"
  shows "is_outage (ls_phase (snd (evaluate a True l)))
    \<or> owed_since (snd (evaluate a True l)) = Some a"
proof (cases "is_outage (ls_phase l)")
  case True
  then show ?thesis by (simp add: evaluate_phases)
next
  case False
  then show ?thesis
    using assms by (cases rule: calm_cases [of l a True]) (simp_all add: note_owed_since)
qed

definition silent_from_heard :: "link_state \<Rightarrow> bool" where
  "silent_from_heard l = (\<forall>since. ls_phase l = Silent since \<longrightarrow> since = last_heard l)"

lemma silent_from_heard_evaluate:
  assumes "silent_from_heard l"
  shows "silent_from_heard (snd (evaluate now owed l))"
proof (cases "is_outage (ls_phase l)")
  case True
  with assms show ?thesis
    by (cases "ls_phase l") (auto simp: silent_from_heard_def evaluate_def Let_def)
next
  case False
  then show ?thesis
    using assms by (cases rule: calm_cases [of l now owed]) (simp_all add: silent_from_heard_def)
qed

lemma silent_from_heard_laps: "silent_from_heard l \<Longrightarrow> silent_from_heard (owed_laps ts l)"
  by (induction ts arbitrary: l) (simp_all add: silent_from_heard_evaluate)

lemma lap_escalates:
  assumes "is_outage (ls_phase l)" and "silent_from_heard l"
    and "last_heard l + rebuild_after l \<le> now"
  shows "\<exists>n t. ls_phase (snd (evaluate now True l)) = Recovering n t"
  using assms
  by (cases "ls_phase l") (auto simp: evaluate_def Let_def duration_since_def silent_from_heard_def)

lemma dead_link_recovers:
  assumes "owed_since l = None" and "silent_from_heard l"
    and "a + silent_after l \<le> b" and "last_heard l + rebuild_after l \<le> c"
  shows "\<exists>n t. ls_phase (owed_laps (a # ts @ b # us @ [c]) l) = Recovering n t"
proof -
  define l1 where "l1 = owed_laps (a # ts) l"
  have "is_outage (ls_phase l1) \<or> owed_since l1 = Some a"
    using lap_first [OF assms(1), of a] by (simp add: l1_def owed_laps_keep)
  moreover have "silent_after l1 = silent_after l"
    unfolding l1_def by (rule owed_laps_keeps)
  ultimately have "is_outage (ls_phase (snd (evaluate b True l1)))"
    using assms(3) by (intro lap_late [of _ a]) simp_all
  then have out: "is_outage (ls_phase (owed_laps (b # us) l1))"
    by (simp add: owed_laps_outage)
  have "\<exists>n t. ls_phase (snd (evaluate c True (owed_laps (b # us) l1))) = Recovering n t"
  proof (rule lap_escalates [OF out])
    show "silent_from_heard (owed_laps (b # us) l1)"
      unfolding l1_def using assms(2) by (intro silent_from_heard_laps)
    show "last_heard (owed_laps (b # us) l1) + rebuild_after (owed_laps (b # us) l1) \<le> c"
      using assms(4) unfolding l1_def owed_laps_keeps .
  qed
  then show ?thesis
    by (simp add: l1_def)
qed

section \<open>Text typed blind is shown as typed\<close>

text \<open>A Unicode scalar value.\<close>

definition is_scalar :: "scalar \<Rightarrow> bool" where
  "is_scalar c = (c < 0xd800 \<or> (0xdfff < c \<and> c < 0x110000))"

lemma unat_of_nat_8 [simp]: "n < 256 \<Longrightarrow> unat (of_nat n :: u8) = n"
  by (simp add: unat_of_nat)

text \<open>The decoder on the bytes of one scalar, byte values given.\<close>

lemma tag_mod:
  "h < 32 \<Longrightarrow> (192 + h) mod 32 = h" "h < 16 \<Longrightarrow> (224 + h) mod 16 = h"
  "h \<le> 4 \<Longrightarrow> (240 + h) mod 8 = h" "h < 64 \<Longrightarrow> (128 + h) mod 64 = h" for h :: nat
  using mod_add_left_eq [of 192 32 h] mod_add_left_eq [of 224 16 h] mod_add_left_eq [of 240 8 h]
    mod_add_left_eq [of 128 64 h]
  by simp_all

lemma base64_split:
  "c = c div 4096 * 4096 + c div 64 mod 64 * 64 + c mod 64"
  "c = c div 262144 * 262144 + c div 4096 mod 64 * 4096 + c div 64 mod 64 * 64 + c mod 64"
  for c :: nat
proof -
  have dd: "c div 4096 = c div 64 div 64" "c div 262144 = c div 64 div 64 div 64"
    by (simp_all flip: div_mult2_eq)
  have join3: "c' = r * 4096 + b * 64 + a" if "q * 64 + a = c'" "r * 64 + b = q"
    for a b c' q r :: nat
    using that by auto
  have join4: "c' = r * 262144 + d * 4096 + b * 64 + a"
    if "q * 64 + a = c'" "p * 64 + b = q" "r * 64 + d = p" for a b c' d p q r :: nat
    using that by auto
  show "c = c div 4096 * 4096 + c div 64 mod 64 * 64 + c mod 64"
    unfolding dd by (rule join3 [OF div_mult_mod_eq div_mult_mod_eq])
  show "c = c div 262144 * 262144 + c div 4096 mod 64 * 4096 + c div 64 mod 64 * 64 + c mod 64"
    unfolding dd by (rule join4 [OF div_mult_mod_eq div_mult_mod_eq div_mult_mod_eq])
qed

lemma next_scalar_2:
  assumes "unat b = 192 + h" and "unat x = 128 + l" and "2 \<le> h" "h < 32" "l < 64"
  shows "next_scalar b (x # rest) = (h * 64 + l, 2)"
  using assms by (simp add: next_scalar_def in_range_def cont_def low6_def tag_mod)

lemma next_scalar_3:
  assumes "unat b = 224 + h" and "unat x = 128 + m" and "unat y = 128 + l"
    and "h < 16" "m < 64" "l < 64" and "h = 0 \<longrightarrow> 32 \<le> m" and "h = 13 \<longrightarrow> m \<le> 31"
  shows "next_scalar b (x # y # rest) = (h * 4096 + m * 64 + l, 3)"
  using assms by (simp add: next_scalar_def in_range_def cont_def low6_def second_ok3_def tag_mod)

lemma next_scalar_4:
  assumes "unat b = 240 + h" and "unat x = 128 + m" and "unat y = 128 + n" and "unat z = 128 + l"
    and "h \<le> 4" "m < 64" "n < 64" "l < 64" and "h = 0 \<longrightarrow> 16 \<le> m" and "h = 4 \<longrightarrow> m \<le> 15"
  shows "next_scalar b (x # y # z # rest) = (h * 262144 + m * 4096 + n * 64 + l, 4)"
  using assms by (simp add: next_scalar_def in_range_def cont_def low6_def second_ok4_def tag_mod)

lemma next_scalar_utf8:
  assumes "is_scalar c"
  shows "\<exists>b bs. utf8_scalar c = b # bs \<and> next_scalar b (bs @ rest) = (c, Suc (length bs))"
proof -
  consider "c < 128" | "128 \<le> c" "c < 2048" | "2048 \<le> c" "c < 65536" | "65536 \<le> c" "c < 0x110000"
    using assms by (fastforce simp: is_scalar_def)
  then show ?thesis
  proof cases
    case 1
    then show ?thesis by (simp add: utf8_scalar_def next_scalar_def)
  next
    case 2
    have "next_scalar (of_nat (192 + c div 64)) (of_nat (128 + c mod 64) # rest)
        = (c div 64 * 64 + c mod 64, 2)"
      using 2 by (intro next_scalar_2 unat_of_nat_8) auto
    with 2 show ?thesis by (simp add: utf8_scalar_def)
  next
    case 3
    define h m l where "h = c div 4096" and "m = c div 64 mod 64" and "l = c mod 64"
    have c: "c = h * 4096 + m * 64 + l" and "m < 64" "l < 64"
      unfolding h_def m_def l_def by (rule base64_split, simp_all)
    then have "next_scalar (of_nat (224 + h)) (of_nat (128 + m) # of_nat (128 + l) # rest)
        = (h * 4096 + m * 64 + l, 3)"
      using 3 assms by (intro next_scalar_3 unat_of_nat_8) (auto simp: is_scalar_def)
    with 3 c [symmetric] show ?thesis by (simp add: utf8_scalar_def flip: h_def m_def l_def)
  next
    case 4
    define h m n l where "h = c div 262144" and "m = c div 4096 mod 64"
      and "n = c div 64 mod 64" and "l = c mod 64"
    have c: "c = h * 262144 + m * 4096 + n * 64 + l" and "m < 64" "n < 64" "l < 64"
      unfolding h_def m_def n_def l_def by (rule base64_split, simp_all)
    then have "next_scalar (of_nat (240 + h))
          (of_nat (128 + m) # of_nat (128 + n) # of_nat (128 + l) # rest)
        = (h * 262144 + m * 4096 + n * 64 + l, 4)"
      using 4 by (intro next_scalar_4 unat_of_nat_8) auto
    with 4 c [symmetric] show ?thesis by (simp add: utf8_scalar_def flip: h_def m_def n_def l_def)
  qed
qed

lemma from_utf8_lossy_utf8: "(\<forall>c\<in>set s. is_scalar c) \<Longrightarrow> from_utf8_lossy (utf8 s) = s"
proof (induction s)
  case (Cons c s)
  then obtain b bs where "utf8_scalar c = b # bs"
      "next_scalar b (bs @ utf8 s) = (c, Suc (length bs))"
    using next_scalar_utf8 [of c "utf8 s"] by auto
  with Cons show ?case
    by (simp add: utf8_def)
qed (simp add: utf8_def)

subsection \<open>The cut falls between characters\<close>

lemma is_cont_byte_table: "\<forall>n\<in>set [0..<256]. is_cont_byte (of_nat n) = (128 \<le> n \<and> n < 192)"
  by code_simp

lemma is_cont_byte_iff: "is_cont_byte b \<longleftrightarrow> 128 \<le> unat b \<and> unat b < 192"
proof -
  have "unat b < 256" using unat_lt2p [of b] by simp
  then show ?thesis using is_cont_byte_table [rule_format, of "unat b"] by simp
qed

lemma utf8_scalar_shape:
  assumes "is_scalar c"
  shows "\<exists>b bs. utf8_scalar c = b # bs \<and> \<not> is_cont_byte b \<and> (\<forall>x\<in>set bs. is_cont_byte x)"
proof -
  have tail: "is_cont_byte (of_nat (128 + n mod 64))" for n
  proof -
    have "unat (of_nat (128 + n mod 64) :: u8) = 128 + n mod 64" "n mod 64 < 64"
      by (rule unat_of_nat_8) simp_all
    then show ?thesis unfolding is_cont_byte_iff by linarith
  qed
  have lead: "\<not> is_cont_byte (of_nat n)" if "n < 256" "n < 128 \<or> 192 \<le> n" for n
    using that unfolding is_cont_byte_iff by auto
  have "c < 0x110000" using assms by (auto simp: is_scalar_def)
  then have "c < 2048 \<Longrightarrow> 192 + c div 64 < 256" "c < 65536 \<Longrightarrow> 224 + c div 4096 < 256"
      "240 + c div 262144 < 256"
    by auto
  then show ?thesis
    unfolding utf8_scalar_def
    by (auto intro!: tail dest: lead [THEN notE, rotated 2] simp del: of_nat_add of_nat_numeral)
qed

lemma cut_back_eq:
  assumes "k \<le> n" and "n < length bs" and "\<And>j. k < j \<Longrightarrow> j \<le> n \<Longrightarrow> is_cont_byte (bs ! j)"
    and "\<not> is_cont_byte (bs ! k)"
  shows "cut_back bs n = k"
  using assms
proof (induction n)
  case (Suc n)
  then show ?case
    by (cases "k = Suc n") auto
qed simp

lemma longest_fitting_stops:
  "\<exists>t. s = longest_fitting s mx @ t \<and> (t = [] \<or> mx < str_len (longest_fitting s mx) + len_utf8 (hd t))"
proof (induction s arbitrary: mx)
  case (Cons c s)
  show ?case
  proof (cases "len_utf8 c \<le> mx")
    case True
    obtain t where "s = longest_fitting s (mx - len_utf8 c) @ t"
        "t = [] \<or> mx - len_utf8 c < str_len (longest_fitting s (mx - len_utf8 c)) + len_utf8 (hd t)"
      using Cons.IH by blast
    with True show ?thesis
      by (intro exI [of _ t]) auto
  qed auto
qed simp

lemma utf8_append: "utf8 (s @ t) = utf8 s @ utf8 t"
  by (simp add: utf8_def)

lemma cut_back_inside:
  assumes "bs = xs @ b # ys @ zs" and "\<not> is_cont_byte b" and "\<forall>y\<in>set ys. is_cont_byte y"
    and "length xs \<le> n" and "n < length xs + Suc (length ys)"
  shows "cut_back bs n = length xs"
proof (rule cut_back_eq)
  show "is_cont_byte (bs ! j)" if "length xs < j" "j \<le> n" for j
  proof -
    have "bs ! j = ys ! (j - Suc (length xs))"
      using that assms(1,5) by (auto simp: nth_append nth_Cons')
    moreover have "j - Suc (length xs) < length ys"
      using that assms(5) by simp
    ultimately show ?thesis using assms(3) by simp
  qed
qed (use assms in auto)

lemma held_cut_utf8:
  assumes "\<forall>c\<in>set s. is_scalar c"
  shows "take (held_cut (utf8 s)) (utf8 s) = utf8 (longest_fitting s HELD_SHOWN)"
proof (cases "length (utf8 s) \<le> HELD_SHOWN")
  case True
  then have "held_cut (utf8 s) = length (utf8 s)"
    by (cases "length (utf8 s)") (simp_all add: held_cut_def)
  with True show ?thesis
    by (simp add: length_utf8 longest_fitting_all)
next
  case False
  define p where "p = longest_fitting s HELD_SHOWN"
  obtain t where t: "s = p @ t" "t = [] \<or> HELD_SHOWN < str_len p + len_utf8 (hd t)"
    using longest_fitting_stops p_def by blast
  have le: "str_len p \<le> HELD_SHOWN"
    unfolding p_def by (rule longest_fitting_len)
  with False t obtain c t' where ct: "t = c # t'" "HELD_SHOWN < str_len p + len_utf8 c"
    by (cases t) (auto simp: length_utf8)
  with assms t have "is_scalar c" by simp
  then obtain b bs where sc: "utf8_scalar c = b # bs" "\<not> is_cont_byte b" "\<forall>x\<in>set bs. is_cont_byte x"
    using utf8_scalar_shape by blast
  have "cut_back (utf8 s) HELD_SHOWN = length (utf8 p)"
  proof (rule cut_back_inside)
    show "utf8 s = utf8 p @ b # bs @ utf8 t'"
      by (simp add: t(1) ct(1) sc(1) utf8_def)
    show "HELD_SHOWN < length (utf8 p) + Suc (length bs)"
      using ct(2) length_utf8_scalar [of c] sc(1) by (simp add: length_utf8)
  qed (use sc le in \<open>simp_all add: length_utf8\<close>)
  then have "held_cut (utf8 s) = length (utf8 p)"
    using False by (simp add: held_cut_def min_def)
  then have "take (held_cut (utf8 s)) (utf8 s) = utf8 p"
    by (simp add: t(1) utf8_append)
  then show ?thesis
    by (simp only: p_def)
qed

subsection \<open>What is shown is safe to paint\<close>

lemma render_scalar_safe: "x \<in> set (render_scalar ch) \<Longrightarrow> \<not> is_control_scalar x"
  by (auto simp: render_scalar_def is_control_scalar_def hex_upper_def split: if_splits)

lemma str_of_plain: "\<forall>c\<in>set (str_of ''  ...and '') \<union> set (str_of '' more bytes''). \<not> is_control_scalar c"
  by code_simp

lemma dec_str_safe: "c \<in> set (dec_str n) \<Longrightarrow> \<not> is_control_scalar c"
  by (drule dec_str_digits) (simp add: is_control_scalar_def)

lemma render_held_safe:
  assumes "x \<in> set (render_held bs)"
  shows "\<not> is_control_scalar x"
proof -
  define shown where "shown = take (held_cut bs) bs"
  have "x \<in> set (concat (map render_scalar (from_utf8_lossy shown)))
      \<or> x \<in> set (str_of ''  ...and '') \<union> set (str_of '' more bytes'')
      \<or> x \<in> set (dec_str (length bs - length shown))"
    using assms unfolding render_held_def Let_def shown_def set_append
    by (auto split: if_splits)
  then show ?thesis
    using str_of_plain dec_str_safe by (auto dest: render_scalar_safe)
qed

section \<open>Properties\<close>

text \<open>The user is told of an outage only for a reason. In any history of a link with the default
  timing, being in an outage means that some lap owed the host's reply, that nothing was heard from
  the host since, and that another lap came at least two seconds later.\<close>

theorem outage_has_a_cause:
  assumes "is_outage (ls_phase (link_run es (link_new t0)))"
  shows "\<exists>pre s post t r. es = pre @ (s, Evaluate True) # post \<and> (\<forall>e\<in>set post. snd e \<noteq> Heard)
    \<and> (t, Evaluate r) \<in> set post \<and> s + from_secs 2 \<le> t"
  using cause_inv_run [of es t0] assms
  by (simp add: cause_inv_def unanswered_def quiet_def SILENT_AFTER_def)

theorem outage_has_a_cause_witness:
  "\<exists>pre s post t r. [(0, Evaluate True), (from_secs 3, Evaluate True)] = pre @ (s, Evaluate True) # post
    \<and> (\<forall>e\<in>set post. snd e \<noteq> Heard) \<and> (t, Evaluate r) \<in> set post \<and> s + from_secs 2 \<le> t"
  by (rule outage_has_a_cause [of _ 0])
    (simp add: link_new_def evaluate_def note_owed_def duration_since_def timing_defs Let_def)

text \<open>The client starts rebuilding only after twenty seconds of real silence: in any history with
  a clock that does not run backwards, the phase is \<open>Recovering\<close> only when the host was last heard at
  least \<open>REBUILD_AFTER\<close> before the latest event.\<close>

theorem rebuild_waits_for_silence:
  assumes "clocked es t0" and "ls_phase (link_run es (link_new t0)) = Recovering n t"
  shows "heard_last es t0 + REBUILD_AFTER \<le> last (t0 # map fst es)"
proof -
  have "silence_inv t0 (link_new t0)"
    by (simp add: silence_inv_def link_new_def)
  from silence_inv_run [OF this assms(1)] assms(2)
  have "last_heard (link_run es (link_new t0)) + REBUILD_AFTER \<le> last (t0 # map fst es)"
    by (simp add: silence_inv_def)
  moreover have "last_heard (link_run es (link_new t0)) = heard_last es t0"
    unfolding last_heard_run by (simp add: link_new_def)
  ultimately show ?thesis by simp
qed

theorem rebuild_waits_for_silence_witness:
  "heard_last [(0, Evaluate True), (from_secs 3, Evaluate True), (from_secs 20, Evaluate True)] 0
    + REBUILD_AFTER \<le> from_secs 20"
  using rebuild_waits_for_silence [of "[(0, Evaluate True), (from_secs 3, Evaluate True),
      (from_secs 20, Evaluate True)]" 0 0 "from_secs 20"]
  by (simp add: clocked_def link_new_def evaluate_def note_owed_def duration_since_def timing_defs Let_def)



text \<open>C34: what is typed blind is kept from the front. Over any history the held buffer is exactly the
  first 64 KiB of everything typed since it was last delivered or discarded: the oldest bytes are
  never dropped, and it never grows past the cap.\<close>

theorem held_keeps_the_oldest:
  "ls_held (link_run es (link_new t0)) = take MAX_HELD (fold (\<lambda>e. typed_do (snd e)) es [])"
  by (rule ls_held_run) (simp add: link_new_def)

text \<open>C32: an outage is ended only by a frame, or by the user's own answer: every other event leaves
  an outage an outage, so a landed rebuild or a failed one never reports the link as live.\<close>

theorem only_a_frame_ends_an_outage:
  assumes "is_outage (ls_phase l)" and "\<forall>e\<in>set es. snd e \<notin> {Heard, TakeHeld, DropHeld}"
  shows "is_outage (ls_phase (link_run es l))"
  using assms
proof (induction es arbitrary: l)
  case (Cons e es)
  have "is_outage (ls_phase (link_do (fst e, snd e) l))"
    by (rule outage_stays) (use Cons.prems in auto)
  with Cons show ?case by simp
qed simp

theorem only_a_frame_ends_an_outage_witness:
  "is_outage (ls_phase (link_run [(9, Rebuilt), (9, Evaluate False), (12, AttemptFailed)]
    ((link_new 0)\<lparr>ls_phase := Recovering 0 4\<rparr>)))"
  by (rule only_a_frame_ends_an_outage) simp_all

text \<open>The retry schedule. After \<open>k\<close> failures in a row the next attempt is due 2, 4, 8, 8, ...
  seconds after the last failure, and the attempt counter saturates rather than wrapping into an
  instant retry.\<close>

theorem retry_schedule:
  assumes "ls_phase l = Recovering 0 t" and "ts \<noteq> []"
  shows "\<exists>n. ls_phase (link_run (map (\<lambda>t. (t, AttemptFailed)) ts) l)
      = Recovering n (last ts + from_secs (2 ^ min (length ts) 3))
    \<and> unat n = min (length ts) (2 ^ 32 - 1)"
proof -
  let ?k = "min (length ts) (2 ^ 32 - 1)"
  have k: "unat (of_nat ?k :: u32) = ?k"
    by (simp add: unat_of_nat)
  have m: "min ?k 3 = min (length ts) 3"
    by simp
  have "ls_phase (link_run (map (\<lambda>t. (t, AttemptFailed)) ts) l)
      = Recovering (of_nat ?k) (last ts + backoff (of_nat ?k))"
    using attempts_failed [OF assms] by simp
  with k m show ?thesis
    unfolding backoff_eq by (intro exI [of _ "of_nat ?k"]) (simp only: simp_thms)
qed

theorem retry_schedule_witness:
  "\<exists>n. ls_phase (link_run (map (\<lambda>t. (t, AttemptFailed)) [5, 90])
      ((link_new 0)\<lparr>ls_phase := Recovering 0 4\<rparr>)) = Recovering n (90 + from_secs 4) \<and> unat n = 2"
  using retry_schedule [of "(link_new 0)\<lparr>ls_phase := Recovering 0 4\<rparr>" 4 "[5, 90]"]
  by (simp flip: numeral_2_eq_2)

text \<open>C35: what the box shows of the held bytes is safe to paint, whatever bytes were typed: it holds
  no control character, C0, DEL or C1.\<close>

theorem held_is_safe_to_paint: "list_all (\<lambda>c. \<not> is_control_scalar c) (render_held bs)"
  using render_held_safe by (simp add: list_all_iff)

text \<open>Text typed blind is shown as typed. When the held bytes are the UTF-8 of some text, the part
  that is shown is decoded back to exactly the longest prefix of that text that fits 200 bytes: the
  cut never falls inside a character and no character is mangled.\<close>

theorem held_text_is_shown_as_typed:
  assumes "\<forall>c\<in>set s. is_scalar c"
  shows "from_utf8_lossy (take (held_cut (utf8 s)) (utf8 s)) = longest_fitting s HELD_SHOWN"
proof -
  have "\<forall>c\<in>set (longest_fitting s HELD_SHOWN). is_scalar c"
    using assms set_longest_fitting [of s HELD_SHOWN] by blast
  then show ?thesis
    unfolding held_cut_utf8 [OF assms] by (rule from_utf8_lossy_utf8)
qed

theorem held_text_is_shown_as_typed_witness:
  "from_utf8_lossy (take (held_cut (utf8 [0x4c, 0xe9, 0x20ac, 0x1f600])) (utf8 [0x4c, 0xe9, 0x20ac, 0x1f600]))
    = [0x4c, 0xe9, 0x20ac, 0x1f600]"
  using held_text_is_shown_as_typed [of "[0x4c, 0xe9, 0x20ac, 0x1f600]"]
  by (simp add: is_scalar_def HELD_SHOWN_def len_utf8_def)

end
