(* ===== verification/Ui_Keys.thy ===== *)
theory Ui_Keys
  imports Link_State "HOL-Library.Sublist"
begin

text \<open>
  What the popup and the selector share in reading keys, from \<open>src/ui.rs\<close>: a line of text being typed
  (\<open>Field\<close>), the key an escape sequence stands for, and the end of a bracketed paste found across
  reads. The lemmas show that a field never holds a control character or more than its limit, that
  text typed byte by byte is the text, and that the paste scanner finds exactly the first end marker,
  however the paste is cut.
\<close>

section \<open>Constants\<close>

definition PREFIX :: u8 where "PREFIX = 0x1c"
definition KEY_ESC :: u8 where "KEY_ESC = 0x1b"
definition DOUBLE_PRESS :: duration where "DOUBLE_PRESS = 500 * 1000000"
definition ANSWER_GUARD :: duration where "ANSWER_GUARD = 500 * 1000000"
definition LINGER :: duration where "LINGER = from_secs 3"
definition PASTE_END :: bytes where "PASTE_END = [0x1b, 0x5b, 0x32, 0x30, 0x31, 0x7e]"
definition FIELD_MAX :: nat where "FIELD_MAX = 256"

section \<open>A line being typed\<close>

text \<open>\<open>std::str::from_utf8\<close> with what the caller asks of its error: whether the bytes are only cut
  short (\<open>error_len\<close> is none) or can never become text.\<close>

datatype utf8_result = Utf8 ustr | CutShort | NotUtf8

fun utf8_cons :: "scalar \<Rightarrow> utf8_result \<Rightarrow> utf8_result" where
  "utf8_cons c (Utf8 s) = Utf8 (c # s)"
| "utf8_cons c r = r"

fun from_utf8 :: "bytes \<Rightarrow> utf8_result" where
  "from_utf8 [] = Utf8 []"
| "from_utf8 (b # bs) =
     (if unat b < 0x80 then utf8_cons (unat b) (from_utf8 bs)
      else if in_range b 0xc2 0xdf then
        (case bs of
           [] \<Rightarrow> CutShort
         | c # cs \<Rightarrow> if cont c then utf8_cons (unat b mod 32 * 64 + low6 c) (from_utf8 cs) else NotUtf8)
      else if in_range b 0xe0 0xef then
        (case bs of
           [] \<Rightarrow> CutShort
         | c # cs \<Rightarrow>
             if \<not> second_ok3 b c then NotUtf8
             else (case cs of
                 [] \<Rightarrow> CutShort
               | d # ds \<Rightarrow>
                   if cont d then utf8_cons (unat b mod 16 * 4096 + low6 c * 64 + low6 d) (from_utf8 ds)
                   else NotUtf8))
      else if in_range b 0xf0 0xf4 then
        (case bs of
           [] \<Rightarrow> CutShort
         | c # cs \<Rightarrow>
             if \<not> second_ok4 b c then NotUtf8
             else (case cs of
                 [] \<Rightarrow> CutShort
               | d # ds \<Rightarrow>
                   if \<not> cont d then NotUtf8
                   else (case ds of
                       [] \<Rightarrow> CutShort
                     | e # es \<Rightarrow>
                         if cont e
                         then utf8_cons (unat b mod 8 * 262144 + low6 c * 4096 + low6 d * 64 + low6 e) (from_utf8 es)
                         else NotUtf8)))
      else NotUtf8)"

record field =
  fd_text :: ustr
  fd_partial :: bytes

definition field_default :: field where
  "field_default = \<lparr>fd_text = [], fd_partial = []\<rparr>"

definition field_set :: "ustr \<Rightarrow> field \<Rightarrow> field" where
  "field_set text f = f\<lparr>fd_text := text, fd_partial := []\<rparr>"

definition field_clear :: "field \<Rightarrow> field" where
  "field_clear f = field_set [] f"

definition field_erase :: "field \<Rightarrow> field" where
  "field_erase f = f\<lparr>fd_partial := [], fd_text := butlast (fd_text f)\<rparr>"

primrec push_chars :: "ustr \<Rightarrow> ustr \<Rightarrow> ustr" where
  "push_chars [] text = text"
| "push_chars (c # cs) text = push_chars cs (if length text < FIELD_MAX then text @ [c] else text)"

definition type_byte :: "u8 \<Rightarrow> field \<Rightarrow> field" where
  "type_byte b f =
    (let partial = fd_partial f @ [b]
     in case from_utf8 partial of
          Utf8 s \<Rightarrow> f\<lparr>fd_text := push_chars (filter (\<lambda>c. \<not> is_control_scalar c) s) (fd_text f), fd_partial := []\<rparr>
        | CutShort \<Rightarrow> f\<lparr>fd_partial := partial\<rparr>
        | NotUtf8 \<Rightarrow> f\<lparr>fd_partial := []\<rparr>)"

section \<open>Escape sequences and pastes\<close>

datatype key = Up | Down | Byte u8

text \<open>\<open>position\<close> of the final byte of a CSI sequence, or the rest.\<close>

primrec csi_len :: "bytes \<Rightarrow> nat" where
  "csi_len [] = 0"
| "csi_len (b # bs) = (if 0x40 \<le> b \<and> b \<le> 0x7e then 1 else Suc (csi_len bs))"

definition escape_seq :: "bytes \<Rightarrow> key option \<times> nat" where
  "escape_seq tail =
    (case tail of
       [] \<Rightarrow> (None, 0)
     | a # rest \<Rightarrow>
         if (a = 0x5b \<or> a = 0x4f) \<and> take 1 rest = [0x41] then (Some Up, 2)
         else if (a = 0x5b \<or> a = 0x4f) \<and> take 1 rest = [0x42] then (Some Down, 2)
         else if take 5 tail = [0x5b, 0x32, 0x30, 0x30, 0x7e] then (None, 5)
         else if a = 0x5b then (None, 1 + csi_len rest)
         else if a = 0x4f \<and> rest \<noteq> [] then (None, 2)
         else (None, 1))"

text \<open>The sunk bytes, the new \<open>pasting\<close> and what follows the end.\<close>

fun paste_through :: "nat option \<Rightarrow> bytes \<Rightarrow> bytes \<times> nat option \<times> bytes" where
  "paste_through pasting [] = ([], pasting, [])"
| "paste_through pasting (b # bs) =
     (let matched = (case pasting of Some n \<Rightarrow> n | None \<Rightarrow> 0)
      in if b = PASTE_END ! matched then
           (if matched + 1 = length PASTE_END then ([], None, bs)
            else paste_through (Some (matched + 1)) bs)
         else
           (let again = (b = PASTE_END ! 0);
                (sunk, pasting', rest) = paste_through (Some (if again then 1 else 0)) bs
            in (take matched PASTE_END @ (if again then [] else [b]) @ sunk, pasting', rest)))"

section \<open>Fields\<close>

lemma push_chars_eq: "push_chars cs text = text @ take (FIELD_MAX - length text) cs"
  by (induction cs arbitrary: "text") (auto simp: take_Cons' not_less)

lemma from_utf8_1: "unat b < 128 \<Longrightarrow> from_utf8 [b] = Utf8 [unat b]"
  by simp

lemma from_utf8_2:
  assumes "unat b = 192 + h" and "unat x = 128 + l" and "2 \<le> h" "h < 32" "l < 64"
  shows "from_utf8 [b] = CutShort" "from_utf8 [b, x] = Utf8 [h * 64 + l]"
  using assms by (simp_all add: in_range_def cont_def low6_def tag_mod)

lemma from_utf8_3:
  assumes "unat b = 224 + h" and "unat x = 128 + m" and "unat y = 128 + l"
    and "h < 16" "m < 64" "l < 64" and "h = 0 \<longrightarrow> 32 \<le> m" and "h = 13 \<longrightarrow> m \<le> 31"
  shows "from_utf8 [b] = CutShort" "from_utf8 [b, x] = CutShort"
    "from_utf8 [b, x, y] = Utf8 [h * 4096 + m * 64 + l]"
  using assms by (simp_all add: in_range_def cont_def low6_def second_ok3_def tag_mod)

lemma from_utf8_4:
  assumes "unat b = 240 + h" and "unat x = 128 + m" and "unat y = 128 + n" and "unat z = 128 + l"
    and "h \<le> 4" "m < 64" "n < 64" "l < 64" and "h = 0 \<longrightarrow> 16 \<le> m" and "h = 4 \<longrightarrow> m \<le> 15"
  shows "from_utf8 [b] = CutShort" "from_utf8 [b, x] = CutShort" "from_utf8 [b, x, y] = CutShort"
    "from_utf8 [b, x, y, z] = Utf8 [h * 262144 + m * 4096 + n * 64 + l]"
  using assms by (simp_all add: in_range_def cont_def low6_def second_ok4_def tag_mod)

declare from_utf8.simps(2) [simp del]

text \<open>A character's bytes arrive one at a time: it is added with the last of them.\<close>

lemma utf8_scalar_parts:
  assumes "is_scalar c"
  shows "(\<forall>n. 0 < n \<and> n < length (utf8_scalar c) \<longrightarrow> from_utf8 (take n (utf8_scalar c)) = CutShort)
    \<and> from_utf8 (utf8_scalar c) = Utf8 [c] \<and> utf8_scalar c \<noteq> []"
proof -
  have u8: "unat (of_nat n :: u8) = n" if "n < 256" for n
    using that by (rule unat_of_nat_8)
  consider "c < 128" | "128 \<le> c" "c < 2048" | "2048 \<le> c" "c < 65536" | "65536 \<le> c" "c < 0x110000"
    using assms by (fastforce simp: is_scalar_def)
  then show ?thesis
  proof cases
    case 1
    then show ?thesis using from_utf8_1 [of "of_nat c"] by (auto simp: utf8_scalar_def u8)
  next
    case 2
    note f = from_utf8_2 [of "of_nat (192 + c div 64)" "c div 64" "of_nat (128 + c mod 64)" "c mod 64"]
    have "from_utf8 [of_nat (192 + c div 64)] = CutShort"
      "from_utf8 [of_nat (192 + c div 64), of_nat (128 + c mod 64)] = Utf8 [c div 64 * 64 + c mod 64]"
      using 2 by (intro f u8; auto)+
    with 2 show ?thesis by (auto simp: utf8_scalar_def less_Suc_eq take_Cons')
  next
    case 3
    define h m l where "h = c div 4096" and "m = c div 64 mod 64" and "l = c mod 64"
    have c: "c = h * 4096 + m * 64 + l" and lt: "m < 64" "l < 64"
      unfolding h_def m_def l_def by (rule base64_split, simp_all)
    have side: "h < 16" "h = 0 \<longrightarrow> 32 \<le> m" "h = 13 \<longrightarrow> m \<le> 31"
      using 3 assms c lt by (auto simp: is_scalar_def)
    note f = from_utf8_3 [of "of_nat (224 + h)" h "of_nat (128 + m)" m "of_nat (128 + l)" l]
    have "from_utf8 [of_nat (224 + h)] = CutShort" "from_utf8 [of_nat (224 + h), of_nat (128 + m)] = CutShort"
      "from_utf8 [of_nat (224 + h), of_nat (128 + m), of_nat (128 + l)] = Utf8 [c]"
      unfolding c using side lt by (intro f u8; simp)+
    with 3 show ?thesis by (auto simp: utf8_scalar_def less_Suc_eq take_Cons' simp flip: h_def m_def l_def)
  next
    case 4
    define h m n l where "h = c div 262144" and "m = c div 4096 mod 64"
      and "n = c div 64 mod 64" and "l = c mod 64"
    have c: "c = h * 262144 + m * 4096 + n * 64 + l" and lt: "m < 64" "n < 64" "l < 64"
      unfolding h_def m_def n_def l_def by (rule base64_split, simp_all)
    have side: "h \<le> 4" "h = 0 \<longrightarrow> 16 \<le> m" "h = 4 \<longrightarrow> m \<le> 15"
      using 4 c lt by auto
    note f = from_utf8_4 [of "of_nat (240 + h)" h "of_nat (128 + m)" m "of_nat (128 + n)" n "of_nat (128 + l)" l]
    have "from_utf8 [of_nat (240 + h)] = CutShort" "from_utf8 [of_nat (240 + h), of_nat (128 + m)] = CutShort"
      "from_utf8 [of_nat (240 + h), of_nat (128 + m), of_nat (128 + n)] = CutShort"
      "from_utf8 [of_nat (240 + h), of_nat (128 + m), of_nat (128 + n), of_nat (128 + l)] = Utf8 [c]"
      unfolding c using side lt by (intro f u8; simp)+
    with 4 show ?thesis by (auto simp: utf8_scalar_def less_Suc_eq take_Cons' simp flip: h_def m_def n_def l_def)
  qed
qed

lemma type_prefix:
  assumes "is_scalar c" "fd_partial f = []" "n < length (utf8_scalar c)"
  shows "fold type_byte (take n (utf8_scalar c)) f = f\<lparr>fd_partial := take n (utf8_scalar c)\<rparr>"
  using assms(3)
proof (induction n)
  case (Suc n)
  then have "from_utf8 (take (Suc n) (utf8_scalar c)) = CutShort"
    using utf8_scalar_parts [OF assms(1)] by blast
  with Suc show ?case by (simp add: take_Suc_conv_app_nth type_byte_def)
qed (use assms(2) in simp)

lemma type_scalar:
  assumes "is_scalar c" "fd_partial f = []"
  shows "fold type_byte (utf8_scalar c) f
    = f\<lparr>fd_text := push_chars (if is_control_scalar c then [] else [c]) (fd_text f), fd_partial := []\<rparr>"
proof -
  let ?u = "utf8_scalar c"
  note p = utf8_scalar_parts [OF assms(1)]
  have u: "?u = butlast ?u @ [last ?u]" "butlast ?u = take (length ?u - 1) ?u"
    using p by (simp, simp only: butlast_conv_take)
  have "fold type_byte (butlast ?u) f = f\<lparr>fd_partial := butlast ?u\<rparr>"
    using type_prefix [OF assms, of "length ?u - 1"] p u(2) by simp
  then have "fold type_byte ?u f = type_byte (last ?u) (f\<lparr>fd_partial := butlast ?u\<rparr>)"
    using u(1) by (metis fold_append comp_apply fold.simps id_apply)
  also have "\<dots> = f\<lparr>fd_text := push_chars (if is_control_scalar c then [] else [c]) (fd_text f), fd_partial := []\<rparr>"
    using p u(1) by (simp add: type_byte_def)
  finally show ?thesis .
qed

lemma push_chars_append: "push_chars (xs @ ys) text = push_chars ys (push_chars xs text)"
  by (induction xs arbitrary: "text") simp_all

text \<open>What is typed into a field is what it holds: the bytes of a text, however they are cut into reads,
  leave exactly its characters without the control characters, after what was there, up to the
  field's limit; so a newline pasted into a name is never taken for Enter.\<close>

theorem typed_text_is_the_text:
  assumes "\<forall>c\<in>set s. is_scalar c" and "fd_partial f = []"
  shows "fold type_byte (utf8 s) f
    = f\<lparr>fd_text := fd_text f @ take (FIELD_MAX - length (fd_text f)) (filter (\<lambda>c. \<not> is_control_scalar c) s)\<rparr>"
proof -
  have "fold type_byte (utf8 s) f
      = f\<lparr>fd_text := push_chars (filter (\<lambda>c. \<not> is_control_scalar c) s) (fd_text f), fd_partial := []\<rparr>"
    using assms
  proof (induction s arbitrary: f)
    case (Cons c s)
    have "push_chars (filter (\<lambda>c. \<not> is_control_scalar c) (c # s)) t
        = push_chars (filter (\<lambda>c. \<not> is_control_scalar c) s) (push_chars (if is_control_scalar c then [] else [c]) t)" for t
      by simp
    with Cons show ?case
      by (simp add: utf8_def type_scalar del: push_chars.simps filter.simps)
  qed (simp add: utf8_def)
  with assms(2) show ?thesis by (simp add: push_chars_eq)
qed

theorem typed_text_is_the_text_witness:
  "fold type_byte (utf8 [0x61, 10, 0xe9, 0x1f600]) field_default = \<lparr>fd_text = [0x61, 0xe9, 0x1f600], fd_partial = []\<rparr>"
  using typed_text_is_the_text [of "[0x61, 10, 0xe9, 0x1f600]" field_default]
  by (simp add: is_scalar_def field_default_def FIELD_MAX_def is_control_scalar_def)

section \<open>The end of a paste\<close>

text \<open>The state of the scanner after some text: nothing of the text is the marker, and \<open>m\<close> is the longest
  start of the marker the text ends on.\<close>

definition scanned :: "nat \<Rightarrow> bytes \<Rightarrow> bool" where
  "scanned m xs \<longleftrightarrow>
    m < length PASTE_END \<and> \<not> sublist PASTE_END xs \<and> suffix (take m PASTE_END) xs
    \<and> (\<forall>j<length PASTE_END. suffix (take j PASTE_END) xs \<longrightarrow> j \<le> m)"

lemma scanned_start: "scanned 0 []"
  by (auto simp: scanned_def PASTE_END_def suffix_def take_Cons' split: if_splits)

text \<open>The marker has no start that is also an end, but for the whole and the empty one.\<close>

lemma marker_no_overlap:
  assumes "suffix (take i PASTE_END) (take m PASTE_END)" "m < length PASTE_END"
  shows "i = 0 \<or> m \<le> i"
proof -
  have "\<forall>m\<in>set [0..<6]. \<forall>i\<in>set [0..<6]. suffix (take i PASTE_END) (take m PASTE_END) \<longrightarrow> i = 0 \<or> m \<le> i"
    by code_simp
  moreover have "m < 6" "length PASTE_END = 6" using assms(2) by (simp_all add: PASTE_END_def)
  ultimately show ?thesis using assms(1) by (cases "i < 6") auto
qed

lemma marker_nth_0: "PASTE_END ! 0 = 0x1b" "length PASTE_END = 6"
  by (simp_all add: PASTE_END_def)

lemma marker_take_Suc: "j < length PASTE_END \<Longrightarrow> take (Suc j) PASTE_END = take j PASTE_END @ [PASTE_END ! j]"
  by (simp add: take_Suc_conv_app_nth)

lemma suffix_snoc_take:
  assumes "j < length PASTE_END"
  shows "suffix (take (Suc j) PASTE_END) (xs @ [b]) \<longleftrightarrow> b = PASTE_END ! j \<and> suffix (take j PASTE_END) xs"
  using assms by (auto simp: marker_take_Suc)

lemma sublist_snoc: "sublist ys (xs @ [b]) \<longleftrightarrow> sublist ys xs \<or> suffix ys (xs @ [b])"
proof
  assume "sublist ys (xs @ [b])"
  then obtain ps ss where e: "xs @ [b] = ps @ ys @ ss" by (auto simp: sublist_def)
  show "sublist ys xs \<or> suffix ys (xs @ [b])"
  proof (cases ss rule: rev_cases)
    case Nil
    with e show ?thesis by (auto simp: suffix_def)
  next
    case (snoc ts t)
    with e have "xs = ps @ ys @ ts" by simp
    then show ?thesis by (auto simp: sublist_def)
  qed
qed (auto simp: sublist_append)

lemma suffix_marker_snoc:
  assumes "scanned m xs"
  shows "suffix PASTE_END (xs @ [b]) \<longleftrightarrow> m = 5 \<and> b = PASTE_END ! 5"
proof -
  have "take (Suc 5) PASTE_END = PASTE_END" by (simp add: PASTE_END_def)
  then have "suffix PASTE_END (xs @ [b]) \<longleftrightarrow> b = PASTE_END ! 5 \<and> suffix (take 5 PASTE_END) xs"
    using suffix_snoc_take [of 5 xs b] by (simp add: marker_nth_0)
  moreover have "suffix (take 5 PASTE_END) xs \<longleftrightarrow> m = 5"
  proof
    assume "suffix (take 5 PASTE_END) xs"
    then have "5 \<le> m" "m < 6" using assms by (simp_all add: scanned_def marker_nth_0)
    then show "m = 5" by simp
  next
    show "m = 5 \<Longrightarrow> suffix (take 5 PASTE_END) xs" using assms by (simp add: scanned_def)
  qed
  ultimately show ?thesis by blast
qed

lemma suffix_start:
  assumes "scanned m xs" "j < length PASTE_END" "suffix (take j PASTE_END) xs"
  shows "j = 0 \<or> j = m"
proof -
  have "j \<le> m" "m < length PASTE_END" "suffix (take m PASTE_END) xs"
    using assms unfolding scanned_def by blast+
  then have "suffix (take j PASTE_END) (take m PASTE_END)"
    using suffix_length_suffix [OF assms(3)] assms(2) by simp
  from marker_no_overlap [OF this \<open>m < length PASTE_END\<close>] \<open>j \<le> m\<close> show ?thesis by linarith
qed

lemma scanned_step:
  assumes "scanned m xs" "\<not> (m = 5 \<and> b = PASTE_END ! 5)"
  shows "scanned (if b = PASTE_END ! m then Suc m else if b = PASTE_END ! 0 then 1 else 0) (xs @ [b])"
    (is "scanned ?m' _")
proof -
  have no: "\<not> sublist PASTE_END (xs @ [b])"
    using assms suffix_marker_snoc [OF assms(1)] by (auto simp: sublist_snoc scanned_def)
  have m: "m < 6" using assms(1) by (simp add: scanned_def marker_nth_0)
  have m': "?m' < 6" using m assms(2) by (cases "m = 5") auto
  have sfx: "suffix (take j PASTE_END) (xs @ [b]) \<longleftrightarrow> j = 0 \<or> b = PASTE_END ! (j - 1) \<and> (j = 1 \<or> j = Suc m)"
    if "j < 6" for j
  proof (cases j)
    case (Suc i)
    have "suffix (take i PASTE_END) xs \<longleftrightarrow> i = 0 \<or> i = m"
      using suffix_start [OF assms(1), of i] Suc that assms(1) by (auto simp: scanned_def marker_nth_0)
    with Suc that suffix_snoc_take [of i xs b] show ?thesis by (auto simp: marker_nth_0)
  qed simp
  show ?thesis
    unfolding scanned_def using no m' sfx by (auto simp: marker_nth_0 split: if_splits)
qed

text \<open>What one read makes of the scanner: \<open>before\<close> is what was sunk so far.\<close>

lemma paste_through_spec:
  assumes "scanned m (before @ take m PASTE_END)" "paste_through (Some m) bs = (sunk, p, rest)"
  shows "case p of
      None \<Rightarrow> take m PASTE_END @ bs = sunk @ PASTE_END @ rest \<and> \<not> sublist PASTE_END (before @ sunk @ butlast PASTE_END)
    | Some k \<Rightarrow> rest = [] \<and> take m PASTE_END @ bs = sunk @ take k PASTE_END
        \<and> scanned k ((before @ sunk) @ take k PASTE_END)"
  using assms
proof (induction bs arbitrary: m before sunk)
  case Nil
  then show ?case by auto
next
  case (Cons b bs)
  let ?xs = "before @ take m PASTE_END"
  have m: "m < 6" using Cons.prems(1) by (simp add: scanned_def marker_nth_0)
  show ?case
  proof (cases "m = 5 \<and> b = PASTE_END ! 5")
    case True
    then have r: "sunk = []" "p = None" "rest = bs"
      using Cons.prems(2) by (auto simp: marker_nth_0)
    have "take 5 PASTE_END @ [PASTE_END ! 5] = PASTE_END" "butlast PASTE_END = take 5 PASTE_END"
      by (simp_all add: PASTE_END_def)
    then have "take m PASTE_END @ b # bs = PASTE_END @ bs" "\<not> sublist PASTE_END (before @ butlast PASTE_END)"
      using True Cons.prems(1) by (simp_all add: scanned_def)
    with r show ?thesis by simp
  next
    case False
    note step = scanned_step [OF Cons.prems(1) False]
    show ?thesis
    proof (cases "b = PASTE_END ! m")
      case True
      with False m have "Suc m < 6" by (cases "m = 5") auto
      have "scanned (Suc m) (before @ take (Suc m) PASTE_END)"
        using step True m by (simp add: marker_take_Suc marker_nth_0)
      moreover have "paste_through (Some (Suc m)) bs = (sunk, p, rest)"
        using Cons.prems(2) True \<open>Suc m < 6\<close> by (simp add: marker_nth_0)
      ultimately have "case p of
          None \<Rightarrow> take (Suc m) PASTE_END @ bs = sunk @ PASTE_END @ rest
            \<and> \<not> sublist PASTE_END (before @ sunk @ butlast PASTE_END)
        | Some k \<Rightarrow> rest = [] \<and> take (Suc m) PASTE_END @ bs = sunk @ take k PASTE_END
            \<and> scanned k ((before @ sunk) @ take k PASTE_END)"
        by (rule Cons.IH)
      moreover have "take (Suc m) PASTE_END @ bs = take m PASTE_END @ b # bs"
        using True m by (simp add: marker_take_Suc marker_nth_0)
      ultimately show ?thesis by (simp only:)
    next
      case no: False
      define n where "n = (if b = PASTE_END ! 0 then 1 else 0 :: nat)"
      define lit where "lit = (if b = PASTE_END ! 0 then [] else [b])"
      obtain s2 where s2: "paste_through (Some n) bs = (s2, p, rest)" "sunk = take m PASTE_END @ lit @ s2"
        using Cons.prems(2) no by (auto simp: n_def lit_def Let_def split: prod.splits if_splits)
      have b: "lit @ take n PASTE_END = [b]"
        by (simp add: lit_def n_def PASTE_END_def)
      have "scanned n ((before @ take m PASTE_END @ lit) @ take n PASTE_END)"
        using step no b by (simp add: n_def)
      from Cons.IH [OF this s2(1)] b show ?thesis
        unfolding s2(2) by (cases p) (simp_all, (metis append_Cons append_Nil append_assoc)+)
    qed
  qed
qed

text \<open>A paste cut into reads: it is the paste's until its end, and what follows the end is not.\<close>

primrec paste_reads :: "bytes list \<Rightarrow> nat option \<Rightarrow> bytes \<times> nat option \<times> bytes" where
  "paste_reads [] p = ([], p, [])"
| "paste_reads (bs # reads) p =
     (case paste_through p bs of
        (sunk, None, rest) \<Rightarrow> (sunk, None, rest @ concat reads)
      | (sunk, Some k, rest) \<Rightarrow>
          (case paste_reads reads (Some k) of (more_sunk, p', rest') \<Rightarrow> (sunk @ more_sunk, p', rest')))"

lemma paste_reads_spec:
  assumes "scanned m (before @ take m PASTE_END)" "paste_reads reads (Some m) = (sunk, p, rest)"
  shows "case p of
      None \<Rightarrow> take m PASTE_END @ concat reads = sunk @ PASTE_END @ rest
        \<and> \<not> sublist PASTE_END (before @ sunk @ butlast PASTE_END)
    | Some k \<Rightarrow> rest = [] \<and> take m PASTE_END @ concat reads = sunk @ take k PASTE_END
        \<and> scanned k ((before @ sunk) @ take k PASTE_END)"
  using assms
proof (induction reads arbitrary: m before sunk)
  case (Cons bs reads)
  obtain s1 p1 r1 where one: "paste_through (Some m) bs = (s1, p1, r1)" by (metis prod_cases3)
  note spec = paste_through_spec [OF Cons.prems(1) one]
  show ?case
  proof (cases p1)
    case None
    then have "sunk = s1" "p = None" "rest = r1 @ concat reads"
      using Cons.prems(2) by (auto simp: one)
    with spec None show ?thesis by auto
  next
    case (Some k)
    obtain s2 where s2: "paste_reads reads (Some k) = (s2, p, rest)" "sunk = s1 @ s2"
      using Cons.prems(2) by (auto simp: one Some split: prod.splits)
    have now: "take m PASTE_END @ bs = s1 @ take k PASTE_END" "scanned k ((before @ s1) @ take k PASTE_END)"
      using spec Some by simp_all
    from Cons.IH [OF now(2) s2(1)] now(1) show ?thesis
      unfolding s2(2) by (cases p) (simp_all, (metis append_assoc)+)
  qed
qed auto

text \<open>A bracketed paste is its text and nothing else, however it is cut into reads: the scanner hands
  over exactly what precedes the first end marker, returns exactly what follows it, and while no
  marker has arrived it holds back only a start of one, which a later byte that is not the marker's
  gives back.\<close>

theorem paste_ends_at_the_first_marker:
  "case paste_reads reads (Some 0) of
     (sunk, None, rest) \<Rightarrow> concat reads = sunk @ PASTE_END @ rest \<and> \<not> sublist PASTE_END (sunk @ butlast PASTE_END)
   | (sunk, Some k, rest) \<Rightarrow> rest = [] \<and> concat reads = sunk @ take k PASTE_END \<and> k < length PASTE_END
       \<and> \<not> sublist PASTE_END (concat reads)"
proof -
  obtain sunk p rest where r: "paste_reads reads (Some 0) = (sunk, p, rest)" by (metis prod_cases3)
  from paste_reads_spec [of 0 "[]", OF _ r] scanned_start show ?thesis
    unfolding r by (cases p) (simp_all add: scanned_def)
qed

lemma escape_used: "snd (escape_seq tail) \<le> length tail"
proof -
  have csi: "csi_len bs \<le> length bs" for bs by (induction bs) auto
  have "5 \<le> length tail" if "take 5 tail = [0x5b, 0x32, 0x30, 0x30, 0x7e]"
    using arg_cong [OF that, of length] by simp
  with csi show ?thesis
    by (cases tail; cases "tl tail") (auto simp: escape_seq_def)
qed

end
