(* ===== verification/Session_Choice.thy ===== *)
theory Session_Choice
  imports Proto_Types
begin

text \<open>
  Naming and choosing sessions: session ids (\<open>crates/oxutrm-proto/src/ids.rs\<close>), names
  (\<open>name.rs\<close>), the offer's entries (\<open>open.rs\<close>) and choices (\<open>signal.rs\<close>), and what a connect
  resolves to (\<open>src/choose.rs\<close>). The text of a refusal is left as the data it is written from.
\<close>

section \<open>String slices\<close>

text \<open>Cutting a string at a byte offset: \<open>None\<close> when the offset is past the end or inside a
  character, as \<open>str::get\<close> has it.\<close>

fun split_at_byte :: "nat \<Rightarrow> ustr \<Rightarrow> (ustr \<times> ustr) option" where
  "split_at_byte 0 s = Some ([], s)"
| "split_at_byte (Suc n) [] = None"
| "split_at_byte (Suc n) (c # s) =
     (if len_utf8 c \<le> Suc n
      then map_option (\<lambda>(p, t). (c # p, t)) (split_at_byte (Suc n - len_utf8 c) s)
      else None)"

definition str_get :: "ustr \<Rightarrow> nat \<Rightarrow> nat \<Rightarrow> ustr option" where
  "str_get s a b =
    (case split_at_byte a s of
       None \<Rightarrow> None
     | Some (_, t) \<Rightarrow> map_option fst (split_at_byte (b - a) t))"

definition starts_with :: "ustr \<Rightarrow> ustr \<Rightarrow> bool" where
  "starts_with s prefix = (take (length prefix) s = prefix)"

section \<open>Session ids\<close>

text \<open>A \<open>SessionId\<close> is its sixteen bytes.\<close>

type_synonym session_id = bytes

definition sid_ok :: "session_id \<Rightarrow> bool" where
  "sid_ok sid = (length sid = 16)"

definition hex_lower :: "nat \<Rightarrow> scalar" where
  "hex_lower d = (if d < 10 then 48 + d else 87 + d)"

definition hex_byte :: "u8 \<Rightarrow> ustr" where
  "hex_byte b = [hex_lower (unat b div 16), hex_lower (unat b mod 16)]"

definition sid_display :: "session_id \<Rightarrow> ustr" where
  "sid_display sid = concat (map hex_byte sid)"

definition sid_short :: "session_id \<Rightarrow> ustr" where
  "sid_short sid = take 8 (sid_display sid)"

definition sid_starts_with :: "session_id \<Rightarrow> ustr \<Rightarrow> bool" where
  "sid_starts_with sid prefix = starts_with (sid_display sid) prefix"

datatype id_error = WrongLength nat | NotOnBoundary | NotHex ustr

definition hex_digit :: "scalar \<Rightarrow> nat option" where
  "hex_digit c =
    (if 48 \<le> c \<and> c \<le> 57 then Some (c - 48)
     else if 97 \<le> c \<and> c \<le> 102 then Some (c - 87)
     else if 65 \<le> c \<and> c \<le> 70 then Some (c - 55)
     else None)"

text \<open>\<open>u8::from_str_radix(_, 16)\<close> on a pair: a leading plus sign is accepted before a digit, and
  a lone sign or any other character is an invalid digit.\<close>

definition hex_digits :: "ustr \<Rightarrow> nat option" where
  "hex_digits s =
    (if s = [] then None
     else fold (\<lambda>c acc. case acc of None \<Rightarrow> None
       | Some n \<Rightarrow> map_option (\<lambda>d. n * 16 + d) (hex_digit c)) s (Some 0))"

definition u8_from_hex :: "ustr \<Rightarrow> u8 option" where
  "u8_from_hex s =
    (let digits = (case s of c # rest \<Rightarrow> if c = 43 then rest else s | [] \<Rightarrow> s)
     in case hex_digits digits of
          Some n \<Rightarrow> if n < 256 then Some (of_nat n) else None
        | None \<Rightarrow> None)"

definition sid_byte :: "ustr \<Rightarrow> nat \<Rightarrow> id_error + u8" where
  "sid_byte s i =
    (case str_get s (i * 2) (i * 2 + 2) of
       None \<Rightarrow> Inl NotOnBoundary
     | Some pair \<Rightarrow>
         (case u8_from_hex pair of None \<Rightarrow> Inl (NotHex pair) | Some b \<Rightarrow> Inr b))"

definition sid_from_str :: "ustr \<Rightarrow> id_error + session_id" where
  "sid_from_str s =
    (if str_len s \<noteq> 32 then Inl (WrongLength (str_len s))
     else fold_res (\<lambda>i bs. and_then (sid_byte s i) (\<lambda>b. Inr (bs @ [b]))) [0..<16] [])"

section \<open>Names\<close>

definition MAX_NAME :: nat where "MAX_NAME = 24"

definition char_is_control :: "scalar \<Rightarrow> bool" where
  "char_is_control c = (c < 32 \<or> (127 \<le> c \<and> c < 160))"

definition char_is_whitespace :: "scalar \<Rightarrow> bool" where
  "char_is_whitespace c =
    ((9 \<le> c \<and> c \<le> 13) \<or> c = 0x20 \<or> c = 0x85 \<or> c = 0xa0 \<or> c = 0x1680 \<or> (0x2000 \<le> c \<and> c \<le> 0x200a)
     \<or> c = 0x2028 \<or> c = 0x2029 \<or> c = 0x202f \<or> c = 0x205f \<or> c = 0x3000)"

definition str_trim :: "ustr \<Rightarrow> ustr" where
  "str_trim s = rev (dropWhile char_is_whitespace (rev (dropWhile char_is_whitespace s)))"

definition is_id_char :: "scalar \<Rightarrow> bool" where
  "is_id_char c = ((48 \<le> c \<and> c \<le> 57) \<or> (97 \<le> c \<and> c \<le> 102))"

datatype name_error = NameEmpty | NameTooLong | NameControl | NamePadded | NameReadsAsId

definition name_parse :: "ustr \<Rightarrow> name_error + ustr" where
  "name_parse s =
    (let n = length s in
     if n = 0 then Inl NameEmpty
     else if n > MAX_NAME then Inl NameTooLong
     else if list_ex char_is_control s then Inl NameControl
     else if str_trim s \<noteq> s then Inl NamePadded
     else if list_all is_id_char s then Inl NameReadsAsId
     else Inr s)"

section \<open>What a connect resolves to\<close>

record offer_entry =
  oe_id :: session_id
  oe_name :: "ustr option"
  oe_shell :: ustr
  oe_created_unix :: u64
  oe_size :: term_size
  oe_detachable :: bool

datatype choice = ChooseAttach session_id | ChooseNew "ustr option" | ChooseLobby

definition MIN_ATTACH_PREFIX :: nat where "MIN_ATTACH_PREFIX = 4"

datatype refusal =
    NoNameAndTooShort ustr "ustr list"
  | NoMatch ustr "ustr list"
  | Ambiguous ustr "ustr list"
  | NotDetachable ustr

datatype decision = Chosen choice | Refused refusal

definition offer_label :: "offer_entry \<Rightarrow> ustr" where
  "offer_label e =
    (case oe_name e of
       Some n \<Rightarrow> n @ str_of '' ('' @ sid_display (oe_id e) @ str_of '')''
     | None \<Rightarrow> sid_display (oe_id e))"

definition attach_to :: "offer_entry \<Rightarrow> decision" where
  "attach_to e =
    (if oe_detachable e then Chosen (ChooseAttach (oe_id e))
     else Refused (NotDetachable (offer_label e)))"

definition decide_attach :: "offer_entry list \<Rightarrow> ustr \<Rightarrow> decision" where
  "decide_attach offered x =
    (case find (\<lambda>e. oe_name e = Some x) offered of
       Some named \<Rightarrow> attach_to named
     | None \<Rightarrow>
         if length x < MIN_ATTACH_PREFIX
         then Refused (NoNameAndTooShort x (map offer_label offered))
         else case filter (\<lambda>e. sid_starts_with (oe_id e) x) offered of
           [] \<Rightarrow> Refused (NoMatch x (map offer_label offered))
         | [one] \<Rightarrow> attach_to one
         | many \<Rightarrow> Refused (Ambiguous x (map offer_label many)))"

definition decide :: "offer_entry list \<Rightarrow> ustr option \<Rightarrow> bool \<Rightarrow> ustr option \<Rightarrow> decision" where
  "decide offered attach nw name =
    (if nw then Chosen (ChooseNew name)
     else case attach of
       Some x \<Rightarrow> decide_attach offered x
     | None \<Rightarrow>
         if offered = [] then Chosen (ChooseNew None) else Chosen ChooseLobby)"

section \<open>Ids round-trip\<close>

lemma hex_lower_digit: "d < 16 \<Longrightarrow> hex_digit (hex_lower d) = Some d"
  by (auto simp: hex_digit_def hex_lower_def)

lemma hex_lower_ascii: "d < 16 \<Longrightarrow> len_utf8 (hex_lower d) = 1 \<and> hex_lower d \<noteq> 43 \<and> is_id_char (hex_lower d)"
  by (auto simp: hex_lower_def len_utf8_def is_id_char_def)

lemma unat8_digits: "unat (b :: u8) div 16 < 16" "unat (b :: u8) mod 16 < 16"
  using unat_lt2p [of b] by auto

lemma u8_from_hex_byte: "u8_from_hex (hex_byte b) = Some b"
proof -
  have "unat b div 16 * 16 + unat b mod 16 = unat b"
    by (rule div_mult_mod_eq)
  moreover have "unat b < 256"
    using unat_lt2p [of b] by simp
  ultimately show ?thesis
    using hex_lower_ascii unat8_digits [of b]
    by (simp add: u8_from_hex_def hex_byte_def hex_digits_def hex_lower_digit Let_def)
qed

lemma sid_display_chars: "c \<in> set (sid_display sid) \<Longrightarrow> is_id_char c \<and> len_utf8 c = 1"
  using hex_lower_ascii unat8_digits by (auto simp: sid_display_def hex_byte_def)

lemma split_at_ascii:
  "\<forall>c\<in>set p. len_utf8 c = 1 \<Longrightarrow> split_at_byte (length p) (p @ t) = Some (p, t)"
  by (induction p) simp_all

lemma str_len_ascii: "\<forall>c\<in>set s. len_utf8 c = 1 \<Longrightarrow> str_len s = length s"
  by (induction s) simp_all

lemma length_sid_display: "length (sid_display sid) = 2 * length sid"
  by (induction sid) (simp_all add: sid_display_def hex_byte_def)

lemma sid_display_append: "sid_display (xs @ ys) = sid_display xs @ sid_display ys"
  by (simp add: sid_display_def)

lemma sid_display_split:
  "split_at_byte (2 * length xs) (sid_display (xs @ ys)) = Some (sid_display xs, sid_display ys)"
  using split_at_ascii [of "sid_display xs" "sid_display ys"] sid_display_chars
  by (simp add: length_sid_display sid_display_append)

lemma sid_byte_display:
  assumes "i < length sid"
  shows "sid_byte (sid_display sid) i = Inr (sid ! i)"
proof -
  have "split_at_byte (i * 2) (sid_display sid)
      = Some (sid_display (take i sid), sid_display ([sid ! i] @ drop (Suc i) sid))"
    using sid_display_split [of "take i sid" "[sid ! i] @ drop (Suc i) sid"] assms
    by (simp add: min_def mult.commute flip: id_take_nth_drop)
  moreover have "split_at_byte 2 (sid_display ([sid ! i] @ drop (Suc i) sid))
      = Some (hex_byte (sid ! i), sid_display (drop (Suc i) sid))"
    using sid_display_split [of "[sid ! i]" "drop (Suc i) sid"] by (simp add: sid_display_def)
  ultimately show ?thesis
    by (simp add: sid_byte_def str_get_def u8_from_hex_byte)
qed

lemma sid_loop:
  assumes "\<And>i. i < n \<Longrightarrow> sid_byte s i = Inr (sid ! i)" and "n \<le> length sid"
  shows "fold_res (\<lambda>i bs. and_then (sid_byte s i) (\<lambda>b. Inr (bs @ [b]))) [0..<n] [] = Inr (take n sid)"
  using assms
proof (induction n)
  case (Suc n)
  then show ?case
    by (simp add: fold_res_append take_Suc_conv_app_nth)
qed simp

lemma sid_roundtrip: "sid_ok sid \<Longrightarrow> sid_from_str (sid_display sid) = Inr sid"
  using sid_loop [of 16 "sid_display sid" sid] sid_byte_display [of _ sid] sid_display_chars
  by (simp add: sid_from_str_def sid_ok_def str_len_ascii length_sid_display)

lemma fold_res_len:
  "fold_res (\<lambda>i bs. and_then (f i) (\<lambda>b. Inr (bs @ [b]))) is acc = Inr out
    \<Longrightarrow> length out = length acc + length is"
  by (induction "is" arbitrary: acc) (auto simp: and_then_Inr_iff)

lemma sid_from_str_ok: "sid_from_str s = Inr sid \<Longrightarrow> sid_ok sid"
  by (auto simp: sid_from_str_def sid_ok_def split: if_splits dest: fold_res_len)

section \<open>Names are never id prefixes\<close>

lemma name_parse_ok_iff:
  "name_parse s = Inr n \<longleftrightarrow>
    n = s \<and> s \<noteq> [] \<and> length s \<le> MAX_NAME \<and> (\<forall>c\<in>set s. \<not> char_is_control c) \<and> str_trim s = s
    \<and> (\<exists>c\<in>set s. \<not> is_id_char c)"
  by (auto simp: name_parse_def Let_def list_all_iff list_ex_iff split: if_splits)

lemma starts_with_iff: "starts_with s p \<longleftrightarrow> (\<exists>t. s = p @ t)"
  unfolding starts_with_def by (metis append_eq_conv_conj append_take_drop_id)

lemma id_prefix_chars: "sid_starts_with sid p \<Longrightarrow> c \<in> set p \<Longrightarrow> is_id_char c"
  using sid_display_chars [of c sid] by (auto simp: sid_starts_with_def starts_with_iff)

lemma name_not_id_prefix: "name_parse s = Inr n \<Longrightarrow> \<not> sid_starts_with sid n"
  using id_prefix_chars [of sid n] by (auto simp: name_parse_ok_iff)

section \<open>Decisions\<close>

definition offer_ok :: "offer_entry list \<Rightarrow> bool" where
  "offer_ok offered = (\<forall>e\<in>set offered. sid_ok (oe_id e)
     \<and> (case oe_name e of None \<Rightarrow> True | Some n \<Rightarrow> name_parse n = Inr n))"

lemma attach_to_cases:
  "attach_to e = Chosen (ChooseAttach sid) \<longleftrightarrow> oe_detachable e \<and> oe_id e = sid"
  by (simp add: attach_to_def)

lemma attach_to_not_other: "attach_to e \<noteq> Chosen ChooseLobby" "attach_to e \<noteq> Chosen (ChooseNew n)"
  by (simp_all add: attach_to_def)

lemma decide_attach_SomeD:
  assumes "decide_attach offered x = Chosen c"
  obtains e where "e \<in> set offered" "c = ChooseAttach (oe_id e)" "oe_detachable e"
    "oe_name e = Some x \<or>
      (\<forall>d\<in>set offered. oe_name d \<noteq> Some x) \<and> MIN_ATTACH_PREFIX \<le> length x
      \<and> filter (\<lambda>d. sid_starts_with (oe_id d) x) offered = [e]"
proof (cases "find (\<lambda>e. oe_name e = Some x) offered")
  case (Some e)
  then have "e \<in> set offered" "oe_name e = Some x"
    by (auto simp: find_Some_iff)
  with Some assms that [of e] show ?thesis
    by (simp add: decide_attach_def attach_to_def split: if_splits)
next
  case None
  then have none: "\<forall>d\<in>set offered. oe_name d \<noteq> Some x"
    by (auto simp: find_None_iff)
  from None assms obtain e where e: "filter (\<lambda>d. sid_starts_with (oe_id d) x) offered = [e]"
      "attach_to e = Chosen c" "MIN_ATTACH_PREFIX \<le> length x"
    by (auto simp: decide_attach_def split: if_splits list.splits)
  then have "e \<in> set (filter (\<lambda>d. sid_starts_with (oe_id d) x) offered)"
    by simp
  then have "e \<in> set offered"
    by simp
  with e none that [of e] show ?thesis
    by (simp add: attach_to_def split: if_splits)
qed

section \<open>Properties\<close>

lemma filter_the_one: "distinct xs \<Longrightarrow> x \<in> set xs \<Longrightarrow> filter (\<lambda>y. y = x) xs = [x]"
  by (induction xs) (auto simp: filter_empty_conv)

text \<open>A session id survives its written form: the 32 lowercase hex characters an id is shown as
  parse back to that id, and whatever parses is a sixteen-byte id.\<close>

theorem session_id_roundtrip:
  assumes "sid_ok sid"
  shows "sid_from_str (sid_display sid) = Inr sid \<and> length (sid_display sid) = 32
    \<and> list_all is_id_char (sid_display sid)"
  using sid_roundtrip [OF assms] assms sid_display_chars
  by (auto simp: sid_ok_def length_sid_display list_all_iff)

theorem session_id_roundtrip_witness:
  "sid_from_str (sid_display (replicate 16 0xaf)) = Inr (replicate 16 0xaf)"
  using session_id_roundtrip [of "replicate 16 0xaf"] by (simp add: sid_ok_def)

text \<open>A name is never an id prefix. No text that parses as a name begins any session's id, so
  \<open>--attach\<close> can take either with no precedence between them.\<close>

theorem names_are_never_id_prefixes:
  assumes "name_parse s = Inr n"
  shows "n = s \<and> \<not> sid_starts_with sid n"
  using assms name_not_id_prefix [OF assms] by (simp add: name_parse_ok_iff)

theorem names_are_never_id_prefixes_witness:
  "\<not> sid_starts_with (replicate 16 0xca) (str_of ''CAFE'')"
proof -
  have "name_parse (str_of ''CAFE'') = Inr (str_of ''CAFE'')"
    by code_simp
  from names_are_never_id_prefixes [OF this] show ?thesis by blast
qed

text \<open>C36: \<open>--attach\<close> never attaches to the wrong session. When a choice is made it is to attach to an
  offered, detachable session that either bears the given name or is the only one whose id starts
  with the given text, at least four characters of it, with no session of that name.\<close>

theorem attach_chooses_the_named_session:
  assumes "decide offered (Some x) False name = Chosen c"
  shows "\<exists>e\<in>set offered. c = ChooseAttach (oe_id e) \<and> oe_detachable e
    \<and> (oe_name e = Some x \<or>
        (\<forall>d\<in>set offered. oe_name d \<noteq> Some x) \<and> 4 \<le> length x
        \<and> filter (\<lambda>d. sid_starts_with (oe_id d) x) offered = [e])"
proof -
  from assms have "decide_attach offered x = Chosen c"
    by (simp add: decide_def)
  then show ?thesis
    by (rule decide_attach_SomeD) (auto simp: MIN_ATTACH_PREFIX_def)
qed

definition sample_offer :: offer_entry where
  "sample_offer = \<lparr>oe_id = replicate 16 0xa3, oe_name = Some (str_of ''build''), oe_shell = str_of ''sh'',
     oe_created_unix = 0, oe_size = \<lparr>ts_cols = 80, ts_rows = 24\<rparr>, oe_detachable = True\<rparr>"

theorem attach_chooses_the_named_session_witness:
  "decide [sample_offer] (Some (str_of ''a3a3'')) False None = Chosen (ChooseAttach (replicate 16 0xa3))
   \<and> (\<exists>e\<in>set [sample_offer]. replicate 16 0xa3 = oe_id e \<and> oe_detachable e)"
proof -
  have "decide [sample_offer] (Some (str_of ''a3a3'')) False None = Chosen (ChooseAttach (replicate 16 0xa3))"
    by code_simp
  with attach_chooses_the_named_session [OF this] show ?thesis by auto
qed

text \<open>A full id always works. Among sessions with distinct ids, giving the whole id of a detachable
  one attaches to it: no name can shadow it and no other id shares it.\<close>

theorem full_id_attaches:
  assumes "offer_ok offered" and "distinct (map oe_id offered)"
    and "e \<in> set offered" and "oe_detachable e"
  shows "decide offered (Some (sid_display (oe_id e))) False name = Chosen (ChooseAttach (oe_id e))"
proof -
  let ?x = "sid_display (oe_id e)"
  have ok: "sid_ok (oe_id d)" if "d \<in> set offered" for d
    using assms(1) that by (auto simp: offer_ok_def)
  have unnamed: "oe_name d \<noteq> Some ?x" if "d \<in> set offered" for d
  proof
    assume "oe_name d = Some ?x"
    with assms(1) that have "name_parse ?x = Inr ?x" by (auto simp: offer_ok_def)
    then show False using sid_display_chars by (auto simp: name_parse_ok_iff)
  qed
  have same: "sid_starts_with (oe_id d) ?x \<longleftrightarrow> d = e" if d: "d \<in> set offered" for d
  proof
    assume "sid_starts_with (oe_id d) ?x"
    then have "sid_display (oe_id d) = ?x"
      using ok [OF d] ok [OF assms(3)]
      by (simp add: sid_starts_with_def starts_with_def length_sid_display sid_ok_def)
    then have "oe_id d = oe_id e"
      using sid_roundtrip [OF ok [OF d]] sid_roundtrip [OF ok [OF assms(3)]] by (metis sum.inject(2))
    then show "d = e"
      using assms(2,3) d by (auto simp: distinct_map dest: inj_onD)
  qed (simp add: sid_starts_with_def starts_with_def)
  have "filter (\<lambda>d. sid_starts_with (oe_id d) ?x) offered = filter (\<lambda>d. d = e) offered"
    by (rule filter_cong [OF refl same])
  also have "\<dots> = [e]"
    using assms(2,3) by (auto simp: distinct_map intro: filter_the_one)
  finally show ?thesis
    using assms(4) ok [OF assms(3)] unnamed
    by (simp add: decide_def decide_attach_def find_None_iff attach_to_def MIN_ATTACH_PREFIX_def
        length_sid_display sid_ok_def find_None_iff [THEN iffD2])
qed

theorem full_id_attaches_witness:
  "decide [sample_offer] (Some (sid_display (oe_id sample_offer))) False None
    = Chosen (ChooseAttach (oe_id sample_offer))"
proof -
  have "offer_ok [sample_offer]" by code_simp
  then show ?thesis
    by (rule full_id_attaches) (simp_all add: sample_offer_def)
qed

section \<open>A sign is taken for a digit\<close>

text \<open>The documented form of an id is hex characters; the parser also takes a plus sign in front of a
  digit, as \<open>u8::from_str_radix\<close> does, so two different texts of 32 characters name one session.\<close>

theorem plus_sign_parses_as_an_id:
  "sid_from_str (concat (replicate 16 (str_of ''+7''))) = Inr (replicate 16 7)
   \<and> \<not> list_all is_id_char (concat (replicate 16 (str_of ''+7'')))"
  by code_simp

end
