(* ===== verification/Client_Text.thy ===== *)
theory Client_Text
  imports Link_State Session_Choice
begin

text \<open>
  Text from outside made safe to show, from \<open>crates/oxutrm-client/src/popup.rs\<close>: \<open>legible\<close> shows every
  control character instead of emitting it, \<open>summarised\<close> cuts a reason to one short line. \<open>str_lines\<close> is
  \<open>str::lines\<close>. The lemmas show that neither can produce a control character, and how long a reason
  can get.
\<close>

definition REASON_SHOWN :: nat where "REASON_SHOWN = 120"

definition legible_char :: "scalar \<Rightarrow> ustr" where
  "legible_char ch =
    (if ch \<le> 0x1f then [94, ch + 64]
     else if ch = 0x7f then [94, 63]
     else if 0x80 \<le> ch \<and> ch \<le> 0x9f then [60, hex_upper (ch div 16), hex_upper (ch mod 16), 62]
     else [ch])"

definition legible :: "ustr \<Rightarrow> ustr" where
  "legible line = concat (map legible_char line)"

text \<open>A line ends at its newline, which goes with a carriage return before it; a last line without one
  stays as it is.\<close>

definition strip_cr :: "ustr \<Rightarrow> ustr" where
  "strip_cr l = (if l \<noteq> [] \<and> last l = 13 then butlast l else l)"

function str_lines :: "ustr \<Rightarrow> ustr list" where
  "str_lines s =
    (if s = [] then []
     else case dropWhile (\<lambda>c. c \<noteq> 10) s of
       [] \<Rightarrow> [s]
     | _ # rest \<Rightarrow> strip_cr (takeWhile (\<lambda>c. c \<noteq> 10) s) # str_lines rest)"
  by pat_completeness auto
termination
proof (relation "measure length", goal_cases)
  case (2 s x rest)
  then have "length (dropWhile (\<lambda>c. c \<noteq> 10) s) = Suc (length rest)" by simp
  with length_dropWhile_le [of "\<lambda>c. c \<noteq> 10" s] show ?case by simp
qed simp

declare str_lines.simps [simp del]

definition summarised :: "ustr \<Rightarrow> ustr" where
  "summarised reason =
    (let line = legible (str_trim (case str_lines reason of [] \<Rightarrow> [] | l # _ \<Rightarrow> l))
     in if length line \<le> REASON_SHOWN then line else take REASON_SHOWN line @ str_of ''...'')"

section \<open>Nothing shown is a control character\<close>

lemma hex_upper_plain: "n < 16 \<Longrightarrow> \<not> is_control_scalar (hex_upper n)"
  by (simp add: hex_upper_def is_control_scalar_def)

lemma legible_char_plain: "c \<in> set (legible_char ch) \<Longrightarrow> \<not> is_control_scalar c"
proof -
  have "\<not> is_control_scalar (hex_upper (ch div 16))" if "ch \<le> 0x9f"
    using that by (intro hex_upper_plain) simp
  moreover have "\<not> is_control_scalar (hex_upper (ch mod 16))" by (rule hex_upper_plain) simp
  ultimately show "c \<in> set (legible_char ch) \<Longrightarrow> \<not> is_control_scalar c"
    by (auto simp: legible_char_def is_control_scalar_def split: if_splits)
qed

lemma legible_plain: "c \<in> set (legible line) \<Longrightarrow> \<not> is_control_scalar c"
  by (auto simp: legible_def legible_char_plain)

lemma legible_id: "(\<forall>c\<in>set line. \<not> is_control_scalar c) \<Longrightarrow> legible line = line"
  by (induction line) (auto simp: legible_def legible_char_def is_control_scalar_def)

lemma summarised_plain:
  assumes "c \<in> set (summarised reason)"
  shows "\<not> is_control_scalar c"
proof -
  let ?line = "legible (str_trim (case str_lines reason of [] \<Rightarrow> [] | l # _ \<Rightarrow> l))"
  have "c \<in> set ?line \<or> c = 46"
    using assms by (auto simp: summarised_def Let_def str_of_def split: if_splits dest: in_set_takeD)
  then show ?thesis using legible_plain by (auto simp: is_control_scalar_def)
qed

lemma summarised_length: "length (summarised reason) \<le> REASON_SHOWN + 3"
  by (auto simp: summarised_def Let_def str_of_def)

end
