(* ===== verification/Ui_Selector.thy ===== *)
theory Ui_Selector
  imports Ui_Keys Client_Text
begin

text \<open>
  The session selector of \<open>src/selector.rs\<close>, with the requests of \<open>src/switcher.rs\<close> it asks for and the
  entries of \<open>crates/oxutrm-proto/src/open.rs\<close> it lists. The text of a note is left as the data it is
  written from (\<open>sel_note\<close>).

  The lemmas show that the cursor stays on a row or on \<open>+ new session\<close>, that nothing is asked while the
  link is down or a request is under way, that killing a session or taking it over is only ever
  asked after a question about that very session, answered late enough to have been read, and that a
  paste never asks for anything.
\<close>

section \<open>Data\<close>

datatype attached = NotAttached | Here | Elsewhere | UnknownState | OtherVersion

record session_entry =
  se_id :: session_id
  se_name :: "ustr option"
  se_shell :: ustr
  se_created_unix :: u64
  se_size :: term_size
  se_detachable :: bool
  se_attached :: attached
  se_this :: bool

datatype ask =
    AskSessions
  | AskSwitch session_id
  | AskNew "ustr option"
  | AskKill session_id
  | AskRename session_id "ustr option"

datatype out = OutAsk ask | OutBack | OutClose | OutQuit

datatype question =
    TakeOver (q_id: session_id) (q_label: ustr) (q_unknown: bool)
  | Kill (q_id: session_id) (q_label: ustr) (q_in_use: bool)

datatype sel_note =
    NoteNotLive
  | NoteBusy
  | NoteGone ustr
  | NoteNotDetachable ustr
  | NoteOtherVersion ustr
  | NoteBadName name_error
  | NoteFailed ustr

definition question_text :: "question \<Rightarrow> ustr" where
  "question_text q =
    (case q of
       TakeOver _ label unknown \<Rightarrow>
         if unknown then str_of ''take over '' @ label @ str_of '' (state unknown)? y/n''
         else str_of ''take over '' @ label @ str_of '' from its other client? y/n''
     | Kill _ label in_use \<Rightarrow>
         if in_use then str_of ''kill '' @ label @ str_of '' (in use elsewhere)? y/n''
         else str_of ''kill '' @ label @ str_of ''? y/n'')"

record ctx =
  cx_live :: bool
  cx_lobby :: bool
  cx_busy :: bool

record selector =
  sl_rows :: "session_entry list"
  sl_cursor :: nat
  sl_loading :: bool
  sl_question :: "(question \<times> instant) option"
  sl_rename :: "(session_id \<times> field) option"
  sl_note :: "sel_note option"
  sl_list_failed :: "ustr option"
  sl_pasting :: "nat option"

definition selector_default :: selector where
  "selector_default =
    \<lparr>sl_rows = [], sl_cursor = 0, sl_loading = False, sl_question = None, sl_rename = None,
     sl_note = None, sl_list_failed = None, sl_pasting = None\<rparr>"

section \<open>The list\<close>

definition entry_label :: "session_entry \<Rightarrow> ustr" where
  "entry_label e = (case se_name e of Some n \<Rightarrow> legible n | None \<Rightarrow> sid_short (se_id e))"

definition sel_open :: "selector \<Rightarrow> selector" where
  "sel_open s = selector_default\<lparr>sl_loading := True\<rparr>"

text \<open>\<open>rows.get(i)\<close>\<close>

definition row_at :: "selector \<Rightarrow> nat \<Rightarrow> session_entry option" where
  "row_at s i = (if i < length (sl_rows s) then Some (sl_rows s ! i) else None)"

definition selected :: "selector \<Rightarrow> session_id option" where
  "selected s = map_option se_id (row_at s (sl_cursor s))"

primrec row_position :: "(session_entry \<Rightarrow> bool) \<Rightarrow> session_entry list \<Rightarrow> nat option" where
  "row_position P [] = None"
| "row_position P (e # es) = (if P e then Some 0 else map_option Suc (row_position P es))"

definition end_stale_rename :: "session_entry list \<Rightarrow> selector \<Rightarrow> selector" where
  "end_stale_rename rows s =
    (case sl_rename s of
       Some (sid, _) \<Rightarrow>
         if \<not> list_ex (\<lambda>e. se_id e = sid) rows then
           s\<lparr>sl_note := Some (NoteGone (case find (\<lambda>e. se_id e = sid) (sl_rows s) of
                None \<Rightarrow> sid_short sid | Some e \<Rightarrow> entry_label e)),
             sl_rename := None\<rparr>
         else s
     | None \<Rightarrow> s)"

definition set_rows :: "session_entry list \<Rightarrow> selector \<Rightarrow> selector" where
  "set_rows fetched s =
    (let rows = sort_key se_created_unix fetched;
         s1 = end_stale_rename rows s;
         pos = (if sl_loading s1 then (case row_position se_this rows of Some i \<Rightarrow> i | None \<Rightarrow> 0)
                else case selected s1 of
                  Some sid \<Rightarrow> (case row_position (\<lambda>e. se_id e = sid) rows of
                      Some i \<Rightarrow> i | None \<Rightarrow> min (sl_cursor s1) (length rows))
                | None \<Rightarrow> length rows)
     in s1\<lparr>sl_rows := rows, sl_cursor := pos, sl_loading := False, sl_list_failed := None\<rparr>)"

definition fail_list :: "ustr \<Rightarrow> selector \<Rightarrow> selector" where
  "fail_list why s = s\<lparr>sl_question := None, sl_loading := False, sl_list_failed := Some why\<rparr>"

definition sel_fail :: "ustr \<Rightarrow> selector \<Rightarrow> selector" where
  "sel_fail why s = s\<lparr>sl_question := None, sl_note := Some (NoteFailed why)\<rparr>"

section \<open>Keys\<close>

definition sel_act :: "ctx \<Rightarrow> ask \<Rightarrow> selector \<Rightarrow> out option \<times> selector" where
  "sel_act cx a s =
    (if \<not> cx_live cx then (None, s\<lparr>sl_note := Some NoteNotLive\<rparr>)
     else if cx_busy cx then (None, s\<lparr>sl_note := Some NoteBusy\<rparr>)
     else (Some (OutAsk a), s))"

definition sel_enter :: "ctx \<Rightarrow> instant \<Rightarrow> selector \<Rightarrow> out option \<times> selector" where
  "sel_enter cx now s =
    (case row_at s (sl_cursor s) of
       None \<Rightarrow> sel_act cx (AskNew None) s
     | Some row \<Rightarrow>
         if se_this row then (Some OutClose, s)
         else if \<not> se_detachable row then (None, s\<lparr>sl_note := Some (NoteNotDetachable (entry_label row))\<rparr>)
         else if se_attached row = OtherVersion then (None, s\<lparr>sl_note := Some (NoteOtherVersion (entry_label row))\<rparr>)
         else if se_attached row = Elsewhere \<or> se_attached row = UnknownState then
           (None, s\<lparr>sl_question :=
              Some (TakeOver (se_id row) (entry_label row) (se_attached row = UnknownState), now)\<rparr>)
         else sel_act cx (AskSwitch (se_id row)) s)"

definition sel_answer :: "key \<Rightarrow> ctx \<Rightarrow> instant \<Rightarrow> selector \<Rightarrow> out option \<times> selector" where
  "sel_answer k cx now s =
    (case sl_question s of
       None \<Rightarrow> (None, s)
     | Some (q, asked) \<Rightarrow>
         if duration_since now asked < ANSWER_GUARD then (None, s)
         else if k = Byte 0x79 then
           sel_act cx (case q of TakeOver sid _ _ \<Rightarrow> AskSwitch sid | Kill sid _ _ \<Rightarrow> AskKill sid)
             (s\<lparr>sl_question := None\<rparr>)
         else if k = Byte 0x6e \<or> k = Byte KEY_ESC then (None, s\<lparr>sl_question := None\<rparr>)
         else (None, s))"

definition is_enter :: "key \<Rightarrow> bool" where
  "is_enter k \<longleftrightarrow> k = Byte 0x0d \<or> k = Byte 0x0a"

definition is_erase :: "key \<Rightarrow> bool" where
  "is_erase k \<longleftrightarrow> k = Byte 0x7f \<or> k = Byte 0x08"

definition rename_save :: "session_id \<Rightarrow> field \<Rightarrow> ctx \<Rightarrow> selector \<Rightarrow> out option \<times> selector" where
  "rename_save sid f cx s =
    (let trimmed = str_trim (fd_text f)
     in case (if trimmed = [] then Inr None else map_sum id Some (name_parse trimmed)) of
          Inl why \<Rightarrow> (None, s\<lparr>sl_note := Some (NoteBadName why)\<rparr>)
        | Inr name \<Rightarrow>
            (let (o', s1) = sel_act cx (AskRename sid name) s
             in (o', if o' \<noteq> None then s1\<lparr>sl_rename := None\<rparr> else s1)))"

definition rename_key :: "key \<Rightarrow> ctx \<Rightarrow> selector \<Rightarrow> out option \<times> selector" where
  "rename_key k cx s =
    (case sl_rename s of
       None \<Rightarrow> (None, s)
     | Some (sid, f) \<Rightarrow>
         if k = Byte KEY_ESC then (None, s\<lparr>sl_rename := None\<rparr>)
         else if is_enter k then rename_save sid f cx s
         else if is_erase k then (None, s\<lparr>sl_rename := Some (sid, field_erase f)\<rparr>)
         else (case k of
             Byte b \<Rightarrow> if b \<ge> 0x20 then (None, s\<lparr>sl_rename := Some (sid, type_byte b f)\<rparr>) else (None, s)
           | _ \<Rightarrow> (None, s)))"

definition start_rename :: "selector \<Rightarrow> selector" where
  "start_rename s =
    (case row_at s (sl_cursor s) of
       None \<Rightarrow> s
     | Some row \<Rightarrow>
         if se_attached row = OtherVersion then s\<lparr>sl_note := Some (NoteOtherVersion (entry_label row))\<rparr>
         else s\<lparr>sl_rename := Some (se_id row, field_set (case se_name row of Some n \<Rightarrow> n | None \<Rightarrow> []) field_default)\<rparr>)"

definition start_kill :: "instant \<Rightarrow> selector \<Rightarrow> selector" where
  "start_kill now s =
    (case row_at s (sl_cursor s) of
       None \<Rightarrow> s
     | Some row \<Rightarrow>
         if se_attached row = OtherVersion then s\<lparr>sl_note := Some (NoteOtherVersion (entry_label row))\<rparr>
         else s\<lparr>sl_question := Some (Kill (se_id row) (entry_label row) (se_attached row = Elsewhere), now)\<rparr>)"

definition sel_key :: "key \<Rightarrow> ctx \<Rightarrow> instant \<Rightarrow> selector \<Rightarrow> out option \<times> selector" where
  "sel_key k cx now s =
    (if sl_question s \<noteq> None then sel_answer k cx now s
     else if sl_rename s \<noteq> None then rename_key k cx s
     else if k = Up \<or> k = Byte 0x6b then (None, s\<lparr>sl_cursor := sl_cursor s - 1\<rparr>)
     else if k = Down \<or> k = Byte 0x6a then (None, s\<lparr>sl_cursor := min (sl_cursor s + 1) (length (sl_rows s))\<rparr>)
     else if is_enter k then sel_enter cx now s
     else if k = Byte 0x6e then sel_act cx (AskNew None) s
     else if k = Byte 0x72 then (None, start_rename s)
     else if k = Byte 0x78 then (None, start_kill now s)
     else if k = Byte 0x71 \<or> k = Byte KEY_ESC then (Some (if cx_lobby cx then OutQuit else OutBack), s)
     else (None, s))"

definition sel_paste :: "bytes \<Rightarrow> selector \<Rightarrow> selector \<times> bytes" where
  "sel_paste bs s =
    (let (sunk, p, rest) = paste_through (sl_pasting s) bs
     in (s\<lparr>sl_pasting := p, sl_rename := map_option (\<lambda>(sid, f). (sid, fold type_byte sunk f)) (sl_rename s)\<rparr>, rest))"

lemma paste_through_rest: "paste_through p bs = (sunk, p', rest) \<Longrightarrow> length rest \<le> length bs"
proof (induction p bs arbitrary: sunk rest rule: paste_through.induct)
  case (2 p b bs)
  then show ?case by (fastforce simp: Let_def split: if_splits prod.splits)
qed simp

lemma sel_paste_rest: "(s1, rest) = sel_paste bs s \<Longrightarrow> length rest \<le> length bs"
  by (auto simp: sel_paste_def split: prod.splits dest: paste_through_rest)

text \<open>One read's keys: it stops at the first key that produces something. \<open>lone\<close> is \<open>lone_esc\<close>.\<close>

function sel_loop :: "bytes \<Rightarrow> bool \<Rightarrow> ctx \<Rightarrow> instant \<Rightarrow> selector \<Rightarrow> out option \<times> selector" where
  "sel_loop rest lone cx now s =
    (case rest of
       [] \<Rightarrow> (None, s)
     | b # tail \<Rightarrow>
         if b = KEY_ESC \<and> \<not> lone then
           (case escape_seq tail of
              (Some k, used) \<Rightarrow>
                (case sel_key k cx now s of
                   (Some o', s1) \<Rightarrow> (Some o', s1)
                 | (None, s1) \<Rightarrow> sel_loop (drop used tail) lone cx now s1)
            | (None, used) \<Rightarrow>
                if take 5 tail = [0x5b, 0x32, 0x30, 0x30, 0x7e] then
                  (let (s1, rest1) = sel_paste (drop used tail) (s\<lparr>sl_pasting := Some 0\<rparr>)
                   in sel_loop rest1 lone cx now s1)
                else sel_loop (drop used tail) lone cx now s)
         else
           (case sel_key (Byte b) cx now s of
              (Some o', s1) \<Rightarrow> (Some o', s1)
            | (None, s1) \<Rightarrow> sel_loop tail lone cx now s1))"
  by pat_completeness auto
termination
  by (relation "measure (\<lambda>(rest, lone, cx, now, s). length rest)") (auto dest!: sel_paste_rest)

declare sel_loop.simps [simp del]

definition sel_keys :: "bytes \<Rightarrow> ctx \<Rightarrow> instant \<Rightarrow> selector \<Rightarrow> out option \<times> selector" where
  "sel_keys bs cx now s =
    (let s0 = s\<lparr>sl_note := None\<rparr>;
         (s1, rest) = (case sl_pasting s0 of Some _ \<Rightarrow> sel_paste bs s0 | None \<Rightarrow> (s0, bs))
     in sel_loop rest (bs = [KEY_ESC]) cx now s1)"

section \<open>What a read may ask for\<close>

text \<open>How the selector moves on without asking: the list stays, and a question that comes up is asked
  at this very moment.\<close>

definition evolves :: "instant \<Rightarrow> selector \<Rightarrow> selector \<Rightarrow> bool" where
  "evolves now s s' \<longleftrightarrow>
    sl_rows s' = sl_rows s \<and> (sl_cursor s \<le> length (sl_rows s) \<longrightarrow> sl_cursor s' \<le> length (sl_rows s))
    \<and> (sl_question s' = None \<or> sl_question s' = sl_question s \<or> (\<exists>q. sl_question s' = Some (q, now)))"

text \<open>What becomes of a rename while no Escape is pressed: one under way stays on its session and holds
  the cursor still; one that comes up is of the row under the cursor.\<close>

definition renamable_at_cursor :: "selector \<Rightarrow> session_id \<Rightarrow> bool" where
  "renamable_at_cursor s sid \<longleftrightarrow>
    (\<exists>row. row_at s (sl_cursor s) = Some row \<and> se_id row = sid \<and> se_attached row \<noteq> OtherVersion)"

definition rename_stays :: "selector \<Rightarrow> selector \<Rightarrow> bool" where
  "rename_stays s s' \<longleftrightarrow>
    (case sl_rename s of
       Some (sid, _) \<Rightarrow> sl_cursor s' = sl_cursor s \<and> (\<exists>f. sl_rename s' = Some (sid, f))
     | None \<Rightarrow> \<forall>sid f. sl_rename s' = Some (sid, f) \<longrightarrow> renamable_at_cursor s' sid)"

lemma evolves_refl: "evolves now s s"
  by (auto simp: evolves_def)

lemma evolves_trans: "evolves now s s1 \<Longrightarrow> evolves now s1 s2 \<Longrightarrow> evolves now s s2"
  unfolding evolves_def by metis

lemma evolves_same:
  "sl_rows s' = sl_rows s \<Longrightarrow> sl_cursor s' = sl_cursor s \<Longrightarrow>
   sl_question s' = None \<or> sl_question s' = sl_question s \<Longrightarrow> evolves now s s'"
  by (auto simp: evolves_def)

lemma rename_stays_trans:
  assumes "rename_stays s s1" and "rename_stays s1 s2" and "sl_rows s2 = sl_rows s1"
  shows "rename_stays s s2"
  using assms
  by (cases "sl_rename s"; cases "sl_rename s1")
    (force simp: rename_stays_def renamable_at_cursor_def row_at_def)+

lemma rename_stays_same:
  "sl_cursor s' = sl_cursor s \<Longrightarrow> map_option fst (sl_rename s') = map_option fst (sl_rename s) \<Longrightarrow>
   rename_stays s s'"
  by (cases "sl_rename s") (auto simp: rename_stays_def)

text \<open>What a key may ask for, given the selector it is pressed on.\<close>

definition key_asks :: "ctx \<Rightarrow> instant \<Rightarrow> selector \<Rightarrow> ask \<Rightarrow> bool" where
  "key_asks cx now s a \<longleftrightarrow>
    cx_live cx \<and> \<not> cx_busy cx
    \<and> (case a of
         AskSessions \<Rightarrow> False
       | AskNew name \<Rightarrow> name = None
       | AskKill sid \<Rightarrow> \<exists>l u t. sl_question s = Some (Kill sid l u, t) \<and> ANSWER_GUARD \<le> duration_since now t
       | AskSwitch sid \<Rightarrow>
           (\<exists>l u t. sl_question s = Some (TakeOver sid l u, t) \<and> ANSWER_GUARD \<le> duration_since now t)
           \<or> (\<exists>row. row_at s (sl_cursor s) = Some row \<and> se_id row = sid \<and> se_detachable row \<and> \<not> se_this row
                \<and> (se_attached row = NotAttached \<or> se_attached row = Here))
       | AskRename sid name \<Rightarrow>
           (\<exists>f. sl_rename s = Some (sid, f)) \<and> (\<forall>n. name = Some n \<longrightarrow> (\<exists>typed. name_parse typed = Inr n)))"

text \<open>The outcome of one key: without an ask the selector moves on, and an ask is one the key may make,
  with list and cursor as they were.\<close>

definition key_outcome :: "ctx \<Rightarrow> instant \<Rightarrow> selector \<Rightarrow> out option \<Rightarrow> selector \<Rightarrow> bool" where
  "key_outcome cx now s o' s' \<longleftrightarrow>
    evolves now s s'
    \<and> (\<forall>a. o' = Some (OutAsk a) \<longrightarrow> key_asks cx now s a \<and> sl_cursor s' = sl_cursor s)"

lemma key_outcome_quiet: "evolves now s s' \<Longrightarrow> (\<And>a. o' \<noteq> Some (OutAsk a)) \<Longrightarrow> key_outcome cx now s o' s'"
  by (simp add: key_outcome_def)

lemma sel_act_outcome:
  assumes "sel_act cx a s1 = (o', s')" and "evolves now s s1" and "sl_cursor s1 = sl_cursor s"
    and "cx_live cx \<Longrightarrow> \<not> cx_busy cx \<Longrightarrow> key_asks cx now s a"
  shows "key_outcome cx now s o' s'"
proof -
  have "evolves now s1 s'" "sl_cursor s' = sl_cursor s1"
    using assms(1) by (auto simp: sel_act_def intro: evolves_same split: if_splits)
  with assms(2) have "evolves now s s'" by (blast intro: evolves_trans)
  moreover have "o' = Some (OutAsk a) \<and> cx_live cx \<and> \<not> cx_busy cx" if "o' \<noteq> None"
    using assms(1) that by (auto simp: sel_act_def split: if_splits)
  ultimately show ?thesis
    using assms(3,4) \<open>sl_cursor s' = sl_cursor s1\<close> by (auto simp: key_outcome_def)
qed

lemma guard_blocks_now: "\<not> ANSWER_GUARD \<le> duration_since now now"
  by (simp add: ANSWER_GUARD_def duration_since_def)

lemma sel_answer_outcome:
  assumes "sel_answer k cx now s = (o', s')"
  shows "key_outcome cx now s o' s'"
proof (cases "sl_question s")
  case (Some qa)
  obtain q t where qa: "qa = (q, t)" by fastforce
  show ?thesis
  proof (cases "k = Byte 0x79 \<and> \<not> duration_since now t < ANSWER_GUARD")
    case True
    let ?a = "case q of TakeOver sid _ _ \<Rightarrow> AskSwitch sid | Kill sid _ _ \<Rightarrow> AskKill sid"
    have "sel_act cx ?a (s\<lparr>sl_question := None\<rparr>) = (o', s')"
      using assms Some qa True by (simp add: sel_answer_def)
    then show ?thesis
      by (rule sel_act_outcome)
        (use Some qa True in \<open>auto simp: key_asks_def not_less intro: evolves_same split: question.splits\<close>)
  next
    case False
    with assms Some qa have "o' = None" "s' = s \<or> s' = s\<lparr>sl_question := None\<rparr>"
      by (auto simp: sel_answer_def split: if_splits)
    then show ?thesis by (auto intro!: key_outcome_quiet evolves_same)
  qed
qed (use assms in \<open>auto simp: sel_answer_def intro!: key_outcome_quiet evolves_refl\<close>)

lemma rename_save_outcome:
  assumes "rename_save sid f cx s = (o', s')" "sl_rename s = Some (sid, f)"
  shows "key_outcome cx now s o' s'"
proof (cases "if str_trim (fd_text f) = [] then Inr None else map_sum id Some (name_parse (str_trim (fd_text f)))")
  case (Inl why)
  with assms(1) have "o' = None" "s' = s\<lparr>sl_note := Some (NoteBadName why)\<rparr>"
    by (auto simp: rename_save_def Let_def)
  then show ?thesis by (auto intro!: key_outcome_quiet evolves_same)
next
  case (Inr name)
  obtain o1 s1 where act: "sel_act cx (AskRename sid name) s = (o1, s1)" by fastforce
  have s': "o' = o1" "s' = (if o1 \<noteq> None then s1\<lparr>sl_rename := None\<rparr> else s1)"
    using assms(1) Inr act by (auto simp: rename_save_def Let_def)
  have "\<exists>typed. name_parse typed = Inr n" if "name = Some n" for n
    using Inr that by (cases "name_parse (str_trim (fd_text f))") (auto split: if_splits)
  then have "key_outcome cx now s o1 s1"
    using assms(2) by (intro sel_act_outcome [OF act]) (auto simp: key_asks_def evolves_refl)
  then show ?thesis
    by (auto simp: key_outcome_def evolves_def s')
qed

lemma rename_key_outcome:
  assumes "rename_key k cx s = (o', s')"
  shows "key_outcome cx now s o' s'"
proof (cases "sl_rename s")
  case (Some sf)
  obtain sid f where sf: "sf = (sid, f)" by fastforce
  show ?thesis
  proof (cases "is_enter k \<and> k \<noteq> Byte KEY_ESC")
    case True
    with assms Some sf have "rename_save sid f cx s = (o', s')" by (simp add: rename_key_def)
    with rename_save_outcome Some sf show ?thesis by simp
  next
    case False
    with assms Some sf have "o' = None" "s' = s \<or> (\<exists>r. s' = s\<lparr>sl_rename := r\<rparr>)"
      by (auto simp: rename_key_def split: if_splits key.splits)
    then show ?thesis by (auto intro!: key_outcome_quiet evolves_same)
  qed
qed (use assms in \<open>auto simp: rename_key_def intro!: key_outcome_quiet evolves_refl\<close>)

lemma sel_enter_outcome:
  assumes "sel_enter cx now s = (o', s')"
  shows "key_outcome cx now s o' s'"
proof (cases "row_at s (sl_cursor s)")
  case None
  with assms have "sel_act cx (AskNew None) s = (o', s')" by (simp add: sel_enter_def)
  then show ?thesis by (rule sel_act_outcome) (auto simp: key_asks_def evolves_refl)
next
  case (Some row)
  show ?thesis
  proof (cases "\<not> se_this row \<and> se_detachable row \<and> (se_attached row = NotAttached \<or> se_attached row = Here)")
    case True
    with assms Some have "sel_act cx (AskSwitch (se_id row)) s = (o', s')" by (auto simp: sel_enter_def)
    then show ?thesis by (rule sel_act_outcome) (use True Some in \<open>auto simp: key_asks_def evolves_refl\<close>)
  next
    case False
    then have "o' = None \<or> o' = Some OutClose"
      "s' = s \<or> (\<exists>n. s' = s\<lparr>sl_note := n\<rparr>) \<or> (\<exists>q. s' = s\<lparr>sl_question := Some (q, now)\<rparr>)"
      using assms Some by (cases "se_attached row"; auto simp: sel_enter_def split: if_splits)+
    then show ?thesis by (auto intro!: key_outcome_quiet simp: evolves_def)
  qed
qed

lemma sel_key_outcome:
  assumes "sel_key k cx now s = (o', s')"
  shows "key_outcome cx now s o' s'"
proof -
  consider (answer) "sl_question s \<noteq> None" | (rename) "sl_question s = None" "sl_rename s \<noteq> None"
    | (plain) "sl_question s = None" "sl_rename s = None" by blast
  then show ?thesis
  proof cases
    case answer
    with assms sel_answer_outcome show ?thesis by (simp add: sel_key_def)
  next
    case rename
    with assms rename_key_outcome show ?thesis by (simp add: sel_key_def)
  next
    case plain
    note r = assms [unfolded sel_key_def, simplified plain, simplified]
    have new: "key_outcome cx now s o' s'" if "sel_act cx (AskNew None) s = (o', s')"
      using that by (rule sel_act_outcome) (auto simp: key_asks_def evolves_refl)
    have start: "evolves now s (start_rename s)" "evolves now s (start_kill now s)"
      by (auto simp: start_rename_def start_kill_def evolves_def split: option.splits)
    have cursor: "evolves now s (s\<lparr>sl_cursor := sl_cursor s - Suc 0\<rparr>)"
      "evolves now s (s\<lparr>sl_cursor := min (Suc (sl_cursor s)) (length (sl_rows s))\<rparr>)"
      by (auto simp: evolves_def)
    from r show ?thesis
      by (auto split: if_splits intro: new sel_enter_outcome key_outcome_quiet start cursor evolves_refl)
  qed
qed

lemma sel_answer_rename: "sel_answer k cx now s = (o', s') \<Longrightarrow> sl_rename s' = sl_rename s \<and> sl_cursor s' = sl_cursor s"
  by (auto simp: sel_answer_def sel_act_def split: option.splits if_splits)

lemma rename_key_stays:
  assumes "rename_key k cx s = (None, s')" and "k \<noteq> Byte KEY_ESC"
  shows "rename_stays s s'"
proof -
  have "sl_cursor s' = sl_cursor s \<and> map_option fst (sl_rename s') = map_option fst (sl_rename s)"
    using assms
    by (auto simp: rename_key_def rename_save_def sel_act_def Let_def
        split: option.splits if_splits sum.splits key.splits)
  then show ?thesis by (blast intro: rename_stays_same)
qed

lemma sel_key_stays:
  assumes "sel_key k cx now s = (None, s')" and "k \<noteq> Byte KEY_ESC"
  shows "rename_stays s s'"
proof -
  consider (answer) "sl_question s \<noteq> None" | (rename) "sl_question s = None" "sl_rename s \<noteq> None"
    | (plain) "sl_question s = None" "sl_rename s = None" by blast
  then show ?thesis
  proof cases
    case answer
    with assms(1) sel_answer_rename [of k cx now s] show ?thesis
      by (auto simp: sel_key_def intro: rename_stays_same)
  next
    case rename
    with assms rename_key_stays show ?thesis by (simp add: sel_key_def)
  next
    case plain
    have quiet: "rename_stays s s'" if "sl_rename s' = None"
      using that plain by (simp add: rename_stays_def)
    have enter: "sl_rename s' = None" if "sel_enter cx now s = (None, s')"
      using that plain by (auto simp: sel_enter_def sel_act_def split: option.splits if_splits)
    have new: "sl_rename s' = None" if "sel_act cx (AskNew None) s = (None, s')"
      using that plain by (auto simp: sel_act_def split: if_splits)
    have "rename_stays s (start_rename s)"
      using plain by (auto simp: rename_stays_def start_rename_def renamable_at_cursor_def row_at_def
          split: option.splits if_splits)
    moreover have "sl_rename (start_kill now s) = None"
      using plain by (auto simp: start_kill_def split: option.splits)
    ultimately show ?thesis
      using assms(1) plain quiet enter new by (auto simp: sel_key_def split: if_splits)
  qed
qed

text \<open>The selectors one read passes through before a key produces something: keys that produce nothing
  and pastes. Escape is a key only when it is the whole read.\<close>

inductive sel_moves :: "bool \<Rightarrow> ctx \<Rightarrow> instant \<Rightarrow> selector \<Rightarrow> selector \<Rightarrow> bool" for lone cx now where
  moves_refl: "sel_moves lone cx now s s"
| moves_key: "sel_key k cx now s = (None, s1) \<Longrightarrow> lone \<or> k \<noteq> Byte KEY_ESC \<Longrightarrow> sel_moves lone cx now s1 s2 \<Longrightarrow>
    sel_moves lone cx now s s2"
| moves_paste: "sel_paste bs (s\<lparr>sl_pasting := Some n\<rparr>) = (s1, rest) \<Longrightarrow> sel_moves lone cx now s1 s2 \<Longrightarrow>
    sel_moves lone cx now s s2"

lemma sel_paste_same:
  assumes "sel_paste bs s = (s', rest)"
  shows "evolves now s s'" "rename_stays s s'"
  by (rule evolves_same rename_stays_same;
      use assms in \<open>auto simp: sel_paste_def map_option_case split: prod.splits option.splits\<close>)+

lemma sel_moves_evolves: "sel_moves lone cx now s s' \<Longrightarrow> evolves now s s'"
proof (induction rule: sel_moves.induct)
  case (moves_key k s s1 s2)
  from sel_key_outcome [OF moves_key(1)] moves_key.IH show ?case
    unfolding key_outcome_def by (blast intro: evolves_trans)
next
  case (moves_paste bs n s s1 rest s2)
  have "evolves now s (s\<lparr>sl_pasting := Some n\<rparr>)" by (rule evolves_same) simp_all
  then show ?case using sel_paste_same(1) [OF moves_paste(1)] moves_paste.IH by (blast intro: evolves_trans)
qed (rule evolves_refl)

lemma sel_moves_stays: "sel_moves False cx now s s' \<Longrightarrow> rename_stays s s'"
proof (induction rule: sel_moves.induct)
  case (moves_key k s s1 s2)
  then have "sl_rows s2 = sl_rows s1"
    using sel_moves_evolves [of False cx now s1 s2] by (simp add: evolves_def)
  with moves_key sel_key_stays show ?case by (blast intro: rename_stays_trans)
next
  case (moves_paste bs n s s1 rest s2)
  then have "sl_rows s2 = sl_rows s1"
    using sel_moves_evolves [of False cx now s1 s2] by (simp add: evolves_def)
  moreover have "rename_stays s s1"
    using sel_paste_same(2) [OF moves_paste(1)] by (auto simp: rename_stays_def split: option.splits)
  ultimately show ?case using moves_paste.IH by (blast intro: rename_stays_trans)
qed (simp add: rename_stays_same)

lemma sel_loop_Nil: "sel_loop [] lone cx now s = (None, s)"
  by (simp add: sel_loop.simps)

lemma sel_loop_byte:
  assumes "\<not> (b = KEY_ESC \<and> \<not> lone)"
  shows "sel_loop (b # tail) lone cx now s =
    (case sel_key (Byte b) cx now s of
       (Some o', s1) \<Rightarrow> (Some o', s1) | (None, s1) \<Rightarrow> sel_loop tail lone cx now s1)"
  by (subst sel_loop.simps) (use assms in auto)

lemma sel_loop_escape:
  "sel_loop (KEY_ESC # tail) False cx now s =
    (case escape_seq tail of
       (Some k, used) \<Rightarrow>
         (case sel_key k cx now s of
            (Some o', s1) \<Rightarrow> (Some o', s1) | (None, s1) \<Rightarrow> sel_loop (drop used tail) False cx now s1)
     | (None, used) \<Rightarrow>
         if take 5 tail = [0x5b, 0x32, 0x30, 0x30, 0x7e] then
           (let (s1, rest1) = sel_paste (drop used tail) (s\<lparr>sl_pasting := Some 0\<rparr>)
            in sel_loop rest1 False cx now s1)
         else sel_loop (drop used tail) False cx now s)"
  by (subst sel_loop.simps) simp

lemma escape_seq_key: "escape_seq tail = (Some k, used) \<Longrightarrow> k = Up \<or> k = Down"
  by (auto simp: escape_seq_def split: list.splits if_splits)

text \<open>A read that produces something does so with one key, pressed on a selector it passed through.\<close>

definition produced :: "bool \<Rightarrow> ctx \<Rightarrow> instant \<Rightarrow> selector \<Rightarrow> out option \<Rightarrow> selector \<Rightarrow> bool" where
  "produced lone cx now s o' s' \<longleftrightarrow>
    (if o' = None then sel_moves lone cx now s s'
     else \<exists>k s1. sel_moves lone cx now s s1 \<and> sel_key k cx now s1 = (o', s'))"

lemma produced_before:
  assumes "\<And>s2. sel_moves lone cx now s1 s2 \<Longrightarrow> sel_moves lone cx now s s2" and "produced lone cx now s1 o' s'"
  shows "produced lone cx now s o' s'"
  using assms unfolding produced_def by metis

lemma produced_key:
  assumes "(case sel_key k cx now s of (Some x, s1) \<Rightarrow> (Some x, s1) | (None, s1) \<Rightarrow> f s1) = (o', s')"
    and "lone \<or> k \<noteq> Byte KEY_ESC" and "\<And>s1. f s1 = (o', s') \<Longrightarrow> produced lone cx now s1 o' s'"
  shows "produced lone cx now s o' s'"
proof (cases "sel_key k cx now s")
  case (Pair o1 s1)
  show ?thesis
  proof (cases o1)
    case None
    with Pair assms(1,3) have "produced lone cx now s1 o' s'" by simp
    with Pair None assms(2) show ?thesis
      by (elim produced_before [rotated]) (rule moves_key, simp_all)
  next
    case (Some x)
    with Pair assms(1) show ?thesis by (auto simp: produced_def intro: moves_refl)
  qed
qed

lemma sel_loop_produced:
  assumes "sel_loop rest lone cx now s = (o', s')"
  shows "produced lone cx now s o' s'"
  using assms
proof (induction "length rest" arbitrary: rest s rule: less_induct)
  case less
  show ?case
  proof (cases rest)
    case Nil
    with less.prems show ?thesis by (auto simp: sel_loop_Nil produced_def intro: moves_refl)
  next
    case (Cons b tail)
    have short: "produced lone cx now s1 o' s'"
      if "sel_loop r lone cx now s1 = (o', s')" "length r \<le> length tail" for r s1
      using less.hyps [of r s1] that Cons by simp
    show ?thesis
    proof (cases "b = KEY_ESC \<and> \<not> lone")
      case False
      note run = less.prems [unfolded Cons sel_loop_byte [OF False]]
      have "lone \<or> Byte b \<noteq> Byte KEY_ESC" using False by auto
      from run this show ?thesis by (rule produced_key) (erule short, simp)
    next
      case True
      obtain k used where e: "escape_seq tail = (k, used)" by fastforce
      obtain s1 r1 where p: "sel_paste (drop used tail) (s\<lparr>sl_pasting := Some 0\<rparr>) = (s1, r1)" by fastforce
      have r1: "length r1 \<le> length tail" using sel_paste_rest [OF p [symmetric]] by simp
      have run: "sel_loop (KEY_ESC # tail) False cx now s = (o', s')" and lone: "lone = False"
        using less.prems True by (simp_all add: Cons)
      show ?thesis
      proof (cases k)
        case None
        show ?thesis
        proof (cases "take 5 tail = [0x5b, 0x32, 0x30, 0x30, 0x7e]")
          case True
          with run e p None have "sel_loop r1 lone cx now s1 = (o', s')"
            by (simp add: sel_loop_escape lone)
          from short [OF this r1] show ?thesis
            by (elim produced_before [rotated]) (rule moves_paste [OF p])
        next
          case False
          with run e None have "sel_loop (drop used tail) lone cx now s = (o', s')"
            by (simp add: sel_loop_escape lone)
          then show ?thesis by (rule short) simp
        qed
      next
        case (Some k')
        with run e have "(case sel_key k' cx now s of
            (Some x, s1) \<Rightarrow> (Some x, s1) | (None, s1) \<Rightarrow> sel_loop (drop used tail) lone cx now s1) = (o', s')"
          unfolding lone by (simp add: sel_loop_escape)
        moreover have "lone \<or> k' \<noteq> Byte KEY_ESC"
          using escape_seq_key e Some by blast
        ultimately show ?thesis by (rule produced_key) (erule short, simp)
      qed
    qed
  qed
qed

lemma sel_keys_produced:
  assumes "sel_keys bs cx now s = (o', s')"
  shows "produced (bs = [KEY_ESC]) cx now (s\<lparr>sl_note := None\<rparr>) o' s'"
proof -
  let ?s0 = "s\<lparr>sl_note := None\<rparr>" and ?lone = "bs = [KEY_ESC]"
  show ?thesis
  proof (cases "sl_pasting s")
    case None
    with assms show ?thesis by (auto simp: sel_keys_def intro: sel_loop_produced)
  next
    case (Some n)
    obtain s1 rest where p: "sel_paste bs ?s0 = (s1, rest)" by fastforce
    moreover have "?s0\<lparr>sl_pasting := Some n\<rparr> = ?s0" using Some by simp
    ultimately have p': "sel_paste bs (?s0\<lparr>sl_pasting := Some n\<rparr>) = (s1, rest)" by (simp only:)
    have "sel_loop rest ?lone cx now s1 = (o', s')"
      using assms Some p by (simp add: sel_keys_def)
    from sel_loop_produced [OF this] show ?thesis
      by (elim produced_before [rotated]) (rule moves_paste [OF p'])
  qed
qed

lemma escape_alone_asks_nothing: "fst (sel_keys [KEY_ESC] cx now s) \<noteq> Some (OutAsk a)"
proof -
  have key: "fst (sel_loop [KEY_ESC] True cx now s1) \<noteq> Some (OutAsk a)" for s1
    by (cases "sl_question s1"; cases "sl_rename s1")
      (auto simp: sel_loop_byte sel_loop_Nil sel_key_def sel_answer_def rename_key_def is_enter_def KEY_ESC_def
        split: prod.splits option.splits if_splits)
  have "snd (snd (paste_through p [KEY_ESC])) = []" for p
    by (simp add: Let_def case_prod_beta)
  then show ?thesis
    using key by (cases "sl_pasting s") (simp_all add: sel_keys_def sel_paste_def sel_loop_Nil case_prod_beta del: paste_through.simps)
qed

lemma sel_keys_ask:
  assumes "sel_keys bs cx now s = (Some (OutAsk a), s')"
  obtains s1 where "evolves now (s\<lparr>sl_note := None\<rparr>) s1" "rename_stays (s\<lparr>sl_note := None\<rparr>) s1" "key_asks cx now s1 a"
    "sl_cursor s' = sl_cursor s1" "sl_rows s' = sl_rows s1"
proof -
  have "bs \<noteq> [KEY_ESC]"
    using assms escape_alone_asks_nothing [of cx now s a] by auto
  then obtain k s1 where m: "sel_moves False cx now (s\<lparr>sl_note := None\<rparr>) s1"
      and k: "sel_key k cx now s1 = (Some (OutAsk a), s')"
    using sel_keys_produced [OF assms] by (auto simp: produced_def)
  show ?thesis
    using that [OF sel_moves_evolves [OF m] sel_moves_stays [OF m]] sel_key_outcome [OF k]
    by (simp add: key_outcome_def evolves_def)
qed

lemma set_rows_rename: "sl_rename (set_rows rows s) = Some r \<Longrightarrow> sl_rename s = Some r"
  by (auto simp: set_rows_def end_stale_rename_def Let_def split: option.splits if_splits)

section \<open>Properties\<close>

text \<open>C21: the selector asks the host for something only while the link is live and no other request is
  under way, and never for more than the user said: a kill only when a question about killing that very
  session was up before this read and had been up long enough to be seen; a switch likewise after a
  take-over question, or to the session under the cursor, which can be attached and no other client
  holds; a rename, to a valid name or none, only of the session it was begun on: of the one it was
  under way for when the read began, and of no other, wherever the cursor is, or, when none was under
  way, of the session of this version under the cursor. A list that arrives meanwhile may end the
  rename and never turns it to another session.\<close>

theorem selector_asks_only_what_was_confirmed:
  assumes "sel_keys bs cx now s = (Some (OutAsk a), s')"
  shows "cx_live cx \<and> \<not> cx_busy cx
    \<and> (case a of
         AskSessions \<Rightarrow> False
       | AskNew name \<Rightarrow> name = None
       | AskKill sid \<Rightarrow> \<exists>l u t. sl_question s = Some (Kill sid l u, t) \<and> ANSWER_GUARD \<le> now - t
       | AskSwitch sid \<Rightarrow>
           (\<exists>l u t. sl_question s = Some (TakeOver sid l u, t) \<and> ANSWER_GUARD \<le> now - t)
           \<or> (\<exists>row. sl_cursor s' < length (sl_rows s) \<and> row = sl_rows s ! sl_cursor s'
                \<and> se_id row = sid \<and> se_detachable row \<and> \<not> se_this row
                \<and> (se_attached row = NotAttached \<or> se_attached row = Here))
       | AskRename sid name \<Rightarrow>
           (case sl_rename s of
              Some (begun, _) \<Rightarrow> sid = begun
            | None \<Rightarrow> \<exists>row. sl_cursor s' < length (sl_rows s) \<and> row = sl_rows s ! sl_cursor s'
                \<and> se_id row = sid \<and> se_attached row \<noteq> OtherVersion)
           \<and> (case name of None \<Rightarrow> True | Some n \<Rightarrow> \<exists>typed. name_parse typed = Inr n))
    \<and> (\<forall>rows begun f. sl_rename (set_rows rows s) = Some (begun, f) \<longrightarrow> sl_rename s = Some (begun, f))"
proof -
  obtain s1 where ev: "evolves now (s\<lparr>sl_note := None\<rparr>) s1" and stays: "rename_stays (s\<lparr>sl_note := None\<rparr>) s1"
    and asks: "key_asks cx now s1 a" and cur: "sl_cursor s' = sl_cursor s1"
    using sel_keys_ask [OF assms] by blast
  have rows: "sl_rows s1 = sl_rows s" and
    question: "sl_question s1 = None \<or> sl_question s1 = sl_question s \<or> (\<exists>q. sl_question s1 = Some (q, now))"
    using ev by (simp_all add: evolves_def)
  have question': "sl_question s = Some (q, t) \<and> ANSWER_GUARD \<le> now - t"
    if "sl_question s1 = Some (q, t)" "ANSWER_GUARD \<le> duration_since now t" for q t
    using that question guard_blocks_now [of now] by (auto simp: duration_since_def)
  have at: "sl_cursor s' < length (sl_rows s) \<and> row = sl_rows s ! sl_cursor s'"
    if "row_at s1 (sl_cursor s1) = Some row" for row
    using that rows cur by (auto simp: row_at_def split: if_splits)
  have begun: "case sl_rename s of Some (begun, _) \<Rightarrow> sid = begun
      | None \<Rightarrow> \<exists>row. sl_cursor s' < length (sl_rows s) \<and> row = sl_rows s ! sl_cursor s'
          \<and> se_id row = sid \<and> se_attached row \<noteq> OtherVersion"
    if "sl_rename s1 = Some (sid, f)" for sid f
    using stays that at by (force simp: rename_stays_def renamable_at_cursor_def split: option.splits)
  have "case a of
         AskSessions \<Rightarrow> False
       | AskNew name \<Rightarrow> name = None
       | AskKill sid \<Rightarrow> \<exists>l u t. sl_question s = Some (Kill sid l u, t) \<and> ANSWER_GUARD \<le> now - t
       | AskSwitch sid \<Rightarrow>
           (\<exists>l u t. sl_question s = Some (TakeOver sid l u, t) \<and> ANSWER_GUARD \<le> now - t)
           \<or> (\<exists>row. sl_cursor s' < length (sl_rows s) \<and> row = sl_rows s ! sl_cursor s'
                \<and> se_id row = sid \<and> se_detachable row \<and> \<not> se_this row
                \<and> (se_attached row = NotAttached \<or> se_attached row = Here))
       | AskRename sid name \<Rightarrow>
           (case sl_rename s of
              Some (begun, _) \<Rightarrow> sid = begun
            | None \<Rightarrow> \<exists>row. sl_cursor s' < length (sl_rows s) \<and> row = sl_rows s ! sl_cursor s'
                \<and> se_id row = sid \<and> se_attached row \<noteq> OtherVersion)
           \<and> (case name of None \<Rightarrow> True | Some n \<Rightarrow> \<exists>typed. name_parse typed = Inr n)"
  proof (cases a)
    case (AskKill sid)
    with asks question' show ?thesis by (fastforce simp: key_asks_def)
  next
    case (AskSwitch sid)
    with asks show ?thesis using question' at by (simp add: key_asks_def) blast
  next
    case (AskRename sid name)
    with asks begun show ?thesis by (auto simp: key_asks_def split: option.split)
  qed (use asks in \<open>auto simp: key_asks_def\<close>)
  moreover have "cx_live cx" "\<not> cx_busy cx"
    using asks by (simp_all add: key_asks_def)
  ultimately show ?thesis
    using set_rows_rename by blast
qed

definition sel_sample :: selector where
  "sel_sample = selector_default\<lparr>sl_question := Some (Kill [1] (str_of ''web'') False, 0)\<rparr>"

definition live_ctx :: ctx where
  "live_ctx = \<lparr>cx_live = True, cx_lobby = False, cx_busy = False\<rparr>"

lemma sel_sample_keys:
  "sel_keys [0x79] live_ctx 500000000 sel_sample = (Some (OutAsk (AskKill [1])), sel_sample\<lparr>sl_question := None\<rparr>)"
  by (simp add: sel_keys_def sel_sample_def selector_default_def sel_loop_byte KEY_ESC_def sel_key_def sel_answer_def
      duration_since_def ANSWER_GUARD_def sel_act_def live_ctx_def)

theorem selector_asks_only_what_was_confirmed_witness:
  "\<exists>l u t. sl_question sel_sample = Some (Kill [1] l u, t) \<and> ANSWER_GUARD \<le> 500000000 - t"
  using selector_asks_only_what_was_confirmed [OF sel_sample_keys] by simp

section \<open>Pastes\<close>

lemma paste_whole:
  assumes "\<not> sublist PASTE_END (typed @ butlast PASTE_END)"
  shows "paste_through (Some 0) (typed @ PASTE_END @ after) = (typed, None, after)"
proof -
  obtain sunk p rest where r: "paste_through (Some 0) (typed @ PASTE_END @ after) = (sunk, p, rest)"
    by (metis prod_cases3)
  have spec: "case p of
      None \<Rightarrow> typed @ PASTE_END @ after = sunk @ PASTE_END @ rest \<and> \<not> sublist PASTE_END (sunk @ butlast PASTE_END)
    | Some k \<Rightarrow> rest = [] \<and> typed @ PASTE_END @ after = sunk @ take k PASTE_END \<and> scanned k (sunk @ take k PASTE_END)"
    using paste_through_spec [of 0 "[]", OF _ r] scanned_start by (simp split: option.splits)
  have marker: "PASTE_END = butlast PASTE_END @ [last PASTE_END]" by (simp add: PASTE_END_def)
  have first: "length xs \<le> length ys"
    if "xs @ PASTE_END @ u = ys @ PASTE_END @ v" "\<not> sublist PASTE_END (xs @ butlast PASTE_END)" for xs ys u v
  proof (rule ccontr)
    assume "\<not> length xs \<le> length ys"
    then have "length (ys @ PASTE_END) \<le> length (xs @ butlast PASTE_END)" by (simp add: PASTE_END_def)
    moreover have "(xs @ butlast PASTE_END) @ [last PASTE_END] @ u = (ys @ PASTE_END) @ v"
      using that(1) marker by (metis append_assoc)
    ultimately obtain w where "xs @ butlast PASTE_END = (ys @ PASTE_END) @ w"
      by (metis append_eq_append_conv_if append_take_drop_id)
    then have "sublist PASTE_END (xs @ butlast PASTE_END)" by (auto simp: sublist_def)
    with that(2) show False by blast
  qed
  show ?thesis
  proof (cases p)
    case None
    with spec have e: "typed @ PASTE_END @ after = sunk @ PASTE_END @ rest" "\<not> sublist PASTE_END (sunk @ butlast PASTE_END)"
      by simp_all
    have "length typed = length sunk"
      using first [OF e(1) assms] first [OF e(1) [symmetric] e(2)] by simp
    with e(1) None r show ?thesis by simp
  next
    case (Some k)
    with spec have "typed @ PASTE_END @ after = sunk @ take k PASTE_END" "\<not> sublist PASTE_END (sunk @ take k PASTE_END)"
      by (simp_all add: scanned_def)
    then show ?thesis by (metis sublist_appendI)
  qed
qed

text \<open>A paste is never a command. Whatever the pasted text is, newlines, \<open>y\<close> and escape sequences
  included, a bracketed paste on the selector asks for nothing, moves nothing and answers nothing: its
  text goes into the name being typed, if one is, and nowhere else.\<close>

theorem selector_paste_is_only_text:
  assumes "\<not> sublist PASTE_END (typed @ butlast PASTE_END)" and "sl_pasting s = None"
  shows "sel_keys ([KEY_ESC, 0x5b, 0x32, 0x30, 0x30, 0x7e] @ typed @ PASTE_END) cx now s
    = (None, s\<lparr>sl_note := None,
         sl_rename := map_option (\<lambda>(sid, f). (sid, fold type_byte typed f)) (sl_rename s)\<rparr>)"
proof -
  have esc: "escape_seq (0x5b # 0x32 # 0x30 # 0x30 # 0x7e # typed @ PASTE_END) = (None, 5)"
    by (simp add: escape_seq_def)
  have paste: "sel_paste (typed @ PASTE_END) (s\<lparr>sl_note := None, sl_pasting := Some 0\<rparr>)
      = (s\<lparr>sl_note := None, sl_rename := map_option (\<lambda>(sid, f). (sid, fold type_byte typed f)) (sl_rename s)\<rparr>, [])"
    using paste_whole [OF assms(1), of "[]"] assms(2) by (simp add: sel_paste_def)
  show ?thesis
    using assms(2) paste by (simp add: sel_keys_def sel_loop_escape esc sel_loop_Nil KEY_ESC_def [symmetric])
qed

theorem selector_paste_is_only_text_witness:
  "sel_keys ([KEY_ESC, 0x5b, 0x32, 0x30, 0x30, 0x7e] @ [0x79, 0x0a] @ PASTE_END) live_ctx 500000000 sel_sample
    = (None, sel_sample)"
proof -
  have "\<not> sublist PASTE_END ([0x79, 0x0a] @ butlast PASTE_END)" by code_simp
  from selector_paste_is_only_text [OF this, of sel_sample live_ctx 500000000] show ?thesis
    by (simp add: sel_sample_def selector_default_def)
qed

section \<open>The list and the cursor\<close>

lemma row_position_Some: "row_position P es = Some i \<Longrightarrow> i < length es \<and> P (es ! i)"
  by (induction es arbitrary: i) (auto split: if_splits)

lemma row_position_None: "row_position P es = None \<longleftrightarrow> (\<forall>e\<in>set es. \<not> P e)"
  by (induction es) auto

lemma end_stale_rename_same:
  "sl_rows (end_stale_rename rows s) = sl_rows s" "sl_cursor (end_stale_rename rows s) = sl_cursor s"
  "sl_loading (end_stale_rename rows s) = sl_loading s"
  by (auto simp: end_stale_rename_def split: option.splits)

text \<open>A refetched list moves rows, not choices. The list is the fetched one by age, and the cursor stays
  on a row or on \<open>+ new session\<close>: on the session it was on when that is still there (a fresh list puts it
  on the session the client is in), and a rename under way goes on only for a session still listed.\<close>

theorem refetch_keeps_the_choice:
  "let s' = set_rows fetched s in
     sl_rows s' = sort_key se_created_unix fetched \<and> sl_cursor s' \<le> length (sl_rows s')
     \<and> (if sl_loading s
        then (if \<exists>e\<in>set fetched. se_this e then se_this (sl_rows s' ! sl_cursor s') else sl_cursor s' = 0)
        else case selected s of
          None \<Rightarrow> sl_cursor s' = length fetched
        | Some sid \<Rightarrow> if sid \<in> se_id ` set fetched then selected s' = Some sid
                     else sl_cursor s' = min (sl_cursor s) (length fetched))
     \<and> (case sl_rename s' of None \<Rightarrow> True | Some (sid, f) \<Rightarrow> sl_rename s = Some (sid, f) \<and> sid \<in> se_id ` set fetched)"
proof -
  define rows where "rows = sort_key se_created_unix fetched"
  define s' where "s' = set_rows fetched s"
  have rows: "set rows = set fetched" "length rows = length fetched" by (simp_all add: rows_def)
  have sel: "selected (end_stale_rename rows s) = selected s"
    by (simp add: selected_def row_at_def end_stale_rename_same)
  have r: "sl_rows s' = rows" "sl_rename s' = sl_rename (end_stale_rename rows s)"
    "sl_cursor s' = (if sl_loading s then (case row_position se_this rows of Some i \<Rightarrow> i | None \<Rightarrow> 0)
       else case selected s of
         Some sid \<Rightarrow> (case row_position (\<lambda>e. se_id e = sid) rows of
             Some i \<Rightarrow> i | None \<Rightarrow> min (sl_cursor s) (length rows))
       | None \<Rightarrow> length rows)"
    by (simp_all add: s'_def set_rows_def Let_def rows_def [symmetric] sel end_stale_rename_same split: option.split)
  have "sl_cursor s' \<le> length rows"
    unfolding r(3) by (auto split: option.splits dest: row_position_Some)
  moreover have "if \<exists>e\<in>set fetched. se_this e then se_this (rows ! sl_cursor s') else sl_cursor s' = 0"
    if "sl_loading s"
    using that row_position_None [of se_this rows] row_position_Some [of se_this rows]
    by (cases "row_position se_this rows") (auto simp: r(3) rows)
  moreover have "if sid \<in> se_id ` set fetched then selected s' = Some sid else sl_cursor s' = min (sl_cursor s) (length fetched)"
    if "\<not> sl_loading s" "selected s = Some sid" for sid
    using that row_position_None [of "\<lambda>e. se_id e = sid" rows] row_position_Some [of "\<lambda>e. se_id e = sid" rows]
    by (cases "row_position (\<lambda>e. se_id e = sid) rows") (auto simp: r selected_def row_at_def rows)
  moreover have "case sl_rename s' of None \<Rightarrow> True
      | Some (sid, f) \<Rightarrow> sl_rename s = Some (sid, f) \<and> sid \<in> se_id ` set fetched"
    unfolding r(2) by (auto simp: end_stale_rename_def list_ex_iff rows split: option.splits if_splits)
  moreover have "sl_cursor s' = length fetched" if "\<not> sl_loading s" "selected s = None"
    using that by (simp add: r(3) rows)
  ultimately show ?thesis
    unfolding Let_def s'_def [symmetric] r(1) rows_def [symmetric]
    by (cases "sl_loading s"; cases "selected s") simp_all
qed

end
