(* ===== verification/Standby.thy ===== *)
theory Standby
  imports Link_State "HOL-Library.Multiset"
begin

text \<open>
  The client's standby link (\<open>src/standby.rs\<close>): when one is searched for, how it is probed during
  an outage, and when the session fails over onto it. The link a search establishes is a value of
  a type \<open>'e\<close>, the network settings one of a type \<open>'c\<close>: the state machine only keeps them. Closing
  a link is an effect: an operation that closes one returns it with the reason.
\<close>

section \<open>State\<close>

datatype rebuild_stage = StageIdle | Connecting | Committed

datatype close_reason = STALE | SWITCHED_OFF | REBUILT | SWITCHED

datatype standby_action =
    DoNothing
  | DoSearch (action_search: u64)
  | DoProbe (action_nonce: u64)
  | FailOver

record ('c, 'e) standby =
  sb_cfg :: 'c
  sb_link :: "'e option"
  searching :: bool
  sb_search :: u64
  failures :: u32
  next_search :: instant
  sb_probe :: probe_state
  probing :: bool
  sb_nonce :: u64
  last_failure :: "ustr option"
  enabled :: bool

definition standby_new :: "'c \<Rightarrow> instant \<Rightarrow> ('c, 'e) standby" where
  "standby_new cfg now = \<lparr>sb_cfg = cfg, sb_link = None, searching = False, sb_search = 0,
     failures = 0, next_search = now + STANDBY_DELAY, sb_probe = ProbeIdle, probing = False,
     sb_nonce = 0, last_failure = None, enabled = True\<rparr>"

definition set_cfg :: "'c \<Rightarrow> ('c, 'e) standby \<Rightarrow> ('c, 'e) standby" where
  "set_cfg cfg s = s\<lparr>sb_cfg := cfg\<rparr>"

section \<open>Operations\<close>

definition new_primary :: "('c, 'e) standby \<Rightarrow> ('c, 'e) standby" where
  "new_primary s = s\<lparr>searching := False, sb_search := sb_search s + 1\<rparr>"

definition sb_backoff :: "instant \<Rightarrow> ('c, 'e) standby \<Rightarrow> ('c, 'e) standby" where
  "sb_backoff now s =
    s\<lparr>next_search := now + standby_backoff (failures s), failures := sat_add (failures s) 1\<rparr>"

definition set_enabled ::
    "bool \<Rightarrow> instant \<Rightarrow> ('c, 'e) standby \<Rightarrow> ('c, 'e) standby \<times> ('e \<times> close_reason) list" where
  "set_enabled on now s =
    (if on = enabled s then (s, [])
     else let s = s\<lparr>enabled := on\<rparr> in
       if on then (s\<lparr>next_search := now + STANDBY_DELAY\<rparr>, [])
       else let s = new_primary s;
                s = s\<lparr>probing := False, sb_probe := ProbeIdle\<rparr>
            in case sb_link s of
                 Some e \<Rightarrow> (s\<lparr>sb_link := None\<rparr>, [(e, SWITCHED_OFF)])
               | None \<Rightarrow> (s, []))"

definition may_probe :: "probe_state \<Rightarrow> instant \<Rightarrow> bool" where
  "may_probe p now =
    (case p of
       ProbeIdle \<Rightarrow> True
     | ProbeFailed at \<Rightarrow> duration_since now at \<ge> PROBE_RETRY
     | _ \<Rightarrow> False)"

definition standby_step ::
    "phase \<Rightarrow> instant \<Rightarrow> rebuild_stage \<Rightarrow> ('c, 'e) standby \<Rightarrow> standby_action \<times> ('c, 'e) standby" where
  "standby_step ph now rebuild s =
    (if \<not> enabled s then (DoNothing, s)
     else if \<not> is_outage ph then
       (let s = s\<lparr>sb_probe := ProbeIdle\<rparr> in
        if sb_link s = None \<and> \<not> searching s \<and> now \<ge> next_search s then
          (let s = s\<lparr>searching := True, sb_search := sb_search s + 1\<rparr>
           in (DoSearch (sb_search s), s))
        else (DoNothing, s))
     else if sb_link s = None then (DoNothing, s)
     else if rebuild = Committed then (DoNothing, s\<lparr>sb_probe := ProbeIdle\<rparr>)
     else if failover_due ph (sb_probe s) now then (FailOver, s)
     else if may_probe (sb_probe s) now \<and> \<not> probing s then
       (let s = s\<lparr>probing := True, sb_nonce := sb_nonce s + 1, sb_probe := ProbePending now\<rparr>
        in (DoProbe (sb_nonce s), s))
     else (DoNothing, s))"

definition found ::
    "u64 \<Rightarrow> 'e \<Rightarrow> ('c, 'e) standby \<Rightarrow> bool \<times> ('c, 'e) standby \<times> ('e \<times> close_reason) list" where
  "found search e s =
    (if \<not> enabled s \<or> search \<noteq> sb_search s then (False, s, [(e, STALE)])
     else (True, s\<lparr>searching := False, failures := 0, last_failure := None, sb_link := Some e\<rparr>, []))"

definition not_found ::
    "u64 \<Rightarrow> instant \<Rightarrow> ustr \<Rightarrow> ('c, 'e) standby \<Rightarrow> bool \<times> ('c, 'e) standby" where
  "not_found search now reason s =
    (if search \<noteq> sb_search s then (False, s)
     else (True, sb_backoff now (s\<lparr>searching := False, last_failure := Some reason\<rparr>)))"

definition probed :: "bool \<Rightarrow> instant \<Rightarrow> ('c, 'e) standby \<Rightarrow> bool \<times> ('c, 'e) standby" where
  "probed answered now s =
    (let s = s\<lparr>probing := False\<rparr> in
     case sb_probe s of
       ProbePending t \<Rightarrow>
         (True, s\<lparr>sb_probe := (if answered then ProbeAnswered t else ProbeFailed now)\<rparr>)
     | _ \<Rightarrow> (False, s))"

text \<open>What a connection reports when it closes, as far as \<open>lost\<close> tells reasons apart.\<close>

datatype connection_error = ApplicationClosed string | OtherConnectionError

definition SHELL_EXITED :: string where "SHELL_EXITED = ''the shell exited''"
definition TAKEN_OVER :: string where "TAKEN_OVER = ''taken over by a newer attach''"

definition lost :: "instant \<Rightarrow> connection_error \<Rightarrow> ('c, 'e) standby \<Rightarrow> bool \<times> ('c, 'e) standby" where
  "lost now reason s =
    (let s = sb_backoff now (s\<lparr>sb_link := None, sb_probe := ProbeIdle\<rparr>);
         ending = (case reason of
             ApplicationClosed r \<Rightarrow> r = SHELL_EXITED \<or> r = TAKEN_OVER
           | OtherConnectionError \<Rightarrow> False)
     in (\<not> ending, s))"

definition route_moved :: "instant \<Rightarrow> ('c, 'e) standby \<Rightarrow> ('c, 'e) standby" where
  "route_moved now s = s\<lparr>next_search := now\<rparr>"

definition take_for_failover :: "instant \<Rightarrow> ('c, 'e) standby \<Rightarrow> 'e option \<times> ('c, 'e) standby" where
  "take_for_failover now s =
    (let s = s\<lparr>sb_probe := ProbeIdle, failures := 0, next_search := now + STANDBY_DELAY\<rparr>;
         s = new_primary s
     in (sb_link s, s\<lparr>sb_link := None\<rparr>))"

definition forget :: "instant \<Rightarrow> ('c, 'e) standby \<Rightarrow> ('c, 'e) standby \<times> ('e \<times> close_reason) list" where
  "forget now s =
    (let closes = (case sb_link s of Some e \<Rightarrow> [(e, REBUILT)] | None \<Rightarrow> []);
         s = s\<lparr>sb_link := None, sb_probe := ProbeIdle, next_search := now + STANDBY_DELAY\<rparr>
     in (new_primary s, closes))"

section \<open>Histories\<close>

text \<open>Everything that happens to a standby, with what it makes the loop do: the links it closes and
  the link it hands over. \<open>Found\<close> brings a link into the standby's keeping.\<close>

datatype 'e standby_event =
    EvStep phase rebuild_stage
  | EvFound u64 'e
  | EvNotFound u64 ustr
  | EvProbed bool
  | EvLost connection_error
  | EvRouteMoved
  | EvTake
  | EvForget
  | EvEnable bool

record 'e standby_effect =
  eff_action :: standby_action
  eff_closed :: "('e \<times> close_reason) list"
  eff_taken :: "'e option"

definition no_effect :: "'e standby_effect" where
  "no_effect = \<lparr>eff_action = DoNothing, eff_closed = [], eff_taken = None\<rparr>"

fun standby_do ::
    "instant \<times> 'e standby_event \<Rightarrow> ('c, 'e) standby \<Rightarrow> ('c, 'e) standby \<times> 'e standby_effect" where
  "standby_do (now, EvStep ph rb) s =
     (let (a, s') = standby_step ph now rb s in (s', no_effect\<lparr>eff_action := a\<rparr>))"
| "standby_do (now, EvFound n e) s =
     (let (_, s', cl) = found n e s in (s', no_effect\<lparr>eff_closed := cl\<rparr>))"
| "standby_do (now, EvNotFound n r) s = (snd (not_found n now r s), no_effect)"
| "standby_do (now, EvProbed a) s = (snd (probed a now s), no_effect)"
| "standby_do (now, EvLost r) s = (snd (lost now r s), no_effect)"
| "standby_do (now, EvRouteMoved) s = (route_moved now s, no_effect)"
| "standby_do (now, EvTake) s =
     (let (l, s') = take_for_failover now s in (s', no_effect\<lparr>eff_taken := l\<rparr>))"
| "standby_do (now, EvForget) s =
     (let (s', cl) = forget now s in (s', no_effect\<lparr>eff_closed := cl\<rparr>))"
| "standby_do (now, EvEnable on) s =
     (let (s', cl) = set_enabled on now s in (s', no_effect\<lparr>eff_closed := cl\<rparr>))"

fun standby_run ::
    "(instant \<times> 'e standby_event) list \<Rightarrow> ('c, 'e) standby \<Rightarrow> ('c, 'e) standby \<times> 'e standby_effect list" where
  "standby_run [] s = (s, [])"
| "standby_run (ev # evs) s =
     (let (s', f) = standby_do ev s; (s'', fs) = standby_run evs s' in (s'', f # fs))"

lemmas standby_op_defs = standby_step_def found_def not_found_def probed_def lost_def route_moved_def
  take_for_failover_def forget_def set_enabled_def new_primary_def sb_backoff_def no_effect_def

section \<open>The invariant\<close>

text \<open>A standby and a running search exclude each other, a switched-off standby holds nothing, a
  probe that awaits its answer has its task running, and only a standby that is there is probed.\<close>

definition standby_ok :: "('c, 'e) standby \<Rightarrow> bool" where
  "standby_ok s =
    ((searching s \<longrightarrow> sb_link s = None)
     \<and> (\<not> enabled s \<longrightarrow> sb_link s = None \<and> \<not> searching s \<and> sb_probe s = ProbeIdle)
     \<and> (\<forall>t. sb_probe s = ProbePending t \<longrightarrow> probing s)
     \<and> (sb_probe s \<noteq> ProbeIdle \<longrightarrow> sb_link s \<noteq> None))"

lemma standby_ok_new: "standby_ok (standby_new cfg now)"
  by (simp add: standby_ok_def standby_new_def)

lemma standby_ok_do: "standby_ok s \<Longrightarrow> standby_ok (fst (standby_do ev s))"
proof (induction ev s rule: standby_do.induct)
  case (1 now ph rb s)
  then show ?case
    by (auto simp: standby_op_defs standby_ok_def Let_def split: probe_state.splits)
next
  case (9 now on s)
  then show ?case
    by (cases "sb_link s") (auto simp: standby_op_defs standby_ok_def Let_def)
qed (auto simp: standby_op_defs standby_ok_def Let_def split: probe_state.splits)

section \<open>No link is leaked\<close>

text \<open>A ledger beside the standby: the searches whose report is still to come, the links searches
  brought, and the links that left: closed, handed over, or closed by themselves. A report comes
  once, for a search that was started.\<close>

definition held_links :: "('c, 'e) standby \<Rightarrow> 'e multiset" where
  "held_links s = (case sb_link s of Some e \<Rightarrow> {#e#} | None \<Rightarrow> {#})"

fun report_of :: "'e standby_event \<Rightarrow> u64 option" where
  "report_of (EvFound n _) = Some n"
| "report_of (EvNotFound n _) = Some n"
| "report_of _ = None"

fun brought_by :: "'e standby_event \<Rightarrow> 'e multiset" where
  "brought_by (EvFound _ e) = {#e#}"
| "brought_by _ = {#}"

definition gone_by :: "'e standby_event \<Rightarrow> ('c, 'e) standby \<Rightarrow> 'e standby_effect \<Rightarrow> 'e multiset" where
  "gone_by ev s f =
    mset (map fst (eff_closed f)) + (case eff_taken f of Some e \<Rightarrow> {#e#} | None \<Rightarrow> {#})
    + (case ev of EvLost _ \<Rightarrow> held_links s | _ \<Rightarrow> {#})"

definition pending_after :: "'e standby_event \<Rightarrow> 'e standby_effect \<Rightarrow> u64 set \<Rightarrow> u64 set" where
  "pending_after ev f pending =
    (pending - (case report_of ev of Some n \<Rightarrow> {n} | None \<Rightarrow> {}))
    \<union> (case eff_action f of DoSearch n \<Rightarrow> {n} | _ \<Rightarrow> {})"

inductive standby_hist ::
    "('c, 'e) standby \<Rightarrow> nat \<Rightarrow> u64 set \<Rightarrow> 'e multiset \<Rightarrow> 'e multiset \<Rightarrow> bool" where
  hist_start: "standby_hist (standby_new cfg now) 0 {} {#} {#}"
| hist_event:
    "standby_hist s n pending brought gone \<Longrightarrow>
     (case report_of ev of Some k \<Rightarrow> k \<in> pending | None \<Rightarrow> True) \<Longrightarrow>
     standby_do (now, ev) s = (s', f) \<Longrightarrow>
     standby_hist s' (Suc n) (pending_after ev f pending) (brought + brought_by ev)
       (gone + gone_by ev s f)"

definition ledger_ok :: "('c, 'e) standby \<Rightarrow> nat \<Rightarrow> u64 set \<Rightarrow> 'e multiset \<Rightarrow> 'e multiset \<Rightarrow> bool" where
  "ledger_ok s n pending brought gone =
    (standby_ok s \<and> unat (sb_search s) \<le> n
     \<and> (\<forall>k\<in>pending. k \<le> sb_search s \<and> (k = sb_search s \<longrightarrow> searching s))
     \<and> brought = gone + held_links s)"

lemma search_bump:
  assumes "unat (x :: u64) \<le> n" and "Suc n < 2 ^ 64"
  shows "unat (x + 1) = Suc (unat x)"
proof -
  have "unat x + unat (1 :: u64) < 2 ^ 64"
    using assms by simp
  then show ?thesis
    by (simp add: unat_word_ariths)
qed

lemma bump_above:
  assumes "unat (x :: u64) \<le> n" and "Suc n < 2 ^ 64" and "k \<le> x"
  shows "k \<le> x + 1" "k \<noteq> x + 1"
  using search_bump [OF assms(1,2)] assms(3) by (auto simp: word_le_nat_alt)

text \<open>Whatever happens, the search number moves by at most one, and only past every report still
  to come; links are conserved.\<close>

lemma ledger_event:
  assumes inv: "ledger_ok s n pending brought gone" and bound: "Suc n < 2 ^ 64"
    and report: "case report_of ev of Some k \<Rightarrow> k \<in> pending | None \<Rightarrow> True"
    and ev: "standby_do (now, ev) s = (s', f)"
  shows "ledger_ok s' (Suc n) (pending_after ev f pending) (brought + brought_by ev)
    (gone + gone_by ev s f)"
proof -
  have ok': "standby_ok s'"
    using standby_ok_do [of s "(now, ev)"] inv ev by (simp add: ledger_ok_def)
  have le: "unat (sb_search s) \<le> n" and pend: "\<And>k. k \<in> pending \<Longrightarrow> k \<le> sb_search s"
      "\<And>k. k \<in> pending \<Longrightarrow> k = sb_search s \<Longrightarrow> searching s"
    and cons: "brought = gone + held_links s" and ok: "standby_ok s"
    using inv by (auto simp: ledger_ok_def)
  have "sb_search s + 1 \<notin> pending"
    using bump_above(2) [OF le bound] pend(1) by blast
  note bump = this search_bump [OF le bound] bump_above(1) [OF le bound]
  have empty_when: "sb_link s = None" if "searching s \<or> \<not> enabled s"
    using ok that by (auto simp: standby_ok_def)
  note defs = standby_op_defs ledger_ok_def pending_after_def gone_by_def held_links_def Let_def
  show ?thesis
  proof (cases ev)
    case (EvStep ph rb)
    with ev le pend bump cons ok' show ?thesis
      by (auto simp: defs split: if_splits)
  next
    case (EvFound k e)
    with ev le pend cons ok' report empty_when show ?thesis
      by (auto simp: defs split: if_splits)
  next
    case (EvNotFound k r)
    with ev le pend cons ok' report show ?thesis
      by (auto simp: defs split: if_splits)
  next
    case (EvProbed a)
    with ev le pend cons ok' show ?thesis
      by (auto simp: defs split: if_splits probe_state.splits)
  next
    case (EvLost r)
    with ev le pend cons ok' show ?thesis
      by (auto simp: defs split: if_splits)
  next
    case EvTake
    with ev le pend bump cons ok' show ?thesis
      by (auto simp: defs split: if_splits option.splits)
  next
    case EvForget
    with ev le pend bump cons ok' show ?thesis
      by (auto simp: defs split: if_splits option.splits)
  next
    case (EvEnable on)
    with ev le pend bump cons ok' show ?thesis
      by (auto simp: defs split: if_splits option.splits)
  next
    case EvRouteMoved
    with ev le pend cons ok' show ?thesis
      by (auto simp: defs split: if_splits)
  qed
qed

lemma ledger_hist:
  "standby_hist s n pending brought gone \<Longrightarrow> n < 2 ^ 64 \<Longrightarrow> ledger_ok s n pending brought gone"
proof (induction rule: standby_hist.induct)
  case (hist_start cfg now)
  show ?case
    by (simp add: ledger_ok_def standby_ok_new held_links_def) (simp add: standby_new_def)
next
  case (hist_event s n pending brought gone ev now s' f)
  show ?case
    by (rule ledger_event [OF hist_event.IH hist_event.prems hist_event.hyps(2,3)])
      (use hist_event.prems in simp)
qed

section \<open>Failing over has a cause\<close>

text \<open>What leaves a probe standing: laps inside the outage with no committed rebuild, and reports.\<close>

fun keeps_probe :: "'e standby_event \<Rightarrow> bool" where
  "keeps_probe (EvStep ph rb) = (is_outage ph \<and> rb \<noteq> Committed)"
| "keeps_probe (EvLost _) = False"
| "keeps_probe EvTake = False"
| "keeps_probe EvForget = False"
| "keeps_probe (EvEnable on) = on"
| "keeps_probe _ = True"

fun is_answer :: "'e standby_event \<Rightarrow> bool" where
  "is_answer (EvProbed _) = True"
| "is_answer _ = False"

text \<open>\<open>sends_probe cfg t0 pre t ph rb\<close>: the lap at \<open>t\<close> that follows the history \<open>pre\<close> orders a probe.
  \<open>all_reported\<close>: every probe a history sent has been reported on, or the standby was switched off
  after it was sent.\<close>

definition sends_probe ::
    "'c \<Rightarrow> instant \<Rightarrow> (instant \<times> 'e standby_event) list \<Rightarrow> instant \<Rightarrow> phase \<Rightarrow> rebuild_stage \<Rightarrow> bool" where
  "sends_probe cfg t0 pre t ph rb =
    (\<exists>n. fst (standby_step ph t rb (fst (standby_run pre (standby_new cfg t0)))) = DoProbe n)"

definition all_reported :: "'c \<Rightarrow> instant \<Rightarrow> (instant \<times> 'e standby_event) list \<Rightarrow> bool" where
  "all_reported cfg t0 evs =
    (\<forall>pre t ph rb post. evs = pre @ (t, EvStep ph rb) # post \<longrightarrow> sends_probe cfg t0 pre t ph rb \<longrightarrow>
       (\<exists>e\<in>set post. is_answer (snd e) \<or> snd e = EvEnable False))"

text \<open>\<open>probe_sent_at cfg t0 evs t post\<close>: in the history \<open>evs\<close> a lap at \<open>t\<close> sent a probe in an outage,
  with no earlier probe unreported; \<open>post\<close> is what happened since, and all of it left the probe
  standing.\<close>

definition probe_sent_at ::
    "'c \<Rightarrow> instant \<Rightarrow> (instant \<times> 'e standby_event) list \<Rightarrow> instant \<Rightarrow> (instant \<times> 'e standby_event) list \<Rightarrow> bool" where
  "probe_sent_at cfg t0 evs t post =
    ((\<exists>pre ph rb. evs = pre @ (t, EvStep ph rb) # post \<and> is_outage ph \<and> rb \<noteq> Committed
        \<and> sends_probe cfg t0 pre t ph rb \<and> all_reported cfg t0 pre)
     \<and> (\<forall>e\<in>set post. keeps_probe (snd e)))"

definition probe_pending_at ::
    "'c \<Rightarrow> instant \<Rightarrow> (instant \<times> 'e standby_event) list \<Rightarrow> instant \<Rightarrow> bool" where
  "probe_pending_at cfg t0 evs t =
    (\<exists>post. probe_sent_at cfg t0 evs t post \<and> (\<forall>e\<in>set post. \<not> is_answer (snd e)))"

definition probe_answered_at ::
    "'c \<Rightarrow> instant \<Rightarrow> (instant \<times> 'e standby_event) list \<Rightarrow> instant \<Rightarrow> bool" where
  "probe_answered_at cfg t0 evs t =
    (\<exists>mid t' rest. probe_sent_at cfg t0 evs t (mid @ (t', EvProbed True) # rest)
       \<and> (\<forall>e\<in>set mid. \<not> is_answer (snd e)))"

definition probe_inv ::
    "'c \<Rightarrow> instant \<Rightarrow> (instant \<times> 'e standby_event) list \<Rightarrow> ('c, 'e) standby \<Rightarrow> bool" where
  "probe_inv cfg t0 evs s =
    (standby_ok s \<and> s = fst (standby_run evs (standby_new cfg t0))
     \<and> (\<not> probing s \<longrightarrow> all_reported cfg t0 evs)
     \<and> (\<forall>t. sb_probe s = ProbePending t \<longrightarrow> probe_pending_at cfg t0 evs t)
     \<and> (\<forall>t. sb_probe s = ProbeAnswered t \<longrightarrow> probe_answered_at cfg t0 evs t))"

lemma probe_sent_at_snoc:
  "probe_sent_at cfg t0 evs t post \<Longrightarrow> keeps_probe (snd e) \<Longrightarrow>
   probe_sent_at cfg t0 (evs @ [e]) t (post @ [e])"
  by (auto simp: probe_sent_at_def)

lemma probe_pending_at_snoc:
  "probe_pending_at cfg t0 evs t \<Longrightarrow> keeps_probe (snd e) \<Longrightarrow> \<not> is_answer (snd e) \<Longrightarrow>
   probe_pending_at cfg t0 (evs @ [e]) t"
  unfolding probe_pending_at_def by (fastforce dest: probe_sent_at_snoc)

lemma probe_answered_at_snoc:
  assumes "probe_answered_at cfg t0 evs t" and "keeps_probe (snd e)"
  shows "probe_answered_at cfg t0 (evs @ [e]) t"
proof -
  obtain mid t' rest where *: "probe_sent_at cfg t0 evs t (mid @ (t', EvProbed True) # rest)"
      "\<forall>e\<in>set mid. \<not> is_answer (snd e)"
    using assms(1) by (auto simp: probe_answered_at_def)
  have "probe_sent_at cfg t0 (evs @ [e]) t (mid @ (t', EvProbed True) # (rest @ [e]))"
    using probe_sent_at_snoc [OF *(1) assms(2)] by simp
  with *(2) show ?thesis
    unfolding probe_answered_at_def by blast
qed

lemma probe_answeredI:
  assumes "probe_pending_at cfg t0 evs t"
  shows "probe_answered_at cfg t0 (evs @ [(now, EvProbed True)]) t"
proof -
  obtain post where "probe_sent_at cfg t0 evs t post" "\<forall>e\<in>set post. \<not> is_answer (snd e)"
    using assms by (auto simp: probe_pending_at_def)
  then show ?thesis
    unfolding probe_answered_at_def using probe_sent_at_snoc [of cfg t0 evs t post "(now, EvProbed True)"]
    by fastforce
qed

lemma probe_sent_now:
  "is_outage ph \<Longrightarrow> rb \<noteq> Committed \<Longrightarrow> sends_probe cfg t0 evs now ph rb \<Longrightarrow> all_reported cfg t0 evs \<Longrightarrow>
   probe_pending_at cfg t0 (evs @ [(now, EvStep ph rb)]) now"
  unfolding probe_pending_at_def probe_sent_at_def by (rule exI [of _ "[]"]) auto

lemma all_reported_settled:
  assumes "is_answer ev \<or> ev = EvEnable False"
  shows "all_reported cfg t0 (evs @ [(now, ev)])"
  unfolding all_reported_def
proof (intro allI impI)
  fix pre t ph rb post
  assume "evs @ [(now, ev)] = pre @ (t, EvStep ph rb) # post"
  with assms show "\<exists>e\<in>set post. is_answer (snd e) \<or> snd e = EvEnable False"
    by (cases post rule: rev_cases) auto
qed

lemma all_reported_snoc:
  assumes "all_reported cfg t0 evs"
    and "\<And>ph rb. ev = EvStep ph rb \<Longrightarrow> \<not> sends_probe cfg t0 evs now ph rb"
  shows "all_reported cfg t0 (evs @ [(now, ev)])"
  unfolding all_reported_def
proof (intro allI impI)
  fix pre t ph rb post
  assume split: "evs @ [(now, ev)] = pre @ (t, EvStep ph rb) # post"
    and sends: "sends_probe cfg t0 pre t ph rb"
  show "\<exists>e\<in>set post. is_answer (snd e) \<or> snd e = EvEnable False"
  proof (cases post rule: rev_cases)
    case Nil
    with split have "pre = evs" "ev = EvStep ph rb" "t = now" by auto
    with assms(2) sends show ?thesis by simp
  next
    case (snoc post' e)
    with split have "evs = pre @ (t, EvStep ph rb) # post'" by simp
    with assms(1) sends have "\<exists>e\<in>set post'. is_answer (snd e) \<or> snd e = EvEnable False"
      unfolding all_reported_def by blast
    with snoc show ?thesis by auto
  qed
qed

text \<open>How one event changes the probe: it is left alone by an event that keeps it, sent by a lap that
  finds no probe running, answered or failed by a report, and otherwise idle. A probe stops running
  only by its report or by the standby being switched off.\<close>

lemma probe_change:
  assumes "standby_ok s" and "standby_do (now, ev) s = (s', f)"
  shows "(sb_probe s' = sb_probe s \<and> keeps_probe ev \<and> (\<forall>t. sb_probe s = ProbePending t \<longrightarrow> \<not> is_answer ev))
    \<or> sb_probe s' = ProbeIdle
    \<or> (\<exists>ph rb n. ev = EvStep ph rb \<and> is_outage ph \<and> rb \<noteq> Committed \<and> sb_probe s' = ProbePending now
         \<and> fst (standby_step ph now rb s) = DoProbe n \<and> \<not> probing s)
    \<or> (\<exists>a t. ev = EvProbed a \<and> sb_probe s = ProbePending t
         \<and> sb_probe s' = (if a then ProbeAnswered t else ProbeFailed now))"
proof (cases ev)
  case (EvStep ph rb)
  with assms show ?thesis
    by (auto simp: standby_op_defs Let_def standby_ok_def split: if_splits)
next
  case (EvEnable on)
  with assms show ?thesis
    by (auto simp: standby_op_defs Let_def standby_ok_def split: if_splits option.splits)
qed (use assms in \<open>auto simp: standby_op_defs Let_def split: if_splits probe_state.splits\<close>)

lemma probing_change:
  assumes "standby_do (now, ev) s = (s', f)" and "\<not> probing s'"
  shows "is_answer ev \<or> ev = EvEnable False
    \<or> (\<not> probing s \<and> (\<forall>ph rb n. ev = EvStep ph rb \<longrightarrow> fst (standby_step ph now rb s) \<noteq> DoProbe n))"
  using assms
  by (cases ev) (auto simp: standby_op_defs Let_def split: if_splits option.splits)

lemma standby_run_snoc:
  "fst (standby_run (evs @ [ev]) s) = fst (standby_do ev (fst (standby_run evs s)))"
proof (induction evs arbitrary: s)
  case (Cons e evs)
  have "fst (standby_run (e # es) s) = fst (standby_run es (fst (standby_do e s)))" for es
    by (simp add: Let_def split: prod.splits)
  with Cons show ?case by (metis append_Cons)
qed (simp add: Let_def split: prod.splits)

lemma probe_inv_do:
  assumes "probe_inv cfg t0 evs s"
  shows "probe_inv cfg t0 (evs @ [(now, ev)]) (fst (standby_do (now, ev) s))"
proof -
  obtain s' f where do: "standby_do (now, ev) s = (s', f)" by (cases "standby_do (now, ev) s")
  have ok: "standby_ok s" and s: "s = fst (standby_run evs (standby_new cfg t0))" and
    reported: "\<not> probing s \<Longrightarrow> all_reported cfg t0 evs" and
    pending: "\<And>t. sb_probe s = ProbePending t \<Longrightarrow> probe_pending_at cfg t0 evs t" and
    answered: "\<And>t. sb_probe s = ProbeAnswered t \<Longrightarrow> probe_answered_at cfg t0 evs t"
    using assms by (auto simp: probe_inv_def)
  have "standby_ok s'" "s' = fst (standby_run (evs @ [(now, ev)]) (standby_new cfg t0))"
    using standby_ok_do [OF ok, of "(now, ev)"] do s by (simp_all add: standby_run_snoc)
  moreover have "all_reported cfg t0 (evs @ [(now, ev)])" if "\<not> probing s'"
    using probing_change [OF do that]
  proof (elim disjE conjE)
    assume "\<not> probing s" "\<forall>ph rb n. ev = EvStep ph rb \<longrightarrow> fst (standby_step ph now rb s) \<noteq> DoProbe n"
    then show ?thesis
      using all_reported_snoc [OF reported] by (simp add: sends_probe_def flip: s)
  qed (simp_all add: all_reported_settled)
  moreover from probe_change [OF ok do]
  have "(\<forall>t. sb_probe s' = ProbePending t \<longrightarrow> probe_pending_at cfg t0 (evs @ [(now, ev)]) t)
      \<and> (\<forall>t. sb_probe s' = ProbeAnswered t \<longrightarrow> probe_answered_at cfg t0 (evs @ [(now, ev)]) t)"
  proof (elim disjE exE conjE)
    assume "sb_probe s' = sb_probe s" "keeps_probe ev" "\<forall>t. sb_probe s = ProbePending t \<longrightarrow> \<not> is_answer ev"
    with pending answered show ?thesis
      by (metis probe_pending_at_snoc probe_answered_at_snoc snd_conv)
  next
    fix ph rb n
    assume "ev = EvStep ph rb" "is_outage ph" "rb \<noteq> Committed" "sb_probe s' = ProbePending now"
      "fst (standby_step ph now rb s) = DoProbe n" "\<not> probing s"
    with probe_sent_now [of ph rb cfg t0 evs now] reported show ?thesis
      by (auto simp: sends_probe_def simp flip: s)
  next
    fix a t
    assume "ev = EvProbed a" "sb_probe s = ProbePending t"
      "sb_probe s' = (if a then ProbeAnswered t else ProbeFailed now)"
    with pending probe_answeredI show ?thesis by (cases a) auto
  qed simp
  ultimately show ?thesis
    using do by (simp add: probe_inv_def)
qed

lemma probe_inv_run: "probe_inv cfg t0 evs (fst (standby_run evs (standby_new cfg t0)))"
proof (induction evs rule: rev_induct)
  case Nil
  then show ?case
    by (simp add: probe_inv_def standby_ok_new all_reported_def) (simp add: standby_new_def)
next
  case (snoc ev evs)
  then show ?case
    unfolding standby_run_snoc using probe_inv_do [of cfg t0 evs _ "fst ev" "snd ev"] by simp
qed

lemma failover_step:
  assumes "fst (standby_step ph now rb s) = FailOver"
  obtains t where "enabled s" "is_outage ph" "sb_link s \<noteq> None" "rb \<noteq> Committed"
    "sb_probe s = ProbeAnswered t" "FAILOVER_GRACE \<le> duration_since now t"
  using assms
  by (auto simp: standby_step_def failover_due_def Let_def split: if_splits probe_state.splits)

section \<open>Properties\<close>

text \<open>C29: failing over is never a guess. In any history of a standby, a lap that fails over does so in
  an outage, with a standby that is there and no committed rebuild, and only because of a probe: at
  least a second ago a lap in an outage ordered a probe (\<open>DoProbe\<close>) while every probe ordered before
  it had been reported on (or the standby switched off since), the first report after that lap says
  it was answered, and no event between that lap and now ended the outage, lost, handed over or
  dropped the standby, switched it off or committed a rebuild.\<close>

theorem failover_has_a_cause:
  assumes "fst (standby_step ph now rb (fst (standby_run evs (standby_new cfg t0)))) = FailOver"
  shows "is_outage ph \<and> rb \<noteq> Committed
    \<and> sb_link (fst (standby_run evs (standby_new cfg t0))) \<noteq> None
    \<and> (\<exists>pre t ph' rb' n mid t' rest. evs = pre @ (t, EvStep ph' rb') # mid @ (t', EvProbed True) # rest
         \<and> is_outage ph'
         \<and> fst (standby_step ph' t rb' (fst (standby_run pre (standby_new cfg t0)))) = DoProbe n
         \<and> all_reported cfg t0 pre
         \<and> (\<forall>e\<in>set mid. \<not> is_answer (snd e))
         \<and> (\<forall>e\<in>set mid \<union> set rest. keeps_probe (snd e))
         \<and> from_secs 1 \<le> now - t)"
proof -
  obtain t where t: "is_outage ph" "sb_link (fst (standby_run evs (standby_new cfg t0))) \<noteq> None"
      "rb \<noteq> Committed" "sb_probe (fst (standby_run evs (standby_new cfg t0))) = ProbeAnswered t"
      "FAILOVER_GRACE \<le> duration_since now t"
    using failover_step [OF assms] by blast
  then have "probe_answered_at cfg t0 evs t"
    using probe_inv_run [of cfg t0 evs] by (simp add: probe_inv_def)
  then obtain mid t' rest where sent: "probe_sent_at cfg t0 evs t (mid @ (t', EvProbed True) # rest)"
      and mid: "\<forall>e\<in>set mid. \<not> is_answer (snd e)"
    unfolding probe_answered_at_def by blast
  then obtain pre ph' rb' n where "evs = pre @ (t, EvStep ph' rb') # mid @ (t', EvProbed True) # rest"
      "is_outage ph'" "all_reported cfg t0 pre"
      "fst (standby_step ph' t rb' (fst (standby_run pre (standby_new cfg t0)))) = DoProbe n"
    unfolding probe_sent_at_def sends_probe_def by blast
  moreover have "\<forall>e\<in>set mid \<union> set rest. keeps_probe (snd e)"
    using sent by (simp add: probe_sent_at_def ball_Un)
  ultimately show ?thesis
    using t mid unfolding FAILOVER_GRACE_def duration_since_def by blast
qed

text \<open>A history with a failover: a search, its result, an outage, a probe and its answer.\<close>

definition sample_events :: "(instant \<times> nat standby_event) list" where
  "sample_events = [(from_secs 5, EvStep Live StageIdle), (from_secs 6, EvFound 1 42),
     (from_secs 10, EvStep (Silent 0) StageIdle), (from_secs 10, EvProbed True)]"

theorem failover_has_a_cause_witness:
  "fst (standby_step (Silent 0) (from_secs 11) StageIdle (fst (standby_run sample_events (standby_new () 0))))
     = FailOver
   \<and> (\<exists>pre t ph' rb' n mid t' rest.
         sample_events = pre @ (t, EvStep ph' rb') # mid @ (t', EvProbed True) # rest \<and> is_outage ph'
         \<and> fst (standby_step ph' t rb' (fst (standby_run pre (standby_new () 0)))) = DoProbe n
         \<and> from_secs 1 \<le> from_secs 11 - t)"
proof -
  have "fst (standby_step (Silent 0) (from_secs 11) StageIdle
      (fst (standby_run sample_events (standby_new () 0)))) = FailOver"
    by (simp add: sample_events_def standby_new_def standby_op_defs may_probe_def failover_due_def
        duration_since_def timing_defs Let_def)
  with failover_has_a_cause [OF this] show ?thesis by blast
qed



end
