(* ===== verification/Rebuild.thy ===== *)
theory Rebuild
  imports Standby Session_Choice
begin

text \<open>
  Rebuilding the link over ssh (\<open>src/rebuild.rs\<close>): the commitment line between an attempt's task
  and the loop, the bookkeeping of the attempt in flight, and which reports still count; then the
  race of the two threads around a failover (\<open>fail_over\<close> of \<open>src/session.rs\<close>). The atomics the
  attempts share with the loop live in a store of cells, addressed by attempt.
\<close>

section \<open>The commitment\<close>

definition CONNECTING :: u8 where "CONNECTING = 0"
definition COMMITTED :: u8 where "COMMITTED = 1"
definition ABANDONED :: u8 where "ABANDONED = 2"

lemmas commitment_states = CONNECTING_def COMMITTED_def ABANDONED_def

text \<open>\<open>compare_exchange\<close> from \<open>CONNECTING\<close>.\<close>

definition claim :: "u8 \<Rightarrow> u8 \<Rightarrow> bool \<times> u8" where
  "claim target cell = (if cell = CONNECTING then (True, target) else (False, cell))"

definition commit_claim :: "u8 \<Rightarrow> bool \<times> u8" where
  "commit_claim = claim COMMITTED"

definition abandon_claim :: "u8 \<Rightarrow> bool \<times> u8" where
  "abandon_claim = claim ABANDONED"

definition is_committed :: "u8 \<Rightarrow> bool" where
  "is_committed cell = (cell = COMMITTED)"

text \<open>The contract of the line: two sides may try to cross it, the first one does, and its choice
  stands. \<open>winner\<close> is what a cell records: nobody, the committing side, or the abandoning side.\<close>

locale one_winner =
  fixes fresh :: "'s" and commit :: "'s \<Rightarrow> bool \<times> 's" and abandon :: "'s \<Rightarrow> bool \<times> 's"
    and winner :: "'s \<Rightarrow> bool option"
  assumes winner_fresh: "winner fresh = None"
    and commit_wins: "fst (commit s) \<longleftrightarrow> winner s = None"
    and abandon_wins: "fst (abandon s) \<longleftrightarrow> winner s = None"
    and commit_sets: "winner (snd (commit s)) = (if winner s = None then Some True else winner s)"
    and abandon_sets: "winner (snd (abandon s)) = (if winner s = None then Some False else winner s)"
begin

definition try_claim :: "bool \<Rightarrow> 's \<Rightarrow> bool \<times> 's" where
  "try_claim b s = (if b then commit s else abandon s)"

primrec try_claims :: "bool list \<Rightarrow> 's \<Rightarrow> bool list" where
  "try_claims [] s = []"
| "try_claims (b # bs) s = fst (try_claim b s) # try_claims bs (snd (try_claim b s))"

lemma try_claims_lost: "winner s \<noteq> None \<Longrightarrow> try_claims bs s = replicate (length bs) False"
  by (induction bs arbitrary: s)
    (auto simp: try_claim_def commit_wins abandon_wins commit_sets abandon_sets)

text \<open>However the two sides interleave, the first try succeeds and every later one fails.\<close>

lemma first_wins: "try_claims (b # bs) fresh = True # replicate (length bs) False"
proof -
  have "winner (snd (try_claim b fresh)) \<noteq> None"
    by (auto simp: try_claim_def commit_sets abandon_sets winner_fresh)
  then show ?thesis
    by (simp add: try_claims_lost) (simp add: try_claim_def commit_wins abandon_wins winner_fresh)
qed

lemma committed_cannot_abandon: "winner s = Some True \<Longrightarrow> \<not> fst (abandon s)"
  by (simp add: abandon_wins)

lemma abandoned_cannot_commit: "winner s = Some False \<Longrightarrow> \<not> fst (commit s)"
  by (simp add: commit_wins)

lemma winner_stable:
  assumes "winner s = Some b"
  shows "winner (snd (commit s)) = Some b" "winner (snd (abandon s)) = Some b"
  using assms by (simp_all add: commit_sets abandon_sets)

end

definition cell_winner :: "u8 \<Rightarrow> bool option" where
  "cell_winner c = (if c = CONNECTING then None else Some (c = COMMITTED))"

interpretation line: one_winner CONNECTING commit_claim abandon_claim cell_winner
  by unfold_locales
    (auto simp: cell_winner_def commit_claim_def abandon_claim_def claim_def commitment_states)

section \<open>The rebuild\<close>

type_synonym arc = nat

record store =
  cells :: "arc \<Rightarrow> u8"
  next_arc :: arc

definition alloc :: "store \<Rightarrow> arc \<times> store" where
  "alloc h = (next_arc h, h\<lparr>cells := (cells h)(next_arc h := CONNECTING), next_arc := next_arc h + 1\<rparr>)"

datatype aim = AimSession ustr | AimLobby

fun aim_choice :: "aim \<Rightarrow> ustr + choice" where
  "aim_choice (AimSession i) =
     (case sid_from_str i of Inr sid \<Rightarrow> Inr (ChooseAttach sid) | Inl _ \<Rightarrow> Inl i)"
| "aim_choice AimLobby = Inr ChooseLobby"

datatype 'l attempt_outcome = Landed 'l | Retry ustr | Definite ustr

record 'l report =
  rep_generation :: u64
  rep_outcome :: "'l attempt_outcome"

definition DEFAULT_CONNECT_TIMEOUT :: duration where
  "DEFAULT_CONNECT_TIMEOUT = from_secs 10"

record 'c rebuild =
  rb_target :: ustr
  rb_aim :: aim
  rb_cfg :: 'c
  in_flight :: bool
  rb_generation :: u64
  rb_commitment :: arc
  connect_timeout :: duration
  started :: "instant option"
  displacing :: bool

definition aimed :: "ustr \<Rightarrow> aim \<Rightarrow> 'c \<Rightarrow> store \<Rightarrow> 'c rebuild \<times> store" where
  "aimed target a cfg h =
    (let (arc, h) = alloc h in
     (\<lparr>rb_target = target, rb_aim = a, rb_cfg = cfg, in_flight = False, rb_generation = 0,
       rb_commitment = arc, connect_timeout = DEFAULT_CONNECT_TIMEOUT, started = None,
       displacing = False\<rparr>, h))"

definition cancel :: "'c rebuild \<Rightarrow> 'c rebuild" where
  "cancel r = r\<lparr>started := None, in_flight := False\<rparr>"

definition retarget :: "aim \<Rightarrow> 'c rebuild \<Rightarrow> 'c rebuild" where
  "retarget a r = (if a \<noteq> rb_aim r then cancel r else r)\<lparr>rb_aim := a\<rparr>"

definition rb_retune :: "'c \<Rightarrow> duration \<Rightarrow> 'c rebuild \<Rightarrow> 'c rebuild" where
  "rb_retune cfg t r = r\<lparr>rb_cfg := cfg, connect_timeout := t\<rparr>"

definition is_running :: "'c rebuild \<Rightarrow> bool" where
  "is_running r = in_flight r"

definition stage :: "'c rebuild \<Rightarrow> store \<Rightarrow> rebuild_stage" where
  "stage r h =
    (if \<not> in_flight r then StageIdle
     else if is_committed (cells h (rb_commitment r)) then Committed
     else Connecting)"

definition abandon :: "'c rebuild \<Rightarrow> store \<Rightarrow> bool \<times> 'c rebuild \<times> store" where
  "abandon r h =
    (if \<not> in_flight r then (False, r, h)
     else let (ok, c) = abandon_claim (cells h (rb_commitment r));
              h = h\<lparr>cells := (cells h)(rb_commitment r := c)\<rparr>
          in if \<not> ok then (False, r, h) else (True, cancel r, h))"

definition running_since :: "'c rebuild \<Rightarrow> instant option" where
  "running_since r = (if in_flight r then started r else None)"

definition may_have_displaced_us :: "'c rebuild \<Rightarrow> bool" where
  "may_have_displaced_us r = displacing r"

definition swapped :: "'c rebuild \<Rightarrow> 'c rebuild" where
  "swapped r = r\<lparr>displacing := in_flight r\<rparr>"

definition stood_down :: "'c rebuild \<Rightarrow> 'c rebuild" where
  "stood_down r = (cancel r)\<lparr>displacing := False\<rparr>"

definition begin_rebuild :: "instant \<Rightarrow> 'c rebuild \<Rightarrow> store \<Rightarrow> 'c rebuild \<times> store" where
  "begin_rebuild now r h =
    (let r = r\<lparr>started := Some now, rb_generation := rb_generation r + 1\<rparr>;
         (arc, h) = alloc h
     in (r\<lparr>rb_commitment := arc, displacing := True, in_flight := True\<rparr>, h))"

definition finished :: "'c rebuild \<Rightarrow> 'c rebuild" where
  "finished r = r\<lparr>in_flight := False, started := None\<rparr>"

definition accept :: "'l report \<Rightarrow> 'c rebuild \<Rightarrow> 'l attempt_outcome option \<times> 'c rebuild" where
  "accept rep r =
    (if in_flight r \<and> rep_generation rep = rb_generation r
     then (Some (rep_outcome rep), finished r)
     else case rep_outcome rep of
       Landed l \<Rightarrow> (Some (Landed l), r)
     | Retry _ \<Rightarrow> (None, r)
     | Definite _ \<Rightarrow> (None, r))"

text \<open>The first half of \<open>fail_over\<close>: an attempt still connecting is given up; one that committed
  wins and nothing is swapped. Then the standby is taken.\<close>

definition fail_over ::
    "instant \<Rightarrow> ('c, 'e) standby \<Rightarrow> 'c rebuild option \<Rightarrow> store
      \<Rightarrow> 'e option \<times> ('c, 'e) standby \<times> 'c rebuild option \<times> store" where
  "fail_over now s ro h =
    (if sb_link s = None then (None, s, ro, h)
     else let (go, ro, h) =
            (case ro of
               Some r \<Rightarrow>
                 if is_running r
                 then (let (ok, r, h) = abandon r h in (ok, Some r, h))
                 else (True, ro, h)
             | None \<Rightarrow> (True, ro, h))
          in if \<not> go then (None, s, ro, h)
             else let (e, s) = take_for_failover now s in (e, s, ro, h))"

section \<open>The race\<close>

text \<open>Where an attempt's task stands, as far as the host can see it: not yet at the line, past it
  with the \<open>Attach\<close> still to be sent, sent, or stopped. A task that was told to abort may still
  run to its next yield, so every task may go on, and may stop at any moment.\<close>

datatype task_pc = BeforeLine | PastLine | AttachSent | Stopped

record 'l task =
  t_generation :: u64
  t_pc :: task_pc

text \<open>The whole system: the loop's rebuild, the store, the tasks, the reports under way with the
  attempt each came from, and as ghosts the attempts whose \<open>Attach\<close> went out and the attempts a
  failover gave up.\<close>

record ('c, 'e, 'l) race =
  rc_standby :: "('c, 'e) standby"
  rc_rebuild :: "'c rebuild"
  rc_store :: store
  rc_tasks :: "arc \<Rightarrow> 'l task option"
  rc_reports :: "(arc \<times> 'l report) list"
  attached :: "arc set"
  given_up :: "arc set"

definition set_pc :: "arc \<Rightarrow> task_pc \<Rightarrow> (arc \<Rightarrow> 'l task option) \<Rightarrow> arc \<Rightarrow> 'l task option" where
  "set_pc a pc ts = ts(a := map_option (\<lambda>t. t\<lparr>t_pc := pc\<rparr>) (ts a))"

definition race_init :: "('c, 'e) standby \<Rightarrow> ustr \<Rightarrow> aim \<Rightarrow> 'c \<Rightarrow> ('c, 'e, 'l) race" where
  "race_init s target a cfg =
    (let (r, h) = aimed target a cfg \<lparr>cells = (\<lambda>_. CONNECTING), next_arc = 0\<rparr> in
     \<lparr>rc_standby = s, rc_rebuild = r, rc_store = h, rc_tasks = (\<lambda>_. None), rc_reports = [],
      attached = {}, given_up = {}\<rparr>)"

inductive race_step :: "('c, 'e, 'l) race \<Rightarrow> ('c, 'e, 'l) race \<Rightarrow> bool" where
  race_begin:
    "\<not> is_running (rc_rebuild S) \<Longrightarrow>
     begin_rebuild now (rc_rebuild S) (rc_store S) = (r, h) \<Longrightarrow>
     race_step S (S\<lparr>rc_rebuild := r, rc_store := h,
       rc_tasks := (rc_tasks S)(rb_commitment r \<mapsto>
         \<lparr>t_generation = rb_generation r, t_pc = BeforeLine\<rparr>)\<rparr>)"
| race_commit:
    "rc_tasks S a = Some t \<Longrightarrow> t_pc t = BeforeLine \<Longrightarrow>
     commit_claim (cells (rc_store S) a) = (ok, c) \<Longrightarrow>
     race_step S (S\<lparr>rc_store := (rc_store S)\<lparr>cells := (cells (rc_store S))(a := c)\<rparr>,
       rc_tasks := set_pc a (if ok then PastLine else Stopped) (rc_tasks S),
       rc_reports := rc_reports S @
         (if ok then [] else [(a, \<lparr>rep_generation = t_generation t,
            rep_outcome = Retry (str_of ''abandoned for the standby'')\<rparr>)])\<rparr>)"
| race_attach:
    "rc_tasks S a = Some t \<Longrightarrow> t_pc t = PastLine \<Longrightarrow>
     race_step S (S\<lparr>rc_tasks := set_pc a AttachSent (rc_tasks S), attached := insert a (attached S)\<rparr>)"
| race_report:
    "rc_tasks S a = Some t \<Longrightarrow> t_pc t \<noteq> Stopped \<Longrightarrow>
     (case out of Landed _ \<Rightarrow> t_pc t = AttachSent | _ \<Rightarrow> True) \<Longrightarrow>
     race_step S (S\<lparr>rc_tasks := set_pc a Stopped (rc_tasks S),
       rc_reports := rc_reports S @ [(a, \<lparr>rep_generation = t_generation t, rep_outcome = out\<rparr>)]\<rparr>)"
| race_die:
    "race_step S (S\<lparr>rc_tasks := set_pc a Stopped (rc_tasks S)\<rparr>)"
| race_fail_over:
    "fail_over now (rc_standby S) (Some (rc_rebuild S)) (rc_store S) = (e, s, Some r, h) \<Longrightarrow>
     race_step S (S\<lparr>rc_standby := s, rc_rebuild := r, rc_store := h,
       given_up := given_up S \<union>
         (if e \<noteq> None \<and> is_running (rc_rebuild S) then {rb_commitment (rc_rebuild S)} else {})\<rparr>)"
| race_stand_down:
    "race_step S (S\<lparr>rc_rebuild := stood_down (rc_rebuild S)\<rparr>)"
| race_retarget:
    "race_step S (S\<lparr>rc_rebuild := retarget a (rc_rebuild S)\<rparr>)"
| race_accept:
    "rc_reports S = (a, rep) # reps \<Longrightarrow> accept rep (rc_rebuild S) = (out, r) \<Longrightarrow>
     race_step S (S\<lparr>rc_rebuild := r, rc_reports := reps\<rparr>)"
| race_standby:
    "race_step S (S\<lparr>rc_standby := fst (standby_do ev (rc_standby S))\<rparr>)"

inductive race_reach :: "('c, 'e, 'l) race \<Rightarrow> ('c, 'e, 'l) race \<Rightarrow> bool" for S0 where
  race_refl: "race_reach S0 S0"
| race_trans: "race_reach S0 S \<Longrightarrow> race_step S T \<Longrightarrow> race_reach S0 T"

inductive_cases race_stepE: "race_step S T"

subsection \<open>Who crossed the line\<close>

text \<open>Addresses are allocated once; a task's own cell says whether it may send, an abandoned cell
  stays abandoned, and the task in flight sits at the rebuild's cell with its generation.\<close>

definition race_inv :: "('c, 'e, 'l) race \<Rightarrow> bool" where
  "race_inv S =
    ((\<forall>a t. rc_tasks S a = Some t \<longrightarrow> a < next_arc (rc_store S))
     \<and> rb_commitment (rc_rebuild S) < next_arc (rc_store S)
     \<and> (\<forall>a t. rc_tasks S a = Some t \<longrightarrow> t_pc t \<in> {PastLine, AttachSent}
          \<longrightarrow> cell_winner (cells (rc_store S) a) = Some True)
     \<and> (\<forall>a\<in>attached S. a < next_arc (rc_store S)
          \<and> cell_winner (cells (rc_store S) a) = Some True)
     \<and> (\<forall>a\<in>given_up S. a < next_arc (rc_store S)
          \<and> cell_winner (cells (rc_store S) a) = Some False)
     \<and> (\<forall>a t. rc_tasks S a = Some t \<longrightarrow> t_pc t = AttachSent \<longrightarrow> a \<in> attached S)
     \<and> (\<forall>a rep l. (a, rep) \<in> set (rc_reports S) \<longrightarrow> rep_outcome rep = Landed l \<longrightarrow> a \<in> attached S))"

lemma fail_over_raced:
  assumes "sb_link s \<noteq> None" and "in_flight r"
    and "abandon_claim (cells h (rb_commitment r)) = (ok, c)"
  shows "fail_over now s (Some r) h =
    (let h' = h\<lparr>cells := (cells h)(rb_commitment r := c)\<rparr> in
     if ok then (fst (take_for_failover now s), snd (take_for_failover now s), Some (cancel r), h')
     else (None, s, Some r, h'))"
  using assms by (cases ok) (auto simp: fail_over_def abandon_def is_running_def split_beta)

lemma fail_over_idle:
  "\<not> in_flight r \<Longrightarrow> sb_link s \<noteq> None \<Longrightarrow> fail_over now s (Some r) h =
    (fst (take_for_failover now s), snd (take_for_failover now s), Some r, h)"
  by (auto simp: fail_over_def is_running_def split_beta)

lemma fail_over_cases:
  assumes "fail_over now s (Some r) h = (e, s', Some r', h')"
  obtains (idle) "\<not> is_running r \<or> sb_link s = None" "r' = r" "h' = h"
      "\<not> is_running r \<or> e = None"
  | (raced) ok c where "is_running r" "abandon_claim (cells h (rb_commitment r)) = (ok, c)"
      "h' = h\<lparr>cells := (cells h)(rb_commitment r := c)\<rparr>" "r' = (if ok then cancel r else r)"
      "e \<noteq> None \<longrightarrow> ok"
proof (cases "sb_link s = None")
  case True
  with assms show thesis by (intro idle) (simp_all add: fail_over_def)
next
  case link: False
  show thesis
  proof (cases "in_flight r")
    case False
    with link assms show thesis by (intro idle) (simp_all add: fail_over_idle is_running_def)
  next
    case True
    obtain ok c where oc: "abandon_claim (cells h (rb_commitment r)) = (ok, c)"
      by (cases "abandon_claim (cells h (rb_commitment r))")
    from assms show thesis
      unfolding fail_over_raced [OF link True oc] Let_def
      using True oc by (cases ok) (auto simp: is_running_def intro: raced)
  qed
qed

lemma cancel_simps [simp]:
  "rb_commitment (cancel r) = rb_commitment r" "rb_generation (cancel r) = rb_generation r"
  "in_flight (cancel r) = False"
  by (simp_all add: cancel_def)

text \<open>A claim on one cell keeps every decided cell as it was.\<close>

lemma claim_keeps:
  assumes "cell_winner (hc a) = Some b"
    and "commit_claim (hc k) = (ok, c) \<or> abandon_claim (hc k) = (ok, c)"
  shows "cell_winner ((hc(k := c)) a) = Some b"
  using assms line.winner_stable [of "hc a" b] by (cases "a = k") force+

lemma race_inv_init: "race_inv (race_init s target a cfg)"
  by (simp add: race_init_def aimed_def alloc_def race_inv_def)

lemma set_pc_Some:
  "set_pc a pc ts x = Some t \<longleftrightarrow>
    (if x = a then (\<exists>u. ts a = Some u \<and> t = u\<lparr>t_pc := pc\<rparr>) else ts x = Some t)"
  by (auto simp: set_pc_def)

lemma race_inv_cells:
  assumes "race_inv S" and "commit_claim (cells (rc_store S) k) = (ok, c)
      \<or> abandon_claim (cells (rc_store S) k) = (ok, c)"
  shows "race_inv (S\<lparr>rc_store := (rc_store S)\<lparr>cells := (cells (rc_store S))(k := c)\<rparr>\<rparr>)"
  using assms(1) claim_keeps [where hc = "cells (rc_store S)", OF _ assms(2)]
  unfolding race_inv_def by simp

lemma race_inv_step:
  assumes "race_step S T" and inv: "race_inv S"
  shows "race_inv T"
  using assms(1)
proof (cases rule: race_step.cases)
  case (race_begin now r h)
  with inv show ?thesis
    by (auto simp: race_inv_def begin_rebuild_def alloc_def Let_def is_running_def less_Suc_eq)
next
  case (race_commit a t ok c)
  have "race_inv (S\<lparr>rc_store := (rc_store S)\<lparr>cells := (cells (rc_store S))(a := c)\<rparr>\<rparr>)"
    using race_inv_cells [OF inv] race_commit(4) by blast
  moreover have "cell_winner c = Some True" if ok
    using that race_commit(4) line.commit_sets [of "cells (rc_store S) a"]
      line.commit_wins [of "cells (rc_store S) a"] by simp
  ultimately show ?thesis
    using race_commit by (auto simp: race_inv_def set_pc_Some split: if_splits)
next
  case (race_attach a t)
  with inv show ?thesis
    by (auto simp: race_inv_def set_pc_Some split: if_splits)
next
  case (race_report a t out)
  with inv show ?thesis
    by (auto simp: race_inv_def set_pc_Some split: if_splits)
next
  case (race_die a)
  with inv show ?thesis
    by (auto simp: race_inv_def set_pc_Some split: if_splits)
next
  case (race_fail_over now e s r h)
  from race_fail_over(2) show ?thesis
  proof (cases rule: fail_over_cases)
    case idle
    with race_fail_over(1) inv show ?thesis by (auto simp: race_inv_def)
  next
    case (raced ok c)
    have "race_inv (S\<lparr>rc_store := h\<rparr>)"
      using race_inv_cells [OF inv] raced(2,3) by blast
    moreover have "cell_winner (cells h (rb_commitment (rc_rebuild S))) = Some False" if ok
      using that raced(2,3) line.abandon_sets [of "cells (rc_store S) (rb_commitment (rc_rebuild S))"]
        line.abandon_wins [of "cells (rc_store S) (rb_commitment (rc_rebuild S))"] by simp
    ultimately show ?thesis
      using race_fail_over(1) raced(4,5) by (auto simp: race_inv_def split: if_splits)
  qed
next
  case race_stand_down
  with inv show ?thesis by (auto simp: race_inv_def stood_down_def)
next
  case (race_retarget a)
  with inv show ?thesis by (auto simp: race_inv_def retarget_def)
next
  case (race_accept a rep reps out r)
  with inv show ?thesis
    by (auto simp: race_inv_def accept_def finished_def split: if_splits attempt_outcome.splits)
next
  case (race_standby ev)
  with inv show ?thesis by (simp add: race_inv_def)
qed

lemma race_reach_inv: "race_reach S0 S \<Longrightarrow> race_inv S0 \<Longrightarrow> race_inv S"
  by (induction rule: race_reach.induct) (auto intro: race_inv_step)

subsection \<open>Whose report it is\<close>

text \<open>Attempts are numbered as their cells are allocated.\<close>

definition numbered :: "('c, 'e, 'l) race \<Rightarrow> bool" where
  "numbered S =
    (next_arc (rc_store S) = Suc (rb_commitment (rc_rebuild S))
     \<and> rb_generation (rc_rebuild S) = of_nat (rb_commitment (rc_rebuild S))
     \<and> (\<forall>a t. rc_tasks S a = Some t \<longrightarrow> a < next_arc (rc_store S) \<and> t_generation t = of_nat a)
     \<and> (\<forall>(a, rep)\<in>set (rc_reports S). a < next_arc (rc_store S) \<and> rep_generation rep = of_nat a))"

lemma numbered_init: "numbered (race_init s target a cfg)"
  by (simp add: race_init_def aimed_def alloc_def numbered_def)

lemma numbered_step:
  assumes "race_step S T" and inv: "numbered S"
  shows "numbered T"
  using assms(1)
proof (cases rule: race_step.cases)
  case (race_begin now r h)
  with inv show ?thesis
    by (auto simp: numbered_def begin_rebuild_def alloc_def Let_def less_Suc_eq add.commute
        split: prod.splits)
next
  case (race_commit a t ok c)
  with inv show ?thesis
    by (auto simp: numbered_def set_pc_Some split: if_splits prod.splits)
next
  case (race_fail_over now e s r h)
  from race_fail_over(2) show ?thesis
    by (cases rule: fail_over_cases) (use race_fail_over(1) inv in \<open>auto simp: numbered_def\<close>)
next
  case (race_accept a rep reps out r)
  with inv show ?thesis
    by (auto simp: numbered_def accept_def finished_def split: if_splits attempt_outcome.splits)
qed (use inv in \<open>auto simp: numbered_def set_pc_Some stood_down_def retarget_def
      split: if_splits prod.splits\<close>)

lemma numbered_reach: "race_reach S0 S \<Longrightarrow> numbered S0 \<Longrightarrow> numbered S"
  by (induction rule: race_reach.induct) (auto intro: numbered_step)

lemma of_nat_u64_inj:
  assumes "of_nat a = (of_nat b :: u64)" and "a < 2 ^ 64" and "b < 2 ^ 64"
  shows "a = b"
  using assms by (metis unat_of_nat_64)

lemma accepted_failure:
  assumes "numbered S" and "next_arc (rc_store S) \<le> 2 ^ 64"
    and "rc_reports S = (a, rep) # reps" and "accept rep (rc_rebuild S) = (Some out, r)"
    and "\<forall>l. out \<noteq> Landed l"
  shows "in_flight (rc_rebuild S)" "a = rb_commitment (rc_rebuild S)"
proof -
  have "in_flight (rc_rebuild S) \<and> rep_generation rep = rb_generation (rc_rebuild S)"
    using assms(4,5) by (cases "rep_outcome rep") (auto simp: accept_def split: if_splits dest: sym)
  then have fl: "in_flight (rc_rebuild S)" and gen: "rep_generation rep = rb_generation (rc_rebuild S)"
    by simp_all
  show "in_flight (rc_rebuild S)" by (rule fl)
  from assms(1,3) gen have "of_nat a = (of_nat (rb_commitment (rc_rebuild S)) :: u64)"
      "a < next_arc (rc_store S)" "rb_commitment (rc_rebuild S) < next_arc (rc_store S)"
    by (auto simp: numbered_def)
  with assms(2) show "a = rb_commitment (rc_rebuild S)"
    by (intro of_nat_u64_inj) auto
qed

subsection \<open>The line in flight is open or committed\<close>

definition open_line :: "('c, 'e, 'l) race \<Rightarrow> bool" where
  "open_line S =
    (in_flight (rc_rebuild S)
      \<longrightarrow> cell_winner (cells (rc_store S) (rb_commitment (rc_rebuild S))) \<noteq> Some False)"

lemma open_line_step:
  assumes "race_step S T" and inv: "open_line S"
  shows "open_line T"
  using assms(1)
proof (cases rule: race_step.cases)
  case (race_begin now r h)
  then show ?thesis
    by (auto simp: open_line_def begin_rebuild_def alloc_def Let_def line.winner_fresh)
next
  case (race_commit a t ok c)
  have "cell_winner c = (if cell_winner (cells (rc_store S) a) = None then Some True
      else cell_winner (cells (rc_store S) a))"
    using line.commit_sets [of "cells (rc_store S) a"] race_commit(4) by simp
  with race_commit(1) inv show ?thesis
    by (auto simp: open_line_def split: if_splits)
next
  case (race_fail_over now e s r h)
  from race_fail_over(2) show ?thesis
  proof (cases rule: fail_over_cases)
    case idle
    with race_fail_over(1) inv show ?thesis by (simp add: open_line_def)
  next
    case (raced ok c)
    have "cell_winner c = cell_winner (cells (rc_store S) (rb_commitment (rc_rebuild S)))" if "\<not> ok"
      using that raced(2) line.abandon_sets [of "cells (rc_store S) (rb_commitment (rc_rebuild S))"]
        line.abandon_wins [of "cells (rc_store S) (rb_commitment (rc_rebuild S))"] by auto
    with race_fail_over(1) raced inv show ?thesis
      by (simp add: open_line_def is_running_def)
  qed
next
  case (race_accept a rep reps out r)
  with inv show ?thesis
    by (auto simp: open_line_def accept_def finished_def split: if_splits attempt_outcome.splits)
qed (use inv in \<open>simp_all add: open_line_def stood_down_def retarget_def\<close>)

lemma open_line_reach: "race_reach S0 S \<Longrightarrow> open_line S0 \<Longrightarrow> open_line S"
  by (induction rule: race_reach.induct) (auto intro: open_line_step)

lemma open_line_init: "open_line (race_init s target a cfg)"
  by (simp add: open_line_def race_init_def aimed_def alloc_def)

section \<open>Properties\<close>

text \<open>A small run: one attempt begun beside a standby that is there.\<close>

definition sample_standby :: "(unit, nat) standby" where
  "sample_standby = (standby_new () 0)\<lparr>sb_link := Some 42\<rparr>"

definition race_started :: "(unit, nat, nat) race" where
  "race_started = race_init sample_standby [] AimLobby ()"

definition race_flying :: "(unit, nat, nat) race" where
  "race_flying = race_started\<lparr>
     rc_rebuild := fst (begin_rebuild 5 (rc_rebuild race_started) (rc_store race_started)),
     rc_store := snd (begin_rebuild 5 (rc_rebuild race_started) (rc_store race_started)),
     rc_tasks := (rc_tasks race_started)(1 \<mapsto> \<lparr>t_generation = 1, t_pc = BeforeLine\<rparr>)\<rparr>"

lemmas race_sample_defs = race_flying_def race_started_def race_init_def aimed_def alloc_def
  begin_rebuild_def Let_def is_running_def

lemma race_flying_reach: "race_reach (race_init sample_standby [] AimLobby ()) race_flying"
proof -
  have "race_step race_started race_flying"
    using race_step.race_begin [of race_started 5
        "fst (begin_rebuild 5 (rc_rebuild race_started) (rc_store race_started))"
        "snd (begin_rebuild 5 (rc_rebuild race_started) (rc_store race_started))"]
    by (simp add: race_sample_defs)
  with race_reach.intros show ?thesis
    unfolding race_started_def by metis
qed

lemma race_flying_facts:
  "rc_standby race_flying = sample_standby" "in_flight (rc_rebuild race_flying)"
  "rb_commitment (rc_rebuild race_flying) = 1" "rb_generation (rc_rebuild race_flying) = 1"
  "cells (rc_store race_flying) 1 = CONNECTING" "next_arc (rc_store race_flying) = 2"
  "rc_tasks race_flying 1 = Some \<lparr>t_generation = 1, t_pc = BeforeLine\<rparr>"
  "rc_reports race_flying = []" "given_up race_flying = {}"
  by (simp_all add: race_sample_defs)

lemmas race_flying_simps = race_flying_facts race_flying_facts [unfolded One_nat_def]

text \<open>C12: an attempt given up for the standby never reaches the host. However the attempt's thread and
  the loop interleave, an attempt that a failover abandoned has not sent its \<open>Attach\<close> and never
  will, so the host cannot adopt it and close the standby just promoted; and no such attempt ever
  reports a landing.\<close>

theorem abandoned_attempt_never_attaches:
  assumes "race_reach (race_init s target a cfg) S"
  shows "given_up S \<inter> attached S = {}
    \<and> list_all (\<lambda>(x, rep). \<forall>l. rep_outcome rep = Landed l \<longrightarrow> x \<notin> given_up S) (rc_reports S)"
proof -
  have inv: "race_inv S"
    by (rule race_reach_inv [OF assms race_inv_init])
  then have apart: "given_up S \<inter> attached S = {}"
    by (fastforce simp: race_inv_def)
  with inv show ?thesis
    by (fastforce simp: race_inv_def list_all_iff)
qed

theorem abandoned_attempt_never_attaches_witness:
  "\<exists>S. race_reach (race_init sample_standby [] AimLobby ()) (S :: (unit, nat, nat) race)
    \<and> given_up S = {1} \<and> given_up S \<inter> attached S = {}"
proof -
  have "abandon_claim (cells (rc_store race_flying) (rb_commitment (rc_rebuild race_flying)))
      = (True, ABANDONED)"
    by (simp add: abandon_claim_def claim_def race_flying_simps)
  from fail_over_raced [OF _ race_flying_facts(2) this, of "rc_standby race_flying" 9]
  obtain s r h where fo: "fail_over 9 (rc_standby race_flying) (Some (rc_rebuild race_flying))
      (rc_store race_flying) = (Some 42, s, Some r, h)"
    by (simp add: race_flying_simps Let_def sample_standby_def)
      (simp add: take_for_failover_def new_primary_def Let_def)
  define S where "S = race_flying\<lparr>rc_standby := s, rc_rebuild := r, rc_store := h, given_up := {1}\<rparr>"
  have "race_step race_flying S"
    using race_step.race_fail_over [OF fo] by (simp add: S_def is_running_def race_flying_simps)
  then have reach: "race_reach (race_init sample_standby [] AimLobby ()) S"
    by (rule race_reach.race_trans [OF race_flying_reach])
  moreover have "given_up S = {1}" by (simp add: S_def)
  ultimately show ?thesis
    using abandoned_attempt_never_attaches [OF reach] by blast
qed

text \<open>A standby that answered is held back by nothing but the host's own possible choice: when
  there is a standby and the failover does not go, the attempt in flight has crossed its line. An
  attempt that is still connecting never delays it.\<close>

theorem only_a_commitment_blocks_failover:
  assumes "race_reach (race_init s target a cfg) S" and "sb_link (rc_standby S) \<noteq> None"
    and "fst (fail_over now (rc_standby S) (Some (rc_rebuild S)) (rc_store S)) = None"
  shows "stage (rc_rebuild S) (rc_store S) = Committed"
proof -
  let ?r = "rc_rebuild S" and ?h = "rc_store S" and ?s = "rc_standby S"
  have taken: "fst (take_for_failover now ?s) \<noteq> None"
    using assms(2) by (simp add: take_for_failover_def new_primary_def Let_def)
  have flying: "in_flight ?r"
    using assms(2,3) taken by (cases "in_flight ?r") (simp_all add: fail_over_idle)
  obtain ok c where oc: "abandon_claim (cells ?h (rb_commitment ?r)) = (ok, c)"
    by (cases "abandon_claim (cells ?h (rb_commitment ?r))")
  with assms(3) taken have "\<not> ok"
    by (auto simp: fail_over_raced [OF assms(2) flying oc] Let_def split: if_splits)
  then have "cell_winner (cells ?h (rb_commitment ?r)) \<noteq> None"
    using oc line.abandon_wins [of "cells ?h (rb_commitment ?r)"] by simp
  moreover have "cell_winner (cells ?h (rb_commitment ?r)) \<noteq> Some False"
    using open_line_reach [OF assms(1) open_line_init] flying by (simp add: open_line_def)
  ultimately show ?thesis
    using flying by (auto simp: stage_def is_committed_def cell_winner_def split: if_splits)
qed

theorem only_a_commitment_blocks_failover_witness:
  "\<exists>S. race_reach (race_init sample_standby [] AimLobby ()) (S :: (unit, nat, nat) race)
    \<and> fst (fail_over 9 (rc_standby S) (Some (rc_rebuild S)) (rc_store S)) = None
    \<and> stage (rc_rebuild S) (rc_store S) = Committed"
proof -
  define S where "S = race_flying\<lparr>rc_store := (rc_store race_flying)\<lparr>cells :=
      (cells (rc_store race_flying))(1 := COMMITTED)\<rparr>,
    rc_tasks := set_pc 1 PastLine (rc_tasks race_flying), rc_reports := []\<rparr>"
  have "commit_claim (cells (rc_store race_flying) 1) = (True, COMMITTED)"
    by (simp add: commit_claim_def claim_def race_flying_simps)
  then have "race_step race_flying S"
    using race_step.race_commit [of race_flying 1, OF race_flying_facts(7)]
    by (simp add: S_def race_flying_simps)
  then have reach: "race_reach (race_init sample_standby [] AimLobby ()) S"
    by (rule race_reach.race_trans [OF race_flying_reach])
  have none: "fst (fail_over 9 (rc_standby S) (Some (rc_rebuild S)) (rc_store S)) = None"
    by (simp add: S_def fail_over_def abandon_def abandon_claim_def claim_def race_flying_simps
        is_running_def sample_standby_def commitment_states Let_def)
  have "sb_link (rc_standby S) \<noteq> None"
    by (simp add: S_def race_flying_simps sample_standby_def)
  from only_a_commitment_blocks_failover [OF reach this none] reach none show ?thesis by blast
qed

text \<open>A failure counts only for the attempt in flight. Over fewer than \<open>2^64\<close> attempts, a
  report the loop acts on is either a landing or the report of the very attempt it is waiting for:
  an outcome queued by an attempt that was abandoned, stood down or retargeted since is dropped.\<close>

theorem stale_failures_are_ignored:
  assumes "race_reach (race_init s target a cfg) S" and "next_arc (rc_store S) \<le> 2 ^ 64"
    and "rc_reports S = (x, rep) # reps" and "accept rep (rc_rebuild S) = (Some out, r)"
    and "\<forall>l. out \<noteq> Landed l"
  shows "in_flight (rc_rebuild S) \<and> x = rb_commitment (rc_rebuild S)"
  using accepted_failure [OF numbered_reach [OF assms(1) numbered_init] assms(2-5)] by simp

theorem stale_failures_are_ignored_witness:
  "\<exists>S rep. race_reach (race_init sample_standby [] AimLobby ()) (S :: (unit, nat, nat) race)
    \<and> rc_reports S = [(1, rep)] \<and> fst (accept rep (rc_rebuild S)) = Some (Retry [])
    \<and> 1 = rb_commitment (rc_rebuild S)"
proof -
  define rep :: "nat report" where "rep = \<lparr>rep_generation = 1, rep_outcome = Retry []\<rparr>"
  define S where "S = race_flying\<lparr>rc_tasks := set_pc 1 Stopped (rc_tasks race_flying),
    rc_reports := [(1, rep)]\<rparr>"
  have "race_step race_flying S"
    using race_step.race_report [of race_flying 1 _ "Retry []", OF race_flying_facts(7)]
    by (simp add: S_def rep_def race_flying_simps)
  then have reach: "race_reach (race_init sample_standby [] AimLobby ()) S"
    by (rule race_reach.race_trans [OF race_flying_reach])
  have acc: "accept rep (rc_rebuild S) = (Some (Retry []), finished (rc_rebuild S))"
    by (simp add: accept_def S_def rep_def race_flying_simps)
  have few: "next_arc (rc_store S) \<le> 2 ^ 64" and reps: "rc_reports S = (1, rep) # []"
    by (simp_all add: S_def race_flying_simps)
  from stale_failures_are_ignored [OF reach few reps acc] have "1 = rb_commitment (rc_rebuild S)"
    by simp
  with reach acc reps show ?thesis by force
qed

end
