(* ===== verification/Config.thy ===== *)
theory Config
  imports Ui_Keys Rebuild
begin

text \<open>
  The client's settings: \<open>src/config.rs\<close> with the saver of \<open>src/config/save.rs\<close>. One table of
  settings drives reading, layering, checking and saving. \<open>toml_edit\<close> and \<open>jiff\<close> are not part of the
  repository: a parsed document is the tree its accessors show (\<open>item\<close>; comments and layout are not
  kept), and reading and writing text are the functions of \<open>config_ext\<close>. The text of a message is left
  as the data it is written from (\<open>config_error\<close>, \<open>warning\<close>).

  The lemmas show that the rows of the table are independent of each other, that the popup can always
  be reached whatever the file says and whatever is changed on the screen, that keys and values print
  and parse alike, and that a save leaves every row showing what it showed.
\<close>

section \<open>Settings\<close>

record settings =
  st_popup_key :: "u8 option"
  st_auto_open_after :: "duration option"
  st_linger :: duration
  st_splash :: bool
  st_silent_after :: duration
  st_rebuild_after :: duration
  st_connect_timeout :: duration
  st_standby :: bool
  st_stun_servers :: "ustr list"
  st_port_mapping :: bool
  st_birthday :: bool
  st_clipboard :: bool
  st_hyperlinks :: bool

record net_config =
  nc_stun_servers :: "ustr list"
  nc_prefer_port :: u16
  nc_enable_port_mapping :: bool
  nc_enable_birthday :: bool
  nc_birthday_sockets :: u16
  nc_birthday_ports :: u16
  nc_birthday_budget :: duration
  nc_gather_timeout :: duration

definition net_config_default :: net_config where
  "net_config_default =
    \<lparr>nc_stun_servers = [str_of ''stun.cloudflare.com:3478'', str_of ''stun.l.google.com:19302'',
       str_of ''stun.nextcloud.com:443'', str_of ''stun.sipgate.net:3478''],
     nc_prefer_port = 443, nc_enable_port_mapping = True, nc_enable_birthday = True,
     nc_birthday_sockets = 256, nc_birthday_ports = 256, nc_birthday_budget = from_secs 6,
     nc_gather_timeout = from_secs 3\<rparr>"

definition AUTO_OPEN_AFTER :: duration where "AUTO_OPEN_AFTER = from_secs 2"

definition settings_default :: settings where
  "settings_default =
    (let net = net_config_default in
     \<lparr>st_popup_key = Some PREFIX, st_auto_open_after = Some AUTO_OPEN_AFTER, st_linger = LINGER,
      st_splash = True, st_silent_after = SILENT_AFTER, st_rebuild_after = REBUILD_AFTER,
      st_connect_timeout = DEFAULT_CONNECT_TIMEOUT, st_standby = True,
      st_stun_servers = nc_stun_servers net, st_port_mapping = nc_enable_port_mapping net,
      st_birthday = nc_enable_birthday net, st_clipboard = True, st_hyperlinks = True\<rparr>)"

definition effective_auto_open :: "settings \<Rightarrow> duration option" where
  "effective_auto_open s = map_option (\<lambda>d. max d (st_silent_after s)) (st_auto_open_after s)"

definition effective_rebuild_after :: "settings \<Rightarrow> duration" where
  "effective_rebuild_after s = max (st_rebuild_after s) (st_silent_after s)"

definition popup_unreachable :: "settings \<Rightarrow> bool" where
  "popup_unreachable s \<longleftrightarrow> st_popup_key s = None \<and> st_auto_open_after s = None"

definition settings_net_config :: "settings \<Rightarrow> net_config" where
  "settings_net_config s =
    net_config_default\<lparr>nc_stun_servers := st_stun_servers s, nc_enable_port_mapping := st_port_mapping s,
      nc_enable_birthday := st_birthday s\<rparr>"

datatype setting_value =
    VBool bool
  | VDuration "duration option"
  | VKey "u8 option"
  | VList "ustr list"

datatype shape =
    ShapeKey
  | ShapeDuration (sh_min: duration) (sh_max: duration) (sh_off: bool) (sh_whole_secs: bool)
  | ShapeBool
  | ShapeServers

datatype applies = AppliesNow | NextAttempt | NextRebuild | NextConnect

fun applies_note :: "applies \<Rightarrow> ustr" where
  "applies_note AppliesNow = []"
| "applies_note NextAttempt = str_of ''next attempt''"
| "applies_note NextRebuild = str_of ''next attempt''"
| "applies_note NextConnect = str_of ''next connect''"

record setting =
  sg_section :: ustr
  sg_name :: ustr
  sg_shape :: shape
  sg_applies :: applies
  sg_help :: ustr
  sg_get :: "settings \<Rightarrow> setting_value"
  sg_set :: "setting_value \<Rightarrow> settings \<Rightarrow> settings"

definition default_value :: "setting \<Rightarrow> setting_value" where
  "default_value row = sg_get row settings_default"

definition AUTO_OPEN :: nat where "AUTO_OPEN = 1"
definition STANDBY_ROW :: nat where "STANDBY_ROW = 7"

definition SETTINGS :: "setting list" where
  "SETTINGS =
    [\<lparr>sg_section = str_of ''popup'', sg_name = str_of ''key'', sg_shape = ShapeKey, sg_applies = AppliesNow,
      sg_help = str_of ''the key that opens this popup'',
      sg_get = (\<lambda>s. VKey (st_popup_key s)),
      sg_set = (\<lambda>v s. case v of VKey k \<Rightarrow> s\<lparr>st_popup_key := k\<rparr> | _ \<Rightarrow> s)\<rparr>,
     \<lparr>sg_section = str_of ''popup'', sg_name = str_of ''auto_open_after'',
      sg_shape = ShapeDuration (from_secs 0) (from_secs 600) True False, sg_applies = AppliesNow,
      sg_help = str_of ''silence before the popup opens by itself'',
      sg_get = (\<lambda>s. VDuration (st_auto_open_after s)),
      sg_set = (\<lambda>v s. case v of VDuration d \<Rightarrow> s\<lparr>st_auto_open_after := d\<rparr> | _ \<Rightarrow> s)\<rparr>,
     \<lparr>sg_section = str_of ''popup'', sg_name = str_of ''linger'',
      sg_shape = ShapeDuration (from_secs 0) (from_secs 60) False False, sg_applies = AppliesNow,
      sg_help = str_of ''how long the popup stays once the link is back'',
      sg_get = (\<lambda>s. VDuration (Some (st_linger s))),
      sg_set = (\<lambda>v s. case v of VDuration (Some d) \<Rightarrow> s\<lparr>st_linger := d\<rparr> | _ \<Rightarrow> s)\<rparr>,
     \<lparr>sg_section = str_of ''popup'', sg_name = str_of ''splash'', sg_shape = ShapeBool, sg_applies = NextConnect,
      sg_help = str_of ''the startup splash'',
      sg_get = (\<lambda>s. VBool (st_splash s)),
      sg_set = (\<lambda>v s. case v of VBool b \<Rightarrow> s\<lparr>st_splash := b\<rparr> | _ \<Rightarrow> s)\<rparr>,
     \<lparr>sg_section = str_of ''recovery'', sg_name = str_of ''silent_after'',
      sg_shape = ShapeDuration (from_secs 1) (from_secs 60) False False, sg_applies = AppliesNow,
      sg_help = str_of ''silence before it is an outage: input held, standby probed'',
      sg_get = (\<lambda>s. VDuration (Some (st_silent_after s))),
      sg_set = (\<lambda>v s. case v of VDuration (Some d) \<Rightarrow> s\<lparr>st_silent_after := d\<rparr> | _ \<Rightarrow> s)\<rparr>,
     \<lparr>sg_section = str_of ''recovery'', sg_name = str_of ''rebuild_after'',
      sg_shape = ShapeDuration (from_secs 5) (from_secs 600) False False, sg_applies = AppliesNow,
      sg_help = str_of ''silence before an ssh rebuild starts'',
      sg_get = (\<lambda>s. VDuration (Some (st_rebuild_after s))),
      sg_set = (\<lambda>v s. case v of VDuration (Some d) \<Rightarrow> s\<lparr>st_rebuild_after := d\<rparr> | _ \<Rightarrow> s)\<rparr>,
     \<lparr>sg_section = str_of ''recovery'', sg_name = str_of ''connect_timeout'',
      sg_shape = ShapeDuration (from_secs 1) (from_secs 120) False True, sg_applies = NextRebuild,
      sg_help = str_of ''ssh ConnectTimeout for a rebuild, where ssh has none of its own'',
      sg_get = (\<lambda>s. VDuration (Some (st_connect_timeout s))),
      sg_set = (\<lambda>v s. case v of VDuration (Some d) \<Rightarrow> s\<lparr>st_connect_timeout := d\<rparr> | _ \<Rightarrow> s)\<rparr>,
     \<lparr>sg_section = str_of ''network'', sg_name = str_of ''standby'', sg_shape = ShapeBool, sg_applies = AppliesNow,
      sg_help = str_of ''keep a second path ready to fail over to'',
      sg_get = (\<lambda>s. VBool (st_standby s)),
      sg_set = (\<lambda>v s. case v of VBool b \<Rightarrow> s\<lparr>st_standby := b\<rparr> | _ \<Rightarrow> s)\<rparr>,
     \<lparr>sg_section = str_of ''network'', sg_name = str_of ''stun_servers'', sg_shape = ShapeServers,
      sg_applies = NextAttempt, sg_help = str_of ''STUN servers that tell this side its public address'',
      sg_get = (\<lambda>s. VList (st_stun_servers s)),
      sg_set = (\<lambda>v s. case v of VList l \<Rightarrow> s\<lparr>st_stun_servers := l\<rparr> | _ \<Rightarrow> s)\<rparr>,
     \<lparr>sg_section = str_of ''network'', sg_name = str_of ''port_mapping'', sg_shape = ShapeBool,
      sg_applies = NextAttempt, sg_help = str_of ''ask the router for a port mapping (UPnP / NAT-PMP / PCP)'',
      sg_get = (\<lambda>s. VBool (st_port_mapping s)),
      sg_set = (\<lambda>v s. case v of VBool b \<Rightarrow> s\<lparr>st_port_mapping := b\<rparr> | _ \<Rightarrow> s)\<rparr>,
     \<lparr>sg_section = str_of ''network'', sg_name = str_of ''birthday'', sg_shape = ShapeBool,
      sg_applies = NextAttempt, sg_help = str_of ''the birthday-paradox NAT punch, at both ends'',
      sg_get = (\<lambda>s. VBool (st_birthday s)),
      sg_set = (\<lambda>v s. case v of VBool b \<Rightarrow> s\<lparr>st_birthday := b\<rparr> | _ \<Rightarrow> s)\<rparr>,
     \<lparr>sg_section = str_of ''terminal'', sg_name = str_of ''clipboard'', sg_shape = ShapeBool,
      sg_applies = AppliesNow, sg_help = str_of ''let remote programs copy to the local clipboard (OSC 52)'',
      sg_get = (\<lambda>s. VBool (st_clipboard s)),
      sg_set = (\<lambda>v s. case v of VBool b \<Rightarrow> s\<lparr>st_clipboard := b\<rparr> | _ \<Rightarrow> s)\<rparr>,
     \<lparr>sg_section = str_of ''terminal'', sg_name = str_of ''hyperlinks'', sg_shape = ShapeBool,
      sg_applies = AppliesNow, sg_help = str_of ''show remote hyperlinks as links (OSC 8)'',
      sg_get = (\<lambda>s. VBool (st_hyperlinks s)),
      sg_set = (\<lambda>v s. case v of VBool b \<Rightarrow> s\<lparr>st_hyperlinks := b\<rparr> | _ \<Rightarrow> s)\<rparr>]"

definition MAX_SERVERS :: nat where "MAX_SERVERS = 16"

text \<open>\<open>SETTINGS.iter().position\<close>\<close>

primrec setting_position :: "(setting \<Rightarrow> bool) \<Rightarrow> setting list \<Rightarrow> nat option" where
  "setting_position P [] = None"
| "setting_position P (r # rs) = (if P r then Some 0 else map_option Suc (setting_position P rs))"

definition index_of :: "ustr \<Rightarrow> ustr \<Rightarrow> nat option" where
  "index_of sec name = setting_position (\<lambda>r. sg_section r = sec \<and> sg_name r = name) SETTINGS"

section \<open>Values as text\<close>

text \<open>What is used of \<open>jiff\<close> (a signed duration in nanoseconds) and of \<open>toml_edit\<close>, a document being the
  table of its top-level keys.\<close>

datatype item = IBool bool | IStr ustr | IArray "item list" | ITable "(ustr \<times> item) list" | IOther

type_synonym toml_table = "(ustr \<times> item) list"

record config_ext =
  ce_parse_duration :: "ustr \<Rightarrow> int option"
  ce_show_duration :: "duration \<Rightarrow> ustr"
  ce_parse_toml :: "ustr \<Rightarrow> ustr + toml_table"
  ce_print_toml :: "toml_table \<Rightarrow> ustr"

datatype config_error =
    IsBackspace | IsTab | IsLineFeed | IsEnter | IsEsc | NotCtrl u8
  | NotAKey ustr
  | NotADuration ustr | NegativeDuration ustr | NotWholeSecs ustr | OutsideRange duration shape
  | NotAServer ustr | TooManyServers nat
  | NotOnOff ustr
  | ExpectedBool | ExpectedKeyString | ExpectedDurationString | ExpectedList
  | AlreadyDefault | Unreachable
  | NothingChanged | NoConfigDir | NotToml ustr | NotATable ustr | NotWritten

definition key_name :: "u8 option \<Rightarrow> ustr" where
  "key_name key =
    (case key of
       None \<Rightarrow> str_of ''off''
     | Some b \<Rightarrow>
         if 0x01 \<le> b \<and> b \<le> 0x1a then str_of ''ctrl-'' @ [unat (0x61 + b - 1)]
         else if b = 0x1c then str_of ''ctrl-'' @ [92]
         else if b = 0x1d then str_of ''ctrl-]''
         else if b = 0x1e then str_of ''ctrl-^''
         else if b = 0x1f then str_of ''ctrl-_''
         else str_of ''0x'' @ hex_byte b)"

definition check_key :: "u8 \<Rightarrow> config_error + u8 option" where
  "check_key b =
    (if b = 0x08 then Inl IsBackspace
     else if b = 0x09 then Inl IsTab
     else if b = 0x0a then Inl IsLineFeed
     else if b = 0x0d then Inl IsEnter
     else if b = 0x1b then Inl IsEsc
     else if 0x01 \<le> b \<and> b \<le> 0x1f then Inr (Some b)
     else Inl (NotCtrl b))"

text \<open>\<open>char::to_ascii_lowercase\<close>\<close>

definition ascii_lowercase :: "scalar \<Rightarrow> scalar" where
  "ascii_lowercase c = (if 65 \<le> c \<and> c \<le> 90 then c + 32 else c)"

definition parse_key :: "ustr \<Rightarrow> config_error + u8 option" where
  "parse_key text =
    (if text = str_of ''off'' then Inr None
     else if take 5 text \<noteq> str_of ''ctrl-'' then Inl (NotAKey text)
     else case drop 5 text of
       [c] \<Rightarrow>
         (let l = ascii_lowercase c in
          if 97 \<le> l \<and> l \<le> 122 then check_key (of_nat l - 0x61 + 1)
          else if l = 92 then check_key 0x1c
          else if l = 93 then check_key 0x1d
          else if l = 94 then check_key 0x1e
          else if l = 95 then check_key 0x1f
          else Inl (NotAKey text))
     | _ \<Rightarrow> Inl (NotAKey text))"

definition parse_duration :: "config_ext \<Rightarrow> ustr \<Rightarrow> duration \<Rightarrow> duration \<Rightarrow> bool \<Rightarrow> bool
    \<Rightarrow> config_error + duration option" where
  "parse_duration ext text mn mx off whole =
    (if off \<and> text = str_of ''off'' then Inr None
     else case ce_parse_duration ext text of
       None \<Rightarrow> Inl (NotADuration text)
     | Some ns \<Rightarrow>
         if ns < 0 then Inl (NegativeDuration text)
         else
           (let d = nat ns in
            if whole \<and> d mod 1000000000 \<noteq> 0 then Inl (NotWholeSecs text)
            else if d < mn \<or> d > mx then Inl (OutsideRange d (ShapeDuration mn mx off whole))
            else Inr (Some d)))"

text \<open>\<open>str::rsplit_once(':')\<close>, and \<open>str::parse::<u16>\<close>: an optional \<open>+\<close>, then digits that fit.\<close>

definition rsplit_once :: "scalar \<Rightarrow> ustr \<Rightarrow> (ustr \<times> ustr) option" where
  "rsplit_once c s =
    (if c \<in> set s then
       Some (rev (tl (dropWhile (\<lambda>x. x \<noteq> c) (rev s))), rev (takeWhile (\<lambda>x. x \<noteq> c) (rev s)))
     else None)"

fun dec_value :: "ustr \<Rightarrow> nat \<Rightarrow> nat option" where
  "dec_value [] acc = Some acc"
| "dec_value (c # s) acc = (if 48 \<le> c \<and> c \<le> 57 then dec_value s (acc * 10 + (c - 48)) else None)"

definition parse_u16 :: "ustr \<Rightarrow> nat option" where
  "parse_u16 s =
    (let digits = (if take 1 s = [43] then drop 1 s else s) in
     if digits = [] then None
     else case dec_value digits 0 of
       Some n \<Rightarrow> if n < 65536 then Some n else None
     | None \<Rightarrow> None)"

definition check_server :: "ustr \<Rightarrow> config_error + unit" where
  "check_server server =
    (case rsplit_once 58 server of
       None \<Rightarrow> Inl (NotAServer server)
     | Some (host, port) \<Rightarrow>
         (case parse_u16 port of
            None \<Rightarrow> Inl (NotAServer server)
          | Some p \<Rightarrow>
              if p = 0 then Inl (NotAServer server)
              else
                (let bracketed = (host \<noteq> [] \<and> hd host = 91 \<and> last host = 93 \<and> str_len host > 2);
                     plain = (host \<noteq> [] \<and> \<not> list_ex (\<lambda>c. c \<in> {91, 93, 58, 32}) host)
                 in if bracketed \<or> plain then Inr () else Inl (NotAServer server))))"

definition check_servers :: "ustr list \<Rightarrow> config_error + setting_value" where
  "check_servers l =
    (if length l > MAX_SERVERS then Inl (TooManyServers (length l))
     else and_then (check_all check_server l) (\<lambda>_. Inr (VList l)))"

text \<open>\<open>str::split(',')\<close>\<close>

fun split_at :: "scalar \<Rightarrow> ustr \<Rightarrow> ustr list" where
  "split_at c [] = [[]]"
| "split_at c (x # s) =
     (if x = c then [] # split_at c s else case split_at c s of p # ps \<Rightarrow> (x # p) # ps | [] \<Rightarrow> [[x]])"

definition parse_text :: "config_ext \<Rightarrow> shape \<Rightarrow> ustr \<Rightarrow> config_error + setting_value" where
  "parse_text ext sh text =
    (case sh of
       ShapeKey \<Rightarrow> and_then (parse_key text) (\<lambda>k. Inr (VKey k))
     | ShapeDuration mn mx off whole \<Rightarrow> and_then (parse_duration ext text mn mx off whole) (\<lambda>d. Inr (VDuration d))
     | ShapeBool \<Rightarrow>
         if text = str_of ''on'' \<or> text = str_of ''true'' then Inr (VBool True)
         else if text = str_of ''off'' \<or> text = str_of ''false'' then Inr (VBool False)
         else Inl (NotOnOff text)
     | ShapeServers \<Rightarrow> check_servers (filter (\<lambda>s. s \<noteq> []) (map str_trim (split_at 44 text))))"

definition as_strs :: "item list \<Rightarrow> ustr list option" where
  "as_strs vs = those (map (\<lambda>v. case v of IStr s \<Rightarrow> Some s | _ \<Rightarrow> None) vs)"

definition parse_item :: "config_ext \<Rightarrow> shape \<Rightarrow> item \<Rightarrow> config_error + setting_value" where
  "parse_item ext sh it =
    (case sh of
       ShapeBool \<Rightarrow> (case it of IBool b \<Rightarrow> Inr (VBool b) | _ \<Rightarrow> Inl ExpectedBool)
     | ShapeKey \<Rightarrow> (case it of IStr t \<Rightarrow> parse_text ext sh t | _ \<Rightarrow> Inl ExpectedKeyString)
     | ShapeDuration _ _ _ _ \<Rightarrow> (case it of IStr t \<Rightarrow> parse_text ext sh t | _ \<Rightarrow> Inl ExpectedDurationString)
     | ShapeServers \<Rightarrow>
         (case it of
            IArray vs \<Rightarrow> (case as_strs vs of Some l \<Rightarrow> check_servers l | None \<Rightarrow> Inl ExpectedList)
          | _ \<Rightarrow> Inl ExpectedList))"

definition show_value :: "config_ext \<Rightarrow> setting_value \<Rightarrow> ustr" where
  "show_value ext v =
    (case v of
       VBool b \<Rightarrow> if b then str_of ''on'' else str_of ''off''
     | VDuration None \<Rightarrow> str_of ''off''
     | VDuration (Some d) \<Rightarrow> ce_show_duration ext d
     | VKey k \<Rightarrow> key_name k
     | VList l \<Rightarrow>
         (case l of
            [] \<Rightarrow> str_of ''none''
          | x # rest \<Rightarrow> if rest = [] then x else x @ str_of '' +'' @ dec_str (length rest)))"

text \<open>The ellipsis and the dash are U+2026 and U+2013.\<close>

definition value_range :: "config_ext \<Rightarrow> shape \<Rightarrow> ustr" where
  "value_range ext sh =
    (case sh of
       ShapeKey \<Rightarrow> str_of ''ctrl-a '' @ [0x2026] @ str_of '' ctrl-z except h i j m; ctrl-'' @ [92]
         @ str_of '' ctrl-] ctrl-^ ctrl-_; off''
     | ShapeDuration mn mx off _ \<Rightarrow>
         (let sp = ce_show_duration ext mn @ [0x2013] @ ce_show_duration ext mx
          in if off then sp @ str_of '' or off'' else sp)
     | ShapeBool \<Rightarrow> str_of ''on or off''
     | ShapeServers \<Rightarrow> str_of ''0'' @ [0x2013] @ dec_str MAX_SERVERS @ str_of '' host:port'')"

section \<open>Layers\<close>

datatype level = LevelGlobal | LevelHost

datatype origin = OriginDefault | OriginGlobal | OriginHost

fun origin_level :: "origin \<Rightarrow> level option" where
  "origin_level OriginDefault = None"
| "origin_level OriginGlobal = Some LevelGlobal"
| "origin_level OriginHost = Some LevelHost"

record key_layers =
  kl_default :: setting_value
  kl_global :: "setting_value option"
  kl_host :: "setting_value option"

definition winner :: "key_layers \<Rightarrow> origin \<times> setting_value" where
  "winner l =
    (case (kl_host l, kl_global l) of
       (Some v, _) \<Rightarrow> (OriginHost, v)
     | (None, Some v) \<Rightarrow> (OriginGlobal, v)
     | (None, None) \<Rightarrow> (OriginDefault, kl_default l))"

definition without_level :: "level \<Rightarrow> key_layers \<Rightarrow> origin \<times> setting_value" where
  "without_level lv l =
    (case (lv, kl_host l, kl_global l) of
       (LevelGlobal, Some v, _) \<Rightarrow> (OriginHost, v)
     | (LevelHost, _, Some v) \<Rightarrow> (OriginGlobal, v)
     | _ \<Rightarrow> (OriginDefault, kl_default l))"

text \<open>\<open>*at_mut(level) = v\<close>\<close>

fun at_put :: "level \<Rightarrow> setting_value option \<Rightarrow> key_layers \<Rightarrow> key_layers" where
  "at_put LevelGlobal v l = l\<lparr>kl_global := v\<rparr>"
| "at_put LevelHost v l = l\<lparr>kl_host := v\<rparr>"

type_synonym layers = "key_layers list"

definition layers_defaults :: layers where
  "layers_defaults = map (\<lambda>row. \<lparr>kl_default = default_value row, kl_global = None, kl_host = None\<rparr>) SETTINGS"

datatype edit = EditSet setting_value | EditRemove level

type_synonym pending = "(nat, edit) btmap"

definition shown_with :: "key_layers \<Rightarrow> edit option \<Rightarrow> origin option \<times> setting_value" where
  "shown_with l e =
    (case e of
       Some (EditSet v) \<Rightarrow> (None, v)
     | Some (EditRemove lv) \<Rightarrow> (let (org, v) = without_level lv l in (Some org, v))
     | None \<Rightarrow> (let (org, v) = winner l in (Some org, v)))"

definition in_effect :: "layers \<Rightarrow> pending \<Rightarrow> settings" where
  "in_effect ls p =
    fold (\<lambda>(i, row, l) s. sg_set row (snd (shown_with l (bt_get p i))) s)
      (zip [0..<length SETTINGS] (zip SETTINGS ls)) settings_default"

definition layers_settings :: "layers \<Rightarrow> settings" where
  "layers_settings ls = in_effect ls []"

section \<open>Reading the file\<close>

datatype warning =
    WarnNotToml ustr
  | WarnUnreadable
  | WarnHostNotTable
  | WarnTargetNotTable
  | WarnUnknownSection level ustr
  | WarnSectionNotTable level ustr
  | WarnUnknownSetting level ustr ustr
  | WarnBadValue level ustr ustr config_error
  | WarnUnreachable level

definition read_setting :: "config_ext \<Rightarrow> level \<Rightarrow> ustr \<Rightarrow> ustr \<times> item
    \<Rightarrow> layers \<times> warning list \<Rightarrow> layers \<times> warning list" where
  "read_setting ext lv sec e st =
    (let (name, it) = e; (ls, ws) = st in
     case index_of sec name of
       None \<Rightarrow> (ls, ws @ [WarnUnknownSetting lv sec name])
     | Some i \<Rightarrow>
         (case parse_item ext (sg_shape (SETTINGS ! i)) it of
            Inr v \<Rightarrow> (ls[i := at_put lv (Some v) (ls ! i)], ws)
          | Inl why \<Rightarrow> (ls, ws @ [WarnBadValue lv sec name why])))"

definition read_section :: "config_ext \<Rightarrow> level \<Rightarrow> ustr \<times> item
    \<Rightarrow> layers \<times> warning list \<Rightarrow> layers \<times> warning list" where
  "read_section ext lv e st =
    (let (sec, it) = e; (ls, ws) = st in
     if \<not> list_ex (\<lambda>r. sg_section r = sec) SETTINGS then (ls, ws @ [WarnUnknownSection lv sec])
     else case it of
       ITable t \<Rightarrow> fold (read_setting ext lv sec) t (ls, ws)
     | _ \<Rightarrow> (ls, ws @ [WarnSectionNotTable lv sec]))"

definition read_hosts :: "config_ext \<Rightarrow> ustr \<Rightarrow> item \<Rightarrow> layers \<times> warning list \<Rightarrow> layers \<times> warning list" where
  "read_hosts ext target it st =
    (let (ls, ws) = st in
     case it of
       ITable hosts \<Rightarrow>
         (case map_of hosts target of
            None \<Rightarrow> (ls, ws)
          | Some (ITable ours) \<Rightarrow> fold (read_section ext LevelHost) ours (ls, ws)
          | Some _ \<Rightarrow> (ls, ws @ [WarnTargetNotTable]))
     | _ \<Rightarrow> (ls, ws @ [WarnHostNotTable]))"

definition read_document :: "config_ext \<Rightarrow> ustr \<Rightarrow> toml_table \<Rightarrow> layers \<times> warning list
    \<Rightarrow> layers \<times> warning list" where
  "read_document ext target doc =
    fold (\<lambda>e. if fst e \<noteq> str_of ''host'' then read_section ext LevelGlobal e
              else read_hosts ext target (snd e)) doc"

text \<open>The loop drops a layer of \<open>auto_open_after\<close> at each turn.\<close>

definition layer_count :: "key_layers \<Rightarrow> nat" where
  "layer_count l = (if kl_global l = None then 0 else 1) + (if kl_host l = None then 0 else 1)"

function keep_the_popup_reachable :: "layers \<Rightarrow> warning list \<Rightarrow> layers \<times> warning list" where
  "keep_the_popup_reachable ls ws =
    (if \<not> popup_unreachable (layers_settings ls) then (ls, ws)
     else case origin_level (fst (winner (ls ! AUTO_OPEN))) of
       None \<Rightarrow> (ls, ws)
     | Some lv \<Rightarrow>
         if AUTO_OPEN < length ls then
           keep_the_popup_reachable (ls[AUTO_OPEN := at_put lv None (ls ! AUTO_OPEN)]) (ws @ [WarnUnreachable lv])
         else (ls, ws))"
  by pat_completeness auto
termination
proof (relation "measure (\<lambda>(ls, ws). layer_count (ls ! AUTO_OPEN))")
  fix ls :: layers and ws :: "warning list" and lv
  assume lv: "origin_level (fst (winner (ls ! AUTO_OPEN))) = Some lv" and i: "AUTO_OPEN < length ls"
  show "((ls[AUTO_OPEN := at_put lv None (ls ! AUTO_OPEN)], ws @ [WarnUnreachable lv]), ls, ws)
      \<in> measure (\<lambda>(ls, ws). layer_count (ls ! AUTO_OPEN))"
    using lv i by (cases lv) (auto simp: winner_def layer_count_def split: option.splits)
qed simp

declare keep_the_popup_reachable.simps [simp del]

record resolved =
  rs_settings :: settings
  rs_layers :: layers
  rs_warnings :: "warning list"

definition resolve :: "config_ext \<Rightarrow> ustr option \<Rightarrow> ustr \<Rightarrow> resolved" where
  "resolve ext text target =
    (let (ls, ws) =
       (case text of
          None \<Rightarrow> (layers_defaults, [])
        | Some t \<Rightarrow>
            (case ce_parse_toml ext t of
               Inr doc \<Rightarrow> read_document ext target doc (layers_defaults, [])
             | Inl e \<Rightarrow> (layers_defaults, [WarnNotToml e])));
       (ls, ws) = keep_the_popup_reachable ls ws
     in \<lparr>rs_settings = layers_settings ls, rs_layers = ls, rs_warnings = ws\<rparr>)"

text \<open>\<open>load\<close>, with what \<open>read_to_string\<close> gave: the text, no such file, or another error.\<close>

datatype file_read = FileText ustr | FileMissing | FileError

definition load_config :: "config_ext \<Rightarrow> file_read option \<Rightarrow> ustr \<Rightarrow> resolved" where
  "load_config ext rd target =
    (case rd of
       None \<Rightarrow> resolve ext None target
     | Some (FileText t) \<Rightarrow> resolve ext (Some t) target
     | Some FileMissing \<Rightarrow> resolve ext None target
     | Some FileError \<Rightarrow>
         (let r = resolve ext None target in r\<lparr>rs_warnings := WarnUnreadable # rs_warnings r\<rparr>))"

section \<open>The screen's changes\<close>

record config_state =
  cs_dir :: "ustr option"
  cs_target :: ustr
  cs_layers :: layers
  cs_warnings :: nat
  cs_pending :: pending
  cs_applied :: settings

definition config_state_new :: "ustr option \<Rightarrow> ustr \<Rightarrow> resolved \<Rightarrow> config_state" where
  "config_state_new dir target r =
    \<lparr>cs_dir = dir, cs_target = target, cs_layers = rs_layers r, cs_warnings = length (rs_warnings r),
     cs_pending = [], cs_applied = layers_settings (rs_layers r)\<rparr>"

definition config_state_defaults :: "config_ext \<Rightarrow> config_state" where
  "config_state_defaults ext = config_state_new None [] (resolve ext None [])"

definition row_shown :: "config_state \<Rightarrow> nat \<Rightarrow> origin option \<times> setting_value \<times> bool" where
  "row_shown c i =
    (let e = bt_get (cs_pending c) i; (org, v) = shown_with (cs_layers c ! i) e in (org, v, e \<noteq> None))"

definition config_commit :: "nat \<Rightarrow> pending \<Rightarrow> config_state \<Rightarrow> (config_error + settings) \<times> config_state" where
  "config_commit i nxt c =
    (let s = sg_set (SETTINGS ! i) (snd (shown_with (cs_layers c ! i) (bt_get nxt i))) (cs_applied c) in
     if popup_unreachable s \<or> popup_unreachable (in_effect (cs_layers c) nxt) then (Inl Unreachable, c)
     else (Inr s, c\<lparr>cs_pending := nxt, cs_applied := s\<rparr>))"

definition config_set :: "nat \<Rightarrow> setting_value \<Rightarrow> config_state \<Rightarrow> (config_error + settings) \<times> config_state" where
  "config_set i v c =
    (let nxt = (if snd (winner (cs_layers c ! i)) = v then bt_remove i (cs_pending c)
                else bt_insert i (EditSet v) (cs_pending c))
     in config_commit i nxt c)"

definition config_reset :: "nat \<Rightarrow> config_state \<Rightarrow> (config_error + settings) \<times> config_state" where
  "config_reset i c =
    (if bt_get (cs_pending c) i \<noteq> None then config_commit i (bt_remove i (cs_pending c)) c
     else case origin_level (fst (winner (cs_layers c ! i))) of
       None \<Rightarrow> (Inl AlreadyDefault, c)
     | Some lv \<Rightarrow> config_commit i (bt_insert i (EditRemove lv) (cs_pending c)) c)"

section \<open>Saving\<close>

definition to_toml :: "config_ext \<Rightarrow> setting_value \<Rightarrow> item" where
  "to_toml ext v =
    (case v of
       VBool b \<Rightarrow> IBool b
     | VDuration None \<Rightarrow> IStr (str_of ''off'')
     | VDuration (Some d) \<Rightarrow> IStr (ce_show_duration ext d)
     | VKey None \<Rightarrow> IStr (str_of ''off'')
     | VKey k \<Rightarrow> IStr (key_name k)
     | VList l \<Rightarrow> IArray (map IStr l))"

datatype file_change = ChangeWrite level nat setting_value | ChangeRemove level nat

fun edit_changes :: "level \<Rightarrow> nat \<times> edit \<Rightarrow> file_change list" where
  "edit_changes LevelGlobal (i, EditSet v) = [ChangeWrite LevelGlobal i v, ChangeRemove LevelHost i]"
| "edit_changes LevelHost (i, EditSet v) = [ChangeWrite LevelHost i v]"
| "edit_changes _ (i, EditRemove LevelHost) = [ChangeRemove LevelHost i]"
| "edit_changes LevelGlobal (i, EditRemove LevelGlobal) = [ChangeRemove LevelGlobal i]"
| "edit_changes LevelHost (i, EditRemove LevelGlobal) = [ChangeWrite LevelHost i (default_value (SETTINGS ! i))]"

definition config_changes :: "level \<Rightarrow> pending \<Rightarrow> file_change list" where
  "config_changes lv p = concat (map (edit_changes lv) p)"

text \<open>A table's \<open>insert\<close>: in place when the key is there, at the end otherwise; and \<open>remove\<close>.\<close>

primrec tput :: "ustr \<Rightarrow> item \<Rightarrow> toml_table \<Rightarrow> toml_table" where
  "tput k v [] = [(k, v)]"
| "tput k v (e # t) = (if fst e = k then (k, v) # t else e # tput k v t)"

definition tremove :: "ustr \<Rightarrow> toml_table \<Rightarrow> toml_table" where
  "tremove k t = filter (\<lambda>e. fst e \<noteq> k) t"

text \<open>The table at \<open>key\<close>: an empty one is made of it when it is missing and one is to be created.\<close>

definition table_in :: "toml_table \<Rightarrow> ustr \<Rightarrow> bool \<Rightarrow> ustr \<Rightarrow> config_error + toml_table option" where
  "table_in parent key create at =
    (case map_of parent key of
       None \<Rightarrow> Inr (if create then Some [] else None)
     | Some (ITable t) \<Rightarrow> Inr (Some t)
     | Some _ \<Rightarrow> Inl (NotATable at))"

definition is_empty_table :: "item option \<Rightarrow> bool" where
  "is_empty_table it \<longleftrightarrow> it = Some (ITable [])"

definition prune :: "ustr \<Rightarrow> ustr \<Rightarrow> toml_table \<Rightarrow> toml_table" where
  "prune target sec doc =
    (case map_of doc (str_of ''host'') of
       Some (ITable hosts) \<Rightarrow>
         (let hosts' =
            (case map_of hosts target of
               Some (ITable ours) \<Rightarrow>
                 (let ours' = (if is_empty_table (map_of ours sec) then tremove sec ours else ours)
                  in if ours' = [] then tremove target hosts else tput target (ITable ours') hosts)
             | _ \<Rightarrow> hosts)
          in if hosts' = [] then tremove (str_of ''host'') doc else tput (str_of ''host'') (ITable hosts') doc)
     | _ \<Rightarrow> doc)"

text \<open>What the change does to the setting's own section.\<close>

fun change_section :: "config_ext \<Rightarrow> file_change \<Rightarrow> toml_table \<Rightarrow> toml_table" where
  "change_section ext (ChangeWrite _ i v) sec = tput (sg_name (SETTINGS ! i)) (to_toml ext v) sec"
| "change_section ext (ChangeRemove _ i) sec = tremove (sg_name (SETTINGS ! i)) sec"

fun change_place :: "file_change \<Rightarrow> level \<times> nat \<times> bool" where
  "change_place (ChangeWrite lv i _) = (lv, i, True)"
| "change_place (ChangeRemove lv i) = (lv, i, False)"

definition apply_change :: "config_ext \<Rightarrow> ustr \<Rightarrow> file_change \<Rightarrow> toml_table \<Rightarrow> config_error + toml_table" where
  "apply_change ext target ch doc =
    (let (lv, i, write) = change_place ch; sec = sg_section (SETTINGS ! i) in
     case lv of
       LevelGlobal \<Rightarrow>
         and_then (table_in doc sec write sec) (\<lambda>section.
         case section of
           None \<Rightarrow> Inr doc
         | Some t \<Rightarrow> Inr (tput sec (ITable (change_section ext ch t)) doc))
     | LevelHost \<Rightarrow>
         and_then (table_in doc (str_of ''host'') write (str_of ''host'')) (\<lambda>hosts.
         case hosts of None \<Rightarrow> Inr doc | Some hosts \<Rightarrow>
         and_then (table_in hosts target write target) (\<lambda>ours.
         case ours of None \<Rightarrow> Inr doc | Some ours \<Rightarrow>
         and_then (table_in ours sec write sec) (\<lambda>section.
         case section of
           None \<Rightarrow> Inr doc
         | Some t \<Rightarrow>
             (let doc' = tput (str_of ''host'')
                (ITable (tput target (ITable (tput sec (ITable (change_section ext ch t)) ours)) hosts)) doc
              in Inr (if write then doc' else prune target sec doc'))))))"

text \<open>\<open>save::save\<close> on what was read of the file (\<open>None\<close>: there was none), with whether the text could be
  written; and \<open>ConfigState::save\<close>.\<close>

definition save_text :: "config_ext \<Rightarrow> ustr \<Rightarrow> level \<Rightarrow> pending \<Rightarrow> ustr option \<Rightarrow> bool \<Rightarrow> config_error + ustr" where
  "save_text ext target lv p old writable =
    and_then (case old of None \<Rightarrow> Inr [] | Some t \<Rightarrow> map_sum NotToml id (ce_parse_toml ext t)) (\<lambda>doc.
    and_then (fold_res (apply_change ext target) (config_changes lv p) doc) (\<lambda>doc.
    if writable then Inr (ce_print_toml ext doc) else Inl NotWritten))"

definition config_save :: "config_ext \<Rightarrow> level \<Rightarrow> ustr option \<Rightarrow> bool \<Rightarrow> config_state
    \<Rightarrow> (config_error + warning list) \<times> config_state" where
  "config_save ext lv old writable c =
    (if cs_pending c = [] then (Inl NothingChanged, c)
     else if cs_dir c = None then (Inl NoConfigDir, c)
     else case save_text ext (cs_target c) lv (cs_pending c) old writable of
       Inl e \<Rightarrow> (Inl e, c)
     | Inr text \<Rightarrow>
         (let r = resolve ext (Some text) (cs_target c)
          in (Inr (rs_warnings r),
              c\<lparr>cs_layers := rs_layers r, cs_warnings := length (rs_warnings r), cs_pending := []\<rparr>)))"

section \<open>The rows of the table\<close>

lemma length_SETTINGS [simp]: "length SETTINGS = 13"
  by (simp add: SETTINGS_def)

definition row_get :: "nat \<Rightarrow> settings \<Rightarrow> setting_value" where
  "row_get i = sg_get (SETTINGS ! i)"

definition row_set :: "nat \<Rightarrow> setting_value \<Rightarrow> settings \<Rightarrow> settings" where
  "row_set i = sg_set (SETTINGS ! i)"

text \<open>The values a row may have: what the checks let through.\<close>

fun valid_value :: "shape \<Rightarrow> setting_value \<Rightarrow> bool" where
  "valid_value ShapeKey (VKey k) \<longleftrightarrow> (case k of None \<Rightarrow> True | Some b \<Rightarrow> check_key b = Inr (Some b))"
| "valid_value (ShapeDuration mn mx off whole) (VDuration d) \<longleftrightarrow>
     (case d of None \<Rightarrow> off | Some d \<Rightarrow> mn \<le> d \<and> d \<le> mx \<and> (whole \<longrightarrow> d mod 1000000000 = 0))"
| "valid_value ShapeBool (VBool b) \<longleftrightarrow> True"
| "valid_value ShapeServers (VList l) \<longleftrightarrow> length l \<le> MAX_SERVERS \<and> (\<forall>s\<in>set l. check_server s = Inr ())"
| "valid_value _ _ \<longleftrightarrow> False"

lemma less_13: "i < 13 \<longleftrightarrow> i \<in> {0, 1, 2, 3, 4, 5, 6, 7, 8, 9, 10, 11, 12::nat}"
  unfolding insert_iff empty_iff by presburger

lemma row_get_set:
  assumes "i < 13" and "valid_value (sg_shape (SETTINGS ! i)) v"
  shows "row_get i (row_set i v s) = v"
  using assms unfolding less_13 row_get_def row_set_def
  by (cases v; auto simp: SETTINGS_def split: option.splits)

lemma row_get_set_other:
  assumes "i < 13" "j < 13" "i \<noteq> j"
  shows "row_get j (row_set i v s) = row_get j s"
  using assms unfolding less_13 row_get_def row_set_def
  by (elim insertE emptyE; simp add: SETTINGS_def split: setting_value.split option.split)

lemma settings_rows:
  assumes "\<And>i. i < 13 \<Longrightarrow> row_get i s = row_get i t"
  shows "s = t"
proof -
  have "row_get 0 s = row_get 0 t" "row_get 1 s = row_get 1 t" "row_get 2 s = row_get 2 t"
    "row_get 3 s = row_get 3 t" "row_get 4 s = row_get 4 t" "row_get 5 s = row_get 5 t"
    "row_get 6 s = row_get 6 t" "row_get 7 s = row_get 7 t" "row_get 8 s = row_get 8 t"
    "row_get 9 s = row_get 9 t" "row_get 10 s = row_get 10 t" "row_get 11 s = row_get 11 t"
    "row_get 12 s = row_get 12 t"
    using assms by simp_all
  then show ?thesis
    by (intro settings.equality) (simp_all add: row_get_def SETTINGS_def)
qed

lemma fold_rows:
  assumes "distinct is" "set is \<subseteq> {..<13}" "j < 13"
    and "\<And>i. i \<in> set is \<Longrightarrow> valid_value (sg_shape (SETTINGS ! i)) (f i)"
  shows "row_get j (fold (\<lambda>i. row_set i (f i)) is s) = (if j \<in> set is then f j else row_get j s)"
  using assms
  by (induction "is" arbitrary: s) (auto simp: row_get_set row_get_set_other)

definition wf_layers :: "layers \<Rightarrow> bool" where
  "wf_layers ls \<longleftrightarrow> length ls = 13
    \<and> (\<forall>i<13. kl_default (ls ! i) = default_value (SETTINGS ! i)
        \<and> (\<forall>v. kl_global (ls ! i) = Some v \<longrightarrow> valid_value (sg_shape (SETTINGS ! i)) v)
        \<and> (\<forall>v. kl_host (ls ! i) = Some v \<longrightarrow> valid_value (sg_shape (SETTINGS ! i)) v))"

definition wf_pending :: "pending \<Rightarrow> bool" where
  "wf_pending p \<longleftrightarrow> bt_wf p
    \<and> (\<forall>i e. bt_get p i = Some e \<longrightarrow> i < 13 \<and> (\<forall>v. e = EditSet v \<longrightarrow> valid_value (sg_shape (SETTINGS ! i)) v))"

lemma default_valid: "i < 13 \<Longrightarrow> valid_value (sg_shape (SETTINGS ! i)) (default_value (SETTINGS ! i))"
  unfolding less_13
  by (elim insertE emptyE;
      simp add: SETTINGS_def default_value_def settings_default_def Let_def net_config_default_def check_key_def
        PREFIX_def AUTO_OPEN_AFTER_def LINGER_def timing_defs DEFAULT_CONNECT_TIMEOUT_def MAX_SERVERS_def
        check_server_def rsplit_once_def parse_u16_def str_of_def)

lemma in_effect_fold:
  assumes "length ls = 13"
  shows "in_effect ls p
    = fold (\<lambda>i. row_set i (snd (shown_with (ls ! i) (bt_get p i)))) [0..<13] settings_default"
proof -
  have "zip [0..<length SETTINGS] (zip SETTINGS ls) = map (\<lambda>i. (i, SETTINGS ! i, ls ! i)) [0..<13]"
    using assms by (intro nth_equalityI) simp_all
  then show ?thesis by (simp add: in_effect_def fold_map comp_def row_set_def)
qed

lemma shown_valid:
  assumes "wf_layers ls" "wf_pending p" "i < 13"
  shows "valid_value (sg_shape (SETTINGS ! i)) (snd (shown_with (ls ! i) (bt_get p i)))"
  using assms default_valid [OF assms(3)]
  by (auto simp: wf_layers_def wf_pending_def shown_with_def winner_def without_level_def
      split: option.split edit.split level.split)

lemma in_effect_row:
  assumes "wf_layers ls" "wf_pending p" "i < 13"
  shows "row_get i (in_effect ls p) = snd (shown_with (ls ! i) (bt_get p i))"
  using assms(1) fold_rows [of "[0..<13]" i "\<lambda>i. snd (shown_with (ls ! i) (bt_get p i))" settings_default]
    shown_valid [OF assms(1,2)] assms(3)
  by (simp add: in_effect_fold wf_layers_def atLeast0LessThan)

lemma wf_pending_empty: "wf_pending []"
  by (simp add: wf_pending_def bt_get_def)

section \<open>Values print and parse alike\<close>

lemma check_key_Some: "check_key b = Inr k \<Longrightarrow> k = Some b"
  by (auto simp: check_key_def split: if_splits)

lemma parse_key_checked: "parse_key t = Inr (Some b) \<Longrightarrow> check_key b = Inr (Some b)"
  by (auto simp: parse_key_def Let_def split: if_splits list.splits dest: check_key_Some)

lemma check_servers_valid: "check_servers l = Inr v \<Longrightarrow> valid_value ShapeServers v"
  by (auto simp: check_servers_def res_simps split: if_splits)

lemma parse_text_valid: "parse_text ext sh t = Inr v \<Longrightarrow> valid_value sh v"
  by (cases sh)
    (auto simp: parse_text_def parse_duration_def res_simps Let_def check_servers_valid
      split: if_splits option.splits dest: parse_key_checked)

lemma parse_item_valid: "parse_item ext sh it = Inr v \<Longrightarrow> valid_value sh v"
  by (cases sh; cases it)
    (auto simp: parse_item_def parse_text_valid check_servers_valid split: option.splits)

text \<open>What the code relies on in \<open>jiff\<close> for the durations a setting can have: they read back as
  themselves, and none is spelled \<open>off\<close>.\<close>

definition durations_read_back :: "config_ext \<Rightarrow> bool" where
  "durations_read_back ext \<longleftrightarrow>
    (\<forall>d \<le> from_secs 600. ce_parse_duration ext (ce_show_duration ext d) = Some (int d)
       \<and> ce_show_duration ext d \<noteq> str_of ''off'')"

text \<open>Between them: which bytes have a name of their own.\<close>

lemma check_key_cases:
  assumes "check_key b = Inr k"
  shows "k = Some b" "(0x01 \<le> b \<and> b \<le> 0x1a) \<or> b = 0x1c \<or> b = 0x1d \<or> b = 0x1e \<or> b = 0x1f"
proof -
  show "k = Some b" using assms by (rule check_key_Some)
  have eq: "x = y \<longleftrightarrow> unat x = unat y" for x y :: u8
    by (simp add: word_eq_iff_unsigned [where 'a = nat])
  have "b \<noteq> 0x1b" "0x01 \<le> b" "b \<le> 0x1f"
    using assms by (auto simp: check_key_def split: if_splits)
  then show "(0x01 \<le> b \<and> b \<le> 0x1a) \<or> b = 0x1c \<or> b = 0x1d \<or> b = 0x1e \<or> b = 0x1f"
    by (simp add: word_le_nat_alt eq) linarith
qed

lemma keys_read_back:
  "(case k of None \<Rightarrow> True | Some b \<Rightarrow> is_ok (check_key b)) = (parse_key (key_name k) = Inr k)"
proof (cases k)
  case (Some b)
  have letter: "parse_key (str_of ''ctrl-'' @ [unat (0x61 + b - 1)]) = check_key b" if "0x01 \<le> b" "b \<le> 0x1a"
  proof -
    have u: "unat (0x61 + b - 1) = 96 + unat b"
      using that by (simp add: word_le_nat_alt unat_word_ariths)
    have "of_nat (96 + unat b) - 0x61 + 1 = b" by simp
    with that show ?thesis unfolding u
      by (auto simp: parse_key_def str_of_def ascii_lowercase_def word_le_nat_alt Let_def)
  qed
  have other: "parse_key (str_of ''ctrl-'' @ [92]) = Inr (Some 0x1c)" "parse_key (str_of ''ctrl-]'') = Inr (Some 0x1d)"
    "parse_key (str_of ''ctrl-^'') = Inr (Some 0x1e)" "parse_key (str_of ''ctrl-_'') = Inr (Some 0x1f)"
    by (simp_all add: parse_key_def str_of_def ascii_lowercase_def check_key_def)
  have hex: "parse_key (str_of ''0x'' @ hex_byte b) \<noteq> Inr (Some b)"
    by (simp add: parse_key_def str_of_def hex_byte_def)
  show ?thesis
  proof (cases "check_key b")
    case (Inl e)
    then have "\<not> (b = 0x1c \<or> b = 0x1d \<or> b = 0x1e \<or> b = 0x1f)" by (auto simp: check_key_def)
    with Inl Some letter hex show ?thesis by (auto simp: key_name_def)
  next
    case (Inr k')
    from check_key_cases [OF this] Inr Some letter other show ?thesis by (auto simp: key_name_def)
  qed
qed (simp add: key_name_def parse_key_def)

text \<open>C38: a key is written the way it is read: every name the file or the screen shows for a key that may
  open the popup, or for none, is read back as that key, and the name shown for any other byte is not.\<close>

theorem keys_print_and_parse_alike:
  "(case k of None \<Rightarrow> True | Some b \<Rightarrow> is_ok (check_key b)) = (parse_key (key_name k) = Inr k)"
  by (rule keys_read_back)

lemma as_strs_map: "as_strs (map IStr l) = Some l"
  by (induction l) (simp_all add: as_strs_def)

lemma duration_roundtrip:
  assumes "valid_value (ShapeDuration mn mx off whole) (VDuration d)" "durations_read_back ext" "mx \<le> from_secs 600"
  shows "parse_item ext (ShapeDuration mn mx off whole) (to_toml ext (VDuration d)) = Inr (VDuration d)"
  using assms
  by (cases d) (auto simp: durations_read_back_def parse_item_def parse_text_def to_toml_def parse_duration_def)

lemma key_roundtrip:
  assumes "valid_value ShapeKey (VKey k)"
  shows "parse_item ext ShapeKey (to_toml ext (VKey k)) = Inr (VKey k)"
  using assms keys_read_back [of k]
  by (cases k) (simp_all add: parse_item_def parse_text_def to_toml_def key_name_def)

lemma servers_roundtrip:
  assumes "valid_value ShapeServers (VList l)"
  shows "parse_item ext ShapeServers (to_toml ext (VList l)) = Inr (VList l)"
proof -
  have "check_all check_server l = Inr ()" using assms by (simp add: check_all_ok_iff)
  with assms show ?thesis
    by (simp add: parse_item_def to_toml_def as_strs_map check_servers_def)
qed

lemma item_roundtrip:
  assumes "i < 13" "valid_value (sg_shape (SETTINGS ! i)) v" "durations_read_back ext"
  shows "parse_item ext (sg_shape (SETTINGS ! i)) (to_toml ext v) = Inr v"
proof -
  have mx: "\<forall>mn mx off whole. sg_shape (SETTINGS ! i) = ShapeDuration mn mx off whole \<longrightarrow> mx \<le> from_secs 600"
    using assms(1) unfolding less_13
    by (elim insertE emptyE; simp add: SETTINGS_def from_secs_def)
  show ?thesis
  proof (cases "sg_shape (SETTINGS ! i)")
    case ShapeKey
    with assms(2) key_roundtrip show ?thesis by (cases v) auto
  next
    case (ShapeDuration mn mx off whole)
    with assms(2,3) mx duration_roundtrip show ?thesis by (cases v) auto
  next
    case ShapeBool
    with assms(2) show ?thesis by (cases v) (simp_all add: parse_item_def to_toml_def)
  next
    case ShapeServers
    with assms(2) servers_roundtrip show ?thesis by (cases v) auto
  qed
qed

section \<open>What the file says\<close>

fun get_at :: "level \<Rightarrow> key_layers \<Rightarrow> setting_value option" where
  "get_at LevelGlobal l = kl_global l"
| "get_at LevelHost l = kl_host l"

lemma get_at_put: "get_at lv' (at_put lv v l) = (if lv' = lv then v else get_at lv' l)"
  by (cases lv; cases lv') simp_all

lemma at_put_default [simp]: "kl_default (at_put lv v l) = kl_default l"
  by (cases lv) simp_all

lemma wf_layers_at:
  "wf_layers ls \<longleftrightarrow> length ls = 13 \<and> (\<forall>i<13. kl_default (ls ! i) = default_value (SETTINGS ! i)
     \<and> (\<forall>lv v. get_at lv (ls ! i) = Some v \<longrightarrow> valid_value (sg_shape (SETTINGS ! i)) v))"
proof -
  have "(\<forall>lv v. get_at lv l = Some v \<longrightarrow> P v)
      \<longleftrightarrow> (\<forall>v. kl_global l = Some v \<longrightarrow> P v) \<and> (\<forall>v. kl_host l = Some v \<longrightarrow> P v)" for l P
    by (auto elim: get_at.elims) (metis get_at.simps)+
  then show ?thesis by (simp only: wf_layers_def)
qed

definition table_of :: "item option \<Rightarrow> toml_table" where
  "table_of it = (case it of Some (ITable t) \<Rightarrow> t | _ \<Rightarrow> [])"

definition file_section :: "ustr \<Rightarrow> toml_table \<Rightarrow> level \<Rightarrow> toml_table" where
  "file_section target doc lv =
    (case lv of
       LevelGlobal \<Rightarrow> doc
     | LevelHost \<Rightarrow> table_of (map_of (table_of (map_of doc (str_of ''host''))) target))"

definition file_item :: "ustr \<Rightarrow> toml_table \<Rightarrow> level \<Rightarrow> nat \<Rightarrow> item option" where
  "file_item target doc lv i =
    map_of (table_of (map_of (file_section target doc lv) (sg_section (SETTINGS ! i)))) (sg_name (SETTINGS ! i))"

definition item_value :: "config_ext \<Rightarrow> nat \<Rightarrow> item \<Rightarrow> setting_value option" where
  "item_value ext i it = (case parse_item ext (sg_shape (SETTINGS ! i)) it of Inr v \<Rightarrow> Some v | Inl _ \<Rightarrow> None)"

text \<open>No table of a TOML document has a key twice.\<close>

definition doc_ok :: "ustr \<Rightarrow> toml_table \<Rightarrow> bool" where
  "doc_ok target doc \<longleftrightarrow> distinct (map fst doc)
    \<and> (\<forall>lv. distinct (map fst (file_section target doc lv))
        \<and> (\<forall>sec. distinct (map fst (table_of (map_of (file_section target doc lv) sec)))))
    \<and> distinct (map fst (table_of (map_of doc (str_of ''host''))))"

definition or_else :: "'a option \<Rightarrow> 'a option \<Rightarrow> 'a option" where
  "or_else a b = (case a of Some _ \<Rightarrow> a | None \<Rightarrow> b)"

lemma or_else_simps [simp]: "or_else None b = b" "or_else (Some x) b = Some x" "or_else a None = a"
  by (simp_all add: or_else_def split: option.split)

text \<open>Reading a table entry by entry: only the entry of the key looked for counts.\<close>

lemma fold_entries:
  assumes "distinct (map fst t)" and "I st"
    and "\<And>e st. e \<in> set t \<Longrightarrow> I st \<Longrightarrow>
      I (f e st) \<and> obs (f e st) = or_else (if fst e = key then h (snd e) else None) (obs st)"
  shows "I (fold f t st) \<and> obs (fold f t st) = or_else (Option.bind (map_of t key) h) (obs st)"
  using assms
proof (induction t arbitrary: st)
  case (Cons e t)
  have step: "I (f e st)" "obs (f e st) = or_else (if fst e = key then h (snd e) else None) (obs st)"
    using Cons.prems(2,3) by simp_all
  have "map_of t (fst e) = None"
    using Cons.prems(1) by (simp add: map_of_eq_None_iff)
  moreover have "I (fold f t (f e st)) \<and> obs (fold f t (f e st)) = or_else (Option.bind (map_of t key) h) (obs (f e st))"
    using Cons.prems(1,3) step(1) by (intro Cons.IH) simp_all
  ultimately show ?case
    using step by (auto simp: prod_eq_iff split: if_splits)
qed simp

lemma setting_position_Some:
  "setting_position P rs = Some i \<longleftrightarrow> i < length rs \<and> P (rs ! i) \<and> (\<forall>j<i. \<not> P (rs ! j))"
proof (induction rs arbitrary: i)
  case (Cons r rs)
  then show ?case by (cases i) (auto simp: less_Suc_eq_0_disj)
qed simp

lemma settings_distinct:
  assumes "i < 13" "j < 13" "sg_section (SETTINGS ! i) = sg_section (SETTINGS ! j)"
    "sg_name (SETTINGS ! i) = sg_name (SETTINGS ! j)"
  shows "i = j"
proof -
  have "distinct (map (\<lambda>r. (sg_section r, sg_name r)) SETTINGS)"
    by (simp add: SETTINGS_def str_of_def)
  with assms show ?thesis
    by (auto simp: distinct_conv_nth)
qed

lemma index_of_iff:
  assumes "i < 13"
  shows "index_of sec name = Some i \<longleftrightarrow> sec = sg_section (SETTINGS ! i) \<and> name = sg_name (SETTINGS ! i)"
proof -
  have "j = i" if "j < i" "sg_section (SETTINGS ! j) = sg_section (SETTINGS ! i)"
      "sg_name (SETTINGS ! j) = sg_name (SETTINGS ! i)" for j
    using settings_distinct [of j i] that assms by simp
  then show ?thesis
    using assms by (auto simp: index_of_def setting_position_Some)
qed

lemma index_of_less: "index_of sec name = Some i \<Longrightarrow> i < 13"
  by (simp add: index_of_def setting_position_Some)

definition keeps_defaults :: "layers \<times> warning list \<Rightarrow> bool" where
  "keeps_defaults st \<longleftrightarrow> length (fst st) = 13 \<and> (\<forall>i<13. kl_default (fst st ! i) = default_value (SETTINGS ! i))"

definition read_at :: "level \<Rightarrow> nat \<Rightarrow> layers \<times> warning list \<Rightarrow> setting_value option" where
  "read_at lv i st = get_at lv (fst st ! i)"

lemma read_setting_step:
  assumes "keeps_defaults st" "i < 13"
  shows "keeps_defaults (read_setting ext lv sec e st)
    \<and> read_at lv' i (read_setting ext lv sec e st)
      = or_else (if fst e = sg_name (SETTINGS ! i)
                 then (if lv' = lv \<and> sec = sg_section (SETTINGS ! i) then item_value ext i (snd e) else None)
                 else None) (read_at lv' i st)"
proof (cases "index_of sec (fst e)")
  case None
  then show ?thesis
    using assms index_of_iff [OF assms(2), of sec "fst e"]
    by (auto simp: read_setting_def read_at_def keeps_defaults_def split: prod.splits)
next
  case (Some j)
  note j = index_of_less [OF Some]
  have ji: "j = i \<longleftrightarrow> sec = sg_section (SETTINGS ! i) \<and> fst e = sg_name (SETTINGS ! i)"
    using index_of_iff [OF assms(2), of sec "fst e"] Some by auto
  show ?thesis
    using assms j ji Some
    by (cases "parse_item ext (sg_shape (SETTINGS ! j)) (snd e)"; cases "j = i")
      (auto simp: read_setting_def read_at_def keeps_defaults_def item_value_def nth_list_update get_at_put
        split: prod.splits)
qed

lemma read_section_step:
  assumes "keeps_defaults st" "i < 13" "distinct (map fst (table_of (Some (snd e))))"
  shows "keeps_defaults (read_section ext lv e st)
    \<and> read_at lv' i (read_section ext lv e st)
      = or_else (if fst e = sg_section (SETTINGS ! i)
                 then (if lv' = lv then Option.bind (map_of (table_of (Some (snd e))) (sg_name (SETTINGS ! i))) (item_value ext i) else None)
                 else None) (read_at lv' i st)"
proof -
  obtain sec it where e: "e = (sec, it)" by fastforce
  have known: "list_ex (\<lambda>r. sg_section r = sg_section (SETTINGS ! i)) SETTINGS"
    using assms(2) by (auto simp: list_ex_iff intro!: bexI [of _ "SETTINGS ! i"])
  show ?thesis
  proof (cases "\<exists>t. it = ITable t \<and> list_ex (\<lambda>r. sg_section r = sec) SETTINGS")
    case True
    then obtain t where t: "it = ITable t" "list_ex (\<lambda>r. sg_section r = sec) SETTINGS" by blast
    have "distinct (map fst t)" using assms(3) e t by (simp add: table_of_def)
    from fold_entries [where obs = "read_at lv' i" and I = keeps_defaults and f = "read_setting ext lv sec"
        and key = "sg_name (SETTINGS ! i)"
        and h = "\<lambda>it. if lv' = lv \<and> sec = sg_section (SETTINGS ! i) then item_value ext i it else None",
        OF this assms(1) read_setting_step [OF _ assms(2)]]
    show ?thesis using t e
      by (cases st; cases "map_of t (sg_name (SETTINGS ! i))") (auto simp: read_section_def table_of_def)
  next
    case False
    with known assms(1) e show ?thesis
      by (cases st) (auto simp: read_section_def table_of_def read_at_def keeps_defaults_def split: item.splits)
  qed
qed

lemma in_table: "distinct (map fst t) \<Longrightarrow> e \<in> set t \<Longrightarrow> map_of t (fst e) = Some (snd e)"
  by (metis map_of_is_SomeI prod.collapse)

lemma read_sections_step:
  assumes "keeps_defaults st" "i < 13" "distinct (map fst t)"
    and "\<And>sec. distinct (map fst (table_of (map_of t sec)))"
  shows "keeps_defaults (fold (read_section ext lv) t st)
    \<and> read_at lv' i (fold (read_section ext lv) t st)
      = or_else (if lv' = lv then Option.bind (map_of (table_of (map_of t (sg_section (SETTINGS ! i)))) (sg_name (SETTINGS ! i)))
          (item_value ext i) else None) (read_at lv' i st)"
proof -
  have d: "distinct (map fst (table_of (Some (snd e))))" if "e \<in> set t" for e
    using assms(4) [of "fst e"] in_table [OF assms(3) that] by simp
  from fold_entries [where obs = "read_at lv' i" and I = keeps_defaults and f = "read_section ext lv"
      and key = "sg_section (SETTINGS ! i)"
      and h = "\<lambda>it. if lv' = lv then Option.bind (map_of (table_of (Some it)) (sg_name (SETTINGS ! i))) (item_value ext i) else None",
      OF assms(3,1) read_section_step [OF _ assms(2) d]]
  show ?thesis
    by (cases "map_of t (sg_section (SETTINGS ! i))") (auto simp: table_of_def)
qed

lemma host_no_section: "sec \<in> sg_section ` set SETTINGS \<Longrightarrow> sec \<noteq> str_of ''host''"
  by (auto simp: SETTINGS_def str_of_def)

lemma section_not_host: "i < 13 \<Longrightarrow> sg_section (SETTINGS ! i) \<noteq> str_of ''host''"
  by (rule host_no_section) simp

lemma read_hosts_step:
  assumes "keeps_defaults st" "i < 13"
    and "distinct (map fst (table_of (map_of (table_of (Some it)) target)))"
    and "\<And>sec. distinct (map fst (table_of (map_of (table_of (map_of (table_of (Some it)) target)) sec)))"
  shows "keeps_defaults (read_hosts ext target it st)
    \<and> read_at lv' i (read_hosts ext target it st)
      = or_else (if lv' = LevelHost
          then Option.bind (map_of (table_of (map_of (table_of (map_of (table_of (Some it)) target))
            (sg_section (SETTINGS ! i)))) (sg_name (SETTINGS ! i))) (item_value ext i)
          else None) (read_at lv' i st)"
proof (cases "\<exists>hosts ours. it = ITable hosts \<and> map_of hosts target = Some (ITable ours)")
  case True
  then obtain hosts ours where h: "it = ITable hosts" "map_of hosts target = Some (ITable ours)" by blast
  with read_sections_step [OF assms(1,2), of ours ext LevelHost lv'] assms(3,4)
  show ?thesis by (cases st) (simp add: read_hosts_def table_of_def)
next
  case False
  with assms(1) show ?thesis
    by (cases st) (auto simp: read_hosts_def table_of_def read_at_def keeps_defaults_def split: item.splits option.splits)
qed

lemma read_document_at:
  assumes "keeps_defaults st" "i < 13" "doc_ok target doc"
  shows "keeps_defaults (read_document ext target doc st)
    \<and> read_at lv i (read_document ext target doc st)
      = or_else (Option.bind (file_item target doc lv i) (item_value ext i)) (read_at lv i st)"
proof -
  let ?host = "str_of ''host''"
  let ?f = "\<lambda>e. if fst e \<noteq> ?host then read_section ext LevelGlobal e else read_hosts ext target (snd e)"
  have dd: "distinct (map fst doc)" using assms(3) by (simp add: doc_ok_def)
  have ok: "distinct (map fst (table_of (Some (snd e))))" if "e \<in> set doc" for e
  proof -
    have "\<forall>sec. distinct (map fst (table_of (map_of (file_section target doc LevelGlobal) sec)))"
      using assms(3) unfolding doc_ok_def by blast
    then show ?thesis using in_table [OF dd that] by (metis file_section_def level.simps(3))
  qed
  have hok: "distinct (map fst (table_of (map_of (table_of (Some (snd e))) target)))"
    "distinct (map fst (table_of (map_of (table_of (map_of (table_of (Some (snd e))) target)) sec)))"
    if "e \<in> set doc" "fst e = ?host" for e sec
  proof -
    have "distinct (map fst (file_section target doc LevelHost))"
      "\<forall>sec. distinct (map fst (table_of (map_of (file_section target doc LevelHost) sec)))"
      using assms(3) unfolding doc_ok_def by blast+
    then show "distinct (map fst (table_of (map_of (table_of (Some (snd e))) target)))"
      "distinct (map fst (table_of (map_of (table_of (map_of (table_of (Some (snd e))) target)) sec)))"
      using in_table [OF dd that(1)] that(2) by (simp_all add: file_section_def)
  qed
  define key where "key = (if lv = LevelGlobal then sg_section (SETTINGS ! i) else ?host)"
  define h where "h = (\<lambda>it. if lv = LevelGlobal
      then Option.bind (map_of (table_of (Some it)) (sg_name (SETTINGS ! i))) (item_value ext i)
      else Option.bind (map_of (table_of (map_of (table_of (map_of (table_of (Some it)) target))
            (sg_section (SETTINGS ! i)))) (sg_name (SETTINGS ! i))) (item_value ext i))"
  have step: "keeps_defaults (?f e st) \<and> read_at lv i (?f e st) = or_else (if fst e = key then h (snd e) else None) (read_at lv i st)"
    if "e \<in> set doc" "keeps_defaults st" for e st
  proof (cases "fst e = ?host")
    case True
    with read_hosts_step [OF that(2) assms(2) hok [OF that(1) True], of ext lv] section_not_host [OF assms(2)]
    show ?thesis by (cases lv) (auto simp: key_def h_def)
  next
    case False
    with read_section_step [OF that(2) assms(2) ok [OF that(1)], of ext LevelGlobal lv]
    show ?thesis by (cases lv) (auto simp: key_def h_def)
  qed
  from fold_entries [where obs = "read_at lv i" and I = keeps_defaults and f = ?f and key = key and h = h,
      OF dd assms(1) step]
  show ?thesis
    by (cases lv; cases "map_of doc key")
      (simp_all add: read_document_def key_def h_def file_item_def file_section_def table_of_def)
qed

text \<open>So what is read is exactly what the file says, row by row and level by level.\<close>

lemma defaults_kept: "keeps_defaults (layers_defaults, ws)" "i < 13 \<Longrightarrow> read_at lv i (layers_defaults, ws) = None"
  by (simp add: keeps_defaults_def layers_defaults_def, cases lv) (simp_all add: layers_defaults_def read_at_def)

lemma read_layer:
  assumes "doc_ok target doc" "i < 13"
  shows "get_at lv (fst (read_document ext target doc (layers_defaults, [])) ! i)
    = Option.bind (file_item target doc lv i) (item_value ext i)"
  using read_document_at [OF defaults_kept(1) assms(2,1), where lv = lv and ext = ext and ws1 = "[]"] defaults_kept(2) [OF assms(2), of lv]
  by (simp add: read_at_def)

section \<open>The popup can be reached\<close>

lemma wf_put:
  assumes "wf_layers ls" "\<And>v. x = Some v \<Longrightarrow> valid_value (sg_shape (SETTINGS ! i)) v"
  shows "wf_layers (ls[i := at_put lv x (ls ! i)])"
  using assms by (cases "i < length ls") (auto simp: wf_layers_at nth_list_update get_at_put split: if_splits)

lemma wf_read_setting: "wf_layers (fst st) \<Longrightarrow> wf_layers (fst (read_setting ext lv sec e st))"
  by (auto simp: read_setting_def intro: wf_put parse_item_valid split: prod.splits option.splits sum.splits)

lemma wf_fold: "(\<And>e st. P (fst st) \<Longrightarrow> P (fst (f e st))) \<Longrightarrow> P (fst st) \<Longrightarrow> P (fst (fold f t st))"
  by (induction t arbitrary: st) simp_all

lemma wf_read_section: "wf_layers (fst st) \<Longrightarrow> wf_layers (fst (read_section ext lv e st))"
  using wf_fold [where P = wf_layers and f = "read_setting ext lv (fst e)", OF wf_read_setting]
  by (auto simp: read_section_def split: prod.splits item.splits)

lemma wf_read_hosts: "wf_layers (fst st) \<Longrightarrow> wf_layers (fst (read_hosts ext target it st))"
  using wf_fold [where P = wf_layers and f = "read_section ext LevelHost", OF wf_read_section]
  by (auto simp: read_hosts_def split: prod.splits item.splits option.splits)

lemma wf_read_document: "wf_layers (fst st) \<Longrightarrow> wf_layers (fst (read_document ext target doc st))"
  unfolding read_document_def
  by (rule wf_fold) (simp_all add: wf_read_section wf_read_hosts)

lemma wf_defaults: "wf_layers layers_defaults"
  by (simp add: wf_layers_def layers_defaults_def)

lemma AUTO_OPEN_row: "row_get AUTO_OPEN s = VDuration (st_auto_open_after s)"
  by (simp add: row_get_def AUTO_OPEN_def SETTINGS_def)

lemma keep_reachable:
  assumes "wf_layers ls"
  shows "wf_layers (fst (keep_the_popup_reachable ls ws))
    \<and> \<not> popup_unreachable (layers_settings (fst (keep_the_popup_reachable ls ws)))"
  using assms
proof (induction ls ws rule: keep_the_popup_reachable.induct)
  case (1 ls ws)
  have len: "AUTO_OPEN < length ls" using 1(2) by (simp add: wf_layers_def AUTO_OPEN_def)
  show ?case
  proof (cases "popup_unreachable (layers_settings ls)")
    case True
    have "row_get AUTO_OPEN (layers_settings ls) = snd (winner (ls ! AUTO_OPEN))"
      unfolding layers_settings_def using in_effect_row [OF 1(2) wf_pending_empty, of AUTO_OPEN]
      by (simp add: AUTO_OPEN_def shown_with_def bt_get_def split: prod.split)
    with True have "snd (winner (ls ! AUTO_OPEN)) = VDuration None"
      by (simp add: AUTO_OPEN_row popup_unreachable_def)
    moreover have "kl_default (ls ! AUTO_OPEN) = VDuration (Some AUTO_OPEN_AFTER)"
      using 1(2) by (simp add: wf_layers_def AUTO_OPEN_def default_value_def SETTINGS_def settings_default_def)
    ultimately obtain lv where lv: "origin_level (fst (winner (ls ! AUTO_OPEN))) = Some lv"
      by (auto simp: winner_def split: option.splits)
    with True len show ?thesis
      using 1(1) [OF _ lv len] wf_put [OF 1(2), of None AUTO_OPEN lv]
      by (simp add: keep_the_popup_reachable.simps [of ls])
  next
    case False
    with 1(2) show ?thesis by (simp add: keep_the_popup_reachable.simps [of ls])
  qed
qed

lemma keep_nothing: "\<not> popup_unreachable (layers_settings ls) \<Longrightarrow> keep_the_popup_reachable ls ws = (ls, ws)"
  by (simp add: keep_the_popup_reachable.simps)

lemma resolve_reachable:
  "wf_layers (rs_layers (resolve ext text target))"
  "\<not> popup_unreachable (layers_settings (rs_layers (resolve ext text target)))"
  "rs_settings (resolve ext text target) = layers_settings (rs_layers (resolve ext text target))"
proof -
  have wf: "wf_layers (fst (read_document ext target doc (layers_defaults, [])))" for doc
    using wf_read_document [of "(layers_defaults, [])"] wf_defaults by simp
  show "wf_layers (rs_layers (resolve ext text target))"
    "\<not> popup_unreachable (layers_settings (rs_layers (resolve ext text target)))"
    "rs_settings (resolve ext text target) = layers_settings (rs_layers (resolve ext text target))"
    using keep_reachable wf wf_defaults
    by (auto simp: resolve_def Let_def split: prod.splits option.splits sum.splits) (metis fst_conv)+
qed

lemma load_reachable: "\<not> popup_unreachable (rs_settings (load_config ext rd target))"
  using resolve_reachable
  by (simp add: load_config_def Let_def split: option.split file_read.split)

text \<open>The states of the config screen: a session's config as it connected, and every change and save
  since. The values it sets have been checked (\<open>parse_text\<close>, \<open>check_key\<close>, \<open>check_servers\<close>).\<close>

inductive config_reach :: "config_ext \<Rightarrow> config_state \<Rightarrow> bool" for ext where
  start: "config_reach ext (config_state_new dir target (load_config ext rd target))"
| set: "config_reach ext c \<Longrightarrow> i < 13 \<Longrightarrow> valid_value (sg_shape (SETTINGS ! i)) v
    \<Longrightarrow> config_reach ext (snd (config_set i v c))"
| reset: "config_reach ext c \<Longrightarrow> i < 13 \<Longrightarrow> config_reach ext (snd (config_reset i c))"
| save: "config_reach ext c \<Longrightarrow> config_reach ext (snd (config_save ext lv old writable c))"

definition config_inv :: "config_state \<Rightarrow> bool" where
  "config_inv c \<longleftrightarrow> wf_layers (cs_layers c) \<and> wf_pending (cs_pending c)
    \<and> (\<forall>i lv. bt_get (cs_pending c) i = Some (EditRemove lv)
          \<longrightarrow> origin_level (fst (winner (cs_layers c ! i))) = Some lv)
    \<and> \<not> popup_unreachable (cs_applied c) \<and> \<not> popup_unreachable (in_effect (cs_layers c) (cs_pending c))"

lemma load_layers: "rs_layers (load_config ext rd target) = rs_layers (resolve ext
    (case rd of Some (FileText t) \<Rightarrow> Some t | _ \<Rightarrow> None) target)"
  by (simp add: load_config_def Let_def split: option.split file_read.split)

lemma config_inv_new: "config_inv (config_state_new dir target (load_config ext rd target))"
  using resolve_reachable
  by (simp add: config_inv_def config_state_new_def load_layers wf_pending_empty bt_get_def layers_settings_def [symmetric])

lemma config_inv_commit:
  assumes "config_inv c" "wf_pending nxt"
    and "\<And>j lv. bt_get nxt j = Some (EditRemove lv) \<Longrightarrow> origin_level (fst (winner (cs_layers c ! j))) = Some lv"
  shows "config_inv (snd (config_commit i nxt c))"
  using assms by (simp add: config_commit_def config_inv_def Let_def)

lemma wf_pending_remove: "wf_pending p \<Longrightarrow> wf_pending (bt_remove i p)"
  by (auto simp: wf_pending_def bt_wf_remove bt_get_remove split: if_splits)

lemma wf_pending_insert:
  assumes "wf_pending p" "i < 13" "\<And>v. e = EditSet v \<Longrightarrow> valid_value (sg_shape (SETTINGS ! i)) v"
  shows "wf_pending (bt_insert i e p)"
  using assms by (auto simp: wf_pending_def bt_wf_insert bt_get_insert split: if_splits)

lemma config_inv_set:
  assumes "config_inv c" "i < 13" "valid_value (sg_shape (SETTINGS ! i)) v"
  shows "config_inv (snd (config_set i v c))"
proof -
  have p: "wf_pending (cs_pending c)"
    "\<And>i lv. bt_get (cs_pending c) i = Some (EditRemove lv) \<Longrightarrow> origin_level (fst (winner (cs_layers c ! i))) = Some lv"
    using assms(1) by (auto simp: config_inv_def)
  show ?thesis
    unfolding config_set_def Let_def
    by (rule config_inv_commit [OF assms(1)])
      (use p assms(2,3) in \<open>auto simp: bt_get_remove bt_get_insert intro: wf_pending_remove wf_pending_insert split: if_splits\<close>)
qed

lemma config_inv_reset:
  assumes "config_inv c" "i < 13"
  shows "config_inv (snd (config_reset i c))"
proof -
  have p: "wf_pending (cs_pending c)"
    "\<And>i lv. bt_get (cs_pending c) i = Some (EditRemove lv) \<Longrightarrow> origin_level (fst (winner (cs_layers c ! i))) = Some lv"
    using assms(1) by (auto simp: config_inv_def)
  have "config_inv (snd (config_commit i (bt_remove i (cs_pending c)) c))"
    by (rule config_inv_commit [OF assms(1)]) (use p in \<open>auto simp: bt_get_remove intro: wf_pending_remove split: if_splits\<close>)
  moreover have "config_inv (snd (config_commit i (bt_insert i (EditRemove lv) (cs_pending c)) c))"
    if "origin_level (fst (winner (cs_layers c ! i))) = Some lv" for lv
    by (rule config_inv_commit [OF assms(1)])
      (use p that assms(2) in \<open>auto simp: bt_get_insert intro: wf_pending_insert split: if_splits\<close>)
  ultimately show ?thesis
    using assms(1) by (auto simp: config_reset_def split: option.split)
qed

lemma config_inv_resolved:
  assumes "config_inv c" "r = resolve ext text target"
  shows "config_inv (c\<lparr>cs_layers := rs_layers r, cs_warnings := n, cs_pending := []\<rparr>)"
  using assms resolve_reachable
  by (simp add: config_inv_def wf_pending_empty bt_get_def layers_settings_def [symmetric])

lemma config_inv_save: "config_inv c \<Longrightarrow> config_inv (snd (config_save ext lv old writable c))"
  by (simp add: config_save_def config_inv_resolved Let_def split: sum.split)

lemma config_reach_inv: "config_reach ext c \<Longrightarrow> config_inv c"
  by (induction rule: config_reach.induct)
    (simp_all add: config_inv_new config_inv_set config_inv_reset config_inv_save)

text \<open>C15: the popup can always be reached. Whatever the config file holds, even one with both off, and whatever checked
  values are then set, reset and saved on the config screen, in whatever order and with whatever failures, neither
  the settings the session runs with nor those the screen shows ever have both the popup key and the opening by
  itself off. It says nothing of the file: one that has both off is read around, not mended.\<close>

theorem popup_stays_reachable:
  assumes "config_reach ext c"
  shows "\<not> popup_unreachable (cs_applied c) \<and> \<not> popup_unreachable (in_effect (cs_layers c) (cs_pending c))"
  using config_reach_inv [OF assms] by (simp add: config_inv_def)

section \<open>What a save writes\<close>

lemma map_of_tput: "map_of (tput k v t) = (map_of t)(k \<mapsto> v)"
  by (induction t) (auto simp: fun_eq_iff)

lemma map_of_tremove: "map_of (tremove k t) = (map_of t)(k := None)"
  by (induction t) (auto simp: tremove_def fun_eq_iff)

lemma tput_keys: "fst ` set (tput k v t) = insert k (fst ` set t)"
  by (induction t) auto

lemma distinct_tput: "distinct (map fst t) \<Longrightarrow> distinct (map fst (tput k v t))"
proof (induction t)
  case (Cons e t)
  then show ?case using tput_keys [of k v t] by auto
qed simp

lemma distinct_tremove: "distinct (map fst t) \<Longrightarrow> distinct (map fst (tremove k t))"
  by (simp add: tremove_def distinct_map_filter)

lemma table_of_simps [simp]: "table_of (Some (ITable t)) = t" "table_of None = []"
  by (simp_all add: table_of_def)

lemma table_in_Some: "table_in parent key create at = Inr (Some t) \<Longrightarrow> t = table_of (map_of parent key)"
  by (auto simp: table_in_def split: option.splits item.splits if_splits)

lemma table_in_None:
  "table_in parent key create at = Inr None \<Longrightarrow> \<not> create \<and> map_of parent key = None"
  by (auto simp: table_in_def split: option.splits item.splits if_splits)

fun change_item :: "config_ext \<Rightarrow> file_change \<Rightarrow> item option" where
  "change_item ext (ChangeWrite _ _ v) = Some (to_toml ext v)"
| "change_item ext (ChangeRemove _ _) = None"

lemma map_of_change_section:
  "change_place ch = (lv, i, write) \<Longrightarrow>
    map_of (change_section ext ch t) = (map_of t)(sg_name (SETTINGS ! i) := change_item ext ch)"
  by (cases ch) (simp_all add: map_of_tput map_of_tremove)

lemma distinct_change_section: "distinct (map fst t) \<Longrightarrow> distinct (map fst (change_section ext ch t))"
  by (cases ch) (simp_all add: distinct_tput distinct_tremove)

lemma change_read_only_removes: "change_place ch = (lv, i, False) \<Longrightarrow> change_item ext ch = None"
  by (cases ch) simp_all

definition host_tables :: "ustr \<Rightarrow> toml_table \<Rightarrow> toml_table" where
  "host_tables target doc = table_of (map_of (table_of (map_of doc (str_of ''host''))) target)"

text \<open>\<open>doc_ok\<close> and \<open>file_item\<close>, level by level.\<close>

definition sections_ok :: "toml_table \<Rightarrow> bool" where
  "sections_ok t \<longleftrightarrow> distinct (map fst t) \<and> (\<forall>sec. distinct (map fst (table_of (map_of t sec))))"

lemma doc_ok_iff: "doc_ok target doc \<longleftrightarrow> sections_ok doc \<and> sections_ok (host_tables target doc)"
proof -
  have all: "(\<forall>lv. P lv) \<longleftrightarrow> P LevelGlobal \<and> P LevelHost" for P
    by (metis level.exhaust)
  show ?thesis
    by (auto simp: doc_ok_def all file_section_def sections_ok_def host_tables_def)
qed

definition section_item :: "toml_table \<Rightarrow> nat \<Rightarrow> item option" where
  "section_item t i = map_of (table_of (map_of t (sg_section (SETTINGS ! i)))) (sg_name (SETTINGS ! i))"

lemma file_item_iff:
  "file_item target doc LevelGlobal i = section_item doc i"
  "file_item target doc LevelHost i = section_item (host_tables target doc) i"
  by (simp_all add: file_item_def file_section_def section_item_def host_tables_def)

lemma section_item_change:
  assumes "change_place ch = (lv, i, write)" "i < 13" "j < 13" "t = table_of (map_of T (sg_section (SETTINGS ! i)))"
  shows "section_item (tput (sg_section (SETTINGS ! i)) (ITable (change_section ext ch t)) T) j
    = (if j = i then change_item ext ch else section_item T j)"
  using assms settings_distinct [of j i]
  by (auto simp: section_item_def map_of_tput map_of_change_section)

lemma sections_ok_change:
  assumes "sections_ok T" "t = table_of (map_of T sec)"
  shows "sections_ok (tput sec (ITable (change_section ext ch t)) T)"
  using assms by (simp add: sections_ok_def map_of_tput distinct_tput distinct_change_section)

lemma other_key_put:
  assumes "k \<noteq> str_of ''host''"
  shows "host_tables target (tput k v doc) = host_tables target doc"
  using assms by (simp add: host_tables_def map_of_tput)

lemma host_put:
  "host_tables target (tput (str_of ''host'') (ITable (tput target (ITable ours) hosts)) doc) = ours"
  by (simp add: host_tables_def map_of_tput)

lemma section_item_host_put:
  "j < 13 \<Longrightarrow> map_of doc' = (map_of doc)(str_of ''host'' := x) \<Longrightarrow> section_item doc' j = section_item doc j"
  using section_not_host [of j] by (simp add: section_item_def)

lemma sections_ok_host_put:
  assumes "sections_ok doc" "distinct (map fst hosts)"
  shows "sections_ok (tput (str_of ''host'') (ITable hosts) doc)"
  using assms by (simp add: sections_ok_def map_of_tput distinct_tput)

lemma sections_ok_remove: "sections_ok t \<Longrightarrow> sections_ok (tremove k t)"
  by (simp add: sections_ok_def map_of_tremove distinct_tremove)

lemma sections_ok_table: "sections_ok doc \<Longrightarrow> distinct (map fst (table_of (map_of doc k)))"
  by (simp add: sections_ok_def)

definition pruned_section :: "ustr \<Rightarrow> toml_table \<Rightarrow> toml_table" where
  "pruned_section sec ours = (if is_empty_table (map_of ours sec) then tremove sec ours else ours)"

lemma pruned_section_item: "section_item (pruned_section sec ours) j = section_item ours j"
  by (auto simp: pruned_section_def section_item_def map_of_tremove is_empty_table_def)

lemma pruned_section_ok: "sections_ok ours \<Longrightarrow> sections_ok (pruned_section sec ours)"
  by (simp add: pruned_section_def sections_ok_remove)

definition pruned_hosts :: "ustr \<Rightarrow> ustr \<Rightarrow> toml_table \<Rightarrow> toml_table" where
  "pruned_hosts target sec hosts =
    (case map_of hosts target of
       Some (ITable ours) \<Rightarrow>
         if pruned_section sec ours = [] then tremove target hosts
         else tput target (ITable (pruned_section sec ours)) hosts
     | _ \<Rightarrow> hosts)"

lemma pruned_hosts_ok: "distinct (map fst hosts) \<Longrightarrow> distinct (map fst (pruned_hosts target sec hosts))"
  by (simp add: pruned_hosts_def distinct_tput distinct_tremove split: option.split item.split)

lemma pruned_hosts_table:
  "table_of (map_of (pruned_hosts target sec hosts) target) = pruned_section sec (table_of (map_of hosts target))"
proof -
  have "pruned_section sec [] = []" by (simp add: pruned_section_def tremove_def)
  then show ?thesis
    by (auto simp: pruned_hosts_def map_of_tput map_of_tremove table_of_def split: option.split item.split)
qed

lemma prune_cases:
  "prune target sec doc =
    (case map_of doc (str_of ''host'') of
       Some (ITable hosts) \<Rightarrow>
         if pruned_hosts target sec hosts = [] then tremove (str_of ''host'') doc
         else tput (str_of ''host'') (ITable (pruned_hosts target sec hosts)) doc
     | _ \<Rightarrow> doc)"
  by (simp add: prune_def pruned_hosts_def pruned_section_def Let_def split: option.split item.split)

lemma prune_keeps:
  assumes "doc_ok target doc"
  shows "doc_ok target (prune target sec doc)"
    and "j < 13 \<Longrightarrow> section_item (prune target sec doc) j = section_item doc j"
    and "section_item (host_tables target (prune target sec doc)) j = section_item (host_tables target doc) j"
proof -
  have ok: "sections_ok doc" "sections_ok (host_tables target doc)"
    using assms by (simp_all add: doc_ok_iff)
  show "j < 13 \<Longrightarrow> section_item (prune target sec doc) j = section_item doc j"
    by (auto simp: prune_cases map_of_tput map_of_tremove split: option.split item.split intro: section_item_host_put)
  have hosts: "host_tables target (prune target sec doc) = pruned_section sec (host_tables target doc)
      \<or> prune target sec doc = doc"
  proof (cases "\<exists>hosts. map_of doc (str_of ''host'') = Some (ITable hosts)")
    case True
    then obtain hosts where h: "map_of doc (str_of ''host'') = Some (ITable hosts)" by blast
    show ?thesis
      using pruned_hosts_table [of target sec hosts]
      by (auto simp: prune_cases h host_tables_def map_of_tput map_of_tremove)
  qed (auto simp: prune_cases split: option.split item.split)
  then show "section_item (host_tables target (prune target sec doc)) j = section_item (host_tables target doc) j"
    by (auto simp: pruned_section_item)
  have "sections_ok (prune target sec doc)"
    using ok(1) sections_ok_table [OF ok(1), of "str_of ''host''"]
    by (auto simp: prune_cases sections_ok_remove split: option.split item.split
        intro!: sections_ok_host_put pruned_hosts_ok)
  with hosts ok show "doc_ok target (prune target sec doc)"
    by (auto simp: doc_ok_iff pruned_section_ok)
qed

text \<open>The table a change leaves at its level, and where it is put.\<close>

definition changed_sections :: "config_ext \<Rightarrow> file_change \<Rightarrow> nat \<Rightarrow> toml_table \<Rightarrow> toml_table" where
  "changed_sections ext ch i T =
    (let sec = sg_section (SETTINGS ! i) in tput sec (ITable (change_section ext ch (table_of (map_of T sec)))) T)"

lemma apply_change_global:
  assumes "apply_change ext target ch doc = Inr doc'" "change_place ch = (LevelGlobal, i, write)"
  shows "doc' = doc \<and> \<not> write \<and> map_of doc (sg_section (SETTINGS ! i)) = None
    \<or> doc' = changed_sections ext ch i doc"
proof -
  from assms obtain sct where s: "table_in doc (sg_section (SETTINGS ! i)) write (sg_section (SETTINGS ! i)) = Inr sct"
    by (auto simp: apply_change_def Let_def res_simps)
  with assms show ?thesis
    by (cases sct) (auto simp: apply_change_def changed_sections_def Let_def dest: table_in_None table_in_Some)
qed

lemma apply_change_host:
  assumes "apply_change ext target ch doc = Inr doc'" "change_place ch = (LevelHost, i, write)"
  shows "doc' = doc \<and> \<not> write \<and> map_of (host_tables target doc) (sg_section (SETTINGS ! i)) = None
    \<or> (let d = tput (str_of ''host'') (ITable (tput target
          (ITable (changed_sections ext ch i (host_tables target doc))) (table_of (map_of doc (str_of ''host''))))) doc
       in doc' = (if write then d else prune target (sg_section (SETTINGS ! i)) d))"
proof -
  let ?sec = "sg_section (SETTINGS ! i)" and ?host = "str_of ''host''"
  from assms obtain hosts where h: "table_in doc ?host write ?host = Inr hosts"
    by (auto simp: apply_change_def Let_def res_simps)
  show ?thesis
  proof (cases hosts)
    case None
    with assms h table_in_None [OF h [unfolded None]] show ?thesis
      by (auto simp: apply_change_def host_tables_def)
  next
    case (Some hs)
    note hs = table_in_Some [OF h [unfolded Some]]
    from assms h Some obtain ours where o: "table_in hs target write target = Inr ours"
      by (auto simp: apply_change_def Let_def res_simps)
    show ?thesis
    proof (cases ours)
      case None
      with assms h Some o table_in_None [OF o [unfolded None]] hs show ?thesis
        by (auto simp: apply_change_def host_tables_def)
    next
      case (Some os)
      note os = table_in_Some [OF o [unfolded Some]]
      with assms h \<open>hosts = Some hs\<close> o Some obtain sct where s: "table_in os ?sec write ?sec = Inr sct"
        by (auto simp: apply_change_def Let_def res_simps)
      with assms h \<open>hosts = Some hs\<close> o Some os hs show ?thesis
        by (cases sct) (auto simp: apply_change_def host_tables_def changed_sections_def Let_def
            dest: table_in_None table_in_Some)
    qed
  qed
qed

lemma changed_sections_item:
  assumes "change_place ch = (lv, i, write)" "i < 13" "j < 13"
  shows "section_item (changed_sections ext ch i T) j = (if j = i then change_item ext ch else section_item T j)"
  unfolding changed_sections_def Let_def by (rule section_item_change [OF assms refl])

lemma changed_sections_ok: "sections_ok T \<Longrightarrow> sections_ok (changed_sections ext ch i T)"
  by (simp add: changed_sections_def Let_def sections_ok_change)

text \<open>A change changes what the file says in its own place, and nothing else.\<close>

definition changes_only :: "config_ext \<Rightarrow> ustr \<Rightarrow> file_change \<Rightarrow> level \<Rightarrow> nat \<Rightarrow> toml_table \<Rightarrow> toml_table \<Rightarrow> bool" where
  "changes_only ext target ch lv i doc doc' \<longleftrightarrow> doc_ok target doc'
    \<and> (\<forall>lv' j. j < 13 \<longrightarrow>
        file_item target doc' lv' j = (if lv' = lv \<and> j = i then change_item ext ch else file_item target doc lv' j))"

lemma changes_only_global:
  assumes "change_place ch = (LevelGlobal, i, write)" "i < 13" "doc_ok target doc"
  shows "changes_only ext target ch LevelGlobal i doc (changed_sections ext ch i doc)"
proof -
  have host: "host_tables target (changed_sections ext ch i doc) = host_tables target doc"
    using section_not_host [OF assms(2)] by (simp add: changed_sections_def Let_def other_key_put)
  have "file_item target (changed_sections ext ch i doc) lv' j
      = (if lv' = LevelGlobal \<and> j = i then change_item ext ch else file_item target doc lv' j)" if "j < 13" for lv' j
    using changed_sections_item [OF assms(1,2) that, of ext doc] by (cases lv') (simp_all add: file_item_iff host)
  with assms(3) host show ?thesis
    by (simp add: changes_only_def doc_ok_iff changed_sections_ok)
qed

lemma changes_only_host:
  assumes "change_place ch = (LevelHost, i, write)" "i < 13" "doc_ok target doc"
    and "d = tput (str_of ''host'') (ITable (tput target
          (ITable (changed_sections ext ch i (host_tables target doc))) (table_of (map_of doc (str_of ''host''))))) doc"
  shows "changes_only ext target ch LevelHost i doc d"
proof -
  have ok: "sections_ok doc" "sections_ok (host_tables target doc)"
    using assms(3) by (simp_all add: doc_ok_iff)
  have host: "host_tables target d = changed_sections ext ch i (host_tables target doc)"
    unfolding assms(4) by (rule host_put)
  have glob: "section_item d j = section_item doc j" if "j < 13" for j
    using that unfolding assms(4) by (rule section_item_host_put) (simp add: map_of_tput)
  have "file_item target d lv' j
      = (if lv' = LevelHost \<and> j = i then change_item ext ch else file_item target doc lv' j)" if "j < 13" for lv' j
    using changed_sections_item [OF assms(1,2) that, of ext "host_tables target doc"] glob [OF that]
    by (cases lv') (simp_all add: file_item_iff host)
  moreover have "sections_ok d"
    unfolding assms(4) using ok(1) sections_ok_table [OF ok(1)] by (intro sections_ok_host_put distinct_tput)
  ultimately show ?thesis
    using ok(2) by (simp add: changes_only_def doc_ok_iff host changed_sections_ok)
qed

lemma changes_only_prune:
  assumes "changes_only ext target ch lv i doc d"
  shows "changes_only ext target ch lv i doc (prune target sec d)"
proof -
  have "doc_ok target d" using assms by (simp add: changes_only_def)
  from prune_keeps [OF this, where sec = sec] have "file_item target (prune target sec d) lv' j = file_item target d lv' j"
    if "j < 13" for lv' j
    using that by (cases lv') (simp_all add: file_item_iff)
  with assms prune_keeps(1) [OF \<open>doc_ok target d\<close>] show ?thesis
    by (simp add: changes_only_def)
qed

lemma apply_change_only:
  assumes "apply_change ext target ch doc = Inr doc'" "change_place ch = (lv, i, write)" "i < 13" "doc_ok target doc"
  shows "changes_only ext target ch lv i doc doc'"
proof -
  have gone: "changes_only ext target ch lv i doc doc" if "\<not> write" "file_item target doc lv i = None"
    using assms(2,4) that change_read_only_removes [of ch lv i] by (auto simp: changes_only_def)
  show ?thesis
  proof (cases lv)
    case LevelGlobal
    with assms(2) have p: "change_place ch = (LevelGlobal, i, write)" by simp
    from apply_change_global [OF assms(1) p] show ?thesis
      using gone changes_only_global [OF p assms(3,4)] LevelGlobal
      by (auto simp: file_item_iff section_item_def)
  next
    case LevelHost
    with assms(2) have p: "change_place ch = (LevelHost, i, write)" by simp
    from apply_change_host [OF assms(1) p] show ?thesis
      using gone changes_only_host [OF p assms(3,4) refl, of ext] LevelHost
      by (auto simp: file_item_iff section_item_def Let_def intro: changes_only_prune)
  qed
qed

section \<open>A save shows what was shown\<close>

definition put_change :: "config_ext \<Rightarrow> file_change \<Rightarrow> (level \<times> nat \<Rightarrow> item option) \<Rightarrow> level \<times> nat \<Rightarrow> item option" where
  "put_change ext ch m = (let (lv, i, _) = change_place ch in m((lv, i) := change_item ext ch))"

lemma apply_changes:
  assumes "fold_res (apply_change ext target) chs doc = Inr doc'" "doc_ok target doc"
    and "\<And>ch. ch \<in> set chs \<Longrightarrow> fst (snd (change_place ch)) < 13"
    and "\<And>lv j. j < 13 \<Longrightarrow> m (lv, j) = file_item target doc lv j"
  shows "doc_ok target doc' \<and> (\<forall>lv j. j < 13 \<longrightarrow> file_item target doc' lv j = fold (put_change ext) chs m (lv, j))"
  using assms
proof (induction chs arbitrary: doc m)
  case (Cons ch chs)
  obtain lv i w where pl: "change_place ch = (lv, i, w)" by (metis prod_cases3)
  have i: "i < 13" using Cons.prems(3) [of ch] pl by simp
  from Cons.prems(1) obtain d where d: "apply_change ext target ch doc = Inr d"
    "fold_res (apply_change ext target) chs d = Inr doc'"
    by (auto simp: res_simps)
  from apply_change_only [OF d(1) pl i Cons.prems(2)]
  have "doc_ok target d" "\<And>lv j. j < 13 \<Longrightarrow> put_change ext ch m (lv, j) = file_item target d lv j"
    using Cons.prems(4) by (auto simp: changes_only_def put_change_def pl)
  from Cons.IH [OF d(2) this(1) _ this(2)] Cons.prems(3) show ?case by simp
qed simp

lemma edit_other:
  "j \<noteq> i \<Longrightarrow> fold (put_change ext) (edit_changes lv (i, e)) m (lv', j) = m (lv', j)"
  by (cases "(lv, (i, e))" rule: edit_changes.cases) (simp_all add: put_change_def)

lemma edit_row:
  assumes "bt_get p i = Some e" "distinct (map fst p)"
    and "\<And>lv'. n (lv', i) = m (lv', i)"
  shows "fold (put_change ext) (config_changes lv p) n (lv', i) = fold (put_change ext) (edit_changes lv (i, e)) m (lv', i)"
  using assms
proof (induction p arbitrary: n)
  case (Cons x p)
  obtain k f where x: "x = (k, f)" by fastforce
  show ?case
  proof (cases "k = i")
    case True
    with Cons.prems(1) x have "f = e" by (simp add: bt_get_def)
    have "fold (put_change ext) (config_changes lv p) n' (lv', i) = n' (lv', i)" for n'
      using Cons.prems(2) unfolding x True
    proof (induction p arbitrary: n')
      case (Cons y p)
      then show ?case by (cases y) (auto simp: config_changes_def edit_other)
    qed (simp add: config_changes_def)
    moreover have "fold (put_change ext) (edit_changes lv (i, e)) n (lv', i) = fold (put_change ext) (edit_changes lv (i, e)) m (lv', i)"
      using Cons.prems(3)
      by (cases "(lv, (i, e))" rule: edit_changes.cases) (auto simp: put_change_def)
    ultimately show ?thesis by (simp add: config_changes_def x True \<open>f = e\<close>)
  next
    case False
    with Cons.prems x have "bt_get p i = Some e" "distinct (map fst p)" by (simp_all add: bt_get_def)
    moreover have "fold (put_change ext) (edit_changes lv x) n (lv', i) = m (lv', i)" for lv'
      using Cons.prems(3) False x by (simp add: edit_other)
    ultimately have "fold (put_change ext) (config_changes lv p) (fold (put_change ext) (edit_changes lv x) n) (lv', i)
        = fold (put_change ext) (edit_changes lv (i, e)) m (lv', i)"
      by (rule Cons.IH)
    then show ?thesis by (simp add: config_changes_def)
  qed
qed (simp add: bt_get_def)

lemma no_edit_row:
  "bt_get p i = None \<Longrightarrow> fold (put_change ext) (config_changes lv p) n (lv', i) = n (lv', i)"
proof (induction p arbitrary: n)
  case (Cons x p)
  then show ?case by (cases x) (auto simp: config_changes_def bt_get_def edit_other split: if_splits)
qed (simp add: config_changes_def)

lemma item_value_to_toml:
  "i < 13 \<Longrightarrow> valid_value (sg_shape (SETTINGS ! i)) v \<Longrightarrow> durations_read_back ext
    \<Longrightarrow> item_value ext i (to_toml ext v) = Some v"
  by (simp add: item_value_def item_roundtrip)

text \<open>One row: what it shows after the save is what it showed with the change pending.\<close>

lemma row_saved:
  assumes "i < 13" "durations_read_back ext"
    and "\<And>lv'. get_at lv' l = Option.bind (m (lv', i)) (item_value ext i)"
    and "\<And>lv'. get_at lv' l' = Option.bind (fold (put_change ext) (edit_changes lv (i, e)) m (lv', i)) (item_value ext i)"
    and "kl_default l' = kl_default l" "kl_default l = default_value (SETTINGS ! i)"
    and "\<And>v. e = EditSet v \<Longrightarrow> valid_value (sg_shape (SETTINGS ! i)) v"
    and "\<And>lr. e = EditRemove lr \<Longrightarrow> origin_level (fst (winner l)) = Some lr"
  shows "snd (winner l') = snd (shown_with l (Some e))"
proof -
  note g = assms(3) [of LevelGlobal] assms(3) [of LevelHost] assms(4) [of LevelGlobal] assms(4) [of LevelHost]
  note rt = item_value_to_toml [OF assms(1) _ assms(2)]
  show ?thesis
  proof (cases e)
    case (EditSet v)
    with g rt [OF assms(7) [OF EditSet]] show ?thesis
      by (cases lv) (simp_all add: put_change_def winner_def shown_with_def)
  next
    case (EditRemove lr)
    note org = assms(8) [OF EditRemove]
    note dv = rt [OF default_valid [OF assms(1)]]
    show ?thesis
      using g EditRemove org dv assms(5,6)
      by (cases lv; cases lr)
        (auto simp: put_change_def winner_def shown_with_def without_level_def split: option.splits)
  qed
qed

lemma shown_none [simp]: "snd (shown_with l None) = snd (winner l)" "bt_get [] i = None"
  by (simp_all add: shown_with_def bt_get_def split: prod.split)

lemma key_layers_at:
  assumes "\<And>lv. get_at lv l = get_at lv l'" "kl_default l = kl_default l'"
  shows "l = (l' :: key_layers)"
  using assms(1) [of LevelGlobal] assms(1) [of LevelHost] assms(2)
  by (intro key_layers.equality) simp_all

lemma edit_changes_place: "ch \<in> set (edit_changes lv (i, e)) \<Longrightarrow> fst (snd (change_place ch)) = i"
  by (cases "(lv, (i, e))" rule: edit_changes.cases) auto

lemma wf_pending_changes:
  assumes "wf_pending p" "ch \<in> set (config_changes lv p)"
  shows "fst (snd (change_place ch)) < 13"
proof -
  from assms(2) obtain i e where "(i, e) \<in> set p" "ch \<in> set (edit_changes lv (i, e))"
    by (auto simp: config_changes_def)
  with assms(1) show ?thesis
    by (auto simp: wf_pending_def bt_get_iff edit_changes_place)
qed

text \<open>What the saver relies on in \<open>toml_edit\<close>: a document is read back as it was written.\<close>

definition toml_reads_back :: "config_ext \<Rightarrow> toml_table \<Rightarrow> bool" where
  "toml_reads_back ext d \<longleftrightarrow> ce_parse_toml ext (ce_print_toml ext d) = Inr d"

lemma saved_rows:
  assumes "config_inv c" "doc_ok (cs_target c) doc" "durations_read_back ext"
    and "cs_layers c = fst (read_document ext (cs_target c) doc (layers_defaults, []))"
    and "fold_res (apply_change ext (cs_target c)) (config_changes lv (cs_pending c)) doc = Inr d"
    and "ls = fst (read_document ext (cs_target c) d (layers_defaults, []))" and "i < 13"
  shows "snd (winner (ls ! i)) = snd (shown_with (cs_layers c ! i) (bt_get (cs_pending c) i))"
    and "bt_get (cs_pending c) i = None \<Longrightarrow> ls ! i = cs_layers c ! i"
proof -
  let ?p = "cs_pending c" and ?m = "\<lambda>(lv, j). file_item (cs_target c) doc lv j"
  have inv: "wf_layers (cs_layers c)" "wf_pending ?p"
    "\<And>lr. bt_get ?p i = Some (EditRemove lr) \<Longrightarrow> origin_level (fst (winner (cs_layers c ! i))) = Some lr"
    using assms(1) by (auto simp: config_inv_def)
  from apply_changes [OF assms(5,2) wf_pending_changes [OF inv(2)], where m = ?m]
  have d: "doc_ok (cs_target c) d"
    "\<And>lv'. file_item (cs_target c) d lv' i = fold (put_change ext) (config_changes lv ?p) ?m (lv', i)"
    using assms(7) by simp_all
  have old: "get_at lv' (cs_layers c ! i) = Option.bind (?m (lv', i)) (item_value ext i)" for lv'
    using read_layer [OF assms(2,7)] assms(4) by simp
  have new: "get_at lv' (ls ! i) = Option.bind (fold (put_change ext) (config_changes lv ?p) ?m (lv', i)) (item_value ext i)" for lv'
    using read_layer [OF d(1) assms(7)] assms(6) d(2) by simp
  have "wf_layers ls"
    using wf_read_document [of "(layers_defaults, [])"] wf_defaults assms(6) by simp
  with inv(1) assms(7) have dflt: "kl_default (ls ! i) = kl_default (cs_layers c ! i)"
    "kl_default (cs_layers c ! i) = default_value (SETTINGS ! i)" by (simp_all add: wf_layers_def)
  show same: "ls ! i = cs_layers c ! i" if "bt_get ?p i = None"
    using old new dflt(1) by (intro key_layers_at) (simp_all add: no_edit_row [OF that])
  show "snd (winner (ls ! i)) = snd (shown_with (cs_layers c ! i) (bt_get ?p i))"
  proof (cases "bt_get ?p i")
    case None
    with same show ?thesis by simp
  next
    case (Some e)
    have dist: "distinct (map fst ?p)" using inv(2) by (simp add: wf_pending_def bt_wf_distinct)
    have new': "get_at lv' (ls ! i) = Option.bind (fold (put_change ext) (edit_changes lv (i, e)) ?m (lv', i)) (item_value ext i)" for lv'
      using new [of lv'] edit_row [OF Some dist, of ?m ?m ext lv lv'] by simp
    have "snd (winner (ls ! i)) = snd (shown_with (cs_layers c ! i) (Some e))"
      by (rule row_saved [OF assms(7,3) old new' dflt]) (use Some inv in \<open>auto simp: wf_pending_def\<close>)
    with Some show ?thesis by simp
  qed
qed

text \<open>C16: a save keeps what the screen shows. When the file at the save still says exactly what the screen's layers
  hold -- it was not edited since, and the popup rule dropped none of its values when it was read, as it does where
  the file has the key and the opening by itself both off (\<open>dropped_layer_comes_back\<close>) -- a save at either
  level that succeeds leaves every row showing the value it showed with the changes pending, so what the next
  connect reads are exactly the settings the screen had; rows that were not changed keep every layer's
  value, nothing is left pending, and the running session's settings are not touched. Of the libraries it relies on
  the document and the durations being read back as they were written.\<close>

theorem save_keeps_what_is_shown:
  assumes "config_reach ext c" and "(case old of None \<Rightarrow> Inr [] | Some t \<Rightarrow> ce_parse_toml ext t) = Inr doc"
    and "doc_ok (cs_target c) doc"
    and "cs_layers c = fst (read_document ext (cs_target c) doc (layers_defaults, []))"
    and "durations_read_back ext" and "\<And>d. fold_res (apply_change ext (cs_target c)) (config_changes lv (cs_pending c)) doc = Inr d
      \<Longrightarrow> toml_reads_back ext d"
    and "config_save ext lv old writable c = (Inr ws, c')"
  shows "layers_settings (cs_layers c') = in_effect (cs_layers c) (cs_pending c)
    \<and> (\<forall>i<13. fst (snd (row_shown c' i)) = fst (snd (row_shown c i))
        \<and> (bt_get (cs_pending c) i = None \<longrightarrow> cs_layers c' ! i = cs_layers c ! i))
    \<and> cs_pending c' = [] \<and> cs_applied c' = cs_applied c"
proof -
  note inv = config_reach_inv [OF assms(1)]
  have old: "(case old of None \<Rightarrow> Inr [] | Some t \<Rightarrow> map_sum NotToml id (ce_parse_toml ext t)) = Inr doc"
    using assms(2) by (cases old) simp_all
  obtain t where t: "save_text ext (cs_target c) lv (cs_pending c) old writable = Inr t"
    "c' = c\<lparr>cs_layers := rs_layers (resolve ext (Some t) (cs_target c)),
        cs_warnings := length (rs_warnings (resolve ext (Some t) (cs_target c))), cs_pending := []\<rparr>"
    using assms(7) by (auto simp: config_save_def Let_def split: if_splits sum.splits)
  then obtain d where d: "fold_res (apply_change ext (cs_target c)) (config_changes lv (cs_pending c)) doc = Inr d"
    "t = ce_print_toml ext d"
    by (auto simp: save_text_def old res_simps split: if_splits)
  define ls where "ls = fst (read_document ext (cs_target c) d (layers_defaults, []))"
  note rows = saved_rows [OF inv assms(3,5,4) d(1) ls_def]
  have wf: "wf_layers ls" "wf_layers (cs_layers c)" "wf_pending (cs_pending c)"
    using wf_read_document [of "(layers_defaults, [])"] wf_defaults inv by (simp_all add: ls_def config_inv_def)
  have eff: "layers_settings ls = in_effect (cs_layers c) (cs_pending c)"
    unfolding layers_settings_def
    by (rule settings_rows)
      (use rows wf wf_pending_empty in \<open>simp add: in_effect_row\<close>)
  have "\<not> popup_unreachable (layers_settings ls)"
    using inv by (simp add: eff config_inv_def)
  moreover have "ce_parse_toml ext t = Inr d"
    using assms(6) [OF d(1)] d(2) by (simp add: toml_reads_back_def)
  ultimately have "rs_layers (resolve ext (Some t) (cs_target c)) = ls"
    by (cases "read_document ext (cs_target c) d (layers_defaults, [])")
      (simp add: resolve_def keep_nothing ls_def)
  with t(2) have c': "cs_layers c' = ls" "cs_pending c' = []" "cs_applied c' = cs_applied c" by simp_all
  moreover have "fst (snd (row_shown c' i)) = fst (snd (row_shown c i))" if "i < 13" for i
    using rows(1) [OF that]
    by (simp add: row_shown_def c' Let_def split: prod.split) (metis shown_none(1) snd_conv)
  ultimately show ?thesis using eff rows(2) by simp
qed

text \<open>A file that sets the popup's key, and the splash turned off on the screen.\<close>

definition sample_doc :: toml_table where
  "sample_doc = [(str_of ''popup'', ITable [(str_of ''key'', IStr (str_of ''ctrl-a''))])]"

definition saved_doc :: toml_table where
  "saved_doc = [(str_of ''popup'', ITable [(str_of ''key'', IStr (str_of ''ctrl-a'')),
    (str_of ''splash'', IBool False)])]"

definition sample_ext :: config_ext where
  "sample_ext = \<lparr>ce_parse_duration = (\<lambda>t. case t of [d] \<Rightarrow> Some (int d) | _ \<Rightarrow> None), ce_show_duration = (\<lambda>d. [d]),
    ce_parse_toml = (\<lambda>t. if t = [7] then Inr sample_doc else Inr saved_doc), ce_print_toml = (\<lambda>d. [2])\<rparr>"

definition sample_config :: config_state where
  "sample_config = snd (config_set 3 (VBool False)
    (config_state_new (Some []) [] (load_config sample_ext (Some (FileText [7])) [])))"

lemma sample_reach: "config_reach sample_ext sample_config"
  unfolding sample_config_def
  by (intro config_reach.set config_reach.start) (simp_all add: SETTINGS_def)

text \<open>The popup's key stays on.\<close>

theorem popup_stays_reachable_witness:
  "\<not> popup_unreachable (cs_applied sample_config)
    \<and> \<not> popup_unreachable (in_effect (cs_layers sample_config) (cs_pending sample_config))"
  using popup_stays_reachable [OF sample_reach] .

lemma key_on:
  assumes "wf_layers ls" "wf_pending p" "snd (shown_with (ls ! 0) (bt_get p 0)) = VKey (Some k)"
  shows "\<not> popup_unreachable (in_effect ls p)"
  using in_effect_row [OF assms(1,2), of 0] assms(3)
  by (simp add: popup_unreachable_def row_get_def SETTINGS_def)

definition sample_layers :: layers where
  "sample_layers = layers_defaults[0 := at_put LevelGlobal (Some (VKey (Some 1))) (layers_defaults ! 0)]"

lemma sample_read: "read_document sample_ext [] sample_doc (layers_defaults, []) = (sample_layers, [])"
proof -
  have i: "index_of (str_of ''popup'') (str_of ''key'') = Some 0"
    using index_of_iff [of 0 "str_of ''popup''" "str_of ''key''"] by (simp add: SETTINGS_def)
  have p: "parse_item sample_ext (sg_shape (SETTINGS ! 0)) (IStr (str_of ''ctrl-a'')) = Inr (VKey (Some 1))"
    by (simp add: SETTINGS_def parse_item_def parse_text_def parse_key_def str_of_def ascii_lowercase_def check_key_def)
  have s: "list_ex (\<lambda>r. sg_section r = str_of ''popup'') SETTINGS" by (simp add: SETTINGS_def)
  have h: "str_of ''popup'' \<noteq> str_of ''host''" by (simp add: str_of_def)
  show ?thesis
    by (simp add: read_document_def sample_doc_def read_section_def read_setting_def sample_layers_def i p s h)
qed

lemma sample_wf: "wf_layers sample_layers"
  using wf_read_document [of "(layers_defaults, [])" sample_ext "[]" sample_doc] wf_defaults by (simp add: sample_read)

lemma sample_key: "snd (winner (sample_layers ! 0)) = VKey (Some 1)"
  by (simp add: sample_layers_def winner_def layers_defaults_def)

lemma sample_config_eq:
  "cs_target sample_config = []" "cs_dir sample_config = Some []"
  "cs_pending sample_config = [(3, EditSet (VBool False))]" "cs_layers sample_config = sample_layers"
proof -
  have on: "\<not> popup_unreachable (layers_settings sample_layers)"
    unfolding layers_settings_def by (rule key_on [OF sample_wf wf_pending_empty]) (simp add: sample_key)
  have ld: "rs_layers (load_config sample_ext (Some (FileText [7])) []) = sample_layers"
    by (simp add: load_config_def resolve_def sample_ext_def [THEN arg_cong [where f = ce_parse_toml]] sample_read keep_nothing on)
  have w3: "snd (winner (sample_layers ! 3)) = VBool True"
    by (simp add: sample_layers_def layers_defaults_def winner_def default_value_def SETTINGS_def settings_default_def Let_def)
  have p: "wf_pending [(3, EditSet (VBool False))]"
    by (auto simp: wf_pending_def bt_get_def SETTINGS_def)
  have e: "\<not> popup_unreachable (in_effect sample_layers [(3, EditSet (VBool False))])"
    by (rule key_on [OF sample_wf p]) (simp add: bt_get_def sample_key)
  have s: "\<not> popup_unreachable (row_set 3 v (layers_settings sample_layers))" for v
    using on by (simp add: popup_unreachable_def row_set_def SETTINGS_def split: setting_value.split)
  show "cs_target sample_config = []" "cs_dir sample_config = Some []"
    "cs_pending sample_config = [(3, EditSet (VBool False))]" "cs_layers sample_config = sample_layers"
    using e s w3
    by (simp_all add: sample_config_def config_set_def config_commit_def config_state_new_def ld row_set_def Let_def)
qed

lemma sample_change:
  "fold_res (apply_change sample_ext []) (config_changes LevelGlobal [(3, EditSet (VBool False))]) sample_doc = Inr saved_doc"
  by (simp add: config_changes_def apply_change_def Let_def SETTINGS_def table_in_def sample_doc_def saved_doc_def
      to_toml_def str_of_def)

text \<open>Turning the splash off for all hosts, in a file that sets the popup's key.\<close>

theorem save_keeps_what_is_shown_witness:
  "\<exists>ws c'. config_save sample_ext LevelGlobal (Some [7]) True sample_config = (Inr ws, c')
    \<and> layers_settings (cs_layers c') = in_effect (cs_layers sample_config) (cs_pending sample_config)"
proof -
  have t: "save_text sample_ext [] LevelGlobal [(3, EditSet (VBool False))] (Some [7]) True = Inr [2]"
    using sample_change by (simp add: save_text_def) (simp add: sample_ext_def)
  obtain ws c' where s: "config_save sample_ext LevelGlobal (Some [7]) True sample_config = (Inr ws, c')"
    by (simp add: config_save_def sample_config_eq t Let_def)
  have "layers_settings (cs_layers c') = in_effect (cs_layers sample_config) (cs_pending sample_config)
    \<and> (\<forall>i<13. fst (snd (row_shown c' i)) = fst (snd (row_shown sample_config i))
        \<and> (bt_get (cs_pending sample_config) i = None \<longrightarrow> cs_layers c' ! i = cs_layers sample_config ! i))
    \<and> cs_pending c' = [] \<and> cs_applied c' = cs_applied sample_config"
    by (rule save_keeps_what_is_shown [OF sample_reach, where old = "Some [7]" and doc = sample_doc and lv = LevelGlobal
          and writable = True and ws = ws])
      (use s sample_read sample_change in \<open>auto simp: sample_config_eq doc_ok_iff sections_ok_def host_tables_def
        sample_doc_def durations_read_back_def toml_reads_back_def sample_ext_def str_of_def table_of_def split: if_splits\<close>)
  with s show ?thesis by blast
qed

section \<open>Settings stay in their ranges\<close>

definition settings_valid :: "settings \<Rightarrow> bool" where
  "settings_valid s \<longleftrightarrow> (\<forall>i<13. valid_value (sg_shape (SETTINGS ! i)) (row_get i s))"

lemma row_set_valid:
  assumes "settings_valid s" "i < 13" "valid_value (sg_shape (SETTINGS ! i)) v"
  shows "settings_valid (row_set i v s)"
  unfolding settings_valid_def
proof (intro allI impI)
  fix j :: nat
  assume "j < 13"
  with assms show "valid_value (sg_shape (SETTINGS ! j)) (row_get j (row_set i v s))"
    by (cases "j = i") (simp_all add: row_get_set row_get_set_other settings_valid_def)
qed

lemma in_effect_valid: "wf_layers ls \<Longrightarrow> wf_pending p \<Longrightarrow> settings_valid (in_effect ls p)"
  by (simp add: settings_valid_def in_effect_row shown_valid)

lemma commit_valid:
  assumes "config_inv c" "settings_valid (cs_applied c)" "wf_pending nxt" "i < 13"
  shows "settings_valid (cs_applied (snd (config_commit i nxt c)))"
proof -
  have "wf_layers (cs_layers c)" using assms(1) by (simp add: config_inv_def)
  from row_set_valid [OF assms(2,4) shown_valid [OF this assms(3,4)]] assms(2) show ?thesis
    by (simp add: config_commit_def row_set_def Let_def)
qed

lemma config_applied_valid: "config_reach ext c \<Longrightarrow> settings_valid (cs_applied c)"
proof (induction rule: config_reach.induct)
  case (start dir target rd)
  then show ?case
    using in_effect_valid [OF resolve_reachable(1) wf_pending_empty]
    by (simp add: config_state_new_def load_layers layers_settings_def)
next
  case (set c i v)
  then have "wf_pending (cs_pending c)" "config_inv c"
    using config_reach_inv [OF set(1)] by (simp_all add: config_inv_def)
  with set show ?case
    by (auto simp: config_set_def Let_def intro!: commit_valid wf_pending_remove wf_pending_insert)
next
  case (reset c i)
  then have "wf_pending (cs_pending c)" "config_inv c"
    using config_reach_inv [OF reset(1)] by (simp_all add: config_inv_def)
  with reset show ?case
    by (auto simp: config_reset_def intro!: commit_valid wf_pending_remove wf_pending_insert split: option.split)
next
  case (save c lv old writable)
  then show ?case by (simp add: config_save_def Let_def split: sum.split)
qed

text \<open>Without the condition on the layers a save may change a row that was not touched. The file turns both the popup
  key and the opening by itself off; the second is dropped when it is read, so the screen shows its default. Once a
  key is set and saved the dropped value is within the rule again, and the row shows off.\<close>

definition both_off :: toml_table where
  "both_off = [(str_of ''popup'', ITable [(str_of ''key'', IStr (str_of ''off'')), (str_of ''auto_open_after'', IStr (str_of ''off''))])]"

definition key_back :: toml_table where
  "key_back = [(str_of ''popup'', ITable [(str_of ''key'', IStr (str_of ''ctrl-a'')), (str_of ''auto_open_after'', IStr (str_of ''off''))])]"

definition off_ext :: config_ext where
  "off_ext = \<lparr>ce_parse_duration = (\<lambda>t. None), ce_show_duration = (\<lambda>d. []),
    ce_parse_toml = (\<lambda>t. if t = [7] then Inr both_off else Inr key_back), ce_print_toml = (\<lambda>d. [2])\<rparr>"

definition off_config :: config_state where
  "off_config = snd (config_set 0 (VKey (Some 1))
    (config_state_new (Some []) [] (load_config off_ext (Some (FileText [7])) [])))"

definition two_layers :: "u8 option \<Rightarrow> setting_value option \<Rightarrow> layers" where
  "two_layers k a = layers_defaults[0 := at_put LevelGlobal (Some (VKey k)) (layers_defaults ! 0),
    1 := at_put LevelGlobal a (layers_defaults ! 1)]"

lemma two_layers_read:
  "read_document off_ext [] both_off (layers_defaults, []) = (two_layers None (Some (VDuration None)), [])"
  "read_document off_ext [] key_back (layers_defaults, []) = (two_layers (Some 1) (Some (VDuration None)), [])"
proof -
  have i: "index_of (str_of ''popup'') (str_of ''key'') = Some 0" "index_of (str_of ''popup'') (str_of ''auto_open_after'') = Some 1"
    using index_of_iff [of 0 "str_of ''popup''" "str_of ''key''"] index_of_iff [of 1 "str_of ''popup''" "str_of ''auto_open_after''"]
    by (simp_all add: SETTINGS_def)
  have p: "parse_item off_ext (sg_shape (SETTINGS ! 0)) (IStr (str_of ''off'')) = Inr (VKey None)"
    "parse_item off_ext (sg_shape (SETTINGS ! 0)) (IStr (str_of ''ctrl-a'')) = Inr (VKey (Some 1))"
    "parse_item off_ext (sg_shape (SETTINGS ! 1)) (IStr (str_of ''off'')) = Inr (VDuration None)"
    by (simp_all add: SETTINGS_def parse_item_def parse_text_def parse_key_def parse_duration_def str_of_def ascii_lowercase_def check_key_def)
  have s: "list_ex (\<lambda>r. sg_section r = str_of ''popup'') SETTINGS" by (simp add: SETTINGS_def)
  have h: "str_of ''popup'' \<noteq> str_of ''host''" by (simp add: str_of_def)
  show "read_document off_ext [] both_off (layers_defaults, []) = (two_layers None (Some (VDuration None)), [])"
    "read_document off_ext [] key_back (layers_defaults, []) = (two_layers (Some 1) (Some (VDuration None)), [])"
    using p by (simp_all add: read_document_def both_off_def key_back_def read_section_def read_setting_def two_layers_def i s h)
qed

lemma two_layers_wf:
  assumes "k \<in> {None, Some 1}" "a \<in> {None, Some (VDuration None)}"
  shows "wf_layers (two_layers k a)"
proof -
  have "valid_value (sg_shape (SETTINGS ! 0)) (VKey k)" "v = VDuration None \<Longrightarrow> valid_value (sg_shape (SETTINGS ! 1)) v" for v
    using assms(1) by (auto simp: SETTINGS_def check_key_def)
  then have v: "valid_value (sg_shape (SETTINGS ! 0)) (VKey k)" "\<And>v. a = Some v \<Longrightarrow> valid_value (sg_shape (SETTINGS ! 1)) v"
    using assms(2) by auto
  have "wf_layers (layers_defaults[0 := at_put LevelGlobal (Some (VKey k)) (layers_defaults ! 0)])"
    by (rule wf_put [OF wf_defaults]) (use v(1) in simp)
  from wf_put [OF this v(2), where lv = LevelGlobal] show ?thesis by (simp add: two_layers_def)
qed

lemma two_layers_winner:
  "snd (winner (two_layers k a ! 0)) = VKey k" "winner (two_layers k (Some v) ! Suc 0) = (OriginGlobal, v)"
  "snd (winner (two_layers k None ! Suc 0)) = VDuration (Some AUTO_OPEN_AFTER)"
  by (simp_all add: two_layers_def layers_defaults_def winner_def default_value_def SETTINGS_def settings_default_def Let_def)

lemma unreachable_rows:
  assumes "wf_layers ls" "wf_pending p"
  shows "popup_unreachable (in_effect ls p) \<longleftrightarrow> snd (shown_with (ls ! 0) (bt_get p 0)) = VKey None
    \<and> snd (shown_with (ls ! 1) (bt_get p 1)) = VDuration None"
  using in_effect_row [OF assms, of 0] in_effect_row [OF assms, of 1]
  by (auto simp: popup_unreachable_def row_get_def SETTINGS_def)

lemma two_layers_drop: "keep_the_popup_reachable (two_layers None (Some (VDuration None))) [] = (two_layers None None, [WarnUnreachable LevelGlobal])"
proof -
  let ?off = "two_layers None (Some (VDuration None))"
  have off: "popup_unreachable (layers_settings ?off)" "\<not> popup_unreachable (layers_settings (two_layers None None))"
    unfolding layers_settings_def
    by (simp_all add: unreachable_rows two_layers_wf wf_pending_empty two_layers_winner)
  have "?off[AUTO_OPEN := at_put LevelGlobal None (?off ! AUTO_OPEN)] = two_layers None None" "AUTO_OPEN < length ?off"
    by (simp_all add: AUTO_OPEN_def two_layers_def layers_defaults_def)
  with off show ?thesis
    by (simp add: keep_the_popup_reachable.simps [of ?off] two_layers_winner AUTO_OPEN_def) (simp add: keep_nothing)
qed

lemma off_config_eq:
  "cs_target off_config = []" "cs_dir off_config = Some []"
  "cs_pending off_config = [(0, EditSet (VKey (Some 1)))]" "cs_layers off_config = two_layers None None"
proof -
  have ld: "rs_layers (load_config off_ext (Some (FileText [7])) []) = two_layers None None"
    by (simp add: load_config_def resolve_def off_ext_def [THEN arg_cong [where f = ce_parse_toml]] two_layers_read two_layers_drop)
  have p: "wf_pending [(0, EditSet (VKey (Some 1)))]"
    by (auto simp: wf_pending_def bt_get_def SETTINGS_def check_key_def)
  have e: "\<not> popup_unreachable (in_effect (two_layers None None) [(0, EditSet (VKey (Some 1)))])"
    by (simp add: unreachable_rows two_layers_wf p) (simp add: bt_get_def shown_with_def)
  have st: "\<not> popup_unreachable (sg_set (SETTINGS ! 0) (VKey (Some 1)) st)" for st
    by (simp add: popup_unreachable_def SETTINGS_def)
  show "cs_target off_config = []" "cs_dir off_config = Some []"
    "cs_pending off_config = [(0, EditSet (VKey (Some 1)))]" "cs_layers off_config = two_layers None None"
    using e st
    by (simp_all add: off_config_def config_set_def config_commit_def config_state_new_def ld two_layers_winner Let_def
        bt_get_def shown_with_def)
qed

lemma dropped_layer_comes_back:
  "fst (snd (row_shown off_config 1)) = VDuration (Some AUTO_OPEN_AFTER)
    \<and> fst (snd (row_shown (snd (config_save off_ext LevelGlobal (Some [7]) True off_config)) 1)) = VDuration None"
proof -
  have ch: "fold_res (apply_change off_ext []) (config_changes LevelGlobal [(0, EditSet (VKey (Some 1)))]) both_off = Inr key_back"
    by (simp add: config_changes_def apply_change_def Let_def SETTINGS_def table_in_def both_off_def key_back_def
        to_toml_def key_name_def str_of_def)
  then have t: "save_text off_ext [] LevelGlobal [(0, EditSet (VKey (Some 1)))] (Some [7]) True = Inr [2]"
    by (simp add: save_text_def) (simp add: off_ext_def)
  have "\<not> popup_unreachable (layers_settings (two_layers (Some 1) (Some (VDuration None))))"
    unfolding layers_settings_def by (simp add: unreachable_rows two_layers_wf wf_pending_empty two_layers_winner)
  then have "rs_layers (resolve off_ext (Some [2]) []) = two_layers (Some 1) (Some (VDuration None))"
    by (simp add: resolve_def off_ext_def [THEN arg_cong [where f = ce_parse_toml]] two_layers_read keep_nothing)
  then have s: "cs_layers (snd (config_save off_ext LevelGlobal (Some [7]) True off_config)) = two_layers (Some 1) (Some (VDuration None))"
    "cs_pending (snd (config_save off_ext LevelGlobal (Some [7]) True off_config)) = []"
    by (simp_all add: config_save_def off_config_eq t Let_def)
  show ?thesis
    by (simp add: row_shown_def s off_config_eq Let_def case_prod_beta two_layers_winner) (simp add: bt_get_def two_layers_winner)
qed

end
