(* ===== verification/Ui_Popup.thy ===== *)
theory Ui_Popup
  imports Ui_Selector Config
begin

text \<open>
  The popup of \<open>src/ui.rs\<close>: which keys are the host's, which are held, which are the popup's, and when
  the popup opens and closes by itself. The config screen, the selector and the question about held
  input are all reached through it.

  The lemmas show that with the popup closed every byte but the popup key goes on, in order, to the
  host or to the held input as the phase says, that nothing typed at a shown popup ever does but the
  doubled popup key, that held input is only sent or dropped by an answer given late enough to have
  been meant, and that a popup closed by hand stays closed for the rest of its outage.
\<close>

section \<open>State\<close>

datatype editing =
    EditingNone
  | EditingText
  | EditingCapture
  | EditingServers (ed_cursor: nat) (ed_field: bool)
  | EditingSave

definition takes_every_byte :: "editing \<Rightarrow> bool" where
  "takes_every_byte e \<longleftrightarrow>
    (case e of EditingText \<Rightarrow> True | EditingCapture \<Rightarrow> True | EditingServers _ f \<Rightarrow> f | _ \<Rightarrow> False)"

datatype mode =
    Closed
  | Open (mo_pressed: "instant option")
  | Auto
  | Lingering (mo_since: instant) (mo_outage: duration)
  | Config (mo_cursor: nat) (mo_editing: editing)
  | Sessions

datatype config_cmd =
    CmdEdit nat
  | CmdAccept nat ustr
  | CmdCapture nat "u8 option"
  | CmdServers nat "ustr list"
  | CmdReset nat
  | CmdSave level

datatype command = CmdQuit | SendHeld | DropHeld | CmdConfig config_cmd | CmdAsk ask

record routed =
  to_host :: bytes
  to_hold :: bytes
  command :: "command option"

definition routed_default :: routed where
  "routed_default = \<lparr>to_host = [], to_hold = [], command = None\<rparr>"

datatype link_change_ev = WentSilent | Back (back_outage: duration)

record ui =
  ui_mode :: mode
  ui_dismissed :: bool
  ui_outage_since :: "instant option"
  ui_last_outage :: duration
  ui_asked_at :: "instant option"
  ui_key :: "u8 option"
  ui_linger :: duration
  ui_auto_open_after :: "duration option"
  ui_config_decided :: bool
  ui_field :: field
  ui_servers :: "ustr list"
  ui_proposed :: "ustr list option"
  ui_note :: "ustr option"
  ui_selector :: selector
  ui_lobby :: bool
  ui_busy :: bool
  ui_pasting :: "nat option"

definition ui_new :: ui where
  "ui_new =
    \<lparr>ui_mode = Closed, ui_dismissed = False, ui_outage_since = None, ui_last_outage = 0, ui_asked_at = None,
     ui_key = Some PREFIX, ui_linger = LINGER, ui_auto_open_after = Some 0, ui_config_decided = False,
     ui_field = field_default, ui_servers = [], ui_proposed = None, ui_note = None,
     ui_selector = selector_default, ui_lobby = False, ui_busy = False, ui_pasting = None\<rparr>"

definition is_config :: "mode \<Rightarrow> bool" where
  "is_config m = (case m of Config _ _ \<Rightarrow> True | _ \<Rightarrow> False)"

definition set_switcher :: "bool \<Rightarrow> bool \<Rightarrow> ui \<Rightarrow> ui" where
  "set_switcher lobby busy u = u\<lparr>ui_lobby := lobby, ui_busy := busy\<rparr>"

definition leave_config :: "ui \<Rightarrow> ui" where
  "leave_config u =
    (if is_config (ui_mode u) then
       u\<lparr>ui_mode := Open None, ui_field := field_clear (ui_field u), ui_proposed := None, ui_note := None,
         ui_pasting := None\<rparr>
     else u)"

definition leave_sessions :: "ui \<Rightarrow> ui" where
  "leave_sessions u = (if ui_mode u = Sessions then u\<lparr>ui_mode := Open None\<rparr> else u)"

definition open_sessions :: "ui \<Rightarrow> ui" where
  "open_sessions u =
    (let u1 = leave_config u in u1\<lparr>ui_selector := sel_open (ui_selector u1), ui_mode := Sessions\<rparr>)"

definition close_popup :: "ui \<Rightarrow> ui" where
  "close_popup u = (leave_config u)\<lparr>ui_mode := Closed\<rparr>"

definition ui_retune :: "u8 option \<Rightarrow> duration \<Rightarrow> duration option \<Rightarrow> ui \<Rightarrow> ui" where
  "ui_retune key linger after u = u\<lparr>ui_key := key, ui_linger := linger, ui_auto_open_after := after\<rparr>"

definition auto_due :: "instant \<Rightarrow> instant \<Rightarrow> ui \<Rightarrow> bool" where
  "auto_due since now u \<longleftrightarrow>
    (case ui_auto_open_after u of Some after \<Rightarrow> duration_since now since \<ge> after | None \<Rightarrow> False)"

definition visible :: "phase \<Rightarrow> ui \<Rightarrow> bool" where
  "visible ph u \<longleftrightarrow> ui_mode u \<noteq> Closed \<or> ph = Confirming"

definition note_question :: "phase \<Rightarrow> instant \<Rightarrow> ui \<Rightarrow> ui" where
  "note_question ph now u =
    (if ph = Confirming then
       u\<lparr>ui_asked_at := Some (case ui_asked_at u of Some t \<Rightarrow> t | None \<Rightarrow> now)\<rparr>
     else u\<lparr>ui_asked_at := None\<rparr>)"

definition answerable :: "instant \<Rightarrow> ui \<Rightarrow> bool" where
  "answerable now u \<longleftrightarrow>
    (case ui_asked_at u of Some t \<Rightarrow> duration_since now t \<ge> ANSWER_GUARD | None \<Rightarrow> False)"

definition touch :: "ui \<Rightarrow> ui" where
  "touch u = (case ui_mode u of Auto \<Rightarrow> u\<lparr>ui_mode := Open None\<rparr> | Lingering _ _ \<Rightarrow> u\<lparr>ui_mode := Open None\<rparr> | _ \<Rightarrow> u)"

section \<open>A lap\<close>

text \<open>\<open>tick\<close>'s two halves: an outage's lap, and one with the link answering.\<close>

definition tick_outage :: "phase \<Rightarrow> instant \<Rightarrow> ui \<Rightarrow> link_change_ev option \<times> ui" where
  "tick_outage ph now u =
    (let (ch, u1) =
       (if ui_outage_since u = None then
          (Some WentSilent,
           u\<lparr>ui_outage_since := Some (case ph of Silent since \<Rightarrow> since | _ \<Rightarrow> now), ui_dismissed := False,
             ui_config_decided := False\<rparr>)
        else (None, u));
       due = (case ui_outage_since u1 of Some since \<Rightarrow> auto_due since now u1 | None \<Rightarrow> False)
     in (ch,
         case ui_mode u1 of
           Closed \<Rightarrow> if \<not> ui_dismissed u1 \<and> due then u1\<lparr>ui_mode := Auto\<rparr> else u1
         | Lingering _ _ \<Rightarrow> if due then u1\<lparr>ui_mode := Auto\<rparr> else u1
         | Config _ editing \<Rightarrow>
             if due \<and> \<not> ui_config_decided u1 then
               (let u2 = u1\<lparr>ui_config_decided := True\<rparr> in if \<not> takes_every_byte editing then leave_config u2 else u2)
             else u1
         | _ \<Rightarrow> u1))"

definition tick_answering :: "phase \<Rightarrow> instant \<Rightarrow> ui \<Rightarrow> link_change_ev option \<times> ui" where
  "tick_answering ph now u =
    (let (ch, u1) =
       (case ui_outage_since u of
          Some since \<Rightarrow>
            (let d = duration_since now since in (Some (Back d), u\<lparr>ui_outage_since := None, ui_last_outage := d\<rparr>))
        | None \<Rightarrow> (None, u))
     in (ch,
         case ui_mode u1 of
           Auto \<Rightarrow> if ph = Live then u1\<lparr>ui_mode := Lingering now (ui_last_outage u1)\<rparr> else u1
         | Lingering since _ \<Rightarrow> if duration_since now since \<ge> ui_linger u1 then u1\<lparr>ui_mode := Closed\<rparr> else u1
         | _ \<Rightarrow> u1))"

definition tick :: "phase \<Rightarrow> instant \<Rightarrow> ui \<Rightarrow> link_change_ev option \<times> ui" where
  "tick ph now u =
    (let u1 = note_question ph now u;
         u2 = (if ph = Confirming then leave_sessions (leave_config u1) else u1)
     in if is_outage ph then tick_outage ph now u2 else tick_answering ph now u2)"

section \<open>Keys of the status view\<close>

definition deliver :: "u8 \<Rightarrow> phase \<Rightarrow> routed \<Rightarrow> routed" where
  "deliver b ph r = (if is_outage ph then r\<lparr>to_hold := to_hold r @ [b]\<rparr> else r\<lparr>to_host := to_host r @ [b]\<rparr>)"

definition ui_close :: "u8 \<Rightarrow> phase \<Rightarrow> instant \<Rightarrow> ui \<Rightarrow> routed \<Rightarrow> ui \<times> routed" where
  "ui_close b ph now u r =
    (let twice = (Some b = ui_key u
           \<and> (case ui_mode u of Open (Some t) \<Rightarrow> duration_since now t < DOUBLE_PRESS | _ \<Rightarrow> False));
         u1 = u\<lparr>ui_mode := Closed\<rparr>
     in (if is_outage ph then u1\<lparr>ui_dismissed := True\<rparr> else u1, if twice then deliver b ph r else r))"

text \<open>The key's command, if it is one: \<open>q\<close>, and the answers to the question.\<close>

definition shown_command :: "u8 \<Rightarrow> phase \<Rightarrow> instant \<Rightarrow> ui \<Rightarrow> command option" where
  "shown_command b ph now u =
    (let confirming = (ph = Confirming) in
     if confirming \<and> \<not> answerable now u then None
     else if b = 0x71 then Some CmdQuit
     else if b = 0x73 \<and> confirming then Some SendHeld
     else if b = 0x64 \<and> confirming then Some DropHeld
     else None)"

definition shown_key :: "u8 \<Rightarrow> phase \<Rightarrow> instant \<Rightarrow> ui \<Rightarrow> routed \<Rightarrow> bool \<times> ui \<times> routed" where
  "shown_key b ph now u r =
    (let confirming = (ph = Confirming); cmd = shown_command b ph now u in
     if cmd \<noteq> None then (True, u, r\<lparr>command := cmd\<rparr>)
     else if b = 0x73 \<and> \<not> confirming then
       (if ph = Live then (True, open_sessions u, r\<lparr>command := Some (CmdAsk AskSessions)\<rparr>)
        else (False, touch u, r))
     else if b = 0x63 \<and> \<not> confirming then
       (True,
        u\<lparr>ui_mode := Config 0 EditingNone,
          ui_config_decided := (case ui_outage_since u of Some since \<Rightarrow> auto_due since now u | None \<Rightarrow> False)\<rparr>,
        r)
     else if (b = KEY_ESC \<or> Some b = ui_key u) \<and> \<not> confirming then
       (let (u1, r1) = ui_close b ph now u r in (False, u1, r1))
     else (False, touch u, r))"

primrec status_keys :: "bytes \<Rightarrow> bool \<Rightarrow> phase \<Rightarrow> instant \<Rightarrow> ui \<Rightarrow> routed \<Rightarrow> ui \<times> routed" where
  "status_keys [] lone ph now u r = (u, r)"
| "status_keys (b # rest) lone ph now u r =
     (if \<not> visible ph u then
        (if Some b = ui_key u then status_keys rest lone ph now (u\<lparr>ui_mode := Open (Some now)\<rparr>) r
         else status_keys rest lone ph now u (deliver b ph r))
      else if b = KEY_ESC \<and> \<not> lone then (touch u, r)
      else
        (let (over, u1, r1) = shown_key b ph now u r
         in if over then (u1, r1) else status_keys rest lone ph now u1 r1))"

section \<open>The config screen\<close>

record config_screen =
  cv_cursor :: nat
  cv_editing :: editing
  cv_field :: ustr
  cv_servers :: "ustr list"
  cv_note :: "ustr option"

definition ui_config_screen :: "ui \<Rightarrow> config_screen option" where
  "ui_config_screen u =
    (case ui_mode u of
       Config cursor editing \<Rightarrow>
         Some \<lparr>cv_cursor = cursor, cv_editing = editing, cv_field = fd_text (ui_field u), cv_servers = ui_servers u,
               cv_note = ui_note u\<rparr>
     | _ \<Rightarrow> None)"

definition open_text :: "ustr \<Rightarrow> ui \<Rightarrow> ui" where
  "open_text text u =
    (case ui_mode u of
       Config cursor _ \<Rightarrow> u\<lparr>ui_field := field_set text (ui_field u), ui_mode := Config cursor EditingText\<rparr>
     | _ \<Rightarrow> u)"

definition open_capture :: "ui \<Rightarrow> ui" where
  "open_capture u = (case ui_mode u of Config cursor _ \<Rightarrow> u\<lparr>ui_mode := Config cursor EditingCapture\<rparr> | _ \<Rightarrow> u)"

definition open_servers :: "ustr list \<Rightarrow> ui \<Rightarrow> ui" where
  "open_servers l u =
    (case ui_mode u of
       Config cursor _ \<Rightarrow> u\<lparr>ui_servers := l, ui_mode := Config cursor (EditingServers 0 False)\<rparr>
     | _ \<Rightarrow> u)"

definition ui_accepted :: "ui \<Rightarrow> ui" where
  "ui_accepted u =
    (case ui_mode u of
       Config cursor editing \<Rightarrow>
         (let u1 = u\<lparr>ui_field := field_clear (ui_field u)\<rparr> in
          case editing of
            EditingServers at _ \<Rightarrow>
              (let u2 = (case ui_proposed u1 of Some l \<Rightarrow> u1\<lparr>ui_proposed := None, ui_servers := l\<rparr> | None \<Rightarrow> u1)
               in u2\<lparr>ui_mode := Config cursor (EditingServers (min at (length (ui_servers u2) - 1)) False)\<rparr>)
          | _ \<Rightarrow> u1\<lparr>ui_mode := Config cursor EditingNone\<rparr>)
     | _ \<Rightarrow> u)"

definition ui_say :: "ustr \<Rightarrow> ui \<Rightarrow> ui" where
  "ui_say note u = u\<lparr>ui_proposed := None, ui_note := Some note\<rparr>"

definition config_cursor :: "ui \<Rightarrow> nat" where
  "config_cursor u = (case ui_mode u of Config c _ \<Rightarrow> c | _ \<Rightarrow> 0)"

text \<open>\<open>config_key\<close>, one definition for each thing the screen may be editing. A result is whether the
  read is over, the state, and the command.\<close>

type_synonym key_result = "bool \<times> ui \<times> command option"

definition no_cmd :: "ui \<Rightarrow> key_result" where
  "no_cmd u = (False, u, None)"

definition cmd :: "config_cmd \<Rightarrow> ui \<Rightarrow> key_result" where
  "cmd c u = (True, u, Some (CmdConfig c))"

text \<open>Enter in the field of the sub-list: the list with the entry replaced, removed or added, or nothing
  to add.\<close>

definition servers_after :: "nat \<Rightarrow> ustr \<Rightarrow> ustr list \<Rightarrow> ustr list option" where
  "servers_after at text l =
    (if at < length l then
       (if text = [] then Some (take at l @ drop (at + 1) l) else Some (l[at := text]))
     else if text = [] then None
     else Some (l @ [text]))"

definition field_key :: "key \<Rightarrow> nat \<Rightarrow> editing \<Rightarrow> ui \<Rightarrow> key_result" where
  "field_key k cursor editing u =
    (if k = Byte KEY_ESC then
       no_cmd (u\<lparr>ui_field := field_clear (ui_field u),
         ui_mode := Config cursor (case editing of
             EditingServers at _ \<Rightarrow> EditingServers (min at (length (ui_servers u) - 1)) False
           | _ \<Rightarrow> EditingNone)\<rparr>)
     else if is_enter k then
       (let text = str_trim (fd_text (ui_field u)) in
        case editing of
          EditingServers at _ \<Rightarrow>
            (case servers_after at text (ui_servers u) of
               None \<Rightarrow> (True, ui_accepted u, None)
             | Some l \<Rightarrow> cmd (CmdServers cursor l) (u\<lparr>ui_proposed := Some l\<rparr>))
        | _ \<Rightarrow> cmd (CmdAccept cursor text) u)
     else if is_erase k then no_cmd (u\<lparr>ui_field := field_erase (ui_field u)\<rparr>)
     else (case k of
         Byte b \<Rightarrow> if b \<ge> 0x20 then no_cmd (u\<lparr>ui_field := type_byte b (ui_field u)\<rparr>) else no_cmd u
       | _ \<Rightarrow> no_cmd u))"

definition capture_key :: "key \<Rightarrow> nat \<Rightarrow> ui \<Rightarrow> key_result" where
  "capture_key k cursor u =
    (if k = Byte KEY_ESC then no_cmd (u\<lparr>ui_mode := Config cursor EditingNone\<rparr>)
     else if is_erase k then cmd (CmdCapture cursor None) u
     else (case k of Byte b \<Rightarrow> cmd (CmdCapture cursor (Some b)) u | _ \<Rightarrow> no_cmd u))"

definition servers_key :: "key \<Rightarrow> nat \<Rightarrow> nat \<Rightarrow> ui \<Rightarrow> key_result" where
  "servers_key k cursor at u =
    (let l = ui_servers u; to = (\<lambda>e. u\<lparr>ui_mode := Config cursor e\<rparr>) in
     if k = Up \<or> k = Byte 0x6b then no_cmd (to (EditingServers (at - 1) False))
     else if k = Down \<or> k = Byte 0x6a then no_cmd (to (EditingServers (min (at + 1) (length l - 1)) False))
     else if is_enter k \<and> at < length l then
       no_cmd ((to (EditingServers at True))\<lparr>ui_field := field_set (l ! at) (ui_field u)\<rparr>)
     else if k = Byte 0x2b then
       no_cmd ((to (EditingServers (length l) True))\<lparr>ui_field := field_clear (ui_field u)\<rparr>)
     else if k = Byte 0x2d \<and> at < length l then
       (let l1 = take at l @ drop (at + 1) l in cmd (CmdServers cursor l1) (u\<lparr>ui_proposed := Some l1\<rparr>))
     else if k = Byte KEY_ESC then no_cmd (to EditingNone)
     else if k = Byte 0x71 then (True, u, Some CmdQuit)
     else no_cmd u)"

definition save_key :: "key \<Rightarrow> nat \<Rightarrow> ui \<Rightarrow> key_result" where
  "save_key k cursor u =
    (if k = Byte 0x61 then cmd (CmdSave LevelGlobal) u
     else if k = Byte 0x68 then cmd (CmdSave LevelHost) u
     else if k = Byte KEY_ESC then no_cmd (u\<lparr>ui_mode := Config cursor EditingNone\<rparr>)
     else no_cmd u)"

definition browse_key :: "key \<Rightarrow> phase \<Rightarrow> nat \<Rightarrow> ui \<Rightarrow> key_result" where
  "browse_key k ph cursor u =
    (if k = Up \<or> k = Byte 0x6b then no_cmd (u\<lparr>ui_mode := Config (cursor - 1) EditingNone\<rparr>)
     else if k = Down \<or> k = Byte 0x6a then
       no_cmd (u\<lparr>ui_mode := Config (min (cursor + 1) (length SETTINGS - 1)) EditingNone\<rparr>)
     else if is_enter k then cmd (CmdEdit cursor) u
     else if k = Byte 0x78 then cmd (CmdReset cursor) u
     else if k = Byte 0x77 then no_cmd (u\<lparr>ui_mode := Config cursor EditingSave\<rparr>)
     else if k = Byte 0x71 then (True, u, Some CmdQuit)
     else if k = Byte KEY_ESC then no_cmd (leave_config u)
     else if (case k of Byte b \<Rightarrow> Some b = ui_key u | _ \<Rightarrow> False) then
       (let u1 = (leave_config u)\<lparr>ui_mode := Closed\<rparr>
        in (True, if is_outage ph then u1\<lparr>ui_dismissed := True\<rparr> else u1, None))
     else no_cmd u)"

definition config_key :: "key \<Rightarrow> phase \<Rightarrow> ui \<Rightarrow> key_result" where
  "config_key k ph u =
    (case ui_mode u of
       Config cursor editing \<Rightarrow>
         (case editing of
            EditingText \<Rightarrow> field_key k cursor editing u
          | EditingServers at f \<Rightarrow> if f then field_key k cursor editing u else servers_key k cursor at u
          | EditingCapture \<Rightarrow> capture_key k cursor u
          | EditingSave \<Rightarrow> save_key k cursor u
          | EditingNone \<Rightarrow> browse_key k ph cursor u)
     | _ \<Rightarrow> (True, u, None))"

definition field_open :: "mode \<Rightarrow> bool" where
  "field_open m =
    (case m of Config _ EditingText \<Rightarrow> True | Config _ (EditingServers _ f) \<Rightarrow> f | _ \<Rightarrow> False)"

definition paste_byte :: "u8 \<Rightarrow> ui \<Rightarrow> ui" where
  "paste_byte b u = (if field_open (ui_mode u) then u\<lparr>ui_field := type_byte b (ui_field u)\<rparr> else u)"

definition ui_paste :: "bytes \<Rightarrow> ui \<Rightarrow> ui \<times> bytes" where
  "ui_paste bs u =
    (let (sunk, p, rest) = paste_through (ui_pasting u) bs
     in ((fold paste_byte sunk u)\<lparr>ui_pasting := p\<rparr>, rest))"

lemma ui_paste_rest: "(u1, rest) = ui_paste bs u \<Longrightarrow> length rest \<le> length bs"
  by (auto simp: ui_paste_def split: prod.splits dest: paste_through_rest)

function config_loop :: "bytes \<Rightarrow> bool \<Rightarrow> phase \<Rightarrow> ui \<Rightarrow> ui \<times> command option" where
  "config_loop rest lone ph u =
    (case rest of
       [] \<Rightarrow> (u, None)
     | b # tail \<Rightarrow>
         if \<not> is_config (ui_mode u) then (u, None)
         else if b = KEY_ESC \<and> \<not> lone then
           (case escape_seq tail of
              (Some k, used) \<Rightarrow>
                (case config_key k ph u of
                   (True, u1, c) \<Rightarrow> (u1, c)
                 | (False, u1, _) \<Rightarrow> config_loop (drop used tail) lone ph u1)
            | (None, used) \<Rightarrow>
                if take 5 tail = [0x5b, 0x32, 0x30, 0x30, 0x7e] then
                  (let (u1, rest1) = ui_paste (drop used tail) (u\<lparr>ui_pasting := Some 0\<rparr>)
                   in config_loop rest1 lone ph u1)
                else config_loop (drop used tail) lone ph u)
         else
           (case config_key (Byte b) ph u of
              (True, u1, c) \<Rightarrow> (u1, c)
            | (False, u1, _) \<Rightarrow> config_loop tail lone ph u1))"
  by pat_completeness auto
termination
  by (relation "measure (\<lambda>(rest, lone, ph, u). length rest)") (auto dest!: ui_paste_rest)

declare config_loop.simps [simp del]

definition config_keys :: "bytes \<Rightarrow> phase \<Rightarrow> ui \<Rightarrow> ui \<times> routed" where
  "config_keys bs ph u =
    (let (u1, c) = config_loop bs (bs = [KEY_ESC]) ph (u\<lparr>ui_note := None\<rparr>)
     in (u1, routed_default\<lparr>command := c\<rparr>))"

section \<open>A read\<close>

definition sessions_keys :: "bytes \<Rightarrow> phase \<Rightarrow> instant \<Rightarrow> ui \<Rightarrow> ui \<times> routed" where
  "sessions_keys bs ph now u =
    (if (case ui_key u of Some key \<Rightarrow> take 1 bs = [key] | None \<Rightarrow> False)
        \<and> sl_rename (ui_selector u) = None \<and> sl_pasting (ui_selector u) = None then
       (if \<not> ui_lobby u then
          (let u1 = u\<lparr>ui_mode := Closed\<rparr> in if is_outage ph then u1\<lparr>ui_dismissed := True\<rparr> else u1)
        else u, routed_default)
     else
       (let cx = \<lparr>cx_live = (ph = Live), cx_lobby = ui_lobby u, cx_busy = ui_busy u\<rparr>;
            (o', s1) = sel_keys bs cx now (ui_selector u);
            u1 = u\<lparr>ui_selector := s1\<rparr>
        in case o' of
             None \<Rightarrow> (u1, routed_default)
           | Some (OutAsk a) \<Rightarrow> (u1, routed_default\<lparr>command := Some (CmdAsk a)\<rparr>)
           | Some OutBack \<Rightarrow> (u1\<lparr>ui_mode := Open None\<rparr>, routed_default)
           | Some OutClose \<Rightarrow> (u1\<lparr>ui_mode := Closed\<rparr>, routed_default)
           | Some OutQuit \<Rightarrow> (u1, routed_default\<lparr>command := Some CmdQuit\<rparr>)))"

definition ui_keys :: "bytes \<Rightarrow> phase \<Rightarrow> instant \<Rightarrow> ui \<Rightarrow> ui \<times> routed" where
  "ui_keys bs ph now u =
    (let u1 = note_question ph now u;
         u2 = (if ph = Confirming then leave_sessions (leave_config u1) else u1)
     in if ui_mode u2 = Sessions then sessions_keys bs ph now (u2\<lparr>ui_pasting := None\<rparr>)
        else if is_config (ui_mode u2) then
          (let (u3, rest) = (case ui_pasting u2 of Some _ \<Rightarrow> ui_paste bs u2 | None \<Rightarrow> (u2, bs))
           in config_keys rest ph u3)
        else status_keys bs (bs = [KEY_ESC]) ph now (u2\<lparr>ui_pasting := None\<rparr>) routed_default)"

section \<open>Where typed bytes go\<close>

definition delivered :: "phase \<Rightarrow> bytes \<Rightarrow> routed" where
  "delivered ph bs = (if is_outage ph then routed_default\<lparr>to_hold := bs\<rparr> else routed_default\<lparr>to_host := bs\<rparr>)"

lemma delivered_simps:
  "delivered ph [] = routed_default" "deliver b ph (delivered ph bs) = delivered ph (bs @ [b])"
  "command (delivered ph bs) = None"
  by (simp_all add: delivered_def deliver_def routed_default_def)

text \<open>What the status view's keys leave besides: the bytes delivered are those of the read that were let
  through, and a command leaves them as they are.\<close>

definition routes :: "phase \<Rightarrow> bytes \<Rightarrow> routed \<Rightarrow> bool" where
  "routes ph bs r \<longleftrightarrow> (\<exists>ds c. subseq ds bs \<and> r = (delivered ph ds)\<lparr>command := c\<rparr>)"

lemma routes_default: "routes ph bs (routed_default\<lparr>command := c\<rparr>)" "routes ph bs routed_default"
proof -
  show r: "routes ph bs (routed_default\<lparr>command := c\<rparr>)" for c
    unfolding routes_def by (rule exI [of _ "[]"]) (auto simp: delivered_simps)
  show "routes ph bs routed_default"
    using r [of None] by (simp add: routed_default_def)
qed

lemma shown_key_routed:
  assumes "shown_key b ph now u (delivered ph ds) = (over, u1, r1)"
  shows "\<exists>c. (r1 = (delivered ph ds)\<lparr>command := c\<rparr> \<or> (\<not> over \<and> r1 = delivered ph (ds @ [b])))
    \<and> (\<not> over \<longrightarrow> c = None)"
  using assms
  by (auto simp: shown_key_def Let_def ui_close_def delivered_simps delivered_def deliver_def
      routed_default_def split: if_splits prod.splits intro: exI [of _ None])

lemma status_keys_routed:
  "\<exists>es c. subseq es bs \<and> snd (status_keys bs lone ph now u (delivered ph ds)) = (delivered ph (ds @ es))\<lparr>command := c\<rparr>"
proof (induction bs arbitrary: u ds)
  case Nil
  have "delivered ph ds = (delivered ph ds)\<lparr>command := None\<rparr>"
    by (simp add: delivered_def routed_default_def)
  then show ?case by force
next
  case (Cons b bs)
  have go: "\<exists>es c. subseq es (b # bs) \<and> snd (status_keys bs lone ph now u' (delivered ph ds)) = (delivered ph (ds @ es))\<lparr>command := c\<rparr>" for u'
    using Cons.IH [of u' ds] by (meson list_emb_Cons)
  have on: "\<exists>es c. subseq es (b # bs) \<and> snd (status_keys bs lone ph now u' (delivered ph (ds @ [b]))) = (delivered ph (ds @ es))\<lparr>command := c\<rparr>" for u'
  proof -
    obtain es c where "subseq es bs" "snd (status_keys bs lone ph now u' (delivered ph (ds @ [b]))) = (delivered ph ((ds @ [b]) @ es))\<lparr>command := c\<rparr>"
      using Cons.IH [of u' "ds @ [b]"] by blast
    then have "subseq (b # es) (b # bs) \<and> snd (status_keys bs lone ph now u' (delivered ph (ds @ [b]))) = (delivered ph (ds @ b # es))\<lparr>command := c\<rparr>"
      by simp
    then show ?thesis by blast
  qed
  have stop: "\<exists>es c'. subseq es (b # bs) \<and> (delivered ph ds)\<lparr>command := c\<rparr> = (delivered ph (ds @ es))\<lparr>command := c'\<rparr>" for c
    by (rule exI [of _ "[]"]) auto
  have none: "(delivered ph ds)\<lparr>command := None\<rparr> = delivered ph ds"
    by (simp add: delivered_def routed_default_def)
  obtain over u1 r1 where k: "shown_key b ph now u (delivered ph ds) = (over, u1, r1)" by (metis prod_cases3)
  consider "\<not> visible ph u" | "visible ph u" "b = KEY_ESC \<and> \<not> lone"
    | c where "visible ph u" "\<not> (b = KEY_ESC \<and> \<not> lone)" "over" "r1 = (delivered ph ds)\<lparr>command := c\<rparr>"
    | "visible ph u" "\<not> (b = KEY_ESC \<and> \<not> lone)" "\<not> over" "r1 = delivered ph ds \<or> r1 = delivered ph (ds @ [b])"
    using shown_key_routed [OF k] none by (cases over) auto
  then show ?case
  proof cases
    case 1
    with go on show ?thesis by (simp add: delivered_simps)
  next
    case 2
    with stop [of None] show ?thesis by (simp add: none)
  next
    case 3
    with stop k show ?thesis by auto
  next
    case 4
    with go on k show ?thesis by auto
  qed
qed

lemma sessions_keys_routed: "\<exists>c. snd (sessions_keys bs ph now u) = routed_default\<lparr>command := c\<rparr>"
  unfolding sessions_keys_def Let_def
  by (auto simp: routed_default_def split: prod.split option.split out.split)

lemma config_keys_routed: "\<exists>c. snd (config_keys bs ph u) = routed_default\<lparr>command := c\<rparr>"
  by (auto simp: config_keys_def split: prod.split)

text \<open>A read is the selector's, the config screen's or the status view's.\<close>

lemma leave_same:
  "ui_key (leave_config u) = ui_key u" "ui_key (leave_sessions u) = ui_key u"
  "ui_asked_at (leave_config u) = ui_asked_at u" "ui_asked_at (leave_sessions u) = ui_asked_at u"
  "ui_mode (leave_config u) = (if is_config (ui_mode u) then Open None else ui_mode u)"
  "ui_mode (leave_sessions u) = (if ui_mode u = Sessions then Open None else ui_mode u)"
  "ui_outage_since (leave_config u) = ui_outage_since u" "ui_outage_since (leave_sessions u) = ui_outage_since u"
  "ui_dismissed (leave_config u) = ui_dismissed u" "ui_dismissed (leave_sessions u) = ui_dismissed u"
  by (simp_all add: leave_config_def leave_sessions_def)

lemma note_question_same:
  "ui_key (note_question ph now u) = ui_key u" "ui_mode (note_question ph now u) = ui_mode u"
  "ui_outage_since (note_question ph now u) = ui_outage_since u" "ui_dismissed (note_question ph now u) = ui_dismissed u"
  by (simp_all add: note_question_def)

definition asked :: "phase \<Rightarrow> instant \<Rightarrow> ui \<Rightarrow> instant option" where
  "asked ph now u = ui_asked_at (note_question ph now u)"

lemma ui_keys_cases:
  obtains (selector) u' where "ui_keys bs ph now u = sessions_keys bs ph now u'" "ui_mode u' = Sessions"
      "ui_mode u = Sessions" "ph \<noteq> Confirming" "ui_dismissed u' = ui_dismissed u" "ui_outage_since u' = ui_outage_since u"
      "ui_asked_at u' = asked ph now u"
    | (screen) u' bs' where "ui_keys bs ph now u = config_keys bs' ph u'" "is_config (ui_mode u)" "ph \<noteq> Confirming"
      "ui_dismissed u' = ui_dismissed u" "ui_outage_since u' = ui_outage_since u" "ui_mode u' = ui_mode u"
      "ui_asked_at u' = asked ph now u"
    | (status) u' where "ui_keys bs ph now u = status_keys bs (bs = [KEY_ESC]) ph now u' routed_default"
      "ui_key u' = ui_key u" "ui_mode u' \<noteq> Sessions" "\<not> is_config (ui_mode u')" "ph \<noteq> Confirming \<Longrightarrow> ui_mode u' = ui_mode u"
      "ui_dismissed u' = ui_dismissed u" "ui_outage_since u' = ui_outage_since u" "ui_asked_at u' = asked ph now u"
proof -
  define u2 where "u2 = (if ph = Confirming then leave_sessions (leave_config (note_question ph now u)) else note_question ph now u)"
  have same: "ui_key u2 = ui_key u" "ui_dismissed u2 = ui_dismissed u" "ui_outage_since u2 = ui_outage_since u"
    "ph \<noteq> Confirming \<Longrightarrow> ui_mode u2 = ui_mode u" "ui_asked_at u2 = asked ph now u"
    by (simp_all add: u2_def leave_same note_question_same asked_def)
  have free: "ui_mode u2 \<noteq> Sessions \<and> \<not> is_config (ui_mode u2)" if "ph = Confirming"
    using that by (simp add: u2_def leave_same is_config_def)
  have k: "ui_keys bs ph now u =
      (if ui_mode u2 = Sessions then sessions_keys bs ph now (u2\<lparr>ui_pasting := None\<rparr>)
       else if is_config (ui_mode u2) then
         (let (u3, rest) = (case ui_pasting u2 of Some _ \<Rightarrow> ui_paste bs u2 | None \<Rightarrow> (u2, bs)) in config_keys rest ph u3)
       else status_keys bs (bs = [KEY_ESC]) ph now (u2\<lparr>ui_pasting := None\<rparr>) routed_default)"
    unfolding ui_keys_def u2_def Let_def ..
  have fp: "ui_mode (fold paste_byte bs' u) = ui_mode u \<and> ui_dismissed (fold paste_byte bs' u) = ui_dismissed u
      \<and> ui_outage_since (fold paste_byte bs' u) = ui_outage_since u \<and> ui_asked_at (fold paste_byte bs' u) = ui_asked_at u"
    for bs' and u :: ui
    by (induction bs' arbitrary: u) (simp_all add: paste_byte_def)
  consider "ui_mode u2 = Sessions" | "is_config (ui_mode u2)" | "ui_mode u2 \<noteq> Sessions" "\<not> is_config (ui_mode u2)" by blast
  then show ?thesis
  proof cases
    case 1
    with free have ph: "ph \<noteq> Confirming" by auto
    with 1 same(4) have "ui_mode u = Sessions" by simp
    with 1 k same ph show ?thesis by (intro selector [of "u2\<lparr>ui_pasting := None\<rparr>"]) simp_all
  next
    case 2
    obtain u3 rest where r: "(case ui_pasting u2 of Some _ \<Rightarrow> ui_paste bs u2 | None \<Rightarrow> (u2, bs)) = (u3, rest)" by fastforce
    have "ui_mode u3 = ui_mode u2 \<and> ui_dismissed u3 = ui_dismissed u2 \<and> ui_outage_since u3 = ui_outage_since u2
        \<and> ui_asked_at u3 = ui_asked_at u2"
      using r fp by (auto simp: ui_paste_def split: option.splits prod.splits)
    moreover have "ui_mode u2 \<noteq> Sessions" using 2 by (auto simp: is_config_def)
    moreover have ph: "ph \<noteq> Confirming" using 2 free by auto
    moreover have "ui_mode u2 = ui_mode u" using ph same(4) by simp
    ultimately show ?thesis using 2 k r same by (intro screen [of rest u3]) simp_all
  next
    case 3
    with k same show ?thesis by (intro status [of "u2\<lparr>ui_pasting := None\<rparr>"]) auto
  qed
qed

lemma ui_keys_routes: "routes ph bs (snd (ui_keys bs ph now u))"
proof -
  have st: "routes ph bs (snd (status_keys bs lone ph now u' routed_default))" for lone u'
    using status_keys_routed [of bs lone ph now u' "[]"] by (auto simp: routes_def delivered_simps)
  have "routes ph bs (snd (sessions_keys bs ph now u'))" "routes ph bs (snd (config_keys bs' ph u'))" for u' bs'
    using sessions_keys_routed [of bs ph now u'] config_keys_routed [of bs' ph u'] by (auto simp: routes_default)
  with st show ?thesis by (cases rule: ui_keys_cases [of bs ph now u]) simp_all
qed

text \<open>C22: what is typed goes one way. Whatever state the popup is in, what a read sends is some of its own
  bytes, in their order and each at most once; with the link answering they go to the host and
  nothing is held, and during an outage they are held and nothing goes to the host.\<close>

theorem typed_bytes_go_one_way:
  "let r = snd (ui_keys bs ph now u) in
     (if is_outage ph then to_host r = [] else to_hold r = []) \<and> subseq (to_host r @ to_hold r) bs"
proof -
  from ui_keys_routes [of ph bs now u] obtain ds c where "subseq ds bs" "snd (ui_keys bs ph now u) = (delivered ph ds)\<lparr>command := c\<rparr>"
    by (auto simp: routes_def)
  then show ?thesis by (simp add: delivered_def routed_default_def)
qed

lemma status_keys_closed:
  assumes "ui_mode u = Closed" "ph \<noteq> Confirming" "\<forall>b\<in>set bs. Some b \<noteq> ui_key u"
  shows "status_keys bs lone ph now u (delivered ph ds) = (u, delivered ph (ds @ bs))"
  using assms
  by (induction bs arbitrary: ds) (auto simp: visible_def delivered_simps)

text \<open>A closed popup is not in the way: with no question open, everything typed but the popup key
  goes on unchanged, to the host while the link answers and into the held input during an outage;
  escape sequences and pastes too; and no command comes of it.\<close>

theorem closed_popup_passes_everything:
  assumes "ui_mode u = Closed" and "ph \<noteq> Confirming" and "\<forall>b\<in>set bs. Some b \<noteq> ui_key u"
  shows "snd (ui_keys bs ph now u)
      = (if is_outage ph then routed_default\<lparr>to_hold := bs\<rparr> else routed_default\<lparr>to_host := bs\<rparr>)
    \<and> ui_mode (fst (ui_keys bs ph now u)) = Closed"
proof -
  let ?u = "(note_question ph now u)\<lparr>ui_pasting := None\<rparr>"
  have u: "ui_mode ?u = Closed" "\<forall>b\<in>set bs. Some b \<noteq> ui_key ?u"
    using assms by (simp_all add: note_question_def)
  have "ui_keys bs ph now u = status_keys bs (bs = [KEY_ESC]) ph now ?u routed_default"
    using assms(2) u(1) by (simp add: ui_keys_def is_config_def)
  with status_keys_closed [OF u(1) assms(2) u(2), of "bs = [KEY_ESC]" now "[]"] show ?thesis
    using u(1) unfolding delivered_simps(1) by (simp add: delivered_def)
qed

text \<open>A line typed during an outage.\<close>

theorem closed_popup_passes_everything_witness:
  "to_hold (snd (ui_keys [0x6c, 0x73, 0x0d] (Silent 5) 9 ui_new)) = [0x6c, 0x73, 0x0d]"
  using closed_popup_passes_everything [of ui_new "Silent 5" "[0x6c, 0x73, 0x0d]" 9]
  by (simp add: ui_new_def PREFIX_def)

text \<open>While the question is open, or without Esc and the popup key, a shown status view lets nothing through.\<close>

lemma shown_key_confirming: "shown_key b Confirming now u r = (over, u1, r1) \<Longrightarrow> to_host r1 = to_host r \<and> to_hold r1 = to_hold r"
  by (auto simp: shown_key_def Let_def split: if_splits)

lemma touch_same:
  "ui_key (touch u) = ui_key u" "ui_mode (touch u) = Closed \<longleftrightarrow> ui_mode u = Closed"
  "ui_dismissed (touch u) = ui_dismissed u" "ui_outage_since (touch u) = ui_outage_since u"
  "ui_asked_at (touch u) = ui_asked_at u"
  by (cases "ui_mode u"; simp add: touch_def)+

lemma open_sessions_same:
  "ui_key (open_sessions u) = ui_key u" "ui_mode (open_sessions u) = Sessions"
  by (simp_all add: open_sessions_def leave_same Let_def)

lemma shown_key_other:
  assumes "shown_command b ph now u = None" "b \<noteq> KEY_ESC" "Some b \<noteq> ui_key u"
  shows "shown_key b ph now u r =
    (if b = 0x73 \<and> ph \<noteq> Confirming then
       (if ph = Live then (True, open_sessions u, r\<lparr>command := Some (CmdAsk AskSessions)\<rparr>) else (False, touch u, r))
     else if b = 0x63 \<and> ph \<noteq> Confirming then
       (True, u\<lparr>ui_mode := Config 0 EditingNone,
          ui_config_decided := (case ui_outage_since u of Some since \<Rightarrow> auto_due since now u | None \<Rightarrow> False)\<rparr>, r)
     else (False, touch u, r))"
  unfolding shown_key_def Let_def assms(1) using assms(2,3) by simp

lemma shown_key_command:
  "shown_command b ph now u = Some c \<Longrightarrow> shown_key b ph now u r = (True, u, r\<lparr>command := Some c\<rparr>)"
  by (simp add: shown_key_def)

lemma shown_key_quiet:
  assumes "shown_key b ph now u r = (over, u1, r1)" "b \<noteq> KEY_ESC" "Some b \<noteq> ui_key u" "ui_mode u \<noteq> Closed"
  shows "to_host r1 = to_host r \<and> to_hold r1 = to_hold r \<and> ui_mode u1 \<noteq> Closed \<and> ui_key u1 = ui_key u"
proof (cases "shown_command b ph now u")
  case None
  note k = shown_key_other [OF this assms(2,3), of r]
  show ?thesis
    using assms(1,4) unfolding k by (auto simp: open_sessions_same touch_same split: if_split_asm)
next
  case (Some c)
  with assms(1,4) show ?thesis by (auto simp: shown_key_command)
qed

lemma status_keys_confirming:
  "to_host (snd (status_keys bs lone Confirming now u r)) = to_host r
    \<and> to_hold (snd (status_keys bs lone Confirming now u r)) = to_hold r"
proof (induction bs arbitrary: u r)
  case (Cons b bs)
  obtain over u1 r1 where k: "shown_key b Confirming now u r = (over, u1, r1)" by (metis prod_cases3)
  from shown_key_confirming [OF k] Cons.IH [of u1 r1] show ?case
    by (simp add: visible_def k)
qed simp

lemma status_keys_quiet:
  assumes "ui_mode u \<noteq> Closed" "KEY_ESC \<notin> set bs" "\<forall>b\<in>set bs. Some b \<noteq> ui_key u"
  shows "to_host (snd (status_keys bs lone ph now u r)) = to_host r
    \<and> to_hold (snd (status_keys bs lone ph now u r)) = to_hold r"
  using assms
proof (induction bs arbitrary: u r)
  case (Cons b bs)
  obtain over u1 r1 where k: "shown_key b ph now u r = (over, u1, r1)" by (metis prod_cases3)
  have "b \<noteq> KEY_ESC" "Some b \<noteq> ui_key u" using Cons.prems by auto
  note q = shown_key_quiet [OF k this Cons.prems(1)]
  then have "to_host (snd (status_keys bs lone ph now u1 r1)) = to_host r1
      \<and> to_hold (snd (status_keys bs lone ph now u1 r1)) = to_hold r1"
    using Cons.prems by (intro Cons.IH) auto
  with q Cons.prems k \<open>b \<noteq> KEY_ESC\<close> show ?case by (auto simp: visible_def)
qed simp

text \<open>C20: a shown popup keeps what is typed to itself. While the question about held input is open nothing
  typed reaches the host or the held input, so nothing runs ahead of it; nor does anything typed at
  the selector, at the config screen, or at the status view unless it is the popup key or Esc.\<close>

theorem shown_popup_keeps_its_keys:
  assumes "ph = Confirming \<or> ui_mode u = Sessions \<or> is_config (ui_mode u)
    \<or> ui_mode u \<noteq> Closed \<and> KEY_ESC \<notin> set bs \<and> (\<forall>b\<in>set bs. Some b \<noteq> ui_key u)"
  shows "to_host (snd (ui_keys bs ph now u)) = [] \<and> to_hold (snd (ui_keys bs ph now u)) = []"
proof -
  have d: "to_host (routed_default\<lparr>command := c\<rparr>) = []" "to_hold (routed_default\<lparr>command := c\<rparr>) = []"
    "to_host routed_default = []" "to_hold routed_default = []" for c
    by (simp_all add: routed_default_def)
  have quiet: "to_host (snd (sessions_keys bs' ph now u')) = []" "to_hold (snd (sessions_keys bs' ph now u')) = []"
    "to_host (snd (config_keys bs' ph u')) = []" "to_hold (snd (config_keys bs' ph u')) = []" for bs' u'
    using sessions_keys_routed [of bs' ph now u'] config_keys_routed [of bs' ph u'] d by auto
  show ?thesis
  proof (cases rule: ui_keys_cases [of bs ph now u])
    case (status u')
    then show ?thesis
      using assms status_keys_confirming [of bs "bs = [KEY_ESC]" now u' routed_default]
        status_keys_quiet [of u' bs "bs = [KEY_ESC]" ph now routed_default] d
      by (cases "ph = Confirming") auto
  qed (simp_all add: quiet)
qed

text \<open>The popup key and a line, typed at the question.\<close>

theorem shown_popup_keeps_its_keys_witness:
  "to_host (snd (ui_keys [0x1c, 0x1c, 0x6c] Confirming 9 ui_new)) = []"
  using shown_popup_keeps_its_keys [of Confirming ui_new "[0x1c, 0x1c, 0x6c]" 9] by simp

section \<open>What keys leave alone\<close>

text \<open>A key of the config screen is the field's, the list's or a command; it never touches the outage or
  the question, and when it closes the popup during an outage the popup counts as closed by hand.\<close>

definition hand_closed :: "phase \<Rightarrow> ui \<Rightarrow> ui \<Rightarrow> bool" where
  "hand_closed ph u u' \<longleftrightarrow>
    ui_asked_at u' = ui_asked_at u \<and> ui_outage_since u' = ui_outage_since u \<and> ui_key u' = ui_key u
    \<and> ((ui_mode u = Closed \<longrightarrow> ui_dismissed u) \<longrightarrow> is_outage ph \<longrightarrow> (ui_mode u' = Closed \<longrightarrow> ui_dismissed u'))"

lemma hand_closed_refl: "hand_closed ph u u"
  by (simp add: hand_closed_def)

lemma hand_closed_trans: "hand_closed ph u u1 \<Longrightarrow> hand_closed ph u1 u2 \<Longrightarrow> hand_closed ph u u2"
  by (auto simp: hand_closed_def)

lemma hand_closed_open:
  "ui_asked_at u' = ui_asked_at u \<Longrightarrow> ui_outage_since u' = ui_outage_since u \<Longrightarrow> ui_key u' = ui_key u
    \<Longrightarrow> ui_mode u' \<noteq> Closed \<or> ui_mode u' = ui_mode u \<and> ui_dismissed u' = ui_dismissed u \<Longrightarrow> hand_closed ph u u'"
  by (auto simp: hand_closed_def)

definition config_command :: "command option \<Rightarrow> bool" where
  "config_command c \<longleftrightarrow> c = None \<or> c = Some CmdQuit \<or> (\<exists>k. c = Some (CmdConfig k))"

lemma config_command_simps [simp]:
  "config_command None" "config_command (Some CmdQuit)" "config_command (Some (CmdConfig k))"
  by (simp_all add: config_command_def)

lemma field_key_step:
  assumes "field_key k cursor e u = (over, u', c)" "ui_mode u = Config cursor e"
  shows "hand_closed ph u u' \<and> config_command c"
proof -
  have "ui_asked_at (ui_accepted u) = ui_asked_at u" "ui_outage_since (ui_accepted u) = ui_outage_since u"
    "ui_key (ui_accepted u) = ui_key u" "ui_mode (ui_accepted u) \<noteq> Closed"
    using assms(2) by (auto simp: ui_accepted_def Let_def split: editing.split option.split)
  then show ?thesis
    using assms
    by (auto simp: field_key_def no_cmd_def cmd_def Let_def intro!: hand_closed_open
        split: if_splits editing.splits option.splits key.splits)
qed

lemma capture_key_step:
  "capture_key k cursor u = (over, u', c) \<Longrightarrow> hand_closed ph u u' \<and> config_command c"
  by (auto simp: capture_key_def no_cmd_def cmd_def intro!: hand_closed_open split: if_splits key.splits)

lemma servers_key_step:
  "servers_key k cursor at u = (over, u', c) \<Longrightarrow> hand_closed ph u u' \<and> config_command c"
  by (auto simp: servers_key_def no_cmd_def cmd_def Let_def intro!: hand_closed_open split: if_splits)

lemma save_key_step: "save_key k cursor u = (over, u', c) \<Longrightarrow> hand_closed ph u u' \<and> config_command c"
  by (auto simp: save_key_def no_cmd_def cmd_def intro!: hand_closed_open split: if_splits)

lemma hand_closed_shut:
  "ui_asked_at u1 = ui_asked_at u \<Longrightarrow> ui_outage_since u1 = ui_outage_since u \<Longrightarrow> ui_key u1 = ui_key u
    \<Longrightarrow> hand_closed ph u (if is_outage ph then u1\<lparr>ui_dismissed := True\<rparr> else u1)"
  by (simp add: hand_closed_def)

lemma browse_key_step:
  assumes "browse_key k ph cursor u = (over, u', c)" "is_config (ui_mode u)"
  shows "hand_closed ph u u' \<and> config_command c"
proof -
  have "hand_closed ph u (leave_config u)" using assms(2) by (intro hand_closed_open) (simp_all add: leave_same)
  moreover have "hand_closed ph u (if is_outage ph then (leave_config u)\<lparr>ui_mode := Closed, ui_dismissed := True\<rparr>
      else (leave_config u)\<lparr>ui_mode := Closed\<rparr>)"
    using hand_closed_shut [of "(leave_config u)\<lparr>ui_mode := Closed\<rparr>" u ph] by (simp add: leave_same)
  ultimately show ?thesis
    using assms(1)
    by (auto simp: browse_key_def no_cmd_def cmd_def Let_def hand_closed_refl intro!: hand_closed_open split: if_splits)
qed

lemma config_key_step:
  assumes "config_key k ph u = (over, u', c)"
  shows "hand_closed ph u u' \<and> config_command c"
proof (cases "ui_mode u")
  case (Config cursor e)
  then have "is_config (ui_mode u)" by (simp add: is_config_def)
  with assms Config show ?thesis
    by (auto simp: config_key_def split: editing.splits if_splits
        dest: field_key_step capture_key_step servers_key_step save_key_step browse_key_step)
qed (use assms in \<open>auto simp: config_key_def hand_closed_refl\<close>)

lemma ui_paste_step:
  assumes "ui_paste bs u = (u', rest)"
  shows "hand_closed ph u u' \<and> ui_mode u' = ui_mode u"
proof -
  have "hand_closed ph u (fold paste_byte ds u) \<and> ui_mode (fold paste_byte ds u) = ui_mode u" for ds
    by (induction ds arbitrary: u) (auto simp: paste_byte_def hand_closed_def)
  with assms show ?thesis
    by (auto simp: ui_paste_def hand_closed_def split: prod.splits)
qed

lemma hand_closed_pasting: "hand_closed ph (u\<lparr>ui_pasting := p\<rparr>) u' \<longleftrightarrow> hand_closed ph u u'"
  "hand_closed ph (u\<lparr>ui_note := n\<rparr>) u' \<longleftrightarrow> hand_closed ph u u'"
  by (simp_all add: hand_closed_def)

text \<open>The rule for a read on the config screen: what every key and every paste keeps.\<close>

lemma config_loop_rule:
  assumes "config_loop rest lone ph u = (u', c)" and "I u"
    and key: "\<And>k u over u1 c. I u \<Longrightarrow> is_config (ui_mode u) \<Longrightarrow> config_key k ph u = (over, u1, c)
      \<Longrightarrow> if over then J u1 c else I u1"
    and paste: "\<And>bs u u1 rest. I u \<Longrightarrow> ui_paste bs (u\<lparr>ui_pasting := Some 0\<rparr>) = (u1, rest) \<Longrightarrow> I u1"
    and stop: "\<And>u. I u \<Longrightarrow> J u None"
  shows "J u' c"
  using assms(1,2)
proof (induction "length rest" arbitrary: rest u rule: less_induct)
  case less
  have at_key: "J u' c" if "is_config (ui_mode u)" "length r < length rest"
    "(case config_key k ph u of (True, u1, c) \<Rightarrow> (u1, c) | (False, u1, _) \<Rightarrow> config_loop r lone ph u1) = (u', c)" for k r
  proof -
    obtain over u1 c1 where k: "config_key k ph u = (over, u1, c1)" by (metis prod_cases3)
    from key [OF less.prems(2) that(1) k] that(2,3) k less.hyps [OF that(2)] show ?thesis
      by (cases over) auto
  qed
  show ?case
  proof (cases rest)
    case Nil
    with less.prems stop show ?thesis by (auto simp: config_loop.simps)
  next
    case (Cons b tail)
    show ?thesis
    proof (cases "is_config (ui_mode u)")
      case False
      with less.prems Cons stop show ?thesis by (auto simp: config_loop.simps)
    next
      case True
      note unf = less.prems(1) [unfolded Cons config_loop.simps [of "b # tail"] list.case]
      show ?thesis
      proof (cases "b = KEY_ESC \<and> \<not> lone")
        case esc: True
        obtain k used where e: "escape_seq tail = (k, used)" by fastforce
        show ?thesis
        proof (cases k)
          case (Some key)
          have "(case config_key key ph u of (True, u1, c) \<Rightarrow> (u1, c)
              | (False, u1, _) \<Rightarrow> config_loop (drop used tail) lone ph u1) = (u', c)"
            using unf True esc e Some by simp
          from at_key [OF True _ this] show ?thesis by (simp add: Cons)
        next
          case None
          obtain u1 r1 where p: "ui_paste (drop used tail) (u\<lparr>ui_pasting := Some 0\<rparr>) = (u1, r1)" by fastforce
          have "config_loop r1 lone ph u1 = (u', c) \<or> config_loop (drop used tail) lone ph u = (u', c)"
            using unf True esc e None p by (auto split: if_splits)
          moreover have "length r1 < length rest"
            using ui_paste_rest [OF p [symmetric]] by (simp add: Cons)
          ultimately show ?thesis
            using less.hyps [of r1 u1] less.hyps [of "drop used tail" u] less.prems(2) paste [OF less.prems(2) p]
            by (auto simp: Cons)
        qed
      next
        case False
        then have "(case config_key (Byte b) ph u of (True, u1, c) \<Rightarrow> (u1, c)
            | (False, u1, _) \<Rightarrow> config_loop tail lone ph u1) = (u', c)"
          using unf True by (simp split: if_splits)
        from at_key [OF True _ this] show ?thesis by (simp add: Cons)
      qed
    qed
  qed
qed

lemma config_loop_step:
  assumes "config_loop rest lone ph u = (u', c)"
  shows "hand_closed ph u u' \<and> config_command c"
proof (rule config_loop_rule [OF assms, of "hand_closed ph u"])
  fix k v over v1 c1
  assume "hand_closed ph u v" "config_key k ph v = (over, v1, c1)"
  then show "if over then hand_closed ph u v1 \<and> config_command c1 else hand_closed ph u v1"
    using config_key_step hand_closed_trans by auto
next
  fix bs v v1 rest
  assume "hand_closed ph u v" "ui_paste bs (v\<lparr>ui_pasting := Some 0\<rparr>) = (v1, rest)"
  then show "hand_closed ph u v1"
    using ui_paste_step [of bs "v\<lparr>ui_pasting := Some 0\<rparr>" v1 rest ph] by (auto simp: hand_closed_pasting intro: hand_closed_trans)
qed (simp_all add: hand_closed_refl)

lemma config_keys_step: "config_keys bs ph u = (u', r) \<Longrightarrow> hand_closed ph u u' \<and> config_command (command r)"
  by (auto simp: config_keys_def hand_closed_pasting split: prod.splits dest!: config_loop_step)

lemma sessions_keys_step:
  assumes "sessions_keys bs ph now u = (u', r)"
  shows "ui_asked_at u' = ui_asked_at u \<and> ui_outage_since u' = ui_outage_since u \<and> ui_key u' = ui_key u
    \<and> (command r = None \<or> command r = Some CmdQuit \<or> (\<exists>a. command r = Some (CmdAsk a)))"
  using assms
  by (auto simp: sessions_keys_def Let_def routed_default_def split: if_splits prod.splits option.splits out.splits)

lemma shown_key_step:
  assumes "shown_key b ph now u r = (over, u', r')"
  shows "hand_closed ph u u'
    \<and> (if over then (\<exists>c. command r' = Some c \<and> shown_command b ph now u = Some c) \<or> command r' = command r
          \<or> command r' = Some (CmdAsk AskSessions) \<and> ph = Live
       else command r' = command r)"
proof -
  have t: "hand_closed ph u (touch u)" "hand_closed ph u (open_sessions u)"
    by (auto intro!: hand_closed_open simp: touch_same open_sessions_same) (auto simp: open_sessions_def leave_same touch_def Let_def split: mode.splits)
  show ?thesis
  proof (cases "shown_command b ph now u")
    case (Some c)
    with assms show ?thesis by (auto simp: shown_key_command hand_closed_refl)
  next
    case None
    have cl: "hand_closed ph u (fst (ui_close b ph now u r)) \<and> command (snd (ui_close b ph now u r)) = command r"
      using hand_closed_shut [of "u\<lparr>ui_mode := Closed\<rparr>" u ph] by (auto simp: ui_close_def Let_def deliver_def)
    have cfg: "hand_closed ph u (u\<lparr>ui_mode := Config 0 EditingNone, ui_config_decided := x\<rparr>)" for x
      by (intro hand_closed_open) simp_all
    from assms None t cl cfg show ?thesis
      by (auto simp: shown_key_def Let_def split: if_split_asm prod.splits)
  qed
qed

text \<open>A command of the status view is one its key stands for at this moment.\<close>

definition status_command :: "phase \<Rightarrow> instant \<Rightarrow> ui \<Rightarrow> command option \<Rightarrow> bool" where
  "status_command ph now u c \<longleftrightarrow> c = None \<or> c = Some (CmdAsk AskSessions) \<and> ph = Live
    \<or> (if ph = Confirming then answerable now u else c = Some CmdQuit)"

lemma shown_command_ok: "shown_command b ph now u = Some c \<Longrightarrow> status_command ph now u (Some c)"
  by (auto simp: shown_command_def status_command_def Let_def split: if_splits)

lemma status_command_same: "ui_asked_at u1 = ui_asked_at u \<Longrightarrow> status_command ph now u1 c = status_command ph now u c"
  by (simp add: status_command_def answerable_def)

lemma status_keys_step:
  assumes "status_keys bs lone ph now u r = (u', r')" "command r = None"
  shows "hand_closed ph u u' \<and> status_command ph now u (command r')"
  using assms
proof (induction bs arbitrary: u r)
  case Nil
  then show ?case by (auto simp: hand_closed_refl status_command_def)
next
  case (Cons b bs)
  have go: "hand_closed ph u u' \<and> status_command ph now u (command r')"
    if "status_keys bs lone ph now u1 r1 = (u', r')" "hand_closed ph u u1" "command r1 = None" for u1 r1
    using Cons.IH [OF that(1,3)] that(2) status_command_same [of u1 u]
    by (auto simp: hand_closed_def intro: hand_closed_trans)
  have "hand_closed ph u (u\<lparr>ui_mode := Open (Some now)\<rparr>)" "hand_closed ph u (touch u)"
    by (auto intro!: hand_closed_open simp: touch_same touch_def split: mode.splits)
  moreover obtain over u1 r1 where k: "shown_key b ph now u r = (over, u1, r1)" by (metis prod_cases3)
  moreover have "command (deliver b ph r) = command r" by (simp add: deliver_def)
  moreover note step = shown_key_step [OF k] shown_command_ok
  ultimately show ?case
    using Cons.prems go
    by (auto simp: hand_closed_refl status_command_def [where c = None] split: if_split_asm)
      (auto simp: status_command_def)
qed

lemma ui_keys_asked: "ui_asked_at (fst (ui_keys bs ph now u)) = asked ph now u"
proof (cases rule: ui_keys_cases [of bs ph now u])
  case (selector u')
  then show ?thesis
    using sessions_keys_step [of bs ph now u'] by (metis prod.collapse)
next
  case (screen u' bs')
  then show ?thesis
    using config_keys_step [of bs' ph u'] by (metis hand_closed_def prod.collapse)
next
  case (status u')
  then show ?thesis
    using status_keys_step [of bs "bs = [KEY_ESC]" ph now u' routed_default]
    by (metis hand_closed_def prod.collapse routed.select_convs(3) routed_default_def)
qed

lemma held_answer:
  assumes "command (snd (ui_keys bs ph now u)) = Some c" "ph = Confirming \<or> c = SendHeld \<or> c = DropHeld"
  shows "ph = Confirming \<and> (\<exists>t. ui_asked_at u = Some t \<and> ANSWER_GUARD \<le> duration_since now t)"
proof (cases rule: ui_keys_cases [of bs ph now u])
  case (selector u')
  then show ?thesis
    using sessions_keys_step [of bs ph now u'] assms by (cases "sessions_keys bs ph now u'") auto
next
  case (screen u' bs')
  then show ?thesis
    using config_keys_step [of bs' ph u'] assms by (cases "config_keys bs' ph u'") (auto simp: config_command_def)
next
  case (status u')
  have "command routed_default = None" by (simp add: routed_default_def)
  with status have "status_command ph now u' (Some c)"
    using status_keys_step [of bs "bs = [KEY_ESC]" ph now u' routed_default] assms(1) by (metis prod.collapse)
  then have a: "ph = Confirming" "answerable now u'"
    using assms(2) by (auto simp: status_command_def split: if_splits)
  with status(8) guard_blocks_now [of now] show ?thesis
    by (auto simp: answerable_def asked_def note_question_def split: option.splits)
qed

section \<open>The question about held input\<close>

text \<open>What the session does to the popup, in the order it does it.\<close>

datatype ui_event =
    EvTick phase instant
  | EvRead bytes phase instant
  | EvSwitcher bool bool
  | EvOpenSessions
  | EvClosePopup
  | EvRetune "u8 option" duration "duration option"
  | EvText ustr
  | EvCapture
  | EvServers "ustr list"
  | EvAccepted
  | EvSay ustr
  | EvSelector "selector \<Rightarrow> selector"

fun ui_step :: "ui_event \<Rightarrow> ui \<Rightarrow> ui" where
  "ui_step (EvTick ph now) u = snd (tick ph now u)"
| "ui_step (EvRead bs ph now) u = fst (ui_keys bs ph now u)"
| "ui_step (EvSwitcher lobby busy) u = set_switcher lobby busy u"
| "ui_step EvOpenSessions u = open_sessions u"
| "ui_step EvClosePopup u = close_popup u"
| "ui_step (EvRetune key linger after) u = ui_retune key linger after u"
| "ui_step (EvText t) u = open_text t u"
| "ui_step EvCapture u = open_capture u"
| "ui_step (EvServers l) u = open_servers l u"
| "ui_step EvAccepted u = ui_accepted u"
| "ui_step (EvSay t) u = ui_say t u"
| "ui_step (EvSelector f) u = u\<lparr>ui_selector := f (ui_selector u)\<rparr>"

fun seen_phase :: "ui_event \<Rightarrow> (phase \<times> instant) option" where
  "seen_phase (EvTick ph now) = Some (ph, now)"
| "seen_phase (EvRead _ ph now) = Some (ph, now)"
| "seen_phase _ = None"

lemma tick_outage_same: "ui_asked_at (snd (tick_outage ph now u)) = ui_asked_at u"
  unfolding tick_outage_def Let_def
  by (cases "ui_outage_since u"; cases "ui_mode u") (simp_all add: leave_same)

lemma tick_answering_same:
  "ui_asked_at (snd (tick_answering ph now u)) = ui_asked_at u"
  "ui_outage_since (snd (tick_answering ph now u)) = None"
  unfolding tick_answering_def Let_def
  by (cases "ui_outage_since u"; cases "ui_mode u"; simp)+

lemma tick_asked: "ui_asked_at (snd (tick ph now u)) = asked ph now u"
  by (simp add: tick_def tick_outage_same tick_answering_same asked_def leave_same Let_def)

lemma step_asked:
  "ui_asked_at (ui_step e u) = (case seen_phase e of Some (ph, now) \<Rightarrow> asked ph now u | None \<Rightarrow> ui_asked_at u)"
proof (cases e)
  case EvAccepted
  then show ?thesis by (auto simp: ui_accepted_def Let_def split: mode.split editing.split option.split)
qed (auto simp: tick_asked ui_keys_asked set_switcher_def open_sessions_def close_popup_def ui_retune_def open_text_def
    open_capture_def open_servers_def ui_say_def leave_same Let_def split: mode.split)

text \<open>The question has been up since \<open>t\<close>: it was seen then, and by every lap and read since.\<close>

definition up_since :: "ui_event list \<Rightarrow> instant \<Rightarrow> bool" where
  "up_since es t \<longleftrightarrow> (\<exists>pre e post. es = pre @ e # post \<and> seen_phase e = Some (Confirming, t)
    \<and> (\<forall>x\<in>set post. \<forall>ph now. seen_phase x = Some (ph, now) \<longrightarrow> ph = Confirming))"

lemma up_since_last: "seen_phase e = Some (Confirming, t) \<Longrightarrow> up_since (es @ [e]) t"
  unfolding up_since_def by (rule exI [of _ es]) auto

lemma up_since_more:
  assumes "up_since es t" "\<forall>ph now. seen_phase e = Some (ph, now) \<longrightarrow> ph = Confirming"
  shows "up_since (es @ [e]) t"
proof -
  from assms(1) obtain pre x post where "es = pre @ x # post" "seen_phase x = Some (Confirming, t)"
    "\<forall>y\<in>set post. \<forall>ph now. seen_phase y = Some (ph, now) \<longrightarrow> ph = Confirming"
    by (auto simp: up_since_def)
  with assms(2) show ?thesis
    unfolding up_since_def by (intro exI [of _ pre] exI [of _ x] exI [of _ "post @ [e]"]) auto
qed

lemma asked_at_up_since: "ui_asked_at (fold ui_step es ui_new) = Some t \<Longrightarrow> up_since es t"
proof (induction es arbitrary: t rule: rev_induct)
  case Nil
  then show ?case by (simp add: ui_new_def)
next
  case (snoc e es)
  then have "(case seen_phase e of Some (ph, now) \<Rightarrow> asked ph now (fold ui_step es ui_new)
      | None \<Rightarrow> ui_asked_at (fold ui_step es ui_new)) = Some t"
    by (simp add: step_asked)
  then consider "seen_phase e = None" "ui_asked_at (fold ui_step es ui_new) = Some t"
    | now where "seen_phase e = Some (Confirming, now)" "ui_asked_at (fold ui_step es ui_new) = Some t"
    | "seen_phase e = Some (Confirming, t)"
    by (auto simp: asked_def note_question_def split: option.splits if_splits)
  then show ?case
  proof cases
    case 1
    with snoc.IH show ?thesis by (intro up_since_more) auto
  next
    case 2
    with snoc.IH show ?thesis by (intro up_since_more) auto
  next
    case 3
    then show ?thesis by (rule up_since_last)
  qed
qed



section \<open>A popup closed by hand\<close>

lemma ui_keys_hand_closed:
  assumes "ui_mode u \<noteq> Sessions" "is_outage ph" "ui_mode u = Closed \<longrightarrow> ui_dismissed u"
  shows "ui_outage_since (fst (ui_keys bs ph now u)) = ui_outage_since u
    \<and> (ui_mode (fst (ui_keys bs ph now u)) = Closed \<longrightarrow> ui_dismissed (fst (ui_keys bs ph now u)))"
proof (cases rule: ui_keys_cases [of bs ph now u])
  case (selector u')
  with assms(1) show ?thesis by simp
next
  case (screen u' bs')
  then show ?thesis
    using config_keys_step [of bs' ph u'] assms by (cases "config_keys bs' ph u'") (auto simp: hand_closed_def)
next
  case (status u')
  have "ph \<noteq> Confirming" using assms(2) by auto
  with status assms show ?thesis
    using status_keys_step [of bs "bs = [KEY_ESC]" ph now u' routed_default]
    by (cases "status_keys bs (bs = [KEY_ESC]) ph now u' routed_default") (auto simp: hand_closed_def routed_default_def)
qed

lemma tick_dismissed:
  assumes "is_outage ph" "ui_mode u = Closed" "ui_dismissed u" "ui_outage_since u \<noteq> None"
  shows "let u' = snd (tick ph now u) in
    ui_mode u' = Closed \<and> ui_dismissed u' \<and> ui_outage_since u' \<noteq> None \<and> ui_key u' = ui_key u"
proof -
  have "ph \<noteq> Confirming" using assms(1) by auto
  with assms show ?thesis
    by (simp add: tick_def tick_outage_def note_question_def Let_def)
qed

text \<open>One lap of the session: the phase, and what was read.\<close>

definition ui_lap :: "phase \<times> instant \<times> bytes \<Rightarrow> ui \<Rightarrow> ui" where
  "ui_lap l u = (case l of (ph, now, bs) \<Rightarrow> fst (ui_keys bs ph now (snd (tick ph now u))))"

lemma closed_read:
  assumes "ui_mode u = Closed" "ph \<noteq> Confirming" "\<forall>b\<in>set bs. Some b \<noteq> ui_key u"
  shows "fst (ui_keys bs ph now u) = (note_question ph now u)\<lparr>ui_pasting := None\<rparr>"
proof -
  let ?u = "(note_question ph now u)\<lparr>ui_pasting := None\<rparr>"
  have u: "ui_mode ?u = Closed" "\<forall>b\<in>set bs. Some b \<noteq> ui_key ?u"
    using assms by (simp_all add: note_question_same)
  have "ui_keys bs ph now u = status_keys bs (bs = [KEY_ESC]) ph now ?u routed_default"
    using assms(2) u(1) by (simp add: ui_keys_def is_config_def)
  with status_keys_closed [OF u(1) assms(2) u(2), of "bs = [KEY_ESC]" now "[]"] show ?thesis
    unfolding delivered_simps(1) by simp
qed

lemma laps_closed:
  assumes "ui_mode u = Closed" "ui_dismissed u" "ui_outage_since u \<noteq> None"
    and "\<forall>(ph, now, bs)\<in>set ls. is_outage ph \<and> (\<forall>b\<in>set bs. Some b \<noteq> ui_key u)"
  shows "ui_mode (fold ui_lap ls u) = Closed"
  using assms
proof (induction ls arbitrary: u)
  case (Cons l ls)
  obtain ph now bs where l: "l = (ph, now, bs)" by (metis prod_cases3)
  let ?t = "snd (tick ph now u)"
  have ph: "is_outage ph" "ph \<noteq> Confirming" "\<forall>b\<in>set bs. Some b \<noteq> ui_key u" using Cons.prems(4) l by auto
  note t = tick_dismissed [OF ph(1) Cons.prems(1-3), of now, unfolded Let_def]
  have "ui_lap l u = (note_question ph now ?t)\<lparr>ui_pasting := None\<rparr>"
    using closed_read [of ?t ph bs now] t ph by (simp add: ui_lap_def l)
  then have "ui_mode (ui_lap l u) = Closed" "ui_dismissed (ui_lap l u)" "ui_outage_since (ui_lap l u) \<noteq> None"
    "ui_key (ui_lap l u) = ui_key u"
    using t by (simp_all add: note_question_same)
  with Cons.IH [of "ui_lap l u"] Cons.prems(4) show ?case by simp
qed simp

text \<open>C23: a popup closed by hand during an outage stays closed for as long as the outage lasts: once a key
  on the status view or the config screen has closed it, no later lap opens it again, however long the
  link stays silent and whatever is typed but the popup key.\<close>

theorem closed_by_hand_stays_closed:
  assumes "is_outage ph" and "ui_outage_since u \<noteq> None" and "ui_mode u \<noteq> Closed" and "ui_mode u \<noteq> Sessions"
    and "ui_mode (fst (ui_keys bs ph now u)) = Closed"
    and "\<forall>(ph', now', bs')\<in>set ls. is_outage ph' \<and> (\<forall>b\<in>set bs'. Some b \<noteq> ui_key (fst (ui_keys bs ph now u)))"
  shows "ui_mode (fold ui_lap ls (fst (ui_keys bs ph now u))) = Closed"
  using ui_keys_hand_closed [OF assms(4,1), of bs now] assms(2,3,5,6) by (intro laps_closed) auto

definition sample_outage :: ui where
  "sample_outage = ui_new\<lparr>ui_mode := Auto, ui_outage_since := Some 5\<rparr>"

text \<open>Esc on a popup that opened by itself, and the laps after it.\<close>

theorem closed_by_hand_stays_closed_witness:
  "ui_mode (fold ui_lap [(Silent 5, 100, [0x6c]), (Recovering 0 300, 200, [])]
    (fst (ui_keys [KEY_ESC] (Silent 5) 90 sample_outage))) = Closed"
proof (rule closed_by_hand_stays_closed)
  have u: "fst (ui_keys [KEY_ESC] (Silent 5) 90 sample_outage) = sample_outage\<lparr>ui_mode := Closed, ui_dismissed := True\<rparr>"
    by (simp add: sample_outage_def ui_new_def ui_keys_def note_question_def is_config_def visible_def shown_key_def
        shown_command_def ui_close_def KEY_ESC_def PREFIX_def)
  then show "ui_mode (fst (ui_keys [KEY_ESC] (Silent 5) 90 sample_outage)) = Closed" by simp
  show "\<forall>(ph', now', bs')\<in>set [(Silent 5, 100, [0x6c]), (Recovering 0 300, 200, [])]. is_outage ph'
      \<and> (\<forall>b\<in>set bs'. Some b \<noteq> ui_key (fst (ui_keys [KEY_ESC] (Silent 5) 90 sample_outage)))"
    unfolding u by (simp add: sample_outage_def ui_new_def PREFIX_def)
qed (simp_all add: sample_outage_def ui_new_def)

text \<open>The selector is the exception: Enter on the session the client is in closes the popup without counting
  as closed by hand, and the next lap of the outage opens it again.\<close>

definition sample_own_row :: ui where
  "sample_own_row = ui_new\<lparr>ui_mode := Sessions, ui_outage_since := Some 5,
    ui_selector := selector_default\<lparr>sl_rows := [\<lparr>se_id = [], se_name = None, se_shell = [], se_created_unix = 0,
      se_size = \<lparr>ts_cols = 1, ts_rows = 1\<rparr>, se_detachable = True, se_attached = Here, se_this = True\<rparr>]\<rparr>\<rparr>"

lemma own_row_reopens:
  "ui_mode (fst (ui_keys [0x0d] (Silent 5) 90 sample_own_row)) = Closed
    \<and> ui_mode (ui_lap (Silent 5, 100, []) (fst (ui_keys [0x0d] (Silent 5) 90 sample_own_row))) = Auto"
proof -
  have s: "sel_keys [0x0d] \<lparr>cx_live = False, cx_lobby = False, cx_busy = False\<rparr> 90 (ui_selector sample_own_row)
      = (Some OutClose, ui_selector sample_own_row)"
    by (simp add: sel_keys_def sel_loop_byte KEY_ESC_def sample_own_row_def selector_default_def sel_key_def
        is_enter_def sel_enter_def row_at_def)
  have u: "fst (ui_keys [0x0d] (Silent 5) 90 sample_own_row) = sample_own_row\<lparr>ui_mode := Closed\<rparr>"
    using s by (simp add: ui_keys_def note_question_def sessions_keys_def sample_own_row_def ui_new_def PREFIX_def Let_def)
  show ?thesis
    unfolding u ui_lap_def
    by (simp add: sample_own_row_def ui_new_def tick_def tick_outage_def note_question_def auto_due_def ui_keys_def
        is_config_def)
qed

section \<open>Rows and markers in range\<close>

fun config_row :: "config_cmd \<Rightarrow> nat option" where
  "config_row (CmdEdit row) = Some row"
| "config_row (CmdAccept row _) = Some row"
| "config_row (CmdCapture row _) = Some row"
| "config_row (CmdServers row _) = Some row"
| "config_row (CmdReset row) = Some row"
| "config_row (CmdSave _) = None"

definition row_ok :: "mode \<Rightarrow> bool" where
  "row_ok m = (case m of Config c _ \<Rightarrow> c < length SETTINGS | _ \<Rightarrow> True)"

definition mark_ok :: "nat option \<Rightarrow> bool" where
  "mark_ok p = (case p of Some n \<Rightarrow> n < length PASTE_END | None \<Rightarrow> True)"

definition command_ok :: "command option \<Rightarrow> bool" where
  "command_ok c = (case c of
     Some (CmdConfig k) \<Rightarrow> (case config_row k of Some row \<Rightarrow> row < length SETTINGS | None \<Rightarrow> True) | _ \<Rightarrow> True)"

definition in_range_ui :: "ui \<Rightarrow> bool" where
  "in_range_ui u \<longleftrightarrow> row_ok (ui_mode u) \<and> mark_ok (ui_pasting u)"

lemma row_ok_simps [simp]:
  "row_ok Closed" "row_ok (Open p)" "row_ok Auto" "row_ok (Lingering s d)" "row_ok Sessions"
  "row_ok (Config c e) \<longleftrightarrow> c < 13"
  by (simp_all add: row_ok_def)

lemma command_ok_simps [simp]:
  "command_ok None" "command_ok (Some CmdQuit)" "command_ok (Some SendHeld)" "command_ok (Some DropHeld)"
  "command_ok (Some (CmdAsk a))" "command_ok (Some (CmdConfig (CmdEdit i))) \<longleftrightarrow> i < 13"
  "command_ok (Some (CmdConfig (CmdAccept i t))) \<longleftrightarrow> i < 13" "command_ok (Some (CmdConfig (CmdCapture i k))) \<longleftrightarrow> i < 13"
  "command_ok (Some (CmdConfig (CmdServers i l))) \<longleftrightarrow> i < 13" "command_ok (Some (CmdConfig (CmdReset i))) \<longleftrightarrow> i < 13"
  "command_ok (Some (CmdConfig (CmdSave lv)))"
  by (simp_all add: command_ok_def)

lemma mark_ok_simps [simp]: "mark_ok None" "mark_ok (Some 0)"
  by (simp_all add: mark_ok_def PASTE_END_def)

lemma paste_through_mark: "mark_ok p \<Longrightarrow> mark_ok (fst (snd (paste_through p bs)))"
proof (induction p bs rule: paste_through.induct)
  case (2 p b bs)
  let ?m = "case p of Some n \<Rightarrow> n | None \<Rightarrow> 0"
  have m: "?m < length PASTE_END" using 2(3) by (cases p) (simp_all add: mark_ok_def PASTE_END_def)
  have again: "mark_ok (Some (if c then 1 else 0))" for c by (simp add: mark_ok_def PASTE_END_def)
  show ?case
  proof (cases "b = PASTE_END ! ?m")
    case True
    with m 2(1) [OF refl True] show ?thesis
      by (cases "?m + 1 = length PASTE_END") (simp_all add: Let_def mark_ok_def)
  next
    case False
    obtain sunk p' rest where r: "paste_through (Some (if b = PASTE_END ! 0 then 1 else 0)) bs = (sunk, p', rest)"
      by (metis prod_cases3)
    with 2(2) [OF refl False refl again] have "mark_ok p'" by simp
    with False r show ?thesis by (simp add: Let_def split: if_splits)
  qed
qed simp

lemma config_key_range:
  assumes "config_key k ph u = (over, u', c)" "in_range_ui u"
  shows "in_range_ui u' \<and> command_ok c"
proof (cases "ui_mode u")
  case (Config cursor e)
  with assms(2) have i: "cursor < 13" "mark_ok (ui_pasting u)" by (simp_all add: in_range_ui_def)
  have lc: "ui_pasting (leave_config u) = None" "ui_mode (leave_config u) = Open None"
    using Config by (simp_all add: leave_config_def is_config_def)
  have ac: "in_range_ui (ui_accepted u)"
    using Config i by (auto simp: ui_accepted_def in_range_ui_def Let_def split: editing.split option.split)
  have fk: "in_range_ui u' \<and> command_ok c" if "field_key k cursor e u = (over, u', c)"
    using that Config i ac
    by (auto simp: field_key_def no_cmd_def cmd_def Let_def in_range_ui_def
        split: if_splits editing.splits option.splits key.splits)
  have sk: "in_range_ui u' \<and> command_ok c" if "servers_key k cursor at u = (over, u', c)" for at
    using that Config i by (auto simp: servers_key_def no_cmd_def cmd_def Let_def in_range_ui_def split: if_splits)
  have ck: "in_range_ui u' \<and> command_ok c" if "capture_key k cursor u = (over, u', c)"
    using that Config i by (auto simp: capture_key_def no_cmd_def cmd_def in_range_ui_def split: if_splits key.splits)
  have vk: "in_range_ui u' \<and> command_ok c" if "save_key k cursor u = (over, u', c)"
    using that Config i by (auto simp: save_key_def no_cmd_def cmd_def in_range_ui_def split: if_splits)
  have bk: "in_range_ui u' \<and> command_ok c" if "browse_key k ph cursor u = (over, u', c)"
    using that Config i lc by (auto simp: browse_key_def no_cmd_def cmd_def Let_def in_range_ui_def split: if_splits)
  from assms(1) Config fk sk ck vk bk show ?thesis
    by (auto simp: config_key_def split: editing.splits if_splits)
qed (use assms in \<open>auto simp: config_key_def\<close>)

lemma ui_paste_range:
  assumes "ui_paste bs u = (u', rest)" "row_ok (ui_mode u)" "mark_ok (ui_pasting u)"
  shows "in_range_ui u'"
  using assms ui_paste_step [OF assms(1)] paste_through_mark [OF assms(3), of bs]
  by (auto simp: ui_paste_def in_range_ui_def split: prod.splits)

lemma config_keys_range:
  assumes "config_keys bs ph u = (u', r)" "in_range_ui u"
  shows "in_range_ui u' \<and> command_ok (command r)"
proof -
  obtain c where c: "config_loop bs (bs = [KEY_ESC]) ph (u\<lparr>ui_note := None\<rparr>) = (u', c)" "command r = c"
    using assms(1) by (auto simp: config_keys_def split: prod.splits)
  have "in_range_ui u' \<and> command_ok c"
    by (rule config_loop_rule [OF c(1), of in_range_ui])
      (use assms(2) in \<open>auto simp: in_range_ui_def [of "u\<lparr>ui_note := None\<rparr>"] in_range_ui_def [of u]
         dest: config_key_range ui_paste_range simp: in_range_ui_def\<close>)
  with c(2) show ?thesis by simp
qed

lemma shown_key_range:
  assumes "shown_key b ph now u r = (over, u', r')" "in_range_ui u" "command_ok (command r)"
  shows "in_range_ui u' \<and> command_ok (command r')"
proof (cases "shown_command b ph now u")
  case (Some c)
  then have "command_ok (Some c)" by (auto simp: shown_command_def Let_def split: if_splits)
  with Some assms show ?thesis by (auto simp: shown_key_command)
next
  case None
  have t: "in_range_ui (touch u)" using assms(2) by (auto simp: touch_def in_range_ui_def split: mode.split)
  have o: "in_range_ui (open_sessions u)" using assms(2) by (auto simp: open_sessions_def leave_config_def in_range_ui_def Let_def)
  have cl: "in_range_ui (fst (ui_close b ph now u r)) \<and> command (snd (ui_close b ph now u r)) = command r"
    using assms(2) by (auto simp: ui_close_def Let_def deliver_def in_range_ui_def)
  have cfg: "in_range_ui (u\<lparr>ui_mode := Config 0 EditingNone, ui_config_decided := x\<rparr>)" for x
    using assms(2) by (simp add: in_range_ui_def)
  from assms(1,3) None t o cl cfg show ?thesis
    by (auto simp: shown_key_def Let_def split: if_split_asm prod.splits)
qed

lemma status_keys_range:
  assumes "in_range_ui u" "command_ok (command r)"
  shows "in_range_ui (fst (status_keys bs lone ph now u r)) \<and> command_ok (command (snd (status_keys bs lone ph now u r)))"
  using assms
proof (induction bs arbitrary: u r)
  case (Cons b bs)
  obtain over u1 r1 where k: "shown_key b ph now u r = (over, u1, r1)" by (metis prod_cases3)
  have "in_range_ui (touch u)" using Cons.prems(1) by (auto simp: touch_def in_range_ui_def split: mode.split)
  moreover have "in_range_ui (u\<lparr>ui_mode := Open (Some now)\<rparr>)" using Cons.prems(1) by (simp add: in_range_ui_def)
  moreover have "command_ok (command (deliver b ph r))" using Cons.prems(2) by (simp add: deliver_def)
  moreover note shown_key_range [OF k Cons.prems]
  ultimately show ?case using Cons by (auto simp: k)
qed simp

lemma note_question_pasting: "ui_pasting (note_question ph now u) = ui_pasting u"
  by (simp add: note_question_def)

lemma leave_range: "in_range_ui u \<Longrightarrow> in_range_ui (leave_config u)" "in_range_ui u \<Longrightarrow> in_range_ui (leave_sessions u)"
  by (simp_all add: leave_config_def leave_sessions_def in_range_ui_def)

lemma ui_keys_range:
  assumes "in_range_ui u"
  shows "in_range_ui (fst (ui_keys bs ph now u)) \<and> command_ok (command (snd (ui_keys bs ph now u)))"
proof -
  define u2 where "u2 = (if ph = Confirming then leave_sessions (leave_config (note_question ph now u)) else note_question ph now u)"
  have u2: "in_range_ui u2"
    using assms by (auto simp: u2_def in_range_ui_def note_question_same note_question_pasting
        intro!: leave_range [unfolded in_range_ui_def])
  have k: "ui_keys bs ph now u =
      (if ui_mode u2 = Sessions then sessions_keys bs ph now (u2\<lparr>ui_pasting := None\<rparr>)
       else if is_config (ui_mode u2) then
         (let (u3, rest) = (case ui_pasting u2 of Some _ \<Rightarrow> ui_paste bs u2 | None \<Rightarrow> (u2, bs)) in config_keys rest ph u3)
       else status_keys bs (bs = [KEY_ESC]) ph now (u2\<lparr>ui_pasting := None\<rparr>) routed_default)"
    unfolding ui_keys_def u2_def Let_def ..
  have st: "in_range_ui (u2\<lparr>ui_pasting := None\<rparr>)" "command_ok (command routed_default)"
    using u2 by (simp_all add: in_range_ui_def routed_default_def)
  have se: "in_range_ui (fst (sessions_keys bs ph now u')) \<and> command_ok (command (snd (sessions_keys bs ph now u')))"
    if "in_range_ui u'" for u'
    using that
    by (auto simp: sessions_keys_def Let_def routed_default_def in_range_ui_def split: prod.split option.split out.split)
  obtain u3 rest where r: "(case ui_pasting u2 of Some _ \<Rightarrow> ui_paste bs u2 | None \<Rightarrow> (u2, bs)) = (u3, rest)" by fastforce
  have "in_range_ui u3"
    using r u2 ui_paste_range [of bs u2 u3 rest] by (auto simp: in_range_ui_def split: option.splits)
  with config_keys_range [of rest ph u3]
  have "in_range_ui (fst (config_keys rest ph u3)) \<and> command_ok (command (snd (config_keys rest ph u3)))"
    by (cases "config_keys rest ph u3") auto
  with st se status_keys_range [OF st] r show ?thesis by (simp add: k)
qed

lemma tick_range:
  assumes "in_range_ui u"
  shows "in_range_ui (snd (tick ph now u))"
proof -
  have o: "in_range_ui (snd (tick_outage ph now v))" if "in_range_ui v" for v
    using that unfolding tick_outage_def Let_def
    by (cases "ui_outage_since v"; cases "ui_mode v")
      (auto simp: in_range_ui_def intro!: leave_range [unfolded in_range_ui_def] split: if_splits)
  have a: "in_range_ui (snd (tick_answering ph now v))" if "in_range_ui v" for v
    using that unfolding tick_answering_def Let_def
    by (cases "ui_outage_since v"; cases "ui_mode v") (auto simp: in_range_ui_def)
  have "in_range_ui (note_question ph now u)"
    using assms by (simp add: in_range_ui_def note_question_same note_question_pasting)
  with o a leave_range show ?thesis by (auto simp: tick_def Let_def)
qed

lemma step_range: "in_range_ui u \<Longrightarrow> in_range_ui (ui_step e u)"
proof (cases e)
  case EvAccepted
  assume "in_range_ui u"
  with EvAccepted show ?thesis
    by (auto simp: ui_accepted_def in_range_ui_def Let_def split: mode.split editing.split option.split)
qed (use tick_range ui_keys_range leave_range in \<open>auto simp: in_range_ui_def set_switcher_def open_sessions_def
    close_popup_def ui_retune_def open_text_def open_capture_def open_servers_def ui_say_def Let_def split: mode.split\<close>)

text \<open>C37: the config screen never reaches past the table: after any run of the session the cursor is on a row
  of the settings table, a read asks for a change of a row of it only, and a paste in progress has
  matched less than the whole end marker, so the rows and the marker are never indexed out of range.\<close>

theorem config_screen_stays_on_the_table:
  "let u = fold ui_step es ui_new; r = snd (ui_keys bs ph now u) in
     (case ui_mode u of Config c _ \<Rightarrow> c < length SETTINGS | _ \<Rightarrow> True)
     \<and> (case ui_pasting u of Some n \<Rightarrow> n < length PASTE_END | None \<Rightarrow> True)
     \<and> (case command r of
          Some (CmdConfig k) \<Rightarrow> (case config_row k of Some row \<Rightarrow> row < length SETTINGS | None \<Rightarrow> True)
        | _ \<Rightarrow> True)"
proof -
  have "in_range_ui (fold ui_step es ui_new)"
  proof (induction es rule: rev_induct)
    case Nil
    then show ?case by (simp add: in_range_ui_def ui_new_def)
  next
    case (snoc e es)
    then show ?case by (simp add: step_range)
  qed
  with ui_keys_range [OF this, of bs ph now] show ?thesis
    unfolding in_range_ui_def row_ok_def mark_ok_def command_ok_def Let_def by blast
qed

end
