(* ===== verification/Net_Path.thy ===== *)
theory Net_Path
  imports Prelude "HOL-Library.Product_Lexorder"
begin

text \<open>
  Addresses and paths: the address families, rungs and candidates of
  \<open>crates/oxutrm-proto/src/types.rs\<close>, IPv4-mapped addresses (\<open>crates/oxutrm-net/src/socketfam.rs\<close>),
  candidate priorities and the local candidate list (\<open>crates/oxutrm-net/src/candidates.rs\<close>), and
  the watch on the local route (\<open>src/roam.rs\<close>). An IP address is its 32 or 128 bits.
\<close>

unbundle bit_operations_syntax

section \<open>Addresses\<close>

datatype ip_addr = IpV4 u32 | IpV6 "128 word"

datatype sock_addr =
    SockV4 u32 u16
  | SockV6 "128 word" u16 u32 u32

fun sock_ip :: "sock_addr \<Rightarrow> ip_addr" where
  "sock_ip (SockV4 ip _) = IpV4 ip"
| "sock_ip (SockV6 ip _ _ _) = IpV6 ip"

fun sock_new :: "ip_addr \<Rightarrow> u16 \<Rightarrow> sock_addr" where
  "sock_new (IpV4 ip) port = SockV4 ip port"
| "sock_new (IpV6 ip) port = SockV6 ip port 0 0"

definition to_ipv4_mapped :: "128 word \<Rightarrow> u32 option" where
  "to_ipv4_mapped v6 = (if drop_bit 32 v6 = 0xffff then Some (ucast v6) else None)"

definition to_ipv6_mapped :: "u32 \<Rightarrow> 128 word" where
  "to_ipv6_mapped v4 = (push_bit 32 0xffff OR ucast v4)"

fun is_ipv6 :: "ip_addr \<Rightarrow> bool" where
  "is_ipv6 (IpV6 _) = True"
| "is_ipv6 (IpV4 _) = False"

fun is_unspecified :: "ip_addr \<Rightarrow> bool" where
  "is_unspecified (IpV4 a) = (a = 0)"
| "is_unspecified (IpV6 a) = (a = 0)"

fun is_loopback :: "ip_addr \<Rightarrow> bool" where
  "is_loopback (IpV4 a) = (drop_bit 24 a = 127)"
| "is_loopback (IpV6 a) = (a = 1)"

fun is_multicast :: "ip_addr \<Rightarrow> bool" where
  "is_multicast (IpV4 a) = (drop_bit 28 a = 0xe)"
| "is_multicast (IpV6 a) = (drop_bit 120 a = 0xff)"

text \<open>The derived order on socket addresses: IPv4 before IPv6, then field by field.\<close>

fun sock_key :: "sock_addr \<Rightarrow> nat \<times> nat \<times> nat \<times> nat \<times> nat" where
  "sock_key (SockV4 ip port) = (0, unat ip, unat port, 0, 0)"
| "sock_key (SockV6 ip port flow scope) = (1, unat ip, unat port, unat flow, unat scope)"

lemma sock_key_inj: "sock_key a = sock_key b \<longleftrightarrow> a = b"
  by (cases a; cases b) (auto simp: word_unat_eq_iff)

instantiation sock_addr :: linorder
begin

definition less_eq_sock_addr :: "sock_addr \<Rightarrow> sock_addr \<Rightarrow> bool" where
  "less_eq_sock_addr a b = (sock_key a \<le> sock_key b)"

definition less_sock_addr :: "sock_addr \<Rightarrow> sock_addr \<Rightarrow> bool" where
  "less_sock_addr a b = (sock_key a < sock_key b)"

instance
  by standard
    (auto simp: less_eq_sock_addr_def less_sock_addr_def sock_key_inj simp flip: sock_key_inj)

end

section \<open>IPv4-mapped addresses\<close>

fun to_socket_family :: "sock_addr \<Rightarrow> sock_addr \<Rightarrow> sock_addr" where
  "to_socket_family (SockV6 _ _ _ _) (SockV4 ip port) = SockV6 (to_ipv6_mapped ip) port 0 0"
| "to_socket_family _ peer = peer"

fun unmap :: "sock_addr \<Rightarrow> sock_addr" where
  "unmap (SockV6 ip port flow scope) =
     (case to_ipv4_mapped ip of Some v4 \<Rightarrow> SockV4 v4 port | None \<Rightarrow> SockV6 ip port flow scope)"
| "unmap (SockV4 ip port) = SockV4 ip port"

fun unmap_ip :: "ip_addr \<Rightarrow> ip_addr" where
  "unmap_ip (IpV6 ip) = (case to_ipv4_mapped ip of Some v4 \<Rightarrow> IpV4 v4 | None \<Rightarrow> IpV6 ip)"
| "unmap_ip (IpV4 ip) = IpV4 ip"

lemma bit_to_ipv6_mapped:
  "n < 128 \<Longrightarrow> bit (to_ipv6_mapped v4) n =
    (if n < 32 then bit v4 n else bit (0xffff :: 128 word) (n - 32))"
  unfolding to_ipv6_mapped_def bit_or_iff bit_push_bit_iff bit_ucast_iff
  by (auto dest: bit_imp_le_length)

lemma mapped_roundtrip [simp]: "to_ipv4_mapped (to_ipv6_mapped v4) = Some v4"
proof -
  have "drop_bit 32 (to_ipv6_mapped v4) = 0xffff"
  proof (rule bit_word_eqI)
    fix n assume "n < LENGTH(128)"
    moreover have "\<not> bit (0xffff :: 128 word) n" if "128 \<le> n + 32" "n < 128"
    proof -
      have "drop_bit 96 (0xffff :: 128 word) = 0" by simp
      then have "\<not> bit (drop_bit 96 (0xffff :: 128 word)) (n - 96)" by (simp only: bit_0_eq) simp
      with that show ?thesis by (simp only: bit_drop_bit_eq o_apply) simp
    qed
    ultimately show "bit (drop_bit 32 (to_ipv6_mapped v4)) n = bit (0xffff :: 128 word) n"
      by (cases "n + 32 < 128")
        (auto simp: bit_drop_bit_eq bit_to_ipv6_mapped add.commute dest: bit_imp_le_length)
  qed
  moreover have "(ucast (to_ipv6_mapped v4) :: u32) = v4"
    by (rule bit_word_eqI) (simp add: bit_ucast_iff bit_to_ipv6_mapped)
  ultimately show ?thesis
    by (simp add: to_ipv4_mapped_def)
qed

lemma mapped_only: "to_ipv4_mapped v6 = Some v4 \<Longrightarrow> v6 = to_ipv6_mapped v4"
proof -
  assume a: "to_ipv4_mapped v6 = Some v4"
  then have hi: "drop_bit 32 v6 = 0xffff" and lo: "v4 = ucast v6"
    by (auto simp: to_ipv4_mapped_def split: if_splits)
  show ?thesis
  proof (rule bit_word_eqI)
    fix n assume n: "n < LENGTH(128)"
    show "bit v6 n = bit (to_ipv6_mapped v4) n"
    proof (cases "n < 32")
      case True
      with n show ?thesis by (simp add: bit_to_ipv6_mapped lo bit_ucast_iff)
    next
      case False
      have "bit v6 n = bit (drop_bit 32 v6) (n - 32)"
        using False by (simp add: bit_drop_bit_eq)
      with n False show ?thesis
        by (simp add: hi bit_to_ipv6_mapped)
    qed
  qed
qed

lemma unmap_idem: "unmap (unmap a) = unmap a"
  by (cases a) (auto split: option.splits)

lemma unmap_ip_idem [simp]: "unmap_ip (unmap_ip a) = unmap_ip a"
  by (cases a) (auto split: option.splits)

section \<open>Families, rungs and candidates\<close>

datatype candidate_kind = HostCand | PortMappedCand | ServerReflexive | PeerReflexive

datatype nat_type = NatNone | EndpointIndependent | AddressDependent | Symmetric | NatUnknown

datatype family = V4 | V6

record family_nat =
  fn_v4 :: nat_type
  fn_v6 :: nat_type

definition UNKNOWN :: family_nat where
  "UNKNOWN = \<lparr>fn_v4 = NatUnknown, fn_v6 = NatUnknown\<rparr>"

definition nat_get :: "family_nat \<Rightarrow> family \<Rightarrow> nat_type" where
  "nat_get n f = (case f of V4 \<Rightarrow> fn_v4 n | V6 \<Rightarrow> fn_v6 n)"

definition BOTH :: "family list" where
  "BOTH = [V6, V4]"

text \<open>\<open>Family::of\<close>: \<open>IpAddr::to_canonical\<close> turns an IPv4-mapped address into the IPv4 one.\<close>

definition family_of :: "sock_addr \<Rightarrow> family" where
  "family_of a = (if \<not> is_ipv6 (unmap_ip (sock_ip a)) then V4 else V6)"

datatype rung =
    Direct family
  | PortMapped family
  | Punched family
  | Birthday family
  | SshTunnel

definition ALL_RUNGS :: "rung list" where
  "ALL_RUNGS = [Direct V6, Direct V4, PortMapped V6, PortMapped V4, Punched V6, Punched V4,
     Birthday V6, Birthday V4, SshTunnel]"

fun rung_family :: "rung \<Rightarrow> family option" where
  "rung_family (Direct f) = Some f"
| "rung_family (PortMapped f) = Some f"
| "rung_family (Punched f) = Some f"
| "rung_family (Birthday f) = Some f"
| "rung_family SshTunnel = None"

fun method_number :: "rung \<Rightarrow> u8" where
  "method_number (Direct _) = 0"
| "method_number (PortMapped _) = 1"
| "method_number (Punched _) = 2"
| "method_number (Birthday _) = 3"
| "method_number SshTunnel = 4"

fun of_candidate :: "candidate_kind \<Rightarrow> sock_addr \<Rightarrow> rung" where
  "of_candidate PortMappedCand remote = PortMapped (family_of remote)"
| "of_candidate HostCand remote = Direct (family_of remote)"
| "of_candidate ServerReflexive remote = Punched (family_of remote)"
| "of_candidate PeerReflexive remote = Punched (family_of remote)"

record candidate =
  cand_addr :: sock_addr
  cand_kind :: candidate_kind
  cand_priority :: u32

text \<open>The ladder order as a linear order on rungs: the position in \<open>Rung::ALL\<close>.\<close>

definition rung_index :: "rung \<Rightarrow> nat" where
  "rung_index r = 2 * unat (method_number r) + (if rung_family r = Some V4 then 1 else 0)"

lemma ALL_RUNGS_index: "map rung_index ALL_RUNGS = [0..<9]"
  by (simp add: ALL_RUNGS_def rung_index_def upt_rec)

lemma ALL_RUNGS_set [simp]: "set ALL_RUNGS = UNIV"
proof -
  have "r \<in> set ALL_RUNGS" for r
    by (cases r; (cases "the (rung_family r)")?) (auto simp: ALL_RUNGS_def)
  then show ?thesis by blast
qed

lemma ALL_RUNGS_distinct: "distinct ALL_RUNGS"
  by (simp add: ALL_RUNGS_def)

lemma rung_index_inj: "rung_index r = rung_index s \<longleftrightarrow> r = s"
proof -
  have "distinct (map rung_index ALL_RUNGS)"
    unfolding ALL_RUNGS_index by simp
  then have "inj_on rung_index (set ALL_RUNGS)"
    by (simp only: distinct_map)
  then show ?thesis
    by (simp add: inj_eq)
qed

instantiation rung :: linorder
begin

definition less_eq_rung :: "rung \<Rightarrow> rung \<Rightarrow> bool" where
  "less_eq_rung r s = (rung_index r \<le> rung_index s)"

definition less_rung :: "rung \<Rightarrow> rung \<Rightarrow> bool" where
  "less_rung r s = (rung_index r < rung_index s)"

instance
  by standard
    (auto simp: less_eq_rung_def less_rung_def rung_index_inj)

end

lemma ALL_RUNGS_sorted: "sorted ALL_RUNGS"
  by (simp add: ALL_RUNGS_def less_eq_rung_def rung_index_def)

section \<open>Candidate priorities\<close>

definition PREF_HOST_V6 :: u32 where "PREF_HOST_V6 = 126"
definition PREF_HOST_V4 :: u32 where "PREF_HOST_V4 = 110"
definition PREF_PORT_MAPPED :: u32 where "PREF_PORT_MAPPED = 100"
definition PREF_SERVER_REFLEXIVE :: u32 where "PREF_SERVER_REFLEXIVE = 90"
definition PREF_PEER_REFLEXIVE :: u32 where "PREF_PEER_REFLEXIVE = 80"

lemmas pref_defs = PREF_HOST_V6_def PREF_HOST_V4_def PREF_PORT_MAPPED_def
  PREF_SERVER_REFLEXIVE_def PREF_PEER_REFLEXIVE_def

definition ice_priority :: "candidate_kind \<Rightarrow> ip_addr \<Rightarrow> u32" where
  "ice_priority kind ip =
    (let type_pref = (case kind of
           HostCand \<Rightarrow> if is_ipv6 ip then PREF_HOST_V6 else PREF_HOST_V4
         | PortMappedCand \<Rightarrow> PREF_PORT_MAPPED
         | ServerReflexive \<Rightarrow> PREF_SERVER_REFLEXIVE
         | PeerReflexive \<Rightarrow> PREF_PEER_REFLEXIVE);
         local_pref = (if is_ipv6 ip then 65535 else 32768)
     in push_bit 24 type_pref OR push_bit 8 local_pref OR 255)"

fun is_link_local :: "ip_addr \<Rightarrow> bool" where
  "is_link_local (IpV4 a) = (drop_bit 16 a = 0xa9fe)"
| "is_link_local (IpV6 a) = (drop_bit 112 a AND 0xffc0 = 0xfe80)"

fun is_never_useful :: "ip_addr \<Rightarrow> bool" where
  "is_never_useful (IpV4 a) = (is_unspecified (IpV4 a) \<or> a = - 1 \<or> is_multicast (IpV4 a))"
| "is_never_useful (IpV6 a) = (is_unspecified (IpV6 a) \<or> is_multicast (IpV6 a))"

text \<open>An interface is its IPv6 and its IPv4 addresses. The interface list (the \<open>netdev\<close> crate) and
  the socket's own address (\<open>None\<close> when it cannot be read) are arguments.\<close>

record iface =
  if_ipv6 :: "128 word list"
  if_ipv4 :: "u32 list"

definition iface_ips :: "iface \<Rightarrow> ip_addr list" where
  "iface_ips i = map IpV6 (if_ipv6 i) @ map IpV4 (if_ipv4 i)"

definition host_candidate :: "u16 \<Rightarrow> bool \<Rightarrow> ip_addr \<Rightarrow> candidate list" where
  "host_candidate port include_loopback raw =
    (let ip = unmap_ip raw in
     if is_never_useful ip \<or> is_link_local ip then []
     else if is_loopback ip \<and> \<not> include_loopback then []
     else [\<lparr>cand_addr = sock_new ip port, cand_kind = HostCand,
            cand_priority = ice_priority HostCand ip\<rparr>])"

fun dedup_by_addr :: "candidate list \<Rightarrow> candidate list" where
  "dedup_by_addr (a # b # cs) =
     (if cand_addr b = cand_addr a then dedup_by_addr (a # cs) else a # dedup_by_addr (b # cs))"
| "dedup_by_addr cs = cs"

definition cand_key :: "candidate \<Rightarrow> int \<times> sock_addr" where
  "cand_key c = (- uint (cand_priority c), cand_addr c)"

definition sort_candidates :: "candidate list \<Rightarrow> candidate list" where
  "sort_candidates cs = dedup_by_addr (sort_key cand_key cs)"

fun sock_port :: "sock_addr \<Rightarrow> u16" where
  "sock_port (SockV4 _ p) = p"
| "sock_port (SockV6 _ p _ _) = p"

definition local_candidates_filtered ::
    "sock_addr option \<Rightarrow> iface list \<Rightarrow> bool \<Rightarrow> candidate list" where
  "local_candidates_filtered local_addr ifaces include_loopback =
    (case local_addr of
       None \<Rightarrow> []
     | Some a \<Rightarrow>
         sort_candidates
           (concat (map (host_candidate (sock_port a) include_loopback)
              (concat (map iface_ips ifaces)))))"

definition local_candidates :: "sock_addr option \<Rightarrow> iface list \<Rightarrow> candidate list" where
  "local_candidates local_addr ifaces = local_candidates_filtered local_addr ifaces False"

subsection \<open>Priorities follow the ladder\<close>

lemma ice_priority_table:
  "unat (ice_priority kind ip) =
    (case kind of
       HostCand \<Rightarrow> (if is_ipv6 ip then 126 else 110)
     | PortMappedCand \<Rightarrow> 100 | ServerReflexive \<Rightarrow> 90 | PeerReflexive \<Rightarrow> 80) * 2 ^ 24
    + (if is_ipv6 ip then 65535 else 32768) * 2 ^ 8 + 255"
  by (cases kind; cases "is_ipv6 ip") (simp_all add: ice_priority_def pref_defs)

lemma unmapped_family:
  "unmap a = a \<Longrightarrow> (family_of a = V6) = is_ipv6 (sock_ip a)"
  by (cases a) (auto simp: family_of_def split: option.splits)

lemma family_cases: "f \<noteq> V6 \<longleftrightarrow> f = V4" "f \<noteq> V4 \<longleftrightarrow> f = V6"
  by (cases f; simp)+

lemma rung_index_candidate:
  assumes "unmap a = a" and "kind \<noteq> PeerReflexive"
  shows "rung_index (of_candidate kind a) =
    (case kind of HostCand \<Rightarrow> 0 | PortMappedCand \<Rightarrow> 2 | _ \<Rightarrow> 4)
      + (if is_ipv6 (sock_ip a) then 0 else 1)"
  using unmapped_family [OF assms(1)] assms(2)
  by (cases kind; cases "family_of a") (simp_all add: rung_index_def)

lemma priority_follows_ladder:
  assumes "unmap a = a" and "unmap b = b"
    and "ka \<noteq> PeerReflexive" and "kb \<noteq> PeerReflexive"
  shows "ice_priority kb (sock_ip b) < ice_priority ka (sock_ip a)
    \<longleftrightarrow> of_candidate ka a < of_candidate kb b"
  unfolding less_rung_def rung_index_candidate [OF assms(1,3)] rung_index_candidate [OF assms(2,4)]
    word_less_nat_alt ice_priority_table
  using assms(3,4)
  by (cases ka; cases kb; cases "is_ipv6 (sock_ip a)"; cases "is_ipv6 (sock_ip b)") simp_all

subsection \<open>The local candidate list\<close>

lemma dedup_subset: "set (dedup_by_addr cs) \<subseteq> set cs"
  by (induction cs rule: dedup_by_addr.induct) auto

lemma dedup_hd: "cs \<noteq> [] \<Longrightarrow> dedup_by_addr cs \<noteq> [] \<and> hd (dedup_by_addr cs) = hd cs"
  by (induction cs rule: dedup_by_addr.induct) auto

lemma dedup_addrs: "cand_addr ` set (dedup_by_addr cs) = cand_addr ` set cs"
  by (induction cs rule: dedup_by_addr.induct) auto

lemma dedup_sorted_wrt:
  "sorted_wrt R cs \<Longrightarrow> sorted_wrt R (dedup_by_addr cs)"
proof (induction cs rule: dedup_by_addr.induct)
  case (1 a b cs)
  then show ?case
    using dedup_subset [of "b # cs"] by fastforce
qed simp_all

text \<open>In a list sorted by a key that is a function of the address and orders distinct addresses
  strictly, equal addresses are neighbours, so dropping equal neighbours leaves no duplicate.\<close>

lemma dedup_strict:
  assumes "sorted_wrt (\<lambda>a b. cand_key a \<le> cand_key b) cs"
    and "\<And>a b. a \<in> set cs \<Longrightarrow> b \<in> set cs \<Longrightarrow> cand_addr a = cand_addr b \<Longrightarrow> cand_key a = cand_key b"
  shows "sorted_wrt (\<lambda>a b. cand_key a < cand_key b) (dedup_by_addr cs)"
  using assms
proof (induction cs rule: dedup_by_addr.induct)
  case (1 a b cs)
  show ?case
  proof (cases "cand_addr b = cand_addr a")
    case True
    have "sorted_wrt (\<lambda>a b. cand_key a < cand_key b) (dedup_by_addr (a # cs))"
      by (rule 1(1) [OF True]) (use 1(3,4) in auto)
    with True show ?thesis by simp
  next
    case False
    have "sorted_wrt (\<lambda>a b. cand_key a < cand_key b) (dedup_by_addr (b # cs))"
      by (rule 1(2) [OF False]) (use 1(3,4) in auto)
    moreover have "cand_key a < cand_key x" if "x \<in> set (b # cs)" for x
    proof -
      have "cand_key a < cand_key b"
        using 1(3) False by (auto simp: cand_key_def less_le)
      moreover have "cand_key b \<le> cand_key x"
        using 1(3) that by auto
      ultimately show ?thesis by (rule less_le_trans)
    qed
    ultimately show ?thesis
      using False dedup_subset [of "b # cs"] by auto
  qed
next
  case "2_1"
  show ?case by simp
next
  case "2_2"
  show ?case by simp
qed

definition eligible :: "bool \<Rightarrow> ip_addr \<Rightarrow> bool" where
  "eligible include_loopback ip =
    (\<not> is_never_useful ip \<and> \<not> is_link_local ip \<and> (is_loopback ip \<longrightarrow> include_loopback))"

lemma host_candidate_set:
  "set (host_candidate port lb raw) =
    (if eligible lb (unmap_ip raw)
     then {\<lparr>cand_addr = sock_new (unmap_ip raw) port, cand_kind = HostCand,
            cand_priority = ice_priority HostCand (unmap_ip raw)\<rparr>}
     else {})"
  by (auto simp: host_candidate_def eligible_def Let_def)

lemma sock_new_inj [simp]: "sock_new a p = sock_new b p \<longleftrightarrow> a = b"
  by (cases a; cases b) simp_all

lemma local_candidates_spec:
  fixes ifaces lb a
  defines "cs \<equiv> local_candidates_filtered (Some a) ifaces lb"
  shows "sorted_wrt (\<lambda>x y. cand_key x < cand_key y) cs"
    and "cand_addr ` set cs =
      (\<lambda>raw. sock_new (unmap_ip raw) (sock_port a)) `
        {raw \<in> \<Union>(set ` iface_ips ` set ifaces). eligible lb (unmap_ip raw)}"
proof -
  define gathered where "gathered =
    concat (map (host_candidate (sock_port a) lb) (concat (map iface_ips ifaces)))"
  have cs: "cs = dedup_by_addr (sort_key cand_key gathered)"
    by (simp add: cs_def local_candidates_filtered_def sort_candidates_def gathered_def)
  have "sorted_wrt (\<lambda>x y. cand_key x \<le> cand_key y) (sort_key cand_key gathered)"
    using sorted_sort_key [of cand_key gathered] by (simp add: sorted_map)
  moreover have "cand_key x = cand_key y"
    if "x \<in> set (sort_key cand_key gathered)" "y \<in> set (sort_key cand_key gathered)"
      "cand_addr x = cand_addr y" for x y
    using that by (auto simp: gathered_def host_candidate_set cand_key_def split: if_splits)
  ultimately show "sorted_wrt (\<lambda>x y. cand_key x < cand_key y) cs"
    unfolding cs by (rule dedup_strict)
  show "cand_addr ` set cs =
      (\<lambda>raw. sock_new (unmap_ip raw) (sock_port a)) `
        {raw \<in> \<Union>(set ` iface_ips ` set ifaces). eligible lb (unmap_ip raw)}"
    unfolding cs dedup_addrs
    by (force simp: gathered_def host_candidate_set split: if_splits)
qed

section \<open>Watching the route\<close>

text \<open>\<open>route_source\<close> binds a throwaway socket, connects it to the peer and reads its address back;
  what the kernel answers to the three calls is the argument \<open>ask\<close>.\<close>

definition route_source ::
    "(sock_addr \<Rightarrow> sock_addr \<Rightarrow> 'e + sock_addr) \<Rightarrow> sock_addr \<Rightarrow> 'e + ip_addr" where
  "route_source ask peer =
    (let peer = unmap peer;
         bind = (case peer of SockV4 _ _ \<Rightarrow> SockV4 0 0 | SockV6 _ _ _ _ \<Rightarrow> SockV6 0 0 0 0)
     in and_then (ask bind peer) (\<lambda>a. Inr (unmap_ip (sock_ip a))))"

record route_watch =
  baseline :: "ip_addr option"

definition normalise :: "ip_addr \<Rightarrow> ip_addr" where
  "normalise ip = unmap_ip ip"

definition watch_new :: "ip_addr option \<Rightarrow> route_watch" where
  "watch_new b = \<lparr>baseline =
    (case map_option normalise b of
       Some ip \<Rightarrow> if \<not> is_unspecified ip then Some ip else None
     | None \<Rightarrow> None)\<rparr>"

definition moved :: "route_watch \<Rightarrow> ip_addr \<Rightarrow> bool" where
  "moved w seen =
    (let seen = normalise seen in
     if is_unspecified seen then False
     else case baseline w of Some base \<Rightarrow> base \<noteq> seen | None \<Rightarrow> False)"

definition settle :: "ip_addr \<Rightarrow> route_watch \<Rightarrow> route_watch" where
  "settle seen w =
    (let seen = normalise seen in
     if \<not> is_unspecified seen then w\<lparr>baseline := Some seen\<rparr> else w)"

text \<open>The baseline is always a normalised, specified address: what the last settling probe saw.\<close>

definition watch_ok :: "route_watch \<Rightarrow> bool" where
  "watch_ok w = (\<forall>b. baseline w = Some b \<longrightarrow> normalise b = b \<and> \<not> is_unspecified b)"

lemma watch_ok_new: "watch_ok (watch_new b)"
  by (cases b) (auto simp: watch_ok_def watch_new_def normalise_def split: if_splits)

lemma watch_ok_settle: "watch_ok w \<Longrightarrow> watch_ok (settle seen w)"
  by (simp add: watch_ok_def settle_def Let_def normalise_def)

lemma settle_moved:
  assumes "\<not> is_unspecified (normalise a)"
  shows "moved (settle a w) b \<longleftrightarrow> \<not> is_unspecified (normalise b) \<and> normalise a \<noteq> normalise b"
  using assms by (simp add: moved_def settle_def Let_def)

section \<open>Properties\<close>

text \<open>Candidate priorities follow the ladder. Between two candidates that are no peer-reflexive
  ones, with addresses as they are dialled (not IPv4-mapped), one has the higher ICE priority
  exactly when its rung comes earlier on the ladder, so the check list and the plan never disagree
  about what is preferred.\<close>

theorem priorities_follow_the_ladder:
  assumes "unmap a = a" and "unmap b = b"
    and "ka \<noteq> PeerReflexive" and "kb \<noteq> PeerReflexive"
  shows "ice_priority kb (sock_ip b) < ice_priority ka (sock_ip a)
    \<longleftrightarrow> of_candidate ka a < of_candidate kb b"
  using assms by (rule priority_follows_ladder)

theorem priorities_follow_the_ladder_witness:
  "ice_priority ServerReflexive (IpV6 0x20010db8) < ice_priority HostCand (IpV4 0x0a000001)
    \<longleftrightarrow> Direct V4 < Punched V6"
  using priorities_follow_the_ladder [of "SockV4 0x0a000001 443" "SockV6 0x20010db8 443 0 0"
      HostCand ServerReflexive]
  by (simp add: family_of_def to_ipv4_mapped_def)

text \<open>The local candidate list is in strictly descending preference, names no address twice, and
  offers exactly the eligible addresses of the interfaces, unmapped, each with the socket's own
  port: nothing unspecified, broadcast, multicast or link-local, and loopback only when asked for.\<close>

theorem local_candidates_are_the_eligible_addresses:
  "sorted_wrt (\<lambda>x y. cand_key x < cand_key y) (local_candidates_filtered (Some a) ifaces lb)
   \<and> distinct (map cand_addr (local_candidates_filtered (Some a) ifaces lb))
   \<and> cand_addr ` set (local_candidates_filtered (Some a) ifaces lb) =
      (\<lambda>raw. sock_new (unmap_ip raw) (sock_port a)) `
        {raw \<in> \<Union>(set ` iface_ips ` set ifaces). eligible lb (unmap_ip raw)}"
proof -
  let ?cs = "local_candidates_filtered (Some a) ifaces lb"
  have cand: "cand_priority c = ice_priority HostCand (sock_ip (cand_addr c))" if "c \<in> set ?cs" for c
  proof -
    have "sock_ip (sock_new ip p) = ip" for ip p by (cases ip) simp_all
    with that dedup_subset show ?thesis
      by (fastforce simp: local_candidates_filtered_def sort_candidates_def host_candidate_set
          split: if_splits)
  qed
  have "distinct (map cand_key ?cs)"
    using local_candidates_spec(1) [of a ifaces lb]
    by (simp add: strict_sorted_iff [THEN iffD1] flip: sorted_wrt_map)
  moreover have "inj_on cand_key (set ?cs) \<Longrightarrow> inj_on cand_addr (set ?cs)"
    by (rule inj_onI, erule inj_onD) (auto simp: cand_key_def cand)
  ultimately have "distinct (map cand_addr ?cs)"
    by (simp add: distinct_map)
  with local_candidates_spec [of a ifaces lb] show ?thesis by simp
qed

text \<open>One route change asks for one rebind. After a probe's address is adopted, a later probe
  reports a moved route exactly when it saw a different address, whichever of the IPv4 and
  IPv4-mapped forms either was read in; a probe that saw no address at all never does.\<close>

theorem settled_route_moves_only_when_it_moves:
  assumes "\<not> is_unspecified (unmap_ip a)"
  shows "moved (settle a w) b \<longleftrightarrow> \<not> is_unspecified (unmap_ip b) \<and> unmap_ip a \<noteq> unmap_ip b"
  using settle_moved [of a w b] assms by (simp add: normalise_def)

theorem settled_route_moves_only_when_it_moves_witness:
  "\<not> moved (settle (IpV4 0xc0a81105) (watch_new None)) (IpV6 (to_ipv6_mapped 0xc0a81105))"
  using settled_route_moves_only_when_it_moves [of "IpV4 0xc0a81105" "watch_new None"
      "IpV6 (to_ipv6_mapped 0xc0a81105)"]
  by simp

text \<open>An address survives the socket's family. Whatever family the session socket has, the address
  a datagram is sent to, read back the way a received one is, is the address the candidate named,
  for every candidate that is itself unmapped.\<close>

theorem socket_family_roundtrip:
  assumes "unmap peer = peer"
  shows "unmap (to_socket_family local_addr peer) = peer"
  using assms by (cases local_addr; cases peer) simp_all

theorem socket_family_roundtrip_witness:
  "unmap (to_socket_family (SockV6 0 443 0 0) (SockV4 0xc6336407 443)) = SockV4 0xc6336407 443"
  by (rule socket_family_roundtrip) simp

end
