(* ===== verification/Link_Quality.thy ===== *)
theory Link_Quality
  imports Link_State
begin

text \<open>
  A minute of measurements of the link, from \<open>src/quality.rs\<close>. The division of a throughput is done in
  floating point in the code; it is the parameter \<open>per_second\<close> here.

  The lemmas show that the ring holds the newest samples, at most a minute of them, and that every
  number derived from it is taken over the samples of the current link alone: a counter is never
  subtracted across two links.
\<close>

definition WINDOW :: nat where "WINDOW = 60"
definition SAMPLE_EVERY :: duration where "SAMPLE_EVERY = from_secs 1"
definition THROUGHPUT_SPAN :: duration where "THROUGHPUT_SPAN = from_secs 5"

record reading =
  rd_rtt :: duration
  rd_sent :: u64
  rd_lost :: u64
  rd_tx_bytes :: u64
  rd_rx_bytes :: u64
  rd_mtu :: u16
  rd_black_holes :: u64

record sample =
  sm_at :: instant
  sm_reading :: reading
  sm_segment :: u32
  sm_outage :: bool

record rtt_stats =
  rtt_min :: duration
  rtt_max :: duration

record loss =
  window_sent :: u64
  window_lost :: u64

record throughput =
  tp_up :: u64
  tp_down :: u64

record quality =
  ql_ring :: "sample list"
  ql_segment :: u32
  ql_segment_since :: instant

definition quality_new :: "instant \<Rightarrow> quality" where
  "quality_new now = \<lparr>ql_ring = [], ql_segment = 1, ql_segment_since = now\<rparr>"

definition sample_due :: "instant \<Rightarrow> quality \<Rightarrow> bool" where
  "sample_due now q \<longleftrightarrow> ql_ring q = [] \<or> duration_since now (sm_at (last (ql_ring q))) \<ge> SAMPLE_EVERY"

text \<open>\<open>while len > WINDOW { pop_front() }\<close>\<close>

fun trim_ring :: "sample list \<Rightarrow> sample list" where
  "trim_ring [] = []"
| "trim_ring (s # r) = (if length (s # r) > WINDOW then trim_ring r else s # r)"

definition quality_push :: "instant \<Rightarrow> reading \<Rightarrow> bool \<Rightarrow> quality \<Rightarrow> quality" where
  "quality_push at rd outage q =
    q\<lparr>ql_ring := trim_ring (ql_ring q @
        [\<lparr>sm_at = at, sm_reading = rd, sm_segment = ql_segment q, sm_outage = outage\<rparr>])\<rparr>"

definition new_segment :: "instant \<Rightarrow> quality \<Rightarrow> quality" where
  "new_segment now q = q\<lparr>ql_segment := sat_add (ql_segment q) 1, ql_segment_since := now\<rparr>"

definition current :: "quality \<Rightarrow> sample list" where
  "current q = filter (\<lambda>s. sm_segment s = ql_segment q) (ql_ring q)"

definition rtt_now :: "quality \<Rightarrow> duration option" where
  "rtt_now q =
    (if ql_ring q = [] then None
     else let s = last (ql_ring q) in
       if sm_segment s = ql_segment q \<and> \<not> sm_outage s then Some (rd_rtt (sm_reading s)) else None)"

definition mtu_now :: "quality \<Rightarrow> u16 option" where
  "mtu_now q =
    (if current q = [] then None
     else let m = rd_mtu (sm_reading (last (current q))) in if m > 0 then Some m else None)"

definition mtu_reduced :: "quality \<Rightarrow> u16 option" where
  "mtu_reduced q =
    (case rev (current q) of
       now # before # _ \<Rightarrow>
         if rd_black_holes (sm_reading now) > rd_black_holes (sm_reading before)
         then Some (rd_mtu (sm_reading now)) else None
     | _ \<Rightarrow> None)"

definition quality_rtt_stats :: "quality \<Rightarrow> rtt_stats option" where
  "quality_rtt_stats q =
    (case map (\<lambda>s. rd_rtt (sm_reading s)) (filter (\<lambda>s. \<not> sm_outage s) (current q)) of
       [] \<Rightarrow> None
     | r # rs \<Rightarrow> Some \<lparr>rtt_min = fold min rs r, rtt_max = fold max rs r\<rparr>)"

definition quality_loss :: "quality \<Rightarrow> loss option" where
  "quality_loss q =
    (case current q of
       [] \<Rightarrow> None
     | first # rest \<Rightarrow>
         (let lst = last (first # rest) in
          Some \<lparr>window_sent = sat_sub (rd_sent (sm_reading lst)) (rd_sent (sm_reading first)),
                window_lost = sat_sub (rd_lost (sm_reading lst)) (rd_lost (sm_reading first))\<rparr>))"

definition quality_throughput :: "(u64 \<Rightarrow> duration \<Rightarrow> u64) \<Rightarrow> quality \<Rightarrow> throughput option" where
  "quality_throughput per_second q =
    (if current q = [] then None
     else
       (let lst = last (current q) in
        case find (\<lambda>s. duration_since (sm_at lst) (sm_at s) \<le> THROUGHPUT_SPAN) (current q) of
          None \<Rightarrow> None
        | Some first \<Rightarrow>
            (let span = duration_since (sm_at lst) (sm_at first) in
             if span = 0 then None
             else Some \<lparr>tp_up = per_second (sat_sub (rd_tx_bytes (sm_reading lst)) (rd_tx_bytes (sm_reading first))) span,
                        tp_down = per_second (sat_sub (rd_rx_bytes (sm_reading lst)) (rd_rx_bytes (sm_reading first))) span\<rparr>)))"

definition sparkline :: "quality \<Rightarrow> u64 option list" where
  "sparkline q = map (\<lambda>s. if \<not> sm_outage s then Some (of_nat (rd_rtt (sm_reading s) div 1000000)) else None) (ql_ring q)"

section \<open>The ring holds the newest samples\<close>

lemma trim_ring_eq: "trim_ring r = drop (length r - WINDOW) r"
  by (induction r) (auto simp: Suc_diff_le)

datatype quality_event = QPush instant reading bool | QSegment instant

fun quality_step :: "quality_event \<Rightarrow> quality \<Rightarrow> quality" where
  "quality_step (QPush at rd outage) q = quality_push at rd outage q"
| "quality_step (QSegment now) q = new_segment now q"

text \<open>The reference: every sample since the last change of link.\<close>

fun since_change :: "quality_event \<Rightarrow> (instant \<times> reading \<times> bool) list \<Rightarrow> (instant \<times> reading \<times> bool) list" where
  "since_change (QPush at rd outage) hist = hist @ [(at, rd, outage)]"
| "since_change (QSegment _) hist = []"

definition plain :: "sample \<Rightarrow> instant \<times> reading \<times> bool" where
  "plain s = (sm_at s, sm_reading s, sm_outage s)"

fun is_segment :: "quality_event \<Rightarrow> bool" where
  "is_segment (QSegment _) = True"
| "is_segment _ = False"

definition ring_inv :: "quality_event list \<Rightarrow> quality \<Rightarrow> bool" where
  "ring_inv es q \<longleftrightarrow> length (ql_ring q) \<le> WINDOW
    \<and> unat (ql_segment q) = 1 + length (filter is_segment es)
    \<and> (\<exists>old. ql_ring q = old @ current q \<and> (\<forall>s\<in>set old. sm_segment s < ql_segment q)
        \<and> (let hist = fold since_change es [] in map plain (current q) = drop (length hist - WINDOW) hist
             \<and> (length hist > WINDOW \<longrightarrow> old = [])))"

lemma ring_inv_push:
  assumes "ring_inv es q"
  shows "ring_inv (es @ [QPush at rd outage]) (quality_push at rd outage q)"
proof -
  define hist where "hist = fold since_change es []"
  define s where "s = \<lparr>sm_at = at, sm_reading = rd, sm_segment = ql_segment q, sm_outage = outage\<rparr>"
  from assms obtain old where inv: "length (ql_ring q) \<le> WINDOW" "unat (ql_segment q) = 1 + length (filter is_segment es)"
    "ql_ring q = old @ current q" "\<forall>s\<in>set old. sm_segment s < ql_segment q"
    "map plain (current q) = drop (length hist - WINDOW) hist" "length hist > WINDOW \<longrightarrow> old = []"
    by (auto simp: ring_inv_def hist_def Let_def)
  define r where "r = old @ current q @ [s]"
  have ring: "ql_ring (quality_push at rd outage q) = drop (length r - WINDOW) r"
    by (simp add: quality_push_def trim_ring_eq inv(3) s_def r_def)
  have seg: "sm_segment x = ql_segment q" if "x \<in> set (current q @ [s])" for x
    using that by (auto simp: current_def s_def)
  have lt: "x \<noteq> ql_segment q" if "x < ql_segment q" for x :: u32 using that by auto
  have n: "length r \<le> WINDOW + 1" using inv(1,3) by (simp add: r_def)
  define old' cur' where "old' = drop (length r - WINDOW) old"
    and "cur' = drop (length r - WINDOW - length old) (current q @ [s])"
  have split: "ql_ring (quality_push at rd outage q) = old' @ cur'"
    by (simp add: ring r_def old'_def cur'_def)
  have so: "\<forall>x\<in>set old'. sm_segment x < ql_segment q"
    using inv(4) by (auto simp: old'_def dest: in_set_dropD)
  have sc: "\<forall>x\<in>set cur'. sm_segment x = ql_segment q"
    using seg by (metis cur'_def in_set_dropD)
  have sq: "ql_segment (quality_push at rd outage q) = ql_segment q" by (simp add: quality_push_def)
  have cur: "current (quality_push at rd outage q) = cur'"
  proof -
    have "filter (\<lambda>x. sm_segment x = ql_segment q) old' = []" using so lt by (auto simp: filter_empty_conv)
    moreover have "filter (\<lambda>x. sm_segment x = ql_segment q) cur' = cur'" using sc by (simp add: filter_id_conv)
    ultimately show ?thesis by (simp add: current_def sq split)
  qed
  have cl: "length (current q) = length hist - (length hist - WINDOW)"
    using inv(5) by (metis length_drop length_map)
  have "map plain cur' = drop (length (hist @ [(at, rd, outage)]) - WINDOW) (hist @ [(at, rd, outage)])"
  proof -
    have "map plain cur' = drop (length r - WINDOW - length old) (drop (length hist - WINDOW) hist @ [(at, rd, outage)])"
    proof -
      have "map plain (current q @ [s]) = drop (length hist - WINDOW) hist @ [(at, rd, outage)]"
        using inv(5) by (simp add: plain_def s_def)
      then show ?thesis unfolding cur'_def by (simp only: drop_map [symmetric])
    qed
    moreover have "length r = length old + length (current q) + 1" by (simp add: r_def)
    moreover have "Suc (length hist - 60) = length hist - 59" if "60 \<le> length hist" using that by simp
    ultimately show ?thesis using cl inv(6) n by (cases "length hist < WINDOW") (auto simp: WINDOW_def not_less)
  qed
  moreover have "length (hist @ [(at, rd, outage)]) > WINDOW \<longrightarrow> old' = []"
    using cl inv(1,3,6) by (auto simp: old'_def r_def WINDOW_def)
  moreover have "length (ql_ring (quality_push at rd outage q)) \<le> WINDOW" by (simp add: ring)
  ultimately show ?thesis
    unfolding ring_inv_def Let_def using so split inv(2)
    by (auto simp: cur sq hist_def intro!: exI [of _ old'])
qed


lemma ring_inv_segment:
  assumes "ring_inv es q" "length (filter is_segment es) + 2 < 2 ^ 32"
  shows "ring_inv (es @ [QSegment now]) (new_segment now q)"
proof -
  from assms(1) obtain old where inv: "length (ql_ring q) \<le> WINDOW" "unat (ql_segment q) = 1 + length (filter is_segment es)"
    "ql_ring q = old @ current q" "\<forall>s\<in>set old. sm_segment s < ql_segment q"
    by (auto simp: ring_inv_def Let_def)
  have seg: "unat (ql_segment (new_segment now q)) = unat (ql_segment q) + 1"
    using inv(2) assms(2) by (simp add: new_segment_def unat_sat_add)
  have "sm_segment s < ql_segment (new_segment now q)" if "s \<in> set (ql_ring q)" for s
  proof -
    have "s \<in> set old \<or> s \<in> set (current q)" using that by (subst (asm) inv(3)) simp
    then have "sm_segment s \<le> ql_segment q" using inv(4) by (auto simp: current_def)
    with seg show ?thesis by (simp add: word_le_nat_alt word_less_nat_alt)
  qed
  moreover from this have "current (new_segment now q) = []"
    by (force simp: current_def new_segment_def filter_empty_conv)
  ultimately show ?thesis
    using inv(1,2) seg by (auto simp: ring_inv_def new_segment_def)
qed

lemma ring_inv_run:
  "length (filter is_segment es) + 1 < 2 ^ 32 \<Longrightarrow> ring_inv es (fold quality_step es (quality_new now))"
proof (induction es rule: rev_induct)
  case Nil
  then show ?case by (simp add: ring_inv_def quality_new_def current_def)
next
  case (snoc e es)
  then show ?case by (cases e) (simp_all add: ring_inv_push ring_inv_segment)
qed


lemma loss_of_history:
  assumes "length (filter is_segment es) + 1 < 2 ^ 32"
    and "drop (length (fold since_change es []) - WINDOW) (fold since_change es []) = (t, a, x) # rest"
  shows "\<exists>t' b y. last ((t, a, x) # rest) = (t', b, y)
    \<and> quality_loss (fold quality_step es (quality_new now))
      = Some \<lparr>window_sent = sat_sub (rd_sent b) (rd_sent a), window_lost = sat_sub (rd_lost b) (rd_lost a)\<rparr>"
proof -
  let ?q = "fold quality_step es (quality_new now)"
  have m: "map plain (current ?q) = (t, a, x) # rest"
    using ring_inv_run [OF assms(1), of now] assms(2) by (auto simp: ring_inv_def Let_def)
  then obtain f r where c: "current ?q = f # r" "plain f = (t, a, x)" "map plain r = rest" by auto
  have "last ((t, a, x) # rest) = plain (last (f # r))"
    using c by (metis last_map list.discI list.simps(9))
  then show ?thesis using c by (auto simp: quality_loss_def plain_def Let_def)
qed

definition sample_reading :: "u64 \<Rightarrow> reading" where
  "sample_reading n = \<lparr>rd_rtt = 30, rd_sent = n, rd_lost = 0, rd_tx_bytes = 0, rd_rx_bytes = 0, rd_mtu = 1200, rd_black_holes = 0\<rparr>"


end
