(* ===== verification/Activity_Log.thy ===== *)
theory Activity_Log
  imports Client_Text "HOL-Library.Sublist"
begin

text \<open>
  The activity log of \<open>src/activity.rs\<close>: a ring for the popup, with the steps of an outage giving way
  first, and the lines of a file in which runs of one entry are folded. A system time is the seconds
  since the epoch; what the operating system says to a line written is the parameter \<open>os\<close>, the error's
  words or none. Opening, following and rotating the file are left to it.

  The lemmas show that the ring never outgrows its size, never drops its newest entry, and drops an
  entry the popup shows only when there is no step left to drop; that the file accounts for every
  entry recorded; that no line of it holds a control character; and that its dates are the calendar's.
\<close>

definition RING :: nat where "RING = 200"
definition FILE_TEXT_CAP :: nat where "FILE_TEXT_CAP = 4096"

datatype act_kind = KLink | KStandby | KFailover | KRebuild | KInput | KLog | KOutage | KConfig | KSession

fun kind_name :: "act_kind \<Rightarrow> ustr" where
  "kind_name KLink = str_of ''link''"
| "kind_name KStandby = str_of ''standby''"
| "kind_name KFailover = str_of ''failover''"
| "kind_name KRebuild = str_of ''rebuild''"
| "kind_name KInput = str_of ''input''"
| "kind_name KLog = str_of ''log''"
| "kind_name KOutage = str_of ''outage''"
| "kind_name KConfig = str_of ''config''"
| "kind_name KSession = str_of ''session''"

type_synonym system_time = nat

record entry =
  en_at :: system_time
  en_since :: system_time
  en_kind :: act_kind
  en_text :: ustr
  en_shown :: ustr
  en_full :: ustr
  en_detail :: bool
  en_repeats :: u32

section \<open>Dates\<close>

definition civil :: "int \<Rightarrow> int \<times> nat \<times> nat" where
  "civil days =
    (let z = days + 719468;
         era = z div 146097;
         doe = z mod 146097;
         yoe = (doe - doe div 1460 + doe div 36524 - doe div 146096) div 365;
         doy = doe - (365 * yoe + yoe div 4 - yoe div 100);
         mp = (5 * doy + 2) div 153;
         d = nat (doy - (153 * mp + 2) div 5 + 1);
         m = nat (if mp < 10 then mp + 3 else mp - 9);
         y = yoe + era * 400 + (if m \<le> 2 then 1 else 0)
     in (y, m, d))"

text \<open>\<open>{:02}\<close> and \<open>{:04}\<close> of a number that is not negative.\<close>

definition pad_dec :: "nat \<Rightarrow> nat \<Rightarrow> ustr" where
  "pad_dec w n = replicate (w - length (dec_str n)) 48 @ dec_str n"

definition rfc3339_utc :: "system_time \<Rightarrow> ustr" where
  "rfc3339_utc t =
    (let (y, m, d) = civil (int (t div 86400)); s = t mod 86400
     in pad_dec 4 (nat y) @ str_of ''-'' @ pad_dec 2 m @ str_of ''-'' @ pad_dec 2 d @ str_of ''T''
        @ pad_dec 2 (s div 3600) @ str_of '':'' @ pad_dec 2 (s div 60 mod 60) @ str_of '':''
        @ pad_dec 2 (s mod 60) @ str_of ''Z'')"

definition hh_mm_utc :: "system_time \<Rightarrow> ustr" where
  "hh_mm_utc t = (let s = t mod 86400 in pad_dec 2 (s div 3600) @ str_of '':'' @ pad_dec 2 (s div 60 mod 60))"

section \<open>The log\<close>

primrec join_with :: "ustr \<Rightarrow> ustr list \<Rightarrow> ustr" where
  "join_with sep [] = []"
| "join_with sep (l # ls) = (if ls = [] then l else l @ sep @ join_with sep ls)"

definition file_text :: "ustr \<Rightarrow> ustr" where
  "file_text text =
    (let joined = join_with (str_of '' | '') (map legible (filter (\<lambda>l. l \<noteq> []) (map str_trim (str_lines text))))
     in if length joined \<le> FILE_TEXT_CAP then joined else take FILE_TEXT_CAP joined @ str_of ''...'')"

record activity =
  ac_ring :: "entry list"
  ac_file :: bool
  ac_tag :: ustr

definition activity_new :: activity where
  "activity_new = \<lparr>ac_ring = [], ac_file = False, ac_tag = str_of ''- -''\<rparr>"

text \<open>The first entry that is a detail, not counting the newest.\<close>

primrec detail_position :: "entry list \<Rightarrow> nat option" where
  "detail_position [] = None"
| "detail_position (e # es) = (if en_detail e then Some 0 else map_option Suc (detail_position es))"

lemma detail_position_less: "detail_position es = Some i \<Longrightarrow> i < length es \<and> en_detail (es ! i)"
  by (induction es arbitrary: i) (auto split: if_splits)

function shrink_ring :: "entry list \<Rightarrow> entry list" where
  "shrink_ring r =
    (if length r > RING then
       (case detail_position (take (length r - 1) r) of
          Some i \<Rightarrow> shrink_ring (take i r @ drop (i + 1) r)
        | None \<Rightarrow> shrink_ring (tl r))
     else r)"
  by pat_completeness auto

termination
  by (relation "measure length") (auto simp: RING_def dest!: detail_position_less)

declare shrink_ring.simps [simp del]

definition act_push :: "entry \<Rightarrow> activity \<Rightarrow> activity" where
  "act_push e a = a\<lparr>ac_ring := shrink_ring (ac_ring a @ [e])\<rparr>"

definition file_off :: "system_time \<Rightarrow> ustr \<Rightarrow> activity \<Rightarrow> activity" where
  "file_off now err a =
    (let text = summarised (str_of ''log file off: '' @ err)
     in act_push \<lparr>en_at = now, en_since = now, en_kind = KLog, en_text = text, en_shown = text, en_full = text,
          en_detail = False, en_repeats = 0\<rparr> a)"

definition with_file :: "system_time \<Rightarrow> ustr option \<Rightarrow> ustr \<Rightarrow> ustr \<Rightarrow> activity" where
  "with_file now failed target session =
    (let prefix = take 8 session;
         prefix = (if prefix = [] then str_of ''-'' else legible prefix);
         a = \<lparr>ac_ring = [], ac_file = False, ac_tag = legible target @ str_of '' '' @ prefix\<rparr>
     in case failed of None \<Rightarrow> a\<lparr>ac_file := True\<rparr> | Some e \<Rightarrow> file_off now e a)"

text \<open>A line of the file is the time, tag and kind it begins with, its text, and the run it sums up.\<close>

definition act_line :: "activity \<Rightarrow> system_time \<Rightarrow> act_kind \<Rightarrow> ustr \<Rightarrow> (u32 \<times> system_time) option \<Rightarrow> ustr" where
  "act_line a at kind text run =
    rfc3339_utc at @ str_of '' '' @ ac_tag a @ str_of '' '' @ kind_name kind @ str_of '' '' @ text
    @ (case run of
         None \<Rightarrow> []
       | Some (n, since) \<Rightarrow> str_of '' (repeated '' @ dec_str (unat n) @ [0xd7] @ str_of '' since ''
           @ hh_mm_utc since @ str_of '')'')"

type_synonym os_answer = "ustr \<Rightarrow> ustr option"

text \<open>The lines that reached the file, beside the log.\<close>

definition act_write :: "os_answer \<Rightarrow> system_time \<Rightarrow> ustr \<Rightarrow> activity \<Rightarrow> ustr list \<times> activity" where
  "act_write os now line a =
    (if \<not> ac_file a then ([], a)
     else case os line of
       None \<Rightarrow> ([line], a)
     | Some e \<Rightarrow> ([], file_off now e (a\<lparr>ac_file := False\<rparr>)))"

definition end_run :: "os_answer \<Rightarrow> system_time \<Rightarrow> activity \<Rightarrow> ustr list \<times> activity" where
  "end_run os now a =
    (if ac_ring a = [] then ([], a)
     else
       (let l = last (ac_ring a) in
        if en_repeats l = 0 then ([], a)
        else act_write os now (act_line a (en_at l) (en_kind l) (en_full l) (Some (en_repeats l, en_since l))) a))"

definition record_entry :: "os_answer \<Rightarrow> act_kind \<Rightarrow> ustr \<Rightarrow> ustr option \<Rightarrow> bool \<Rightarrow> system_time \<Rightarrow> activity
    \<Rightarrow> ustr list \<times> activity" where
  "record_entry os kind text shown detail at a =
    (let full = file_text text;
         txt = summarised text;
         sh = (case shown of None \<Rightarrow> txt | Some s \<Rightarrow> summarised s)
     in if ac_ring a \<noteq> [] \<and> en_kind (last (ac_ring a)) = kind \<and> en_full (last (ac_ring a)) = full
           \<and> en_shown (last (ac_ring a)) = sh \<and> en_detail (last (ac_ring a)) = detail
        then
          (let l = last (ac_ring a) in
           ([], a\<lparr>ac_ring := butlast (ac_ring a) @ [l\<lparr>en_repeats := sat_add (en_repeats l) 1, en_at := at\<rparr>]\<rparr>))
        else
          (let (w1, a1) = end_run os at a;
               line = act_line a1 at kind full None;
               a2 = act_push \<lparr>en_at = at, en_since = at, en_kind = kind, en_text = txt, en_shown = sh, en_full = full,
                 en_detail = detail, en_repeats = 0\<rparr> a1;
               (w2, a3) = act_write os at line a2
           in (w1 @ w2, a3)))"

definition act_record :: "os_answer \<Rightarrow> act_kind \<Rightarrow> ustr \<Rightarrow> system_time \<Rightarrow> activity \<Rightarrow> ustr list \<times> activity" where
  "act_record os kind text now a = record_entry os kind text None False now a"

definition record_detail :: "os_answer \<Rightarrow> act_kind \<Rightarrow> ustr \<Rightarrow> system_time \<Rightarrow> activity \<Rightarrow> ustr list \<times> activity" where
  "record_detail os kind text now a = record_entry os kind text None True now a"

definition record_shown :: "os_answer \<Rightarrow> act_kind \<Rightarrow> ustr \<Rightarrow> ustr \<Rightarrow> system_time \<Rightarrow> activity \<Rightarrow> ustr list \<times> activity" where
  "record_shown os kind text shown now a = record_entry os kind text (Some shown) False now a"

section \<open>The ring\<close>

lemma detail_position_None: "detail_position es = None \<longleftrightarrow> (\<forall>e\<in>set es. \<not> en_detail e)"
  by (induction es) auto

text \<open>One entry goes: a detail older than the newest if there is one, else the oldest.\<close>

definition dropped :: "entry list \<Rightarrow> entry list" where
  "dropped r = (case detail_position (take (length r - 1) r) of
     Some i \<Rightarrow> take i r @ drop (i + 1) r | None \<Rightarrow> tl r)"

lemma dropped_step:
  assumes "1 < length r"
  shows "length (dropped r) = length r - 1" "subseq (dropped r) r" "last (dropped r) = last r" "dropped r \<noteq> []"
    "(\<exists>e\<in>set (butlast r). en_detail e) \<Longrightarrow> filter (\<lambda>e. \<not> en_detail e) (dropped r) = filter (\<lambda>e. \<not> en_detail e) r"
proof -
  have l: "length (dropped r) = length r - 1 \<and> subseq (dropped r) r \<and> last (dropped r) = last r
    \<and> ((\<exists>e\<in>set (butlast r). en_detail e) \<longrightarrow> filter (\<lambda>e. \<not> en_detail e) (dropped r) = filter (\<lambda>e. \<not> en_detail e) r)"
  proof (cases "detail_position (take (length r - 1) r)")
    case None
    then have "\<forall>e\<in>set (butlast r). \<not> en_detail e" by (simp add: detail_position_None butlast_conv_take)
    moreover obtain x xs where "r = x # xs" "xs \<noteq> []" using assms by (cases r) auto
    ultimately show ?thesis using None by (auto simp: dropped_def intro: list_emb_Cons)
  next
    case (Some i)
    from detail_position_less [OF Some] have i: "i < length r - 1" "en_detail (r ! i)" by auto
    have r: "r = take i r @ r ! i # drop (i + 1) r"
      using i by (metis id_take_nth_drop Suc_eq_plus1 less_diff_conv less_imp_le_nat less_le_trans add_lessD1)
    have d: "dropped r = take i r @ drop (i + 1) r" using Some by (simp add: dropped_def)
    have "subseq (dropped r) (take i r @ r ! i # drop (i + 1) r)"
      unfolding d by (intro list_emb_append_mono list_emb_Cons) auto
    moreover have "last (dropped r) = last r"
      using i unfolding d by (simp add: last_append last_drop)
    moreover have "filter (\<lambda>e. \<not> en_detail e) (take i r @ r ! i # drop (i + 1) r) = filter (\<lambda>e. \<not> en_detail e) (dropped r)"
      using i(2) by (simp add: d)
    moreover have "length (dropped r) = length r - 1" using i by (simp add: d)
    ultimately show ?thesis unfolding r [symmetric] by simp
  qed
  then show "length (dropped r) = length r - 1" "subseq (dropped r) r" "last (dropped r) = last r"
    "(\<exists>e\<in>set (butlast r). en_detail e) \<Longrightarrow> filter (\<lambda>e. \<not> en_detail e) (dropped r) = filter (\<lambda>e. \<not> en_detail e) r"
    by blast+
  show "dropped r \<noteq> []" using l assms by auto
qed

lemma subseq_mem: "subseq xs ys \<Longrightarrow> x \<in> set xs \<Longrightarrow> x \<in> set ys"
  by (auto elim: list_emb_set)

lemma shrink_ring_step: "shrink_ring r = (if length r > RING then shrink_ring (dropped r) else r)"
  by (subst shrink_ring.simps) (simp add: dropped_def split: option.split)

lemma shrink_ring_keeps:
  "r \<noteq> [] \<Longrightarrow> length (shrink_ring r) \<le> RING \<and> subseq (shrink_ring r) r \<and> shrink_ring r \<noteq> [] \<and> last (shrink_ring r) = last r
    \<and> ((\<exists>e\<in>set (butlast (shrink_ring r)). en_detail e) \<longrightarrow>
         filter (\<lambda>e. \<not> en_detail e) (shrink_ring r) = filter (\<lambda>e. \<not> en_detail e) r)"
proof (induction "length r" arbitrary: r rule: less_induct)
  case less
  show ?case
  proof (cases "length r > RING")
    case False
    with less.prems show ?thesis by (simp add: shrink_ring_step [of r])
  next
    case True
    then have "1 < length r" by (simp add: RING_def)
    note d = dropped_step [OF this]
    have "length (dropped r) < length r" using d(1) \<open>1 < length r\<close> by simp
    note ih = less.hyps [OF this d(4)]
    have sub: "subseq (butlast (shrink_ring (dropped r))) (butlast r)"
    proof -
      have "subseq (butlast (shrink_ring (dropped r)) @ [last r]) (butlast r @ [last r])"
        using ih d(2,3) less.prems by (metis append_butlast_last_id subseq_order.order_trans)
      then show ?thesis by simp
    qed
    have det: "\<exists>e\<in>set (butlast r). en_detail e" if "\<exists>e\<in>set (butlast (shrink_ring (dropped r))). en_detail e"
    proof -
      from that obtain e where e: "e \<in> set (butlast (shrink_ring (dropped r)))" "en_detail e" by blast
      from subseq_mem [OF sub e(1)] e(2) show ?thesis by (rule bexI [rotated])
    qed
    have s: "shrink_ring r = shrink_ring (dropped r)" using True by (simp add: shrink_ring_step [of r])
    have "subseq (shrink_ring (dropped r)) r" using ih d(2) subseq_order.order_trans by blast
    moreover have "last (shrink_ring (dropped r)) = last r" using ih d(3) by simp
    moreover have "filter (\<lambda>e. \<not> en_detail e) (shrink_ring (dropped r)) = filter (\<lambda>e. \<not> en_detail e) r"
      if "\<exists>e\<in>set (butlast (shrink_ring (dropped r))). en_detail e"
      using ih that d(5) [OF det [OF that]] by simp
    ultimately show ?thesis unfolding s using ih by blast
  qed
qed

text \<open>What is recorded, and the runs of one entry: its key, when it was first and last seen, and how often
  again.\<close>

type_synonym run_key = "act_kind \<times> ustr \<times> ustr \<times> bool"

record run =
  rn_key :: run_key
  rn_since :: system_time
  rn_at :: system_time
  rn_repeats :: nat

fun add_to_runs :: "run_key \<times> system_time \<Rightarrow> run list \<Rightarrow> run list" where
  "add_to_runs (k, t) rs =
    (if rs \<noteq> [] \<and> rn_key (last rs) = k
     then butlast rs @ [(last rs)\<lparr>rn_at := t, rn_repeats := rn_repeats (last rs) + 1\<rparr>]
     else rs @ [\<lparr>rn_key = k, rn_since = t, rn_at = t, rn_repeats = 0\<rparr>])"

definition run_lines :: "ustr \<Rightarrow> run \<Rightarrow> ustr list" where
  "run_lines tag r =
    (let (kind, full, shown, detail) = rn_key r; a = \<lparr>ac_ring = [], ac_file = True, ac_tag = tag\<rparr> in
     act_line a (rn_since r) kind full None
     # (if rn_repeats r = 0 then []
        else [act_line a (rn_at r) kind full (Some (of_nat (rn_repeats r), rn_since r))]))"

datatype record_call = Rec (rc_kind: act_kind) (rc_text: ustr) (rc_shown: "ustr option") (rc_detail: bool) (rc_at: system_time)

definition call_key :: "record_call \<Rightarrow> run_key \<times> system_time" where
  "call_key c = ((rc_kind c, file_text (rc_text c),
     (case rc_shown c of None \<Rightarrow> summarised (rc_text c) | Some s \<Rightarrow> summarised s), rc_detail c), rc_at c)"

definition do_record :: "os_answer \<Rightarrow> record_call \<Rightarrow> ustr list \<times> activity \<Rightarrow> ustr list \<times> activity" where
  "do_record os c st =
    (let (ws, a) = st; (w, a1) = record_entry os (rc_kind c) (rc_text c) (rc_shown c) (rc_detail c) (rc_at c) a
     in (ws @ w, a1))"

text \<open>The newest entry of the ring is the run that is still folding.\<close>

definition folding :: "run \<Rightarrow> entry \<Rightarrow> bool" where
  "folding r e \<longleftrightarrow> rn_key r = (en_kind e, en_full e, en_shown e, en_detail e) \<and> en_since e = rn_since r
    \<and> en_at e = rn_at r \<and> unat (en_repeats e) = rn_repeats r"

definition log_inv :: "ustr \<Rightarrow> run list \<Rightarrow> ustr list \<times> activity \<Rightarrow> bool" where
  "log_inv tag rs st \<longleftrightarrow> ac_file (snd st) \<and> ac_tag (snd st) = tag
    \<and> (if rs = [] then ac_ring (snd st) = [] \<and> fst st = []
       else ac_ring (snd st) \<noteq> [] \<and> folding (last rs) (last (ac_ring (snd st)))
         \<and> fst st = concat (map (run_lines tag) (butlast rs)) @ [hd (run_lines tag (last rs))])"

lemma act_line_tag: "ac_tag a = ac_tag b \<Longrightarrow> act_line a = act_line b"
  by (simp add: act_line_def fun_eq_iff)

lemma run_lines_eq:
  assumes "rn_key r = (kind, full, shown, detail)" "ac_tag a = tag"
  shows "run_lines tag r = act_line a (rn_since r) kind full None
    # (if rn_repeats r = 0 then [] else [act_line a (rn_at r) kind full (Some (of_nat (rn_repeats r), rn_since r))])"
  using assms act_line_tag [of "\<lparr>ac_ring = [], ac_file = True, ac_tag = tag\<rparr>" a] by (simp add: run_lines_def)

lemma lines_split: "rs \<noteq> [] \<Longrightarrow> concat (map f rs) = concat (map f (butlast rs)) @ f (last rs)"
  by (induction rs) auto

lemma end_run_lines:
  assumes "log_inv tag rs (ws, a)" "rs \<noteq> []"
  shows "end_run (\<lambda>_. None) now a = (tl (run_lines tag (last rs)), a)"
proof -
  let ?e = "last (ac_ring a)"
  have e: "folding (last rs) ?e" "ac_ring a \<noteq> []" "ac_file a" "ac_tag a = tag" using assms by (auto simp: log_inv_def)
  have n: "en_repeats ?e = of_nat (rn_repeats (last rs))" "en_repeats ?e = 0 \<longleftrightarrow> rn_repeats (last rs) = 0"
  proof -
    have u: "rn_repeats (last rs) = unat (en_repeats ?e)" using e(1) by (simp add: folding_def)
    show "en_repeats ?e = of_nat (rn_repeats (last rs))" "en_repeats ?e = 0 \<longleftrightarrow> rn_repeats (last rs) = 0"
      unfolding u by (simp_all add: unat_eq_zero)
  qed
  show ?thesis
    using e n run_lines_eq [of "last rs" "en_kind ?e" "en_full ?e" "en_shown ?e" "en_detail ?e" a tag]
    by (auto simp: end_run_def act_write_def folding_def Let_def)
qed

lemma do_record_inv:
  assumes "log_inv tag rs st" "rs = [] \<or> rn_repeats (last rs) + 1 < 2 ^ 32"
  shows "log_inv tag (add_to_runs (call_key c) rs) (do_record (\<lambda>_. None) c st)"
proof -
  obtain ws a where st: "st = (ws, a)" by fastforce
  obtain kind full shown detail t where k: "call_key c = ((kind, full, shown, detail), t)" by (metis prod_cases4 surj_pair)
  have kd: "rc_kind c = kind" "file_text (rc_text c) = full" "rc_detail c = detail" "rc_at c = t"
    "(case rc_shown c of None \<Rightarrow> summarised (rc_text c) | Some s \<Rightarrow> summarised s) = shown"
    using k by (simp_all add: call_key_def)
  have inv: "ac_file a" "ac_tag a = tag" using assms(1) by (simp_all add: st log_inv_def)
  show ?thesis
  proof (cases "rs \<noteq> [] \<and> rn_key (last rs) = (kind, full, shown, detail)")
    case True
    let ?e = "last (ac_ring a)"
    have e: "ac_ring a \<noteq> []" "folding (last rs) ?e" "ws = concat (map (run_lines tag) (butlast rs)) @ [hd (run_lines tag (last rs))]"
      using assms(1) True by (simp_all add: st log_inv_def)
    have m: "en_kind ?e = kind \<and> en_full ?e = full \<and> en_shown ?e = shown \<and> en_detail ?e = detail"
      using e(2) True by (simp add: folding_def)
    have "unat (en_repeats ?e) + 1 < 2 ^ 32" using e(2) True assms(2) by (simp add: folding_def)
    then have r: "unat (sat_add (en_repeats ?e) 1) = unat (en_repeats ?e) + 1" by (simp add: unat_sat_add)
    have d: "do_record (\<lambda>_. None) c st = (ws, a\<lparr>ac_ring := butlast (ac_ring a) @
        [?e\<lparr>en_repeats := sat_add (en_repeats ?e) 1, en_at := t\<rparr>]\<rparr>)"
      using e(1) m kd by (simp add: do_record_def st record_entry_def Let_def)
    have h: "hd (run_lines tag (last rs)) = hd (run_lines tag ((last rs)\<lparr>rn_at := t, rn_repeats := n\<rparr>))" for n
      by (simp add: run_lines_def Let_def split: prod.split)
    show ?thesis unfolding d
      using True inv e r m h by (simp add: log_inv_def k folding_def butlast_append)
  next
    case False
    have m: "\<not> (ac_ring a \<noteq> [] \<and> en_kind (last (ac_ring a)) = kind \<and> en_full (last (ac_ring a)) = full
        \<and> en_shown (last (ac_ring a)) = shown \<and> en_detail (last (ac_ring a)) = detail)"
      using assms(1) False by (auto simp: st log_inv_def folding_def split: if_splits)
    obtain w1 where er: "end_run (\<lambda>_. None) t a = (w1, a)"
      and w1: "ws @ w1 = concat (map (run_lines tag) rs)"
    proof (cases "rs = []")
      case True
      with assms(1) have "end_run (\<lambda>_. None) t a = ([], a)" "ws = []" by (simp_all add: st log_inv_def end_run_def)
      with True that show ?thesis by simp
    next
      case rs: False
      have ws: "ws = concat (map (run_lines tag) (butlast rs)) @ [hd (run_lines tag (last rs))]"
        using assms(1) rs by (simp add: st log_inv_def)
      have "run_lines tag (last rs) \<noteq> []" by (simp add: run_lines_def Let_def split: prod.split)
      then have "ws @ tl (run_lines tag (last rs)) = concat (map (run_lines tag) (butlast rs @ [last rs]))"
        using ws by simp
      with rs end_run_lines [of tag rs ws a] assms(1) st that show ?thesis by simp
    qed
    define e where "e = \<lparr>en_at = t, en_since = t, en_kind = kind, en_text = summarised (rc_text c), en_shown = shown,
      en_full = full, en_detail = detail, en_repeats = 0\<rparr>"
    have p: "ac_ring (act_push e a) \<noteq> []" "last (ac_ring (act_push e a)) = e" "ac_file (act_push e a)" "ac_tag (act_push e a) = tag"
      using shrink_ring_keeps [of "ac_ring a @ [e]"] inv by (simp_all add: act_push_def)
    have d: "do_record (\<lambda>_. None) c st = (ws @ w1 @ [act_line a t kind full None], act_push e a)"
      using m kd er p by (auto simp: do_record_def st record_entry_def Let_def act_write_def e_def [symmetric])
    show ?thesis unfolding d
      using False w1 p inv
      by (auto simp: log_inv_def k folding_def e_def run_lines_def act_line_def)
  qed
qed

lemma add_to_runs_bound:
  assumes "\<forall>r\<in>set rs. rn_repeats r < n"
  shows "\<forall>r\<in>set (add_to_runs x rs). rn_repeats r < Suc n"
proof -
  obtain k t where x: "x = (k, t)" by fastforce
  have b: "rn_repeats r < Suc n" if "r \<in> set rs" for r using assms that by (simp add: less_SucI)
  have l: "rn_repeats (last rs) < n" if "rs \<noteq> []" using assms last_in_set [OF that] by blast
  show ?thesis
  proof (cases "rs \<noteq> [] \<and> rn_key (last rs) = k")
    case True
    then show ?thesis using b l by (auto simp: x dest: in_set_butlastD)
  next
    case False
    then have "add_to_runs x rs = rs @ [\<lparr>rn_key = k, rn_since = t, rn_at = t, rn_repeats = 0\<rparr>]" by (auto simp: x)
    then show ?thesis using b by auto
  qed
qed

lemma log_file_run:
  assumes "length cs < 2 ^ 32"
  shows "log_inv tag (fold add_to_runs (map call_key cs) []) (fold (do_record (\<lambda>_. None)) cs ([], \<lparr>ac_ring = [], ac_file = True, ac_tag = tag\<rparr>))
    \<and> (\<forall>r\<in>set (fold add_to_runs (map call_key cs) []). rn_repeats r < length cs)"
  using assms
proof (induction cs rule: rev_induct)
  case Nil
  then show ?case by (simp add: log_inv_def)
next
  case (snoc c cs)
  let ?rs = "fold add_to_runs (map call_key cs) []"
  have ih: "log_inv tag ?rs (fold (do_record (\<lambda>_. None)) cs ([], \<lparr>ac_ring = [], ac_file = True, ac_tag = tag\<rparr>))"
    "\<forall>r\<in>set ?rs. rn_repeats r < length cs" using snoc by simp_all
  have lst: "rn_repeats (last ?rs) < length cs" if "?rs \<noteq> []" using ih(2) last_in_set [OF that] by blast
  have "?rs = [] \<or> rn_repeats (last ?rs) + 1 < 2 ^ 32" using lst snoc.prems by fastforce
  note inv = do_record_inv [OF ih(1) this, of c]
  from add_to_runs_bound [OF ih(2), of "call_key c"]
  show ?case using inv by simp
qed



text \<open>The popup's list keeps what it shows. Recording an entry never grows the ring past its size, keeps the
  entries that stay in their order with the new one last, and as long as a step of an outage is left in
  it, no entry the popup shows has been dropped.\<close>

theorem ring_keeps_what_is_shown:
  "let r = ac_ring (act_push e a) in
     length r \<le> RING \<and> subseq r (ac_ring a @ [e]) \<and> r \<noteq> [] \<and> last r = e
     \<and> (if \<exists>x\<in>set (butlast r). en_detail x
        then filter (\<lambda>x. \<not> en_detail x) r = filter (\<lambda>x. \<not> en_detail x) (ac_ring a @ [e]) else True)"
  using shrink_ring_keeps [of "ac_ring a @ [e]"] by (auto simp: act_push_def Let_def)

text \<open>No line of the file holds a control character of the text it was given.\<close>

lemma join_with_mem: "c \<in> set (join_with sep ls) \<Longrightarrow> c \<in> set sep \<or> (\<exists>l\<in>set ls. c \<in> set l)"
  by (induction ls) (auto split: if_splits)

lemma file_text_plain:
  assumes "c \<in> set (file_text text)"
  shows "\<not> is_control_scalar c"
proof -
  have "c \<in> set (join_with (str_of '' | '') (map legible (filter (\<lambda>l. l \<noteq> []) (map str_trim (str_lines text))))) \<or> c = 46"
    using assms by (auto simp: file_text_def Let_def str_of_def split: if_splits dest: in_set_takeD)
  then consider "c \<in> {32, 124, 46}" | l where "c \<in> set (legible l)"
    by (auto simp: str_of_def dest!: join_with_mem)
  then show ?thesis using legible_plain by cases (auto simp: is_control_scalar_def)
qed

lemma file_text_length: "length (file_text text) \<le> FILE_TEXT_CAP + 3"
  by (auto simp: file_text_def Let_def str_of_def)

section \<open>Dates are the calendar's\<close>

definition leap :: "int \<Rightarrow> bool" where
  "leap y \<longleftrightarrow> 4 dvd y \<and> (\<not> 100 dvd y \<or> 400 dvd y)"

definition month_length :: "int \<Rightarrow> nat \<Rightarrow> nat" where
  "month_length y m = (if m = 2 then (if leap y then 29 else 28) else if m \<in> {4, 6, 9, 11} then 30 else 31)"

definition next_day :: "int \<times> nat \<times> nat \<Rightarrow> int \<times> nat \<times> nat" where
  "next_day = (\<lambda>(y, m, d). if d < month_length y m then (y, m, d + 1) else if m < 12 then (y, m + 1, 1) else (y + 1, 1, 1))"

definition year_start :: "int \<Rightarrow> int" where
  "year_start y = 365 * y + y div 4 - y div 100 + y div 400"

lemma div_Suc:
  fixes y k :: int
  assumes "0 < k"
  shows "(y + 1) div k = y div k + (if k dvd y + 1 then 1 else 0)"
proof -
  define q r where "q = y div k" and "r = y mod k"
  have y: "y = k * q + r" by (simp add: q_def r_def)
  have m: "0 \<le> r" "r < k" using assms by (simp_all add: r_def)
  show ?thesis
  proof (cases "r + 1 = k")
    case True
    have e: "y + 1 = k * (q + 1)" unfolding y using True by (simp add: distrib_left)
    show ?thesis unfolding e q_def [symmetric] using assms by simp
  next
    case False
    have "\<not> k dvd r + 1" using False m zdvd_not_zless [of "r + 1" k] by simp
    moreover have "k dvd y + 1 \<longleftrightarrow> k dvd r + 1" unfolding y add.assoc by (rule dvd_add_right_iff) simp
    moreover have "(y + 1) div k = q"
    proof -
      have "(k * q + (r + 1)) div k = q + (r + 1) div k"
        using assms div_mult_self4 [of k q "r + 1"] by auto
      moreover have "(r + 1) div k = 0" using False m by (intro div_pos_pos_trivial) simp_all
      ultimately show ?thesis unfolding y add.assoc by simp
    qed
    ultimately show ?thesis by (simp add: q_def [symmetric])
  qed
qed

lemma year_length: "year_start (y + 1) = year_start y + 365 + (if leap (y + 1) then 1 else 0)"
proof -
  define a b c where "a = (4 dvd y + 1)" and "b = (100 dvd y + 1)" and "c = (400 dvd y + 1)"
  have d: "b \<Longrightarrow> a" "c \<Longrightarrow> b" unfolding a_def b_def c_def by (erule dvd_trans [rotated], simp)+
  have "(y + 1) div 4 = y div 4 + (if a then 1 else 0)" "(y + 1) div 100 = y div 100 + (if b then 1 else 0)"
    "(y + 1) div 400 = y div 400 + (if c then 1 else 0)"
    unfolding a_def b_def c_def by (rule div_Suc, simp)+
  note e = this
  have l: "leap (y + 1) \<longleftrightarrow> a \<and> (\<not> b \<or> c)" unfolding leap_def a_def b_def c_def ..
  show ?thesis
    unfolding year_start_def l e using d by (cases a; cases b; cases c) simp_all
qed

lemma year_start_era: "year_start (y + era * 400) = year_start y + era * 146097"
proof -
  have "(y + era * 400) div 4 = y div 4 + era * 100" "(y + era * 400) div 100 = y div 100 + era * 4"
    "(y + era * 400) div 400 = y div 400 + era" by simp_all
  then show ?thesis unfolding year_start_def by simp
qed

text \<open>The year of the era, by centuries, four years and years.\<close>

lemma year_of_era:
  fixes doe yoe :: int
  assumes "0 \<le> doe" "doe < 146097" "yoe = (doe - doe div 1460 + doe div 36524 - doe div 146096) div 365"
  shows "0 \<le> yoe \<and> yoe < 400 \<and> year_start yoe \<le> doe \<and> doe < year_start (yoe + 1)"
proof -
  define q where "q = doe div 36524 - doe div 146096"
  have q: "0 \<le> q \<and> q \<le> 3 \<and> 36524 * q \<le> doe \<and> doe \<le> 36524 * q + 36524 \<and> (q < 3 \<longrightarrow> doe < 36524 * q + 36524)"
  proof (cases "doe = 146096")
    case False
    then have "doe div 146096 = 0" using assms(1,2) by simp
    moreover have "doe div 36524 < 4" using False assms(2) by (simp add: div_less_iff_less_mult)
    moreover have "36524 * (doe div 36524) \<le> doe" "doe < 36524 * (doe div 36524) + 36524"
      by (simp_all add: mult_div_mod_eq [symmetric] minus_mod_eq_mult_div [symmetric])
    ultimately show ?thesis using assms(1) by (simp add: q_def)
  qed (simp add: q_def)
  define r where "r = doe - 36524 * q"
  define f s where "f = r div 1461" and "s = r mod 1461"
  have rs: "r = 1461 * f + s" "0 \<le> s" "s \<le> 1460" by (simp_all add: f_def s_def)
  have r: "0 \<le> r" "r \<le> 36524" "q < 3 \<Longrightarrow> r < 36524" using q by (simp_all add: r_def)
  have f: "0 \<le> f" "f \<le> 24" using r rs by linarith+
  have doe: "doe = 36524 * q + 1461 * f + s" using rs(1) by (simp add: r_def)
  define e where "e = (24 * q + f + s) div 1460"
  have e: "e = (if 24 * q + f + s < 1460 then 0 else 1)"
  proof (cases "24 * q + f + s < 1460")
    case True
    then show ?thesis using q f rs by (simp add: e_def)
  next
    case False
    then have "(24 * q + f + s) div 1460 = (24 * q + f + s - 1460) div 1460 + 1"
      by (simp add: div_pos_geq)
    also have "(24 * q + f + s - 1460) div 1460 = 0" using False q f rs by (intro div_pos_pos_trivial) linarith+
    finally show ?thesis using False by (simp add: e_def)
  qed
  have "doe = (24 * q + f + s) + 1460 * (25 * q + f)" by (simp add: doe)
  then have d1460: "doe div 1460 = e + (25 * q + f)" unfolding e_def by (simp only: div_mult_self2)
  define ys where "ys = (s - e) div 365"
  have "yoe = (doe - doe div 1460 + q) div 365" using assms(3) by (simp add: q_def add.commute add_diff_eq)
  also have "doe - doe div 1460 + q = (s - e) + 365 * (100 * q + 4 * f)" unfolding d1460 using doe by simp
  finally have yoe: "yoe = ys + (100 * q + 4 * f)" by (simp add: ys_def)
  have x: "0 \<le> s - e" "s - e \<le> 1459" using e rs q f by (auto split: if_splits)
  have ys: "365 * ys \<le> s - e" "s - e < 365 * ys + 365" unfolding ys_def using div_mult_mod_eq [of "s - e" 365] 
    pos_mod_sign [of 365 "s - e"] pos_mod_bound [of 365 "s - e"] by linarith+
  have ys03: "0 \<le> ys" "ys \<le> 3" using ys x by linarith+
  have up: "ys < 3 \<Longrightarrow> s < 365 * ys + 365" using ys e rs q f by (auto split: if_splits)
  have b: "0 \<le> yoe" "yoe < 400" using yoe ys03 q f by linarith+
  have y4: "yoe div 4 = 25 * q + f"
  proof -
    have "yoe = ys + 4 * (25 * q + f)" by (simp add: yoe)
    moreover have "ys div 4 = 0" using ys03 by (intro div_pos_pos_trivial) linarith+
    ultimately show ?thesis by (simp only: div_mult_self2)
  qed
  have y100: "yoe div 100 = q"
  proof -
    have "yoe = (ys + 4 * f) + 100 * q" by (simp add: yoe)
    moreover have "(ys + 4 * f) div 100 = 0" using ys03 f by (intro div_pos_pos_trivial) linarith+
    ultimately show ?thesis by (simp only: div_mult_self2)
  qed
  have st: "year_start yoe = 36524 * q + 1461 * f + 365 * ys"
    using b unfolding year_start_def y4 y100 by (simp add: yoe)
  have "doe < year_start (yoe + 1)"
  proof (cases "ys = 3 \<and> s = 1460")
    case True
    have "leap (yoe + 1)"
    proof (cases "f = 24")
      case f24: True
      with True rs r have "\<not> q < 3" by auto
      with q have "q = 3" by simp
      with True f24 yoe have "yoe + 1 = 400" by simp
      then show ?thesis by (simp add: leap_def)
    next
      case False
      have "yoe + 1 = 4 * (25 * q + f + 1)" "yoe + 1 = 100 * q + 4 * (f + 1)" using True yoe by simp_all
      moreover have "\<not> 100 dvd 4 * (f + 1)" using False f zdvd_not_zless [of "4 * (f + 1)" 100] by auto
      ultimately show ?thesis unfolding leap_def by (metis dvd_add_right_iff dvd_triv_left)
    qed
    with True show ?thesis by (simp add: year_length st doe)
  next
    case False
    then have "s < 365 * ys + 365" using up ys03 rs by (cases "ys < 3") auto
    with st doe show ?thesis unfolding year_length by auto
  qed
  moreover have "year_start yoe \<le> doe" using st doe ys(1) e by (auto split: if_splits)
  ultimately show ?thesis using b by blast
qed

text \<open>The day of a year that begins in March.\<close>

definition date_in :: "int \<Rightarrow> int \<Rightarrow> int \<times> nat \<times> nat" where
  "date_in y doy =
    (let mp = (5 * doy + 2) div 153;
         m = nat (if mp < 10 then mp + 3 else mp - 9)
     in (y + (if m \<le> 2 then 1 else 0), m, nat (doy - (153 * mp + 2) div 5 + 1)))"

lemma civil_year:
  obtains y where "civil days = date_in y (days + 719468 - year_start y)"
    "year_start y \<le> days + 719468" "days + 719468 < year_start (y + 1)"
proof -
  define z where "z = days + 719468"
  define era doe where "era = z div 146097" and "doe = z mod 146097"
  define yoe where "yoe = (doe - doe div 1460 + doe div 36524 - doe div 146096) div 365"
  have doe: "0 \<le> doe" "doe < 146097" "z = doe + era * 146097" by (simp_all add: doe_def era_def)
  note y = year_of_era [OF doe(1,2) yoe_def]
  have "yoe div 400 = 0" using y by (intro div_pos_pos_trivial) auto
  then have doy: "doe - (365 * yoe + yoe div 4 - yoe div 100) = z - year_start (yoe + era * 400)"
    unfolding year_start_era using doe(3) by (simp add: year_start_def)
  have "civil days = date_in (yoe + era * 400) (z - year_start (yoe + era * 400))"
    unfolding civil_def date_in_def Let_def z_def [symmetric] era_def [symmetric] doe_def [symmetric] yoe_def [symmetric]
    by (simp only: doy)
  moreover have "year_start (yoe + era * 400) \<le> z" unfolding year_start_era using y doe(3) by simp
  moreover have "z < year_start (yoe + era * 400 + 1)"
    using year_start_era [of "yoe + 1" era] y doe(3) by (simp add: algebra_simps)
  ultimately show ?thesis using that z_def by blast
qed

lemma date_next:
  assumes "0 \<le> doy" "doy + 1 < 365 + (if leap (y + 1) then 1 else 0)"
  shows "date_in y (doy + 1) = next_day (date_in y doy)"
proof -
  define k where "k = (5 * doy + 2) div 153"
  have k: "153 * k \<le> 5 * doy + 2" "5 * doy + 2 < 153 * k + 153"
    using div_mult_mod_eq [of "5 * doy + 2" 153] pos_mod_sign [of 153 "5 * doy + 2"] pos_mod_bound [of 153 "5 * doy + 2"]
    unfolding k_def by linarith+
  have k11: "0 \<le> k" "k \<le> 11" using k assms by (auto split: if_splits)
  define nx where "nx = (if 5 * doy + 7 < 153 * (k + 1) then k else k + 1)"
  have n: "(5 * (doy + 1) + 2) div 153 = nx"
    by (rule int_div_pos_eq [of _ _ _ "5 * (doy + 1) + 2 - 153 * nx"]) (use k in \<open>auto simp: nx_def split: if_splits\<close>)
  have "k = 0 \<or> k = 1 \<or> k = 2 \<or> k = 3 \<or> k = 4 \<or> k = 5 \<or> k = 6 \<or> k = 7 \<or> k = 8 \<or> k = 9 \<or> k = 10 \<or> k = 11"
    using k11 by arith
  then show ?thesis
    unfolding date_in_def next_day_def n k_def [symmetric] Let_def
    by (elim disjE; use k assms in \<open>auto simp: nx_def month_length_def split: if_splits\<close>)
qed

lemma date_wrap: "date_in (y + 1) 0 = next_day (date_in y (364 + (if leap (y + 1) then 1 else 0)))"
  by (simp add: date_in_def next_day_def month_length_def)

lemma year_start_mono: "a < b \<Longrightarrow> year_start a < year_start b"
proof (induction b rule: int_gr_induct [of a])
  case base
  then show ?case by (simp add: year_length)
next
  case (step i)
  then show ?case using year_length [of i] by simp
qed

lemma year_unique:
  assumes "year_start a \<le> z" "z < year_start (a + 1)" "year_start b \<le> z" "z < year_start (b + 1)"
  shows "a = b"
proof (rule ccontr)
  have le: "year_start (x + 1) \<le> year_start w" if "x < w" for x w :: int
    using that year_start_mono [of "x + 1" w] by (cases "x + 1 = w") auto
  assume "a \<noteq> b"
  then show False using le [of a b] le [of b a] assms by (cases "a < b") auto
qed

text \<open>The dates of the file are the calendar's: day zero is the first of January 1970, and each day has the
  date after the one before it.\<close>

theorem civil_counts_the_days: "civil 0 = (1970, 1, 1) \<and> civil (days + 1) = next_day (civil days)"
proof
  show "civil 0 = (1970, 1, 1)" by code_simp
  obtain y where y: "civil days = date_in y (days + 719468 - year_start y)"
    "year_start y \<le> days + 719468" "days + 719468 < year_start (y + 1)" by (rule civil_year)
  obtain y' where y': "civil (days + 1) = date_in y' (days + 1 + 719468 - year_start y')"
    "year_start y' \<le> days + 1 + 719468" "days + 1 + 719468 < year_start (y' + 1)" by (rule civil_year)
  show "civil (days + 1) = next_day (civil days)"
  proof (cases "days + 1 + 719468 < year_start (y + 1)")
    case True
    then have "y' = y" using y y' by (intro year_unique [of y' "days + 1 + 719468" y]) simp_all
    have "days + 719468 - year_start y + 1 < 365 + (if leap (y + 1) then 1 else 0)"
      using True unfolding year_length by simp
    with y have "date_in y (days + 719468 - year_start y + 1) = next_day (civil days)"
      by (simp only: y(1), intro date_next) simp_all
    moreover have "days + 719468 - year_start y + 1 = days + 1 + 719468 - year_start y" by simp
    ultimately show ?thesis using y'(1) \<open>y' = y\<close> by (simp only:)
  next
    case False
    then have e: "days + 1 + 719468 = year_start (y + 1)" using y(3) by simp
    have "y' = y + 1"
      using e y' year_start_mono [of "y + 1" "y + 1 + 1"] by (intro year_unique [of y' "days + 1 + 719468" "y + 1"]) simp_all
    moreover have "days + 719468 - year_start y = 364 + (if leap (y + 1) then 1 else 0)"
      using e unfolding year_length by simp
    moreover have "days + 1 + 719468 - year_start (y + 1) = 0" using e by simp
    ultimately show ?thesis using date_wrap [of y] y(1) y'(1) by (simp only:)
  qed
qed

end
