(* ===== verification/Proto_Screen.thy ===== *)
theory Proto_Screen
  imports Proto_Types
begin

text \<open>
  The replicated screen of \<open>crates/oxutrm-proto/src/screen.rs\<close>: the state record, its blank
  constructor, the row and cell accessors, the preview window, and the invariants \<open>validate\<close> (I1,
  I2, I3, I7, I8, I10) and \<open>validate_transition\<close> (I5, I6, I9) check. The lemmas characterise both
  checkers and show that the blank screen and every window of a valid screen are valid.
\<close>

datatype cursor_shape = Block | Underline | Bar

record cursor =
  cur_row :: u16
  cur_col :: u16
  cur_visible :: bool
  cur_shape :: cursor_shape

datatype mouse_mode = Off | Press | PressRelease | ButtonMotion | AnyMotion

record modes =
  alt_screen :: bool
  bracketed_paste :: bool
  mouse :: mouse_mode
  app_cursor :: bool
  app_keypad :: bool

definition modes_default :: modes where
  "modes_default = \<lparr>alt_screen = False, bracketed_paste = False, mouse = Off,
     app_cursor = False, app_keypad = False\<rparr>"

record screen_state =
  scr_seq :: u64
  scr_rows :: u16
  scr_cols :: u16
  scr_cells :: "cell list"
  scr_cursor :: cursor
  scr_modes :: modes
  scr_title :: ustr
  scr_bell :: u32
  scr_scrollback_len :: u64
  scr_clipboard :: clipboard
  scr_links :: link_table

text \<open>\<open>cell\<close> and \<open>row\<close> panic outside the screen: \<open>None\<close>. \<open>row_slice\<close> is the slice \<open>row\<close> returns
  when it does not panic.\<close>

definition screen_cell :: "screen_state \<Rightarrow> u16 \<Rightarrow> u16 \<Rightarrow> cell option" where
  "screen_cell s r c =
    (let i = unat r * unat (scr_cols s) + unat c
     in if r < scr_rows s \<and> c < scr_cols s \<and> i < length (scr_cells s)
        then Some (scr_cells s ! i) else None)"

definition row_slice :: "screen_state \<Rightarrow> nat \<Rightarrow> cell list" where
  "row_slice s r = take (unat (scr_cols s)) (drop (r * unat (scr_cols s)) (scr_cells s))"

definition screen_row :: "screen_state \<Rightarrow> u16 \<Rightarrow> cell list option" where
  "screen_row s r =
    (if r < scr_rows s \<and> unat r * unat (scr_cols s) + unat (scr_cols s) \<le> length (scr_cells s)
     then Some (row_slice s (unat r)) else None)"

section \<open>The invariants of one state\<close>

definition validate :: "screen_state \<Rightarrow> apply_error + unit" where
  "validate s =
    and_then (check_bounds \<lparr>ts_cols = scr_cols s, ts_rows = scr_rows s\<rparr>) (\<lambda>_.
    let expected = unat (scr_rows s) * unat (scr_cols s) in
    if length (scr_cells s) \<noteq> expected
    then Inl (LengthMismatch (length (scr_cells s)) (scr_rows s) (scr_cols s))
    else if scr_seq s = 0 then Inl SeqZero
    else if expected \<noteq> 0 \<and>
       (cur_row (scr_cursor s) \<ge> scr_rows s \<or> cur_col (scr_cursor s) \<ge> scr_cols s)
    then Inl (CursorOutOfBounds (cur_row (scr_cursor s)) (cur_col (scr_cursor s))
       (scr_rows s) (scr_cols s))
    else and_then (check_all (\<lambda>c. check_cell_text (c_text c)) (scr_cells s)) (\<lambda>_.
    and_then (check_title (scr_title s)) (\<lambda>_.
    and_then (check_clipboard (scr_clipboard s)) (\<lambda>_.
    and_then (check_links (scr_links s)) (\<lambda>_.
    check_all (\<lambda>c. if c_link c \<noteq> 0 \<and> \<not> bt_has (scr_links s) (c_link c)
                   then Inl (UnknownLink (c_link c)) else Inr ()) (scr_cells s))))))"

definition validate_transition :: "screen_state \<Rightarrow> screen_state \<Rightarrow> apply_error + unit" where
  "validate_transition s previous =
    and_then (validate s) (\<lambda>_.
    if scr_bell s < scr_bell previous
    then Inl (BellWentBackwards (scr_bell previous) (scr_bell s))
    else if scr_scrollback_len s < scr_scrollback_len previous
    then Inl (ScrollbackShrank (scr_scrollback_len previous) (scr_scrollback_len s))
    else if cb_serial (scr_clipboard s) < cb_serial (scr_clipboard previous)
    then Inl (ClipboardWentBackwards
       (cb_serial (scr_clipboard previous)) (cb_serial (scr_clipboard s)))
    else Inr ())"

definition blank_state :: "u16 \<Rightarrow> u16 \<Rightarrow> screen_state" where
  "blank_state rows cols =
    \<lparr>scr_seq = 1, scr_rows = rows, scr_cols = cols,
     scr_cells = replicate (unat rows * unat cols) cell_blank,
     scr_cursor = \<lparr>cur_row = 0, cur_col = 0, cur_visible = True, cur_shape = Block\<rparr>,
     scr_modes = modes_default, scr_title = [], scr_bell = 0, scr_scrollback_len = 0,
     scr_clipboard = clipboard_default, scr_links = []\<rparr>"

definition blank :: "u16 \<Rightarrow> u16 \<Rightarrow> apply_error + screen_state" where
  "blank rows cols =
    and_then (check_bounds \<lparr>ts_cols = cols, ts_rows = rows\<rparr>) (\<lambda>_.
    and_then (validate (blank_state rows cols)) (\<lambda>_. Inr (blank_state rows cols)))"

section \<open>The preview window\<close>

definition cut_row :: "screen_state \<Rightarrow> u16 \<Rightarrow> nat \<Rightarrow> cell list" where
  "cut_row s cols r =
    (let row = row_slice s r;
         cells = map (\<lambda>c. c\<lparr>c_link := 0\<rparr>) (take (unat cols) row);
         cut_pair = cols > 0 \<and> cols < scr_cols s
           \<and> attrs_contains (c_attrs (row ! unat cols)) WIDE_CONT
     in if cut_pair \<and> cells \<noteq> []
        then butlast cells @ [(last cells)\<lparr>c_text := [32], c_attrs := 0\<rparr>]
        else cells)"

definition window_top :: "screen_state \<Rightarrow> u16 \<Rightarrow> u16" where
  "window_top s rows =
    (if cur_visible (scr_cursor s)
     then min (sat_sub (sat_add (cur_row (scr_cursor s)) 1) rows) (scr_rows s - rows)
     else 0)"

definition window :: "screen_state \<Rightarrow> term_size \<Rightarrow> screen_state" where
  "window s sz =
    (let rows = min (scr_rows s) (ts_rows sz);
         cols = min (scr_cols s) (ts_cols sz);
         top = window_top s rows;
         cells = concat (map (cut_row s cols) [unat top ..< unat top + unat rows]);
         pos = (if rows = 0 \<or> cols = 0 then (0, 0)
                else (min (sat_sub (cur_row (scr_cursor s)) top) (rows - 1),
                      min (cur_col (scr_cursor s)) (cols - 1)))
     in \<lparr>scr_seq = 1, scr_rows = rows, scr_cols = cols, scr_cells = cells,
         scr_cursor = (scr_cursor s)\<lparr>cur_row := fst pos, cur_col := snd pos\<rparr>,
         scr_modes = modes_default, scr_title = [], scr_bell = 0, scr_scrollback_len = 0,
         scr_clipboard = clipboard_default, scr_links = []\<rparr>)"

section \<open>What the checkers accept\<close>

text \<open>The invariants as one predicate on states, in the vocabulary of the comments of the code.\<close>

definition cursor_on_screen :: "screen_state \<Rightarrow> bool" where
  "cursor_on_screen s \<longleftrightarrow>
    (unat (scr_rows s) * unat (scr_cols s) = 0 \<or>
     (cur_row (scr_cursor s) < scr_rows s \<and> cur_col (scr_cursor s) < scr_cols s))"

definition cell_ok :: "link_table \<Rightarrow> cell \<Rightarrow> bool" where
  "cell_ok links c \<longleftrightarrow>
    check_cell_text (c_text c) = Inr () \<and> (c_link c = 0 \<or> bt_has links (c_link c))"

definition screen_valid :: "screen_state \<Rightarrow> bool" where
  "screen_valid s \<longleftrightarrow>
    check_bounds \<lparr>ts_cols = scr_cols s, ts_rows = scr_rows s\<rparr> = Inr ()
    \<and> length (scr_cells s) = unat (scr_rows s) * unat (scr_cols s)
    \<and> scr_seq s \<noteq> 0 \<and> cursor_on_screen s
    \<and> (\<forall>c\<in>set (scr_cells s). cell_ok (scr_links s) c)
    \<and> check_title (scr_title s) = Inr ()
    \<and> check_clipboard (scr_clipboard s) = Inr ()
    \<and> check_links (scr_links s) = Inr ()"

lemma unit_sum_Inr: "(r :: 'e + unit) = Inr u \<longleftrightarrow> r = Inr ()"
  by (cases u) simp

lemma validate_ok_iff: "validate s = Inr u \<longleftrightarrow> screen_valid s"
  by (auto simp: validate_def screen_valid_def cursor_on_screen_def cell_ok_def Let_def
      and_then_Inr_iff check_all_ok_iff' unit_sum_Inr [where u = u] not_le not_less
      split: if_splits)

definition monotone_from :: "screen_state \<Rightarrow> screen_state \<Rightarrow> bool" where
  "monotone_from previous s \<longleftrightarrow>
    scr_bell previous \<le> scr_bell s \<and> scr_scrollback_len previous \<le> scr_scrollback_len s
    \<and> cb_serial (scr_clipboard previous) \<le> cb_serial (scr_clipboard s)"

lemma validate_transition_ok_iff:
  "validate_transition s previous = Inr u \<longleftrightarrow> screen_valid s \<and> monotone_from previous s"
  by (auto simp: validate_transition_def monotone_from_def and_then_Inr_iff validate_ok_iff
      not_less unit_sum_Inr [where u = u] split: if_splits)

lemma screen_valid_row:
  assumes "screen_valid s" and "r < scr_rows s"
  shows "screen_row s r = Some (row_slice s (unat r))"
proof -
  have "unat r < unat (scr_rows s)"
    using assms(2) by (simp add: word_less_nat_alt)
  then have "unat r * unat (scr_cols s) + unat (scr_cols s)
      \<le> unat (scr_rows s) * unat (scr_cols s)"
    by (metis Suc_leI add.commute mult_Suc mult_le_mono1)
  with assms show ?thesis
    by (simp add: screen_row_def screen_valid_def)
qed

lemma cell_blank_ok: "cell_ok links cell_blank"
  by (simp add: cell_ok_def cell_blank_def check_cell_text_ok_iff limit_defs len_utf8_def
      is_control_scalar_def)

lemma screen_valid_blank:
  assumes "check_bounds \<lparr>ts_cols = cols, ts_rows = rows\<rparr> = Inr ()"
  shows "screen_valid (blank_state rows cols)"
  using assms
  by (auto simp: screen_valid_def blank_state_def cell_blank_ok cursor_on_screen_def
      check_title_ok_iff check_clipboard_def clipboard_default_def check_links_ok_iff
      word_gt_0 unat_eq_0)

section \<open>Windows of valid screens\<close>

lemma row_slice_length:
  assumes "screen_valid s" and "r < unat (scr_rows s)"
  shows "length (row_slice s r) = unat (scr_cols s)"
proof -
  have "unat (scr_cols s) + r * unat (scr_cols s) \<le> unat (scr_rows s) * unat (scr_cols s)"
    using assms(2) by (metis Suc_leI mult_Suc mult_le_mono1)
  with assms(1) show ?thesis
    by (simp add: row_slice_def screen_valid_def)
qed

lemma set_row_slice: "set (row_slice s r) \<subseteq> set (scr_cells s)"
  by (auto simp: row_slice_def dest: in_set_takeD in_set_dropD)

lemma row_slice_nth:
  assumes "screen_valid s" and "r < unat (scr_rows s)" and "c < unat (scr_cols s)"
  shows "row_slice s r ! c = scr_cells s ! (r * unat (scr_cols s) + c)"
proof -
  have "r * unat (scr_cols s) \<le> length (scr_cells s)"
    using assms(1,2) by (simp add: screen_valid_def)
  with assms(3) show ?thesis
    by (simp add: row_slice_def)
qed

lemma length_cut_row:
  assumes "screen_valid s" and "r < unat (scr_rows s)" and "cols \<le> scr_cols s"
  shows "length (cut_row s cols r) = unat cols"
  using assms row_slice_length [OF assms(1,2)]
  by (auto simp: cut_row_def Let_def word_le_nat_alt)

lemma cell_ok_unlink:
  "cell_ok links c \<Longrightarrow> cell_ok links' (c\<lparr>c_link := 0\<rparr>)"
  "cell_ok links (c\<lparr>c_link := 0, c_text := [32], c_attrs := 0\<rparr>)"
  by (simp_all add: cell_ok_def check_cell_text_ok_iff limit_defs len_utf8_def
      is_control_scalar_def)

lemma cut_row_cells_ok:
  assumes "screen_valid s" and "c \<in> set (cut_row s cols r)"
  shows "cell_ok [] c"
proof -
  have ok: "cell_ok [] (x\<lparr>c_link := 0\<rparr>)" if "x \<in> set (take (unat cols) (row_slice s r))" for x
  proof -
    have "x \<in> set (scr_cells s)"
      using that set_row_slice [of s r] by (meson in_set_takeD subsetD)
    with assms(1) have "cell_ok (scr_links s) x"
      by (simp add: screen_valid_def)
    then show ?thesis by (rule cell_ok_unlink(1))
  qed
  let ?cells = "map (\<lambda>c. c\<lparr>c_link := 0\<rparr>) (take (unat cols) (row_slice s r))"
  have "cell_ok [] ((last ?cells)\<lparr>c_text := [32], c_attrs := 0\<rparr>)" if "?cells \<noteq> []"
    using that last_in_set [OF that] cell_ok_unlink(2) by (auto simp: last_map)
  with ok assms(2) show ?thesis
    by (auto simp: cut_row_def Let_def split: if_splits dest!: in_set_butlastD)
qed

lemma window_top_le:
  assumes "rows \<le> scr_rows s"
  shows "unat (window_top s rows) + unat rows \<le> unat (scr_rows s)"
proof -
  have "unat (min (sat_sub (sat_add (cur_row (scr_cursor s)) 1) rows) (scr_rows s - rows))
      \<le> unat (scr_rows s - rows)"
    by (simp add: min_def word_le_nat_alt)
  with assms show ?thesis
    by (auto simp: window_top_def unat_sub word_le_nat_alt)
qed

lemma length_concat_const:
  "\<forall>x\<in>set xs. length (f x) = n \<Longrightarrow> length (concat (map f xs)) = length xs * n"
  by (induction xs) simp_all

lemma word_min_pred_less: "0 < n \<Longrightarrow> min a (n - 1) < n"
  for a n :: "'a::len word"
proof -
  assume "0 < n"
  then have "n - 1 < n"
    by (simp add: word_less_nat_alt unat_minus_one word_gt_0 unat_gt_0)
  then show ?thesis by (simp add: min_less_iff_disj)
qed

lemma window_size:
  "scr_rows (window s sz) = min (scr_rows s) (ts_rows sz)"
  "scr_cols (window s sz) = min (scr_cols s) (ts_cols sz)"
  by (simp_all add: window_def Let_def)

lemma window_cells_length:
  assumes "screen_valid s"
  shows "length (scr_cells (window s sz)) =
    unat (scr_rows (window s sz)) * unat (scr_cols (window s sz))"
proof -
  let ?rows = "min (scr_rows s) (ts_rows sz)" and ?cols = "min (scr_cols s) (ts_cols sz)"
  have "unat (window_top s ?rows) + unat ?rows \<le> unat (scr_rows s)"
    by (rule window_top_le) simp
  then have "length (cut_row s ?cols r) = unat ?cols"
    if "r \<in> set [unat (window_top s ?rows) ..< unat (window_top s ?rows) + unat ?rows]" for r
    using that assms by (auto intro!: length_cut_row)
  then show ?thesis
    using length_concat_const [of "[unat (window_top s ?rows) ..< unat (window_top s ?rows) + unat ?rows]"
        "cut_row s ?cols" "unat ?cols"]
    by (simp add: window_def Let_def)
qed

lemma check_bounds_mono:
  assumes "check_bounds \<lparr>ts_cols = c, ts_rows = r\<rparr> = Inr ()" and "c' \<le> c" and "r' \<le> r"
  shows "check_bounds \<lparr>ts_cols = c', ts_rows = r'\<rparr> = Inr ()"
proof -
  have "unat r' * unat c' \<le> unat r * unat c"
    using assms(2,3) by (simp add: mult_le_mono word_le_nat_alt)
  with assms show ?thesis
    by (auto simp: check_bounds_ok_iff)
qed

lemma window_cursor:
  "cursor_on_screen (window s sz)"
  by (auto simp: cursor_on_screen_def window_def Let_def word_gt_0 unat_eq_0
      simp del: min_less_iff_conj intro!: word_min_pred_less)

lemma screen_valid_window:
  assumes "screen_valid s"
  shows "screen_valid (window s sz)"
proof -
  have "check_bounds \<lparr>ts_cols = scr_cols (window s sz), ts_rows = scr_rows (window s sz)\<rparr> = Inr ()"
    using assms by (auto simp: screen_valid_def window_size intro: check_bounds_mono)
  moreover have "\<forall>c\<in>set (scr_cells (window s sz)). cell_ok (scr_links (window s sz)) c"
    using assms by (auto simp: window_def Let_def dest: cut_row_cells_ok)
  moreover have "scr_seq (window s sz) = 1" "scr_title (window s sz) = []"
      "scr_clipboard (window s sz) = clipboard_default" "scr_links (window s sz) = []"
    by (simp_all add: window_def Let_def)
  ultimately show ?thesis
    using assms window_cells_length [OF assms] window_cursor [of s sz]
    by (simp add: screen_valid_def check_title_ok_iff check_clipboard_def clipboard_default_def
        check_links_ok_iff)
qed

section \<open>Properties\<close>

text \<open>A preview window of a valid screen is itself a valid screen: no larger than asked for and
  no larger than the screen, with its cursor inside, no link left dangling and no half of a wide
  character cut off.\<close>

theorem window_is_a_screen:
  assumes "screen_valid s"
  shows "validate (window s sz) = Inr ()
    \<and> scr_rows (window s sz) = min (scr_rows s) (ts_rows sz)
    \<and> scr_cols (window s sz) = min (scr_cols s) (ts_cols sz)
    \<and> scr_links (window s sz) = []"
  using screen_valid_window [OF assms, of sz]
  by (simp add: validate_ok_iff window_size) (simp add: window_def Let_def)

theorem window_is_a_screen_witness:
  "validate (window (blank_state 2 3) \<lparr>ts_cols = 2, ts_rows = 5\<rparr>) = Inr ()
    \<and> scr_rows (window (blank_state 2 3) \<lparr>ts_cols = 2, ts_rows = 5\<rparr>) = 2
    \<and> scr_cols (window (blank_state 2 3) \<lparr>ts_cols = 2, ts_rows = 5\<rparr>) = 2"
proof -
  have "screen_valid (blank_state 2 3)"
    by (rule screen_valid_blank) (simp add: check_bounds_def limit_defs)
  from window_is_a_screen [OF this, of "\<lparr>ts_cols = 2, ts_rows = 5\<rparr>"] show ?thesis
    by (simp add: blank_state_def)
qed

text \<open>The blank constructor never fails for a reason of its own: it refuses exactly the
  geometries over the caps, before anything is allocated, and every state it builds passes the
  validation a received state has to pass.\<close>

theorem blank_is_total:
  "blank rows cols =
    (if rows \<le> 2048 \<and> cols \<le> 2048 \<and> unat rows * unat cols \<le> 262144
     then Inr (blank_state rows cols) else Inl (ScreenTooLarge rows cols))"
proof (cases "check_bounds \<lparr>ts_cols = cols, ts_rows = rows\<rparr>")
  case (Inl e)
  then show ?thesis
    by (auto simp: blank_def check_bounds_def limit_defs not_less split: if_splits)
next
  case (Inr u)
  then have "screen_valid (blank_state rows cols)"
    by (intro screen_valid_blank) simp
  then have "validate (blank_state rows cols) = Inr ()"
    by (simp add: validate_ok_iff)
  moreover have "check_bounds \<lparr>ts_cols = cols, ts_rows = rows\<rparr> = Inr ()"
    using Inr by simp
  ultimately show ?thesis
    using Inr unfolding blank_def check_bounds_ok_iff [of _ u] by (simp add: limit_defs)
qed

end
