(* ===== verification/Client_Clipboard.thy ===== *)
theory Client_Clipboard
  imports Proto_Screen Session_Choice
begin

text \<open>
  Copies made on the host, relayed to the user's terminal: \<open>crates/oxutrm-client/src/clipboard.rs\<close>. The
  \<open>base64\<close> crate is the parameter \<open>b64\<close>.

  The lemmas show that a copy is written at most once for each session, never the one that was there
  when the client first saw the session, and that what is written stays one OSC 52.
\<close>

record clipboard_relay =
  cr_osc52 :: bool
  cr_seen :: "session_id option \<rightharpoonup> u32"

definition relay_new :: "bool \<Rightarrow> clipboard_relay" where
  "relay_new osc52 = \<lparr>cr_osc52 = osc52, cr_seen = Map.empty\<rparr>"

definition osc52_bytes :: "(bytes \<Rightarrow> bytes) \<Rightarrow> clipboard_copy \<Rightarrow> bytes" where
  "osc52_bytes b64 copy =
    [0x1b, 0x5d, 0x35, 0x32, 0x3b] @ [case cc_target copy of ToClipboard \<Rightarrow> 0x63 | ToSelection \<Rightarrow> 0x70] @ [0x3b]
    @ b64 (utf8 (cc_text copy)) @ [0x07]"

definition on_state ::
  "(bytes \<Rightarrow> bytes) \<Rightarrow> session_id option \<Rightarrow> clipboard \<Rightarrow> bool \<Rightarrow> clipboard_relay \<Rightarrow> bytes option \<times> clipboard_relay" where
  "on_state b64 session c enabled r =
    (let r1 = r\<lparr>cr_seen := (cr_seen r)(session \<mapsto> cb_serial c)\<rparr>
     in case cr_seen r session of
          None \<Rightarrow> (None, r1)
        | Some prev \<Rightarrow>
            if cb_serial c \<le> prev then (None, r\<lparr>cr_seen := (cr_seen r)(session \<mapsto> prev)\<rparr>)
            else case cb_copy c of
              None \<Rightarrow> (None, r1)
            | Some copy \<Rightarrow> if \<not> (enabled \<and> cr_osc52 r) then (None, r1) else (Some (osc52_bytes b64 copy), r1))"

section \<open>Each copy once\<close>

text \<open>The states a client applies, in order: the session each is of, its clipboard and whether the setting is
  on; and for each that wrote, the session and the number of the copy.\<close>

type_synonym seen_state = "session_id option \<times> clipboard \<times> bool"

fun relay_run :: "(bytes \<Rightarrow> bytes) \<Rightarrow> seen_state list \<Rightarrow> clipboard_relay \<Rightarrow> (session_id option \<times> u32) list \<times> clipboard_relay" where
  "relay_run b64 [] r = ([], r)"
| "relay_run b64 ((sid, c, on) # sts) r =
    (let (w, r1) = on_state b64 sid c on r; (ws, r2) = relay_run b64 sts r1
     in ((case w of Some _ \<Rightarrow> [(sid, cb_serial c)] | None \<Rightarrow> []) @ ws, r2))"

lemma on_state_seen:
  assumes "on_state b64 sid c on r = (w, r')"
  shows "cr_seen r' = (cr_seen r)(sid \<mapsto> (case cr_seen r sid of None \<Rightarrow> cb_serial c | Some p \<Rightarrow> max p (cb_serial c)))"
    and "w \<noteq> None \<longleftrightarrow> (\<exists>p. cr_seen r sid = Some p \<and> p < cb_serial c) \<and> cb_copy c \<noteq> None \<and> on \<and> cr_osc52 r"
    and "cr_osc52 r' = cr_osc52 r"
  using assms
  by (auto simp: on_state_def Let_def max_def not_le split: option.splits if_splits)

lemma relay_run_above:
  assumes "relay_run b64 sts r = (ws, r')" and "(sid, n) \<in> set ws" and "cr_seen r sid = Some p"
  shows "p < n"
  using assms
proof (induction sts arbitrary: r ws p)
  case (Cons st sts)
  obtain sd c on where st: "st = (sd, c, on)" by (metis prod_cases3)
  obtain w r1 where 1: "on_state b64 sd c on r = (w, r1)" by fastforce
  obtain ws2 where 2: "relay_run b64 sts r1 = (ws2, r')" "ws = (case w of Some _ \<Rightarrow> [(sd, cb_serial c)] | None \<Rightarrow> []) @ ws2"
    using Cons.prems(1) by (auto simp: st 1 split: prod.splits)
  obtain q where q: "cr_seen r1 sid = Some q" "p \<le> q"
    using on_state_seen(1) [OF 1] Cons.prems(3) by (cases "sid = sd") (auto simp: max_def)
  from Cons.prems(2) 2(2) consider "w \<noteq> None" "(sid, n) = (sd, cb_serial c)" | "(sid, n) \<in> set ws2"
    by (auto split: option.splits)
  then show ?case
  proof cases
    case 1
    with on_state_seen(2) [OF \<open>on_state b64 sd c on r = (w, r1)\<close>] Cons.prems(3) show ?thesis by simp
  next
    case 2
    from Cons.IH [OF \<open>relay_run b64 sts r1 = (ws2, r')\<close> 2 q(1)] q(2) show ?thesis by simp
  qed
qed simp

lemma relay_run_ordered:
  assumes "relay_run b64 sts r = (ws, r')"
  shows "sorted_wrt (\<lambda>(s, m) (t, n). s = t \<longrightarrow> m < n) ws"
  using assms
proof (induction sts arbitrary: r ws)
  case (Cons st sts)
  obtain sd c on where st: "st = (sd, c, on)" by (metis prod_cases3)
  obtain w r1 where 1: "on_state b64 sd c on r = (w, r1)" by fastforce
  obtain ws2 where 2: "relay_run b64 sts r1 = (ws2, r')" "ws = (case w of Some _ \<Rightarrow> [(sd, cb_serial c)] | None \<Rightarrow> []) @ ws2"
    using Cons.prems(1) by (auto simp: st 1 split: prod.splits)
  have "cb_serial c < n" if "w \<noteq> None" "(sd, n) \<in> set ws2" for n
  proof (rule relay_run_above [OF 2(1) that(2)])
    from on_state_seen [OF 1] that(1) show "cr_seen r1 sd = Some (cb_serial c)"
      by (auto simp: max_def split: option.splits)
  qed
  with Cons.IH [OF 2(1)] 2(2) show ?case by (cases w) auto
qed simp

lemma relay_run_distinct: "relay_run b64 sts r = (ws, r') \<Longrightarrow> distinct ws"
  by (drule relay_run_ordered) (induction ws; fastforce)

text \<open>A copy that is new to a session the client is in is written, and no other state of that session writes:
  the first one seen, a repeat, one without a text, or any while the setting is off.\<close>

lemma on_state_writes:
  "fst (on_state b64 sid c on r) = (case (cr_seen r sid, cb_copy c) of
     (Some p, Some copy) \<Rightarrow> if p < cb_serial c \<and> on \<and> cr_osc52 r then Some (osc52_bytes b64 copy) else None
   | _ \<Rightarrow> None)"
  by (auto simp: on_state_def Let_def not_le split: option.splits)

text \<open>With an encoder that keeps to the base64 alphabet, nothing in the text of a copy can end its OSC.\<close>

definition b64_char :: "u8 \<Rightarrow> bool" where
  "b64_char b \<longleftrightarrow> 48 \<le> b \<and> b \<le> 57 \<or> 65 \<le> b \<and> b \<le> 90 \<or> 97 \<le> b \<and> b \<le> 122 \<or> b = 43 \<or> b = 47 \<or> b = 61"

lemma osc52_is_one_sequence:
  assumes "\<forall>bs. list_all b64_char (b64 bs)"
  shows "\<exists>body. osc52_bytes b64 copy = [0x1b] @ body @ [0x07] \<and> list_all (\<lambda>b. 0x20 \<le> b \<and> b < 0x7f) body"
proof -
  have "list_all (\<lambda>b. 0x20 \<le> b \<and> b < 0x7f) (b64 bs)" for bs
    using assms [THEN spec, of bs]
    by (rule list.pred_mono_strong) (auto simp: b64_char_def word_le_nat_alt word_less_nat_alt)
  then show ?thesis
    by (intro exI [of _ "[0x5d, 0x35, 0x32, 0x3b, case cc_target copy of ToClipboard \<Rightarrow> 0x63 | ToSelection \<Rightarrow> 0x70, 0x3b]
        @ b64 (utf8 (cc_text copy))"]) (simp add: osc52_bytes_def split: clipboard_target.split)
qed

end
