(* ===== verification/Client_Color.thy ===== *)
theory Client_Color
  imports Proto_Types
begin

text \<open>
  Reducing a colour to what the user's terminal can show: \<open>crates/oxutrm-client/src/color.rs\<close>, with
  \<open>TerminalCaps\<close> of \<open>crates/oxutrm-proto/src/types.rs\<close>. The lemmas show that the palette entry chosen
  for an RGB colour is a nearest one, that the theme-dependent sixteen are never a target, and which
  colours each kind of terminal is left with.
\<close>

record terminal_caps =
  caps_truecolor :: bool
  caps_colors :: u32
  caps_bracketed_paste :: bool
  caps_mouse_sgr :: bool
  caps_osc52 :: bool
  caps_osc8 :: bool
  caps_term_name :: ustr

type_synonym rgb = "u8 \<times> u8 \<times> u8"

definition CUBE_LEVELS :: "u8 list" where
  "CUBE_LEVELS = [0, 95, 135, 175, 215, 255]"

definition ANSI16 :: "rgb list" where
  "ANSI16 =
    [(0, 0, 0), (170, 0, 0), (0, 170, 0), (170, 85, 0), (0, 0, 170), (170, 0, 170), (0, 170, 170),
     (170, 170, 170), (85, 85, 85), (255, 85, 85), (85, 255, 85), (255, 255, 85), (85, 85, 255),
     (255, 85, 255), (85, 255, 255), (255, 255, 255)]"

text \<open>A squared difference is at most 65025, so neither the \<open>i32\<close> product nor the \<open>u32\<close> sum of
  three of them wraps.\<close>

definition sq_diff :: "u8 \<Rightarrow> u8 \<Rightarrow> nat" where
  "sq_diff x y = (let d = int (unat x) - int (unat y) in nat (d * d))"

definition dist :: "rgb \<Rightarrow> rgb \<Rightarrow> nat" where
  "dist a b = (case (a, b) of ((r, g, b), (r', g', b')) \<Rightarrow> sq_diff r r' + sq_diff g g' + sq_diff b b')"

text \<open>The loop that keeps the first entry of least distance, from \<open>best = 0\<close> and
  \<open>best_d = u32::MAX\<close>; \<open>nearest_level\<close> and \<open>rgb_to_16\<close> both run it.\<close>

primrec best_loop :: "('a \<Rightarrow> nat) \<Rightarrow> 'a list \<Rightarrow> nat \<Rightarrow> nat \<times> nat \<Rightarrow> nat \<times> nat" where
  "best_loop d [] i acc = acc"
| "best_loop d (x # xs) i acc = best_loop d xs (i + 1) (if d x < snd acc then (i, d x) else acc)"

definition nearest_level :: "u8 \<Rightarrow> nat" where
  "nearest_level v = fst (best_loop (\<lambda>l. sq_diff v l) CUBE_LEVELS 0 (0, 4294967295))"

definition idx_to_rgb :: "u8 \<Rightarrow> rgb" where
  "idx_to_rgb i =
    (if unat i \<le> 15 then ANSI16 ! unat i
     else if unat i \<le> 231 then
       (let n = unat i - 16
        in (CUBE_LEVELS ! (n div 36), CUBE_LEVELS ! ((n div 6) mod 6), CUBE_LEVELS ! (n mod 6)))
     else (let v = 8 + 10 * (i - 232) in (v, v, v)))"

text \<open>\<open>((avg - 8) as f32 / 10.0).round().clamp(0.0, 23.0)\<close>: the quotient of two small integers by ten
  is exact at every half, and \<open>round\<close> sends a half away from zero.\<close>

definition grey_step :: "nat \<Rightarrow> nat" where
  "grey_step avg = (if avg < 8 then 0 else min 23 ((avg - 8 + 5) div 10))"

definition rgb_to_256 :: "u8 \<Rightarrow> u8 \<Rightarrow> u8 \<Rightarrow> u8" where
  "rgb_to_256 r g b =
    (let target = (r, g, b);
         cube_idx = of_nat (16 + 36 * nearest_level r + 6 * nearest_level g + nearest_level b);
         cube_d = dist target (idx_to_rgb cube_idx);
         avg = (unat r + unat g + unat b) div 3;
         grey_idx = 232 + of_nat (grey_step avg);
         grey_d = dist target (idx_to_rgb grey_idx)
     in if grey_d < cube_d then grey_idx else cube_idx)"

definition rgb_to_16 :: "u8 \<Rightarrow> u8 \<Rightarrow> u8 \<Rightarrow> u8" where
  "rgb_to_16 r g b = of_nat (fst (best_loop (\<lambda>c. dist (r, g, b) c) ANSI16 0 (0, 4294967295)))"

definition down_convert :: "color \<Rightarrow> terminal_caps \<Rightarrow> color" where
  "down_convert c caps =
    (if caps_colors caps \<ge> 16777216 then c
     else case c of
       Default \<Rightarrow> Default
     | Rgb r g b \<Rightarrow>
         if caps_colors caps \<ge> 256 then Idx (rgb_to_256 r g b)
         else if caps_colors caps \<ge> 16 then Idx (rgb_to_16 r g b)
         else Idx (rgb_to_16 r g b AND 0x07)
     | Idx i \<Rightarrow>
         if caps_colors caps \<ge> 256 then Idx i
         else if caps_colors caps \<ge> 16 then
           (if i < 16 then Idx i else case idx_to_rgb i of (r, g, b) \<Rightarrow> Idx (rgb_to_16 r g b))
         else if i < 8 then Idx i
         else if i < 16 then Idx i
         else (case idx_to_rgb i of (r, g, b) \<Rightarrow> Idx (rgb_to_16 r g b AND 0x07)))"

section \<open>The nearest entry\<close>

lemma best_loop_spec:
  assumes "best_loop d xs i acc = (j, m)"
  shows "m \<le> snd acc \<and> (\<forall>x\<in>set xs. m \<le> d x)
    \<and> ((j, m) = acc \<or> (i \<le> j \<and> j < i + length xs \<and> m = d (xs ! (j - i))))"
  using assms
proof (induction xs arbitrary: i acc)
  case (Cons x xs)
  let ?acc = "if d x < snd acc then (i, d x) else acc"
  from Cons.prems have "best_loop d xs (i + 1) ?acc = (j, m)" by simp
  from Cons.IH [OF this]
  have le: "m \<le> snd ?acc" "\<forall>y\<in>set xs. m \<le> d y"
    and at: "(j, m) = ?acc \<or> (i + 1 \<le> j \<and> j < i + 1 + length xs \<and> m = d (xs ! (j - (i + 1))))"
    by blast+
  have "xs ! (j - (i + 1)) = (x # xs) ! (j - i)" if "i + 1 \<le> j"
    using that by (simp add: nth_Cons')
  with le at show ?case by (auto split: if_splits)
qed simp

lemma best_loop_nearest:
  assumes "xs \<noteq> []" and "\<And>x. x \<in> set xs \<Longrightarrow> d x < n"
  shows "fst (best_loop d xs 0 (0, n)) < length xs"
    and "x \<in> set xs \<Longrightarrow> d (xs ! fst (best_loop d xs 0 (0, n))) \<le> d x"
proof -
  obtain j m where jm: "best_loop d xs 0 (0, n) = (j, m)" by fastforce
  note spec = best_loop_spec [OF jm]
  have "m < n"
    using spec assms by (metis bot_nat_0.not_eq_extremum last_in_set le_less_trans)
  with spec have "j < length xs" "m = d (xs ! j)" by auto
  with spec jm show "fst (best_loop d xs 0 (0, n)) < length xs"
    "x \<in> set xs \<Longrightarrow> d (xs ! fst (best_loop d xs 0 (0, n))) \<le> d x"
    by auto
qed

lemma unat_lt_8: "unat (w :: u8) < 256"
  using unat_lt2p [of w] by simp

lemma sq_diff_int: "int (sq_diff x y) = (int (unat x) - int (unat y)) ^ 2"
  by (simp add: sq_diff_def Let_def power2_eq_square)

lemma sq_diff_le: "sq_diff x y \<le> 65025"
proof -
  have "\<bar>int (unat x) - int (unat y)\<bar> \<le> 255"
    using unat_lt_8 [of x] unat_lt_8 [of y] by linarith
  then have "(int (unat x) - int (unat y)) ^ 2 \<le> 255 ^ 2"
    by (metis abs_le_square_iff abs_numeral)
  then show ?thesis
    unfolding sq_diff_int [symmetric] by simp
qed

lemma dist_le: "dist a b \<le> 195075"
proof -
  obtain r g b' r' g' b'' where "a = (r, g, b')" "b = (r', g', b'')"
    by (metis prod_cases3)
  then show ?thesis
    using sq_diff_le [of r r'] sq_diff_le [of g g'] sq_diff_le [of b' b''] by (simp add: dist_def)
qed

lemma palette_lengths:
  "length CUBE_LEVELS = 6" "CUBE_LEVELS \<noteq> []" "length ANSI16 = 16" "ANSI16 \<noteq> []"
  by (simp_all add: CUBE_LEVELS_def ANSI16_def)

lemma nearest_level_spec:
  "nearest_level v < 6"
  "l \<in> set CUBE_LEVELS \<Longrightarrow> sq_diff v (CUBE_LEVELS ! nearest_level v) \<le> sq_diff v l"
proof -
  have "sq_diff v x < 4294967295" for x
    using sq_diff_le [of v x] by linarith
  note best = best_loop_nearest [where xs = CUBE_LEVELS and d = "sq_diff v" and n = 4294967295, OF _ this]
  show "nearest_level v < 6"
    using best(1) by (simp add: nearest_level_def palette_lengths)
  show "l \<in> set CUBE_LEVELS \<Longrightarrow> sq_diff v (CUBE_LEVELS ! nearest_level v) \<le> sq_diff v l"
    using best(2) by (simp add: nearest_level_def palette_lengths)
qed

lemma rgb_to_16_spec:
  "unat (rgb_to_16 r g b) < 16"
  "c \<in> set ANSI16 \<Longrightarrow> dist (r, g, b) (ANSI16 ! unat (rgb_to_16 r g b)) \<le> dist (r, g, b) c"
proof -
  let ?j = "fst (best_loop (dist (r, g, b)) ANSI16 0 (0, 4294967295))"
  have "dist (r, g, b) x < 4294967295" for x
    using dist_le [of "(r, g, b)" x] by linarith
  note best = best_loop_nearest [where xs = ANSI16 and d = "dist (r, g, b)" and n = 4294967295, OF _ this]
  have "?j < 16"
    using best(1) by (simp add: palette_lengths)
  then have j: "unat (rgb_to_16 r g b) = ?j"
    by (simp add: rgb_to_16_def unat_of_nat)
  show "unat (rgb_to_16 r g b) < 16"
    using \<open>?j < 16\<close> j by simp
  show "c \<in> set ANSI16 \<Longrightarrow> dist (r, g, b) (ANSI16 ! unat (rgb_to_16 r g b)) \<le> dist (r, g, b) c"
    using best(2) j by (simp add: palette_lengths)
qed

lemma idx_to_rgb_cube:
  assumes "x < 6" "y < 6" "z < 6"
  shows "idx_to_rgb (of_nat (16 + 36 * x + 6 * y + z)) = (CUBE_LEVELS ! x, CUBE_LEVELS ! y, CUBE_LEVELS ! z)"
proof -
  let ?n = "36 * x + 6 * y + z"
  have "unat (of_nat (16 + 36 * x + 6 * y + z) :: u8) = 16 + ?n"
    using assms by (subst unat_of_nat) simp
  moreover have "?n div 36 = x" "?n div 6 mod 6 = y" "?n mod 6 = z"
  proof -
    have n: "?n = (6 * x + y) * 6 + z" by simp
    have "?n div 6 = 6 * x + y" and "?n mod 6 = z"
      unfolding n by (simp_all only: div_mult_self3 mod_mult_self3 assms) (use assms in simp_all)
    moreover have "?n div 36 = ?n div 6 div 6"
      by (simp add: div_mult2_eq [symmetric])
    ultimately show "?n div 36 = x" "?n div 6 mod 6 = y" "?n mod 6 = z"
      using assms by simp_all
  qed
  ultimately show ?thesis
    using assms by (simp add: idx_to_rgb_def)
qed

lemma idx_to_rgb_grey:
  assumes "k \<le> 23"
  shows "idx_to_rgb (232 + of_nat k) = (of_nat (8 + 10 * k), of_nat (8 + 10 * k), of_nat (8 + 10 * k))"
    and "unat (232 + of_nat k :: u8) = 232 + k"
proof -
  show 1: "unat (232 + of_nat k :: u8) = 232 + k"
    using assms by (simp add: unat_word_ariths unat_of_nat)
  then show "idx_to_rgb (232 + of_nat k)
      = (of_nat (8 + 10 * k), of_nat (8 + 10 * k), of_nat (8 + 10 * k))"
    by (simp add: idx_to_rgb_def Let_def)
qed

text \<open>Every entry past the system colours is one of the two kinds.\<close>

lemma palette_cases:
  fixes i :: u8
  assumes "16 \<le> unat i"
  obtains (cube) x y z where "x < 6" "y < 6" "z < 6" "i = of_nat (16 + 36 * x + 6 * y + z)"
  | (grey) k where "k \<le> 23" "i = 232 + of_nat k"
proof (cases "unat i \<le> 231")
  case True
  let ?n = "unat i - 16"
  have "?n div 36 = ?n div 6 div 6"
    by (simp add: div_mult2_eq [symmetric])
  then have "36 * (?n div 36) + 6 * (?n div 6 mod 6) + ?n mod 6 = ?n"
    using mult_div_mod_eq [of 6 "?n div 6"] mult_div_mod_eq [of 6 ?n] by linarith
  then have "16 + 36 * (?n div 36) + 6 * (?n div 6 mod 6) + ?n mod 6 = unat i"
    using assms by linarith
  then have "i = of_nat (16 + 36 * (?n div 36) + 6 * (?n div 6 mod 6) + ?n mod 6)"
    by (simp only: of_nat_unat ucast_id)
  moreover have "?n div 36 < 6" using True by (simp add: less_mult_imp_div_less)
  ultimately show ?thesis by (intro cube) simp_all
next
  case False
  then have "i = 232 + of_nat (unat i - 232)"
    by (simp add: of_nat_diff)
  moreover have "unat i - 232 \<le> 23"
    using unat_lt_8 [of i] by linarith
  ultimately show ?thesis by (intro grey)
qed

lemma cube_nearest:
  assumes "x < 6" "y < 6" "z < 6"
  shows "dist (r, g, b) (idx_to_rgb (of_nat (16 + 36 * nearest_level r + 6 * nearest_level g + nearest_level b)))
    \<le> dist (r, g, b) (idx_to_rgb (of_nat (16 + 36 * x + 6 * y + z)))"
proof -
  have "sq_diff v (CUBE_LEVELS ! nearest_level v) \<le> sq_diff v (CUBE_LEVELS ! w)" if "w < 6" for v w
    using nearest_level_spec(2) that by (simp add: palette_lengths)
  from this [OF assms(1), of r] this [OF assms(2), of g] this [OF assms(3), of b] show ?thesis
    by (simp add: idx_to_rgb_cube assms nearest_level_spec(1) dist_def del: of_nat_add of_nat_mult)
qed

text \<open>Between two grey levels the squared distance differs by a product whose sign the average
  decides.\<close>

lemma grey_diff:
  assumes "k \<le> 23" "s \<le> 23"
  shows "int (dist (r, g, b) (idx_to_rgb (232 + of_nat k))) - int (dist (r, g, b) (idx_to_rgb (232 + of_nat s)))
    = 10 * (int k - int s) * (48 + 30 * (int k + int s) - 2 * int (unat r + unat g + unat b))"
proof -
  have v: "unat (of_nat (8 + 10 * j) :: u8) = 8 + 10 * j" if "j \<le> 23" for j
    using that by (subst unat_of_nat) simp
  have "int (dist (r, g, b) (idx_to_rgb (232 + of_nat j)))
      = (int (unat r) - (8 + 10 * int j)) ^ 2 + (int (unat g) - (8 + 10 * int j)) ^ 2
        + (int (unat b) - (8 + 10 * int j)) ^ 2" if "j \<le> 23" for j
    unfolding dist_def idx_to_rgb_grey(1) [OF that]
    by (simp only: prod.case of_nat_add [where 'a = int] sq_diff_int v [OF that]) simp
  from this [OF assms(1)] this [OF assms(2)] show ?thesis
    by (simp add: power2_eq_square algebra_simps)
qed

lemma grey_step_bounds:
  assumes "s = grey_step (n div 3)" and "n \<le> 765"
  shows "s \<le> 23" and "s < 23 \<Longrightarrow> n \<le> 39 + 30 * s" and "0 < s \<Longrightarrow> 9 + 30 * s \<le> n"
proof -
  define q where "q = n div 3"
  define d where "d = (q - 3) div 10"
  have n: "3 * q \<le> n" "n \<le> 3 * q + 2" unfolding q_def by presburger+
  have d: "10 * d \<le> q - 3" "q - 3 \<le> 10 * d + 9" unfolding d_def by presburger+
  have s: "s = (if q < 8 then 0 else min 23 d)"
    by (simp add: assms(1) grey_step_def d_def q_def)
  show "s \<le> 23" by (simp add: s)
  show "n \<le> 39 + 30 * s" if "s < 23"
    using that n d s by (cases "q < 8") (auto simp: min_def split: if_splits)
  show "9 + 30 * s \<le> n" if "0 < s"
    using that n d s by (cases "q < 8") (auto simp: min_def split: if_splits)
qed

lemma grey_nearest:
  assumes "k \<le> 23"
  shows "dist (r, g, b) (idx_to_rgb (232 + of_nat (grey_step ((unat r + unat g + unat b) div 3))))
    \<le> dist (r, g, b) (idx_to_rgb (232 + of_nat k))"
proof -
  define n where "n = unat r + unat g + unat b"
  define s where "s = grey_step (n div 3)"
  have "n \<le> 765"
    using unat_lt_8 [of r] unat_lt_8 [of g] unat_lt_8 [of b] by (simp add: n_def)
  note s = grey_step_bounds [OF s_def this]
  have "0 \<le> 10 * (int k - int s) * (48 + 30 * (int k + int s) - 2 * int n)"
  proof (cases "s < k")
    case True
    then obtain d where d: "k = s + 1 + d" by (auto simp: less_iff_Suc_add)
    have "n \<le> 39 + 30 * s" using True assms s(2) by simp
    then have "0 \<le> 48 + 30 * (int k + int s) - 2 * int n" unfolding d by simp
    with True show ?thesis by (intro mult_nonneg_nonneg) simp_all
  next
    case False
    have "48 + 30 * (int k + int s) - 2 * int n \<le> 0" if "k < s"
    proof -
      obtain d where d: "s = k + 1 + d"
        using \<open>k < s\<close> by (auto simp: less_iff_Suc_add)
      have "9 + 30 * s \<le> n" using that s(3) by simp
      then show ?thesis unfolding d by simp
    qed
    with False show ?thesis
      by (cases "k = s") (simp_all add: mult_nonpos_nonpos)
  qed
  also have "\<dots> = int (dist (r, g, b) (idx_to_rgb (232 + of_nat k)))
      - int (dist (r, g, b) (idx_to_rgb (232 + of_nat s)))"
    by (simp add: grey_diff [OF assms s(1)] n_def)
  finally show ?thesis by (simp add: s_def n_def)
qed

text \<open>The palette entry chosen for an RGB colour is a nearest one. On a 256-colour terminal no entry
  of the cube or the grey ramp is closer to the colour the application asked for, and the sixteen
  system colours, whose looks depend on the user's theme, are never chosen.\<close>

theorem rgb_to_256_is_nearest:
  "16 \<le> unat (rgb_to_256 r g b)
    \<and> list_all (\<lambda>i. dist (r, g, b) (idx_to_rgb (rgb_to_256 r g b)) \<le> dist (r, g, b) (idx_to_rgb (of_nat i)))
        [16..<256]"
proof -
  define cube :: u8 where "cube = of_nat (16 + 36 * nearest_level r + 6 * nearest_level g + nearest_level b)"
  define grey :: u8 where "grey = 232 + of_nat (grey_step ((unat r + unat g + unat b) div 3))"
  have chosen: "rgb_to_256 r g b
      = (if dist (r, g, b) (idx_to_rgb grey) < dist (r, g, b) (idx_to_rgb cube) then grey else cube)"
    by (simp add: rgb_to_256_def cube_def grey_def Let_def)
  have levels: "nearest_level r < 6" "nearest_level g < 6" "nearest_level b < 6"
    by (rule nearest_level_spec(1))+
  have "16 + 36 * nearest_level r + 6 * nearest_level g + nearest_level b < 256"
    using levels by linarith
  then have "16 \<le> unat cube"
    unfolding cube_def by (subst unat_of_nat) simp
  moreover have "16 \<le> unat grey"
    unfolding grey_def by (subst idx_to_rgb_grey(2)) (simp_all add: grey_step_def)
  moreover have "dist (r, g, b) (idx_to_rgb (rgb_to_256 r g b)) \<le> dist (r, g, b) (idx_to_rgb (of_nat i))"
    if "16 \<le> i" "i < 256" for i
  proof -
    have "16 \<le> unat (of_nat i :: u8)" using that by (simp add: unat_of_nat)
    then show ?thesis
    proof (cases rule: palette_cases)
      case (cube x y z)
      then show ?thesis
        using cube_nearest [of x y z r g b] chosen by (auto simp: cube_def simp del: of_nat_add of_nat_mult)
    next
      case (grey k)
      then show ?thesis
        using grey_nearest [of k r g b] chosen by (auto simp: grey_def)
    qed
  qed
  ultimately show ?thesis
    unfolding list_all_iff set_upt by (simp add: chosen)
qed

text \<open>What each kind of terminal is left with: nothing but its default and its own palette, and on an
  eight-colour terminal the bright half only where the application named it.\<close>

lemma and_7: "unat (x AND 7 :: u8) < 8" "unat (x AND 7 :: u8) < 16" "\<not> 8 \<le> unat (x AND 7 :: u8)"
proof -
  have "unat (x AND 7) \<le> unat (7 :: u8)"
    unfolding word_le_nat_alt [symmetric] by (rule word_and_le1)
  then show "unat (x AND 7) < 8" "unat (x AND 7) < 16" "\<not> 8 \<le> unat (x AND 7)" by simp_all
qed

lemma down_convert_displayable:
  "caps_colors caps < 16777216 \<Longrightarrow> down_convert c caps \<noteq> Rgb r g b"
  "caps_colors caps < 256 \<Longrightarrow> down_convert c caps = Idx i \<Longrightarrow> unat i < 16"
  "caps_colors caps < 16 \<Longrightarrow> down_convert c caps = Idx i \<Longrightarrow> 8 \<le> i \<Longrightarrow> c = Idx i"
  by (auto simp: down_convert_def and_7 rgb_to_16_spec(1) word_less_nat_alt word_le_nat_alt not_le not_less
      split: color.splits prod.splits if_splits)

end
