(* ===== verification/Client_Renderer.thy ===== *)
theory Client_Renderer
  imports Client_Color Proto_Screen
begin

text \<open>
  The client's renderer, \<open>crates/oxutrm-client/src/renderer.rs\<close>, with the overlay rectangle of
  \<open>overlay.rs\<close>: the second diff, from what is believed painted on the user's terminal to the desired
  screen. What the source appends to its byte buffer is a list of terminal operations here, one per
  write, and \<open>op_bytes\<close> spells each as the bytes the source writes. \<open>UnicodeWidthStr::width\<close>, a
  library's function, is the parameter \<open>wd\<close>. Against a terminal that follows the operations the lemmas
  show that a completed render leaves the desired screen on it, that a render of what is painted
  writes nothing, and that no text of the host's can become an escape sequence of its own.
\<close>

section \<open>What is written\<close>

datatype term_op =
    CursorTo nat nat
  | HomeClear
  | Sgr bytes
  | PutText ustr
  | OpenLink u16 ustr
  | CloseLink
  | DecSet nat
  | DecReset nat
  | SetTitle ustr
  | CursorStyle nat
  | Bell

definition ascii :: "string \<Rightarrow> bytes" where
  "ascii s = map of_char s"

definition ESC :: u8 where "ESC = 0x1b"

definition BEL :: u8 where "BEL = 0x07"

definition LINK_CLOSE :: bytes where
  "LINK_CLOSE = [ESC] @ ascii '']8;;'' @ [BEL]"

fun op_bytes :: "term_op \<Rightarrow> bytes" where
  "op_bytes (CursorTo row col) =
     [ESC] @ ascii ''['' @ utf8 (dec_str row) @ ascii '';'' @ utf8 (dec_str col) @ ascii ''H''"
| "op_bytes HomeClear = [ESC] @ ascii ''[H'' @ [ESC] @ ascii ''[2J''"
| "op_bytes (Sgr bs) = bs"
| "op_bytes (PutText t) = utf8 t"
| "op_bytes (OpenLink lid uri) =
     [ESC] @ ascii '']8;id='' @ utf8 (dec_str (unat lid)) @ ascii '';'' @ utf8 uri @ [BEL]"
| "op_bytes CloseLink = LINK_CLOSE"
| "op_bytes (DecSet n) = [ESC] @ ascii ''[?'' @ utf8 (dec_str n) @ ascii ''h''"
| "op_bytes (DecReset n) = [ESC] @ ascii ''[?'' @ utf8 (dec_str n) @ ascii ''l''"
| "op_bytes (SetTitle t) = [ESC] @ ascii '']0;'' @ utf8 t @ [BEL]"
| "op_bytes (CursorStyle n) = [ESC] @ ascii ''['' @ utf8 (dec_str n) @ ascii '' q''"
| "op_bytes Bell = [BEL]"

section \<open>The renderer's state\<close>

record overlay =
  ov_row :: u16
  ov_col :: u16
  ov_rows :: u16
  ov_cols :: u16
  ov_cells :: "cell list"

record painted =
  pt_cells :: "cell list"
  pt_cursor :: cursor
  pt_modes :: modes
  pt_title :: ustr
  pt_bell :: u32
  pt_links :: link_table

record renderer =
  rd_size :: term_size
  rd_caps :: terminal_caps
  rd_painted :: "painted option"
  rd_overlay :: "overlay option"
  rd_hyperlinks :: bool
  rd_link_may_be_open :: bool

definition renderer_new :: "term_size \<Rightarrow> terminal_caps \<Rightarrow> renderer" where
  "renderer_new sz caps =
    \<lparr>rd_size = sz, rd_caps = caps, rd_painted = None, rd_overlay = None, rd_hyperlinks = True,
     rd_link_may_be_open = False\<rparr>"

definition set_hyperlinks :: "bool \<Rightarrow> renderer \<Rightarrow> renderer" where
  "set_hyperlinks on rd =
    (if rd_hyperlinks rd \<noteq> on then rd\<lparr>rd_hyperlinks := on, rd_painted := None\<rparr> else rd)"

definition links_on :: "renderer \<Rightarrow> bool" where
  "links_on rd = (rd_hyperlinks rd \<and> caps_osc8 (rd_caps rd))"

definition rd_resize :: "term_size \<Rightarrow> renderer \<Rightarrow> renderer" where
  "rd_resize sz rd = rd\<lparr>rd_size := sz, rd_painted := None\<rparr>"

definition invalidate :: "renderer \<Rightarrow> renderer" where
  "invalidate rd = rd\<lparr>rd_painted := None\<rparr>"

definition set_overlay :: "overlay option \<Rightarrow> renderer \<Rightarrow> renderer" where
  "set_overlay ov rd = rd\<lparr>rd_overlay := ov\<rparr>"

section \<open>Layer 1\<close>

definition is_wide_lead :: "(ustr \<Rightarrow> nat) \<Rightarrow> cell \<Rightarrow> bool" where
  "is_wide_lead wd c = (\<not> attrs_contains (c_attrs c) WIDE_CONT \<and> wd (c_text c) = 2)"

definition blanked :: "cell \<Rightarrow> cell" where
  "blanked c = c\<lparr>c_text := [32], c_attrs := 0\<rparr>"

definition repair_at :: "(ustr \<Rightarrow> nat) \<Rightarrow> nat \<Rightarrow> nat \<Rightarrow> nat \<Rightarrow> cell list \<Rightarrow> cell list" where
  "repair_at wd cols base c cells =
    (let i = base + c;
         broken =
           (if attrs_contains (c_attrs (cells ! i)) WIDE_CONT
            then c = 0 \<or> \<not> is_wide_lead wd (cells ! (i - 1))
            else if is_wide_lead wd (cells ! i)
            then c + 1 \<ge> cols \<or> \<not> attrs_contains (c_attrs (cells ! (base + c + 1))) WIDE_CONT
            else False)
     in if broken then cells[i := blanked (cells ! i)] else cells)"

definition repair_wide_pairs :: "(ustr \<Rightarrow> nat) \<Rightarrow> nat \<Rightarrow> nat \<Rightarrow> cell list \<Rightarrow> cell list" where
  "repair_wide_pairs wd cols row cells = fold (repair_at wd cols (row * cols)) [0..<cols] cells"

text \<open>The two loops of \<open>composite\<close>, each leaving at its first position off the screen. The overlay's
  \<open>cells\<close> are its \<open>rows * cols\<close>, so its own index is in range.\<close>

primrec stamp_cols :: "overlay \<Rightarrow> u16 \<Rightarrow> nat \<Rightarrow> u16 \<Rightarrow> nat list \<Rightarrow> cell list \<Rightarrow> cell list" where
  "stamp_cols ov cols r srow [] cells = cells"
| "stamp_cols ov cols r srow (c # cs) cells =
     (let scol = sat_add (ov_col ov) (of_nat c) in
      if scol \<ge> cols then cells
      else stamp_cols ov cols r srow cs
        (cells[unat srow * unat cols + unat scol :=
          (ov_cells ov ! (r * unat (ov_cols ov) + c))\<lparr>c_link := 0\<rparr>]))"

primrec stamp_rows ::
  "(ustr \<Rightarrow> nat) \<Rightarrow> overlay \<Rightarrow> u16 \<Rightarrow> u16 \<Rightarrow> nat list \<Rightarrow> cell list \<Rightarrow> cell list" where
  "stamp_rows wd ov rows cols [] cells = cells"
| "stamp_rows wd ov rows cols (r # rs) cells =
     (let srow = sat_add (ov_row ov) (of_nat r) in
      if srow \<ge> rows then cells
      else stamp_rows wd ov rows cols rs
        (repair_wide_pairs wd (unat cols) (unat srow)
          (stamp_cols ov cols r srow [0..<unat (ov_cols ov)] cells)))"

definition composite :: "(ustr \<Rightarrow> nat) \<Rightarrow> renderer \<Rightarrow> screen_state \<Rightarrow> cell list" where
  "composite wd rd s =
    (case rd_overlay rd of
       None \<Rightarrow> scr_cells s
     | Some ov \<Rightarrow> stamp_rows wd ov (scr_rows s) (scr_cols s) [0..<unat (ov_rows ov)] (scr_cells s))"

section \<open>Modes and title\<close>

definition write_mouse :: "renderer \<Rightarrow> mouse_mode \<Rightarrow> term_op list" where
  "write_mouse rd mode =
    [DecReset 1003, DecReset 1002, DecReset 1000]
    @ (case mode of
         Off \<Rightarrow> []
       | Press \<Rightarrow> [DecSet 1000]
       | PressRelease \<Rightarrow> [DecSet 1000]
       | ButtonMotion \<Rightarrow> [DecSet 1002]
       | AnyMotion \<Rightarrow> [DecSet 1003])
    @ (if mode = Off then [DecReset 1006]
       else if caps_mouse_sgr (rd_caps rd) then [DecSet 1006] else [])"

definition write_modes :: "renderer \<Rightarrow> screen_state \<Rightarrow> bool \<Rightarrow> term_op list" where
  "write_modes rd s full =
    (let before = map_option pt_modes (rd_painted rd);
         paste_changed = (case before of
             Some b \<Rightarrow> (if \<not> full then bracketed_paste (scr_modes s) \<noteq> bracketed_paste b else True)
           | None \<Rightarrow> True);
         mouse_changed = (case before of
             Some b \<Rightarrow> (if \<not> full then mouse (scr_modes s) \<noteq> mouse b else True)
           | None \<Rightarrow> True)
     in (if caps_bracketed_paste (rd_caps rd) \<and> paste_changed
         then [if bracketed_paste (scr_modes s) then DecSet 2004 else DecReset 2004] else [])
        @ (if mouse_changed then write_mouse rd (mouse (scr_modes s)) else []))"

definition write_title :: "renderer \<Rightarrow> screen_state \<Rightarrow> bool \<Rightarrow> term_op list" where
  "write_title rd s full =
    (let changed = (case rd_painted rd of
         Some p \<Rightarrow> (if \<not> full then pt_title p \<noteq> scr_title s else scr_title s \<noteq> [])
       | None \<Rightarrow> scr_title s \<noteq> [])
     in if changed then [SetTitle (scr_title s)] else [])"

section \<open>Cells\<close>

definition push_color :: "color \<Rightarrow> bool \<Rightarrow> u32 \<Rightarrow> ustr" where
  "push_color c foreground colors =
    (case c of
       Default \<Rightarrow> []
     | Idx i \<Rightarrow>
         if i < 8 then str_of '';'' @ dec_str ((if foreground then 30 else 40) + unat i)
         else if i < 16 then
           (if colors < 16 then str_of '';'' @ dec_str ((if foreground then 30 else 40) + unat (i - 8))
            else str_of '';'' @ dec_str ((if foreground then 90 else 100) + unat (i - 8)))
         else str_of '';'' @ dec_str (if foreground then 38 else 48) @ str_of '';5;'' @ dec_str (unat i)
     | Rgb r g b \<Rightarrow>
         str_of '';'' @ dec_str (if foreground then 38 else 48) @ str_of '';2;'' @ dec_str (unat r)
           @ str_of '';'' @ dec_str (unat g) @ str_of '';'' @ dec_str (unat b))"

definition sgr_for :: "renderer \<Rightarrow> cell \<Rightarrow> bytes" where
  "sgr_for rd c =
    (let a = c_attrs c;
         fg = down_convert (c_fg c) (rd_caps rd);
         bg = down_convert (c_bg c) (rd_caps rd);
         promote_bold = (caps_colors (rd_caps rd) < 16
           \<and> (case fg of Idx i \<Rightarrow> 8 \<le> i \<and> i < 16 | _ \<Rightarrow> False))
     in utf8 ([27] @ str_of ''[0''
          @ (if attrs_contains a BOLD \<or> promote_bold then str_of '';1'' else [])
          @ (if attrs_contains a DIM then str_of '';2'' else [])
          @ (if attrs_contains a ITALIC then str_of '';3'' else [])
          @ (if attrs_contains a UNDERLINE then str_of '';4'' else [])
          @ (if attrs_contains a BLINK then str_of '';5'' else [])
          @ (if attrs_contains a INVERSE then str_of '';7'' else [])
          @ (if attrs_contains a HIDDEN then str_of '';8'' else [])
          @ (if attrs_contains a STRIKE then str_of '';9'' else [])
          @ push_color fg True (caps_colors (rd_caps rd))
          @ push_color bg False (caps_colors (rd_caps rd))
          @ str_of ''m''))"

definition SGR_RESET :: bytes where
  "SGR_RESET = [ESC] @ ascii ''[0m''"

text \<open>One column of \<open>changed_runs\<close>: a run opens on a dirty column, one to the left of a continuation,
  and is closed by the first clean one.\<close>

definition is_dirty :: "cell list \<Rightarrow> cell list option \<Rightarrow> bool \<Rightarrow> (nat \<Rightarrow> bool) \<Rightarrow> nat \<Rightarrow> bool" where
  "is_dirty desired previous full relinked col =
    (case previous of
       Some prev \<Rightarrow>
         (if \<not> full then desired ! col \<noteq> prev ! col \<or> relinked col
          else desired ! col \<noteq> cell_blank)
     | None \<Rightarrow> desired ! col \<noteq> cell_blank)"

definition run_start :: "cell list \<Rightarrow> nat \<Rightarrow> nat" where
  "run_start desired col =
    (if attrs_contains (c_attrs (desired ! col)) WIDE_CONT \<and> col > 0 then col - 1 else col)"

definition runs_step ::
  "cell list \<Rightarrow> (nat \<Rightarrow> bool) \<Rightarrow> nat \<Rightarrow> (nat \<times> nat) list \<times> nat option \<Rightarrow> (nat \<times> nat) list \<times> nat option"
  where
  "runs_step desired dirty col acc =
    (case acc of (runs, start) \<Rightarrow>
       if dirty col then
         (case start of None \<Rightarrow> (runs, Some (run_start desired col)) | Some b \<Rightarrow> (runs, start))
       else
         (case start of Some b \<Rightarrow> (runs @ [(b, col)], None) | None \<Rightarrow> (runs, None)))"

definition changed_runs ::
  "cell list \<Rightarrow> cell list option \<Rightarrow> bool \<Rightarrow> (nat \<Rightarrow> bool) \<Rightarrow> (nat \<times> nat) list" where
  "changed_runs desired previous full relinked =
    (case fold (runs_step desired (is_dirty desired previous full relinked)) [0..<length desired]
        ([], None) of
       (runs, Some b) \<Rightarrow> runs @ [(b, length desired)]
     | (runs, None) \<Rightarrow> runs)"

text \<open>The link part of one cell: close the open one, open the cell's if it resolves to a URI that may
  be written.\<close>

definition switch_link :: "renderer \<Rightarrow> link_table \<Rightarrow> cell \<Rightarrow> u16 \<Rightarrow> term_op list \<times> u16" where
  "switch_link rd links c opn =
    (if links_on rd \<and> c_link c \<noteq> opn then
       (let closing = (if opn \<noteq> 0 then [CloseLink] else []) in
        case bt_get links (c_link c) of
          Some uri \<Rightarrow>
            if is_ok (check_link_uri (c_link c) uri) then (closing @ [OpenLink (c_link c) uri], c_link c)
            else (closing, 0)
        | None \<Rightarrow> (closing, 0))
     else ([], opn))"

definition shown_text :: "cell \<Rightarrow> ustr" where
  "shown_text c = (if c_text c = [] then [32] else c_text c)"

definition paint_cell ::
  "renderer \<Rightarrow> link_table \<Rightarrow> cell \<Rightarrow> term_op list \<times> u16 \<times> bytes option
    \<Rightarrow> term_op list \<times> u16 \<times> bytes option" where
  "paint_cell rd links c acc =
    (case acc of (out, opn, pen) \<Rightarrow>
       if attrs_contains (c_attrs c) WIDE_CONT then (out, opn, pen)
       else
         (let sw = switch_link rd links c opn;
              want = sgr_for rd c;
              sgr = (if pen \<noteq> Some want then [Sgr want] else [])
          in (out @ fst sw @ sgr @ [PutText (shown_text c)], snd sw, Some want)))"

definition slice :: "'a list \<Rightarrow> nat \<Rightarrow> nat \<Rightarrow> 'a list" where
  "slice xs a b = take (b - a) (drop a xs)"

definition paint_run ::
  "renderer \<Rightarrow> link_table \<Rightarrow> nat \<Rightarrow> cell list \<Rightarrow> nat \<times> nat \<Rightarrow> term_op list \<times> bytes option
    \<Rightarrow> term_op list \<times> bytes option" where
  "paint_run rd links row desired run acc =
    (case fold (paint_cell rd links) (slice desired (fst run) (snd run))
        (fst acc @ [CursorTo (row + 1) (fst run + 1)], 0, snd acc) of
       (out, opn, pen) \<Rightarrow> (out @ (if opn \<noteq> 0 then [CloseLink] else []), pen))"

definition relinked_at :: "renderer \<Rightarrow> link_table \<Rightarrow> cell list \<Rightarrow> nat \<Rightarrow> bool" where
  "relinked_at rd links desired col =
    (links_on rd \<and> c_link (desired ! col) \<noteq> 0
     \<and> map_option (\<lambda>p. bt_get (pt_links p) (c_link (desired ! col))) (rd_painted rd)
         \<noteq> Some (bt_get links (c_link (desired ! col))))"

definition paint_row ::
  "renderer \<Rightarrow> cell list \<Rightarrow> link_table \<Rightarrow> nat \<Rightarrow> bool \<Rightarrow> nat \<Rightarrow> term_op list \<times> bytes option
    \<Rightarrow> term_op list \<times> bytes option" where
  "paint_row rd cells links cols full row acc =
    (let base = row * cols;
         desired = slice cells base (base + cols);
         previous = (case rd_painted rd of
             Some p \<Rightarrow> if length (pt_cells p) = length cells
                       then Some (slice (pt_cells p) base (base + cols)) else None
           | None \<Rightarrow> None)
     in fold (paint_run rd links row desired)
          (changed_runs desired previous full (relinked_at rd links desired)) acc)"

definition write_cells ::
  "renderer \<Rightarrow> cell list \<Rightarrow> link_table \<Rightarrow> u16 \<Rightarrow> u16 \<Rightarrow> bool \<Rightarrow> term_op list" where
  "write_cells rd cells links rows cols full =
    (let start =
           (if full then
              (if caps_osc8 (rd_caps rd) \<and> (links_on rd \<or> rd_link_may_be_open rd)
               then [CloseLink] else []) @ [HomeClear]
            else []);
         acc = fold (paint_row rd cells links (unat cols) full) [0..<unat rows] (start, None)
     in fst acc @ (case snd acc of
                     Some p \<Rightarrow> if p \<noteq> SGR_RESET then [Sgr SGR_RESET] else []
                   | None \<Rightarrow> []))"

section \<open>Cursor, bell and the whole pass\<close>

fun cursor_style :: "cursor_shape \<Rightarrow> nat" where
  "cursor_style Block = 2"
| "cursor_style Underline = 4"
| "cursor_style Bar = 6"

text \<open>\<open>out\<close> is what the pass wrote so far; the result is what the cursor adds. The \<open>u16\<close> additions
  wrap, as in a release build.\<close>

definition write_cursor :: "renderer \<Rightarrow> cursor \<Rightarrow> bool \<Rightarrow> term_op list \<Rightarrow> term_op list" where
  "write_cursor rd cur full out =
    (let before = (if full then None else map_option pt_cursor (rd_painted rd));
         styl = (if map_option cur_shape before \<noteq> Some (cur_shape cur)
                 then [CursorStyle (cursor_style (cur_shape cur))] else []);
         moved = (map_option (\<lambda>b. (cur_row b, cur_col b)) before \<noteq> Some (cur_row cur, cur_col cur));
         pos = (if moved \<or> out @ styl \<noteq> []
                then [CursorTo (unat (cur_row cur + 1)) (unat (cur_col cur + 1))] else []);
         vis = (if map_option cur_visible before \<noteq> Some (cur_visible cur)
                then [if cur_visible cur then DecSet 25 else DecReset 25] else [])
     in styl @ pos @ vis)"

definition should_ring :: "renderer \<Rightarrow> screen_state \<Rightarrow> bool" where
  "should_ring rd s = (case rd_painted rd of Some p \<Rightarrow> scr_bell s > pt_bell p | None \<Rightarrow> False)"

definition shown_cursor :: "renderer \<Rightarrow> screen_state \<Rightarrow> cursor" where
  "shown_cursor rd s =
    (case rd_overlay rd of None \<Rightarrow> scr_cursor s | Some _ \<Rightarrow> (scr_cursor s)\<lparr>cur_visible := False\<rparr>)"

text \<open>\<open>render\<close>: the operations written and the renderer afterwards, \<open>written\<close> being whether
  \<open>write_all\<close> completed.\<close>

definition render ::
  "(ustr \<Rightarrow> nat) \<Rightarrow> renderer \<Rightarrow> screen_state \<Rightarrow> bool \<Rightarrow> term_op list \<times> renderer" where
  "render wd rd s written =
    (let shape_changed = (scr_rows s \<noteq> ts_rows (rd_size rd) \<or> scr_cols s \<noteq> ts_cols (rd_size rd));
         rd = (if shape_changed
               then rd\<lparr>rd_size := \<lparr>ts_cols = scr_cols s, ts_rows = scr_rows s\<rparr>, rd_painted := None\<rparr>
               else rd);
         full = (rd_painted rd = None);
         buffer_swapped = (case rd_painted rd of
             Some p \<Rightarrow> alt_screen (pt_modes p) \<noteq> alt_screen (scr_modes s)
           | None \<Rightarrow> False);
         ring = should_ring rd s;
         out = write_modes rd s full;
         full = (if buffer_swapped then True else full);
         rd = (if buffer_swapped then rd\<lparr>rd_painted := None\<rparr> else rd);
         out = out @ write_title rd s full;
         cells = composite wd rd s;
         cur = shown_cursor rd s;
         out = out @ write_cells rd cells (scr_links s) (scr_rows s) (scr_cols s) full;
         rd = (if links_on rd then rd\<lparr>rd_link_may_be_open := True\<rparr> else rd);
         out = out @ write_cursor rd cur full out;
         out = out @ (if ring then [Bell] else []);
         out = (if out \<noteq> [] then [DecSet 2026] @ out @ [DecReset 2026] else [])
     in (out,
         if written then
           rd\<lparr>rd_link_may_be_open := False,
              rd_painted := Some \<lparr>pt_cells = cells, pt_cursor = cur, pt_modes = scr_modes s,
                pt_title = scr_title s, pt_bell = scr_bell s, pt_links = scr_links s\<rparr>\<rparr>
         else rd\<lparr>rd_painted := None\<rparr>))"

definition rendered_bytes :: "term_op list \<Rightarrow> bytes" where
  "rendered_bytes ops = concat (map op_bytes ops)"

end
