(* ===== verification/Sync_Screen.thy ===== *)
theory Sync_Screen
  imports Proto_Screen
begin

text \<open>
  Diffing one screen against another: \<open>crates/oxutrm-sync/src/screen.rs\<close>. The encoder \<open>row_runs\<close>
  keeps the three nested loops of the code as three recursive functions; \<open>screen_apply\<close> keeps the
  order of the checks and the cell-by-cell painting. The lemmas show that applying the diff between
  two screens to the first yields the second, and that a full diff yields its screen whatever the
  receiver held.
\<close>

record run =
  run_start_col :: u16
  run_repeat :: u16
  run_cells :: "cell list"

definition run_width :: "run \<Rightarrow> nat" where
  "run_width r = length (run_cells r) * (unat (run_repeat r) + 1)"

record row_patch =
  rp_row :: u16
  rp_runs :: "run list"

type_synonym link_change = "u16 \<times> ustr option"

record screen_diff =
  sd_resize :: "term_size option"
  sd_rows :: "row_patch list"
  sd_cursor :: "cursor option"
  sd_modes :: "modes option"
  sd_title :: "ustr option"
  sd_bell :: "u32 option"
  sd_scrollback_len :: "u64 option"
  sd_clipboard :: "clipboard option"
  sd_links :: "link_change list"

definition link_changes :: "screen_state \<Rightarrow> screen_state \<Rightarrow> link_change list" where
  "link_changes target base =
    map (\<lambda>e. (fst e, Some (snd e)))
      (filter (\<lambda>e. bt_get (scr_links base) (fst e) \<noteq> Some (snd e)) (scr_links target))
    @ map (\<lambda>k. (k, None))
      (filter (\<lambda>k. \<not> bt_has (scr_links target) k) (map fst (scr_links base)))"

section \<open>Encoding a row\<close>

definition unchanged :: "cell list \<Rightarrow> cell list option \<Rightarrow> nat \<Rightarrow> bool" where
  "unchanged target base col =
    (case base of Some b \<Rightarrow> col < length b \<and> target ! col = b ! col | None \<Rightarrow> False)"

text \<open>How far does the cell at \<open>col\<close> repeat, \<open>n\<close> cells being known to?\<close>

function run_len_from :: "cell list \<Rightarrow> cell list option \<Rightarrow> nat \<Rightarrow> nat \<Rightarrow> nat" where
  "run_len_from target base col n =
    (if col + n < length target \<and> target ! (col + n) = target ! col
        \<and> \<not> unchanged target base (col + n)
     then run_len_from target base col (n + 1)
     else n)"
  by pat_completeness auto
termination
  by (relation "measure (\<lambda>(target, base, col, n). length target - (col + n))") auto

declare run_len_from.simps [simp del]

definition run_length :: "cell list \<Rightarrow> cell list option \<Rightarrow> nat \<Rightarrow> nat" where
  "run_length target base col = run_len_from target base col 1"

definition flush_literal :: "run list \<Rightarrow> cell list \<Rightarrow> nat \<Rightarrow> run list" where
  "flush_literal runs literal literal_start =
    (if literal \<noteq> []
     then runs @ [\<lparr>run_start_col = of_nat literal_start, run_repeat = 0, run_cells = literal\<rparr>]
     else runs)"

text \<open>One maximal span of changed cells, run-length encoded within itself; the result is the column
  after it, the literal still pending with its start, and the runs so far.\<close>

lemma run_len_from_ge: "n \<le> run_len_from target base col n"
proof (induction target base col n rule: run_len_from.induct)
  case (1 target base col n)
  then show ?case
    by (subst run_len_from.simps) auto
qed

function span_loop ::
  "cell list \<Rightarrow> cell list option \<Rightarrow> nat \<Rightarrow> cell list \<Rightarrow> nat \<Rightarrow> run list
    \<Rightarrow> nat \<times> cell list \<times> nat \<times> run list" where
  "span_loop target base col literal literal_start runs =
    (if col < length target \<and> \<not> unchanged target base col
     then
       if run_length target base col \<ge> 2
       then span_loop target base (col + run_length target base col) []
         (col + run_length target base col)
         (flush_literal runs literal literal_start
           @ [\<lparr>run_start_col = of_nat col,
               run_repeat = of_nat (run_length target base col - 1),
               run_cells = [target ! col]\<rparr>])
       else span_loop target base (col + 1) (literal @ [target ! col])
         (if literal = [] then col else literal_start) runs
     else (col, literal, literal_start, runs))"
  by pat_completeness auto
termination
  by (relation "measure (\<lambda>(target, base, col, literal, literal_start, runs). length target - col)")
    auto

declare span_loop.simps [simp del]

lemma span_loop_stop:
  assumes "\<not> (col < length target \<and> \<not> unchanged target base col)"
  shows "span_loop target base col literal ls runs = (col, literal, ls, runs)"
  by (subst span_loop.simps) (rule if_not_P [OF assms])

lemma span_loop_run:
  assumes "col < length target" "\<not> unchanged target base col" "run_length target base col \<ge> 2"
  shows "span_loop target base col literal ls runs =
    span_loop target base (col + run_length target base col) []
      (col + run_length target base col)
      (flush_literal runs literal ls
        @ [\<lparr>run_start_col = of_nat col, run_repeat = of_nat (run_length target base col - 1),
            run_cells = [target ! col]\<rparr>])"
  by (subst span_loop.simps) (simp only: assms simp_thms if_True not_False_eq_True)

lemma span_loop_literal:
  assumes "col < length target" "\<not> unchanged target base col" "\<not> run_length target base col \<ge> 2"
  shows "span_loop target base col literal ls runs =
    span_loop target base (col + 1) (literal @ [target ! col])
      (if literal = [] then col else ls) runs"
  by (subst span_loop.simps) (simp only: assms simp_thms if_True if_False not_False_eq_True)

text \<open>An induction over the span with one case per branch of its body.\<close>

lemma span_loop_induct [case_names stop run literal]:
  assumes "\<And>col literal ls runs. \<not> (col < length target \<and> \<not> unchanged target base col) \<Longrightarrow>
      P col literal ls runs (col, literal, ls, runs)"
    and "\<And>col literal ls runs r. col < length target \<Longrightarrow> \<not> unchanged target base col \<Longrightarrow>
      run_length target base col \<ge> 2 \<Longrightarrow>
      P (col + run_length target base col) [] (col + run_length target base col)
        (flush_literal runs literal ls
          @ [\<lparr>run_start_col = of_nat col, run_repeat = of_nat (run_length target base col - 1),
              run_cells = [target ! col]\<rparr>]) r \<Longrightarrow>
      P col literal ls runs r"
    and "\<And>col literal ls runs r. col < length target \<Longrightarrow> \<not> unchanged target base col \<Longrightarrow>
      P (col + 1) (literal @ [target ! col]) (if literal = [] then col else ls) runs r \<Longrightarrow>
      P col literal ls runs r"
  shows "P col literal ls runs (span_loop target base col literal ls runs)"
proof (induction "length target - col" arbitrary: col literal ls runs rule: less_induct)
  case less
  show ?case
  proof (cases "col < length target \<and> \<not> unchanged target base col")
    case True
    then have c: "col < length target" "\<not> unchanged target base col" by simp_all
    have smaller: "length target - (col + n) < length target - col" if "0 < n" for n
      using that c(1) by linarith
    show ?thesis
    proof (cases "run_length target base col \<ge> 2")
      case run: True
      then have "0 < run_length target base col" by simp
      from assms(2) [OF c run less.hyps [OF smaller [OF this]]] show ?thesis
        by (simp only: span_loop_run [OF c run])
    next
      case lit: False
      from assms(3) [OF c less.hyps [OF smaller [of 1]]] show ?thesis
        by (simp only: span_loop_literal [OF c lit] less_one)
    qed
  next
    case False
    from assms(1) [OF this] show ?thesis by (simp only: span_loop_stop [OF False])
  qed
qed

lemma span_loop_le: "col \<le> fst (span_loop target base col literal ls runs)"
  by (rule span_loop_induct [where P = "\<lambda>col literal ls runs r. col \<le> fst r"]) auto

lemma span_loop_progress:
  assumes "col < length target" and "\<not> unchanged target base col"
  shows "col < fst (span_loop target base col literal ls runs)"
proof -
  have step: "col < fst (span_loop target base n l k rs)" if "col < n" for n l k rs
    using that span_loop_le [of n target base l k rs] by linarith
  show ?thesis
    using assms step
    by (cases "run_length target base col \<ge> 2") (simp_all add: span_loop_run span_loop_literal)
qed

function row_loop :: "cell list \<Rightarrow> cell list option \<Rightarrow> nat \<Rightarrow> run list \<Rightarrow> run list" where
  "row_loop target base col runs =
    (if col < length target
     then if unchanged target base col then row_loop target base (col + 1) runs
       else let r = span_loop target base col [] col runs
         in row_loop target base (fst r)
              (flush_literal (snd (snd (snd r))) (fst (snd r)) (fst (snd (snd r))))
     else runs)"
  by pat_completeness auto
termination
  by (relation "measure (\<lambda>(target, base, col, runs). length target - col)")
    (use span_loop_progress in \<open>auto intro: diff_less_mono2\<close>)

declare row_loop.simps [simp del]

definition row_runs :: "cell list \<Rightarrow> cell list option \<Rightarrow> run list" where
  "row_runs target base = row_loop target base 0 []"

section \<open>The diff between two screens\<close>

definition row_patch_at :: "screen_state \<Rightarrow> (nat \<Rightarrow> cell list option) \<Rightarrow> nat \<Rightarrow> row_patch list" where
  "row_patch_at s base_row r =
    (let runs = row_runs (row_slice s r) (base_row r)
     in if runs \<noteq> [] then [\<lparr>rp_row = of_nat r, rp_runs = runs\<rparr>] else [])"

definition row_patches :: "screen_state \<Rightarrow> (nat \<Rightarrow> cell list option) \<Rightarrow> row_patch list" where
  "row_patches s base_row = concat (map (row_patch_at s base_row) [0 ..< unat (scr_rows s)])"

definition then_some :: "bool \<Rightarrow> 'a \<Rightarrow> 'a option" where
  "then_some b x = (if b then Some x else None)"

definition screen_diff_from :: "screen_state \<Rightarrow> screen_state \<Rightarrow> screen_diff" where
  "screen_diff_from s base =
    (let resized = scr_rows s \<noteq> scr_rows base \<or> scr_cols s \<noteq> scr_cols base in
     \<lparr>sd_resize = then_some resized \<lparr>ts_cols = scr_cols s, ts_rows = scr_rows s\<rparr>,
      sd_rows = row_patches s
        (\<lambda>r. if resized \<or> r \<ge> unat (scr_rows base) then None else Some (row_slice base r)),
      sd_cursor = then_some (scr_cursor s \<noteq> scr_cursor base) (scr_cursor s),
      sd_modes = then_some (scr_modes s \<noteq> scr_modes base) (scr_modes s),
      sd_title = then_some (scr_title s \<noteq> scr_title base) (scr_title s),
      sd_bell = then_some (scr_bell s \<noteq> scr_bell base) (scr_bell s),
      sd_scrollback_len = then_some (scr_scrollback_len s \<noteq> scr_scrollback_len base)
        (scr_scrollback_len s),
      sd_clipboard = then_some (scr_clipboard s \<noteq> scr_clipboard base) (scr_clipboard s),
      sd_links = link_changes s base\<rparr>)"

definition screen_full_diff :: "screen_state \<Rightarrow> screen_diff" where
  "screen_full_diff s =
    \<lparr>sd_resize = Some \<lparr>ts_cols = scr_cols s, ts_rows = scr_rows s\<rparr>,
     sd_rows = row_patches s (\<lambda>_. None),
     sd_cursor = Some (scr_cursor s), sd_modes = Some (scr_modes s),
     sd_title = Some (scr_title s), sd_bell = Some (scr_bell s),
     sd_scrollback_len = Some (scr_scrollback_len s),
     sd_clipboard = Some (scr_clipboard s),
     sd_links = map (\<lambda>e. (fst e, Some (snd e))) (scr_links s)\<rparr>"

section \<open>Applying a diff\<close>

primrec paint_cells :: "cell list \<Rightarrow> cell list \<Rightarrow> nat \<Rightarrow> cell list" where
  "paint_cells [] cells at = cells"
| "paint_cells (x # xs) cells at = paint_cells xs (cells[at := x]) (at + 1)"

definition apply_run ::
  "u16 \<Rightarrow> u16 \<Rightarrow> nat \<Rightarrow> run \<Rightarrow> cell list \<Rightarrow> apply_error + cell list" where
  "apply_run row cols row_start r cells =
    (let start = unat (run_start_col r);
         end_col = start + run_width r
     in if end_col > unat cols then Inl (RunOverflowsRow row end_col cols)
        else and_then (check_all (\<lambda>c. check_cell_text (c_text c)) (run_cells r)) (\<lambda>_.
          Inr (paint_cells (concat (replicate (unat (run_repeat r) + 1) (run_cells r)))
            cells (row_start + start))))"

definition apply_patch :: "u16 \<Rightarrow> u16 \<Rightarrow> row_patch \<Rightarrow> cell list \<Rightarrow> apply_error + cell list" where
  "apply_patch rows cols patch cells =
    (if rp_row patch \<ge> rows then Inl (OutOfBounds (rp_row patch) rows)
     else fold_res (apply_run (rp_row patch) cols (unat (rp_row patch) * unat cols))
       (rp_runs patch) cells)"

definition check_link_changes :: "link_change list \<Rightarrow> apply_error + unit" where
  "check_link_changes links =
    (if length links > 2 * MAX_LINKS then Inl (TooManyLinks (length links) (2 * MAX_LINKS))
     else check_all (\<lambda>e. if fst e = 0 then Inl LinkIdZero
       else case snd e of Some uri \<Rightarrow> check_link_uri (fst e) uri | None \<Rightarrow> Inr ()) links)"

definition apply_link_change :: "link_change \<Rightarrow> link_table \<Rightarrow> link_table" where
  "apply_link_change e links =
    (case snd e of Some uri \<Rightarrow> bt_insert (fst e) uri links | None \<Rightarrow> bt_remove (fst e) links)"

definition apply_resize :: "term_size option \<Rightarrow> screen_state \<Rightarrow> apply_error + screen_state" where
  "apply_resize resize s =
    (case resize of
       None \<Rightarrow> Inr s
     | Some sz \<Rightarrow> and_then (check_bounds sz) (\<lambda>_.
         Inr (s\<lparr>scr_rows := ts_rows sz, scr_cols := ts_cols sz,
                scr_cells := replicate (unat (ts_rows sz) * unat (ts_cols sz)) cell_blank\<rparr>)))"

definition opt_check :: "('a \<Rightarrow> 'e + unit) \<Rightarrow> 'a option \<Rightarrow> 'e + unit" where
  "opt_check f x = (case x of Some a \<Rightarrow> f a | None \<Rightarrow> Inr ())"

definition opt_or :: "'a option \<Rightarrow> 'a \<Rightarrow> 'a" where
  "opt_or x d = (case x of Some a \<Rightarrow> a | None \<Rightarrow> d)"

definition screen_apply ::
  "screen_state \<Rightarrow> u64 \<Rightarrow> u64 \<Rightarrow> screen_diff \<Rightarrow> apply_error + screen_state" where
  "screen_apply s base target d =
    (if base \<noteq> 0 \<and> base \<noteq> scr_seq s then Inl (BaseMismatch base (scr_seq s))
     else and_then (opt_check check_title (sd_title d)) (\<lambda>_.
     and_then (opt_check check_clipboard (sd_clipboard d)) (\<lambda>_.
     and_then (check_link_changes (sd_links d)) (\<lambda>_.
     and_then (apply_resize (sd_resize d) s) (\<lambda>s1.
     and_then (fold_res (apply_patch (scr_rows s1) (scr_cols s1)) (sd_rows d) (scr_cells s1))
       (\<lambda>cells.
     Inr (s1\<lparr>scr_cells := cells,
       scr_cursor := opt_or (sd_cursor d) (scr_cursor s1),
       scr_modes := opt_or (sd_modes d) (scr_modes s1),
       scr_title := opt_or (sd_title d) (scr_title s1),
       scr_bell := opt_or (sd_bell d) (scr_bell s1),
       scr_scrollback_len := opt_or (sd_scrollback_len d) (scr_scrollback_len s1),
       scr_clipboard := opt_or (sd_clipboard d) (scr_clipboard s1),
       scr_links := fold apply_link_change (sd_links d) (if base = 0 then [] else scr_links s1),
       scr_seq := target\<rparr>)))))))"

section \<open>Painting a row's runs reaches the row\<close>

lemma length_paint_cells [simp]: "length (paint_cells xs cells at) = length cells"
  by (induction xs arbitrary: cells at) simp_all

lemma paint_cells_eq:
  "at + length xs \<le> length cells \<Longrightarrow>
    paint_cells xs cells at = take at cells @ xs @ drop (at + length xs) cells"
proof (induction xs arbitrary: cells at)
  case (Cons x xs)
  have "take (Suc at) (cells[at := x]) = take at cells @ [x]"
    using Cons.prems by (simp add: take_Suc_conv_app_nth)
  with Cons show ?case by simp
qed simp

text \<open>The cells with the first \<open>k\<close> columns of \<open>t\<close> painted at \<open>off\<close>.\<close>

definition over_row :: "cell list \<Rightarrow> nat \<Rightarrow> cell list \<Rightarrow> nat \<Rightarrow> cell list" where
  "over_row cells off t k = take off cells @ take k t @ drop (off + k) cells"

lemma over_row_0 [simp]: "over_row cells off t 0 = cells"
  by (simp add: over_row_def)

lemma paint_over_row:
  assumes "off + length t \<le> length cells" and "k + n \<le> length t"
  shows "paint_cells (take n (drop k t)) (over_row cells off t k) (off + k)
    = over_row cells off t (k + n)"
proof -
  have len: "length (over_row cells off t k) = length cells" "length (take off cells) = off"
      "length (take k t) = k" "length (take n (drop k t)) = n"
    using assms by (simp_all add: over_row_def)
  have "take (off + k) (over_row cells off t k) = take off cells @ take k t"
    using len(2,3) by (simp add: over_row_def)
  moreover have "drop (off + k + n) (over_row cells off t k) = drop (off + (k + n)) cells"
    using len(2,3) by (simp add: over_row_def add.commute add.left_commute)
  moreover have "take k t @ take n (drop k t) = take (k + n) t"
    by (simp add: take_add)
  ultimately show ?thesis
    using assms len by (subst paint_cells_eq) (simp_all add: over_row_def)
qed

lemma over_row_skip:
  assumes "off + length t \<le> length cells" and "k < length t" and "cells ! (off + k) = t ! k"
  shows "over_row cells off t (Suc k) = over_row cells off t k"
  using assms by (simp add: over_row_def take_Suc_conv_app_nth Cons_nth_drop_Suc [symmetric])

text \<open>What the encoder may assume of a row it encodes: it is as wide as the screen, it fits the
  buffer, its text is legal, and a column it calls unchanged already holds the right cell.\<close>

definition row_job :: "u16 \<Rightarrow> nat \<Rightarrow> cell list \<Rightarrow> cell list \<Rightarrow> cell list option \<Rightarrow> bool" where
  "row_job cols off cells t base \<longleftrightarrow>
    length t = unat cols \<and> off + length t \<le> length cells
    \<and> (\<forall>c\<in>set t. check_cell_text (c_text c) = Inr ())
    \<and> (\<forall>i<length t. unchanged t base i \<longrightarrow> cells ! (off + i) = t ! i)"

lemma row_job_small: "row_job cols off cells t base \<Longrightarrow> length t < 65536"
  by (auto simp: row_job_def)

lemma apply_literal_run:
  assumes "row_job cols off cells t base" and "k + n \<le> length t"
  shows "apply_run row cols off
      \<lparr>run_start_col = of_nat k, run_repeat = 0, run_cells = take n (drop k t)\<rparr>
      (over_row cells off t k) = Inr (over_row cells off t (k + n))"
proof -
  have k: "unat (of_nat k :: u16) = k"
    using assms row_job_small by (intro unat_of_nat_16) force
  have "\<forall>c\<in>set (take n (drop k t)). check_cell_text (c_text c) = Inr ()"
    using assms(1) by (auto simp: row_job_def dest: in_set_takeD in_set_dropD)
  then have "check_all (\<lambda>c. check_cell_text (c_text c)) (take n (drop k t)) = Inr ()"
    by (simp add: check_all_ok_iff)
  with assms k show ?thesis
    by (simp add: apply_run_def run_width_def Let_def row_job_def paint_over_row min_def)
qed

lemma replicate_nth:
  assumes "k + n \<le> length t" and "\<forall>i<n. t ! (k + i) = t ! k"
  shows "take n (drop k t) = replicate n (t ! k)"
  using assms by (intro nth_equalityI) auto

lemma apply_repeat_run:
  assumes "row_job cols off cells t base" and "k + n \<le> length t" and "1 \<le> n"
    and "\<forall>i<n. t ! (k + i) = t ! k"
  shows "apply_run row cols off
      \<lparr>run_start_col = of_nat k, run_repeat = of_nat (n - 1), run_cells = [t ! k]\<rparr>
      (over_row cells off t k) = Inr (over_row cells off t (k + n))"
proof -
  have k: "unat (of_nat k :: u16) = k" and n: "unat (of_nat (n - 1) :: u16) = n - 1"
    using assms(1-3) row_job_small [of cols off cells t base]
    by (intro unat_of_nat_16; linarith)+
  have "concat (replicate n [t ! k]) = take n (drop k t)"
    using assms(2,4) by (simp add: replicate_nth concat_replicate_single)
  moreover have "check_cell_text (c_text (t ! k)) = Inr ()"
    using assms(1-3) by (simp add: row_job_def)
  ultimately show ?thesis
    using assms k n
    by (simp add: apply_run_def run_width_def Let_def row_job_def paint_over_row del: of_nat_diff)
qed

lemma run_len_from_spec:
  assumes "\<forall>i<n. t ! (col + i) = t ! col" and "col + n \<le> length t"
  shows "(\<forall>i<run_len_from t base col n. t ! (col + i) = t ! col)
    \<and> col + run_len_from t base col n \<le> length t"
  using assms
proof (induction t base col n rule: run_len_from.induct)
  case (1 t base col n)
  then show ?case
    by (subst (1 2) run_len_from.simps) (auto simp: less_Suc_eq)
qed

lemma run_length_spec:
  assumes "col < length t"
  shows "(\<forall>i<run_length t base col. t ! (col + i) = t ! col)
    \<and> col + run_length t base col \<le> length t"
  unfolding run_length_def by (rule run_len_from_spec) (use assms in auto)

text \<open>The loop invariant: the runs so far paint the first \<open>k\<close> columns, and the pending literal holds
  the columns from \<open>k\<close> to \<open>col\<close>.\<close>

definition runs_paint ::
  "u16 \<Rightarrow> u16 \<Rightarrow> nat \<Rightarrow> cell list \<Rightarrow> cell list \<Rightarrow> run list \<Rightarrow> nat \<Rightarrow> bool" where
  "runs_paint row cols off cells t runs k \<longleftrightarrow>
    fold_res (apply_run row cols off) runs cells = Inr (over_row cells off t k)"

definition span_inv ::
  "u16 \<Rightarrow> u16 \<Rightarrow> nat \<Rightarrow> cell list \<Rightarrow> cell list \<Rightarrow> nat \<Rightarrow> cell list \<Rightarrow> nat \<Rightarrow> run list \<Rightarrow> bool"
  where
  "span_inv row cols off cells t col literal ls runs \<longleftrightarrow>
    (\<exists>k\<le>col. col \<le> length t \<and> literal = take (col - k) (drop k t) \<and> (k < col \<longrightarrow> ls = k)
      \<and> runs_paint row cols off cells t runs k)"

lemma runs_paint_snoc:
  assumes "runs_paint row cols off cells t runs k"
    and "apply_run row cols off r (over_row cells off t k) = Inr (over_row cells off t k')"
  shows "runs_paint row cols off cells t (runs @ [r]) k'"
  using assms by (simp add: runs_paint_def fold_res_append)

lemma flush_literal_paint:
  assumes "row_job cols off cells t base" and "span_inv row cols off cells t col literal ls runs"
  shows "runs_paint row cols off cells t (flush_literal runs literal ls) col"
proof -
  from assms(2) obtain k where k: "k \<le> col" "col \<le> length t"
      "literal = take (col - k) (drop k t)" "k < col \<longrightarrow> ls = k"
      "runs_paint row cols off cells t runs k"
    by (auto simp: span_inv_def)
  show ?thesis
  proof (cases "k = col")
    case True
    with k show ?thesis by (simp add: flush_literal_def)
  next
    case False
    with k have "literal \<noteq> []" "ls = k" by auto
    then show ?thesis
      using k apply_literal_run [OF assms(1), of k "col - k" row]
      by (auto simp: flush_literal_def intro: runs_paint_snoc)
  qed
qed

lemma span_loop_inv:
  assumes "row_job cols off cells t base"
  shows "span_inv row cols off cells t col literal ls runs \<longrightarrow>
    (case span_loop t base col literal ls runs of (c, l, s, rs) \<Rightarrow>
      span_inv row cols off cells t c l s rs)"
proof (rule span_loop_induct [where P = "\<lambda>col literal ls runs r.
    span_inv row cols off cells t col literal ls runs \<longrightarrow>
    (case r of (c, l, s, rs) \<Rightarrow> span_inv row cols off cells t c l s rs)"])
  fix col literal ls runs r
  let ?n = "run_length t base col"
  let ?runs = "flush_literal runs literal ls
    @ [\<lparr>run_start_col = of_nat col, run_repeat = of_nat (?n - 1), run_cells = [t ! col]\<rparr>]"
  assume c: "col < length t" "2 \<le> ?n"
    and IH: "span_inv row cols off cells t (col + ?n) [] (col + ?n) ?runs \<longrightarrow>
      (case r of (c, l, s, rs) \<Rightarrow> span_inv row cols off cells t c l s rs)"
  show "span_inv row cols off cells t col literal ls runs \<longrightarrow>
      (case r of (c, l, s, rs) \<Rightarrow> span_inv row cols off cells t c l s rs)"
  proof
    assume "span_inv row cols off cells t col literal ls runs"
    then have "runs_paint row cols off cells t (flush_literal runs literal ls) col"
      by (rule flush_literal_paint [OF assms])
    then have "runs_paint row cols off cells t ?runs (col + ?n)"
      by (rule runs_paint_snoc, intro apply_repeat_run [OF assms])
        (use run_length_spec [OF c(1), of base] c(2) in auto)
    then show "case r of (c, l, s, rs) \<Rightarrow> span_inv row cols off cells t c l s rs"
      using IH run_length_spec [OF c(1), of base] by (auto simp: span_inv_def)
  qed
next
  fix col literal ls runs r
  assume c: "col < length t"
    and IH: "span_inv row cols off cells t (col + 1) (literal @ [t ! col])
        (if literal = [] then col else ls) runs \<longrightarrow>
      (case r of (c, l, s, rs) \<Rightarrow> span_inv row cols off cells t c l s rs)"
  have "span_inv row cols off cells t (col + 1) (literal @ [t ! col])
        (if literal = [] then col else ls) runs"
    if inv: "span_inv row cols off cells t col literal ls runs"
  proof -
    from inv obtain k where k: "k \<le> col" "literal = take (col - k) (drop k t)"
        "k < col \<longrightarrow> ls = k" "runs_paint row cols off cells t runs k"
      by (auto simp: span_inv_def)
    have "take (col + 1 - k) (drop k t) = literal @ [t ! col]"
      using k c by (simp add: Suc_diff_le take_Suc_conv_app_nth)
    with k c show ?thesis
      unfolding span_inv_def by (intro exI [of _ k]) auto
  qed
  with IH show "span_inv row cols off cells t col literal ls runs \<longrightarrow>
      (case r of (c, l, s, rs) \<Rightarrow> span_inv row cols off cells t c l s rs)"
    by blast
qed simp

lemma row_loop_paint:
  assumes "row_job cols off cells t base"
  shows "runs_paint row cols off cells t runs col \<Longrightarrow> col \<le> length t \<Longrightarrow>
    runs_paint row cols off cells t (row_loop t base col runs) (length t)"
proof (induction "length t - col" arbitrary: col runs rule: less_induct)
  case less
  show ?case
  proof (cases "col < length t")
    case False
    with less.prems show ?thesis by (subst row_loop.simps) auto
  next
    case c: True
    show ?thesis
    proof (cases "unchanged t base col")
      case True
      then have "over_row cells off t (Suc col) = over_row cells off t col"
        using assms c by (intro over_row_skip) (auto simp: row_job_def)
      then have "runs_paint row cols off cells t runs (col + 1)"
        using less.prems(1) by (simp add: runs_paint_def)
      then have "runs_paint row cols off cells t (row_loop t base (col + 1) runs) (length t)"
        using c by (intro less.hyps) auto
      with c True show ?thesis by (subst row_loop.simps) simp
    next
      case False
      obtain c' l s rs where r: "span_loop t base col [] col runs = (c', l, s, rs)"
        by (metis prod_cases4)
      have "span_inv row cols off cells t col [] col runs"
        using less.prems by (auto simp: span_inv_def)
      then have inv: "span_inv row cols off cells t c' l s rs"
        using span_loop_inv [OF assms, of row col "[]" col runs] r by simp
      have "col < c'" "c' \<le> length t"
        using span_loop_progress [OF c False, of "[]" col runs] r inv
        by (auto simp: span_inv_def)
      then have "runs_paint row cols off cells t
          (row_loop t base c' (flush_literal rs l s)) (length t)"
        using c flush_literal_paint [OF assms inv] by (intro less.hyps) auto
      with c False r show ?thesis by (subst row_loop.simps) (simp add: Let_def)
    qed
  qed
qed

lemma row_runs_paint:
  assumes "row_job cols off cells t base"
  shows "fold_res (apply_run row cols off) (row_runs t base) cells
    = Inr (take off cells @ t @ drop (off + length t) cells)"
  using row_loop_paint [OF assms, of row "[]" 0]
  by (simp add: row_runs_def runs_paint_def over_row_def)

section \<open>Painting every row reaches the screen\<close>

lemma row_patch_at_paint:
  assumes "row_job (scr_cols s) (r * unat (scr_cols s)) cells (row_slice s r) (base_row r)"
    and "r < unat (scr_rows s)"
  shows "fold_res (apply_patch (scr_rows s) (scr_cols s)) (row_patch_at s base_row r) cells
    = Inr (take (r * unat (scr_cols s)) cells @ row_slice s r
        @ drop (r * unat (scr_cols s) + length (row_slice s r)) cells)"
proof -
  have r: "unat (of_nat r :: u16) = r"
    using assms(2) unat_lt_16 [of "scr_rows s"] by (intro unat_of_nat_16) linarith
  then have "(of_nat r :: u16) < scr_rows s"
    using assms(2) by (simp add: word_less_nat_alt)
  then show ?thesis
    using row_runs_paint [OF assms(1), of "of_nat r"] r
    by (auto simp: row_patch_at_def Let_def apply_patch_def not_le [symmetric]
        simp del: of_nat_less_iff split: if_splits)
qed

lemma cells_take_row:
  "take (r * unat (scr_cols s)) (scr_cells s) @ row_slice s r
    = take (Suc r * unat (scr_cols s)) (scr_cells s)"
  by (simp add: row_slice_def take_add [symmetric] add.commute)

lemma row_patches_paint_upto:
  assumes "screen_valid s"
    and len: "length cells = unat (scr_rows s) * unat (scr_cols s)"
    and same: "\<And>r i. r < unat (scr_rows s) \<Longrightarrow> i < unat (scr_cols s) \<Longrightarrow>
      unchanged (row_slice s r) (base_row r) i \<Longrightarrow>
      cells ! (r * unat (scr_cols s) + i) = row_slice s r ! i"
    and "m \<le> unat (scr_rows s)"
  shows "fold_res (apply_patch (scr_rows s) (scr_cols s))
      (concat (map (row_patch_at s base_row) [0 ..< m])) cells
    = Inr (take (m * unat (scr_cols s)) (scr_cells s) @ drop (m * unat (scr_cols s)) cells)"
  using assms(4)
proof (induction m)
  case 0
  then show ?case by simp
next
  case (Suc m)
  let ?w = "unat (scr_cols s)" and ?S = "scr_cells s"
  let ?cells = "take (m * ?w) ?S @ drop (m * ?w) cells"
  have S: "length ?S = unat (scr_rows s) * ?w"
    using assms(1) by (simp add: screen_valid_def)
  have fits: "m * ?w + ?w \<le> unat (scr_rows s) * ?w"
    using Suc.prems by (metis add.commute mult_Suc mult_le_mono1)
  have row: "length (row_slice s m) = ?w"
    using assms(1) Suc.prems by (simp add: row_slice_length)
  have "row_job (scr_cols s) (m * ?w) ?cells (row_slice s m) (base_row m)"
    unfolding row_job_def
  proof (intro conjI allI impI ballI)
    show "length (row_slice s m) = ?w" by (rule row)
    show "m * ?w + length (row_slice s m) \<le> length ?cells"
      using fits S len row by simp
    show "check_cell_text (c_text c) = Inr ()" if "c \<in> set (row_slice s m)" for c
      using that set_row_slice [of s m] assms(1) by (auto simp: screen_valid_def cell_ok_def)
    show "?cells ! (m * ?w + i) = row_slice s m ! i"
      if "i < length (row_slice s m)" "unchanged (row_slice s m) (base_row m) i" for i
      using that same [of m i] Suc.prems row fits S len by (simp add: nth_append)
  qed
  then have "fold_res (apply_patch (scr_rows s) (scr_cols s)) (row_patch_at s base_row m) ?cells
      = Inr (take (m * ?w) ?cells @ row_slice s m @ drop (m * ?w + length (row_slice s m)) ?cells)"
    using Suc.prems by (intro row_patch_at_paint) simp_all
  moreover have "take (m * ?w) ?cells @ row_slice s m = take (Suc m * ?w) ?S"
  proof -
    have "take (m * ?w) ?cells = take (m * ?w) ?S"
      using Suc.prems S by simp
    then show ?thesis by (simp only: cells_take_row)
  qed
  moreover have "drop (m * ?w + length (row_slice s m)) ?cells = drop (Suc m * ?w) cells"
  proof -
    have "length (take (m * ?w) ?S) = m * ?w"
      using Suc.prems S by simp
    then show ?thesis
      using row by (simp add: add.commute)
  qed
  ultimately show ?case
    using Suc by (simp add: fold_res_append flip: append_assoc)
qed

lemma row_patches_paint:
  assumes "screen_valid s"
    and "length cells = unat (scr_rows s) * unat (scr_cols s)"
    and "\<And>r i. r < unat (scr_rows s) \<Longrightarrow> i < unat (scr_cols s) \<Longrightarrow>
      unchanged (row_slice s r) (base_row r) i \<Longrightarrow>
      cells ! (r * unat (scr_cols s) + i) = row_slice s r ! i"
  shows "fold_res (apply_patch (scr_rows s) (scr_cols s)) (row_patches s base_row) cells
    = Inr (scr_cells s)"
proof -
  have "length (scr_cells s) = unat (scr_rows s) * unat (scr_cols s)"
    using assms(1) by (simp add: screen_valid_def)
  then show ?thesis
    using row_patches_paint_upto [OF assms order_refl] assms(2) by (simp add: row_patches_def)
qed

section \<open>The link table\<close>

lemma apply_link_change_eq: "apply_link_change = bt.change"
  by (auto simp: fun_eq_iff apply_link_change_def bt.change_def split: option.splits)

lemma map_of_some_entries:
  "map_of (map (\<lambda>e. (fst e, Some (snd e))) m) k = map_option Some (map_of m k)"
  by (induction m) auto

lemma link_changes_distinct:
  assumes "bt_wf (scr_links s)" and "bt_wf (scr_links base)"
  shows "distinct (map fst (link_changes s base))"
proof -
  have "distinct (map fst (filter P (scr_links s)))" for P
    using bt_wf_distinct [OF assms(1)] by (rule distinct_map_filter)
  moreover have "distinct (filter P (map fst (scr_links base)))" for P
    using bt_wf_distinct [OF assms(2)] by simp
  ultimately show ?thesis
    by (auto simp: link_changes_def comp_def bt_has_iff)
qed

lemma link_changes_lookup:
  assumes s: "bt_wf (scr_links s)" and base: "bt_wf (scr_links base)"
  shows "bt_get (scr_links s) k =
    (case map_of (link_changes s base) k of Some c \<Rightarrow> c | None \<Rightarrow> bt_get (scr_links base) k)"
proof -
  have entry: "map_of (link_changes s base) k = Some c \<longleftrightarrow> (k, c) \<in> set (link_changes s base)" for c
    using link_changes_distinct [OF s base] by simp
  show ?thesis
  proof (cases "bt_get (scr_links s) k = bt_get (scr_links base) k")
    case True
    have "(k, c) \<notin> set (link_changes s base)" for c
      using True s base
      by (auto simp: link_changes_def bt_has_def simp flip: bt_get_iff [OF s] bt_get_iff [OF base])
    then have "map_of (link_changes s base) k = None"
      by (meson map_of_SomeD not_None_eq)
    with True show ?thesis by simp
  next
    case False
    have "(k, bt_get (scr_links s) k) \<in> set (link_changes s base)"
    proof (cases "bt_get (scr_links s) k")
      case None
      with False obtain v where "bt_get (scr_links base) k = Some v" by force
      then have "k \<in> fst ` set (scr_links base)"
        using bt_get_Some_in by force
      with None show ?thesis
        by (auto simp: link_changes_def bt_has_def)
    next
      case (Some v)
      with False s show ?thesis
        by (auto simp: link_changes_def bt_get_iff [OF s] image_iff)
    qed
    then show ?thesis by (simp flip: entry)
  qed
qed

lemma link_changes_reach:
  assumes "bt_wf (scr_links s)" and "bt_wf (scr_links base)"
  shows "fold apply_link_change (link_changes s base) (scr_links base) = scr_links s"
  unfolding apply_link_change_eq
  by (rule bt.changes_reach) (use assms link_changes_distinct [OF assms] link_changes_lookup [OF assms] in simp_all)

lemma full_links_reach:
  assumes "bt_wf m"
  shows "fold apply_link_change (map (\<lambda>e. (fst e, Some (snd e))) m) [] = m"
  unfolding apply_link_change_eq
  by (rule bt.changes_reach)
    (use assms bt_wf_distinct in \<open>auto simp: map_of_some_entries comp_def bt_get_def
      split: option.splits\<close>)

lemma link_changes_ok:
  assumes "check_links (scr_links s) = Inr ()" and "check_links (scr_links base) = Inr ()"
  shows "check_link_changes (link_changes s base) = Inr ()"
proof -
  have "length (link_changes s base) \<le> length (scr_links s) + length (scr_links base)"
    unfolding link_changes_def length_append length_map
    by (intro add_mono length_filter_le order.trans [OF length_filter_le]) simp
  with assms show ?thesis
    by (auto simp: check_link_changes_def check_links_ok_iff check_all_ok_iff link_changes_def
        not_less split: if_splits)
qed

lemma full_links_ok:
  assumes "check_links m = Inr ()"
  shows "check_link_changes (map (\<lambda>e. (fst e, Some (snd e))) m) = Inr ()"
  using assms by (auto simp: check_link_changes_def check_links_ok_iff check_all_ok_iff)

section \<open>Round trips\<close>

text \<open>A screen of a Rust value: its invariants hold and its link table is a \<open>BTreeMap\<close>.\<close>

definition screen_wf :: "screen_state \<Rightarrow> bool" where
  "screen_wf s \<longleftrightarrow> screen_valid s \<and> bt_wf (scr_links s)"

lemma screen_validD:
  assumes "screen_valid s"
  shows "check_title (scr_title s) = Inr ()" "check_clipboard (scr_clipboard s) = Inr ()"
    "check_links (scr_links s) = Inr ()" "scr_seq s \<noteq> 0"
    "check_bounds \<lparr>ts_cols = scr_cols s, ts_rows = scr_rows s\<rparr> = Inr ()"
    "length (scr_cells s) = unat (scr_rows s) * unat (scr_cols s)"
  using assms by (simp_all add: screen_valid_def)

lemma opt_check_simps [simp]: "opt_check f None = Inr ()" "opt_check f (Some x) = f x"
  by (simp_all add: opt_check_def)

lemma opt_check_then_some: "f x = Inr () \<Longrightarrow> opt_check f (then_some b x) = Inr ()"
  by (simp add: opt_check_def then_some_def)

lemma opt_or_simps [simp]: "opt_or None d = d" "opt_or (Some x) d = x"
  by (simp_all add: opt_or_def)

lemma opt_or_then_some: "opt_or (then_some (x \<noteq> y) x) y = x"
  by (simp add: opt_or_def then_some_def)

lemma unchanged_None [simp]: "unchanged t None i = False"
  by (simp add: unchanged_def)

lemma screen_full_diff_apply:
  assumes "screen_wf s"
  shows "screen_apply held 0 target (screen_full_diff s) = Inr (s\<lparr>scr_seq := target\<rparr>)"
proof -
  have v: "screen_valid s" and w: "bt_wf (scr_links s)"
    using assms by (simp_all add: screen_wf_def)
  let ?blank = "replicate (unat (scr_rows s) * unat (scr_cols s)) cell_blank"
  have "fold_res (apply_patch (scr_rows s) (scr_cols s)) (row_patches s (\<lambda>_. None)) ?blank
      = Inr (scr_cells s)"
    by (rule row_patches_paint) (use v in simp_all)
  then show ?thesis
    by (simp add: screen_apply_def screen_full_diff_def apply_resize_def screen_validD [OF v]
        full_links_ok full_links_reach [OF w])
qed

lemma screen_diff_resized_cells:
  assumes "screen_wf s"
  shows "fold_res (apply_patch (scr_rows s) (scr_cols s)) (row_patches s (\<lambda>_. None))
      (replicate (unat (scr_rows s) * unat (scr_cols s)) cell_blank) = Inr (scr_cells s)"
  by (rule row_patches_paint) (use assms in \<open>simp_all add: screen_wf_def\<close>)

lemma screen_diff_same_size_cells:
  assumes "screen_wf s" and "screen_wf base"
    and "scr_rows s = scr_rows base" and "scr_cols s = scr_cols base"
  shows "fold_res (apply_patch (scr_rows s) (scr_cols s))
      (row_patches s (\<lambda>r. if r \<ge> unat (scr_rows base) then None else Some (row_slice base r)))
      (scr_cells base) = Inr (scr_cells s)"
proof (rule row_patches_paint)
  fix r i
  assume "r < unat (scr_rows s)" "i < unat (scr_cols s)"
    and "unchanged (row_slice s r)
      (if r \<ge> unat (scr_rows base) then None else Some (row_slice base r)) i"
  then show "scr_cells base ! (r * unat (scr_cols s) + i) = row_slice s r ! i"
    using assms by (simp add: unchanged_def screen_wf_def row_slice_nth)
qed (use assms in \<open>simp_all add: screen_wf_def screen_validD\<close>)

lemma screen_diff_apply:
  assumes s: "screen_wf s" and base: "screen_wf base"
  shows "screen_apply base (scr_seq base) target (screen_diff_from s base)
    = Inr (s\<lparr>scr_seq := target\<rparr>)"
proof -
  note v = screen_validD [of s] screen_validD [of base]
  have links: "check_link_changes (link_changes s base) = Inr ()"
      "fold apply_link_change (link_changes s base) (scr_links base) = scr_links s"
    using s base by (simp_all add: screen_wf_def link_changes_ok link_changes_reach v)
  have checks: "opt_check check_title (then_some b (scr_title s)) = Inr ()"
      "opt_check check_clipboard (then_some b (scr_clipboard s)) = Inr ()" for b
    using s by (simp_all add: screen_wf_def v opt_check_then_some)
  have seq: "scr_seq base \<noteq> 0" and bounds: "check_bounds \<lparr>ts_cols = scr_cols s, ts_rows = scr_rows s\<rparr> = Inr ()"
    using s base by (simp_all add: screen_wf_def v)
  show ?thesis
  proof (cases "scr_rows s = scr_rows base \<and> scr_cols s = scr_cols base")
    case True
    then show ?thesis
      using screen_diff_same_size_cells [OF s base] links checks seq
      by (simp add: screen_apply_def screen_diff_from_def Let_def apply_resize_def
          then_some_def [of False] opt_or_then_some)
  next
    case False
    then show ?thesis
      using screen_diff_resized_cells [OF s] links checks seq bounds
      by (auto simp: screen_apply_def screen_diff_from_def Let_def apply_resize_def
          then_some_def [of True] opt_or_then_some)
  qed
qed

section \<open>What a diff from an untrusted peer can do\<close>

text \<open>An accepted diff, whatever it carries, keeps the buffer the size the geometry says, within the
  caps, with legal text in every cell.\<close>

definition cells_legal :: "cell list \<Rightarrow> bool" where
  "cells_legal cells \<longleftrightarrow> (\<forall>c\<in>set cells. check_cell_text (c_text c) = Inr ())"

lemma set_paint_cells: "set (paint_cells xs cells at) \<subseteq> set cells \<union> set xs"
proof (induction xs arbitrary: cells at)
  case (Cons x xs)
  have "set (cells[at := x]) \<subseteq> insert x (set cells)"
    by (rule set_update_subset_insert)
  with Cons [of "cells[at := x]" "at + 1"] show ?case by auto
qed simp

lemma apply_run_legal:
  assumes "apply_run row cols off r cells = Inr cells'" and "cells_legal cells"
  shows "cells_legal cells' \<and> length cells' = length cells"
proof -
  from assms(1) have "cells_legal (run_cells r)"
    and eq: "cells' = paint_cells (concat (replicate (unat (run_repeat r) + 1) (run_cells r)))
      cells (off + unat (run_start_col r))"
    by (auto simp: apply_run_def Let_def and_then_Inr_iff check_all_ok_iff' cells_legal_def
        split: if_splits)
  moreover have "set cells' \<subseteq> set cells \<union> set (run_cells r)"
    using set_paint_cells [of "concat (replicate (unat (run_repeat r) + 1) (run_cells r))"
        cells "off + unat (run_start_col r)"]
    unfolding eq by auto
  ultimately show ?thesis
    using assms(2) by (auto simp: cells_legal_def)
qed

lemma apply_patches_legal:
  assumes "fold_res (apply_patch rows cols) patches cells = Inr cells'" and "cells_legal cells"
  shows "cells_legal cells' \<and> length cells' = length cells"
proof -
  have patch: "cells_legal b \<and> length b = length cells"
    if "cells_legal a \<and> length a = length cells" and "apply_patch rows cols p a = Inr b" for p a b
  proof -
    have "fold_res (apply_run (rp_row p) cols (unat (rp_row p) * unat cols)) (rp_runs p) a = Inr b"
      using that(2) by (simp add: apply_patch_def split: if_splits)
    then show ?thesis
      by (rule fold_res_inv [where P = "\<lambda>c. cells_legal c \<and> length c = length cells"])
        (use that(1) in \<open>auto dest: apply_run_legal\<close>)
  qed
  show ?thesis
    by (rule fold_res_inv [OF assms(1), where P = "\<lambda>c. cells_legal c \<and> length c = length cells"])
      (use assms(2) in \<open>auto dest: patch [rotated]\<close>)
qed

lemma apply_links_wf: "bt_wf m \<Longrightarrow> bt_wf (fold apply_link_change cs m)"
  unfolding apply_link_change_eq by (rule bt.wf_changes)

lemma cells_legal_valid: "screen_valid s \<Longrightarrow> cells_legal (scr_cells s)"
  by (simp add: screen_valid_def cells_legal_def cell_ok_def)

lemma cells_legal_blank: "cells_legal (replicate n cell_blank)"
  using cell_blank_ok [of "[]"] by (simp add: cells_legal_def cell_ok_def)

lemma apply_resize_legal:
  assumes "apply_resize resize s = Inr s1" and "screen_wf s"
  shows "cells_legal (scr_cells s1)
    \<and> length (scr_cells s1) = unat (scr_rows s1) * unat (scr_cols s1)
    \<and> check_bounds \<lparr>ts_cols = scr_cols s1, ts_rows = scr_rows s1\<rparr> = Inr ()
    \<and> scr_links s1 = scr_links s \<and> scr_title s1 = scr_title s \<and> scr_clipboard s1 = scr_clipboard s"
  using assms
  by (cases resize)
    (auto simp: apply_resize_def and_then_Inr_iff screen_wf_def screen_validD cells_legal_valid
      cells_legal_blank check_bounds_ok_iff)

lemma screen_applyE:
  assumes "screen_apply s base target d = Inr s'"
  obtains s1 cells where
    "opt_check check_title (sd_title d) = Inr ()"
    "opt_check check_clipboard (sd_clipboard d) = Inr ()"
    "apply_resize (sd_resize d) s = Inr s1"
    "fold_res (apply_patch (scr_rows s1) (scr_cols s1)) (sd_rows d) (scr_cells s1) = Inr cells"
    "s' = s1\<lparr>scr_cells := cells,
       scr_cursor := opt_or (sd_cursor d) (scr_cursor s1),
       scr_modes := opt_or (sd_modes d) (scr_modes s1),
       scr_title := opt_or (sd_title d) (scr_title s1),
       scr_bell := opt_or (sd_bell d) (scr_bell s1),
       scr_scrollback_len := opt_or (sd_scrollback_len d) (scr_scrollback_len s1),
       scr_clipboard := opt_or (sd_clipboard d) (scr_clipboard s1),
       scr_links := fold apply_link_change (sd_links d) (if base = 0 then [] else scr_links s1),
       scr_seq := target\<rparr>"
proof -
  have base: "\<not> (base \<noteq> 0 \<and> base \<noteq> scr_seq s)"
    using assms unfolding screen_apply_def by (metis sum.distinct(1))
  show thesis
    using assms [unfolded screen_apply_def if_not_P [OF base] and_then_Inr_iff sum.inject]
    by (elim exE conjE) (rule that; (rule sym)?; (assumption | simp))
qed

lemma screen_apply_safe:
  assumes "screen_apply s base target d = Inr s'" and "screen_wf s"
  shows "length (scr_cells s') = unat (scr_rows s') * unat (scr_cols s')
    \<and> check_bounds \<lparr>ts_cols = scr_cols s', ts_rows = scr_rows s'\<rparr> = Inr ()
    \<and> cells_legal (scr_cells s') \<and> check_title (scr_title s') = Inr ()
    \<and> check_clipboard (scr_clipboard s') = Inr () \<and> bt_wf (scr_links s')
    \<and> scr_seq s' = target"
  using assms(1)
proof (rule screen_applyE)
  fix s1 cells
  assume title: "opt_check check_title (sd_title d) = Inr ()"
    and clip: "opt_check check_clipboard (sd_clipboard d) = Inr ()"
    and s1: "apply_resize (sd_resize d) s = Inr s1"
    and cells: "fold_res (apply_patch (scr_rows s1) (scr_cols s1)) (sd_rows d) (scr_cells s1)
      = Inr cells"
    and s': "s' = s1\<lparr>scr_cells := cells,
       scr_cursor := opt_or (sd_cursor d) (scr_cursor s1),
       scr_modes := opt_or (sd_modes d) (scr_modes s1),
       scr_title := opt_or (sd_title d) (scr_title s1),
       scr_bell := opt_or (sd_bell d) (scr_bell s1),
       scr_scrollback_len := opt_or (sd_scrollback_len d) (scr_scrollback_len s1),
       scr_clipboard := opt_or (sd_clipboard d) (scr_clipboard s1),
       scr_links := fold apply_link_change (sd_links d) (if base = 0 then [] else scr_links s1),
       scr_seq := target\<rparr>"
  note r = apply_resize_legal [OF s1 assms(2)]
  have c: "cells_legal cells" "length cells = length (scr_cells s1)"
    using apply_patches_legal [OF cells] r by simp_all
  have l: "bt_wf (fold apply_link_change (sd_links d) (if base = 0 then [] else scr_links s1))"
    using r assms(2) by (intro apply_links_wf) (auto simp: screen_wf_def)
  have t: "check_title (opt_or (sd_title d) (scr_title s1)) = Inr ()"
      "check_clipboard (opt_or (sd_clipboard d) (scr_clipboard s1)) = Inr ()"
    using r assms(2) title clip
    by (auto simp: opt_or_def opt_check_def screen_wf_def screen_validD split: option.splits)
  show ?thesis
    using r c l t by (simp add: s')
qed

section \<open>Properties\<close>

text \<open>Two small screens: a blank one, and one with text, a repeated cell, a title and a link.\<close>

definition linked_cell :: cell where
  "linked_cell = cell_blank\<lparr>c_text := [65], c_attrs := BOLD, c_link := 7\<rparr>"

definition sample_screen :: screen_state where
  "sample_screen = (blank_state 1 3)\<lparr>scr_seq := 2, scr_cells := [linked_cell, linked_cell, cell_blank],
     scr_title := str_of ''sh'', scr_bell := 1, scr_links := [(7, str_of ''a:b'')]\<rparr>"

lemma screen_wf_blank: "rows \<le> 2048 \<Longrightarrow> cols \<le> 2048 \<Longrightarrow> unat rows * unat cols \<le> 262144 \<Longrightarrow>
    screen_wf (blank_state rows cols)"
  using screen_valid_blank [of cols rows]
  by (simp add: screen_wf_def check_bounds_ok_iff limit_defs) (simp add: blank_state_def)

lemma screen_wf_sample: "screen_wf sample_screen"
  by (simp add: screen_wf_def sample_screen_def blank_state_def screen_valid_def cursor_on_screen_def
      check_bounds_def check_title_ok_iff check_clipboard_def clipboard_default_def check_links_ok_iff
      check_link_uri_ok_iff cell_ok_def linked_cell_def cell_blank_def check_cell_text_ok_iff
      limit_defs len_utf8_def is_control_scalar_def str_of_def utf8_def utf8_scalar_def uri_byte_ok_def
      bt_has_def bt_get_def)

text \<open>C7: diffing loses nothing. The diff from one valid screen to another, applied to the first at
  its own sequence number, gives exactly the second, with the sequence number the frame names: every
  cell, the geometry, cursor, modes, title, bell, scrollback, clipboard and link table, resized or
  not.\<close>

theorem screen_diff_roundtrip:
  assumes "screen_wf s" and "screen_wf base"
  shows "screen_apply base (scr_seq base) target (screen_diff_from s base) = Inr (s\<lparr>scr_seq := target\<rparr>)"
  using assms by (rule screen_diff_apply)

theorem screen_diff_roundtrip_witness:
  "screen_apply (blank_state 1 3) 1 2 (screen_diff_from sample_screen (blank_state 1 3)) = Inr sample_screen"
proof -
  have "screen_wf (blank_state 1 3)"
    by (rule screen_wf_blank) simp_all
  from screen_diff_roundtrip [OF screen_wf_sample this, of 2] show ?thesis
    by (simp add: sample_screen_def blank_state_def)
qed

text \<open>A full state needs nothing from the receiver: applied to whatever the receiver holds, even a
  screen of another size that was never valid, it gives exactly the sender's screen.\<close>

theorem full_state_recovers:
  assumes "screen_wf s"
  shows "screen_apply held 0 target (screen_full_diff s) = Inr (s\<lparr>scr_seq := target\<rparr>)"
  using assms by (rule screen_full_diff_apply)

theorem full_state_recovers_witness:
  "screen_apply (blank_state 5 9) 0 2 (screen_full_diff sample_screen) = Inr sample_screen"
  using full_state_recovers [OF screen_wf_sample, of "blank_state 5 9" 2]
  by (simp add: sample_screen_def blank_state_def)

text \<open>C17: a diff from an untrusted peer cannot break the screen it is applied to. Whatever it carries,
  if it is accepted by a well-formed screen, the cell buffer has exactly the length its geometry
  says, neither side of the screen is over 2048 and the whole is at most 262144 cells, every cell's
  text is at most 32 bytes and the title at most 512, neither holds a C0 control, DEL or a C1
  control, a copied text is at most 256 KiB, and the screen carries the target's number.\<close>

theorem accepted_diff_is_safe:
  assumes "screen_apply s base target d = Inr s'" and "screen_wf s"
  shows "length (scr_cells s') = unat (scr_rows s') * unat (scr_cols s')
    \<and> scr_rows s' \<le> 2048 \<and> scr_cols s' \<le> 2048
    \<and> unat (scr_rows s') * unat (scr_cols s') \<le> 262144
    \<and> (\<forall>c\<in>set (scr_cells s'). str_len (c_text c) \<le> 32
         \<and> (\<forall>ch\<in>set (c_text c). 32 \<le> ch \<and> (ch < 127 \<or> 160 \<le> ch)))
    \<and> str_len (scr_title s') \<le> 512
    \<and> (\<forall>ch\<in>set (scr_title s'). 32 \<le> ch \<and> (ch < 127 \<or> 160 \<le> ch))
    \<and> (\<forall>copy. cb_copy (scr_clipboard s') = Some copy \<longrightarrow> str_len (cc_text copy) \<le> 262144)
    \<and> scr_seq s' = target"
proof -
  have "32 \<le> ch \<and> (ch < 127 \<or> 160 \<le> ch)" if "\<not> is_control_scalar ch" for ch
    using that by (auto simp: is_control_scalar_def)
  moreover have "str_len (cc_text copy) \<le> 262144"
    if "check_clipboard (scr_clipboard s') = Inr ()" "cb_copy (scr_clipboard s') = Some copy" for copy
    using that by (auto simp: check_clipboard_def limit_defs split: if_splits)
  ultimately show ?thesis
    using screen_apply_safe [OF assms]
    by (simp add: check_bounds_ok_iff check_cell_text_ok_iff check_title_ok_iff limit_defs
        cells_legal_def list_all_iff)
qed

theorem accepted_diff_is_safe_witness:
  "length (scr_cells sample_screen) = unat (scr_rows sample_screen) * unat (scr_cols sample_screen)
    \<and> str_len (scr_title sample_screen) \<le> 512"
proof -
  have wf: "screen_wf (blank_state 1 3)"
    by (rule screen_wf_blank) simp_all
  have "screen_apply (blank_state 1 3) (scr_seq (blank_state 1 3)) 2
      (screen_diff_from sample_screen (blank_state 1 3)) = Inr (sample_screen\<lparr>scr_seq := 2\<rparr>)"
    by (rule screen_diff_apply [OF screen_wf_sample wf])
  from accepted_diff_is_safe [OF this wf] show ?thesis
    by simp
qed

end
