(* ===== verification/Sync_Input.thy ===== *)
theory Sync_Input
  imports Proto_Types
begin

text \<open>
  The client-to-host direction: \<open>crates/oxutrm-sync/src/input.rs\<close>. The state is the input the host
  has not acknowledged and the size the client wants; a diff drops consumed bytes from the front and
  then appends. The lemmas give the round trip of a diff, that the overlap it is built on is the
  largest one, and that a diff against an unacknowledged base repeats what that base lacks.
\<close>

record input_state =
  in_seq :: u64
  in_pending :: bytes
  in_size :: term_size

definition input_append :: "input_state \<Rightarrow> bytes \<Rightarrow> term_size \<Rightarrow> input_state" where
  "input_append s bs sz = \<lparr>in_seq = in_seq s, in_pending = in_pending s @ bs, in_size = sz\<rparr>"

definition input_consume :: "input_state \<Rightarrow> nat \<Rightarrow> input_state" where
  "input_consume s n =
    (let n = min n (length (in_pending s))
     in \<lparr>in_seq = in_seq s, in_pending = drop n (in_pending s), in_size = in_size s\<rparr>)"

record input_diff =
  id_consumed :: u64
  id_appended :: bytes
  id_size :: "term_size option"

definition input_validate :: "input_state \<Rightarrow> apply_error + unit" where
  "input_validate s = (if in_seq s = 0 then Inl SeqZero else Inr ())"

text \<open>The loop over \<open>k\<close> from the largest candidate down; \<open>k = 0\<close> always matches.\<close>

fun overlap_down :: "bytes \<Rightarrow> bytes \<Rightarrow> nat \<Rightarrow> nat" where
  "overlap_down base s 0 = 0"
| "overlap_down base s (Suc k) =
     (if drop (length base - Suc k) base = take (Suc k) s then Suc k else overlap_down base s k)"

definition input_overlap :: "bytes \<Rightarrow> bytes \<Rightarrow> nat" where
  "input_overlap base s = overlap_down base s (min (length base) (length s))"

definition input_diff_from :: "input_state \<Rightarrow> input_state \<Rightarrow> input_diff" where
  "input_diff_from s base =
    (let ov = input_overlap (in_pending base) (in_pending s)
     in \<lparr>id_consumed = of_nat (length (in_pending base) - ov),
         id_appended = drop ov (in_pending s),
         id_size = (if in_size s \<noteq> in_size base then Some (in_size s) else None)\<rparr>)"

definition input_full_diff :: "input_state \<Rightarrow> input_diff" where
  "input_full_diff s =
    \<lparr>id_consumed = - 1, id_appended = in_pending s, id_size = Some (in_size s)\<rparr>"

definition input_apply ::
  "input_state \<Rightarrow> u64 \<Rightarrow> u64 \<Rightarrow> input_diff \<Rightarrow> apply_error + input_state" where
  "input_apply s base target d =
    (if base \<noteq> 0 \<and> base \<noteq> in_seq s then Inl (BaseMismatch base (in_seq s))
     else
       let n = min (unat (id_consumed d)) (length (in_pending s))
       in Inr \<lparr>in_seq = target,
               in_pending = drop n (in_pending s) @ id_appended d,
               in_size = (case id_size d of Some sz \<Rightarrow> sz | None \<Rightarrow> in_size s)\<rparr>)"

section \<open>The overlap\<close>

lemma overlap_down_le: "overlap_down base s k \<le> k"
  by (induction base s k rule: overlap_down.induct) auto

lemma overlap_down_match:
  "drop (length base - overlap_down base s k) base = take (overlap_down base s k) s"
  by (induction base s k rule: overlap_down.induct) auto

lemma overlap_down_greatest:
  "j \<le> k \<Longrightarrow> drop (length base - j) base = take j s \<Longrightarrow> j \<le> overlap_down base s k"
  by (induction base s k rule: overlap_down.induct) (auto simp: le_Suc_eq)

lemma input_overlap_le:
  "input_overlap base s \<le> length base" "input_overlap base s \<le> length s"
  using overlap_down_le [of base s "min (length base) (length s)"]
  by (simp_all add: input_overlap_def)

lemma input_overlap_match:
  "drop (length base - input_overlap base s) base = take (input_overlap base s) s"
  by (simp add: input_overlap_def overlap_down_match)

lemma input_overlap_greatest:
  assumes "drop (length base - j) base = take j s" and "j \<le> length base" and "j \<le> length s"
  shows "j \<le> input_overlap base s"
  using assms by (simp add: input_overlap_def overlap_down_greatest)

section \<open>Round trips\<close>

text \<open>A vector's length fits the 64-bit \<open>usize\<close>, and sequence zero is the sentinel.\<close>

definition input_wf :: "input_state \<Rightarrow> bool" where
  "input_wf s \<longleftrightarrow> in_seq s \<noteq> 0 \<and> length (in_pending s) < 2 ^ 64"

lemma input_diff_apply:
  assumes "input_wf base"
  shows "input_apply base (in_seq base) target (input_diff_from s base) = Inr (s\<lparr>in_seq := target\<rparr>)"
proof -
  let ?b = "in_pending base" and ?ov = "input_overlap (in_pending base) (in_pending s)"
  have "length ?b - ?ov < 2 ^ 64"
    using assms by (simp add: input_wf_def less_imp_diff_less)
  then have "unat (of_nat (length ?b - ?ov) :: u64) = length ?b - ?ov"
    by (rule unat_of_nat_64)
  moreover have "drop (length ?b - ?ov) ?b @ drop ?ov (in_pending s) = in_pending s"
    by (simp add: input_overlap_match)
  ultimately show ?thesis
    by (simp add: input_apply_def input_diff_from_def Let_def del: of_nat_diff)
qed

lemma input_full_diff_apply:
  assumes "input_wf held"
  shows "input_apply held 0 target (input_full_diff s) = Inr (s\<lparr>in_seq := target\<rparr>)"
  using assms
  by (simp add: input_apply_def input_full_diff_def Let_def unat_max_word input_wf_def)

lemma input_apply_wf:
  assumes "input_apply s base target d = Inr s'" and "target \<noteq> 0"
    and "length (in_pending s) + length (id_appended d) < 2 ^ 64"
  shows "input_wf s'"
  using assms by (auto simp: input_apply_def input_wf_def Let_def split: if_splits)

section \<open>Properties\<close>

text \<open>The diff of two input states drops from the front what the newer one no longer has and
  then appends what it has beyond: applied to the base it gives exactly the newer state, and the
  overlap it is built on is the longest suffix of the base's bytes that is a prefix of the newer
  ones, so no byte is sent again that the base already holds in place.\<close>

theorem input_diff_roundtrip:
  assumes "input_wf base"
  shows "input_apply base (in_seq base) target (input_diff_from s base) = Inr (s\<lparr>in_seq := target\<rparr>)
    \<and> input_overlap (in_pending base) (in_pending s) =
        Max {k. k \<le> length (in_pending base) \<and> k \<le> length (in_pending s)
              \<and> drop (length (in_pending base) - k) (in_pending base) = take k (in_pending s)}"
proof -
  let ?K = "{k. k \<le> length (in_pending base) \<and> k \<le> length (in_pending s)
      \<and> drop (length (in_pending base) - k) (in_pending base) = take k (in_pending s)}"
  have "Max ?K = input_overlap (in_pending base) (in_pending s)"
    by (rule Max_eqI)
      (auto intro: input_overlap_greatest simp: input_overlap_le input_overlap_match)
  with input_diff_apply [OF assms] show ?thesis by simp
qed

theorem input_diff_roundtrip_witness:
  "input_apply \<lparr>in_seq = 4, in_pending = [1, 2, 3], in_size = \<lparr>ts_cols = 80, ts_rows = 24\<rparr>\<rparr> 4 5
      (input_diff_from \<lparr>in_seq = 5, in_pending = [3, 9], in_size = \<lparr>ts_cols = 80, ts_rows = 24\<rparr>\<rparr>
        \<lparr>in_seq = 4, in_pending = [1, 2, 3], in_size = \<lparr>ts_cols = 80, ts_rows = 24\<rparr>\<rparr>)
    = Inr \<lparr>in_seq = 5, in_pending = [3, 9], in_size = \<lparr>ts_cols = 80, ts_rows = 24\<rparr>\<rparr>"
  using input_diff_roundtrip [of "\<lparr>in_seq = 4, in_pending = [1, 2, 3],
      in_size = \<lparr>ts_cols = 80, ts_rows = 24\<rparr>\<rparr>" 5 "\<lparr>in_seq = 5, in_pending = [3, 9],
      in_size = \<lparr>ts_cols = 80, ts_rows = 24\<rparr>\<rparr>"]
  by (simp add: input_wf_def)

end
