(* ===== verification/Sync_Channel.thy ===== *)
theory Sync_Channel
  imports Sync_Screen Sync_Input
begin

text \<open>
  The two ends of one replicated value: \<open>crates/oxutrm-sync/src/channel.rs\<close>, generic over the
  \<open>SyncState\<close> trait of \<open>lib.rs\<close>, which is the record \<open>sync_ops\<close>; the datagram \<open>Frame\<close> of
  \<open>crates/oxutrm-proto/src/frame.rs\<close>. The encoder postcard and the compressor zstd are third-party
  crates: the record \<open>codec\<close> is a parameter of every operation that uses them.

  The protocol is a step relation over a sender, a receiver, every frame ever put on the wire and
  every acknowledgement ever emitted. Delivery picks any frame ever sent, any number of times and in
  any order, so loss, duplication and reordering are all runs of it.
\<close>

definition STATE_RING :: nat where "STATE_RING = 32"
definition MAX_DECOMPRESSED :: nat where "MAX_DECOMPRESSED = 64 * 1024 * 1024"
definition FLAG_ZSTD :: u8 where "FLAG_ZSTD = 1"

record frame =
  f_my_state :: u64
  f_from_state :: u64
  f_ack_state :: u64
  f_flags :: u8
  f_payload :: bytes

text \<open>The trait \<open>SyncState\<close>, method by method.\<close>

record ('s, 'd) sync_ops =
  so_seq :: "'s \<Rightarrow> u64"
  so_set_seq :: "'s \<Rightarrow> u64 \<Rightarrow> 's"
  so_validate_transition :: "'s \<Rightarrow> 's \<Rightarrow> apply_error + unit"
  so_diff_from :: "'s \<Rightarrow> 's \<Rightarrow> 'd"
  so_apply :: "'s \<Rightarrow> u64 \<Rightarrow> u64 \<Rightarrow> 'd \<Rightarrow> apply_error + 's"
  so_full_diff :: "'s \<Rightarrow> 'd"

definition screen_ops :: "(screen_state, screen_diff) sync_ops" where
  "screen_ops = \<lparr>so_seq = scr_seq, so_set_seq = (\<lambda>s n. s\<lparr>scr_seq := n\<rparr>),
     so_validate_transition = validate_transition, so_diff_from = screen_diff_from,
     so_apply = screen_apply, so_full_diff = screen_full_diff\<rparr>"

definition input_ops :: "(input_state, input_diff) sync_ops" where
  "input_ops = \<lparr>so_seq = in_seq, so_set_seq = (\<lambda>s n. s\<lparr>in_seq := n\<rparr>),
     so_validate_transition = (\<lambda>s _. input_validate s), so_diff_from = input_diff_from,
     so_apply = input_apply, so_full_diff = input_full_diff\<rparr>"

text \<open>\<open>postcard::to_stdvec\<close>, \<open>postcard::from_bytes\<close>, \<open>ruzstd\<close>'s \<open>compress_to_vec\<close> and reading at most
  \<open>n\<close> bytes out of its streaming decoder.\<close>

record 'd codec =
  to_stdvec :: "'d \<Rightarrow> string + bytes"
  from_bytes :: "bytes \<Rightarrow> string + 'd"
  compress_to_vec :: "bytes \<Rightarrow> bytes"
  decode_take :: "nat \<Rightarrow> bytes \<Rightarrow> string + bytes"

definition map_err :: "('e \<Rightarrow> 'f) \<Rightarrow> 'e + 'a \<Rightarrow> 'f + 'a" where
  "map_err f r = (case r of Inl e \<Rightarrow> Inl (f e) | Inr x \<Rightarrow> Inr x)"

section \<open>The sender\<close>

record 's sender =
  snd_ring :: "'s list"
  snd_peer_saw :: u64
  snd_last_ack_sent :: u64

definition sender_new :: "'s \<Rightarrow> 's sender" where
  "sender_new initial = \<lparr>snd_ring = [initial], snd_peer_saw = 0, snd_last_ack_sent = 0\<rparr>"

definition sender_current :: "'s sender \<Rightarrow> 's" where
  "sender_current t = last (snd_ring t)"

text \<open>\<open>while ring.len() > n { ring.pop_front(); }\<close>\<close>

function cap_ring :: "nat \<Rightarrow> 'a list \<Rightarrow> 'a list" where
  "cap_ring n xs = (if length xs > n then cap_ring n (tl xs) else xs)"
  by pat_completeness auto
termination
  by (relation "measure (\<lambda>(n, xs). length xs)") auto

declare cap_ring.simps [simp del]

definition sender_update :: "('s, 'd) sync_ops \<Rightarrow> 's sender \<Rightarrow> 's \<Rightarrow> 's sender" where
  "sender_update ops t next =
    (let seq = sat_add (so_seq ops (sender_current t)) 1
     in t\<lparr>snd_ring := cap_ring STATE_RING (snd_ring t @ [so_set_seq ops next seq])\<rparr>)"

definition on_ack :: "'s sender \<Rightarrow> u64 \<Rightarrow> 's sender" where
  "on_ack t peer_saw = t\<lparr>snd_peer_saw := max (snd_peer_saw t) peer_saw\<rparr>"

definition acked :: "('s, 'd) sync_ops \<Rightarrow> 's sender \<Rightarrow> 's option" where
  "acked ops t =
    (if snd_peer_saw t = 0 then None
     else find (\<lambda>s. so_seq ops s = snd_peer_saw t) (snd_ring t))"

definition pack_payload :: "'d codec \<Rightarrow> bytes \<Rightarrow> bytes \<times> u8" where
  "pack_payload cdc raw =
    (let compressed = compress_to_vec cdc raw
     in if length compressed < length raw then (compressed, FLAG_ZSTD) else (raw, 0))"

definition make_frame ::
  "('s, 'd) sync_ops \<Rightarrow> 'd codec \<Rightarrow> 's sender \<Rightarrow> u64 \<Rightarrow> apply_error + (frame option \<times> 's sender)"
  where
  "make_frame ops cdc t ack_state =
    (let current_seq = so_seq ops (sender_current t);
         state_moved = snd_peer_saw t \<noteq> current_seq;
         ack_owed = ack_state > snd_last_ack_sent t
     in if \<not> state_moved \<and> \<not> ack_owed then Inr (None, t)
        else
          let current = sender_current t;
              diff_from_state =
                (case find (\<lambda>s. so_seq ops s = snd_peer_saw t) (snd_ring t) of
                   Some base \<Rightarrow> (so_diff_from ops current base, so_seq ops base)
                 | None \<Rightarrow> (so_full_diff ops current, 0))
          in and_then (map_err (\<lambda>e. Decode (''encoding diff: '' @ e))
               (to_stdvec cdc (fst diff_from_state))) (\<lambda>raw.
             Inr (Some \<lparr>f_my_state = current_seq, f_from_state = snd diff_from_state,
                        f_ack_state = ack_state, f_flags = snd (pack_payload cdc raw),
                        f_payload = fst (pack_payload cdc raw)\<rparr>,
                  t\<lparr>snd_last_ack_sent := ack_state\<rparr>)))"

section \<open>The receiver\<close>

record 's receiver =
  rcv_ring :: "'s list"
  rcv_peer_ack :: u64
  rcv_applied_any :: bool
  rcv_diffs_applied :: u64
  rcv_full_states_applied :: u64

definition receiver_new :: "'s \<Rightarrow> 's receiver" where
  "receiver_new initial = \<lparr>rcv_ring = [initial], rcv_peer_ack = 0, rcv_applied_any = False,
     rcv_diffs_applied = 0, rcv_full_states_applied = 0\<rparr>"

definition rcv_state :: "'s receiver \<Rightarrow> 's" where
  "rcv_state r = last (rcv_ring r)"

definition rcv_ack :: "('s, 'd) sync_ops \<Rightarrow> 's receiver \<Rightarrow> u64" where
  "rcv_ack ops r = (if rcv_applied_any r then so_seq ops (rcv_state r) else 0)"

definition decompress :: "'d codec \<Rightarrow> bytes \<Rightarrow> apply_error + bytes" where
  "decompress cdc payload =
    and_then (map_err (\<lambda>e. Decode (''zstd: '' @ e))
      (decode_take cdc (MAX_DECOMPRESSED + 1) payload)) (\<lambda>out.
    if length out > MAX_DECOMPRESSED
    then Inl (Decode ''compressed payload expands beyond 67108864 bytes'')
    else Inr out)"

definition decode_payload :: "'d codec \<Rightarrow> frame \<Rightarrow> apply_error + 'd" where
  "decode_payload cdc f =
    and_then (if f_flags f AND FLAG_ZSTD \<noteq> 0 then decompress cdc (f_payload f)
              else Inr (f_payload f)) (\<lambda>payload.
    map_err (\<lambda>e. Decode (''decoding diff: '' @ e)) (from_bytes cdc payload))"

definition is_stale :: "('s, 'd) sync_ops \<Rightarrow> 's receiver \<Rightarrow> frame \<Rightarrow> bool" where
  "is_stale ops r f =
    (if f_from_state f = 0 \<and> \<not> rcv_applied_any r
     then f_my_state f < so_seq ops (rcv_state r)
     else f_my_state f \<le> so_seq ops (rcv_state r))"

definition frame_base :: "('s, 'd) sync_ops \<Rightarrow> 's receiver \<Rightarrow> frame \<Rightarrow> 's" where
  "frame_base ops r f =
    (case find (\<lambda>s. so_seq ops s = f_from_state f) (rcv_ring r) of
       Some base \<Rightarrow> if f_from_state f \<noteq> 0 then base else rcv_state r
     | None \<Rightarrow> rcv_state r)"

definition commit :: "('s, 'd) sync_ops \<Rightarrow> 's receiver \<Rightarrow> frame \<Rightarrow> 's \<Rightarrow> 's receiver" where
  "commit ops r f next =
    (let r1 = (if f_from_state f = 0
               then r\<lparr>rcv_full_states_applied := sat_add (rcv_full_states_applied r) 1\<rparr>
               else r\<lparr>rcv_diffs_applied := sat_add (rcv_diffs_applied r) 1\<rparr>);
         ring0 = (if \<not> rcv_applied_any r then [] else rcv_ring r);
         ring1 = dropWhile (\<lambda>s. so_seq ops s < f_from_state f) ring0
     in r1\<lparr>rcv_ring := cap_ring (STATE_RING + 1) (ring1 @ [next]), rcv_applied_any := True\<rparr>)"

definition on_frame ::
  "('s, 'd) sync_ops \<Rightarrow> 'd codec \<Rightarrow> 's receiver \<Rightarrow> frame \<Rightarrow> (apply_error + bool) \<times> 's receiver" where
  "on_frame ops cdc r f =
    (let r1 = r\<lparr>rcv_peer_ack := max (rcv_peer_ack r) (f_ack_state f)\<rparr>
     in if is_stale ops r1 f then (Inr False, r1)
        else case and_then (decode_payload cdc f) (\<lambda>diff.
               and_then (so_apply ops (frame_base ops r1 f) (f_from_state f) (f_my_state f) diff)
                 (\<lambda>next. and_then (so_validate_transition ops next (rcv_state r1)) (\<lambda>_.
               Inr next)))
             of Inl e \<Rightarrow> (Inl e, r1)
              | Inr next \<Rightarrow> (Inr True, commit ops r1 f next))"

section \<open>The protocol\<close>

text \<open>\<open>ls_hist\<close> records every state the sender has published, oldest first; it is there for the
  statements only.\<close>

record 's link_sys =
  ls_sender :: "'s sender"
  ls_receiver :: "'s receiver"
  ls_frames :: "frame list"
  ls_acks :: "u64 list"
  ls_hist :: "'s list"

definition frame_fits :: "'d codec \<Rightarrow> frame \<Rightarrow> bool" where
  "frame_fits cdc f \<longleftrightarrow>
    (f_flags f AND FLAG_ZSTD \<noteq> 0 \<longrightarrow> is_ok (decompress cdc (f_payload f)))"

definition link_init :: "'s \<Rightarrow> 's \<Rightarrow> 's link_sys" where
  "link_init s0 r0 = \<lparr>ls_sender = sender_new s0, ls_receiver = receiver_new r0,
     ls_frames = [], ls_acks = [], ls_hist = [s0]\<rparr>"

text \<open>\<open>ok cur next\<close> is what the producer of the states promises of each new one. A frame whose payload
  would expand past the receiver's cap is not put on the wire, and the 64-bit counter does not run
  out.\<close>

inductive link_step ::
  "('s, 'd) sync_ops \<Rightarrow> 'd codec \<Rightarrow> ('s \<Rightarrow> 's \<Rightarrow> bool) \<Rightarrow> 's link_sys \<Rightarrow> 's link_sys \<Rightarrow> bool"
  for ops cdc ok where
  update: "ok (sender_current (ls_sender S)) next \<Longrightarrow>
    so_seq ops (sender_current (ls_sender S)) \<noteq> - 1 \<Longrightarrow>
    t = sender_update ops (ls_sender S) next \<Longrightarrow>
    link_step ops cdc ok S
      (S\<lparr>ls_sender := t, ls_hist := ls_hist S @ [sender_current t]\<rparr>)"
| send: "make_frame ops cdc (ls_sender S) a = Inr (Some f, t) \<Longrightarrow> frame_fits cdc f \<Longrightarrow>
    link_step ops cdc ok S (S\<lparr>ls_sender := t, ls_frames := f # ls_frames S\<rparr>)"
| deliver: "f \<in> set (ls_frames S) \<Longrightarrow>
    link_step ops cdc ok S (S\<lparr>ls_receiver := snd (on_frame ops cdc (ls_receiver S) f)\<rparr>)"
| emit_ack: "link_step ops cdc ok S (S\<lparr>ls_acks := rcv_ack ops (ls_receiver S) # ls_acks S\<rparr>)"
| hear_ack: "a \<in> set (ls_acks S) \<Longrightarrow>
    link_step ops cdc ok S (S\<lparr>ls_sender := on_ack (ls_sender S) a\<rparr>)"

inductive link_reach ::
  "('s, 'd) sync_ops \<Rightarrow> 'd codec \<Rightarrow> ('s \<Rightarrow> 's \<Rightarrow> bool) \<Rightarrow> 's \<Rightarrow> 's \<Rightarrow> 's link_sys \<Rightarrow> bool"
  for ops cdc ok s0 r0 where
  start: "link_reach ops cdc ok s0 r0 (link_init s0 r0)"
| step: "link_reach ops cdc ok s0 r0 S \<Longrightarrow> link_step ops cdc ok S S' \<Longrightarrow>
    link_reach ops cdc ok s0 r0 S'"

text \<open>What the two crates document: decoding inverts encoding, and reading \<open>n\<close> bytes of a compressed
  buffer gives the first \<open>n\<close> bytes that went in.\<close>

definition codec_ok :: "'d codec \<Rightarrow> bool" where
  "codec_ok cdc \<longleftrightarrow>
    (\<forall>d b. to_stdvec cdc d = Inr b \<longrightarrow> from_bytes cdc b = Inr d)
    \<and> (\<forall>n b. decode_take cdc n (compress_to_vec cdc b) = Inr (take n b))"

section \<open>Lemmas on the two ends\<close>

lemma cap_ring_eq: "cap_ring n xs = drop (length xs - n) xs"
proof (induction n xs rule: cap_ring.induct)
  case (1 n xs)
  then show ?case
    by (subst cap_ring.simps) (auto simp: drop_Suc [symmetric] Suc_diff_Suc drop_tl)
qed

lemma last_cap_ring_snoc: "0 < n \<Longrightarrow> last (cap_ring n (xs @ [x])) = x"
  by (simp add: cap_ring_eq)

lemma cap_ring_snoc_cap: "0 < n \<Longrightarrow> cap_ring n (cap_ring n xs @ [x]) = cap_ring n (xs @ [x])"
  by (cases "length xs < n") (auto simp: cap_ring_eq not_less Suc_diff_le)

lemma length_cap_ring: "length (cap_ring n xs) \<le> n"
  by (simp add: cap_ring_eq)

lemma sender_update_current:
  "sender_current (sender_update ops t next) =
    so_set_seq ops next (sat_add (so_seq ops (sender_current t)) 1)"
  by (simp add: sender_update_def sender_current_def [of "snd_ring_update _ _"] Let_def
      last_cap_ring_snoc STATE_RING_def)

lemma sender_ring_nonempty: "snd_ring (sender_update ops t next) \<noteq> []"
  by (simp add: sender_update_def Let_def cap_ring_eq STATE_RING_def)

lemma commit_state: "rcv_state (commit ops r f next) = next"
  by (simp add: commit_def rcv_state_def Let_def last_cap_ring_snoc)

lemma commit_applied [simp]: "rcv_applied_any (commit ops r f next) = True"
  by (simp add: commit_def Let_def)

lemma commit_ring_length: "length (rcv_ring (commit ops r f next)) \<le> STATE_RING + 1"
  by (simp add: commit_def Let_def length_cap_ring)

lemma commit_peer_ack [simp]: "rcv_peer_ack (commit ops r f next) = rcv_peer_ack r"
  by (simp add: commit_def Let_def)

lemma rcv_state_peer_ack [simp]: "rcv_state (r\<lparr>rcv_peer_ack := a\<rparr>) = rcv_state r"
  by (simp add: rcv_state_def)

lemma frame_base_peer_ack [simp]: "frame_base ops (r\<lparr>rcv_peer_ack := a\<rparr>) f = frame_base ops r f"
  by (simp add: frame_base_def split: option.split)

lemma is_stale_peer_ack [simp]: "is_stale ops (r\<lparr>rcv_peer_ack := a\<rparr>) f = is_stale ops r f"
  by (simp add: is_stale_def)

text \<open>The three outcomes of a frame: stale, refused, applied.\<close>

lemma on_frame_cases:
  obtains (stale) "is_stale ops r f"
      "on_frame ops cdc r f = (Inr False, r\<lparr>rcv_peer_ack := max (rcv_peer_ack r) (f_ack_state f)\<rparr>)"
  | (refused) e where "\<not> is_stale ops r f"
      "on_frame ops cdc r f = (Inl e, r\<lparr>rcv_peer_ack := max (rcv_peer_ack r) (f_ack_state f)\<rparr>)"
  | (applied) d s where "\<not> is_stale ops r f" "decode_payload cdc f = Inr d"
      "so_apply ops (frame_base ops r f) (f_from_state f) (f_my_state f) d = Inr s"
      "so_validate_transition ops s (rcv_state r) = Inr ()"
      "on_frame ops cdc r f = (Inr True,
         commit ops (r\<lparr>rcv_peer_ack := max (rcv_peer_ack r) (f_ack_state f)\<rparr>) f s)"
proof (cases "is_stale ops r f")
  case True
  then show thesis by (intro stale) (simp_all add: on_frame_def Let_def)
next
  case False
  show thesis
  proof (cases "and_then (decode_payload cdc f) (\<lambda>diff.
      and_then (so_apply ops (frame_base ops r f) (f_from_state f) (f_my_state f) diff)
        (\<lambda>next. and_then (so_validate_transition ops next (rcv_state r)) (\<lambda>_. Inr next)))")
    case (Inl e)
    with False show thesis by (intro refused) (simp_all add: on_frame_def Let_def)
  next
    case (Inr s)
    then obtain d where "decode_payload cdc f = Inr d"
        "so_apply ops (frame_base ops r f) (f_from_state f) (f_my_state f) d = Inr s"
        "so_validate_transition ops s (rcv_state r) = Inr ()"
      by (auto simp: and_then_Inr_iff)
    with False Inr show thesis by (intro applied) (simp_all add: on_frame_def Let_def)
  qed
qed

lemma pack_payload_decodes:
  assumes "codec_ok cdc" and "to_stdvec cdc d = Inr raw"
    and "f_flags f = snd (pack_payload cdc raw)" and "f_payload f = fst (pack_payload cdc raw)"
    and "frame_fits cdc f"
  shows "decode_payload cdc f = Inr d"
proof -
  have d: "from_bytes cdc raw = Inr d"
    using assms(1,2) by (auto simp: codec_ok_def)
  show ?thesis
  proof (cases "length (compress_to_vec cdc raw) < length raw")
    case True
    with assms have f: "f_flags f AND FLAG_ZSTD \<noteq> 0" "f_payload f = compress_to_vec cdc raw"
      by (simp_all add: pack_payload_def Let_def FLAG_ZSTD_def)
    have "decode_take cdc (MAX_DECOMPRESSED + 1) (compress_to_vec cdc raw)
        = Inr (take (MAX_DECOMPRESSED + 1) raw)"
      using assms(1) by (simp add: codec_ok_def)
    then have "decompress cdc (f_payload f) = Inr raw"
      using assms(5) f by (auto simp: frame_fits_def decompress_def map_err_def split: if_splits)
    with f(1) d show ?thesis
      by (simp add: decode_payload_def map_err_def)
  next
    case False
    with assms d show ?thesis
      by (simp add: decode_payload_def map_err_def pack_payload_def Let_def)
  qed
qed

lemma make_frame_SomeD:
  assumes "make_frame ops cdc t a = Inr (Some f, t')"
  obtains d raw where "to_stdvec cdc d = Inr raw"
    "f_flags f = snd (pack_payload cdc raw)" "f_payload f = fst (pack_payload cdc raw)"
    "f_my_state f = so_seq ops (sender_current t)" "f_ack_state f = a"
    "t' = t\<lparr>snd_last_ack_sent := a\<rparr>"
    "case find (\<lambda>s. so_seq ops s = snd_peer_saw t) (snd_ring t) of
       Some b \<Rightarrow> d = so_diff_from ops (sender_current t) b \<and> f_from_state f = so_seq ops b
     | None \<Rightarrow> d = so_full_diff ops (sender_current t) \<and> f_from_state f = 0"
proof -
  let ?d = "case find (\<lambda>s. so_seq ops s = snd_peer_saw t) (snd_ring t) of
      Some b \<Rightarrow> (so_diff_from ops (sender_current t) b, so_seq ops b)
    | None \<Rightarrow> (so_full_diff ops (sender_current t), 0)"
  obtain raw where "to_stdvec cdc (fst ?d) = Inr raw"
      "f = \<lparr>f_my_state = so_seq ops (sender_current t), f_from_state = snd ?d, f_ack_state = a,
        f_flags = snd (pack_payload cdc raw), f_payload = fst (pack_payload cdc raw)\<rparr>"
      "t' = t\<lparr>snd_last_ack_sent := a\<rparr>"
    using assms
    by (auto simp: make_frame_def Let_def and_then_Inr_iff map_err_def split: if_splits sum.splits)
  then show thesis
    by (intro that [of "fst ?d" raw]) (auto split: option.splits)
qed

lemma make_frame_NoneD:
  assumes "make_frame ops cdc t a = Inr (None, t')"
  shows "snd_peer_saw t = so_seq ops (sender_current t)" "a \<le> snd_last_ack_sent t" "t' = t"
  using assms
  by (auto simp: make_frame_def Let_def and_then_Inr_iff not_less split: if_splits)

text \<open>Capping a ring keeps every entry close enough to its newest.\<close>

lemma sorted_gap:
  fixes g :: "'a \<Rightarrow> u64"
  assumes "sorted_wrt (<) (map g xs)" and "i + k < length xs"
  shows "unat (g (xs ! i)) + k \<le> unat (g (xs ! (i + k)))"
  using assms(2)
proof (induction k)
  case (Suc k)
  have "g (xs ! (i + k)) < g (xs ! Suc (i + k))"
    using assms(1) Suc.prems by (simp add: sorted_wrt_iff_nth_less)
  with Suc show ?case
    by (simp add: word_less_nat_alt)
qed simp

lemma cap_ring_keeps:
  fixes g :: "'a \<Rightarrow> u64"
  assumes "sorted_wrt (<) (map g xs)" and "x \<in> set xs" and "unat (g (last xs)) < unat (g x) + n"
  shows "x \<in> set (cap_ring n xs)"
proof -
  obtain i where i: "i < length xs" "x = xs ! i"
    using assms(2) by (metis in_set_conv_nth)
  have "length xs - n \<le> i"
  proof (rule ccontr)
    assume far: "\<not> length xs - n \<le> i"
    have "unat (g x) + (length xs - 1 - i) \<le> unat (g (xs ! (i + (length xs - 1 - i))))"
      unfolding i(2) by (rule sorted_gap [OF assms(1)]) (use i in simp)
    also have "xs ! (i + (length xs - 1 - i)) = last xs"
      using i by (cases xs) (simp_all add: last_conv_nth)
    finally show False
      using assms(3) far i by simp
  qed
  then have "cap_ring n xs ! (i - (length xs - n)) = x" "i - (length xs - n) < length (cap_ring n xs)"
    using i by (simp_all add: cap_ring_eq)
  then show ?thesis by (metis nth_mem)
qed

lemma sorted_le_last:
  fixes g :: "'a \<Rightarrow> u64"
  assumes "sorted_wrt (<) (map g xs)" and "x \<in> set xs"
  shows "g x \<le> g (last xs)"
  using assms by (cases xs rule: rev_cases) (auto simp: sorted_wrt_append)

lemma sorted_cap_ring: "sorted_wrt R (map g xs) \<Longrightarrow> sorted_wrt R (map g (cap_ring n xs))"
  by (simp add: cap_ring_eq drop_map [symmetric] sorted_wrt_drop)

lemma set_cap_ring: "set (cap_ring n xs) \<subseteq> set xs"
  by (simp add: cap_ring_eq set_drop_subset)

lemma sorted_dropWhile: "sorted_wrt R (map g xs) \<Longrightarrow> sorted_wrt R (map g (dropWhile P xs))"
  by (metis dropWhile_eq_drop drop_map sorted_wrt_drop)

lemma dropWhile_keeps:
  fixes g :: "'a \<Rightarrow> u64"
  assumes "x \<in> set xs" and "\<not> g x < a"
  shows "x \<in> set (dropWhile (\<lambda>s. g s < a) xs)"
  using assms by (induction xs) auto

section \<open>Properties\<close>

text \<open>C18: a frame that is not applied changes nothing but the acknowledgement it carried: a refused
  frame (undecodable, out of bounds, against a base that is gone, illegal text, a counter going
  backwards) and a stale one leave the state, the ring of bases, the acknowledgement the receiver
  sends and its counters as they were.\<close>

theorem unapplied_frame_changes_nothing:
  assumes "fst (on_frame ops cdc r f) \<noteq> Inr True"
  shows "snd (on_frame ops cdc r f) = r\<lparr>rcv_peer_ack := max (rcv_peer_ack r) (f_ack_state f)\<rparr>"
  by (cases rule: on_frame_cases [of ops r f cdc]) (use assms in simp_all)

definition failing_codec :: "'d codec" where
  "failing_codec = \<lparr>to_stdvec = (\<lambda>_. Inl ''no''), from_bytes = (\<lambda>_. Inl ''no''),
     compress_to_vec = (\<lambda>b. b), decode_take = (\<lambda>n b. Inr (take n b))\<rparr>"

theorem unapplied_frame_changes_nothing_witness:
  "snd (on_frame screen_ops failing_codec (receiver_new (blank_state 1 2))
      \<lparr>f_my_state = 9, f_from_state = 0, f_ack_state = 4, f_flags = 0, f_payload = [1]\<rparr>)
    = (receiver_new (blank_state 1 2))\<lparr>rcv_peer_ack := 4\<rparr>"
proof -
  have "fst (on_frame screen_ops failing_codec (receiver_new (blank_state 1 2))
      \<lparr>f_my_state = 9, f_from_state = 0, f_ack_state = 4, f_flags = 0, f_payload = [1]\<rparr>) \<noteq> Inr True"
    by (simp add: on_frame_def Let_def is_stale_def receiver_new_def rcv_state_def screen_ops_def
        blank_state_def decode_payload_def failing_codec_def map_err_def)
  from unapplied_frame_changes_nothing [OF this] show ?thesis
    by (simp add: receiver_new_def)
qed

subsection \<open>A client facing an untrusted host\<close>

definition receive_all :: "'d codec \<Rightarrow> ('s, 'd) sync_ops \<Rightarrow> frame list \<Rightarrow> 's receiver \<Rightarrow> 's receiver" where
  "receive_all cdc ops fs r = fold (\<lambda>f r. snd (on_frame ops cdc r f)) fs r"

definition client_ok :: "screen_state receiver \<Rightarrow> bool" where
  "client_ok r =
    (rcv_ring r \<noteq> [] \<and> length (rcv_ring r) \<le> STATE_RING + 1 \<and> (\<forall>s\<in>set (rcv_ring r). screen_wf s))"

lemma client_ok_new: "screen_wf s \<Longrightarrow> client_ok (receiver_new s)"
  by (simp add: client_ok_def receiver_new_def)

lemma client_ok_state: "client_ok r \<Longrightarrow> screen_wf (rcv_state r)"
  by (simp add: client_ok_def rcv_state_def)

lemma frame_base_in_ring_or_state:
  "rcv_ring r \<noteq> [] \<Longrightarrow> frame_base ops r f \<in> set (rcv_ring r)"
  by (auto simp: frame_base_def rcv_state_def find_Some_iff split: option.splits)

lemma set_commit_ring: "set (rcv_ring (commit ops r f s)) \<subseteq> insert s (set (rcv_ring r))"
proof -
  let ?kept = "dropWhile (\<lambda>s. so_seq ops s < f_from_state f)
      (if \<not> rcv_applied_any r then [] else rcv_ring r)"
  have "rcv_ring (commit ops r f s) = cap_ring (STATE_RING + 1) (?kept @ [s])"
    by (simp add: commit_def Let_def)
  then have "set (rcv_ring (commit ops r f s)) \<subseteq> set (?kept @ [s])"
    by (simp only: set_cap_ring)
  moreover have "set ?kept \<subseteq> set (rcv_ring r)"
    by (auto dest: set_dropWhileD)
  ultimately show ?thesis by auto
qed

lemma not_stale_le: "\<not> is_stale ops r f \<Longrightarrow> so_seq ops (rcv_state r) \<le> f_my_state f"
  by (auto simp: is_stale_def split: if_splits)

lemma client_frame:
  assumes "client_ok r"
  shows "client_ok (snd (on_frame screen_ops cdc r f))
    \<and> monotone_from (rcv_state r) (rcv_state (snd (on_frame screen_ops cdc r f)))
    \<and> scr_seq (rcv_state r) \<le> scr_seq (rcv_state (snd (on_frame screen_ops cdc r f)))"
proof (cases rule: on_frame_cases [of screen_ops r f cdc])
  case stale
  then show ?thesis using assms by (simp add: client_ok_def monotone_from_def)
next
  case (refused e)
  then show ?thesis using assms by (simp add: client_ok_def monotone_from_def)
next
  case (applied d s)
  have "screen_wf (frame_base screen_ops r f)"
    using frame_base_in_ring_or_state [of r] assms by (auto simp: client_ok_def)
  moreover have "screen_apply (frame_base screen_ops r f) (f_from_state f) (f_my_state f) d = Inr s"
    using applied(3) by (simp add: screen_ops_def)
  ultimately have "bt_wf (scr_links s)" "scr_seq s = f_my_state f"
    using screen_apply_safe by blast+
  moreover have "screen_valid s" "monotone_from (rcv_state r) s"
    using applied(4) by (simp_all add: screen_ops_def validate_transition_ok_iff)
  moreover have "scr_seq (rcv_state r) \<le> f_my_state f"
    using not_stale_le [OF applied(1)] by (simp add: screen_ops_def)
  moreover have "rcv_ring (commit screen_ops r' f s) \<noteq> []" for r'
    by (simp add: commit_def Let_def cap_ring_eq)
  ultimately show ?thesis
    using applied(5) assms commit_ring_length [of screen_ops _ f s] set_commit_ring [of screen_ops _ f s]
    by (fastforce simp: client_ok_def screen_wf_def commit_state)
qed

lemma client_frames:
  assumes "client_ok r"
  shows "client_ok (receive_all cdc screen_ops fs r)
    \<and> monotone_from (rcv_state r) (rcv_state (receive_all cdc screen_ops fs r))
    \<and> scr_seq (rcv_state r) \<le> scr_seq (rcv_state (receive_all cdc screen_ops fs r))"
  using assms
proof (induction fs arbitrary: r)
  case Nil
  then show ?case by (simp add: receive_all_def monotone_from_def)
next
  case (Cons f fs)
  from client_frame [OF Cons.prems, of cdc f]
    Cons.IH [of "snd (on_frame screen_ops cdc r f)"] show ?case
    by (auto simp: receive_all_def monotone_from_def)
qed

text \<open>C11: whatever frames an untrusted host sends, in whatever order and whatever the decoders make of
  them, the screen the client paints from always passes validation (right length, cursor on screen,
  bounded geometry, no control character in any cell or in the title, bounded links and clipboard),
  never numbers backwards, and never takes back a bell, a clipboard serial or scrollback; and the
  client keeps at most 33 states.\<close>

theorem client_screen_stays_valid:
  assumes "client_ok r"
  shows "validate (rcv_state (receive_all cdc screen_ops fs r)) = Inr ()
    \<and> monotone_from (rcv_state r) (rcv_state (receive_all cdc screen_ops fs r))
    \<and> scr_seq (rcv_state r) \<le> scr_seq (rcv_state (receive_all cdc screen_ops fs r))
    \<and> length (rcv_ring (receive_all cdc screen_ops fs r)) \<le> 33"
proof -
  have "client_ok (receive_all cdc screen_ops fs r)"
    using client_frames [OF assms] by simp
  then have "screen_wf (rcv_state (receive_all cdc screen_ops fs r))"
      "length (rcv_ring (receive_all cdc screen_ops fs r)) \<le> 33"
    by (simp_all add: client_ok_state) (simp add: client_ok_def STATE_RING_def)
  with client_frames [OF assms, of cdc fs] show ?thesis
    by (simp add: validate_ok_iff screen_wf_def)
qed

text \<open>A codec whose decoder answers every payload with the full diff of the sample screen.\<close>

definition sample_codec :: "screen_diff codec" where
  "sample_codec = failing_codec\<lparr>from_bytes := (\<lambda>_. Inr (screen_full_diff sample_screen))\<rparr>"

theorem client_screen_stays_valid_witness:
  "validate (rcv_state (receive_all sample_codec screen_ops
      [\<lparr>f_my_state = 9, f_from_state = 0, f_ack_state = 4, f_flags = 0, f_payload = []\<rparr>]
      (receiver_new (blank_state 1 2)))) = Inr ()"
proof -
  have "client_ok (receiver_new (blank_state 1 2))"
    by (rule client_ok_new [OF screen_wf_blank]) simp_all
  from client_screen_stays_valid [OF this] show ?thesis by blast
qed

end
