(* ===== verification/Sync_Protocol.thy ===== *)
theory Sync_Protocol
  imports Sync_Channel
begin

text \<open>
  Why the two ends of \<open>crates/oxutrm-sync\<close> converge. The locale \<open>sync_state\<close> states what the channel
  relies on of the trait \<open>SyncState\<close>; inside it the protocol invariant is proved once, for every
  reachable state of \<open>link_step\<close>: the receiver only ever holds states the sender published, the base a
  frame names is still in the receiver's ring whenever the frame is not stale, so no frame the sender
  made is ever refused. The screen and the input state are its two instances.
\<close>

locale sync_state =
  fixes ops :: "('s, 'd) sync_ops"
    and wf :: "'s \<Rightarrow> bool"
    and mono :: "'s \<Rightarrow> 's \<Rightarrow> bool"
  assumes seq_set_seq [simp]: "so_seq ops (so_set_seq ops s n) = n"
    and set_seq_id [simp]: "so_set_seq ops s (so_seq ops s) = s"
    and wf_set_seq: "wf s \<Longrightarrow> n \<noteq> 0 \<Longrightarrow> wf (so_set_seq ops s n)"
    and wf_seq: "wf s \<Longrightarrow> so_seq ops s \<noteq> 0"
    and apply_diff: "wf s \<Longrightarrow> wf base \<Longrightarrow>
      so_apply ops base (so_seq ops base) n (so_diff_from ops s base) = Inr (so_set_seq ops s n)"
    and apply_full: "wf s \<Longrightarrow> wf held \<Longrightarrow>
      so_apply ops held 0 n (so_full_diff ops s) = Inr (so_set_seq ops s n)"
    and transition_ok: "wf s \<Longrightarrow> mono prev s \<Longrightarrow> so_validate_transition ops s prev = Inr ()"
    and mono_refl: "mono s s"
    and mono_trans: "mono a b \<Longrightarrow> mono b c \<Longrightarrow> mono a c"
    and mono_set_seq: "mono a s \<Longrightarrow> mono a (so_set_seq ops s n)"
begin

abbreviation num :: "'s \<Rightarrow> nat" where
  "num s \<equiv> unat (so_seq ops s)"

section \<open>The history\<close>

definition hist_ok :: "'s \<Rightarrow> 's list \<Rightarrow> bool" where
  "hist_ok r0 H \<longleftrightarrow> H \<noteq> [] \<and> (\<forall>s\<in>set H. wf s \<and> mono r0 s)
    \<and> (\<forall>i<length H. num (H ! i) = num (hd H) + i)
    \<and> (\<forall>i j. i \<le> j \<longrightarrow> j < length H \<longrightarrow> mono (H ! i) (H ! j))"

lemma hist_wf: "hist_ok r0 H \<Longrightarrow> s \<in> set H \<Longrightarrow> wf s"
  by (simp add: hist_ok_def)

lemma hist_seq_nonzero: "hist_ok r0 H \<Longrightarrow> s \<in> set H \<Longrightarrow> so_seq ops s \<noteq> 0"
  by (intro wf_seq hist_wf)

lemma hist_seq_inj:
  assumes "hist_ok r0 H" and "s \<in> set H" and "t \<in> set H" and "so_seq ops s = so_seq ops t"
  shows "s = t"
proof -
  obtain i j where "i < length H" "j < length H" "s = H ! i" "t = H ! j"
    using assms(2,3) by (metis in_set_conv_nth)
  moreover from this assms(1,4) have "num (hd H) + i = num (hd H) + j"
    by (metis hist_ok_def)
  ultimately show ?thesis by simp
qed

lemma hist_mono:
  assumes "hist_ok r0 H" and "s \<in> set H" and "t \<in> set H" and "so_seq ops s \<le> so_seq ops t"
  shows "mono s t"
proof -
  obtain i j where ij: "i < length H" "j < length H" "s = H ! i" "t = H ! j"
    using assms(2,3) by (metis in_set_conv_nth)
  with assms(1,4) have "i \<le> j"
    by (auto simp: hist_ok_def word_le_nat_alt)
  with assms(1) ij show ?thesis
    by (simp add: hist_ok_def)
qed

lemma hist_le_last:
  assumes "hist_ok r0 H" and "s \<in> set H"
  shows "num s \<le> num (last H)"
proof -
  obtain i where "i < length H" "s = H ! i"
    using assms(2) by (metis in_set_conv_nth)
  with assms(1) show ?thesis
    by (auto simp: hist_ok_def last_conv_nth)
qed

lemma hist_hd_le:
  assumes "hist_ok r0 H" and "s \<in> set H"
  shows "so_seq ops (hd H) \<le> so_seq ops s"
proof -
  obtain i where "i < length H" "s = H ! i"
    using assms(2) by (metis in_set_conv_nth)
  with assms(1) show ?thesis
    by (auto simp: hist_ok_def word_le_nat_alt)
qed

lemma hist_snoc:
  assumes "hist_ok r0 H" and "wf s" and "mono (last H) s" and "num s = num (last H) + 1"
  shows "hist_ok r0 (H @ [s])"
proof -
  have H: "H \<noteq> []" and len: "num (last H) = num (hd H) + (length H - 1)"
    using assms(1) by (auto simp: hist_ok_def last_conv_nth)
  have "mono (H ! i) s" if "i < length H" for i
  proof -
    have "mono (H ! i) (last H)"
      using assms(1) that H by (simp add: hist_ok_def last_conv_nth)
    then show ?thesis using assms(3) by (rule mono_trans)
  qed
  moreover have "mono r0 s"
    using assms(1,3) H by (auto simp: hist_ok_def intro: mono_trans)
  moreover have "num s = num (hd H) + length H"
    using assms(4) len H by (cases H) auto
  ultimately show ?thesis
    using assms(1,2) H by (auto simp: hist_ok_def nth_append mono_refl less_Suc_eq)
qed

lemma hist_snoc_last: "hist_ok r0 (H @ [s]) \<Longrightarrow> wf s"
  by (simp add: hist_ok_def)

text \<open>A state still in the sender's ring is less than \<open>STATE_RING\<close> behind the newest.\<close>

lemma ring_recent:
  assumes "hist_ok r0 H" and "b \<in> set (cap_ring STATE_RING H)"
  shows "b \<in> set H \<and> num (last H) < num b + STATE_RING"
proof -
  obtain j where j: "j < length (cap_ring STATE_RING H)" "b = cap_ring STATE_RING H ! j"
    using assms(2) by (metis in_set_conv_nth)
  let ?i = "length H - STATE_RING + j"
  have i: "?i < length H" "b = H ! ?i"
    using j by (auto simp: cap_ring_eq)
  have H: "H \<noteq> []"
    using assms(1) by (simp add: hist_ok_def)
  then have "num (last H) = num (hd H) + (length H - 1)" "num b = num (hd H) + ?i"
    using assms(1) i by (simp_all add: hist_ok_def last_conv_nth)
  with i H show ?thesis
    by (auto simp: STATE_RING_def)
qed

section \<open>The invariant\<close>

definition frame_ok :: "'d codec \<Rightarrow> 's link_sys \<Rightarrow> frame \<Rightarrow> bool" where
  "frame_ok cdc S f \<longleftrightarrow> (\<exists>s\<in>set (ls_hist S). so_seq ops s = f_my_state f \<and>
    (f_from_state f = 0 \<and> decode_payload cdc f = Inr (so_full_diff ops s) \<or>
     (\<exists>b\<in>set (ls_hist S). so_seq ops b = f_from_state f
       \<and> decode_payload cdc f = Inr (so_diff_from ops s b)
       \<and> num s < num b + STATE_RING
       \<and> f_from_state f \<in> set (ls_acks S)
       \<and> f_from_state f \<le> snd_peer_saw (ls_sender S))))"

text \<open>A frame of a newer state never names an older base.\<close>

definition frames_ordered :: "'s link_sys \<Rightarrow> bool" where
  "frames_ordered S \<longleftrightarrow> (\<forall>f\<in>set (ls_frames S). \<forall>g\<in>set (ls_frames S).
    f_my_state f < f_my_state g \<longrightarrow> f_from_state g = 0 \<or> f_from_state f \<le> f_from_state g)"

definition sender_ok :: "'s link_sys \<Rightarrow> bool" where
  "sender_ok S \<longleftrightarrow> snd_ring (ls_sender S) = cap_ring STATE_RING (ls_hist S)
    \<and> (snd_peer_saw (ls_sender S) = 0 \<or> snd_peer_saw (ls_sender S) \<in> set (ls_acks S))"

text \<open>The last part is the coupling of the two rings: an acknowledged state that no frame up to the
  receiver's state has passed, and that is close enough to it, is still in the receiver's ring.\<close>

definition rings_coupled :: "'s link_sys \<Rightarrow> bool" where
  "rings_coupled S \<longleftrightarrow> (\<forall>a\<in>set (ls_acks S). a \<noteq> 0 \<longrightarrow>
    (\<forall>f\<in>set (ls_frames S). f_my_state f \<le> so_seq ops (rcv_state (ls_receiver S)) \<longrightarrow>
      f_from_state f \<le> a) \<longrightarrow>
    num (rcv_state (ls_receiver S)) < unat a + (STATE_RING + 1) \<longrightarrow>
    a \<in> so_seq ops ` set (rcv_ring (ls_receiver S)))"

definition rcv_ok :: "'s \<Rightarrow> 's link_sys \<Rightarrow> bool" where
  "rcv_ok r0 S \<longleftrightarrow>
    (if rcv_applied_any (ls_receiver S)
     then rcv_ring (ls_receiver S) \<noteq> []
       \<and> set (rcv_ring (ls_receiver S)) \<subseteq> set (ls_hist S)
       \<and> sorted_wrt (<) (map (so_seq ops) (rcv_ring (ls_receiver S)))
       \<and> (\<forall>a\<in>set (ls_acks S). a = 0 \<or>
            a \<le> so_seq ops (rcv_state (ls_receiver S)) \<and> a \<in> so_seq ops ` set (ls_hist S))
       \<and> rings_coupled S
     else rcv_ring (ls_receiver S) = [r0] \<and> (\<forall>a\<in>set (ls_acks S). a = 0))"

definition link_inv :: "'d codec \<Rightarrow> 's \<Rightarrow> 's link_sys \<Rightarrow> bool" where
  "link_inv cdc r0 S \<longleftrightarrow> wf r0 \<and> hist_ok r0 (ls_hist S) \<and> so_seq ops r0 \<le> so_seq ops (hd (ls_hist S))
    \<and> sender_ok S \<and> (\<forall>f\<in>set (ls_frames S). frame_ok cdc S f) \<and> frames_ordered S \<and> rcv_ok r0 S"

lemma link_invD:
  assumes "link_inv cdc r0 S"
  shows "wf r0" "hist_ok r0 (ls_hist S)" "so_seq ops r0 \<le> so_seq ops (hd (ls_hist S))"
    "sender_ok S" "f \<in> set (ls_frames S) \<Longrightarrow> frame_ok cdc S f" "frames_ordered S" "rcv_ok r0 S"
  using assms by (simp_all add: link_inv_def)

lemma sender_current_last:
  assumes "link_inv cdc r0 S"
  shows "sender_current (ls_sender S) = last (ls_hist S)"
proof -
  have "ls_hist S \<noteq> []" "snd_ring (ls_sender S) = cap_ring STATE_RING (ls_hist S)"
    using assms by (simp_all add: link_inv_def hist_ok_def sender_ok_def)
  then show ?thesis
    by (simp add: sender_current_def cap_ring_eq STATE_RING_def)
qed

lemma link_inv_init:
  assumes "wf s0" and "wf r0" and "mono r0 s0" and "so_seq ops r0 \<le> so_seq ops s0"
  shows "link_inv cdc r0 (link_init s0 r0)"
  using assms
  by (simp add: link_inv_def link_init_def hist_ok_def sender_ok_def frames_ordered_def rcv_ok_def
      sender_new_def receiver_new_def cap_ring_eq STATE_RING_def mono_refl)

section \<open>Every step keeps the invariant\<close>

lemma sat_add_one: "a \<noteq> - 1 \<Longrightarrow> unat (sat_add a 1) = unat a + 1"
  for a :: u64
proof -
  assume "a \<noteq> - 1"
  then have "unat a \<noteq> 2 ^ 64 - 1"
    using unat_max_word [where 'a = 64] by (simp add: word_unat_eq_iff)
  with unat_le_max [of a] show ?thesis
    by (simp add: unat_sat_add)
qed

lemma step_update:
  assumes inv: "link_inv cdc r0 S"
    and ok: "wf next" "mono (sender_current (ls_sender S)) next"
    and room: "so_seq ops (sender_current (ls_sender S)) \<noteq> - 1"
    and t: "t = sender_update ops (ls_sender S) next"
  shows "link_inv cdc r0 (S\<lparr>ls_sender := t, ls_hist := ls_hist S @ [sender_current t]\<rparr>)"
    (is "link_inv cdc r0 ?S")
proof -
  let ?H = "ls_hist S" and ?s = "sender_current t"
  note cur = sender_current_last [OF inv]
  have H: "?H \<noteq> []" and hist: "hist_ok r0 ?H"
    using link_invD(2) [OF inv] by (simp_all add: hist_ok_def)
  have s: "?s = so_set_seq ops next (sat_add (so_seq ops (last ?H)) 1)"
    by (simp add: t sender_update_current cur)
  have num: "num ?s = num (last ?H) + 1"
    using room by (simp add: s cur sat_add_one)
  then have "so_seq ops ?s \<noteq> 0"
    by (metis Zero_not_Suc add.commute plus_1_eq_Suc unat_0)
  then have "wf ?s"
    using ok(1) by (simp add: s wf_set_seq)
  moreover have "mono (last ?H) ?s"
    using ok(2) by (simp add: s cur mono_set_seq)
  ultimately have hist': "hist_ok r0 (?H @ [?s])"
    using hist num by (intro hist_snoc)
  have ring: "snd_ring t = cap_ring STATE_RING (?H @ [?s])"
  proof -
    have "snd_ring t = cap_ring STATE_RING (cap_ring STATE_RING ?H @ [?s])"
      using link_invD(4) [OF inv] cur unfolding s
      by (simp add: t sender_update_def Let_def sender_ok_def)
    then show ?thesis
      by (simp add: cap_ring_snoc_cap STATE_RING_def)
  qed
  have "snd_peer_saw t = snd_peer_saw (ls_sender S)"
    by (simp add: t sender_update_def Let_def)
  then show ?thesis
    using inv hist' ring H
    by (auto simp: link_inv_def sender_ok_def frame_ok_def frames_ordered_def rcv_ok_def
        rings_coupled_def)
qed

lemma step_send:
  assumes inv: "link_inv cdc r0 S" and cdc: "codec_ok cdc"
    and f: "make_frame ops cdc (ls_sender S) a = Inr (Some f, t)" and fits: "frame_fits cdc f"
  shows "link_inv cdc r0 (S\<lparr>ls_sender := t, ls_frames := f # ls_frames S\<rparr>)"
    (is "link_inv cdc r0 ?S")
proof -
  let ?H = "ls_hist S" and ?t = "ls_sender S"
  note cur = sender_current_last [OF inv]
  have hist: "hist_ok r0 ?H" and last: "last ?H \<in> set ?H"
    using link_invD(2) [OF inv] by (simp_all add: hist_ok_def)
  obtain d raw where d: "to_stdvec cdc d = Inr raw" "f_flags f = snd (pack_payload cdc raw)"
      "f_payload f = fst (pack_payload cdc raw)"
      and my': "f_my_state f = so_seq ops (sender_current ?t)" and "f_ack_state f = a"
      and t: "t = ?t\<lparr>snd_last_ack_sent := a\<rparr>"
      and base': "case find (\<lambda>s. so_seq ops s = snd_peer_saw ?t) (snd_ring ?t) of
        Some b \<Rightarrow> d = so_diff_from ops (sender_current ?t) b \<and> f_from_state f = so_seq ops b
      | None \<Rightarrow> d = so_full_diff ops (sender_current ?t) \<and> f_from_state f = 0"
    by (rule make_frame_SomeD [OF f])
  note my = my' [unfolded cur] and base = base' [unfolded cur]
  have dec: "decode_payload cdc f = Inr d"
    by (rule pack_payload_decodes [OF cdc d fits])
  have new: "frame_ok cdc ?S f \<and> (f_from_state f = 0 \<or> f_from_state f = snd_peer_saw ?t)"
  proof (cases "find (\<lambda>s. so_seq ops s = snd_peer_saw ?t) (snd_ring ?t)")
    case None
    with base dec my last show ?thesis
      by (auto simp: frame_ok_def)
  next
    case (Some b)
    then have b: "b \<in> set (snd_ring ?t)" "so_seq ops b = snd_peer_saw ?t"
      by (auto simp: find_Some_iff)
    then have recent: "b \<in> set ?H" "num (last ?H) < num b + STATE_RING"
      using ring_recent [OF hist, of b] link_invD(4) [OF inv] by (auto simp: sender_ok_def)
    then have "so_seq ops b \<noteq> 0"
      by (intro hist_seq_nonzero [OF hist])
    then have "snd_peer_saw ?t \<in> set (ls_acks S)"
      using b link_invD(4) [OF inv] by (auto simp: sender_ok_def)
    with Some base dec my last b recent t show ?thesis
      by (auto simp: frame_ok_def)
  qed
  have old: "f_from_state g \<le> snd_peer_saw ?t \<and> f_my_state g \<le> so_seq ops (last ?H)"
    if "g \<in> set (ls_frames S)" for g
  proof -
    from link_invD(5) [OF inv that] obtain s where "s \<in> set ?H" "so_seq ops s = f_my_state g"
      and le: "f_from_state g \<le> snd_peer_saw ?t"
      unfolding frame_ok_def by auto
    then show ?thesis
      using hist_le_last [OF hist, of s] le by (simp add: word_le_nat_alt)
  qed
  have "frames_ordered ?S"
    using link_invD(6) [OF inv] new old my
    by (auto simp: frames_ordered_def not_less [symmetric])
  moreover have "frame_ok cdc ?S g" if "g \<in> set (ls_frames S)" for g
    using link_invD(5) [OF inv that] t by (simp add: frame_ok_def)
  moreover have "rcv_ok r0 ?S"
    using link_invD(7) [OF inv] by (auto simp: rcv_ok_def rings_coupled_def)
  ultimately show ?thesis
    using inv new t by (auto simp: link_inv_def sender_ok_def)
qed

lemma step_emit_ack:
  assumes inv: "link_inv cdc r0 S"
  shows "link_inv cdc r0 (S\<lparr>ls_acks := rcv_ack ops (ls_receiver S) # ls_acks S\<rparr>)"
    (is "link_inv cdc r0 ?S")
proof -
  let ?r = "ls_receiver S"
  have "rcv_ok r0 ?S"
  proof (cases "rcv_applied_any ?r")
    case False
    with link_invD(7) [OF inv] show ?thesis
      by (simp add: rcv_ok_def rcv_ack_def)
  next
    case True
    then have ring: "rcv_ring ?r \<noteq> []" "set (rcv_ring ?r) \<subseteq> set (ls_hist S)"
      using link_invD(7) [OF inv] by (simp_all add: rcv_ok_def)
    then have st: "rcv_state ?r \<in> set (rcv_ring ?r)"
      by (simp add: rcv_state_def)
    have "rings_coupled ?S"
      using link_invD(7) [OF inv] True st by (simp add: rcv_ok_def rings_coupled_def rcv_ack_def)
    with True st ring link_invD(7) [OF inv] show ?thesis
      by (auto simp: rcv_ok_def rcv_ack_def)
  qed
  moreover have "frame_ok cdc ?S f" if "f \<in> set (ls_frames S)" for f
    using link_invD(5) [OF inv that] by (auto simp: frame_ok_def)
  ultimately show ?thesis
    using inv by (auto simp: link_inv_def sender_ok_def frames_ordered_def)
qed

lemma step_hear_ack:
  assumes inv: "link_inv cdc r0 S" and a: "a \<in> set (ls_acks S)"
  shows "link_inv cdc r0 (S\<lparr>ls_sender := on_ack (ls_sender S) a\<rparr>)" (is "link_inv cdc r0 ?S")
proof -
  have "frame_ok cdc ?S f" if "f \<in> set (ls_frames S)" for f
    using link_invD(5) [OF inv that] by (auto simp: frame_ok_def on_ack_def le_max_iff_disj)
  with inv a show ?thesis
    by (auto simp: link_inv_def sender_ok_def frames_ordered_def rcv_ok_def rings_coupled_def
        on_ack_def max_def)
qed

section \<open>Delivery\<close>

lemma frame_base_in_ring:
  assumes inv: "link_inv cdc r0 S" and f: "f \<in> set (ls_frames S)"
    and fresh: "\<not> is_stale ops (ls_receiver S) f"
    and b: "b \<in> set (ls_hist S)" "so_seq ops b = f_from_state f"
    and near: "unat (f_my_state f) < num b + STATE_RING"
    and ack: "f_from_state f \<in> set (ls_acks S)"
  shows "rcv_applied_any (ls_receiver S) \<and> frame_base ops (ls_receiver S) f = b"
proof -
  let ?r = "ls_receiver S"
  have hist: "hist_ok r0 (ls_hist S)" by (rule link_invD(2) [OF inv])
  have nz: "f_from_state f \<noteq> 0"
    using hist_seq_nonzero [OF hist b(1)] b(2) by simp
  from nz ack link_invD(7) [OF inv] have applied: "rcv_applied_any ?r"
    by (auto simp: rcv_ok_def split: if_splits)
  with link_invD(7) [OF inv] have ring: "set (rcv_ring ?r) \<subseteq> set (ls_hist S)"
      and coupled: "rings_coupled S"
    by (simp_all add: rcv_ok_def)
  have newer: "so_seq ops (rcv_state ?r) < f_my_state f"
    using fresh applied by (simp add: is_stale_def)
  have "f_from_state g \<le> f_from_state f"
    if "g \<in> set (ls_frames S)" "f_my_state g \<le> so_seq ops (rcv_state ?r)" for g
    using link_invD(6) [OF inv] f that newer nz unfolding frames_ordered_def by force
  moreover have "num (rcv_state ?r) < unat (f_from_state f) + (STATE_RING + 1)"
    using near newer b(2) by (simp add: word_less_nat_alt)
  ultimately have "f_from_state f \<in> so_seq ops ` set (rcv_ring ?r)"
    using coupled ack nz by (simp add: rings_coupled_def)
  then obtain b' where b': "find (\<lambda>s. so_seq ops s = f_from_state f) (rcv_ring ?r) = Some b'"
    by (cases "find (\<lambda>s. so_seq ops s = f_from_state f) (rcv_ring ?r)")
      (auto simp: find_None_iff)
  then have "b' \<in> set (ls_hist S)" "so_seq ops b' = so_seq ops b"
    using ring b(2) by (auto simp: find_Some_iff)
  then have "b' = b"
    by (intro hist_seq_inj [OF hist _ b(1)])
  with b' nz applied show ?thesis
    by (simp add: frame_base_def)
qed

lemma frame_applies:
  assumes inv: "link_inv cdc r0 S" and f: "f \<in> set (ls_frames S)"
    and fresh: "\<not> is_stale ops (ls_receiver S) f"
  shows "\<exists>s\<in>set (ls_hist S). so_seq ops s = f_my_state f \<and>
    on_frame ops cdc (ls_receiver S) f = (Inr True,
      commit ops ((ls_receiver S)\<lparr>rcv_peer_ack :=
        max (rcv_peer_ack (ls_receiver S)) (f_ack_state f)\<rparr>) f s)"
proof -
  let ?r = "ls_receiver S"
  have hist: "hist_ok r0 (ls_hist S)" by (rule link_invD(2) [OF inv])
  from link_invD(5) [OF inv f] obtain s where s: "s \<in> set (ls_hist S)"
      "so_seq ops s = f_my_state f" and kinds:
      "f_from_state f = 0 \<and> decode_payload cdc f = Inr (so_full_diff ops s) \<or>
       (\<exists>b\<in>set (ls_hist S). so_seq ops b = f_from_state f
         \<and> decode_payload cdc f = Inr (so_diff_from ops s b) \<and> num s < num b + STATE_RING
         \<and> f_from_state f \<in> set (ls_acks S))"
    unfolding frame_ok_def by blast
  have wf_s: "wf s" using hist s(1) by (rule hist_wf)
  have state: "wf (rcv_state ?r) \<and> mono (rcv_state ?r) s"
  proof (cases "rcv_applied_any ?r")
    case True
    with link_invD(7) [OF inv] have mem: "rcv_state ?r \<in> set (ls_hist S)"
      unfolding rcv_ok_def rcv_state_def by (metis last_in_set subsetD)
    have "so_seq ops (rcv_state ?r) \<le> so_seq ops s"
      using fresh True s(2) by (simp add: is_stale_def)
    with mem s(1) hist show ?thesis by (simp add: hist_wf hist_mono)
  next
    case False
    with link_invD(7) [OF inv] have "rcv_state ?r = r0"
      by (simp add: rcv_ok_def rcv_state_def)
    with link_invD(1) [OF inv] hist s(1) show ?thesis
      by (simp add: hist_ok_def)
  qed
  have self: "so_set_seq ops s (f_my_state f) = s"
    using set_seq_id [of s] s(2) by simp
  from kinds have "\<exists>d. decode_payload cdc f = Inr d \<and>
      so_apply ops (frame_base ops ?r f) (f_from_state f) (f_my_state f) d = Inr s"
  proof (elim disjE bexE conjE)
    assume "f_from_state f = 0" "decode_payload cdc f = Inr (so_full_diff ops s)"
    moreover have "frame_base ops ?r f = rcv_state ?r" if "f_from_state f = 0"
      using that by (simp add: frame_base_def split: option.split)
    ultimately show ?thesis
      using apply_full [OF wf_s, of "rcv_state ?r" "f_my_state f"] state self by simp
  next
    fix b
    assume b: "b \<in> set (ls_hist S)" "so_seq ops b = f_from_state f" "num s < num b + STATE_RING"
      "f_from_state f \<in> set (ls_acks S)" and dec: "decode_payload cdc f = Inr (so_diff_from ops s b)"
    have "frame_base ops ?r f = b"
      using frame_base_in_ring [OF inv f fresh b(1,2)] b(3,4) s(2) by simp
    with dec show ?thesis
      using apply_diff [OF wf_s hist_wf [OF hist b(1)], of "f_my_state f"] b(2) self by simp
  qed
  moreover have "so_validate_transition ops s (rcv_state ?r) = Inr ()"
    using state wf_s by (simp add: transition_ok)
  ultimately have "on_frame ops cdc ?r f = (Inr True,
      commit ops (?r\<lparr>rcv_peer_ack := max (rcv_peer_ack ?r) (f_ack_state f)\<rparr>) f s)"
    using fresh by (auto simp: on_frame_def Let_def)
  with s show ?thesis by blast
qed

text \<open>The ring after a commit.\<close>

lemma commit_ring:
  "rcv_ring (commit ops (r\<lparr>rcv_peer_ack := a\<rparr>) f s) =
    cap_ring (STATE_RING + 1)
      (dropWhile (\<lambda>s. so_seq ops s < f_from_state f)
        (if rcv_applied_any r then rcv_ring r else []) @ [s])"
  by (simp add: commit_def Let_def)

lemma commit_rcv_ok:
  assumes inv: "link_inv cdc r0 S" and f: "f \<in> set (ls_frames S)"
    and fresh: "\<not> is_stale ops (ls_receiver S) f"
    and s: "s \<in> set (ls_hist S)" "so_seq ops s = f_my_state f"
  shows "rcv_ok r0 (S\<lparr>ls_receiver := commit ops ((ls_receiver S)\<lparr>rcv_peer_ack := a\<rparr>) f s\<rparr>)"
    (is "rcv_ok r0 ?S")
proof -
  let ?r = "ls_receiver S"
  let ?r' = "commit ops (?r\<lparr>rcv_peer_ack := a\<rparr>) f s"
  let ?ring0 = "if rcv_applied_any ?r then rcv_ring ?r else []"
  let ?ring1 = "dropWhile (\<lambda>s. so_seq ops s < f_from_state f) ?ring0"
  note rcv = link_invD(7) [OF inv]
  have acks: "x = 0 \<or> rcv_applied_any ?r \<and> x \<le> so_seq ops (rcv_state ?r)
      \<and> x \<in> so_seq ops ` set (ls_hist S)"
    if "x \<in> set (ls_acks S)" for x
    using rcv that by (auto simp: rcv_ok_def split: if_splits)
  have newer: "so_seq ops (rcv_state ?r) < f_my_state f" if "rcv_applied_any ?r"
    using fresh that by (simp add: is_stale_def)
  have sorted0: "sorted_wrt (<) (map (so_seq ops) ?ring0)" "set ?ring0 \<subseteq> set (ls_hist S)"
    using rcv by (auto simp: rcv_ok_def split: if_splits)
  have below: "so_seq ops x < f_my_state f" if "x \<in> set ?ring0" for x
  proof -
    from that have ap: "rcv_applied_any ?r" and x: "x \<in> set (rcv_ring ?r)"
      by (auto split: if_splits)
    have "so_seq ops x \<le> so_seq ops (last (rcv_ring ?r))"
      using sorted0(1) ap x by (intro sorted_le_last) simp_all
    with newer [OF ap] show ?thesis by (simp add: rcv_state_def)
  qed
  have sub: "set ?ring1 \<subseteq> set ?ring0"
    by (auto dest: set_dropWhileD)
  have sorted1: "sorted_wrt (<) (map (so_seq ops) (?ring1 @ [s]))"
    using sorted_dropWhile [OF sorted0(1)] sub below s(2) by (auto simp: sorted_wrt_append)
  have ring': "rcv_ring ?r' = cap_ring (STATE_RING + 1) (?ring1 @ [s])"
    by (rule commit_ring)
  have "rings_coupled ?S"
    unfolding rings_coupled_def
  proof (intro ballI impI)
    fix x
    assume x: "x \<in> set (ls_acks ?S)" "x \<noteq> 0"
      and passed: "\<forall>g\<in>set (ls_frames ?S).
        f_my_state g \<le> so_seq ops (rcv_state (ls_receiver ?S)) \<longrightarrow> f_from_state g \<le> x"
      and near: "num (rcv_state (ls_receiver ?S)) < unat x + (STATE_RING + 1)"
    have ap: "rcv_applied_any ?r" using acks x by auto
    have passed': "\<forall>g\<in>set (ls_frames S). f_my_state g \<le> f_my_state f \<longrightarrow> f_from_state g \<le> x"
      using passed s(2) by (simp add: commit_state)
    have "x \<in> so_seq ops ` set (rcv_ring ?r)"
    proof -
      have "\<forall>g\<in>set (ls_frames S). f_my_state g \<le> so_seq ops (rcv_state ?r) \<longrightarrow> f_from_state g \<le> x"
        using passed' newer [OF ap] by (meson less_imp_le order.trans)
      moreover have "num (rcv_state ?r) < unat x + (STATE_RING + 1)"
        using near newer [OF ap] s(2) by (simp add: commit_state word_less_nat_alt)
      ultimately show ?thesis
        using rcv ap x by (simp add: rcv_ok_def rings_coupled_def)
    qed
    then obtain b where b: "b \<in> set (rcv_ring ?r)" "so_seq ops b = x" by auto
    have "\<not> so_seq ops b < f_from_state f"
      using passed' f b(2) by (simp add: not_less)
    then have "b \<in> set (?ring1 @ [s])"
      using b(1) ap by (simp add: dropWhile_keeps)
    then have "b \<in> set (rcv_ring ?r')"
      unfolding ring' by (rule cap_ring_keeps [OF sorted1])
        (use near s(2) b(2) in \<open>simp add: commit_state\<close>)
    with b(2) show "x \<in> so_seq ops ` set (rcv_ring (ls_receiver ?S))" by auto
  qed
  moreover have "rcv_ring ?r' \<noteq> []"
    by (simp add: ring' cap_ring_eq STATE_RING_def)
  moreover have "set (rcv_ring ?r') \<subseteq> set (ls_hist S)"
  proof -
    have "set (?ring1 @ [s]) \<subseteq> set (ls_hist S)"
      using order.trans [OF sub sorted0(2)] s(1) by simp
    then show ?thesis
      unfolding ring' by (rule order.trans [OF set_cap_ring])
  qed
  moreover have "sorted_wrt (<) (map (so_seq ops) (rcv_ring ?r'))"
    unfolding ring' by (rule sorted_cap_ring [OF sorted1])
  moreover have "x = 0 \<or> x \<le> so_seq ops (rcv_state ?r') \<and> x \<in> so_seq ops ` set (ls_hist S)"
    if "x \<in> set (ls_acks S)" for x
    using acks [OF that] newer s(2) by (auto simp: commit_state)
  ultimately show ?thesis
    by (simp add: rcv_ok_def)
qed

lemma step_deliver:
  assumes inv: "link_inv cdc r0 S" and f: "f \<in> set (ls_frames S)"
  shows "link_inv cdc r0 (S\<lparr>ls_receiver := snd (on_frame ops cdc (ls_receiver S) f)\<rparr>)"
    (is "link_inv cdc r0 ?S")
proof -
  have "rcv_ok r0 ?S"
  proof (cases "is_stale ops (ls_receiver S) f")
    case True
    then have "snd (on_frame ops cdc (ls_receiver S) f) =
        (ls_receiver S)\<lparr>rcv_peer_ack := max (rcv_peer_ack (ls_receiver S)) (f_ack_state f)\<rparr>"
      by (simp add: on_frame_def Let_def)
    with link_invD(7) [OF inv] show ?thesis
      by (simp add: rcv_ok_def rings_coupled_def split: if_splits)
  next
    case False
    from frame_applies [OF inv f False] obtain s where "s \<in> set (ls_hist S)"
        "so_seq ops s = f_my_state f"
        "snd (on_frame ops cdc (ls_receiver S) f) = commit ops ((ls_receiver S)\<lparr>rcv_peer_ack :=
          max (rcv_peer_ack (ls_receiver S)) (f_ack_state f)\<rparr>) f s"
      by auto
    with commit_rcv_ok [OF inv f False] show ?thesis by simp
  qed
  moreover have "frame_ok cdc ?S g" if "g \<in> set (ls_frames S)" for g
    using link_invD(5) [OF inv that] by (simp add: frame_ok_def)
  ultimately show ?thesis
    using inv by (simp add: link_inv_def sender_ok_def frames_ordered_def)
qed

lemma link_step_inv:
  assumes "link_step ops cdc (\<lambda>cur next. wf next \<and> mono cur next) S S'"
    and "link_inv cdc r0 S" and "codec_ok cdc"
  shows "link_inv cdc r0 S'"
  using assms
  by (cases rule: link_step.cases)
    (auto intro: step_update step_send step_deliver step_emit_ack step_hear_ack)

theorem link_reach_inv:
  assumes "link_reach ops cdc (\<lambda>cur next. wf next \<and> mono cur next) s0 r0 S"
    and "codec_ok cdc" and "wf s0" and "wf r0" and "mono r0 s0"
    and "so_seq ops r0 \<le> so_seq ops s0"
  shows "link_inv cdc r0 S"
  using assms(1)
  by (induction rule: link_reach.induct)
    (use assms(2-) in \<open>auto intro: link_inv_init link_step_inv\<close>)

section \<open>What the channel promises\<close>

text \<open>No frame the sender made is refused: it is stale, or it puts the receiver on exactly the state
  the frame describes.\<close>

lemma delivery:
  assumes inv: "link_inv cdc r0 S" and f: "f \<in> set (ls_frames S)"
  shows "(case on_frame ops cdc (ls_receiver S) f of
      (Inr False, r) \<Rightarrow> rcv_state r = rcv_state (ls_receiver S)
    | (Inr True, r) \<Rightarrow> rcv_state r \<in> set (ls_hist S) \<and> so_seq ops (rcv_state r) = f_my_state f
    | (Inl e, r) \<Rightarrow> False)"
proof (cases "is_stale ops (ls_receiver S) f")
  case True
  then show ?thesis by (simp add: on_frame_def Let_def)
next
  case False
  from frame_applies [OF inv f this] show ?thesis
    by (auto simp: commit_state)
qed

lemma receiver_consistent:
  assumes "link_inv cdc r0 S" and "rcv_applied_any (ls_receiver S)"
  shows "rcv_state (ls_receiver S) \<in> set (ls_hist S)"
  using link_invD(7) [OF assms(1)] assms(2)
  unfolding rcv_ok_def rcv_state_def by (metis last_in_set subsetD)

lemma receiver_at_current:
  assumes inv: "link_inv cdc r0 S" and applied: "rcv_applied_any (ls_receiver S)"
    and reached: "so_seq ops (sender_current (ls_sender S)) \<le> so_seq ops (rcv_state (ls_receiver S))"
  shows "rcv_state (ls_receiver S) = sender_current (ls_sender S)"
proof -
  have hist: "hist_ok r0 (ls_hist S)" by (rule link_invD(2) [OF inv])
  have mem: "rcv_state (ls_receiver S) \<in> set (ls_hist S)"
    using inv applied by (rule receiver_consistent)
  have last: "last (ls_hist S) \<in> set (ls_hist S)"
    using hist by (simp add: hist_ok_def)
  have "so_seq ops (rcv_state (ls_receiver S)) = so_seq ops (last (ls_hist S))"
    using hist_le_last [OF hist mem] reached sender_current_last [OF inv]
    by (simp add: word_le_nat_alt word_unat_eq_iff)
  then show ?thesis
    using hist_seq_inj [OF hist mem last] sender_current_last [OF inv] by simp
qed

text \<open>Nothing to send means the receiver is up to date.\<close>

lemma silence_means_converged:
  assumes inv: "link_inv cdc r0 S"
    and none: "make_frame ops cdc (ls_sender S) a = Inr (None, t)"
  shows "rcv_state (ls_receiver S) = sender_current (ls_sender S)"
proof -
  let ?cur = "sender_current (ls_sender S)"
  have hist: "hist_ok r0 (ls_hist S)" by (rule link_invD(2) [OF inv])
  have "last (ls_hist S) \<in> set (ls_hist S)"
    using hist by (simp add: hist_ok_def)
  then have "so_seq ops ?cur \<noteq> 0"
    using hist sender_current_last [OF inv] by (simp add: hist_seq_nonzero)
  then have "so_seq ops ?cur \<in> set (ls_acks S)" "so_seq ops ?cur \<noteq> 0"
    using make_frame_NoneD(1) [OF none] link_invD(4) [OF inv] by (auto simp: sender_ok_def)
  with link_invD(7) [OF inv] have "rcv_applied_any (ls_receiver S)"
      "so_seq ops ?cur \<le> so_seq ops (rcv_state (ls_receiver S))"
    by (auto simp: rcv_ok_def split: if_splits)
  then show ?thesis by (rule receiver_at_current [OF inv])
qed

text \<open>One delivered frame is enough, whatever was lost before it.\<close>

lemma one_frame_converges:
  assumes inv: "link_inv cdc r0 S" and cdc: "codec_ok cdc"
    and f: "make_frame ops cdc (ls_sender S) a = Inr (Some f, t)" and fits: "frame_fits cdc f"
  shows "rcv_state (snd (on_frame ops cdc (ls_receiver S) f)) = sender_current (ls_sender S)"
proof -
  let ?S = "S\<lparr>ls_sender := t, ls_frames := f # ls_frames S\<rparr>"
  let ?S' = "?S\<lparr>ls_receiver := snd (on_frame ops cdc (ls_receiver ?S) f)\<rparr>"
  have inv1: "link_inv cdc r0 ?S"
    by (rule step_send [OF inv cdc f fits])
  have fin: "f \<in> set (ls_frames ?S)" by simp
  have inv2: "link_inv cdc r0 ?S'"
    by (rule step_deliver [OF inv1 fin])
  obtain d raw where my: "f_my_state f = so_seq ops (sender_current (ls_sender S))"
      and t: "t = (ls_sender S)\<lparr>snd_last_ack_sent := a\<rparr>"
    by (rule make_frame_SomeD [OF f])
  have cur: "sender_current t = sender_current (ls_sender S)"
    by (simp add: t sender_current_def)
  have "rcv_applied_any (ls_receiver ?S') \<and>
      so_seq ops (sender_current (ls_sender ?S')) \<le> so_seq ops (rcv_state (ls_receiver ?S'))"
  proof (cases "is_stale ops (ls_receiver S) f")
    case False
    from frame_applies [OF inv1 fin] False my cur show ?thesis
      by (auto simp: commit_state)
  next
    case True
    have applied: "rcv_applied_any (ls_receiver S)"
    proof (rule ccontr)
      assume no: "\<not> rcv_applied_any (ls_receiver S)"
      with link_invD(7) [OF inv] have r0: "rcv_state (ls_receiver S) = r0"
          and acks: "\<forall>a\<in>set (ls_acks S). a = 0"
        by (simp_all add: rcv_ok_def rcv_state_def)
      from link_invD(5) [OF inv1 fin] acks hist_seq_nonzero [OF link_invD(2) [OF inv]]
      have "f_from_state f = 0" and "\<exists>s\<in>set (ls_hist S). so_seq ops s = f_my_state f"
        unfolding frame_ok_def by fastforce+
      with hist_hd_le [OF link_invD(2) [OF inv]] link_invD(3) [OF inv]
      have "so_seq ops r0 \<le> f_my_state f"
        by (metis order.trans)
      with True no r0 \<open>f_from_state f = 0\<close> show False
        by (simp add: is_stale_def)
    qed
    then have "f_my_state f \<le> so_seq ops (rcv_state (ls_receiver S))"
      using True by (simp add: is_stale_def)
    moreover have "snd (on_frame ops cdc (ls_receiver S) f) =
        (ls_receiver S)\<lparr>rcv_peer_ack := max (rcv_peer_ack (ls_receiver S)) (f_ack_state f)\<rparr>"
      using True by (simp add: on_frame_def Let_def)
    ultimately show ?thesis
      using applied my cur by simp
  qed
  then have "rcv_state (ls_receiver ?S') = sender_current (ls_sender ?S')"
    by (intro receiver_at_current [OF inv2]) simp_all
  with cur show ?thesis by simp
qed

end

section \<open>The two replicated values\<close>

interpretation screen: sync_state screen_ops screen_wf monotone_from
proof unfold_locales
  fix s :: screen_state and n
  show "screen_wf s \<Longrightarrow> n \<noteq> 0 \<Longrightarrow> screen_wf (so_set_seq screen_ops s n)"
    by (simp add: screen_ops_def screen_wf_def screen_valid_def cursor_on_screen_def)
qed (auto simp: screen_ops_def screen_diff_apply screen_full_diff_apply validate_transition_ok_iff
    monotone_from_def screen_wf_def screen_validD)

text \<open>The host only ever validates that the sequence number is not the sentinel, so every input state
  may follow every other.\<close>

interpretation input: sync_state input_ops input_wf "\<lambda>_ _. True"
  by unfold_locales
    (auto simp: input_ops_def input_diff_apply input_full_diff_apply input_validate_def input_wf_def)

section \<open>Properties\<close>

text \<open>What the host's emulator promises of the screens it publishes.\<close>

definition publishes :: "screen_state \<Rightarrow> screen_state \<Rightarrow> bool" where
  "publishes cur next = (screen_wf next \<and> monotone_from cur next)"

definition screen_link ::
    "screen_diff codec \<Rightarrow> screen_state \<Rightarrow> screen_state \<Rightarrow> screen_state link_sys \<Rightarrow> bool" where
  "screen_link cdc s0 r0 S =
    (link_reach screen_ops cdc publishes s0 r0 S \<and> codec_ok cdc \<and> screen_wf s0 \<and> screen_wf r0
     \<and> monotone_from r0 s0 \<and> scr_seq r0 \<le> scr_seq s0)"

definition input_link ::
    "input_diff codec \<Rightarrow> input_state \<Rightarrow> input_state \<Rightarrow> input_state link_sys \<Rightarrow> bool" where
  "input_link cdc s0 r0 S =
    (link_reach input_ops cdc (\<lambda>_. input_wf) s0 r0 S \<and> codec_ok cdc \<and> input_wf s0 \<and> input_wf r0
     \<and> in_seq r0 \<le> in_seq s0)"

lemma ops_seq [simp]: "so_seq screen_ops = scr_seq" "so_seq input_ops = in_seq"
  by (simp_all add: screen_ops_def input_ops_def)

lemma screen_link_inv: "screen_link cdc s0 r0 S \<Longrightarrow> screen.link_inv cdc r0 S"
  unfolding screen_link_def publishes_def [abs_def]
  using screen.link_reach_inv [of cdc s0 r0 S] by simp

lemma input_link_inv: "input_link cdc s0 r0 S \<Longrightarrow> input.link_inv cdc r0 S"
  unfolding input_link_def
  using input.link_reach_inv [of cdc s0 r0 S] by simp

text \<open>A codec for one known diff, and a link whose host has published the sample screen.\<close>

definition one_diff_codec :: "'d \<Rightarrow> 'd codec" where
  "one_diff_codec d0 = \<lparr>to_stdvec = (\<lambda>d. if d = d0 then Inr [] else Inl []),
     from_bytes = (\<lambda>_. Inr d0), compress_to_vec = (\<lambda>b. b), decode_take = (\<lambda>n b. Inr (take n b))\<rparr>"

lemma one_diff_codec_ok: "codec_ok (one_diff_codec d0)"
  by (simp add: codec_ok_def one_diff_codec_def)

definition sample_cdc :: "screen_diff codec" where
  "sample_cdc = one_diff_codec (screen_full_diff sample_screen)"

definition sample_link :: "screen_state link_sys" where
  "sample_link = \<lparr>ls_sender = \<lparr>snd_ring = [blank_state 1 3, sample_screen], snd_peer_saw = 0,
       snd_last_ack_sent = 0\<rparr>,
     ls_receiver = receiver_new (blank_state 1 3), ls_frames = [], ls_acks = [],
     ls_hist = [blank_state 1 3, sample_screen]\<rparr>"

definition sample_frame :: frame where
  "sample_frame = \<lparr>f_my_state = 2, f_from_state = 0, f_ack_state = 0, f_flags = 0, f_payload = []\<rparr>"

lemma sample_seqs: "scr_seq sample_screen = 2" "scr_seq (blank_state r c) = 1"
  by (simp_all add: sample_screen_def blank_state_def)

lemma sample_published:
  "sender_update screen_ops (sender_new (blank_state 1 3)) sample_screen =
    \<lparr>snd_ring = [blank_state 1 3, sample_screen], snd_peer_saw = 0, snd_last_ack_sent = 0\<rparr>"
proof -
  have "sample_screen\<lparr>scr_seq := 2\<rparr> = sample_screen"
    by (simp add: sample_screen_def)
  then show ?thesis
    by (simp add: sender_update_def sender_new_def sender_current_def Let_def screen_ops_def cap_ring_eq
        STATE_RING_def sat_add_def sample_seqs)
qed

lemma sample_link_ok: "screen_link sample_cdc (blank_state 1 3) (blank_state 1 3) sample_link"
proof -
  let ?b = "blank_state 1 3"
  have wf: "screen_wf ?b" by (rule screen_wf_blank) simp_all
  have "monotone_from ?b sample_screen"
    by (simp add: monotone_from_def sample_screen_def blank_state_def)
  then have pub: "publishes (sender_current (ls_sender (link_init ?b ?b))) sample_screen"
    by (simp add: publishes_def screen_wf_sample link_init_def sender_new_def sender_current_def)
  have seq: "so_seq screen_ops (sender_current (ls_sender (link_init ?b ?b))) \<noteq> - 1"
    by (simp add: link_init_def sender_new_def sender_current_def screen_ops_def sample_seqs)
  let ?t = "sender_update screen_ops (ls_sender (link_init ?b ?b)) sample_screen"
  have "?t = ls_sender sample_link"
    by (simp add: link_init_def sample_published sample_link_def)
  then have "(link_init ?b ?b)\<lparr>ls_sender := ?t, ls_hist := ls_hist (link_init ?b ?b) @ [sender_current ?t]\<rparr>
      = sample_link"
    by (simp add: link_init_def sample_link_def sender_current_def)
  with link_step.update [of publishes "link_init ?b ?b" sample_screen screen_ops ?t sample_cdc,
      OF pub seq refl] link_reach.start
  have "link_reach screen_ops sample_cdc publishes ?b ?b sample_link"
    by (metis link_reach.step)
  with wf show ?thesis
    by (simp add: screen_link_def sample_cdc_def one_diff_codec_ok monotone_from_def)
qed

lemma sample_make_frame:
  "make_frame screen_ops sample_cdc (ls_sender sample_link) 0 =
    Inr (Some sample_frame, (ls_sender sample_link)\<lparr>snd_last_ack_sent := 0\<rparr>)"
  by (simp add: make_frame_def sample_link_def sender_current_def screen_ops_def sample_seqs
      sample_cdc_def one_diff_codec_def Let_def map_err_def pack_payload_def sample_frame_def)

lemma sample_frame_fits: "frame_fits sample_cdc sample_frame"
  by (simp add: frame_fits_def sample_frame_def)

text \<open>C4: one frame is enough. Whatever the network lost, repeated or reordered before, when the host
  makes a frame now and that one frame reaches the client, the client's screen is exactly the
  host's current screen.\<close>

theorem screen_one_frame_is_enough:
  assumes "screen_link cdc s0 r0 S"
    and "make_frame screen_ops cdc (ls_sender S) a = Inr (Some f, t)" and "frame_fits cdc f"
  shows "rcv_state (snd (on_frame screen_ops cdc (ls_receiver S) f)) = sender_current (ls_sender S)"
proof -
  have "codec_ok cdc" using assms(1) by (simp add: screen_link_def)
  with assms screen_link_inv [OF assms(1)] show ?thesis
    by (intro screen.one_frame_converges)
qed

theorem screen_one_frame_is_enough_witness:
  "rcv_state (snd (on_frame screen_ops sample_cdc (receiver_new (blank_state 1 3)) sample_frame))
    = sample_screen"
  using screen_one_frame_is_enough [OF sample_link_ok sample_make_frame sample_frame_fits]
  by (simp add: sample_link_def sender_current_def)

text \<open>The same link after the frame was delivered and its acknowledgement heard.\<close>

definition sample_sent :: "screen_state link_sys" where
  "sample_sent = sample_link\<lparr>ls_sender := (ls_sender sample_link)\<lparr>snd_last_ack_sent := 0\<rparr>,
     ls_frames := [sample_frame]\<rparr>"

definition sample_delivered :: "screen_state link_sys" where
  "sample_delivered = sample_sent\<lparr>ls_receiver :=
     snd (on_frame screen_ops sample_cdc (ls_receiver sample_sent) sample_frame)\<rparr>"

definition sample_acked :: "screen_state link_sys" where
  "sample_acked = sample_delivered\<lparr>ls_acks := [rcv_ack screen_ops (ls_receiver sample_delivered)]\<rparr>"

definition sample_synced :: "screen_state link_sys" where
  "sample_synced = sample_acked\<lparr>ls_sender :=
     on_ack (ls_sender sample_acked) (rcv_ack screen_ops (ls_receiver sample_delivered))\<rparr>"

abbreviation sample_reach :: "screen_state link_sys \<Rightarrow> bool" where
  "sample_reach \<equiv> link_reach screen_ops sample_cdc publishes (blank_state 1 3) (blank_state 1 3)"

lemma sample_link_reach: "screen_link sample_cdc (blank_state 1 3) (blank_state 1 3) S = sample_reach S"
  using sample_link_ok by (simp add: screen_link_def)

lemma sample_sent_ok: "sample_reach sample_sent"
proof -
  have "link_step screen_ops sample_cdc publishes sample_link sample_sent"
    using link_step.send [OF sample_make_frame sample_frame_fits, of publishes]
    by (simp add: sample_sent_def) (simp add: sample_link_def)
  then show ?thesis
    using link_reach.step sample_link_ok sample_link_reach by metis
qed

lemma sample_synced_ok: "sample_reach sample_synced"
proof -
  have "sample_reach sample_delivered"
    unfolding sample_delivered_def
    by (rule link_reach.step [OF sample_sent_ok link_step.deliver]) (simp add: sample_sent_def)
  moreover have "link_step screen_ops sample_cdc publishes sample_delivered sample_acked"
    using link_step.emit_ack [of screen_ops sample_cdc publishes sample_delivered]
    by (simp add: sample_acked_def) (simp add: sample_delivered_def sample_sent_def sample_link_def)
  ultimately have "sample_reach sample_acked"
    by (rule link_reach.step)
  then show ?thesis
    unfolding sample_synced_def
    by (rule link_reach.step [OF _ link_step.hear_ack]) (simp add: sample_acked_def)
qed

text \<open>C5: silence means agreement. When the host has nothing to send (no frame is due), the client's
  screen is exactly the host's current screen: an acknowledgement never claims a state the client
  does not hold.\<close>

theorem screen_silence_means_agreement:
  assumes "screen_link cdc s0 r0 S"
    and "make_frame screen_ops cdc (ls_sender S) a = Inr (None, t)"
  shows "rcv_state (ls_receiver S) = sender_current (ls_sender S)"
  using screen_link_inv [OF assms(1)] assms(2) by (rule screen.silence_means_converged)

theorem screen_silence_means_agreement_witness:
  "rcv_state (ls_receiver sample_synced) = sample_screen"
proof -
  have "on_frame screen_ops sample_cdc (receiver_new (blank_state 1 3)) sample_frame =
      (Inr True, commit screen_ops (receiver_new (blank_state 1 3)) sample_frame sample_screen)"
  proof -
    have "sample_screen\<lparr>scr_seq := 2\<rparr> = sample_screen" by (simp add: sample_screen_def)
    then have "screen_apply b 0 2 (screen_full_diff sample_screen) = Inr sample_screen" for b
      using screen_full_diff_apply [OF screen_wf_sample, of b 2] by simp
    moreover have "validate_transition sample_screen (blank_state 1 3) = Inr ()"
      using screen_wf_sample
      by (simp add: validate_transition_ok_iff screen_wf_def monotone_from_def)
        (simp add: sample_screen_def blank_state_def)
    moreover have "decode_payload sample_cdc sample_frame = Inr (screen_full_diff sample_screen)"
      by (simp add: decode_payload_def sample_frame_def sample_cdc_def one_diff_codec_def map_err_def)
    moreover have "(receiver_new (blank_state 1 3))\<lparr>rcv_peer_ack := 0\<rparr> = receiver_new (blank_state 1 3)"
      by (simp add: receiver_new_def)
    ultimately show ?thesis
      by (simp add: on_frame_def Let_def is_stale_def frame_base_def sample_seqs)
        (simp add: screen_ops_def receiver_new_def rcv_state_def sample_frame_def sample_seqs)
  qed
  then have "rcv_ack screen_ops (ls_receiver sample_delivered) = 2"
    by (simp add: sample_delivered_def sample_sent_def sample_link_def rcv_ack_def commit_state sample_seqs)
  then have "make_frame screen_ops sample_cdc (ls_sender sample_synced) 0 =
      Inr (None, ls_sender sample_synced)"
    by (simp add: make_frame_def Let_def sample_synced_def on_ack_def sample_acked_def sample_delivered_def
        sample_sent_def sample_link_def sender_current_def sample_seqs)
  moreover have "screen_link sample_cdc (blank_state 1 3) (blank_state 1 3) sample_synced"
    unfolding sample_link_reach by (rule sample_synced_ok)
  ultimately have "rcv_state (ls_receiver sample_synced) = sender_current (ls_sender sample_synced)"
    by (intro screen_silence_means_agreement)
  then show ?thesis
    by (simp add: sample_synced_def on_ack_def sample_acked_def sample_delivered_def sample_sent_def
        sample_link_def sender_current_def)
qed

text \<open>C6: no frame the host made is ever refused. Delivered whenever, however often and in whatever
  order, it is either stale and changes nothing of the screen, or it puts the client on exactly the
  state the frame names, a state the host really published.\<close>

theorem screen_frames_are_never_refused:
  assumes "screen_link cdc s0 r0 S" and "f \<in> set (ls_frames S)"
  shows "(case on_frame screen_ops cdc (ls_receiver S) f of
      (Inr False, r) \<Rightarrow> rcv_state r = rcv_state (ls_receiver S)
    | (Inr True, r) \<Rightarrow> rcv_state r \<in> set (ls_hist S) \<and> scr_seq (rcv_state r) = f_my_state f
    | (Inl e, r) \<Rightarrow> False)"
  using screen.delivery [OF screen_link_inv [OF assms(1)] assms(2)] unfolding ops_seq .

theorem screen_frames_are_never_refused_witness:
  "\<not> (\<exists>e r. on_frame screen_ops sample_cdc (ls_receiver sample_sent) sample_frame = (Inl e, r))"
proof -
  have "screen_link sample_cdc (blank_state 1 3) (blank_state 1 3) sample_sent"
    unfolding sample_link_reach by (rule sample_sent_ok)
  from screen_frames_are_never_refused [OF this, of sample_frame] show ?thesis
    by (auto simp: sample_sent_def)
qed

text \<open>The same engine carries the keyboard. One frame of the client's input state, whatever was
  lost before it, gives the host exactly the bytes the client still has pending, in order and
  without repetition, and the size the client wants.\<close>

theorem input_one_frame_is_enough:
  assumes "input_link cdc s0 r0 S"
    and "make_frame input_ops cdc (ls_sender S) a = Inr (Some f, t)" and "frame_fits cdc f"
  shows "rcv_state (snd (on_frame input_ops cdc (ls_receiver S) f)) = sender_current (ls_sender S)"
proof -
  have "codec_ok cdc" using assms(1) by (simp add: input_link_def)
  with assms input_link_inv [OF assms(1)] show ?thesis
    by (intro input.one_frame_converges)
qed

theorem input_one_frame_is_enough_witness:
  "let s = \<lparr>in_seq = 1, in_pending = [108, 115, 10], in_size = \<lparr>ts_cols = 80, ts_rows = 24\<rparr>\<rparr>;
       cdc = one_diff_codec (input_full_diff s)
   in rcv_state (snd (on_frame input_ops cdc (receiver_new (s\<lparr>in_pending := []\<rparr>))
        \<lparr>f_my_state = 1, f_from_state = 0, f_ack_state = 7, f_flags = 0, f_payload = []\<rparr>)) = s"
proof -
  define s where "s = \<lparr>in_seq = 1, in_pending = [108, 115, 10], in_size = \<lparr>ts_cols = 80, ts_rows = 24\<rparr>\<rparr>"
  let ?cdc = "one_diff_codec (input_full_diff s)" and ?r = "s\<lparr>in_pending := []\<rparr>"
  let ?f = "\<lparr>f_my_state = 1, f_from_state = 0, f_ack_state = 7, f_flags = 0, f_payload = []\<rparr>"
  have "input_link ?cdc s ?r (link_init s ?r)"
    by (simp add: input_link_def link_reach.start one_diff_codec_ok input_wf_def s_def)
  moreover have "make_frame input_ops ?cdc (ls_sender (link_init s ?r)) 7 =
      Inr (Some ?f, (ls_sender (link_init s ?r))\<lparr>snd_last_ack_sent := 7\<rparr>)"
    by (simp add: make_frame_def Let_def link_init_def sender_new_def sender_current_def)
      (simp add: input_ops_def one_diff_codec_def map_err_def pack_payload_def s_def)
  moreover have "frame_fits ?cdc ?f" by (simp add: frame_fits_def)
  ultimately have "rcv_state (snd (on_frame input_ops ?cdc (ls_receiver (link_init s ?r)) ?f))
      = sender_current (ls_sender (link_init s ?r))"
    by (rule input_one_frame_is_enough)
  then show ?thesis
    by (simp add: link_init_def sender_new_def sender_current_def Let_def s_def)
qed

end
