(* ===== verification/Client_Session.thy ===== *)
theory Client_Session
  imports Ui_Popup Rebuild Net_Path Link_Quality Activity_Log Client_Clipboard Client_Renderer Sync_Protocol
begin

text \<open>
  The client's half of a session, from \<open>src/session.rs\<close>: every method by which the loop, the keyboard, the
  link, the standby, a rebuild and the config screen change a \<open>ClientSession\<close>. What one step does to the
  outside -- what it paints, writes, sends, logs and closes -- is appended to \<open>cls_out\<close>, in order; what the
  outside answers meanwhile is the record \<open>outside\<close>. Libraries, and the wording of errors, warnings and
  paths, are the record \<open>client_lib\<close>. Writing to the terminal succeeds: a write that fails ends the session.

  Left out of the record are the startup splash, the previews of other sessions, the view last laid out
  and the time zone, which only decide what the popup's pane and overlay look like.
\<close>

section \<open>Data\<close>

record ('l, 'p) established =
  es_link :: 'l
  es_path :: 'p
  es_session_id :: ustr

record identity =
  id_target :: ustr
  id_session_id :: ustr

record outage_notes =
  on_ended :: "ustr option"
  on_attempts :: u32
  on_failed_attempts :: u32
  on_failed_at_switch :: "u32 option"

definition outage_notes_default :: outage_notes where
  "outage_notes_default = \<lparr>on_ended = None, on_attempts = 0, on_failed_attempts = 0, on_failed_at_switch = None\<rparr>"

datatype 'l effect =
    Painted "term_op list"
  | Wrote bytes
  | SentFrame frame
  | Logged ustr
  | Closed 'l string

definition c_REBUILT :: string where "c_REBUILT = ''replaced by a rebuilt link''"
definition c_SWITCHED :: string where "c_SWITCHED = ''switched to the standby link''"
definition MOVED_AWAY :: string where "MOVED_AWAY = ''the client moved to another session''"
definition QUIT :: string where "QUIT = ''the client quit''"

fun standby_reason :: "close_reason \<Rightarrow> string" where
  "standby_reason STALE = ''found for a link that has since been replaced''"
| "standby_reason SWITCHED_OFF = ''standby switched off in the config''"
| "standby_reason REBUILT = c_REBUILT"
| "standby_reason SWITCHED = c_SWITCHED"

record 'p client_lib =
  lb_screen :: "screen_diff codec"
  lb_input :: "input_diff codec"
  lb_ext :: config_ext
  lb_width :: "ustr \<Rightarrow> nat"
  lb_b64 :: "bytes \<Rightarrow> bytes"
  lb_error :: "config_error \<Rightarrow> ustr"
  lb_warning :: "warning \<Rightarrow> ustr"
  lb_secs :: "duration \<Rightarrow> ustr"
  lb_rung :: "'p \<Rightarrow> ustr"
  lb_rtt_ms :: "'p \<Rightarrow> nat"

text \<open>The instant and the wall clock of the step; the log file's answer to a line; the frames each turn of the
  step finds waiting; the pacing; the config file as read and whether it could be written; the route's source as
  probed, and whether a new socket could be put in.\<close>

record outside =
  nw_now :: instant
  nw_wall :: system_time
  nw_log :: os_answer
  nw_frames :: "nat \<Rightarrow> frame list"
  nw_pacing :: duration
  nw_file :: "ustr option"
  nw_writable :: bool
  nw_seen :: "ip_addr option"
  nw_rebound :: bool

record ('l, 'p) client =
  cls_screen_rx :: "screen_state receiver"
  cls_input_tx :: "input_state sender"
  cls_renderer :: renderer
  cls_link :: 'l
  cls_size :: term_size
  cls_last_send :: "instant option"
  cls_path :: "'p option"
  cls_link_state :: link_state
  cls_rejected_total :: u64
  cls_ui :: ui
  cls_quality :: quality
  cls_activity :: activity
  cls_identity :: "identity option"
  cls_route :: route_watch
  cls_probed_at :: "instant option"
  cls_rebuild :: "net_config rebuild option"
  cls_store :: store
  cls_last_failure :: "ustr option"
  cls_standby :: "(net_config, ('l, 'p) established) standby option"
  cls_outage :: outage_notes
  cls_config :: config_state
  cls_config_warned :: "ustr list"
  cls_standby_wanted :: bool
  cls_in_lobby :: bool
  cls_asking :: "ask option"
  cls_asked :: "ask option"
  cls_sessions :: "session_entry list"
  cls_net :: net_config
  cls_clipboard :: clipboard_relay
  cls_clipboard_on :: bool
  cls_open_selector :: bool
  cls_list_owed :: bool
  cls_out :: "'l effect list"

definition fresh_input :: "term_size \<Rightarrow> input_state" where
  "fresh_input sz = \<lparr>in_seq = 1, in_pending = [], in_size = sz\<rparr>"

definition client_new ::
  "term_size \<Rightarrow> terminal_caps \<Rightarrow> 'l \<Rightarrow> net_config rebuild option \<Rightarrow> store \<Rightarrow> config_ext \<Rightarrow> instant \<Rightarrow> ip_addr option
    \<Rightarrow> apply_error + ('l, 'p) client" where
  "client_new sz caps link rebuild store ext now seed =
    and_then (blank (ts_rows sz) (ts_cols sz)) (\<lambda>b.
    Inr \<lparr>cls_screen_rx = receiver_new b, cls_input_tx = sender_new (fresh_input sz),
         cls_renderer = renderer_new sz caps, cls_link = link, cls_size = sz, cls_last_send = None,
         cls_path = None, cls_link_state = link_new now, cls_rejected_total = 0, cls_ui = ui_new,
         cls_quality = quality_new now, cls_activity = activity_new, cls_identity = None,
         cls_route = watch_new seed, cls_probed_at = None, cls_rebuild = rebuild, cls_store = store,
         cls_last_failure = None, cls_standby = None, cls_outage = outage_notes_default,
         cls_config = config_state_defaults ext, cls_config_warned = [], cls_standby_wanted = True,
         cls_in_lobby = False, cls_asking = None, cls_asked = None, cls_sessions = [],
         cls_net = net_config_default, cls_clipboard = relay_new (caps_osc52 caps), cls_clipboard_on = True,
         cls_open_selector = False, cls_list_owed = False, cls_out = []\<rparr>)"

section \<open>The log and the link\<close>

definition emit :: "'l effect list \<Rightarrow> ('l, 'p) client \<Rightarrow> ('l, 'p) client" where
  "emit es s = s\<lparr>cls_out := cls_out s @ es\<rparr>"

definition log_with :: "ustr list \<times> activity \<Rightarrow> ('l, 'p) client \<Rightarrow> ('l, 'p) client" where
  "log_with r s = emit (map Logged (fst r)) (s\<lparr>cls_activity := snd r\<rparr>)"

definition client_record :: "outside \<Rightarrow> act_kind \<Rightarrow> ustr \<Rightarrow> ('l, 'p) client \<Rightarrow> ('l, 'p) client" where
  "client_record w k t s = log_with (act_record (nw_log w) k t (nw_wall w) (cls_activity s)) s"

definition client_detail :: "outside \<Rightarrow> act_kind \<Rightarrow> ustr \<Rightarrow> ('l, 'p) client \<Rightarrow> ('l, 'p) client" where
  "client_detail w k t s = log_with (record_detail (nw_log w) k t (nw_wall w) (cls_activity s)) s"

definition client_shown :: "outside \<Rightarrow> act_kind \<Rightarrow> ustr \<Rightarrow> ustr \<Rightarrow> ('l, 'p) client \<Rightarrow> ('l, 'p) client" where
  "client_shown w k t sh s = log_with (record_shown (nw_log w) k t sh (nw_wall w) (cls_activity s)) s"

definition byte_count :: "nat \<Rightarrow> ustr" where
  "byte_count n = (if n = 1 then str_of ''1 byte'' else dec_str n @ str_of '' bytes'')"

definition set_ui :: "(ui \<Rightarrow> ui) \<Rightarrow> ('l, 'p) client \<Rightarrow> ('l, 'p) client" where
  "set_ui f s = s\<lparr>cls_ui := f (cls_ui s)\<rparr>"

definition set_selector :: "(selector \<Rightarrow> selector) \<Rightarrow> ('l, 'p) client \<Rightarrow> ('l, 'p) client" where
  "set_selector f s = set_ui (\<lambda>u. u\<lparr>ui_selector := f (ui_selector u)\<rparr>) s"

definition set_link :: "(link_state \<Rightarrow> link_state) \<Rightarrow> ('l, 'p) client \<Rightarrow> ('l, 'p) client" where
  "set_link f s = s\<lparr>cls_link_state := f (cls_link_state s)\<rparr>"

section \<open>Requests\<close>

definition client_ask :: "ask \<Rightarrow> ('l, 'p) client \<Rightarrow> bool \<times> ('l, 'p) client" where
  "client_ask a s =
    (if cls_asking s \<noteq> None \<or> cls_asked s \<noteq> None then (False, s) else (True, s\<lparr>cls_asking := Some a\<rparr>))"

definition client_asking :: "('l, 'p) client \<Rightarrow> bool" where
  "client_asking s \<longleftrightarrow> cls_asking s \<noteq> None \<or> cls_asked s \<noteq> None"

definition take_ask :: "('l, 'p) client \<Rightarrow> ask option \<times> ('l, 'p) client" where
  "take_ask s =
    (case cls_asking s of None \<Rightarrow> (None, s) | Some a \<Rightarrow> (Some a, s\<lparr>cls_asking := None, cls_asked := Some a\<rparr>))"

definition fetch_list :: "('l, 'p) client \<Rightarrow> ('l, 'p) client" where
  "fetch_list s = (let (ok, s1) = client_ask AskSessions s in if \<not> ok then s1\<lparr>cls_list_owed := True\<rparr> else s1)"

definition label_of :: "session_id \<Rightarrow> ('l, 'p) client \<Rightarrow> ustr" where
  "label_of sid s =
    (case find (\<lambda>e. se_id e = sid) (cls_sessions s) of
       Some e \<Rightarrow> (case se_name e of Some n \<Rightarrow> legible n | None \<Rightarrow> sid_short sid)
     | None \<Rightarrow> sid_short sid)"

definition here :: "('l, 'p) client \<Rightarrow> session_id option" where
  "here s =
    (case cls_identity s of
       None \<Rightarrow> None
     | Some i \<Rightarrow> (case sid_from_str (id_session_id i) of Inr sid \<Rightarrow> Some sid | Inl _ \<Rightarrow> None))"

definition aim_rebuild :: "('l, 'p) client \<Rightarrow> ('l, 'p) client" where
  "aim_rebuild s =
    (case (if cls_in_lobby s then Some AimLobby
           else map_option (\<lambda>i. AimSession (id_session_id i)) (cls_identity s)) of
       None \<Rightarrow> s
     | Some a \<Rightarrow> s\<lparr>cls_rebuild := map_option (retarget a) (cls_rebuild s)\<rparr>)"

definition set_session_id :: "ustr \<Rightarrow> ('l, 'p) client \<Rightarrow> ('l, 'p) client" where
  "set_session_id sid s = s\<lparr>cls_identity := map_option (\<lambda>i. i\<lparr>id_session_id := sid\<rparr>) (cls_identity s)\<rparr>"

section \<open>Settings\<close>

definition client_apply :: "settings \<Rightarrow> ('l, 'p) client \<Rightarrow> ('l, 'p) client" where
  "client_apply st s =
    (let cfg = settings_net_config st in
     s\<lparr>cls_ui := ui_retune (st_popup_key st) (st_linger st) (effective_auto_open st) (cls_ui s),
       cls_link_state := retune (st_silent_after st) (effective_rebuild_after st) (cls_link_state s),
       cls_net := cfg,
       cls_rebuild := map_option (rb_retune cfg (st_connect_timeout st)) (cls_rebuild s),
       cls_standby := map_option (set_cfg cfg) (cls_standby s),
       cls_standby_wanted := st_standby st,
       cls_clipboard_on := st_clipboard st,
       cls_renderer := set_hyperlinks (st_hyperlinks st) (cls_renderer s)\<rparr>)"

definition record_config_warning :: "outside \<Rightarrow> ustr \<Rightarrow> ('l, 'p) client \<Rightarrow> ('l, 'p) client" where
  "record_config_warning w t s =
    (if t \<in> set (cls_config_warned s) then s
     else client_shown w KConfig t (str_of ''config: '' @ t) (s\<lparr>cls_config_warned := t # cls_config_warned s\<rparr>))"

definition close_all :: "(('l, 'p) established \<times> close_reason) list \<Rightarrow> ('l, 'p) client \<Rightarrow> ('l, 'p) client" where
  "close_all cs s = emit (map (\<lambda>(e, r). Closed (es_link e) (standby_reason r)) cs) s"

definition with_standby :: "(net_config, ('l, 'p) established) standby \<Rightarrow> ('l, 'p) client \<Rightarrow> ('l, 'p) client" where
  "with_standby sb s = s\<lparr>cls_standby := Some sb\<rparr>"

definition with_identity :: "identity \<Rightarrow> ('l, 'p) client \<Rightarrow> ('l, 'p) client" where
  "with_identity i s = s\<lparr>cls_identity := Some i\<rparr>"

definition with_lobby :: "('l, 'p) client \<Rightarrow> ('l, 'p) client" where
  "with_lobby s = s\<lparr>cls_in_lobby := True, cls_open_selector := True\<rparr>"

definition with_activity :: "activity \<Rightarrow> ('l, 'p) client \<Rightarrow> ('l, 'p) client" where
  "with_activity a s = s\<lparr>cls_activity := a\<rparr>"

definition enable_standby :: "bool \<Rightarrow> outside \<Rightarrow> ('l, 'p) client \<Rightarrow> ('l, 'p) client" where
  "enable_standby on w s =
    (case cls_standby s of
       None \<Rightarrow> s
     | Some sb \<Rightarrow> (let (sb', cs) = set_enabled on (nw_now w) sb in close_all cs (s\<lparr>cls_standby := Some sb'\<rparr>)))"

definition with_config :: "'p client_lib \<Rightarrow> outside \<Rightarrow> config_state \<Rightarrow> warning list \<Rightarrow> ('l, 'p) client \<Rightarrow> ('l, 'p) client" where
  "with_config lib w c warnings s =
    (let s1 = fold (\<lambda>x. record_config_warning w (lb_warning lib x)) warnings s;
         s2 = client_apply (cs_applied c) (s1\<lparr>cls_config := c\<rparr>)
     in enable_standby (st_standby (cs_applied c)) w s2)"

definition standby_switch :: "('l, 'p) client \<Rightarrow> bool option" where
  "standby_switch s =
    (case cls_standby s of
       None \<Rightarrow> None
     | Some sb \<Rightarrow> if enabled sb \<noteq> cls_standby_wanted s then Some (cls_standby_wanted s) else None)"

definition switch_standby :: "outside \<Rightarrow> bool \<Rightarrow> ('l, 'p) client \<Rightarrow> ('l, 'p) client" where
  "switch_standby w on s =
    (if cls_standby s = None then s
     else
       (let t = (if on then str_of ''switched on'' else str_of ''switched off'')
        in client_shown w KStandby t (str_of ''standby '' @ t) (enable_standby on w s)))"

definition client_config_set :: "'p client_lib \<Rightarrow> nat \<Rightarrow> setting_value \<Rightarrow> ('l, 'p) client \<Rightarrow> ('l, 'p) client" where
  "client_config_set lib row v s =
    (case config_set row v (cls_config s) of
       (Inr st, c) \<Rightarrow> set_ui ui_accepted (client_apply st (s\<lparr>cls_config := c\<rparr>))
     | (Inl e, c) \<Rightarrow> set_ui (ui_say (lb_error lib e)) (s\<lparr>cls_config := c\<rparr>))"

definition client_config_save :: "'p client_lib \<Rightarrow> outside \<Rightarrow> level \<Rightarrow> ('l, 'p) client \<Rightarrow> ('l, 'p) client" where
  "client_config_save lib w lv s0 =
    (let s = set_ui ui_accepted s0 in
     if cs_pending (cls_config s) = [] then set_ui (ui_say (str_of ''not saved: nothing has changed'')) s
     else case config_save (lb_ext lib) lv (nw_file w) (nw_writable w) (cls_config s) of
       (Inr warnings, c) \<Rightarrow>
         (let s1 = fold (\<lambda>x. record_config_warning w (lb_warning lib x)) warnings (s\<lparr>cls_config := c\<rparr>);
              whom = (case lv of LevelGlobal \<Rightarrow> str_of ''all hosts'' | LevelHost \<Rightarrow> legible (cs_target c));
              t = str_of ''saved for '' @ whom
          in set_ui (ui_say t) (client_detail w KConfig t s1))
     | (Inl e, c) \<Rightarrow>
         (let why = lb_error lib e
          in set_ui (ui_say (str_of ''not saved: '' @ summarised why))
               (client_shown w KConfig (str_of ''save failed: '' @ why) (str_of ''config not saved'') (s\<lparr>cls_config := c\<rparr>))))"

definition client_config_command :: "'p client_lib \<Rightarrow> outside \<Rightarrow> config_cmd \<Rightarrow> ('l, 'p) client \<Rightarrow> ('l, 'p) client" where
  "client_config_command lib w c s =
    (case c of
       CmdEdit row \<Rightarrow>
         (let v = fst (snd (row_shown (cls_config s) row)) in
          case (sg_shape (SETTINGS ! row), v) of
            (ShapeBool, VBool b) \<Rightarrow> client_config_set lib row (VBool (\<not> b)) s
          | (ShapeKey, _) \<Rightarrow> set_ui open_capture s
          | (ShapeServers, VList l) \<Rightarrow> set_ui (open_servers l) s
          | _ \<Rightarrow> set_ui (open_text (show_value (lb_ext lib) v)) s)
     | CmdAccept row t \<Rightarrow>
         (case parse_text (lb_ext lib) (sg_shape (SETTINGS ! row)) t of
            Inr v \<Rightarrow> client_config_set lib row v s
          | Inl e \<Rightarrow> set_ui (ui_say (lb_error lib e)) s)
     | CmdCapture row k \<Rightarrow>
         (case (case k of None \<Rightarrow> Inr None | Some b \<Rightarrow> check_key b) of
            Inr v \<Rightarrow> client_config_set lib row (VKey v) s
          | Inl e \<Rightarrow> set_ui (ui_say (lb_error lib e)) s)
     | CmdServers row l \<Rightarrow>
         (case check_servers l of
            Inr v \<Rightarrow> client_config_set lib row v s
          | Inl e \<Rightarrow> set_ui (ui_say (lb_error lib e)) s)
     | CmdReset row \<Rightarrow>
         (case config_reset row (cls_config s) of
            (Inr st, c') \<Rightarrow> client_apply st (s\<lparr>cls_config := c'\<rparr>)
          | (Inl e, c') \<Rightarrow> set_ui (ui_say (lb_error lib e)) (s\<lparr>cls_config := c'\<rparr>))
     | CmdSave lv \<Rightarrow> client_config_save lib w lv s)"

section \<open>A turn\<close>

record turn_report =
  ct_sent :: "frame option"
  ct_applied :: nat
  ct_rejected :: nat

definition note_heard :: "outside \<Rightarrow> ('l, 'p) client \<Rightarrow> ('l, 'p) client" where
  "note_heard w s = set_link (heard (nw_now w)) s"

definition note_sent :: "outside \<Rightarrow> ('l, 'p) client \<Rightarrow> ('l, 'p) client" where
  "note_sent w s = set_link (sent (nw_now w)) s"

text \<open>What a keystroke, a heartbeat and a new window size have in common: a new input state, due at once.\<close>

definition queue_input :: "bytes \<Rightarrow> ('l, 'p) client \<Rightarrow> ('l, 'p) client" where
  "queue_input bs s =
    s\<lparr>cls_input_tx := sender_update input_ops (cls_input_tx s) (input_append (sender_current (cls_input_tx s)) bs (cls_size s)),
      cls_last_send := None\<rparr>"

definition client_paint :: "'p client_lib \<Rightarrow> ('l, 'p) client \<Rightarrow> ('l, 'p) client" where
  "client_paint lib s =
    (let (ops, rd) = render (lb_width lib) (cls_renderer s) (rcv_state (cls_screen_rx s)) True
     in emit [Painted ops] (s\<lparr>cls_renderer := rd\<rparr>))"

text \<open>The body of the loop over the frames waiting, with whether anything landed.\<close>

definition client_frame ::
  "'p client_lib \<Rightarrow> outside \<Rightarrow> frame \<Rightarrow> bool \<times> turn_report \<times> ('l, 'p) client \<Rightarrow> bool \<times> turn_report \<times> ('l, 'p) client" where
  "client_frame lib w f st =
    (let (painted, tn, s) = st;
         (r, rx) = on_frame screen_ops (lb_screen lib) (cls_screen_rx s) f;
         s1 = s\<lparr>cls_screen_rx := rx\<rparr>
     in case r of
          Inr applied \<Rightarrow>
            (let (painted, tn, s2) =
               (if applied then
                  (let (osc, relay) = on_state (lb_b64 lib) (here s1) (scr_clipboard (rcv_state rx))
                         (cls_clipboard_on s1) (cls_clipboard s1);
                       s2 = s1\<lparr>cls_clipboard := relay\<rparr>
                   in (True, tn\<lparr>ct_applied := ct_applied tn + 1\<rparr>, case osc of Some bs \<Rightarrow> emit [Wrote bs] s2 | None \<Rightarrow> s2))
                else (painted, tn, s1))
             in (painted, tn, note_heard w s2))
        | Inl _ \<Rightarrow>
            (painted, tn\<lparr>ct_rejected := ct_rejected tn + 1\<rparr>,
             s1\<lparr>cls_rejected_total := sat_add (cls_rejected_total s1) 1\<rparr>))"

definition take_frames :: "'p client_lib \<Rightarrow> outside \<Rightarrow> frame list \<Rightarrow> turn_report \<Rightarrow> ('l, 'p) client \<Rightarrow> turn_report \<times> ('l, 'p) client" where
  "take_frames lib w frames tn s =
    (let (painted, tn, s1) = fold (client_frame lib w) frames (False, tn, s)
     in (tn, if painted then client_paint lib s1 else s1))"

definition client_due :: "outside \<Rightarrow> ('l, 'p) client \<Rightarrow> bool" where
  "client_due w s =
    (case cls_last_send s of None \<Rightarrow> True | Some t \<Rightarrow> duration_since (nw_now w) t \<ge> nw_pacing w)"

definition client_offer :: "'p client_lib \<Rightarrow> outside \<Rightarrow> ('l, 'p) client \<Rightarrow> frame option \<times> ('l, 'p) client" where
  "client_offer lib w s =
    (if \<not> client_due w s then (None, s)
     else
       (let tx = on_ack (cls_input_tx s) (rcv_peer_ack (cls_screen_rx s))
        in case make_frame input_ops (lb_input lib) tx (rcv_ack screen_ops (cls_screen_rx s)) of
             Inr (Some f, tx') \<Rightarrow> (Some f, emit [SentFrame f] (s\<lparr>cls_input_tx := tx', cls_last_send := Some (nw_now w)\<rparr>))
           | Inr (None, tx') \<Rightarrow> (None, s\<lparr>cls_input_tx := tx'\<rparr>)
           | Inl _ \<Rightarrow> (None, s\<lparr>cls_input_tx := tx\<rparr>)))"

definition client_turn :: "'p client_lib \<Rightarrow> outside \<Rightarrow> bytes \<Rightarrow> frame list \<Rightarrow> ('l, 'p) client \<Rightarrow> turn_report \<times> ('l, 'p) client" where
  "client_turn lib w input frames s =
    (let s1 = (if input \<noteq> [] then queue_input input s else s);
         (tn, s2) = take_frames lib w frames \<lparr>ct_sent = None, ct_applied = 0, ct_rejected = 0\<rparr> s1;
         (f, s3) = client_offer lib w s2
     in (tn\<lparr>ct_sent := f\<rparr>, s3))"

text \<open>The loop's arm for a frame: the host is heard, then the turn takes the frame and what follows it.\<close>

definition wake_frame :: "'p client_lib \<Rightarrow> outside \<Rightarrow> frame \<Rightarrow> ('l, 'p) client \<Rightarrow> ('l, 'p) client" where
  "wake_frame lib w f s = snd (client_turn lib w [] (f # nw_frames w 0) (note_heard w s))"

definition heartbeat :: "outside \<Rightarrow> ('l, 'p) client \<Rightarrow> bool \<times> ('l, 'p) client" where
  "heartbeat w s =
    (if \<not> heartbeat_due (nw_now w) (cls_link_state s) then (False, s)
     else (True, note_sent w (queue_input [] s)))"

definition client_resize :: "term_size \<Rightarrow> ('l, 'p) client \<Rightarrow> ('l, 'p) client" where
  "client_resize sz s =
    (if sz = cls_size s then s
     else queue_input [] (s\<lparr>cls_renderer := rd_resize sz (cls_renderer s), cls_size := sz\<rparr>))"

section \<open>Keys\<close>

datatype ended = EndedExited int | EndedQuit "ustr option"

definition client_quit :: "('l, 'p) client \<Rightarrow> ended \<times> ('l, 'p) client" where
  "client_quit s =
    (let s1 = emit ([Closed (cls_link s) QUIT]
           @ (case cls_standby s of
                Some sb \<Rightarrow> (case sb_link sb of Some e \<Rightarrow> [Closed (es_link e) QUIT] | None \<Rightarrow> [])
              | None \<Rightarrow> [])) s
     in (EndedQuit (if cls_in_lobby s then None else map_option id_session_id (cls_identity s)), s1))"

definition client_command :: "'p client_lib \<Rightarrow> outside \<Rightarrow> command option \<Rightarrow> ('l, 'p) client \<Rightarrow> ended option \<times> ('l, 'p) client" where
  "client_command lib w c s =
    (case c of
       None \<Rightarrow> (None, s)
     | Some CmdQuit \<Rightarrow> (let (e, s1) = client_quit s in (Some e, s1))
     | Some SendHeld \<Rightarrow>
         (let (bs, l) = take_held (cls_link_state s);
              s1 = client_record w KInput (str_of ''held input sent ('' @ byte_count (length bs) @ str_of '')'')
                     (s\<lparr>cls_link_state := l\<rparr>)
          in (None, snd (client_turn lib w bs (nw_frames w 1) s1)))
     | Some Ui_Popup.DropHeld \<Rightarrow>
         (let n = byte_count (length (ls_held (cls_link_state s)))
          in (None, client_record w KInput (str_of ''held input dropped ('' @ n @ str_of '')'') (set_link drop_held s)))
     | Some (CmdConfig cc) \<Rightarrow> (None, client_config_command lib w cc s)
     | Some (CmdAsk a) \<Rightarrow>
         (None,
          if a = AskSessions then fetch_list s
          else (let (ok, s1) = client_ask a s
                in if ok then s1 else set_selector (sel_fail (str_of ''waiting for the host to answer'')) s1)))"

definition route_keys :: "'p client_lib \<Rightarrow> outside \<Rightarrow> bytes \<Rightarrow> ('l, 'p) client \<Rightarrow> ended option \<times> ('l, 'p) client" where
  "route_keys lib w keys s =
    (let ph = ls_phase (cls_link_state s);
         u = set_switcher (cls_in_lobby s) (client_asking s) (cls_ui s);
         (u1, r) = ui_keys keys ph (nw_now w) u;
         s1 = s\<lparr>cls_ui := u1\<rparr>;
         s2 = (if to_host r \<noteq> [] then snd (client_turn lib w (to_host r) (nw_frames w 0) s1) else s1);
         s3 = (if to_hold r \<noteq> [] then set_link (hold_keys (to_hold r)) s2 else s2)
     in client_command lib w (command r) s3)"

section \<open>A lap\<close>

definition outage_summary :: "'p client_lib \<Rightarrow> duration \<Rightarrow> outage_notes \<Rightarrow> ustr \<times> ustr" where
  "outage_summary lib len n =
    (let text = lb_secs lib len @ str_of '' s '' @ [0x2192] @ str_of '' ''
           @ (case on_ended n of Some t \<Rightarrow> t | None \<Rightarrow> str_of ''came back by itself'');
         k = (case on_failed_at_switch n of Some k \<Rightarrow> k | None \<Rightarrow> on_failed_attempts n);
         text = text @ (if k = 0 then [] else if k = 1 then str_of '' after 1 failed ssh attempt''
           else str_of '' after '' @ dec_str (unat k) @ str_of '' failed ssh attempts'')
     in (text, str_of ''outage '' @ text))"

definition path_label :: "'p client_lib \<Rightarrow> 'p option \<Rightarrow> ustr" where
  "path_label lib p = (case p of None \<Rightarrow> str_of ''this link'' | Some d \<Rightarrow> lb_rung lib d)"

text \<open>\<open>layer_at\<close> up to what it shows: whether the popup is up.\<close>

definition layer_at :: "'p client_lib \<Rightarrow> outside \<Rightarrow> ('l, 'p) client \<Rightarrow> bool \<times> ('l, 'p) client" where
  "layer_at lib w s0 =
    (let s = (if cls_open_selector s0
              then fetch_list (set_ui open_sessions (s0\<lparr>cls_open_selector := False\<rparr>)) else s0);
         owed = in_seq (sender_current (cls_input_tx s)) \<noteq> rcv_peer_ack (cls_screen_rx s);
         (ph, l) = evaluate (nw_now w) owed (cls_link_state s);
         (ch, u) = tick ph (nw_now w) (cls_ui s);
         s1 = s\<lparr>cls_link_state := l, cls_ui := u\<rparr>;
         s2 = (case ch of
             Some WentSilent \<Rightarrow> client_detail w KLink (str_of ''silent'') (s1\<lparr>cls_outage := outage_notes_default\<rparr>)
           | Some (Back outage) \<Rightarrow>
               (let t = str_of ''live again via '' @ path_label lib (cls_path s1) @ str_of '', outage '' @ lb_secs lib outage @ str_of '' s'';
                    (text, sh) = outage_summary lib outage (cls_outage s1);
                    s2 = client_shown w KOutage text sh
                           ((client_detail w KLink t s1)\<lparr>cls_outage := outage_notes_default\<rparr>)
                in if ui_mode (cls_ui s2) = Sessions \<and> sl_list_failed (ui_selector (cls_ui s2)) \<noteq> None
                   then fetch_list s2 else s2)
           | None \<Rightarrow> s1)
     in (visible ph (cls_ui s2), s2))"

definition take_sample :: "outside \<Rightarrow> reading \<Rightarrow> ('l, 'p) client \<Rightarrow> ('l, 'p) client" where
  "take_sample w rd s =
    (let q = quality_push (nw_now w) rd (is_outage (ls_phase (cls_link_state s))) (cls_quality s);
         s1 = s\<lparr>cls_quality := q\<rparr>
     in case mtu_reduced q of
          Some m \<Rightarrow> client_record w KLink (str_of ''path MTU reduced to '' @ dec_str (unat m)) s1
        | None \<Rightarrow> s1)"

definition sample_quality :: "outside \<Rightarrow> reading \<Rightarrow> ('l, 'p) client \<Rightarrow> ('l, 'p) client" where
  "sample_quality w rd s = (if \<not> sample_due (nw_now w) (cls_quality s) then s else take_sample w rd s)"

definition ROUTE_PROBE_EVERY :: duration where "ROUTE_PROBE_EVERY = from_secs 1"

definition follow_route :: "outside \<Rightarrow> ('l, 'p) client \<Rightarrow> bool \<times> ('l, 'p) client" where
  "follow_route w s =
    (if \<not> is_outage (ls_phase (cls_link_state s)) then (False, s\<lparr>cls_probed_at := None\<rparr>)
     else if (case cls_probed_at s of Some t \<Rightarrow> duration_since (nw_now w) t < ROUTE_PROBE_EVERY | None \<Rightarrow> False) then (False, s)
     else
       (let s1 = s\<lparr>cls_probed_at := Some (nw_now w)\<rparr>
        in case nw_seen w of
             None \<Rightarrow> (False, s1)
           | Some seen \<Rightarrow>
               if \<not> moved (cls_route s1) seen then (False, s1\<lparr>cls_route := settle seen (cls_route s1)\<rparr>)
               else if \<not> nw_rebound w then (False, s1)
               else (True, s1\<lparr>cls_route := settle seen (cls_route s1)\<rparr>)))"

section \<open>Another link\<close>

definition swap_in_as :: "outside \<Rightarrow> 'l \<Rightarrow> string \<Rightarrow> ('l, 'p) client \<Rightarrow> apply_error + ('l, 'p) client" where
  "swap_in_as w link reason s =
    and_then (blank (ts_rows (cls_size s)) (ts_cols (cls_size s))) (\<lambda>b.
    Inr ((emit [Closed (cls_link s) reason] s)\<lparr>cls_link := link, cls_screen_rx := receiver_new b,
      cls_input_tx := sender_new (fresh_input (cls_size s)), cls_last_send := None,
      cls_route := watch_new (nw_seen w), cls_probed_at := None, cls_last_failure := None,
      cls_link_state := rebuilt (nw_now w) (cls_link_state s), cls_quality := new_segment (nw_now w) (cls_quality s)\<rparr>))"

definition forget_standby :: "outside \<Rightarrow> ('l, 'p) client \<Rightarrow> ('l, 'p) client" where
  "forget_standby w s =
    (case cls_standby s of
       None \<Rightarrow> s
     | Some sb \<Rightarrow> (let (sb', cs) = forget (nw_now w) sb in close_all cs (s\<lparr>cls_standby := Some sb'\<rparr>)))"

definition swap_in :: "outside \<Rightarrow> 'l \<Rightarrow> ('l, 'p) client \<Rightarrow> apply_error + ('l, 'p) client" where
  "swap_in w link s =
    and_then (swap_in_as w link c_REBUILT s) (\<lambda>s1.
    Inr (forget_standby w (s1\<lparr>cls_rebuild := map_option swapped (cls_rebuild s1)\<rparr>)))"

definition client_moved :: "outside \<Rightarrow> ('l, 'p) established \<Rightarrow> ('l, 'p) client \<Rightarrow> apply_error + ('l, 'p) client" where
  "client_moved w e s =
    and_then (swap_in_as w (es_link e) MOVED_AWAY (s\<lparr>cls_rebuild := map_option stood_down (cls_rebuild s)\<rparr>)) (\<lambda>s1.
    Inr ((aim_rebuild (set_session_id (es_session_id e) ((forget_standby w s1)\<lparr>cls_in_lobby := False\<rparr>)))\<lparr>cls_path := Some (es_path e)\<rparr>))"

text \<open>\<open>split_once(" (")\<close>\<close>

fun split_paren :: "ustr \<Rightarrow> (ustr \<times> ustr) option" where
  "split_paren (a # b # s) =
    (if a = 32 \<and> b = 40 then Some ([], s) else map_option (\<lambda>(h, t). (a # h, t)) (split_paren (b # s)))"
| "split_paren s = None"

definition in_parens :: "ustr \<Rightarrow> ustr" where
  "in_parens label =
    (case (if label \<noteq> [] \<and> last label = 41 then split_paren (butlast label) else None) of
       Some (h, t) \<Rightarrow> str_of ''('' @ h @ str_of '', '' @ t @ str_of '')''
     | None \<Rightarrow> str_of ''('' @ label @ str_of '')'')"

section \<open>Answers\<close>

datatype ('l, 'p) answered =
    ASessions "session_entry list"
  | ALanded "('l, 'p) established"
  | AStarted session_entry
  | AKilled session_id
  | ARenamed session_entry
  | AFailed ustr

definition landed_label :: "('l, 'p) established \<Rightarrow> ask option \<Rightarrow> ('l, 'p) client \<Rightarrow> ustr" where
  "landed_label e req s =
    (case req of
       Some (AskSwitch to) \<Rightarrow> str_of ''switched to '' @ label_of to s
     | Some (AskNew (Some n)) \<Rightarrow> str_of ''new session '' @ legible n
     | _ \<Rightarrow> (case sid_from_str (es_session_id e) of
           Inr sid \<Rightarrow> str_of ''new session '' @ sid_short sid
         | Inl _ \<Rightarrow> str_of ''new session''))"

definition failed_what :: "ask option \<Rightarrow> ('l, 'p) client \<Rightarrow> ustr" where
  "failed_what req s =
    (case req of
       Some AskSessions \<Rightarrow> str_of ''listing the sessions''
     | Some (AskSwitch to) \<Rightarrow> str_of ''switching to '' @ label_of to s
     | Some (AskNew _) \<Rightarrow> str_of ''starting a new session''
     | Some (AskKill sid) \<Rightarrow> str_of ''killing '' @ label_of sid s
     | Some (AskRename sid _) \<Rightarrow> str_of ''renaming '' @ label_of sid s
     | None \<Rightarrow> str_of ''a request'')"

definition take_answer ::
  "outside \<Rightarrow> ('l, 'p) answered \<Rightarrow> ('l, 'p) client \<Rightarrow> apply_error + bool \<times> ('l, 'p) client" where
  "take_answer w a s0 =
    (let req = cls_asked s0; s = s0\<lparr>cls_asked := None\<rparr> in
     case a of
       ASessions l \<Rightarrow> Inr (False, (set_selector (set_rows l) s)\<lparr>cls_sessions := l\<rparr>)
     | ALanded e \<Rightarrow>
         (let label = landed_label e req s
          in and_then (client_moved w e s) (\<lambda>s1. Inr (True, set_ui close_popup (client_shown w KSession label label s1))))
     | AStarted en \<Rightarrow>
         (let s1 = aim_rebuild (set_session_id (sid_display (se_id en)) (s\<lparr>cls_in_lobby := False\<rparr>));
              label = str_of ''new session '' @ (case se_name en of Some n \<Rightarrow> legible n | None \<Rightarrow> sid_short (se_id en))
          in Inr (False, set_ui close_popup
               (client_shown w KSession label label (s1\<lparr>cls_renderer := invalidate (cls_renderer s1)\<rparr>))))
     | AKilled sid \<Rightarrow>
         (let label = str_of ''killed '' @ label_of sid s;
              s1 = fetch_list (client_shown w KSession label label s)
          in if Some sid \<noteq> here s1 then Inr (False, s1)
             else
               (let s2 = s1\<lparr>cls_in_lobby := True\<rparr>;
                    s3 = (if ui_mode (cls_ui s2) \<noteq> Sessions then set_ui open_sessions s2 else s2)
                in Inr (True, forget_standby w (aim_rebuild s3))))
     | ARenamed en \<Rightarrow>
         (let label = (case se_name en of
              Some n \<Rightarrow> str_of ''renamed '' @ sid_short (se_id en) @ str_of '' to '' @ legible n
            | None \<Rightarrow> sid_short (se_id en) @ str_of '' has no name now'')
          in Inr (False, fetch_list (client_shown w KSession label label s)))
     | AFailed why \<Rightarrow>
         (let what = failed_what req s;
              s1 = client_shown w KSession (what @ str_of '' failed: '' @ why) (what @ str_of '' failed'') s;
              line = what @ str_of '' failed: '' @ summarised why
          in Inr (False, if req = Some AskSessions then set_selector (fail_list line) s1
                         else set_selector (sel_fail line) s1)))"

definition client_answered ::
  "outside \<Rightarrow> ('l, 'p) answered \<Rightarrow> ('l, 'p) client \<Rightarrow> apply_error + bool \<times> ('l, 'p) client" where
  "client_answered w a s =
    and_then (take_answer w a s) (\<lambda>(gone, s1).
    (let owed = cls_list_owed s1; s2 = s1\<lparr>cls_list_owed := False\<rparr>
     in Inr (gone, if owed \<and> ui_mode (cls_ui s2) = Sessions then snd (client_ask AskSessions s2) else s2)))"

section \<open>Recovery\<close>

definition rebuild_step :: "outside \<Rightarrow> ('l, 'p) client \<Rightarrow> ('l, 'p) client" where
  "rebuild_step w s =
    (case cls_rebuild s of
       None \<Rightarrow> s
     | Some r \<Rightarrow>
         (case ls_phase (cls_link_state s) of
            Recovering _ next_try \<Rightarrow>
              if is_running r \<or> nw_now w < next_try then s
              else
                (let (r', h) = begin_rebuild (nw_now w) r (cls_store s);
                     n = cls_outage s;
                     s1 = (set_link (begin_attempt (nw_now w)) s)\<lparr>cls_rebuild := Some r', cls_store := h,
                            cls_outage := n\<lparr>on_failed_at_switch := None, on_attempts := sat_add (on_attempts n) 1\<rparr>\<rparr>
                 in client_detail w KRebuild (str_of ''attempt '' @ dec_str (unat (on_attempts (cls_outage s1))) @ str_of '' started'') s1)
          | _ \<Rightarrow> s\<lparr>cls_rebuild := Some (stood_down r), cls_last_failure := None\<rparr>))"

definition record_attempt_failed :: "outside \<Rightarrow> ustr \<Rightarrow> ('l, 'p) client \<Rightarrow> ('l, 'p) client" where
  "record_attempt_failed w why s =
    (case ls_phase (cls_link_state s) of
       Recovering _ _ \<Rightarrow>
         client_detail w KRebuild (str_of ''attempt '' @ dec_str (unat (on_attempts (cls_outage s))) @ str_of '' failed: '' @ why) s
     | _ \<Rightarrow> s)"

definition rebuild_failed :: "outside \<Rightarrow> ustr \<Rightarrow> ('l, 'p) client \<Rightarrow> ('l, 'p) client" where
  "rebuild_failed w why s =
    (let s1 = record_attempt_failed w why s; n = cls_outage s1
     in (set_link (attempt_failed (nw_now w)) (s1\<lparr>cls_outage := n\<lparr>on_failed_attempts := sat_add (on_failed_attempts n) 1\<rparr>\<rparr>))
          \<lparr>cls_last_failure := Some why\<rparr>)"

definition rebuild_landed ::
  "'p client_lib \<Rightarrow> outside \<Rightarrow> ('l, 'p) established \<Rightarrow> ('l, 'p) client \<Rightarrow> apply_error + ('l, 'p) client" where
  "rebuild_landed lib w e s =
    (let ends = is_outage (ls_phase (cls_link_state s)) in
     and_then (swap_in w (es_link e) s) (\<lambda>s1.
     (let label = lb_rung lib (es_path e);
          s2 = (if ends then
                  (let s2 = client_detail w KRebuild (str_of ''landed via '' @ label) s1
                   in s2\<lparr>cls_outage := (cls_outage s2)\<lparr>on_ended := Some (str_of ''rebuilt over ssh '' @ in_parens label),
                        on_failed_at_switch := None\<rparr>\<rparr>)
                else client_detail w KRebuild (str_of ''landed via '' @ label @ str_of '' after the old link came back'') s1);
          s3 = (if cls_in_lobby s2 then
                  (let s3 = set_session_id (es_session_id e) s2
                   in if ui_mode (cls_ui s3) = Sessions then fetch_list s3 else s3)
                else s2)
      in Inr (s3\<lparr>cls_path := Some (es_path e)\<rparr>))))"

text \<open>Why the session ends: no screen can be built, or the host refused to resume it, with the last log entry made.\<close>

datatype ('l, 'p) client_end = EndBlank apply_error | EndRefused ustr "('l, 'p) client"

definition rebuild_reported ::
  "'p client_lib \<Rightarrow> outside \<Rightarrow> ('l, 'p) established report \<Rightarrow> ('l, 'p) client \<Rightarrow> ('l, 'p) client_end + bool \<times> ('l, 'p) client" where
  "rebuild_reported lib w rep s =
    (case cls_rebuild s of
       None \<Rightarrow> Inr (False, s)
     | Some r \<Rightarrow>
         (let (out, r') = accept rep r; s1 = s\<lparr>cls_rebuild := Some r'\<rparr>
          in case out of
               None \<Rightarrow> Inr (False, s1)
             | Some (Landed e) \<Rightarrow> and_then (map_err EndBlank (rebuild_landed lib w e s1)) (\<lambda>s2. Inr (True, s2))
             | Some (Retry why) \<Rightarrow> Inr (False, rebuild_failed w why s1)
             | Some (Definite why) \<Rightarrow> Inl (EndRefused why (record_attempt_failed w why s1))))"

definition client_rebuild_stage :: "('l, 'p) client \<Rightarrow> rebuild_stage" where
  "client_rebuild_stage s =
    (case cls_rebuild s of None \<Rightarrow> StageIdle | Some r \<Rightarrow> stage r (cls_store s))"

definition client_fail_over ::
  "'p client_lib \<Rightarrow> outside \<Rightarrow> ('l, 'p) client \<Rightarrow> apply_error + bool \<times> ('l, 'p) client" where
  "client_fail_over lib w s =
    (case cls_standby s of
       None \<Rightarrow> Inr (False, s)
     | Some sb \<Rightarrow>
         (let (taken, sb', ro, h) = fail_over (nw_now w) sb (cls_rebuild s) (cls_store s);
              s1 = s\<lparr>cls_standby := Some sb', cls_rebuild := ro, cls_store := h\<rparr>;
              abandoned = (case cls_rebuild s of Some r \<Rightarrow> is_running r | None \<Rightarrow> False)
                \<and> (case ro of Some r \<Rightarrow> \<not> is_running r | None \<Rightarrow> False);
              s2 = (if abandoned then client_detail w KRebuild
                      (str_of ''attempt '' @ dec_str (unat (on_attempts (cls_outage s1))) @ str_of '' abandoned: standby answered'') s1
                    else s1)
          in case taken of
               None \<Rightarrow> Inr (False, s2)
             | Some e \<Rightarrow>
                 and_then (swap_in_as w (es_link e) c_SWITCHED s2) (\<lambda>s3.
                 (let label = lb_rung lib (es_path e);
                      s4 = client_detail w KFailover (str_of ''switched to standby ('' @ label @ str_of '')'') s3;
                      n = cls_outage s4;
                      s5 = s4\<lparr>cls_outage := n\<lparr>on_ended := Some (str_of ''switched to standby '' @ in_parens label),
                             on_failed_at_switch := Some (on_failed_attempts n)\<rparr>, cls_path := Some (es_path e)\<rparr>
                  in Inr (True, snd (client_turn lib w [] (nw_frames w 0) s5))))))"

definition client_standby_step :: "outside \<Rightarrow> phase \<Rightarrow> rebuild_stage \<Rightarrow> ('l, 'p) client \<Rightarrow> standby_action \<times> ('l, 'p) client" where
  "client_standby_step w ph rb s =
    (case (if cls_in_lobby s then None else cls_standby s) of
       None \<Rightarrow> (DoNothing, s)
     | Some sb \<Rightarrow>
         (let first_probe = (sb_probe sb = ProbeIdle);
              (a, sb') = standby_step ph (nw_now w) rb sb;
              s1 = s\<lparr>cls_standby := Some sb'\<rparr>
          in (a, case a of
                   DoSearch _ \<Rightarrow> client_detail w KStandby (str_of ''search started'') s1
                 | DoProbe _ \<Rightarrow> if first_probe then client_detail w KFailover (str_of ''probing standby'') s1 else s1
                 | _ \<Rightarrow> s1)))"

datatype ('l, 'p) standby_news = NewsFound u64 "('l, 'p) established" | NewsNotFound u64 ustr | NewsProbed bool

definition on_standby_event :: "'p client_lib \<Rightarrow> outside \<Rightarrow> ('l, 'p) standby_news \<Rightarrow> ('l, 'p) client \<Rightarrow> ('l, 'p) client" where
  "on_standby_event lib w ev s =
    (case cls_standby s of
       None \<Rightarrow> s
     | Some sb \<Rightarrow>
         (case ev of
            NewsFound search e \<Rightarrow>
              (let (kept, sb', cs) = found search e sb; s1 = close_all cs (s\<lparr>cls_standby := Some sb'\<rparr>);
                   t = str_of ''found '' @ lb_rung lib (es_path e) @ str_of '', '' @ dec_str (lb_rtt_ms lib (es_path e)) @ str_of '' ms''
               in if \<not> kept then s1 else client_shown w KStandby t (str_of ''standby '' @ t) s1)
          | NewsNotFound search why \<Rightarrow>
              (let (ok, sb') = not_found search (nw_now w) why sb; s1 = s\<lparr>cls_standby := Some sb'\<rparr>
               in if ok then client_shown w KStandby (str_of ''not found: '' @ why) (str_of ''no second path found'') s1 else s1)
          | NewsProbed answered \<Rightarrow>
              (let (ok, sb') = probed answered (nw_now w) sb; s1 = s\<lparr>cls_standby := Some sb'\<rparr>
               in if ok then client_detail w KFailover (if answered then str_of ''probe answered'' else str_of ''probe failed'') s1
                  else s1)))"

text \<open>\<open>reason.split(": ").next()\<close>\<close>

fun before_colon :: "ustr \<Rightarrow> ustr" where
  "before_colon (a # b # s) = (if a = 58 \<and> b = 32 then [] else a # before_colon (b # s))"
| "before_colon s = s"

definition on_standby_closed :: "outside \<Rightarrow> connection_error \<Rightarrow> ustr \<Rightarrow> ('l, 'p) client \<Rightarrow> ('l, 'p) client" where
  "on_standby_closed w reason words s =
    (case cls_standby s of
       None \<Rightarrow> s
     | Some sb \<Rightarrow>
         (let (tell, sb') = lost (nw_now w) reason sb; s1 = s\<lparr>cls_standby := Some sb'\<rparr>
          in if tell then client_shown w KStandby (str_of ''lost: '' @ words)
                 (str_of ''standby lost: '' @ summarised (before_colon words)) s1
             else s1))"

end
