(* ===== verification/Client_Loop.thy ===== *)
theory Client_Loop
  imports Client_Session
begin

text \<open>
  What holds of a client session whatever its loop does, in whatever order: the methods of \<open>Client_Session\<close>
  as the events of one system. The lemmas show that the settings the session runs with are in force in
  every part that uses them, and where every typed byte is.
\<close>

section \<open>What each step leaves alone\<close>

definition tuned :: "ui \<Rightarrow> u8 option \<times> duration \<times> duration option" where
  "tuned u = (ui_key u, ui_linger u, ui_auto_open_after u)"

lemma tuned_simps [simp]:
  "tuned (u\<lparr>ui_mode := m\<rparr>) = tuned u" "tuned (u\<lparr>ui_dismissed := d\<rparr>) = tuned u" "tuned (u\<lparr>ui_outage_since := o'\<rparr>) = tuned u"
  "tuned (u\<lparr>ui_last_outage := lo\<rparr>) = tuned u" "tuned (u\<lparr>ui_asked_at := a\<rparr>) = tuned u"
  "tuned (u\<lparr>ui_config_decided := cd\<rparr>) = tuned u" "tuned (u\<lparr>ui_field := f\<rparr>) = tuned u"
  "tuned (u\<lparr>ui_servers := sv\<rparr>) = tuned u" "tuned (u\<lparr>ui_proposed := pr\<rparr>) = tuned u"
  "tuned (u\<lparr>ui_note := nt\<rparr>) = tuned u" "tuned (u\<lparr>ui_selector := sl\<rparr>) = tuned u"
  "tuned (u\<lparr>ui_lobby := lb\<rparr>) = tuned u" "tuned (u\<lparr>ui_busy := bs\<rparr>) = tuned u" "tuned (u\<lparr>ui_pasting := ps\<rparr>) = tuned u"
  by (simp_all add: tuned_def)

lemma tuned_ops [simp]:
  "tuned (leave_config u) = tuned u" "tuned (leave_sessions u) = tuned u" "tuned (open_sessions u) = tuned u"
  "tuned (close_popup u) = tuned u" "tuned (set_switcher l b u) = tuned u" "tuned (note_question ph now u) = tuned u"
  "tuned (touch u) = tuned u" "tuned (open_text t u) = tuned u" "tuned (open_capture u) = tuned u"
  "tuned (open_servers sv u) = tuned u" "tuned (ui_accepted u) = tuned u" "tuned (ui_say t u) = tuned u"
  by (auto simp: leave_config_def leave_sessions_def open_sessions_def close_popup_def set_switcher_def note_question_def
      touch_def open_text_def open_capture_def open_servers_def ui_accepted_def ui_say_def Let_def
      split: mode.splits editing.splits option.splits)

lemma tuned_tick_outage: "tuned (snd (tick_outage ph now u)) = tuned u"
  by (simp add: tick_outage_def Let_def split: mode.split option.split)

lemma tuned_tick_answering: "tuned (snd (tick_answering ph now u)) = tuned u"
  by (simp add: tick_answering_def Let_def split: mode.split option.split)

lemma tuned_tick: "tuned (snd (tick ph now u)) = tuned u"
  by (simp add: tick_def Let_def tuned_tick_outage tuned_tick_answering)

lemma tuned_shown_key: "shown_key b ph now u r = (over, u1, r1) \<Longrightarrow> tuned u1 = tuned u"
  by (auto simp: shown_key_def ui_close_def Let_def split: if_splits option.splits)

lemma tuned_status_keys: "tuned (fst (status_keys bs lone ph now u r)) = tuned u"
proof (induction bs arbitrary: u r lone)
  case (Cons b bs)
  obtain over u1 r1 where k: "shown_key b ph now u r = (over, u1, r1)" by (metis prod_cases3)
  from tuned_shown_key [OF k] show ?case by (simp add: k Cons.IH)
qed simp

lemma tuned_sub_keys:
  "field_key k c e u = (over, u1, cm) \<Longrightarrow> tuned u1 = tuned u"
  "capture_key k c u = (over, u1, cm) \<Longrightarrow> tuned u1 = tuned u"
  "servers_key k c i u = (over, u1, cm) \<Longrightarrow> tuned u1 = tuned u"
  "save_key k c u = (over, u1, cm) \<Longrightarrow> tuned u1 = tuned u"
  "browse_key k ph c u = (over, u1, cm) \<Longrightarrow> tuned u1 = tuned u"
  by (auto simp: field_key_def capture_key_def servers_key_def save_key_def browse_key_def no_cmd_def cmd_def Let_def
      split: key.splits editing.splits if_splits option.splits)

lemma tuned_config_key: "config_key k ph u = (over, u1, c) \<Longrightarrow> tuned u1 = tuned u"
  by (auto simp: config_key_def Let_def no_cmd_def dest: tuned_sub_keys split: if_splits mode.splits editing.splits)

lemma tuned_paste: "ui_paste bs u = (u1, rest) \<Longrightarrow> tuned u1 = tuned u"
proof -
  have "tuned (fold paste_byte ds u) = tuned u" for ds
    by (induction ds arbitrary: u) (auto simp: paste_byte_def)
  then show "ui_paste bs u = (u1, rest) \<Longrightarrow> tuned u1 = tuned u"
    by (auto simp: ui_paste_def split: prod.splits)
qed

lemma tuned_config_loop:
  assumes "config_loop rest lone ph u = (u', c)"
  shows "tuned u' = tuned u"
  by (rule config_loop_rule [OF assms, of "\<lambda>v. tuned v = tuned u" "\<lambda>v _. tuned v = tuned u"])
    (auto dest: tuned_config_key tuned_paste)

lemma tuned_config_keys: "tuned (fst (config_keys bs ph u)) = tuned u"
  by (auto simp: config_keys_def dest: tuned_config_loop split: prod.splits)

lemma tuned_sessions_keys: "tuned (fst (sessions_keys bs ph now u)) = tuned u"
  by (auto simp: sessions_keys_def Let_def split: prod.splits option.splits out.splits)

lemma tuned_keys: "tuned (fst (ui_keys bs ph now u)) = tuned u"
proof -
  let ?u2 = "if ph = Confirming then leave_sessions (leave_config (note_question ph now u)) else note_question ph now u"
  have 2: "tuned ?u2 = tuned u" by simp
  obtain u3 rest where p: "(case ui_pasting ?u2 of Some _ \<Rightarrow> ui_paste bs ?u2 | None \<Rightarrow> (?u2, bs)) = (u3, rest)" by fastforce
  then have 3: "tuned u3 = tuned u" using tuned_paste 2 by (auto split: option.splits)
  show ?thesis
    unfolding ui_keys_def Let_def using 2 3 p
    by (auto simp: tuned_sessions_keys tuned_config_keys tuned_status_keys)
qed

section \<open>The settings in force\<close>

text \<open>Everything of a session the settings decide, beside the config the screen edits.\<close>

definition link_tuned :: "link_state \<Rightarrow> duration \<times> duration" where
  "link_tuned l = (silent_after l, rebuild_after l)"

definition rebuild_tuned :: "'c rebuild \<Rightarrow> 'c \<times> duration" where
  "rebuild_tuned r = (rb_cfg r, connect_timeout r)"

lemma link_tuned_ops [simp]:
  "link_tuned (heard now l) = link_tuned l" "link_tuned (sent now l) = link_tuned l"
  "link_tuned (snd (evaluate now owed l)) = link_tuned l" "link_tuned (begin_attempt now l) = link_tuned l"
  "link_tuned (rebuilt now l) = link_tuned l" "link_tuned (attempt_failed now l) = link_tuned l"
  "link_tuned (snd (take_held l)) = link_tuned l" "link_tuned (drop_held l) = link_tuned l"
  "link_tuned (hold_keys ks l) = link_tuned l" "link_tuned (retune sa ra l) = (sa, ra)"
  by (auto simp: link_tuned_def heard_def sent_def evaluate_def note_owed_def begin_attempt_def rebuilt_def attempt_failed_def
      take_held_def drop_held_def hold_keys_def retune_def Let_def split: phase.split option.split bool.split)

lemma rebuild_tuned_ops [simp]:
  "rebuild_tuned (cancel r) = rebuild_tuned r" "rebuild_tuned (retarget a r) = rebuild_tuned r"
  "rebuild_tuned (swapped r) = rebuild_tuned r" "rebuild_tuned (stood_down r) = rebuild_tuned r"
  "rebuild_tuned (fst (begin_rebuild now r h)) = rebuild_tuned r" "rebuild_tuned (snd (accept rep r)) = rebuild_tuned r"
  "rebuild_tuned (fst (snd (abandon r h))) = rebuild_tuned r" "rebuild_tuned (rb_retune cfg t r) = (cfg, t)"
  by (auto simp: rebuild_tuned_def cancel_def retarget_def swapped_def stood_down_def begin_rebuild_def accept_def finished_def
      abandon_def rb_retune_def alloc_def Let_def split: attempt_outcome.split prod.split)

lemma sb_cfg_ops [simp]:
  "sb_cfg (fst (set_enabled on now sb)) = sb_cfg sb" "sb_cfg (snd (standby_step ph now rb sb)) = sb_cfg sb"
  "sb_cfg (fst (snd (found n e sb))) = sb_cfg sb" "sb_cfg (snd (not_found n now why sb)) = sb_cfg sb"
  "sb_cfg (snd (probed a now sb)) = sb_cfg sb" "sb_cfg (snd (lost now reason sb)) = sb_cfg sb"
  "sb_cfg (snd (take_for_failover now sb)) = sb_cfg sb" "sb_cfg (fst (forget now sb)) = sb_cfg sb"
  "sb_cfg (set_cfg c sb) = c"
  by (auto simp: set_enabled_def new_primary_def standby_step_def found_def not_found_def sb_backoff_def probed_def lost_def
      take_for_failover_def forget_def set_cfg_def Let_def split: option.split probe_state.split)

lemma fail_over_tuned:
  assumes "fail_over now sb ro h = (taken, sb', ro', h')"
  shows "sb_cfg sb' = sb_cfg sb \<and> map_option rebuild_tuned ro' = map_option rebuild_tuned ro"
  using assms by (auto simp: fail_over_def Let_def case_prod_beta split: if_splits option.splits)

definition tuning :: "('l, 'p) client \<Rightarrow> _" where
  "tuning s = (cls_config s, link_tuned (cls_link_state s), cls_net s,
     map_option rebuild_tuned (cls_rebuild s), map_option sb_cfg (cls_standby s), cls_standby_wanted s,
     cls_clipboard_on s, rd_hyperlinks (cls_renderer s))"

lemma rd_hyperlinks_ops [simp]:
  "rd_hyperlinks (snd (render wd rd scr written)) = rd_hyperlinks rd" "rd_hyperlinks (rd_resize sz rd) = rd_hyperlinks rd"
  "rd_hyperlinks (invalidate rd) = rd_hyperlinks rd" "rd_hyperlinks (set_hyperlinks on rd) = on"
  by (auto simp: render_def rd_resize_def invalidate_def set_hyperlinks_def Let_def)

lemma tuning_emit [simp]: "tuning (emit es s) = tuning s"
  "cls_ui (emit es s) = cls_ui s"
  by (simp_all add: tuning_def emit_def)

lemma tuning_log_with [simp]: "tuning (log_with r s) = tuning s"
  "cls_ui (log_with r s) = cls_ui s"
  by (simp_all add: tuning_def log_with_def emit_def)

lemma tuning_records [simp]:
  "tuning (client_record w k t s) = tuning s" "tuning (client_detail w k t s) = tuning s" "tuning (client_shown w k t sh s) = tuning s"
  "cls_ui (client_record w k t s) = cls_ui s" "cls_ui (client_detail w k t s) = cls_ui s" "cls_ui (client_shown w k t sh s) = cls_ui s"
  by (simp_all add: client_record_def client_detail_def client_shown_def)

lemma tuning_set [simp]:
  "tuning (set_ui f s) = tuning s" "cls_ui (set_ui f s) = f (cls_ui s)" "cls_ui (set_link g s) = cls_ui s"
  "(\<And>l. link_tuned (g l) = link_tuned l) \<Longrightarrow> tuning (set_link g s) = tuning s"
  "tuning (set_selector h s) = tuning s"
  by (simp_all add: tuning_def set_ui_def set_link_def set_selector_def)

lemma tuning_field [simp]:
  "tuning (s\<lparr>cls_screen_rx := rx\<rparr>) = tuning s" "tuning (s\<lparr>cls_input_tx := tx\<rparr>) = tuning s"
  "tuning (s\<lparr>cls_last_send := ls\<rparr>) = tuning s" "tuning (s\<lparr>cls_path := pa\<rparr>) = tuning s"
  "tuning (s\<lparr>cls_rejected_total := rt\<rparr>) = tuning s" "tuning (s\<lparr>cls_quality := q\<rparr>) = tuning s"
  "tuning (s\<lparr>cls_activity := a\<rparr>) = tuning s" "tuning (s\<lparr>cls_identity := i\<rparr>) = tuning s"
  "tuning (s\<lparr>cls_route := ro\<rparr>) = tuning s" "tuning (s\<lparr>cls_probed_at := pr\<rparr>) = tuning s"
  "tuning (s\<lparr>cls_store := st\<rparr>) = tuning s" "tuning (s\<lparr>cls_last_failure := lf\<rparr>) = tuning s"
  "tuning (s\<lparr>cls_outage := on\<rparr>) = tuning s" "tuning (s\<lparr>cls_config_warned := cw\<rparr>) = tuning s"
  "tuning (s\<lparr>cls_in_lobby := il\<rparr>) = tuning s" "tuning (s\<lparr>cls_asking := as\<rparr>) = tuning s"
  "tuning (s\<lparr>cls_asked := ad\<rparr>) = tuning s" "tuning (s\<lparr>cls_sessions := ss\<rparr>) = tuning s"
  "tuning (s\<lparr>cls_clipboard := cb\<rparr>) = tuning s" "tuning (s\<lparr>cls_open_selector := os\<rparr>) = tuning s"
  "tuning (s\<lparr>cls_list_owed := lo\<rparr>) = tuning s" "tuning (s\<lparr>cls_size := sz\<rparr>) = tuning s" "tuning (s\<lparr>cls_link := k\<rparr>) = tuning s"
  by (simp_all add: tuning_def)

lemma tuning_same [simp]:
  "tuning (s\<lparr>cls_ui := u\<rparr>) = tuning s"
  "link_tuned l = link_tuned (cls_link_state s) \<Longrightarrow> tuning (s\<lparr>cls_link_state := l\<rparr>) = tuning s"
  "map_option rebuild_tuned ro = map_option rebuild_tuned (cls_rebuild s) \<Longrightarrow> tuning (s\<lparr>cls_rebuild := ro\<rparr>) = tuning s"
  "map_option sb_cfg so = map_option sb_cfg (cls_standby s) \<Longrightarrow> tuning (s\<lparr>cls_standby := so\<rparr>) = tuning s"
  "rd_hyperlinks rd = rd_hyperlinks (cls_renderer s) \<Longrightarrow> tuning (s\<lparr>cls_renderer := rd\<rparr>) = tuning s"
  by (simp_all add: tuning_def)

lemma tuning_map_rebuild [simp]:
  "(\<And>r. rebuild_tuned (f r) = rebuild_tuned r) \<Longrightarrow> tuning (s\<lparr>cls_rebuild := map_option f (cls_rebuild s)\<rparr>) = tuning s"
  by (simp add: tuning_def option.map_comp comp_def)

lemma tuning_ask [simp]: "tuning (snd (client_ask a s)) = tuning s" "tuning (snd (take_ask s)) = tuning s" "tuning (fetch_list s) = tuning s"
  "cls_ui (snd (client_ask a s)) = cls_ui s" "cls_ui (snd (take_ask s)) = cls_ui s" "cls_ui (fetch_list s) = cls_ui s"
  by (auto simp: client_ask_def take_ask_def fetch_list_def Let_def split: option.split)

lemma tuning_aim [simp]: "tuning (aim_rebuild s) = tuning s" "tuning (set_session_id sid s) = tuning s"
  "cls_ui (aim_rebuild s) = cls_ui s" "cls_ui (set_session_id sid s) = cls_ui s"
  by (auto simp: aim_rebuild_def set_session_id_def split: option.split)

lemma tuning_standby [simp]:
  "tuning (close_all cs s) = tuning s" "tuning (enable_standby on w s) = tuning s" "tuning (switch_standby w on s) = tuning s"
  "tuning (forget_standby w s) = tuning s"
  "cls_ui (close_all cs s) = cls_ui s" "cls_ui (enable_standby on w s) = cls_ui s" "cls_ui (switch_standby w on s) = cls_ui s" "cls_ui (forget_standby w s) = cls_ui s"
  by (auto simp: close_all_def enable_standby_def switch_standby_def forget_standby_def Let_def case_prod_beta split: option.split)

lemma tuning_warning [simp]: "tuning (record_config_warning w t s) = tuning s"
  "cls_ui (record_config_warning w t s) = cls_ui s"
  by (simp_all add: record_config_warning_def)

lemma tuning_warnings [simp]: "tuning (fold (\<lambda>x. record_config_warning w (f x)) xs s) = tuning s"
  "cls_ui (fold (\<lambda>x. record_config_warning w (f x)) xs s) = cls_ui s"
  by (induction xs arbitrary: s) simp_all

lemma tuning_queue [simp]: "tuning (queue_input bs s) = tuning s"
  "cls_ui (queue_input bs s) = cls_ui s"
  by (simp_all add: queue_input_def)

lemma tuning_heard [simp]: "tuning (note_heard w s) = tuning s" "tuning (note_sent w s) = tuning s"
  "cls_ui (note_heard w s) = cls_ui s" "cls_ui (note_sent w s) = cls_ui s"
  by (simp_all add: note_heard_def note_sent_def)

lemma tuning_paint [simp]: "tuning (client_paint lib s) = tuning s"
  "cls_ui (client_paint lib s) = cls_ui s"
  by (simp_all add: client_paint_def Let_def case_prod_beta)

lemma tuning_frame:
  "tuning (snd (snd (client_frame lib w f st))) = tuning (snd (snd st))"
  "cls_ui (snd (snd (client_frame lib w f st))) = cls_ui (snd (snd st))"
  by (auto simp: client_frame_def Let_def case_prod_beta split: sum.split option.split)

lemma tuning_frames:
  "tuning (snd (snd (fold (client_frame lib w) fs st))) = tuning (snd (snd st))"
  "cls_ui (snd (snd (fold (client_frame lib w) fs st))) = cls_ui (snd (snd st))"
  by (induction fs arbitrary: st) (simp_all add: tuning_frame)

lemma tuning_take_frames [simp]:
  "tuning (snd (take_frames lib w fs tn s)) = tuning s" "cls_ui (snd (take_frames lib w fs tn s)) = cls_ui s"
  using tuning_frames [of lib w fs "(False, tn, s)"] by (auto simp: take_frames_def case_prod_beta)

lemma tuning_offer [simp]: "tuning (snd (client_offer lib w s)) = tuning s"
  "cls_ui (snd (client_offer lib w s)) = cls_ui s"
  by (auto simp: client_offer_def Let_def split: sum.split option.split prod.split)

lemma tuning_turn [simp]:
  "tuning (snd (client_turn lib w bs fs s)) = tuning s" "cls_ui (snd (client_turn lib w bs fs s)) = cls_ui s"
  by (simp_all add: client_turn_def Let_def case_prod_beta)

lemma tuning_wakes [simp]:
  "tuning (wake_frame lib w f s) = tuning s" "tuning (snd (heartbeat w s)) = tuning s" "tuning (client_resize sz s) = tuning s"
  "cls_ui (wake_frame lib w f s) = cls_ui s" "cls_ui (snd (heartbeat w s)) = cls_ui s" "cls_ui (client_resize sz s) = cls_ui s"
  by (simp_all add: wake_frame_def heartbeat_def client_resize_def)

lemma tuning_quit [simp]: "tuning (snd (client_quit s)) = tuning s"
  "cls_ui (snd (client_quit s)) = cls_ui s"
  by (simp_all add: client_quit_def Let_def)

lemma tuning_sample [simp]: "tuning (sample_quality w rd s) = tuning s"
  "cls_ui (sample_quality w rd s) = cls_ui s"
  by (auto simp: sample_quality_def take_sample_def Let_def split: option.split)

lemma tuning_follow [simp]: "tuning (snd (follow_route w s)) = tuning s"
  "cls_ui (snd (follow_route w s)) = cls_ui s"
  by (auto simp: follow_route_def Let_def split: option.split)

lemma tuning_swap: "swap_in_as w link reason s = Inr s' \<Longrightarrow> tuning s' = tuning s \<and> cls_ui s' = cls_ui s"
  by (auto simp: swap_in_as_def and_then_def tuning_def emit_def split: sum.splits)

lemma tuning_swap_in: "swap_in w link s = Inr s' \<Longrightarrow> tuning s' = tuning s \<and> cls_ui s' = cls_ui s"
  by (auto simp: swap_in_def and_then_def dest!: tuning_swap split: sum.splits)

lemma tuning_moved: "client_moved w e s = Inr s' \<Longrightarrow> tuning s' = tuning s \<and> cls_ui s' = cls_ui s"
  by (auto simp: client_moved_def and_then_def dest!: tuning_swap split: sum.splits)

lemma tuning_rebuild_step [simp]: "tuning (rebuild_step w s) = tuning s"
  "cls_ui (rebuild_step w s) = cls_ui s"
  by (auto simp: rebuild_step_def Let_def case_prod_beta tuning_def set_link_def client_detail_def log_with_def emit_def split: option.split phase.split)

lemma tuning_failed [simp]: "tuning (record_attempt_failed w why s) = tuning s" "tuning (rebuild_failed w why s) = tuning s"
  "cls_ui (record_attempt_failed w why s) = cls_ui s" "cls_ui (rebuild_failed w why s) = cls_ui s"
  by (auto simp: record_attempt_failed_def rebuild_failed_def Let_def split: phase.split)

lemma tuning_landed: "rebuild_landed lib w e s = Inr s' \<Longrightarrow> tuning s' = tuning s \<and> cls_ui s' = cls_ui s"
  by (auto simp: rebuild_landed_def Let_def and_then_def dest!: tuning_swap_in split: sum.splits if_splits)

lemma tuning_reported: "rebuild_reported lib w rep s = Inr (gone, s') \<Longrightarrow> tuning s' = tuning s \<and> cls_ui s' = cls_ui s"
  using rebuild_tuned_ops(6) [of rep "the (cls_rebuild s)"]
  by (auto simp: rebuild_reported_def Let_def and_then_def map_err_def case_prod_beta dest!: tuning_landed
      split: sum.splits option.splits attempt_outcome.splits)

lemma tuning_fail_over: "client_fail_over lib w s = Inr (gone, s') \<Longrightarrow> tuning s' = tuning s \<and> cls_ui s' = cls_ui s"
  by (auto simp: client_fail_over_def Let_def and_then_def dest!: tuning_swap fail_over_tuned
      split: sum.splits option.splits prod.splits if_splits)

lemma tuning_standby_step [simp]:
  "tuning (snd (client_standby_step w ph rb s)) = tuning s" "cls_ui (snd (client_standby_step w ph rb s)) = cls_ui s"
  by (auto simp: client_standby_step_def Let_def case_prod_beta split: option.split standby_action.split)

lemma tuning_standby_event [simp]:
  "tuning (on_standby_event lib w ev s) = tuning s" "cls_ui (on_standby_event lib w ev s) = cls_ui s"
  by (auto simp: on_standby_event_def Let_def case_prod_beta split: option.split standby_news.split)

lemma tuning_standby_closed [simp]:
  "tuning (on_standby_closed w reason words s) = tuning s" "cls_ui (on_standby_closed w reason words s) = cls_ui s"
  by (auto simp: on_standby_closed_def Let_def case_prod_beta split: option.split)

section \<open>How the popup moves\<close>

text \<open>The popup changes only by its own operations, and only the config screen retunes it.\<close>

definition moves :: "ui \<Rightarrow> ui \<Rightarrow> bool" where
  "moves u u' \<longleftrightarrow> (\<exists>es. u' = fold ui_step es u \<and> (\<forall>k l a. EvRetune k l a \<notin> set es))"

lemma moves_refl [simp]: "moves u u"
  by (auto simp: moves_def intro: exI [of _ "[]"])

lemma moves_trans: "moves u v \<Longrightarrow> moves v w \<Longrightarrow> moves u w"
  unfolding moves_def by (metis Un_iff comp_apply fold_append set_append)

lemma moves_step: "(\<And>k l a. e \<noteq> EvRetune k l a) \<Longrightarrow> moves u v \<Longrightarrow> moves u (ui_step e v)"
  by (rule moves_trans [of u v], assumption, unfold moves_def, rule exI [of _ "[e]"]) (auto dest: sym)

lemmas moves_steps [simp, intro] =
  moves_step [of "EvTick ph now" for ph now, simplified] moves_step [of "EvRead bs ph now" for bs ph now, simplified]
  moves_step [of "EvSwitcher l b" for l b, simplified] moves_step [of EvOpenSessions, simplified]
  moves_step [of EvClosePopup, simplified] moves_step [of "EvText t" for t, simplified] moves_step [of EvCapture, simplified]
  moves_step [of "EvServers l" for l, simplified] moves_step [of EvAccepted, simplified] moves_step [of "EvSay t" for t, simplified]
  moves_step [of "EvSelector f" for f, simplified]

lemma moves_tuned: "moves u u' \<Longrightarrow> tuned u' = tuned u"
proof -
  have step: "tuned (ui_step e v) = tuned v" if "\<And>k l a. e \<noteq> EvRetune k l a" for e v
    using that by (cases e) (auto simp: tuned_tick tuned_keys)
  have "tuned (fold ui_step es u) = tuned u" if "\<forall>k l a. EvRetune k l a \<notin> set es" for es
    using that by (induction es arbitrary: u) (simp_all, metis step)
  then show "moves u u' \<Longrightarrow> tuned u' = tuned u" by (auto simp: moves_def)
qed

lemma moves_range: "moves u u' \<Longrightarrow> in_range_ui u \<Longrightarrow> in_range_ui u'"
proof -
  have "in_range_ui u \<Longrightarrow> in_range_ui (fold ui_step es u)" for es
    by (induction es arbitrary: u) (auto intro: step_range)
  then show "moves u u' \<Longrightarrow> in_range_ui u \<Longrightarrow> in_range_ui u'" by (auto simp: moves_def)
qed

lemma cls_ui_set_selector [simp]: "cls_ui (set_selector f s) = (cls_ui s)\<lparr>ui_selector := f (ui_selector (cls_ui s))\<rparr>"
  by (simp add: set_selector_def)

lemma layer_keeps: "tuning (snd (layer_at lib w s)) = tuning s" "moves (cls_ui s) (cls_ui (snd (layer_at lib w s)))"
  by (auto simp: layer_at_def Let_def case_prod_beta split: option.split link_change_ev.split)

lemma answer_keeps: "take_answer w a s = Inr (gone, s') \<Longrightarrow> tuning s' = tuning s \<and> moves (cls_ui s) (cls_ui s')"
  by (auto simp: take_answer_def Let_def and_then_def dest!: tuning_moved split: answered.splits sum.splits option.splits if_splits)

lemma answered_keeps: "client_answered w a s = Inr (gone, s') \<Longrightarrow> tuning s' = tuning s \<and> moves (cls_ui s) (cls_ui s')"
  by (auto simp: client_answered_def Let_def and_then_def dest!: answer_keeps split: sum.splits if_splits)

section \<open>Settings take effect\<close>

definition in_force :: "settings \<Rightarrow> ('l, 'p) client \<Rightarrow> bool" where
  "in_force st s \<longleftrightarrow> tuned (cls_ui s) = (st_popup_key st, st_linger st, effective_auto_open st)
    \<and> link_tuned (cls_link_state s) = (st_silent_after st, effective_rebuild_after st)
    \<and> cls_net s = settings_net_config st
    \<and> (case cls_rebuild s of None \<Rightarrow> True | Some r \<Rightarrow> rebuild_tuned r = (settings_net_config st, st_connect_timeout st))
    \<and> (case cls_standby s of None \<Rightarrow> True | Some sb \<Rightarrow> sb_cfg sb = settings_net_config st)
    \<and> cls_standby_wanted s = st_standby st \<and> cls_clipboard_on s = st_clipboard st
    \<and> rd_hyperlinks (cls_renderer s) = st_hyperlinks st"

definition settled :: "('l, 'p) client \<Rightarrow> bool" where
  "settled s \<longleftrightarrow> in_force (cs_applied (cls_config s)) s \<and> \<not> popup_unreachable (cs_applied (cls_config s))"

lemma in_force_same:
  assumes "tuning s' = tuning s" "moves (cls_ui s) (cls_ui s')"
  shows "in_force st s' = in_force st s" "cls_config s' = cls_config s"
  using assms(1) moves_tuned [OF assms(2)] unfolding tuning_def in_force_def
  by (auto split: option.splits)

lemma settled_keeps: "settled s \<Longrightarrow> tuning s' = tuning s \<and> moves (cls_ui s) (cls_ui s') \<Longrightarrow> settled s'"
  using in_force_same [of s' s] by (simp add: settled_def)

lemma settled_same: "settled s \<Longrightarrow> tuning s' = tuning s \<and> cls_ui s' = cls_ui s \<Longrightarrow> settled s'"
  by (erule settled_keeps) simp

lemma apply_in_force: "in_force st (client_apply st s)"
  by (auto simp: in_force_def client_apply_def Let_def ui_retune_def tuned_def split: option.split)

lemma settled_apply: "cs_applied (cls_config s) = st \<Longrightarrow> \<not> popup_unreachable st \<Longrightarrow> settled (client_apply st s)"
  using apply_in_force [of st s] by (simp add: settled_def client_apply_def Let_def)

lemma settled_config: "settled s \<Longrightarrow> cs_applied c = cs_applied (cls_config s) \<Longrightarrow> settled (s\<lparr>cls_config := c\<rparr>)"
  by (simp add: settled_def in_force_def)

lemma settled_ui [simp]:
  "settled s \<Longrightarrow> settled (set_ui ui_accepted s)" "settled s \<Longrightarrow> settled (set_ui (ui_say t) s)"
  "settled s \<Longrightarrow> settled (set_ui open_capture s)" "settled s \<Longrightarrow> settled (set_ui (open_servers l) s)"
  "settled s \<Longrightarrow> settled (set_ui (open_text t) s)"
  by (erule settled_keeps; simp)+

text \<open>A change of the config is either taken, with what it leaves in effect still letting the popup be reached, or
  refused with the config as it was.\<close>

definition commits :: "(config_error + settings) \<times> config_state \<Rightarrow> config_state \<Rightarrow> bool" where
  "commits rc c \<longleftrightarrow> (case rc of
      (Inr st, c') \<Rightarrow> cs_applied c' = st \<and> \<not> popup_unreachable st
    | (Inl e, c') \<Rightarrow> c' = c)"

lemma config_commits: "commits (config_commit i nxt c) c" "commits (config_set i v c) c" "commits (config_reset i c) c"
proof -
  show 1: "commits (config_commit i nxt c) c" for nxt
    by (simp add: commits_def config_commit_def Let_def)
  then show "commits (config_set i v c) c" by (simp add: config_set_def Let_def)
  show "commits (config_reset i c) c"
    using 1 by (simp add: config_reset_def commits_def split: option.split)
qed

lemma save_applied: "config_save ext lv old wr c = (r, c') \<Longrightarrow> cs_applied c' = cs_applied c"
  by (auto simp: config_save_def Let_def split: if_splits sum.splits)

lemma settled_set: "settled s \<Longrightarrow> settled (client_config_set lib row v s)"
  using config_commits(2) [of row v "cls_config s"]
  by (auto simp: client_config_set_def commits_def settled_apply split: sum.splits prod.splits)

lemma settled_reset: "settled s \<Longrightarrow> settled (client_config_command lib w (CmdReset row) s)"
  using config_commits(3) [of row "cls_config s"]
  by (auto simp: client_config_command_def commits_def settled_apply split: sum.splits prod.splits)

lemma settled_save:
  assumes "settled s0"
  shows "settled (client_config_save lib w lv s0)"
proof -
  define s where "s = set_ui ui_accepted s0"
  have s: "settled s" unfolding s_def using assms by simp
  obtain r c where r: "config_save (lb_ext lib) lv (nw_file w) (nw_writable w) (cls_config s) = (r, c)" by fastforce
  have c: "settled (s\<lparr>cls_config := c\<rparr>)" by (rule settled_config [OF s save_applied [OF r]])
  have same: "settled s'" if "tuning s' = tuning (s\<lparr>cls_config := c\<rparr>)" "cls_ui s' = cls_ui s" for s'
    using c that by (intro settled_same [OF c]) simp
  show ?thesis
    unfolding client_config_save_def Let_def s_def [symmetric] r
    using s by (auto intro!: settled_ui same split: sum.split)
qed

lemma settled_config_command: "settled s \<Longrightarrow> settled (client_config_command lib w c s)"
  using settled_reset [of s lib w]
  by (cases c)
    (auto simp: client_config_command_def Let_def settled_set settled_save split: sum.split shape.split setting_value.split)

lemma settled_with_config: "\<not> popup_unreachable (cs_applied c) \<Longrightarrow> settled (with_config lib w c ws s)"
  unfolding with_config_def Let_def
  by (rule settled_same [OF settled_apply]) simp_all

section \<open>The loop\<close>

text \<open>What the loop does with a session: a read of the keyboard, a frame, the end of an outage's lap, and so on, each
  the method its arm calls. \<open>None\<close> is the end of the session.\<close>

datatype ('l, 'p) client_event =
    OnKeys bytes
  | OnFrame frame
  | OnTurn "frame list"
  | OnLayer
  | OnHeartbeat
  | OnResize term_size
  | OnSample reading
  | OnRoute
  | OnTakeAsk
  | OnAnswered "('l, 'p) answered"
  | OnRebuildStep
  | OnReport "('l, 'p) established report"
  | OnStandbyStep phase rebuild_stage
  | OnFailOver
  | OnStandby "('l, 'p) standby_news"
  | OnStandbyClosed connection_error ustr
  | OnSwitchStandby bool

definition if_on :: "'e + bool \<times> 's \<Rightarrow> 's option" where
  "if_on r = (case r of Inr (_, s) \<Rightarrow> Some s | Inl _ \<Rightarrow> None)"

fun client_do :: "'p client_lib \<Rightarrow> outside \<Rightarrow> ('l, 'p) client_event \<Rightarrow> ('l, 'p) client \<Rightarrow> ('l, 'p) client option" where
  "client_do lib w (OnKeys ks) s = (case route_keys lib w ks s of (None, s') \<Rightarrow> Some s' | (Some _, _) \<Rightarrow> None)"
| "client_do lib w (OnFrame f) s = Some (wake_frame lib w f s)"
| "client_do lib w (OnTurn fs) s = Some (snd (client_turn lib w [] fs s))"
| "client_do lib w OnLayer s = Some (snd (layer_at lib w s))"
| "client_do lib w OnHeartbeat s = Some (snd (heartbeat w s))"
| "client_do lib w (OnResize sz) s = Some (client_resize sz s)"
| "client_do lib w (OnSample rd) s = Some (sample_quality w rd s)"
| "client_do lib w OnRoute s = Some (snd (follow_route w s))"
| "client_do lib w OnTakeAsk s = Some (snd (take_ask s))"
| "client_do lib w (OnAnswered a) s = if_on (client_answered w a s)"
| "client_do lib w OnRebuildStep s = Some (rebuild_step w s)"
| "client_do lib w (OnReport rep) s = if_on (rebuild_reported lib w rep s)"
| "client_do lib w (OnStandbyStep ph rb) s = Some (snd (client_standby_step w ph rb s))"
| "client_do lib w OnFailOver s = if_on (client_fail_over lib w s)"
| "client_do lib w (OnStandby ev) s = Some (on_standby_event lib w ev s)"
| "client_do lib w (OnStandbyClosed reason words) s = Some (on_standby_closed w reason words s)"
| "client_do lib w (OnSwitchStandby on) s = Some (switch_standby w on s)"

text \<open>How \<open>connect\<close> makes a session.\<close>

definition client_start ::
  "'p client_lib \<Rightarrow> outside \<Rightarrow> term_size \<Rightarrow> terminal_caps \<Rightarrow> 'l \<Rightarrow> net_config rebuild \<Rightarrow> store \<Rightarrow> identity \<Rightarrow> activity
    \<Rightarrow> bool \<Rightarrow> (net_config, ('l, 'p) established) standby option \<Rightarrow> config_state \<Rightarrow> warning list
    \<Rightarrow> apply_error + ('l, 'p) client" where
  "client_start lib w sz caps link rb h i act lob sb c ws =
    and_then (client_new sz caps link (Some rb) h (lb_ext lib) (nw_now w) (nw_seen w)) (\<lambda>s0.
    (let s1 = with_activity act (with_identity i s0);
         s2 = (if lob then with_lobby s1 else s1);
         s3 = (case sb of Some b \<Rightarrow> with_standby b s2 | None \<Rightarrow> s2)
     in Inr (with_config lib w c ws s3)))"

inductive client_reach :: "'p client_lib \<Rightarrow> ('l, 'p) client \<Rightarrow> bool" for lib where
  start: "client_start lib w sz caps link rb h i act lob sb (config_state_new dir target (load_config (lb_ext lib) rd target)) ws = Inr s
    \<Longrightarrow> client_reach lib s"
| event: "client_reach lib s \<Longrightarrow> client_do lib w e s = Some s' \<Longrightarrow> client_reach lib s'"

lemma settled_client_command:
  assumes "settled s" "client_command lib w c s = (None, s')"
  shows "settled s'"
proof (cases "\<exists>x. c = Some (CmdConfig x)")
  case True
  then show ?thesis using assms by (auto simp: client_command_def settled_config_command)
next
  case False
  then have "tuning s' = tuning s \<and> moves (cls_ui s) (cls_ui s')"
    using assms(2)
    by (auto simp: client_command_def Let_def case_prod_beta split: option.splits command.splits if_splits)
  then show ?thesis by (rule settled_keeps [OF assms(1)])
qed

lemma settled_route_keys:
  assumes "settled s" "route_keys lib w ks s = (None, s')"
  shows "settled s'"
proof -
  obtain s3 c where "client_command lib w c s3 = (None, s')" "tuning s3 = tuning s" "moves (cls_ui s) (cls_ui s3)"
    using assms(2) by (auto simp: route_keys_def Let_def case_prod_beta)
  with settled_keeps [OF assms(1)] settled_client_command show ?thesis by blast
qed

lemma settled_do:
  assumes "settled s" "client_do lib w e s = Some s'"
  shows "settled s'"
proof (cases e)
  case (OnKeys ks)
  with assms settled_route_keys show ?thesis by (auto split: prod.splits option.splits)
next
  case OnLayer
  with assms(2) layer_keeps show ?thesis by (intro settled_keeps [OF assms(1)]) auto
next
  case (OnAnswered a)
  with assms(2) show ?thesis
    by (intro settled_keeps [OF assms(1)]) (auto simp: if_on_def dest!: answered_keeps split: sum.splits)
next
  case (OnReport rep)
  with assms(2) show ?thesis
    by (intro settled_same [OF assms(1)]) (auto simp: if_on_def dest!: tuning_reported split: sum.splits)
next
  case OnFailOver
  with assms(2) show ?thesis
    by (intro settled_same [OF assms(1)]) (auto simp: if_on_def dest!: tuning_fail_over split: sum.splits)
qed (use assms(2) in \<open>auto intro: settled_same [OF assms(1)]\<close>)

lemma loaded_reachable: "\<not> popup_unreachable (cs_applied (config_state_new dir target (load_config ext rd target)))"
  using config_inv_new [of dir target ext rd] by (simp add: config_inv_def)

lemma settled_start:
  assumes "client_start lib w sz caps link rb h i act lob sb (config_state_new dir target (load_config ext rd target)) ws = Inr s"
  shows "settled s"
proof -
  from assms obtain s3 where "with_config lib w (config_state_new dir target (load_config ext rd target)) ws s3 = s"
    unfolding client_start_def Let_def and_then_def by (metis (no_types, lifting) Inl_Inr_False Inr_inject sum.case_eq_if)
  with settled_with_config [OF loaded_reachable] show ?thesis by metis
qed

lemma client_settled: "client_reach lib s \<Longrightarrow> settled s"
proof (induction rule: client_reach.induct)
  case (start w sz caps link rb h i act lob sb dir target rd ws s)
  then show ?case by (rule settled_start)
next
  case (event s w e s')
  then show ?case using settled_do by blast
qed

section \<open>Whatever arrives ends an outage\<close>

text \<open>The loop notes that the host was heard before it looks at a frame, so that a frame the receiver refuses ends
  the outage as well, and with it the popup that would say why the screen stands still.\<close>

lemma heard_not_outage: "\<not> is_outage (ls_phase (heard now l))"
  by (simp add: heard_def)

lemma frame_keeps_heard:
  "\<not> is_outage (ls_phase (cls_link_state (snd (snd st)))) \<Longrightarrow> \<not> is_outage (ls_phase (cls_link_state (snd (snd (client_frame lib w f st)))))"
  by (auto simp: client_frame_def Let_def case_prod_beta emit_def note_heard_def set_link_def heard_not_outage split: sum.split option.split)

lemma turn_keeps_heard:
  assumes "\<not> is_outage (ls_phase (cls_link_state s))"
  shows "\<not> is_outage (ls_phase (cls_link_state (snd (client_turn lib w [] fs s))))"
proof -
  have "\<not> is_outage (ls_phase (cls_link_state (snd (snd (fold (client_frame lib w) fs (p, tn, s))))))" for p tn
    using assms
  proof (induction fs arbitrary: p tn s)
    case (Cons f fs)
    obtain p1 tn1 s1 where 1: "client_frame lib w f (p, tn, s) = (p1, tn1, s1)" by (metis prod_cases3)
    with frame_keeps_heard [of "(p, tn, s)" lib w f] Cons show ?case by simp
  qed simp
  then show ?thesis
    by (simp add: client_turn_def take_frames_def Let_def case_prod_beta client_paint_def emit_def client_offer_def
        split: sum.split option.split prod.split)
qed

lemma refused_frame_ends_the_outage: "\<not> is_outage (ls_phase (cls_link_state (wake_frame lib w f s)))"
  unfolding wake_frame_def by (rule turn_keeps_heard) (simp add: note_heard_def set_link_def heard_not_outage)

section \<open>Settings, in every state\<close>

text \<open>C14: in every state a client session can be in, however its loop got there, every setting in effect is in force
  everywhere it is used -- the popup's key, linger and auto-open time, the link's two time limits, the network
  settings of the next search, of the rebuild and of the standby, the ssh timeout, the clipboard, the standby switch
  and hyperlinks -- and the popup can be reached, by its key or by opening of itself in an outage.\<close>

theorem client_settings_in_force:
  assumes "client_reach lib s"
  shows "in_force (cs_applied (cls_config s)) s \<and> (ui_key (cls_ui s) \<noteq> None \<or> ui_auto_open_after (cls_ui s) \<noteq> None)"
  using client_settled [OF assms]
  by (auto simp: settled_def in_force_def tuned_def popup_unreachable_def effective_auto_open_def)

definition sample_lib :: "unit client_lib" where
  "sample_lib = \<lparr>lb_screen = one_diff_codec (screen_full_diff (blank_state 1 1)), lb_input = one_diff_codec (input_full_diff (fresh_input \<lparr>ts_cols = 1, ts_rows = 1\<rparr>)),
     lb_ext = Config.sample_ext, lb_width = length, lb_b64 = id, lb_error = (\<lambda>_. []), lb_warning = (\<lambda>_. []), lb_secs = (\<lambda>_. []),
     lb_rung = (\<lambda>_. []), lb_rtt_ms = (\<lambda>_. 0)\<rparr>"

definition sample_outside :: outside where
  "sample_outside = \<lparr>nw_now = from_secs 1, nw_wall = 0, nw_log = (\<lambda>_. None), nw_frames = (\<lambda>_. []), nw_pacing = 0, nw_file = None,
     nw_writable = True, nw_seen = None, nw_rebound = False\<rparr>"

definition sample_size :: term_size where
  "sample_size = \<lparr>ts_cols = 1, ts_rows = 1\<rparr>"

definition client_caps :: terminal_caps where
  "client_caps = \<lparr>caps_truecolor = False, caps_colors = 8, caps_bracketed_paste = False, caps_mouse_sgr = False, caps_osc52 = True,
     caps_osc8 = True, caps_term_name = []\<rparr>"

definition sample_store :: store where
  "sample_store = \<lparr>cells = (\<lambda>_. CONNECTING), next_arc = 0\<rparr>"

text \<open>A session started with the config file of \<open>sample_config\<close> and a standby.\<close>

definition sample_start :: "apply_error + (nat, unit) client" where
  "sample_start = client_start sample_lib sample_outside sample_size client_caps 0
     (fst (aimed [] AimLobby net_config_default sample_store)) (snd (aimed [] AimLobby net_config_default sample_store))
     \<lparr>id_target = [], id_session_id = []\<rparr> activity_new False (Some (standby_new net_config_default 0))
     (config_state_new (Some []) [] (load_config (lb_ext sample_lib) (Some (FileText [7])) [])) []"

definition sample_client :: "(nat, unit) client" where
  "sample_client = projr sample_start"

lemma blank_1_1: "blank 1 1 = Inr (blank_state 1 1)"
proof -
  have c: "check_bounds \<lparr>ts_cols = 1, ts_rows = 1\<rparr> = Inr ()"
    by (simp add: check_bounds_ok_iff limit_defs)
  then have "validate (blank_state 1 1) = Inr ()"
    using screen_valid_blank by (simp add: validate_ok_iff)
  with c show ?thesis by (simp add: blank_def)
qed

lemma client_starts:
  "blank (ts_rows sz) (ts_cols sz) = Inr b \<Longrightarrow> \<exists>s. client_start lib w sz caps link rb h i act lob sb c ws = Inr s"
  unfolding client_start_def client_new_def Let_def and_then_simps by (simp only: and_then_simps) blast

lemma sample_started: "sample_start = Inr sample_client"
proof -
  have "blank (ts_rows sample_size) (ts_cols sample_size) = Inr (blank_state 1 1)"
    by (simp add: sample_size_def blank_1_1)
  then obtain s where "sample_start = Inr s" unfolding sample_start_def using client_starts by metis
  then show ?thesis unfolding sample_client_def by (metis sum.sel(2))
qed

lemma sample_client_reach: "client_reach sample_lib sample_client"
  using sample_started unfolding sample_start_def by (rule client_reach.start)

theorem client_settings_in_force_witness:
  "client_reach sample_lib sample_client \<and> in_force (cs_applied (cls_config sample_client)) sample_client"
  using client_settings_in_force [OF sample_client_reach] sample_client_reach by blast

end
