(* ===== verification/Host_Links.thy ===== *)
theory Host_Links
  imports Proto_Types
begin

text \<open>
  The host's half of OSC 8, \<open>crates/oxutrm-term/src/links.rs\<close>: giving each hyperlink on the screen a
  small wire id. The emulator's \<open>Hyperlink\<close>, a library's type, is the type variable \<open>'h\<close>, read
  through the function \<open>uri\<close>; a \<open>HashMap\<close> is a map. The lemmas show that the two maps stay inverse to
  each other, that a link keeps its id while some cell holds it, and that the table is one every
  client accepts.
\<close>

record 'h link_tbl =
  lt_ids :: "'h \<rightharpoonup> u16"
  lt_uris :: "(u16, 'h \<times> ustr) btmap"

definition link_tbl_default :: "'h link_tbl" where
  "link_tbl_default = \<lparr>lt_ids = Map.empty, lt_uris = []\<rparr>"

text \<open>The first pass of \<open>assign\<close>: the distinct links in the order they are met, \<open>prev\<close> sparing a
  lookup for a run of cells.\<close>

primrec distinct_links ::
  "'h option list \<Rightarrow> ('h \<rightharpoonup> u16) \<times> 'h list \<times> 'h option \<Rightarrow> ('h \<rightharpoonup> u16) \<times> 'h list \<times> 'h option" where
  "distinct_links [] acc = acc"
| "distinct_links (f # fs) acc =
     distinct_links fs
       (case f of
          None \<Rightarrow> acc
        | Some h \<Rightarrow>
            (case acc of (verdicts, order, prev) \<Rightarrow>
               if prev \<noteq> Some h then
                 (if verdicts h = None then (verdicts(h \<mapsto> 0), order @ [h], Some h)
                  else (verdicts, order, Some h))
               else acc))"

fun lowest_free :: "u16 \<Rightarrow> u16 list \<Rightarrow> u16" where
  "lowest_free i [] = i"
| "lowest_free i (taken # rest) = (if taken \<noteq> i then i else lowest_free (i + 1) rest)"

definition intern :: "('h \<Rightarrow> ustr) \<Rightarrow> 'h \<Rightarrow> 'h link_tbl \<Rightarrow> u16 \<times> 'h link_tbl" where
  "intern uri h t =
    (case lt_ids t h of
       Some i \<Rightarrow> (i, t)
     | None \<Rightarrow>
         if length (lt_uris t) \<ge> MAX_LINKS \<or> \<not> is_ok (check_link_uri 1 (uri h)) then (0, t)
         else
           (let i = lowest_free 1 (map fst (lt_uris t))
            in (i, t\<lparr>lt_ids := (lt_ids t)(h \<mapsto> i), lt_uris := bt_insert i (h, uri h) (lt_uris t)\<rparr>)))"

primrec intern_all ::
  "('h \<Rightarrow> ustr) \<Rightarrow> 'h list \<Rightarrow> ('h \<rightharpoonup> u16) \<times> 'h link_tbl \<Rightarrow> ('h \<rightharpoonup> u16) \<times> 'h link_tbl" where
  "intern_all uri [] acc = acc"
| "intern_all uri (h # hs) acc =
     intern_all uri hs
       (case acc of (verdicts, t) \<Rightarrow>
          (case intern uri h t of (i, t') \<Rightarrow> (verdicts(h \<mapsto> i), t')))"

text \<open>The answers, with the previous cell's reused. A link of \<open>found\<close> always has a verdict, so the
  indexing \<open>verdicts[h]\<close> does not panic.\<close>

fun link_answers :: "('h \<rightharpoonup> u16) \<Rightarrow> ('h \<times> u16) option \<Rightarrow> 'h option list \<Rightarrow> u16 list" where
  "link_answers verdicts prev [] = []"
| "link_answers verdicts prev (None # fs) = 0 # link_answers verdicts prev fs"
| "link_answers verdicts prev (Some h # fs) =
     (case prev of
        Some (p, i) \<Rightarrow>
          if p = h then i # link_answers verdicts prev fs
          else the (verdicts h) # link_answers verdicts (Some (h, the (verdicts h))) fs
      | None \<Rightarrow> the (verdicts h) # link_answers verdicts (Some (h, the (verdicts h))) fs)"

definition retain_links :: "('h \<rightharpoonup> u16) \<Rightarrow> 'h link_tbl \<Rightarrow> 'h link_tbl" where
  "retain_links verdicts t =
    \<lparr>lt_ids = (\<lambda>h. if verdicts h \<noteq> None then lt_ids t h else None),
     lt_uris = filter (\<lambda>(_, h, _). verdicts h \<noteq> None) (lt_uris t)\<rparr>"

definition assign :: "('h \<Rightarrow> ustr) \<Rightarrow> 'h option list \<Rightarrow> 'h link_tbl \<Rightarrow> u16 list \<times> 'h link_tbl" where
  "assign uri found t =
    (case distinct_links found (Map.empty, [], None) of (verdicts, order, _) \<Rightarrow>
       (case intern_all uri order (verdicts, retain_links verdicts t) of (verdicts, t') \<Rightarrow>
          (link_answers verdicts None found, t')))"

definition link_table_of :: "'h link_tbl \<Rightarrow> link_table" where
  "link_table_of t = map (\<lambda>(i, h, uri). (i, uri)) (lt_uris t)"

section \<open>The table's invariant\<close>

definition link_tbl_ok :: "('h \<Rightarrow> ustr) \<Rightarrow> 'h link_tbl \<Rightarrow> bool" where
  "link_tbl_ok uri t \<longleftrightarrow>
    bt_wf (lt_uris t) \<and> length (lt_uris t) \<le> MAX_LINKS
    \<and> (\<forall>i h u. (i, h, u) \<in> set (lt_uris t) \<longrightarrow>
         i \<noteq> 0 \<and> u = uri h \<and> lt_ids t h = Some i \<and> is_ok (check_link_uri 1 u))
    \<and> (\<forall>h i. lt_ids t h = Some i \<longrightarrow> (i, h, uri h) \<in> set (lt_uris t))"

lemma link_tbl_ok_default: "link_tbl_ok uri link_tbl_default"
  by (simp add: link_tbl_ok_def link_tbl_default_def)

lemma is_ok_check_link_uri: "is_ok (check_link_uri i u) \<longleftrightarrow> check_link_uri j u = Inr ()"
  by (cases "check_link_uri i u") (auto simp: check_link_uri_ok_iff is_ok_def check_link_uri_def
      split: option.splits if_splits)

lemma lowest_free_spec:
  assumes "sorted_wrt (<) ks" "\<forall>k\<in>set ks. i \<le> k" "unat i + length ks < 65536"
  shows "lowest_free i ks \<notin> set ks \<and> i \<le> lowest_free i ks"
  using assms
proof (induction i ks rule: lowest_free.induct)
  case (2 i taken rest)
  show ?case
  proof (cases "taken = i")
    case True
    have suc: "unat (i + 1) = unat i + 1"
      using "2.prems"(3) by (simp add: unat_word_ariths)
    then have "\<forall>k\<in>set rest. i + 1 \<le> k"
      using "2.prems"(1) True by (auto simp: word_le_nat_alt word_less_nat_alt)
    then have "lowest_free (i + 1) rest \<notin> set rest \<and> i + 1 \<le> lowest_free (i + 1) rest"
      using "2.IH" True "2.prems" suc by simp
    with True suc show ?thesis by (auto simp: word_le_nat_alt)
  next
    case False
    with "2.prems"(1,2) show ?thesis by auto
  qed
qed simp

lemma lowest_free_keys:
  assumes "link_tbl_ok uri t" "length (lt_uris t) < MAX_LINKS"
  shows "lowest_free 1 (map fst (lt_uris t)) \<notin> fst ` set (lt_uris t)"
    and "lowest_free 1 (map fst (lt_uris t)) \<noteq> 0"
proof -
  have nz: "1 \<le> i" if "(i :: u16) \<noteq> 0" for i
    using that by (simp add: word_le_nat_alt Suc_le_eq unat_gt_0)
  have "\<forall>k\<in>set (map fst (lt_uris t)). 1 \<le> k"
    using assms(1) by (force simp: link_tbl_ok_def intro: nz)
  then have "lowest_free 1 (map fst (lt_uris t)) \<notin> set (map fst (lt_uris t))
      \<and> 1 \<le> lowest_free 1 (map fst (lt_uris t))"
    using assms by (intro lowest_free_spec) (simp_all add: link_tbl_ok_def bt_wf_def MAX_LINKS_def)
  then show "lowest_free 1 (map fst (lt_uris t)) \<notin> fst ` set (lt_uris t)"
    "lowest_free 1 (map fst (lt_uris t)) \<noteq> 0" by auto
qed

lemma set_bt_insert_new:
  assumes "k \<notin> fst ` set m"
  shows "set (bt_insert k v m) = insert (k, v) (set m)" "length (bt_insert k v m) = Suc (length m)"
  using assms by (induction m) auto

lemma intern_cases:
  assumes "intern uri h t = (i, t')"
  obtains (known) "lt_ids t h = Some i" "t' = t"
    | (dropped) "lt_ids t h = None" "t' = t" "i = 0"
        "length (lt_uris t) \<ge> MAX_LINKS \<or> \<not> is_ok (check_link_uri 1 (uri h))"
    | (new) "lt_ids t h = None" "length (lt_uris t) < MAX_LINKS" "is_ok (check_link_uri 1 (uri h))"
        "i = lowest_free 1 (map fst (lt_uris t))"
        "t' = t\<lparr>lt_ids := (lt_ids t)(h \<mapsto> i), lt_uris := bt_insert i (h, uri h) (lt_uris t)\<rparr>"
proof (cases "lt_ids t h")
  case None
  show thesis
  proof (cases "length (lt_uris t) \<ge> MAX_LINKS \<or> \<not> is_ok (check_link_uri 1 (uri h))")
    case True
    show thesis
      by (rule dropped) (use assms None True in \<open>simp_all add: intern_def\<close>)
  next
    case False
    show thesis
      by (rule new) (use assms None False in \<open>auto simp: intern_def Let_def\<close>)
  qed
next
  case (Some j)
  show thesis
    by (rule known) (use assms Some in \<open>simp_all add: intern_def\<close>)
qed

lemma intern_ok:
  assumes ok: "link_tbl_ok uri t" and i: "intern uri h t = (i, t')"
  shows "link_tbl_ok uri t'" and "i = (case lt_ids t' h of Some j \<Rightarrow> j | None \<Rightarrow> 0)"
    and "lt_ids t g = Some j \<Longrightarrow> lt_ids t' g = Some j" and "g \<noteq> h \<Longrightarrow> lt_ids t' g = lt_ids t g"
    and "lt_ids t' h = None \<Longrightarrow> length (lt_uris t) \<ge> MAX_LINKS \<or> \<not> is_ok (check_link_uri 1 (uri h))"
proof -
  show "link_tbl_ok uri t'"
    using i
  proof (cases rule: intern_cases)
    case new
    note key = lowest_free_keys [OF ok new(2), folded new(4)]
    note ins = set_bt_insert_new [OF key(1), of "(h, uri h)"]
    show ?thesis
      unfolding link_tbl_ok_def
    proof (intro conjI allI impI)
      show "bt_wf (lt_uris t')" "length (lt_uris t') \<le> MAX_LINKS"
        using ok new ins by (simp_all add: link_tbl_ok_def bt_wf_insert)
    next
      fix k g u assume "(k, g, u) \<in> set (lt_uris t')"
      then have "(k, g, u) = (i, h, uri h) \<or> (k, g, u) \<in> set (lt_uris t)"
        using ins new(5) by simp
      then show "k \<noteq> 0" "u = uri g" "lt_ids t' g = Some k" "is_ok (check_link_uri 1 u)"
        using ok new key(2) by (auto simp: link_tbl_ok_def)
    next
      fix g k assume "lt_ids t' g = Some k"
      then show "(k, g, uri g) \<in> set (lt_uris t')"
        using ok new ins by (auto simp: link_tbl_ok_def split: if_splits)
    qed
  qed (use ok in simp_all)
  show "i = (case lt_ids t' h of Some j \<Rightarrow> j | None \<Rightarrow> 0)"
    using i by (cases rule: intern_cases) simp_all
  show "lt_ids t' g = Some j" if "lt_ids t g = Some j"
    using i that by (cases rule: intern_cases) auto
  show "lt_ids t' g = lt_ids t g" if "g \<noteq> h"
    using i that by (cases rule: intern_cases) simp_all
  show "length (lt_uris t) \<ge> MAX_LINKS \<or> \<not> is_ok (check_link_uri 1 (uri h))" if "lt_ids t' h = None"
    using i that by (cases rule: intern_cases) simp_all
qed

section \<open>One pass over the screen\<close>

definition links_in :: "'h option list \<Rightarrow> 'h set" where
  "links_in found = {h. Some h \<in> set found}"

definition met :: "('h \<rightharpoonup> u16) \<times> 'h list \<times> 'h option \<Rightarrow> bool" where
  "met acc = (case acc of (verdicts, order, prev) \<Rightarrow>
     distinct order \<and> set order = dom verdicts \<and> (\<forall>h. prev = Some h \<longrightarrow> h \<in> dom verdicts))"

lemma distinct_links_spec:
  assumes "met acc" "distinct_links found acc = (verdicts, order, prev)"
  shows "distinct order \<and> set order = dom verdicts \<and> dom verdicts = dom (fst acc) \<union> links_in found"
  using assms
proof (induction found arbitrary: acc)
  case Nil
  then show ?case by (auto simp: met_def links_in_def)
next
  case (Cons f fs)
  obtain v o' p where acc: "acc = (v, o', p)" by (cases acc)
  define acc' where "acc' = (case f of None \<Rightarrow> acc | Some h \<Rightarrow>
      (if p \<noteq> Some h then
         (if v h = None then (v(h \<mapsto> 0), o' @ [h], Some h) else (v, o', Some h))
       else acc))"
  have "met acc'" "dom (fst acc') = dom (fst acc) \<union> links_in [f]"
    using Cons.prems(1) by (auto simp: acc'_def acc met_def links_in_def split: option.splits)
  moreover have "distinct_links fs acc' = (verdicts, order, prev)"
    using Cons.prems(2) by (cases f) (auto simp: acc'_def acc split: if_splits)
  ultimately show ?case
    using Cons.IH [of acc'] by (auto simp: links_in_def)
qed

lemma retain_links_ok:
  assumes "link_tbl_ok uri t"
  shows "link_tbl_ok uri (retain_links verdicts t)"
proof -
  have "bt_wf (filter P m)" if "bt_wf m" for P and m :: "(u16, 'a \<times> ustr) btmap"
    using that by (induction m) auto
  moreover have "length (filter P m) \<le> MAX_LINKS" if "length m \<le> MAX_LINKS" for P and m :: "(u16, 'a \<times> ustr) btmap"
    using that length_filter_le le_trans by blast
  ultimately show ?thesis
    using assms unfolding link_tbl_ok_def retain_links_def by (force split: if_splits)
qed

lemma intern_all_spec:
  assumes "link_tbl_ok uri t" "distinct hs" "intern_all uri hs (v, t) = (v', t')"
  shows "link_tbl_ok uri t' \<and> (\<forall>g j. lt_ids t g = Some j \<longrightarrow> lt_ids t' g = Some j)
    \<and> (\<forall>g. g \<notin> set hs \<longrightarrow> lt_ids t' g = lt_ids t g \<and> v' g = v g)
    \<and> (\<forall>g\<in>set hs. v' g = Some (case lt_ids t' g of Some j \<Rightarrow> j | None \<Rightarrow> 0))
    \<and> length (lt_uris t) \<le> length (lt_uris t')
    \<and> (\<forall>g\<in>set hs. lt_ids t' g = None \<longrightarrow>
         length (lt_uris t') \<ge> MAX_LINKS \<or> \<not> is_ok (check_link_uri 1 (uri g)))"
  using assms
proof (induction hs arbitrary: v t)
  case (Cons h hs)
  obtain i u where i: "intern uri h t = (i, u)" by fastforce
  note step = intern_ok [OF Cons.prems(1) i]
  have "length (lt_uris t) \<le> length (lt_uris u)"
    using i lowest_free_keys [OF Cons.prems(1)]
    by (cases rule: intern_cases) (auto simp: set_bt_insert_new)
  moreover have "intern_all uri hs (v(h \<mapsto> i), u) = (v', t')"
    using Cons.prems(3) by (simp add: i)
  note IH = Cons.IH [OF step(1) _ this]
  ultimately show ?case
    using Cons.prems(2) IH step(2-5) by (auto split: option.splits)
qed simp

lemma link_answers_eq:
  assumes "\<And>p i. prev = Some (p, i) \<Longrightarrow> verdicts p = Some i" "links_in found \<subseteq> dom verdicts"
  shows "link_answers verdicts prev found
    = map (\<lambda>f. case f of None \<Rightarrow> 0 | Some h \<Rightarrow> the (verdicts h)) found"
  using assms
proof (induction found arbitrary: prev)
  case (Cons f fs)
  have fs: "links_in fs \<subseteq> dom verdicts" using Cons.prems(2) by (auto simp: links_in_def)
  show ?case
  proof (cases f)
    case None
    with Cons.IH [of prev] Cons.prems(1) fs show ?thesis by simp
  next
    case (Some h)
    then obtain i where i: "verdicts h = Some i"
      using Cons.prems(2) by (auto simp: links_in_def)
    have "link_answers verdicts (Some (h, i)) fs = map (\<lambda>f. case f of None \<Rightarrow> 0 | Some h \<Rightarrow> the (verdicts h)) fs"
      by (rule Cons.IH) (use i fs in auto)
    with Some i Cons.prems(1) show ?thesis
      by (cases prev) auto
  qed
qed simp

lemma assign_spec:
  assumes ok: "link_tbl_ok uri t" and a: "assign uri found t = (ids, t')"
  shows "link_tbl_ok uri t'"
    and "ids = map (\<lambda>f. case f of None \<Rightarrow> 0 | Some h \<Rightarrow> (case lt_ids t' h of Some i \<Rightarrow> i | None \<Rightarrow> 0)) found"
    and "h \<in> links_in found \<Longrightarrow> lt_ids t h = Some i \<Longrightarrow> lt_ids t' h = Some i"
    and "dom (lt_ids t') \<subseteq> links_in found"
    and "h \<in> links_in found \<Longrightarrow> lt_ids t' h = None \<Longrightarrow>
      length (lt_uris t') \<ge> MAX_LINKS \<or> \<not> is_ok (check_link_uri 1 (uri h))"
proof -
  obtain v order prev where d: "distinct_links found (Map.empty, [], None) = (v, order, prev)"
    by (metis prod_cases3)
  obtain v' where i: "intern_all uri order (v, retain_links v t) = (v', t')" and ids: "ids = link_answers v' None found"
    using a by (auto simp: assign_def d split: prod.splits)
  have "met (Map.empty, [], None)" by (simp add: met_def)
  from distinct_links_spec [OF this d] have order: "distinct order" "set order = links_in found" "dom v = links_in found"
    by auto
  note all = intern_all_spec [OF retain_links_ok [OF ok] order(1) i]
  show "link_tbl_ok uri t'" using all by blast
  show "lt_ids t' h = Some i" if "h \<in> links_in found" "lt_ids t h = Some i"
  proof -
    have "lt_ids (retain_links v t) h = Some i"
      using that order(3) by (auto simp: retain_links_def)
    with all show ?thesis by blast
  qed
  show "dom (lt_ids t') \<subseteq> links_in found"
  proof
    fix h assume "h \<in> dom (lt_ids t')"
    moreover have "lt_ids t' h = None" if "h \<notin> links_in found"
      using all order(2,3) that by (auto simp: retain_links_def dom_def)
    ultimately show "h \<in> links_in found" by (cases "h \<in> links_in found") auto
  qed
  show "length (lt_uris t') \<ge> MAX_LINKS \<or> \<not> is_ok (check_link_uri 1 (uri h))"
    if "h \<in> links_in found" "lt_ids t' h = None"
    using all order(2) that by blast
  have v': "v' h = Some (case lt_ids t' h of Some i \<Rightarrow> i | None \<Rightarrow> 0)" if "h \<in> links_in found" for h
    using all order(2) that by blast
  then have "links_in found \<subseteq> dom v'" by auto
  from link_answers_eq [OF _ this, of None] v' show
    "ids = map (\<lambda>f. case f of None \<Rightarrow> 0 | Some h \<Rightarrow> (case lt_ids t' h of Some i \<Rightarrow> i | None \<Rightarrow> 0)) found"
    unfolding ids by (auto simp: links_in_def split: option.split)
qed

text \<open>What the table says to a client.\<close>

lemma link_table_of_ok:
  assumes "link_tbl_ok uri t"
  shows "check_links (link_table_of t) = Inr ()" "bt_wf (link_table_of t)"
    and "lt_ids t h = Some i \<Longrightarrow> bt_get (link_table_of t) i = Some (uri h)"
proof -
  have fst: "map fst (link_table_of t) = map fst (lt_uris t)"
    by (auto simp: link_table_of_def)
  show "check_links (link_table_of t) = Inr ()"
    using assms unfolding check_links_ok_iff link_tbl_ok_def
    by (force simp: link_table_of_def intro: iffD1 [OF is_ok_check_link_uri])
  show wf: "bt_wf (link_table_of t)"
    using assms by (simp add: link_tbl_ok_def bt_wf_def fst)
  show "bt_get (link_table_of t) i = Some (uri h)" if "lt_ids t h = Some i"
    using assms that unfolding bt_get_iff [OF wf] link_tbl_ok_def
    by (force simp: link_table_of_def)
qed

end
