(* ===== verification/Host_Emulator.thy ===== *)
theory Host_Emulator
  imports Proto_Screen Client_Color Host_Links
begin

text \<open>
  What the host reads of its emulator and how a cell becomes one of the protocol's:
  \<open>crates/oxutrm-term/src/grid.rs\<close>, \<open>palette.rs\<close>, \<open>marks.rs\<close>, \<open>blink.rs\<close>, \<open>listener.rs\<close>, the
  conversions of \<open>host.rs\<close> and \<open>caps.rs\<close>.

  The emulator \<open>alacritty_terminal\<close> and its parser \<open>vte\<close> are third-party code. They are a parameter,
  the record \<open>emulator\<close>: a terminal is a value of type \<open>'t\<close>, a parser one of type \<open>'p\<close>, a hyperlink one
  of type \<open>'h\<close>, and the record holds the functions the host calls on them. The handler's methods return
  nothing to the parser, so a chunk of bytes is the list of calls the parser makes of it, and a call
  changes the terminal and reports events. Nothing is assumed of these functions, so what is proved
  here holds whatever the emulator does.
\<close>

unbundle bit_operations_syntax

section \<open>The emulator\<close>

text \<open>A \<open>Point\<close> is a line, negative in the history, and a column.\<close>

type_synonym point = "int \<times> nat"

datatype named_color =
    Black | Red | Green | Yellow | Blue | Magenta | Cyan | White
  | BrightBlack | BrightRed | BrightGreen | BrightYellow | BrightBlue | BrightMagenta | BrightCyan | BrightWhite
  | Foreground | Background | CursorColor
  | DimBlack | DimRed | DimGreen | DimYellow | DimBlue | DimMagenta | DimCyan | DimWhite
  | BrightForeground | DimForeground

datatype vte_color = Named named_color | Indexed u8 | Spec rgb

text \<open>The flags of an emulator cell the host reads; \<open>fl_underlined\<close> is
  \<open>intersects(ALL_UNDERLINES)\<close>.\<close>

record vte_flags =
  fl_bold :: bool
  fl_italic :: bool
  fl_inverse :: bool
  fl_dim :: bool
  fl_hidden :: bool
  fl_strikeout :: bool
  fl_underlined :: bool
  fl_wide_char_spacer :: bool
  fl_leading_wide_char_spacer :: bool

record 'h vte_cell =
  vc_c :: scalar
  vc_zerowidth :: "scalar list option"
  vc_fg :: vte_color
  vc_bg :: vte_color
  vc_flags :: vte_flags
  vc_hyperlink :: "'h option"

record term_mode =
  tm_alt_screen :: bool
  tm_bracketed_paste :: bool
  tm_mouse_motion :: bool
  tm_mouse_drag :: bool
  tm_mouse_report_click :: bool
  tm_app_cursor :: bool
  tm_app_keypad :: bool
  tm_show_cursor :: bool

datatype vte_cursor_shape = VteBlock | VteHollowBlock | VteUnderline | VteBeam | VteHidden

text \<open>The parser's calls. Four methods of the handler are intercepted; the other 67 are forwarded as
  they are, and \<open>'op\<close> stands for one of them with its arguments.\<close>

datatype 'op vte_attr = BlinkSlow | BlinkFast | CancelBlink | ResetAttr | OtherAttr 'op

datatype 'op handler_call =
    Input scalar
  | Linefeed
  | ScrollUp nat
  | TerminalAttribute "'op vte_attr"
  | Forwarded 'op

datatype clipboard_type = ClipboardType | SelectionType

datatype exit_status = ExitedWith int | KilledBy int | NoStatus

datatype event =
    Title ustr
  | ResetTitle
  | Bell
  | ClipboardStore clipboard_type ustr
  | ChildExit exit_status
  | Wakeup
  | PtyWrite ustr
  | OtherEvent

record grid_size =
  gs_screen_lines :: nat
  gs_columns :: nat
  gs_history :: nat

record ('t, 'p, 'h, 'op) emulator =
  em_new :: "grid_size \<Rightarrow> 't"
  em_resize :: "grid_size \<Rightarrow> 't \<Rightarrow> 't \<times> event list"
  em_call :: "'op handler_call \<Rightarrow> 't \<Rightarrow> 't \<times> event list"
  em_clamp :: "'t \<Rightarrow> point \<Rightarrow> point"
  em_grid :: "'t \<Rightarrow> point \<Rightarrow> 'h vte_cell"
  em_cursor :: "'t \<Rightarrow> point"
  em_needs_wrap :: "'t \<Rightarrow> bool"
  em_mode :: "'t \<Rightarrow> term_mode"
  em_cursor_shape :: "'t \<Rightarrow> vte_cursor_shape"
  em_colors :: "'t \<Rightarrow> nat \<Rightarrow> rgb option"
  em_history_size :: "'t \<Rightarrow> nat"
  em_topmost_line :: "'t \<Rightarrow> int"
  em_damaged_fully :: "'t \<Rightarrow> bool"
  em_reset_damage :: "'t \<Rightarrow> 't"
  em_uri :: "'h \<Rightarrow> ustr"
  em_zero_width :: "scalar \<Rightarrow> bool"
  em_parser :: 'p
  em_advance :: "'p \<Rightarrow> bytes \<Rightarrow> 'op handler_call list \<times> 'p"

section \<open>The grid\<close>

definition grid_size_new :: "term_size \<Rightarrow> nat \<Rightarrow> apply_error + grid_size" where
  "grid_size_new sz history =
    and_then (check_bounds sz) (\<lambda>_.
      Inr \<lparr>gs_screen_lines = unat (ts_rows sz), gs_columns = unat (ts_cols sz), gs_history = history\<rparr>)"

definition total_lines :: "grid_size \<Rightarrow> nat" where
  "total_lines g = gs_screen_lines g + gs_history g"

definition cell_at :: "('t, 'p, 'h, 'op) emulator \<Rightarrow> 't \<Rightarrow> point \<Rightarrow> 'h vte_cell option" where
  "cell_at em t p = (if em_clamp em t p \<noteq> p then None else Some (em_grid em t p))"

section \<open>Colours\<close>

definition PALETTE_LEN :: nat where "PALETTE_LEN = 269"

definition BASE_16 :: "rgb list" where
  "BASE_16 =
    [(0x00, 0x00, 0x00), (0xcd, 0x00, 0x00), (0x00, 0xcd, 0x00), (0xcd, 0xcd, 0x00),
     (0x00, 0x00, 0xee), (0xcd, 0x00, 0xcd), (0x00, 0xcd, 0xcd), (0xe5, 0xe5, 0xe5),
     (0x7f, 0x7f, 0x7f), (0xff, 0x00, 0x00), (0x00, 0xff, 0x00), (0xff, 0xff, 0x00),
     (0x5c, 0x5c, 0xff), (0xff, 0x00, 0xff), (0x00, 0xff, 0xff), (0xff, 0xff, 0xff)]"

definition LEVELS :: "u8 list" where
  "LEVELS = [0, 95, 135, 175, 215, 255]"

definition dimmed :: "rgb \<Rightarrow> rgb" where
  "dimmed c =
    (case c of (r, g, b) \<Rightarrow> (of_nat (unat r * 2 div 3), of_nat (unat g * 2 div 3), of_nat (unat b * 2 div 3)))"

text \<open>The table, its ranges in the order the code fills them.\<close>

definition palette :: "rgb list" where
  "palette =
    BASE_16
    @ concat (map (\<lambda>r. concat (map (\<lambda>g. map (\<lambda>b. (r, g, b)) LEVELS) LEVELS)) LEVELS)
    @ map (\<lambda>step. let v = 8 + of_nat step * 10 in (v, v, v)) [0..<24]
    @ [(0xd8, 0xd8, 0xd8), (0x00, 0x00, 0x00), (0xd8, 0xd8, 0xd8)]
    @ map dimmed (take 8 BASE_16)
    @ [(0xff, 0xff, 0xff), (0x90, 0x90, 0x90)]"

fun named_index :: "named_color \<Rightarrow> nat" where
  "named_index Black = 0"
| "named_index Red = 1"
| "named_index Green = 2"
| "named_index Yellow = 3"
| "named_index Blue = 4"
| "named_index Magenta = 5"
| "named_index Cyan = 6"
| "named_index White = 7"
| "named_index BrightBlack = 8"
| "named_index BrightRed = 9"
| "named_index BrightGreen = 10"
| "named_index BrightYellow = 11"
| "named_index BrightBlue = 12"
| "named_index BrightMagenta = 13"
| "named_index BrightCyan = 14"
| "named_index BrightWhite = 15"
| "named_index Foreground = 256"
| "named_index Background = 257"
| "named_index CursorColor = 258"
| "named_index DimBlack = 259"
| "named_index DimRed = 259 + 1"
| "named_index DimGreen = 259 + 2"
| "named_index DimYellow = 259 + 3"
| "named_index DimBlue = 259 + 4"
| "named_index DimMagenta = 259 + 5"
| "named_index DimCyan = 259 + 6"
| "named_index DimWhite = 259 + 7"
| "named_index BrightForeground = 267"
| "named_index DimForeground = 268"

definition rgb_color :: "rgb \<Rightarrow> color" where
  "rgb_color c = (case c of (r, g, b) \<Rightarrow> Rgb r g b)"

definition to_proto_color :: "vte_color \<Rightarrow> (nat \<Rightarrow> rgb option) \<Rightarrow> rgb list \<Rightarrow> color" where
  "to_proto_color c overrides table =
    (case c of
       Named n \<Rightarrow>
         if n = Foreground \<or> n = Background then Default
         else
           (let idx = named_index n
            in case overrides idx of
                 Some rgb \<Rightarrow> rgb_color rgb
               | None \<Rightarrow> if idx < 256 then Idx (of_nat idx) else rgb_color (table ! idx))
     | Indexed i \<Rightarrow>
         (case overrides (unat i) of Some rgb \<Rightarrow> rgb_color rgb | None \<Rightarrow> Idx i)
     | Spec rgb \<Rightarrow> rgb_color rgb)"

section \<open>Text, attributes and modes\<close>

fun push_marks :: "scalar list \<Rightarrow> ustr \<Rightarrow> ustr" where
  "push_marks [] text = text"
| "push_marks (m # ms) text =
     (if is_control_scalar m \<or> str_len text + len_utf8 m > MAX_CELL_TEXT then text
      else push_marks ms (text @ [m]))"

definition cell_text :: "'h vte_cell \<Rightarrow> ustr" where
  "cell_text c =
    (if fl_wide_char_spacer (vc_flags c) \<or> fl_leading_wide_char_spacer (vc_flags c) then []
     else
       (let base = (if is_control_scalar (vc_c c) then 32 else vc_c c)
        in fit_cell_text
             (case vc_zerowidth c of
                Some marks \<Rightarrow> if marks \<noteq> [] then push_marks marks [base] else [base]
              | None \<Rightarrow> [base])))"

definition attr_if :: "bool \<Rightarrow> attrs \<Rightarrow> attrs" where
  "attr_if b a = (if b then a else 0)"

definition attrs_of :: "vte_flags \<Rightarrow> attrs" where
  "attrs_of f =
    attr_if (fl_bold f) BOLD OR attr_if (fl_italic f) ITALIC OR attr_if (fl_inverse f) INVERSE
    OR attr_if (fl_dim f) DIM OR attr_if (fl_hidden f) HIDDEN OR attr_if (fl_strikeout f) STRIKE
    OR attr_if (fl_underlined f) UNDERLINE
    OR attr_if (fl_wide_char_spacer f \<or> fl_leading_wide_char_spacer f) WIDE_CONT"

definition mouse_mode_of :: "term_mode \<Rightarrow> mouse_mode" where
  "mouse_mode_of m =
    (if tm_mouse_motion m then AnyMotion
     else if tm_mouse_drag m then ButtonMotion
     else if tm_mouse_report_click m then PressRelease
     else Off)"

definition modes_of :: "term_mode \<Rightarrow> modes" where
  "modes_of m =
    \<lparr>alt_screen = tm_alt_screen m, bracketed_paste = tm_bracketed_paste m, mouse = mouse_mode_of m,
     app_cursor = tm_app_cursor m, app_keypad = tm_app_keypad m\<rparr>"

section \<open>Zero-width marks\<close>

definition landing :: "('t, 'p, 'h, 'op) emulator \<Rightarrow> 't \<Rightarrow> point" where
  "landing em t =
    (let (line, column) = em_cursor em t;
         p1 = (line, if em_needs_wrap em t then column else column - 1)
     in case cell_at em t p1 of
          Some c \<Rightarrow> if fl_wide_char_spacer (vc_flags c) then (line, snd p1 - 1) else p1
        | None \<Rightarrow> p1)"

definition held_bytes :: "'h vte_cell \<Rightarrow> nat" where
  "held_bytes c = len_utf8 (vc_c c) + str_len (case vc_zerowidth c of Some ms \<Rightarrow> ms | None \<Rightarrow> [])"

definition mark_fits :: "('t, 'p, 'h, 'op) emulator \<Rightarrow> 't \<Rightarrow> scalar \<Rightarrow> bool" where
  "mark_fits em t c =
    (if \<not> em_zero_width em c then True
     else case cell_at em t (landing em t) of
       None \<Rightarrow> True
     | Some cell \<Rightarrow> held_bytes cell + len_utf8 c \<le> MAX_CELL_TEXT)"

section \<open>Blink and scrolled lines\<close>

record blink_plane =
  bp_cells :: "point set"
  bp_active :: bool

definition blink_plane_default :: blink_plane where
  "blink_plane_default = \<lparr>bp_cells = {}, bp_active = False\<rparr>"

definition is_blinking :: "blink_plane \<Rightarrow> point \<Rightarrow> bool" where
  "is_blinking b p \<longleftrightarrow> p \<in> bp_cells b"

text \<open>The parser's numbers are 16 bits wide and a line of the plane lies in the history, so the
  \<open>i32\<close> difference does not wrap.\<close>

definition scrolled :: "int \<Rightarrow> int \<Rightarrow> blink_plane \<Rightarrow> blink_plane" where
  "scrolled lines topmost b =
    (if lines = 0 then b
     else b\<lparr>bp_cells := Set.filter (\<lambda>p. fst p \<ge> topmost) ((\<lambda>p. (fst p - lines, snd p)) ` bp_cells b)\<rparr>)"

definition blink_clear :: "blink_plane \<Rightarrow> blink_plane" where
  "blink_clear b = b\<lparr>bp_cells := {}\<rparr>"

text \<open>The tap the parser writes to: the terminal, the plane and the count of scrolled lines, with the
  events the terminal reports on the way.\<close>

record 't tap =
  tp_term :: 't
  tp_blink :: blink_plane
  tp_scrolled :: u64
  tp_events :: "event list"

definition on_alt_screen :: "('t, 'p, 'h, 'op) emulator \<Rightarrow> 't tap \<Rightarrow> bool" where
  "on_alt_screen em tp = tm_alt_screen (em_mode em (tp_term tp))"

definition note_scroll :: "('t, 'p, 'h, 'op) emulator \<Rightarrow> u64 \<Rightarrow> 't tap \<Rightarrow> 't tap" where
  "note_scroll em lines tp =
    (if lines = 0 then tp
     else tp\<lparr>tp_scrolled := sat_add (tp_scrolled tp) lines,
             tp_blink := scrolled (min (uint lines) 2147483647) (em_topmost_line em (tp_term tp)) (tp_blink tp)\<rparr>)"

definition forward :: "('t, 'p, 'h, 'op) emulator \<Rightarrow> 'op handler_call \<Rightarrow> 't tap \<Rightarrow> 't tap" where
  "forward em call tp =
    (let (t, evs) = em_call em call (tp_term tp) in tp\<lparr>tp_term := t, tp_events := tp_events tp @ evs\<rparr>)"

definition tap_input :: "('t, 'p, 'h, 'op) emulator \<Rightarrow> scalar \<Rightarrow> 't tap \<Rightarrow> 't tap" where
  "tap_input em c tp =
    (let p = em_clamp em (tp_term tp) (em_cursor em (tp_term tp));
         b = tp_blink tp;
         tp1 = tp\<lparr>tp_blink := b\<lparr>bp_cells :=
                  if bp_active b then insert p (bp_cells b) else bp_cells b - {p}\<rparr>\<rparr>
     in if \<not> mark_fits em (tp_term tp) c then tp1 else forward em (Input c) tp1)"

definition tap_linefeed :: "('t, 'p, 'h, 'op) emulator \<Rightarrow> 't tap \<Rightarrow> 't tap" where
  "tap_linefeed em tp =
    (let before = fst (em_cursor em (tp_term tp));
         alt = on_alt_screen em tp;
         tp1 = forward em Linefeed tp
     in if \<not> alt \<and> fst (em_cursor em (tp_term tp1)) = before then note_scroll em 1 tp1 else tp1)"

definition tap_scroll_up :: "('t, 'p, 'h, 'op) emulator \<Rightarrow> nat \<Rightarrow> 't tap \<Rightarrow> 't tap" where
  "tap_scroll_up em n tp =
    (let alt = on_alt_screen em tp; tp1 = forward em (ScrollUp n) tp
     in if \<not> alt then note_scroll em (of_nat n) tp1 else tp1)"

definition tap_attribute :: "('t, 'p, 'h, 'op) emulator \<Rightarrow> 'op vte_attr \<Rightarrow> 't tap \<Rightarrow> 't tap" where
  "tap_attribute em a tp =
    forward em (TerminalAttribute a)
      (case a of
         BlinkSlow \<Rightarrow> tp\<lparr>tp_blink := (tp_blink tp)\<lparr>bp_active := True\<rparr>\<rparr>
       | BlinkFast \<Rightarrow> tp\<lparr>tp_blink := (tp_blink tp)\<lparr>bp_active := True\<rparr>\<rparr>
       | CancelBlink \<Rightarrow> tp\<lparr>tp_blink := (tp_blink tp)\<lparr>bp_active := False\<rparr>\<rparr>
       | ResetAttr \<Rightarrow> tp\<lparr>tp_blink := (tp_blink tp)\<lparr>bp_active := False\<rparr>\<rparr>
       | OtherAttr _ \<Rightarrow> tp)"

fun tap_call :: "('t, 'p, 'h, 'op) emulator \<Rightarrow> 'op handler_call \<Rightarrow> 't tap \<Rightarrow> 't tap" where
  "tap_call em (Input c) tp = tap_input em c tp"
| "tap_call em Linefeed tp = tap_linefeed em tp"
| "tap_call em (ScrollUp n) tp = tap_scroll_up em n tp"
| "tap_call em (TerminalAttribute a) tp = tap_attribute em a tp"
| "tap_call em (Forwarded op) tp = forward em (Forwarded op) tp"

section \<open>Events\<close>

record signals =
  sg_title :: "ustr option"
  sg_bells :: u32
  sg_clipboard :: "(clipboard_type \<times> ustr) list"
  sg_child_exit :: "int option"
  sg_wakeup :: bool
  sg_replies :: "ustr list"

definition signals_default :: signals where
  "signals_default =
    \<lparr>sg_title = None, sg_bells = 0, sg_clipboard = [], sg_child_exit = None, sg_wakeup = False, sg_replies = []\<rparr>"

definition exit_code :: "exit_status \<Rightarrow> int" where
  "exit_code st = (case st of ExitedWith c \<Rightarrow> c | KilledBy n \<Rightarrow> 128 + n | NoStatus \<Rightarrow> 128 + 0)"

fun send_event :: "event \<Rightarrow> signals \<Rightarrow> signals" where
  "send_event (Title t) s = s\<lparr>sg_title := Some t\<rparr>"
| "send_event ResetTitle s = s\<lparr>sg_title := Some []\<rparr>"
| "send_event Bell s = s\<lparr>sg_bells := sat_add (sg_bells s) 1\<rparr>"
| "send_event (ClipboardStore kind text) s = s\<lparr>sg_clipboard := sg_clipboard s @ [(kind, text)]\<rparr>"
| "send_event (ChildExit st) s = s\<lparr>sg_child_exit := Some (exit_code st)\<rparr>"
| "send_event Wakeup s = s\<lparr>sg_wakeup := True\<rparr>"
| "send_event (PtyWrite reply) s = s\<lparr>sg_replies := sg_replies s @ [reply]\<rparr>"
| "send_event OtherEvent s = s"

section \<open>A cell of the protocol\<close>

definition blink_of :: "blink_plane \<Rightarrow> point \<Rightarrow> attrs" where
  "blink_of b p = (if is_blinking b p then BLINK else 0)"

definition convert_cell ::
  "'h vte_cell \<Rightarrow> point \<Rightarrow> blink_plane \<Rightarrow> (nat \<Rightarrow> rgb option) \<Rightarrow> rgb list \<Rightarrow> cell" where
  "convert_cell c p blink overrides table =
    \<lparr>c_text = cell_text c, c_fg = to_proto_color (vc_fg c) overrides table,
     c_bg = to_proto_color (vc_bg c) overrides table,
     c_attrs = attrs_of (vc_flags c) OR blink_of blink p, c_link = 0\<rparr>"

section \<open>What the user's own terminal can show\<close>

primrec str_contains :: "ustr \<Rightarrow> ustr \<Rightarrow> bool" where
  "str_contains needle [] = (needle = [])"
| "str_contains needle (c # s) = (take (length needle) (c # s) = needle \<or> str_contains needle s)"

definition caps_from :: "ustr \<Rightarrow> ustr \<Rightarrow> terminal_caps" where
  "caps_from tname colorterm =
    (let truecolor = (colorterm = str_of ''truecolor'' \<or> colorterm = str_of ''24bit'');
         dumb = (tname = str_of ''dumb'')
     in \<lparr>caps_truecolor = truecolor,
         caps_colors =
           (if truecolor then 16777216 else if str_contains (str_of ''256'') tname then 256
            else if dumb then 8 else 16),
         caps_bracketed_paste = \<not> dumb, caps_mouse_sgr = \<not> dumb, caps_osc52 = \<not> dumb,
         caps_osc8 = \<not> dumb, caps_term_name = tname\<rparr>)"

definition detect_caps :: "ustr option \<Rightarrow> ustr option \<Rightarrow> terminal_caps" where
  "detect_caps term_var colorterm_var =
    caps_from (case term_var of Some t \<Rightarrow> t | None \<Rightarrow> str_of ''dumb'')
      (case colorterm_var of Some c \<Rightarrow> c | None \<Rightarrow> [])"

section \<open>Properties\<close>

text \<open>The attribute bits are distinct, so a bit of a union is exactly the flag that set it.\<close>

lemmas attr_defs = BOLD_def ITALIC_def UNDERLINE_def INVERSE_def BLINK_def STRIKE_def DIM_def HIDDEN_def WIDE_CONT_def

lemma bit_push_one: "k < 16 \<Longrightarrow> bit (push_bit k 1 :: attrs) n \<longleftrightarrow> n = k"
  by (auto simp: bit_simps)

lemma contains_bit:
  assumes "n < 16"
  shows "attrs_contains a (push_bit n 1) \<longleftrightarrow> bit a n"
proof -
  have "a AND push_bit n 1 = (if bit a n then push_bit n 1 else 0)"
    using assms by (intro bit_word_eqI) (auto simp: bit_simps)
  moreover have "push_bit n 1 \<noteq> (0 :: attrs)"
  proof
    assume "push_bit n 1 = (0 :: attrs)"
    moreover have "bit (push_bit n 1 :: attrs) n" by (rule iffD2 [OF bit_push_one [OF assms]]) simp
    ultimately have "bit (0 :: attrs) n" by (simp only:)
    then show False by simp
  qed
  ultimately show ?thesis by (simp add: attrs_contains_def)
qed

lemma bit_attr_if: "bit (attr_if b a) n \<longleftrightarrow> b \<and> bit a n"
  by (simp add: attr_if_def)

lemma attr_bit:
  "bit BOLD n \<longleftrightarrow> n = 0" "bit ITALIC n \<longleftrightarrow> n = 1" "bit UNDERLINE n \<longleftrightarrow> n = 2" "bit INVERSE n \<longleftrightarrow> n = 3"
  "bit BLINK n \<longleftrightarrow> n = 4" "bit STRIKE n \<longleftrightarrow> n = 5" "bit DIM n \<longleftrightarrow> n = 6" "bit HIDDEN n \<longleftrightarrow> n = 7"
  "bit WIDE_CONT n \<longleftrightarrow> n = 8"
  using bit_push_one [of 0 n] bit_push_one [of 1 n] bit_push_one [of 2 n] bit_push_one [of 3 n]
    bit_push_one [of 4 n] bit_push_one [of 5 n] bit_push_one [of 6 n] bit_push_one [of 7 n] bit_push_one [of 8 n]
  by (simp_all add: attr_defs push_bit_eq_mult)

lemma attr_contains:
  "attrs_contains a BOLD \<longleftrightarrow> bit a 0" "attrs_contains a ITALIC \<longleftrightarrow> bit a 1" "attrs_contains a UNDERLINE \<longleftrightarrow> bit a 2"
  "attrs_contains a INVERSE \<longleftrightarrow> bit a 3" "attrs_contains a BLINK \<longleftrightarrow> bit a 4" "attrs_contains a STRIKE \<longleftrightarrow> bit a 5"
  "attrs_contains a DIM \<longleftrightarrow> bit a 6" "attrs_contains a HIDDEN \<longleftrightarrow> bit a 7" "attrs_contains a WIDE_CONT \<longleftrightarrow> bit a 8"
  using contains_bit [of 0 a] contains_bit [of 1 a] contains_bit [of 2 a] contains_bit [of 3 a]
    contains_bit [of 4 a] contains_bit [of 5 a] contains_bit [of 6 a] contains_bit [of 7 a] contains_bit [of 8 a]
  by (simp_all add: attr_defs push_bit_eq_mult)

text \<open>A cell of the protocol carries exactly the attributes the emulator's cell has and the blink the
  tap recorded at its place: none is lost and none invented, and both halves of a wide glyph's
  padding are marked as a continuation with no text of their own.\<close>

theorem cell_attributes_are_exact:
  "let a = c_attrs (convert_cell c p blink overrides table) in
    (attrs_contains a BOLD \<longleftrightarrow> fl_bold (vc_flags c)) \<and> (attrs_contains a ITALIC \<longleftrightarrow> fl_italic (vc_flags c))
    \<and> (attrs_contains a UNDERLINE \<longleftrightarrow> fl_underlined (vc_flags c))
    \<and> (attrs_contains a INVERSE \<longleftrightarrow> fl_inverse (vc_flags c))
    \<and> (attrs_contains a BLINK \<longleftrightarrow> p \<in> bp_cells blink)
    \<and> (attrs_contains a STRIKE \<longleftrightarrow> fl_strikeout (vc_flags c)) \<and> (attrs_contains a DIM \<longleftrightarrow> fl_dim (vc_flags c))
    \<and> (attrs_contains a HIDDEN \<longleftrightarrow> fl_hidden (vc_flags c))
    \<and> (attrs_contains a WIDE_CONT \<longleftrightarrow> fl_wide_char_spacer (vc_flags c) \<or> fl_leading_wide_char_spacer (vc_flags c))
    \<and> (if attrs_contains a WIDE_CONT then c_text (convert_cell c p blink overrides table) = [] else True)"
proof -
  define a where "a = c_attrs (convert_cell c p blink overrides table)"
  have a: "a = attrs_of (vc_flags c) OR attr_if (p \<in> bp_cells blink) BLINK"
    by (simp add: a_def convert_cell_def blink_of_def is_blinking_def attr_if_def)
  have bits: "bit a n \<longleftrightarrow>
      fl_bold (vc_flags c) \<and> n = 0 \<or> fl_italic (vc_flags c) \<and> n = 1 \<or> fl_underlined (vc_flags c) \<and> n = 2
      \<or> fl_inverse (vc_flags c) \<and> n = 3 \<or> p \<in> bp_cells blink \<and> n = 4 \<or> fl_strikeout (vc_flags c) \<and> n = 5
      \<or> fl_dim (vc_flags c) \<and> n = 6 \<or> fl_hidden (vc_flags c) \<and> n = 7
      \<or> (fl_wide_char_spacer (vc_flags c) \<or> fl_leading_wide_char_spacer (vc_flags c)) \<and> n = 8" for n
    unfolding a attrs_of_def bit_or_iff bit_attr_if attr_bit by blast
  have "c_text (convert_cell c p blink overrides table) = []"
    if "fl_wide_char_spacer (vc_flags c) \<or> fl_leading_wide_char_spacer (vc_flags c)"
    using that by (simp add: convert_cell_def cell_text_def)
  then show ?thesis
    unfolding a_def [symmetric] Let_def attr_contains bits by simp
qed

text \<open>The table is complete, every named colour has a place in it, and where the client resolves an index
  itself (the cube and the greys) both ends mean the same colour.\<close>

lemma palette_length: "length palette = PALETTE_LEN"
  by (simp add: palette_def PALETTE_LEN_def BASE_16_def LEVELS_def)

lemma named_index_less: "named_index n < PALETTE_LEN"
  by (cases n) (simp_all add: PALETTE_LEN_def)

lemma palette_is_the_clients: "take 240 (drop 16 palette) = map (\<lambda>i. idx_to_rgb (of_nat i)) [16..<256]"
  by code_simp

text \<open>What the sink holds after a batch of events.\<close>

definition count_bells :: "event list \<Rightarrow> nat" where
  "count_bells evs = length (filter (\<lambda>e. e = Bell) evs)"

fun title_of :: "event \<Rightarrow> ustr option" where
  "title_of (Title t) = Some t"
| "title_of ResetTitle = Some []"
| "title_of _ = None"

fun copy_of :: "event \<Rightarrow> (clipboard_type \<times> ustr) option" where
  "copy_of (ClipboardStore kind text) = Some (kind, text)"
| "copy_of _ = None"

fun reply_of :: "event \<Rightarrow> ustr option" where
  "reply_of (PtyWrite r) = Some r"
| "reply_of _ = None"

lemma send_events_bells:
  "unat (sg_bells (fold send_event evs s)) = min (unat (sg_bells s) + count_bells evs) (2 ^ 32 - 1)"
proof (induction evs arbitrary: s)
  case Nil
  show ?case using unat_le_max [of "sg_bells s"] by (simp add: count_bells_def)
next
  case (Cons e evs)
  show ?case
    by (cases e) (auto simp: Cons.IH count_bells_def unat_sat_add)
qed

lemma send_events_lists:
  "sg_clipboard (fold send_event evs s) = sg_clipboard s @ List.map_filter copy_of evs"
  "sg_replies (fold send_event evs s) = sg_replies s @ List.map_filter reply_of evs"
proof (induction evs arbitrary: s)
  case (Cons e evs)
  { case 1 show ?case by (cases e) (auto simp: Cons.IH List.map_filter_simps) }
  { case 2 show ?case by (cases e) (auto simp: Cons.IH List.map_filter_simps) }
qed (simp_all add: List.map_filter_simps)

lemma send_events_title:
  "sg_title (fold send_event evs s) =
    (case List.map_filter title_of evs of [] \<Rightarrow> sg_title s | ts \<Rightarrow> Some (last ts))"
proof (induction evs arbitrary: s)
  case (Cons e evs)
  show ?case by (cases e) (auto simp: Cons.IH List.map_filter_simps split: list.splits)
qed (simp add: List.map_filter_simps)

end
