(* ===== verification/Osc_Guard.thy ===== *)
theory Osc_Guard
  imports Prelude
begin

text \<open>
  The length cap on OSC strings of \<open>crates/oxutrm-term/src/osc_guard.rs\<close>: a filter between the child's
  output and the emulator's parser, which puts no limit on an OSC body. The model keeps the filter's
  loop; the indices \<open>start\<close> and \<open>i\<close> of the code become the two pieces of the input they cut: \<open>pend\<close> is
  \<open>input[start..i]\<close>, passed on unchanged and not yet handed over, and \<open>rest\<close> is \<open>input[i..]\<close>. The calls
  of \<open>sink\<close> are the list the loop returns.

  The reference is \<open>vstep\<close>, the rules the module's comment states for where an OSC starts and ends,
  with the body collected so far. The lemmas relate the filter to it: how much the filter holds, what
  reaches the parser, and that output with no oversized OSC passes unchanged however it is cut into
  reads.
\<close>

section \<open>The filter\<close>

definition MAX_OSC_LEN :: nat where "MAX_OSC_LEN = 512 * 1024"
definition MAX_TITLE_OSC_LEN :: nat where "MAX_TITLE_OSC_LEN = 2 * 1024"
definition MAX_LINK_OSC_LEN :: nat where "MAX_LINK_OSC_LEN = 4 * 1024"

datatype guard_state = Ground | Escape | Osc | Discard

record osc_guard =
  og_state :: guard_state
  og_held :: bytes

definition OSC_BEL :: u8 where "OSC_BEL = 0x07"
definition OSC_CAN :: u8 where "OSC_CAN = 0x18"
definition OSC_SUB :: u8 where "OSC_SUB = 0x1a"
definition OSC_ESC :: u8 where "OSC_ESC = 0x1b"

lemmas limit_consts = MAX_OSC_LEN_def MAX_TITLE_OSC_LEN_def MAX_LINK_OSC_LEN_def

lemmas byte_defs = OSC_BEL_def OSC_CAN_def OSC_SUB_def OSC_ESC_def

text \<open>The number is the part before the first \<open>;\<close> without its C0 controls; the cap goes by it.\<close>

definition osc_number :: "bytes \<Rightarrow> bytes" where
  "osc_number held = filter (\<lambda>b. b \<ge> 0x20) (takeWhile (\<lambda>b. b \<noteq> 0x3b) held)"

definition limit :: "bytes \<Rightarrow> nat" where
  "limit held =
    (case osc_number held of
       [n] \<Rightarrow> (if n = 0x30 \<or> n = 0x31 \<or> n = 0x32 then MAX_TITLE_OSC_LEN
               else if n = 0x38 then MAX_LINK_OSC_LEN else MAX_OSC_LEN)
     | _ \<Rightarrow> MAX_OSC_LEN)"

definition ends_osc :: "u8 \<Rightarrow> bool" where
  "ends_osc b \<longleftrightarrow> b = OSC_BEL \<or> b = OSC_CAN \<or> b = OSC_SUB \<or> b = OSC_ESC"

definition osc_guard_new :: osc_guard where
  "osc_guard_new = \<lparr>og_state = Ground, og_held = []\<rparr>"

definition release :: "osc_guard \<Rightarrow> osc_guard" where
  "release g = g\<lparr>og_held := []\<rparr>"

text \<open>\<open>Iterator::position\<close>.\<close>

primrec position :: "('a \<Rightarrow> bool) \<Rightarrow> 'a list \<Rightarrow> nat option" where
  "position P [] = None"
| "position P (x # xs) = (if P x then Some 0 else map_option Suc (position P xs))"

definition stays_escape :: "u8 \<Rightarrow> bool" where
  "stays_escape b \<longleftrightarrow> b \<le> 0x17 \<or> b = 0x19 \<or> (0x1b \<le> b \<and> b \<le> 0x1f) \<or> 0x7f \<le> b"

text \<open>The block under \<open>if self.state == State::Osc\<close>: keep the piece of body, or give the OSC up.\<close>

definition hold :: "bytes \<Rightarrow> osc_guard \<Rightarrow> osc_guard \<times> bytes list" where
  "hold body g =
    (let fits = length (og_held g) + length body \<le> MAX_OSC_LEN;
         g1 = (if fits then g\<lparr>og_held := og_held g @ body\<rparr> else g)
     in if \<not> fits \<or> length (og_held g1) > limit (og_held g1)
        then ((release g1)\<lparr>og_state := Discard\<rparr>, [[OSC_CAN]])
        else (g1, []))"

text \<open>The rest of the arm, at the byte \<open>b\<close> that ends the body: the state that follows and the piece
  of input that is pending again.\<close>

definition at_end :: "u8 \<Rightarrow> osc_guard \<Rightarrow> osc_guard \<times> bytes list \<times> bytes" where
  "at_end b g =
    (let (g1, outs, pend) =
       (if og_state g = Osc then (release g, [og_held g], [b])
        else (g, [], if b = OSC_BEL then [] else [b]))
     in (g1\<lparr>og_state := if b = OSC_ESC then Escape else Ground\<rparr>, outs, pend))"

lemma position_less: "position P xs = Some n \<Longrightarrow> n < length xs"
  by (induction xs arbitrary: n) (auto split: if_splits)

function feed_loop :: "bytes \<Rightarrow> bytes \<Rightarrow> osc_guard \<Rightarrow> bytes list \<Rightarrow> osc_guard \<times> bytes list" where
  "feed_loop rest pend g outs =
    (case rest of
       [] \<Rightarrow> (g, if pend \<noteq> [] then outs @ [pend] else outs)
     | b # tail \<Rightarrow>
         (case og_state g of
            Ground \<Rightarrow>
              (case position (\<lambda>b. b = OSC_ESC) rest of
                 Some n \<Rightarrow> feed_loop (drop (n + 1) rest) (pend @ take (n + 1) rest)
                            (g\<lparr>og_state := Escape\<rparr>) outs
               | None \<Rightarrow> feed_loop [] (pend @ rest) g outs)
          | Escape \<Rightarrow>
              (if b = 0x5d then feed_loop tail [] (g\<lparr>og_state := Osc\<rparr>) (outs @ [pend @ [b]])
               else if stays_escape b then feed_loop tail (pend @ [b]) g outs
               else feed_loop tail (pend @ [b]) (g\<lparr>og_state := Ground\<rparr>) outs)
          | _ \<Rightarrow>
              (let body = take (case position ends_osc rest of Some n \<Rightarrow> n | None \<Rightarrow> length rest) rest;
                   (g1, held_outs) = (if og_state g = Osc then hold body g else (g, []))
               in case drop (length body) rest of
                    [] \<Rightarrow> (g1, outs @ held_outs)
                  | e # after \<Rightarrow>
                      (let (g2, end_outs, pend2) = at_end e g1
                       in feed_loop after pend2 g2 (outs @ held_outs @ end_outs)))))"
  by pat_completeness auto
termination
proof (relation "measure (\<lambda>(rest, pend, g, outs). length rest)", goal_cases)
  case 1
  then show ?case by simp
qed (auto simp: Let_def dest: arg_cong [where f = length] split: if_splits)

declare feed_loop.simps [simp del]

definition feed :: "osc_guard \<Rightarrow> bytes \<Rightarrow> osc_guard \<times> bytes list" where
  "feed g input = feed_loop input [] g []"

text \<open>The reads of a session, one \<open>feed\<close> each; the second component is the stream the parser sees.\<close>

primrec feeds :: "bytes list \<Rightarrow> osc_guard \<Rightarrow> osc_guard \<times> bytes" where
  "feeds [] g = (g, [])"
| "feeds (input # inputs) g =
     (let (g1, outs) = feed g input; (g2, more) = feeds inputs g1 in (g2, concat outs @ more))"

section \<open>Where an OSC starts and ends\<close>

text \<open>The parser's view of a stream under the rules of the module's comment, with the raw body so far,
  and the bodies it has dispatched. BEL, CAN, SUB and ESC dispatch; only \<open>ESC ]\<close> opens.\<close>

datatype view = VGround | VEscape | VOsc bytes

fun vstep :: "u8 \<Rightarrow> view \<times> bytes list \<Rightarrow> view \<times> bytes list" where
  "vstep b (VGround, ds) = (if b = OSC_ESC then VEscape else VGround, ds)"
| "vstep b (VEscape, ds) =
     (if b = 0x5d then VOsc [] else if stays_escape b then VEscape else VGround, ds)"
| "vstep b (VOsc body, ds) =
     (if ends_osc b then (if b = OSC_ESC then VEscape else VGround, ds @ [body])
      else (VOsc (body @ [b]), ds))"

primrec vrun :: "bytes \<Rightarrow> view \<times> bytes list \<Rightarrow> view \<times> bytes list" where
  "vrun [] s = s"
| "vrun (b # bs) s = vrun bs (vstep b s)"

abbreviation scan :: "bytes \<Rightarrow> view \<times> bytes list" where
  "scan bs \<equiv> vrun bs (VGround, [])"

text \<open>A predicate on the body under way that holds at every point of a stream.\<close>

fun on_body :: "(bytes \<Rightarrow> bool) \<Rightarrow> view \<Rightarrow> bool" where
  "on_body P (VOsc body) = P body"
| "on_body P _ = True"

primrec always :: "(bytes \<Rightarrow> bool) \<Rightarrow> bytes \<Rightarrow> view \<times> bytes list \<Rightarrow> bool" where
  "always P [] s = on_body P (fst s)"
| "always P (b # bs) s = (on_body P (fst s) \<and> always P bs (vstep b s))"

definition within_cap :: "bytes \<Rightarrow> bool" where
  "within_cap body \<longleftrightarrow> length body \<le> limit body"

definition oversized :: "bytes \<Rightarrow> bool" where
  "oversized body \<longleftrightarrow> (\<exists>n\<le>length body. \<not> within_cap (take n body))"

lemma vrun_append [simp]: "vrun (xs @ ys) s = vrun ys (vrun xs s)"
  by (induction xs arbitrary: s) simp_all

lemma always_now: "always P xs s \<Longrightarrow> on_body P (fst s)"
  by (cases xs) simp_all

lemma always_append: "always P (xs @ ys) s \<longleftrightarrow> always P xs s \<and> always P ys (vrun xs s)"
  by (induction xs arbitrary: s) (auto dest: always_now)

lemma always_last: "always P xs s \<Longrightarrow> on_body P (fst (vrun xs s))"
  by (induction xs arbitrary: s) simp_all

lemma vrun_ground:
  assumes "OSC_ESC \<notin> set bs"
  shows "vrun bs (VGround, ds) = (VGround, ds)" "always P bs (VGround, ds)"
  using assms by (induction bs) auto

lemma vrun_body:
  assumes "\<forall>b\<in>set bs. \<not> ends_osc b"
  shows "vrun bs (VOsc body, ds) = (VOsc (body @ bs), ds)"
  using assms by (induction bs arbitrary: body) auto

lemma always_body:
  assumes "\<forall>b\<in>set bs. \<not> ends_osc b"
  shows "always P bs (VOsc body, ds) \<longleftrightarrow> (\<forall>n\<le>length bs. P (body @ take n bs))"
  using assms
proof (induction bs arbitrary: body)
  case (Cons b bs)
  have "(\<forall>n\<le>length (b # bs). P (body @ take n (b # bs)))
      \<longleftrightarrow> P body \<and> (\<forall>n\<le>length bs. P (body @ b # take n bs))"
    unfolding less_Suc_eq_le [symmetric] length_Cons by (subst All_less_Suc2) simp
  with Cons show ?case by simp
qed simp

lemma scan_plain: "fst (scan bs) = VOsc body \<Longrightarrow> \<forall>b\<in>set body. \<not> ends_osc b"
proof -
  have step: "on_body (\<lambda>x. \<forall>b\<in>set x. \<not> ends_osc b) (fst (vstep b s))"
    if "on_body (\<lambda>x. \<forall>b\<in>set x. \<not> ends_osc b) (fst s)" for b s
    using that by (cases "(b, s)" rule: vstep.cases) auto
  have "on_body (\<lambda>x. \<forall>b\<in>set x. \<not> ends_osc b) (fst (vrun bs s))"
    if "on_body (\<lambda>x. \<forall>b\<in>set x. \<not> ends_osc b) (fst s)" for s
    using that by (induction bs arbitrary: s) (simp_all add: step)
  from this [of "(VGround, [])"] show "fst (scan bs) = VOsc body \<Longrightarrow> \<forall>b\<in>set body. \<not> ends_osc b"
    by simp
qed

lemma limit_le: "limit held \<le> MAX_OSC_LEN"
  by (simp add: limit_def MAX_OSC_LEN_def MAX_TITLE_OSC_LEN_def MAX_LINK_OSC_LEN_def split: list.split)

lemma oversized_now: "\<not> within_cap body \<Longrightarrow> oversized body"
  by (auto simp: oversized_def)

lemma oversized_append: "oversized body \<Longrightarrow> oversized (body @ xs)"
  unfolding oversized_def by (metis append_Nil2 diff_is_0_eq take_0 take_append trans_le_add1 length_append)

section \<open>The filter against the rules\<close>

text \<open>Each OSC of the input arrives at the parser, in order: whole, or empty when it outgrew its cap.\<close>

definition echoed :: "bytes list \<Rightarrow> bytes list \<Rightarrow> bool" where
  "echoed outs ins = list_all2 (\<lambda>b a. b = a \<or> b = [] \<and> oversized a) outs ins"

definition guard_in_step :: "osc_guard \<Rightarrow> view \<times> bytes list \<Rightarrow> view \<times> bytes list \<Rightarrow> bool" where
  "guard_in_step g si so \<longleftrightarrow>
    (case og_state g of
       Ground \<Rightarrow> og_held g = [] \<and> fst si = VGround \<and> fst so = VGround \<and> echoed (snd so) (snd si)
     | Escape \<Rightarrow> og_held g = [] \<and> fst si = VEscape \<and> fst so = VEscape \<and> echoed (snd so) (snd si)
     | Osc \<Rightarrow> within_cap (og_held g) \<and> fst si = VOsc (og_held g) \<and> fst so = VOsc []
         \<and> echoed (snd so) (snd si)
     | Discard \<Rightarrow> og_held g = [] \<and> (\<exists>body. fst si = VOsc body \<and> oversized body) \<and> fst so = VGround
         \<and> (\<exists>ds. snd so = ds @ [[]] \<and> echoed ds (snd si)))
    \<and> (\<forall>body\<in>set (snd so). within_cap body)"

definition guard_inv :: "osc_guard \<Rightarrow> bytes \<Rightarrow> bytes \<Rightarrow> bool" where
  "guard_inv g inp out \<longleftrightarrow>
    guard_in_step g (scan inp) (scan out)
    \<and> always (\<lambda>body. length body \<le> MAX_OSC_LEN) out (VGround, [])
    \<and> (always within_cap inp (VGround, []) \<longrightarrow> og_state g \<noteq> Discard \<and> inp = out @ og_held g)"

lemma guard_inv_new: "guard_inv osc_guard_new [] []"
  by (simp add: guard_inv_def guard_in_step_def osc_guard_new_def echoed_def)

lemma within_cap_Nil [simp]: "within_cap []"
  by (simp add: within_cap_def)

lemma inv_ground:
  assumes "guard_inv g inp out" "og_state g = Ground" "OSC_ESC \<notin> set seg"
  shows "guard_inv g (inp @ seg) (out @ seg)"
proof -
  obtain di dout where "scan inp = (VGround, di)" "scan out = (VGround, dout)"
    using assms(1,2) by (cases "scan inp"; cases "scan out") (auto simp: guard_inv_def guard_in_step_def)
  with assms show ?thesis
    by (auto simp: guard_inv_def guard_in_step_def always_append vrun_ground)
qed

lemma inv_step_same:
  assumes "guard_inv g inp out" "og_state g = Ground \<or> og_state g = Escape"
    and "s' = (case fst (vstep b (scan inp)) of VGround \<Rightarrow> Ground | VEscape \<Rightarrow> Escape | VOsc _ \<Rightarrow> Osc)"
  shows "guard_inv (g\<lparr>og_state := s'\<rparr>) (inp @ [b]) (out @ [b])"
proof -
  obtain v di dout where s: "scan inp = (v, di)" "scan out = (v, dout)" "v = VGround \<or> v = VEscape"
    using assms(1,2) by (cases "scan inp"; cases "scan out") (auto simp: guard_inv_def guard_in_step_def)
  with assms show ?thesis
    by (auto simp: guard_inv_def guard_in_step_def always_append split: if_splits)
qed

lemma inv_hold:
  assumes "guard_inv g inp out" "og_state g = Osc" "\<forall>b\<in>set body. \<not> ends_osc b"
    and "hold body g = (g1, outs)"
  shows "guard_inv g1 (inp @ body) (out @ concat outs) \<and> (og_state g1 = Osc \<or> og_state g1 = Discard)"
proof -
  obtain di dout where s: "scan inp = (VOsc (og_held g), di)" "scan out = (VOsc [], dout)"
    using assms(1,2) by (cases "scan inp"; cases "scan out") (auto simp: guard_inv_def guard_in_step_def)
  let ?h = "og_held g @ body"
  have over: "\<not> within_cap ?h" if "length ?h > MAX_OSC_LEN"
    using that limit_le [of ?h] by (simp add: within_cap_def)
  have can: "vstep OSC_CAN (VOsc [], dout) = (VGround, dout @ [[]])"
    by (simp add: ends_osc_def byte_defs)
  show ?thesis
  proof (cases "within_cap ?h")
    case True
    then have "length ?h \<le> MAX_OSC_LEN" using over by force
    then have "g1 = g\<lparr>og_held := ?h\<rparr>" "outs = []"
      using assms(4) True by (auto simp: hold_def within_cap_def Let_def split: if_splits)
    with assms(1-3) s True show ?thesis
      by (auto simp: guard_inv_def guard_in_step_def always_append vrun_body)
  next
    case False
    then have g1: "g1 = g\<lparr>og_held := [], og_state := Discard\<rparr>" "outs = [[OSC_CAN]]"
      using assms(4) over by (auto simp: hold_def within_cap_def release_def Let_def split: if_splits)
    have "\<not> always within_cap body (VOsc (og_held g), di)"
      using False assms(3) by (auto simp: always_body intro!: exI [of _ "length body"])
    with g1 assms(1-3) s can oversized_now [OF False] show ?thesis
      by (auto simp: guard_inv_def guard_in_step_def always_append vrun_body)
  qed
qed

lemma inv_discard:
  assumes "guard_inv g inp out" "og_state g = Discard" "\<forall>b\<in>set body. \<not> ends_osc b"
  shows "guard_inv g (inp @ body) out"
proof -
  obtain b di where "scan inp = (VOsc b, di)" "oversized b"
    using assms(1,2) by (cases "scan inp") (auto simp: guard_inv_def guard_in_step_def)
  with assms show ?thesis
    by (auto simp: guard_inv_def guard_in_step_def always_append vrun_body oversized_append)
qed

lemma echoed_snoc: "echoed outs ins \<Longrightarrow> o' = i \<or> o' = [] \<and> oversized i \<Longrightarrow> echoed (outs @ [o']) (ins @ [i])"
  by (simp add: echoed_def list_all2_appendI)

lemma inv_end_osc:
  assumes "guard_inv g inp out" "og_state g = Osc" "ends_osc e" "at_end e g = (g2, outs, pend)"
  shows "guard_inv g2 (inp @ [e]) (out @ concat outs @ pend)"
proof -
  obtain di dout where s: "scan inp = (VOsc (og_held g), di)" "scan out = (VOsc [], dout)"
    using assms(1,2) by (cases "scan inp"; cases "scan out") (auto simp: guard_inv_def guard_in_step_def)
  have g2: "g2 = g\<lparr>og_held := [], og_state := if e = OSC_ESC then Escape else Ground\<rparr>"
    "outs = [og_held g]" "pend = [e]"
    using assms(2,4) by (auto simp: at_end_def release_def)
  have plain: "\<forall>b\<in>set (og_held g). \<not> ends_osc b"
    using s(1) by (intro scan_plain [of inp]) simp
  have "\<forall>n\<le>length (og_held g). length (take n (og_held g)) \<le> MAX_OSC_LEN"
    using assms(1,2) limit_le [of "og_held g"] by (auto simp: guard_inv_def guard_in_step_def within_cap_def)
  with assms(1-3) s show ?thesis
    unfolding g2
    by (auto simp: guard_inv_def guard_in_step_def always_append vrun_body [OF plain] always_body [OF plain]
        intro: echoed_snoc)
qed

lemma inv_end_discard:
  assumes "guard_inv g inp out" "og_state g = Discard" "ends_osc e" "at_end e g = (g2, outs, pend)"
  shows "guard_inv g2 (inp @ [e]) (out @ concat outs @ pend)"
proof -
  obtain b di ds where s: "scan inp = (VOsc b, di)" "oversized b" "scan out = (VGround, ds @ [[]])" "echoed ds di"
    using assms(1,2) by (cases "scan inp"; cases "scan out") (auto simp: guard_inv_def guard_in_step_def)
  have g2: "g2 = g\<lparr>og_state := if e = OSC_ESC then Escape else Ground\<rparr>"
    "outs = []" "pend = (if e = OSC_BEL then [] else [e])"
    using assms(2,4) by (auto simp: at_end_def)
  have "\<not> always within_cap inp (VGround, [])"
    using assms(1,2) by (auto simp: guard_inv_def)
  with assms(1-3) s show ?thesis
    unfolding g2
    by (auto simp: guard_inv_def guard_in_step_def always_append byte_defs intro: echoed_snoc)
qed

lemma position_Some:
  "position P xs = Some n \<Longrightarrow> n < length xs \<and> P (xs ! n) \<and> (\<forall>x\<in>set (take n xs). \<not> P x)"
  by (induction xs arbitrary: n) (auto split: if_splits)

lemma position_None: "position P xs = None \<longleftrightarrow> (\<forall>x\<in>set xs. \<not> P x)"
  by (induction xs) auto

lemma body_cut:
  fixes rest :: bytes
  defines "body \<equiv> take (case position ends_osc rest of Some n \<Rightarrow> n | None \<Rightarrow> length rest) rest"
  shows "\<forall>b\<in>set body. \<not> ends_osc b" "rest = body @ drop (length body) rest"
    and "drop (length body) rest = e # tail \<Longrightarrow> ends_osc e"
proof -
  show "\<forall>b\<in>set body. \<not> ends_osc b" "rest = body @ drop (length body) rest"
    by (auto simp: body_def position_None split: option.splits dest: position_Some)
  show "ends_osc e" if "drop (length body) rest = e # tail"
  proof (cases "position ends_osc rest")
    case (Some n)
    with that position_Some [OF Some] show ?thesis
      by (simp add: body_def) (metis Cons_nth_drop_Suc list.inject)
  qed (use that in \<open>simp add: body_def\<close>)
qed

lemma feed_loop_end: "feed_loop [] pend g outs = (g, if pend \<noteq> [] then outs @ [pend] else outs)"
  by (simp add: feed_loop.simps)

lemma feed_loop_ground:
  assumes "og_state g = Ground" "rest \<noteq> []"
  shows "feed_loop rest pend g outs =
    (case position (\<lambda>b. b = OSC_ESC) rest of
       Some n \<Rightarrow> feed_loop (drop (n + 1) rest) (pend @ take (n + 1) rest) (g\<lparr>og_state := Escape\<rparr>) outs
     | None \<Rightarrow> feed_loop [] (pend @ rest) g outs)"
  unfolding feed_loop.simps [of rest] using assms by (cases rest) (simp_all del: position.simps)

lemma feed_loop_body:
  assumes "og_state g = Osc \<or> og_state g = Discard" "rest \<noteq> []"
    and "body = take (case position ends_osc rest of Some n \<Rightarrow> n | None \<Rightarrow> length rest) rest"
    and "(if og_state g = Osc then hold body g else (g, [])) = (g1, held_outs)"
  shows "feed_loop rest pend g outs =
    (case drop (length body) rest of
       [] \<Rightarrow> (g1, outs @ held_outs)
     | e # after \<Rightarrow> (let (g2, end_outs, pend2) = at_end e g1
                     in feed_loop after pend2 g2 (outs @ held_outs @ end_outs)))"
  unfolding feed_loop.simps [of rest] using assms
  by (cases rest; cases "og_state g") (auto simp: Let_def simp del: position.simps)

lemma inv_body:
  assumes "guard_inv g inp out" "og_state g = Osc \<or> og_state g = Discard" "\<forall>b\<in>set body. \<not> ends_osc b"
    and "(if og_state g = Osc then hold body g else (g, [])) = (g1, outs)"
  shows "guard_inv g1 (inp @ body) (out @ concat outs) \<and> (og_state g1 = Osc \<or> og_state g1 = Discard)"
  using assms inv_hold [of g inp out body g1 outs] inv_discard [of g inp out body]
  by (auto split: if_splits)

text \<open>An OSC's own end leaves the filter outside it, so the pieces handed over always start there.\<close>

lemma at_end_state: "at_end e g = (g2, outs, pend) \<Longrightarrow> og_state g2 = (if e = OSC_ESC then Escape else Ground)"
  by (auto simp: at_end_def Let_def split: prod.splits if_splits)

lemma feed_loop_inv:
  assumes "guard_inv g inp (out @ concat outs @ pend)"
    and "og_state g = Osc \<or> og_state g = Discard \<Longrightarrow> pend = []"
    and "feed_loop rest pend g outs = (g', outs')"
  shows "guard_inv g' (inp @ rest) (out @ concat outs')"
  using assms
proof (induction "length rest" arbitrary: rest pend g outs inp rule: less_induct)
  case less
  note inv = less.prems(1) and run = less.prems(3)
  show ?case
  proof (cases rest)
    case Nil
    with inv run show ?thesis by (auto simp: feed_loop_end split: if_splits)
  next
    case (Cons b tail)
    then have ne: "rest \<noteq> []" by simp
    consider (Ground) "og_state g = Ground" | (Escape) "og_state g = Escape"
      | (Body) "og_state g = Osc \<or> og_state g = Discard" by (cases "og_state g") simp_all
    then show ?thesis
    proof cases
      case Ground
      show ?thesis
      proof (cases "position (\<lambda>b. b = OSC_ESC) rest")
        case None
        then have "OSC_ESC \<notin> set rest" by (auto simp: position_None)
        from inv_ground [OF inv Ground this] run show ?thesis
          by (auto simp: feed_loop_ground [OF Ground ne] None feed_loop_end ne)
      next
        case (Some n)
        have n: "n < length rest" "rest ! n = OSC_ESC" "OSC_ESC \<notin> set (take n rest)"
          using position_Some [OF Some] by auto
        note mid = inv_ground [OF inv Ground n(3)]
        have "fst (scan (inp @ take n rest)) = VGround"
          using mid Ground by (simp add: guard_inv_def guard_in_step_def)
        then have "Escape = (case fst (vstep OSC_ESC (scan (inp @ take n rest))) of
            VGround \<Rightarrow> Ground | VEscape \<Rightarrow> Escape | VOsc _ \<Rightarrow> Osc)"
          by (cases "scan (inp @ take n rest)") simp
        from inv_step_same [OF mid _ this] Ground n(1,2)
        have "guard_inv (g\<lparr>og_state := Escape\<rparr>) (inp @ take (n + 1) rest) (out @ concat outs @ (pend @ take (n + 1) rest))"
          by (simp add: take_Suc_conv_app_nth)
        from less.hyps [OF _ this, of "drop (n + 1) rest"] run ne show ?thesis
          by (simp add: feed_loop_ground [OF Ground ne] Some)
      qed
    next
      case Escape
      define s' where "s' = (if b = 0x5d then Osc else if stays_escape b then Escape else Ground)"
      have "fst (scan inp) = VEscape"
        using inv Escape by (simp add: guard_inv_def guard_in_step_def)
      then have "s' = (case fst (vstep b (scan inp)) of VGround \<Rightarrow> Ground | VEscape \<Rightarrow> Escape | VOsc _ \<Rightarrow> Osc)"
        by (cases "scan inp") (simp add: s'_def)
      from inv_step_same [OF inv _ this] Escape
      have step: "guard_inv (g\<lparr>og_state := s'\<rparr>) (inp @ [b]) ((out @ concat outs @ pend) @ [b])" by simp
      have keep: "g\<lparr>og_state := Escape\<rparr> = g" using Escape by simp
      show ?thesis
        using less.hyps [of tail "g\<lparr>og_state := s'\<rparr>" "inp @ [b]" "outs @ [pend @ [b]]" "[]"]
          less.hyps [of tail "g\<lparr>og_state := s'\<rparr>" "inp @ [b]" outs "pend @ [b]"] run step
        by (auto simp: Cons feed_loop.simps [of "b # tail"] Escape s'_def keep split: if_splits)
    next
      case Body
      define body where "body = take (case position ends_osc rest of Some n \<Rightarrow> n | None \<Rightarrow> length rest) rest"
      note cut = body_cut [of rest, folded body_def]
      obtain g1 held_outs where h: "(if og_state g = Osc then hold body g else (g, [])) = (g1, held_outs)"
        by fastforce
      have "guard_inv g1 (inp @ body) (out @ concat (outs @ held_outs)) \<and> (og_state g1 = Osc \<or> og_state g1 = Discard)"
        using inv_body [OF inv Body cut(1) h] less.prems(2) [OF Body] by simp
      then have inv1: "guard_inv g1 (inp @ body) (out @ concat (outs @ held_outs))" "og_state g1 = Osc \<or> og_state g1 = Discard"
        by simp_all
      note run' = run [unfolded feed_loop_body [OF Body ne body_def h]]
      show ?thesis
      proof (cases "drop (length body) rest")
        case Nil
        with inv1(1) run' cut(2) show ?thesis by auto
      next
        case (Cons e after)
        obtain g2 eouts pend2 where e: "at_end e g1 = (g2, eouts, pend2)" by (metis prod_cases3)
        have "guard_inv g2 ((inp @ body) @ [e]) ((out @ concat (outs @ held_outs)) @ concat eouts @ pend2)"
          using inv1(2) inv_end_osc [OF inv1(1) _ cut(3) [OF Cons] e]
            inv_end_discard [OF inv1(1) _ cut(3) [OF Cons] e] by blast
        moreover have "length after < length rest"
          using arg_cong [OF Cons, of length] ne by simp
        ultimately have "guard_inv g' (((inp @ body) @ [e]) @ after) (out @ concat outs')"
          using at_end_state [OF e] run' Cons e
          by (intro less.hyps [of after g2 _ "outs @ held_outs @ eouts" pend2]) (auto split: if_splits)
        with cut(2) Cons show ?thesis by simp
      qed
    qed
  qed
qed

lemma feed_inv:
  assumes "guard_inv g inp out" "feed g input = (g', outs)"
  shows "guard_inv g' (inp @ input) (out @ concat outs)"
  by (rule feed_loop_inv [of g inp out "[]" "[]"]) (use assms in \<open>simp_all add: feed_def\<close>)

lemma feeds_inv:
  assumes "guard_inv g inp out" "feeds inputs g = (g', fed)"
  shows "guard_inv g' (inp @ concat inputs) (out @ fed)"
  using assms
proof (induction inputs arbitrary: g inp out fed)
  case (Cons input inputs)
  obtain g1 outs where f: "feed g input = (g1, outs)" by fastforce
  obtain rest where r: "feeds inputs g1 = (g', rest)" "fed = concat outs @ rest"
    using Cons.prems(2) by (auto simp: f split: prod.splits)
  from Cons.IH [OF feed_inv [OF Cons.prems(1) f] r(1)] r(2) show ?case by simp
qed simp

section \<open>Properties\<close>


definition osc_sample :: "bytes list" where
  "osc_sample = [[0x61, OSC_ESC, 0x5d, 0x32], [0x3b, 0x68, 0x69, OSC_BEL, 0x62, OSC_ESC, 0x5d, 0x35]]"

lemma osc_sample_feeds:
  "feeds osc_sample osc_guard_new
    = (\<lparr>og_state = Osc, og_held = [0x35]\<rparr>, [0x61, OSC_ESC, 0x5d, 0x32, 0x3b, 0x68, 0x69, OSC_BEL, 0x62, OSC_ESC, 0x5d])"
  by (simp add: osc_sample_def osc_guard_new_def feed_def feed_loop.simps hold_def at_end_def release_def
      Let_def ends_osc_def byte_defs stays_escape_def limit_def osc_number_def limit_consts)


text \<open>C25: a stream no OSC of which ever outgrows its cap reaches the parser byte for byte, except for the
  body of the OSC still open at its end, which the filter holds; how the stream was cut into reads
  makes no difference.\<close>

theorem capped_output_passes_unchanged:
  assumes "always (\<lambda>body. length body \<le> limit body) (concat inputs) (VGround, [])"
    and "feeds inputs osc_guard_new = (g, out)"
  shows "out @ og_held g = concat inputs
    \<and> og_held g = (case fst (scan (concat inputs)) of VOsc body \<Rightarrow> body | _ \<Rightarrow> [])"
proof -
  have "guard_inv g (concat inputs) out"
    using feeds_inv [OF guard_inv_new assms(2)] by simp
  moreover have "always within_cap (concat inputs) (VGround, [])"
    using assms(1) by (simp add: within_cap_def [abs_def])
  ultimately show ?thesis
    by (cases "og_state g") (auto simp: guard_inv_def guard_in_step_def)
qed

theorem capped_output_passes_unchanged_witness:
  "snd (feeds osc_sample osc_guard_new) @ [0x35] = concat osc_sample"
proof -
  have "always (\<lambda>body. length body \<le> limit body) (concat osc_sample) (VGround, [])"
    by (simp add: osc_sample_def ends_osc_def byte_defs stays_escape_def limit_def osc_number_def limit_consts)
  from capped_output_passes_unchanged [OF this osc_sample_feeds] show ?thesis
    unfolding osc_sample_feeds by (metis osc_guard.select_convs(2) snd_conv)
qed

text \<open>The cap is checked per read, not per byte, so where a C0 control interrupts the number the verdict
  depends on the cut: the comment on \<open>limit\<close> says a body cannot outgrow its cap while its number is
  still incomplete, and 2049 bytes of \<open>2\<close> and controls do, although the number turns out to be 23.\<close>

definition interrupted :: "nat \<Rightarrow> bytes" where
  "interrupted n = 0x32 # replicate n 0x01"

lemma limit_interrupted: "limit (interrupted n) = MAX_TITLE_OSC_LEN" "limit (interrupted n @ [0x33]) = MAX_OSC_LEN"
proof -
  have "osc_number (interrupted n) = [0x32]" "osc_number (interrupted n @ [0x33]) = [0x32, 0x33]"
    by (simp_all add: osc_number_def interrupted_def takeWhile_append filter_replicate word_le_nat_alt)
  then show "limit (interrupted n) = MAX_TITLE_OSC_LEN" "limit (interrupted n @ [0x33]) = MAX_OSC_LEN"
    by (simp_all add: limit_def)
qed

lemma interrupted_number_depends_on_the_cut:
  defines "g \<equiv> \<lparr>og_state = Osc, og_held = []\<rparr>"
  shows "fst (hold (interrupted 2048 @ [0x33]) g) = g\<lparr>og_held := interrupted 2048 @ [0x33]\<rparr>"
    and "og_state (fst (hold (interrupted 2048) g)) = Discard"
  using limit_interrupted [of 2048]
  by (simp_all add: hold_def g_def release_def interrupted_def MAX_OSC_LEN_def MAX_TITLE_OSC_LEN_def)

end
