(* ===== verification/Host_Term.thy ===== *)
theory Host_Term
  imports Host_Emulator Osc_Guard Sync_Protocol
begin

text \<open>
  The host's terminal, \<open>crates/oxutrm-term/src/host.rs\<close>: reading the child's output in bounded turns,
  folding the emulator's events into counters that only grow, and building the screen the rest of the
  program replicates. The emulator is the parameter of \<open>Host_Emulator\<close> and the pseudo terminal is its
  answers: \<open>reads k\<close> is what the \<open>k\<close>-th \<open>read_ready\<close> of a poll returns.

  The properties show that every screen the host builds is one the client accepts, whatever the
  emulator holds, and that successive screens satisfy what the synchronisation relies on, across polls,
  resizes, delivered copies and a replaced shell.
\<close>

section \<open>State\<close>

definition READ_CHUNK :: nat where "READ_CHUNK = 64 * 1024"
definition READ_BUDGET :: nat where "READ_BUDGET = 64 * 1024"

record ('t, 'p, 'h) host_term =
  ht_output_waiting :: bool
  ht_term :: 't
  ht_parser :: 'p
  ht_osc_guard :: osc_guard
  ht_events :: signals
  ht_blink :: blink_plane
  ht_palette :: "rgb list"
  ht_size :: term_size
  ht_history :: nat
  ht_bell :: u32
  ht_title :: ustr
  ht_scrollback_len :: u64
  ht_clipboard :: clipboard
  ht_links :: "'h link_tbl"
  ht_exited :: "int option"

datatype 'e host_error = BadSize apply_error | PtyError 'e

text \<open>The size is refused before the child is started: \<open>pty\<close> is what starting it would answer.\<close>

definition spawn_with ::
  "('t, 'p, 'h, 'op) emulator \<Rightarrow> term_size \<Rightarrow> nat \<Rightarrow> ('e + unit)
    \<Rightarrow> 'e host_error + ('t, 'p, 'h) host_term" where
  "spawn_with em sz scrollback pty =
    (case grid_size_new sz scrollback of
       Inl e \<Rightarrow> Inl (BadSize e)
     | Inr dims \<Rightarrow>
         (case pty of
            Inl e \<Rightarrow> Inl (PtyError e)
          | Inr _ \<Rightarrow>
              Inr \<lparr>ht_output_waiting = False, ht_term = em_new em dims, ht_parser = em_parser em,
                   ht_osc_guard = osc_guard_new, ht_events = signals_default,
                   ht_blink = blink_plane_default, ht_palette = palette, ht_size = sz,
                   ht_history = scrollback, ht_bell = 0, ht_title = [], ht_scrollback_len = 0,
                   ht_clipboard = clipboard_default, ht_links = link_tbl_default, ht_exited = None\<rparr>))"

definition count_on_from :: "screen_state \<Rightarrow> ('t, 'p, 'h) host_term \<Rightarrow> ('t, 'p, 'h) host_term" where
  "count_on_from prior h =
    h\<lparr>ht_bell := max (ht_bell h) (scr_bell prior),
      ht_scrollback_len := max (ht_scrollback_len h) (scr_scrollback_len prior),
      ht_clipboard := if cb_serial (scr_clipboard prior) > cb_serial (ht_clipboard h)
        then without_text (scr_clipboard prior) else ht_clipboard h\<rparr>"

definition send_events :: "event list \<Rightarrow> ('t, 'p, 'h) host_term \<Rightarrow> ('t, 'p, 'h) host_term" where
  "send_events evs h = h\<lparr>ht_events := fold send_event evs (ht_events h)\<rparr>"

text \<open>A refused size, or a pseudo terminal that would not take it, changes nothing.\<close>

definition host_resize ::
  "('t, 'p, 'h, 'op) emulator \<Rightarrow> term_size \<Rightarrow> ('e + unit) \<Rightarrow> ('t, 'p, 'h) host_term
    \<Rightarrow> ('e host_error + unit) \<times> ('t, 'p, 'h) host_term" where
  "host_resize em sz pty h =
    (case grid_size_new sz (ht_history h) of
       Inl e \<Rightarrow> (Inl (BadSize e), h)
     | Inr dims \<Rightarrow>
         (case pty of
            Inl e \<Rightarrow> (Inl (PtyError e), h)
          | Inr _ \<Rightarrow>
              (let (t, evs) = em_resize em dims (ht_term h)
               in (Inr (), send_events evs
                    (h\<lparr>ht_term := t, ht_size := sz, ht_blink := blink_clear (ht_blink h)\<rparr>)))))"

section \<open>Reading the child's output\<close>

definition parse_chunk ::
  "('t, 'p, 'h, 'op) emulator \<Rightarrow> bytes \<Rightarrow> ('t, 'p, 'h) host_term \<Rightarrow> ('t, 'p, 'h) host_term" where
  "parse_chunk em bs h =
    (let (calls, p) = em_advance em (ht_parser h) bs;
         tp = fold (tap_call em) calls
           \<lparr>tp_term = ht_term h, tp_blink = ht_blink h, tp_scrolled = ht_scrollback_len h, tp_events = []\<rparr>
     in send_events (tp_events tp)
          (h\<lparr>ht_parser := p, ht_term := tp_term tp, ht_blink := tp_blink tp, ht_scrollback_len := tp_scrolled tp\<rparr>))"

definition feed_output ::
  "('t, 'p, 'h, 'op) emulator \<Rightarrow> bytes \<Rightarrow> ('t, 'p, 'h) host_term \<Rightarrow> ('t, 'p, 'h) host_term" where
  "feed_output em input h =
    (let (g, outs) = feed (ht_osc_guard h) input
     in fold (parse_chunk em) outs (h\<lparr>ht_osc_guard := g\<rparr>))"

text \<open>The loop of \<open>poll\<close>. It ends because every turn that goes on has read at least one byte of the
  budget. The last component counts the reads.\<close>

function poll_loop ::
  "('t, 'p, 'h, 'op) emulator \<Rightarrow> (nat \<Rightarrow> 'e + bytes) \<Rightarrow> nat \<Rightarrow> nat \<Rightarrow> bool \<Rightarrow> ('t, 'p, 'h) host_term
    \<Rightarrow> ('e + bool) \<times> ('t, 'p, 'h) host_term \<times> nat" where
  "poll_loop em reads k drained changed h =
    (if drained \<ge> READ_BUDGET then (Inr changed, h\<lparr>ht_output_waiting := True\<rparr>, k)
     else
       (case reads k of
          Inl e \<Rightarrow> (Inl e, h, k + 1)
        | Inr bs \<Rightarrow>
            if bs = [] then (Inr changed, h\<lparr>ht_output_waiting := False\<rparr>, k + 1)
            else poll_loop em reads (k + 1) (drained + length bs) True (feed_output em bs h)))"
  by pat_completeness auto
termination
  by (relation "measure (\<lambda>(em, reads, k, drained, changed, h). READ_BUDGET - drained)")
    (auto intro!: diff_less_mono2)

declare poll_loop.simps [simp del]

definition record_copy :: "clipboard \<Rightarrow> clipboard_type \<Rightarrow> ustr \<Rightarrow> nat + clipboard" where
  "record_copy c kind text =
    (if str_len text > MAX_CLIPBOARD then Inl (str_len text)
     else Inr \<lparr>cb_serial = sat_add (cb_serial c) 1,
               cb_copy = Some \<lparr>cc_target = (case kind of ClipboardType \<Rightarrow> ToClipboard | SelectionType \<Rightarrow> ToSelection),
                               cc_text = text\<rparr>\<rparr>)"

definition take_copy :: "clipboard_type \<times> ustr \<Rightarrow> clipboard \<times> bool \<Rightarrow> clipboard \<times> bool" where
  "take_copy e acc =
    (case record_copy (fst acc) (fst e) (snd e) of Inl _ \<Rightarrow> acc | Inr c \<Rightarrow> (c, True))"

text \<open>The rest of \<open>poll\<close>, after a loop that did not fail: the sink is emptied into the host's counters,
  the replies go to the child and the damage is reset.\<close>

definition take_signals :: "bool \<Rightarrow> ('t, 'p, 'h) host_term \<Rightarrow> bool \<times> ('t, 'p, 'h) host_term \<times> ustr list" where
  "take_signals changed h =
    (let s = ht_events h;
         (clip, copied) = fold take_copy (sg_clipboard s) (ht_clipboard h, False)
     in (changed \<or> sg_title s \<noteq> None \<or> sg_bells s > 0 \<or> copied,
         h\<lparr>ht_events := signals_default,
           ht_title := (case sg_title s of Some t \<Rightarrow> t | None \<Rightarrow> ht_title h),
           ht_bell := (if sg_bells s > 0 then sat_add (ht_bell h) (sg_bells s) else ht_bell h),
           ht_clipboard := clip,
           ht_exited := (case sg_child_exit s of Some c \<Rightarrow> Some c | None \<Rightarrow> ht_exited h)\<rparr>,
         sg_replies s))"

definition poll ::
  "('t, 'p, 'h, 'op) emulator \<Rightarrow> (nat \<Rightarrow> 'e + bytes) \<Rightarrow> ('t, 'p, 'h) host_term
    \<Rightarrow> ('e + bool) \<times> ('t, 'p, 'h) host_term \<times> ustr list" where
  "poll em reads h =
    (case poll_loop em reads 0 0 False h of
       (Inl e, h1, _) \<Rightarrow> (Inl e, h1, [])
     | (Inr changed, h1, _) \<Rightarrow>
         (let (changed', h2, replies) = take_signals changed h1
          in (Inr (em_damaged_fully em (ht_term h2) \<or> changed'),
              h2\<lparr>ht_term := em_reset_damage em (ht_term h2)\<rparr>, replies)))"

definition clipboard_delivered :: "u32 \<Rightarrow> ('t, 'p, 'h) host_term \<Rightarrow> bool \<times> ('t, 'p, 'h) host_term" where
  "clipboard_delivered serial h =
    (if cb_serial (ht_clipboard h) \<noteq> serial \<or> cb_copy (ht_clipboard h) = None then (False, h)
     else (True, h\<lparr>ht_clipboard := (ht_clipboard h)\<lparr>cb_copy := None\<rparr>\<rparr>))"

definition child_exited :: "int option \<Rightarrow> ('t, 'p, 'h) host_term \<Rightarrow> int option \<times> ('t, 'p, 'h) host_term" where
  "child_exited pty h =
    (let h1 = (if ht_exited h = None then h\<lparr>ht_exited := pty\<rparr> else h) in (ht_exited h1, h1))"

datatype pty_signal = SendHangUp | SendKillGroup

definition hang_up :: "('t, 'p, 'h) host_term \<Rightarrow> pty_signal list" where
  "hang_up h = (if ht_exited h = None then [SendHangUp] else [])"

definition kill_group :: "('t, 'p, 'h) host_term \<Rightarrow> pty_signal list" where
  "kill_group h = (if ht_exited h = None then [SendKillGroup] else [])"

section \<open>Building a screen\<close>

record state_meta =
  sm_seq :: u64
  sm_title :: ustr
  sm_bell :: u32
  sm_scrollback_len :: u64
  sm_clipboard :: clipboard

definition state_meta_of :: "u64 \<Rightarrow> ('t, 'p, 'h) host_term \<Rightarrow> state_meta" where
  "state_meta_of seq h =
    \<lparr>sm_seq = seq, sm_title = ht_title h, sm_bell = ht_bell h,
     sm_scrollback_len = ht_scrollback_len h, sm_clipboard = ht_clipboard h\<rparr>"

text \<open>The points of the two nested loops, in order.\<close>

definition screen_points :: "term_size \<Rightarrow> point list" where
  "screen_points sz =
    concat (map (\<lambda>row. map (\<lambda>col. (int row, col)) [0..<unat (ts_cols sz)]) [0..<unat (ts_rows sz)])"

definition host_cell ::
  "('t, 'p, 'h, 'op) emulator \<Rightarrow> 't \<Rightarrow> blink_plane \<Rightarrow> rgb list \<Rightarrow> point \<Rightarrow> cell" where
  "host_cell em t blink table p =
    (case cell_at em t p of
       Some c \<Rightarrow> convert_cell c p blink (em_colors em t) table
     | None \<Rightarrow> cell_blank)"

definition link_at ::
  "('t, 'p, 'h, 'op) emulator \<Rightarrow> 't \<Rightarrow> 'h option list \<Rightarrow> point \<Rightarrow> 'h option" where
  "link_at em t found p =
    (case cell_at em t p of
       Some c \<Rightarrow>
         if fl_wide_char_spacer (vc_flags c) \<and> snd p > 0 then (if found = [] then None else last found)
         else vc_hyperlink c
     | None \<Rightarrow> None)"

definition found_links :: "('t, 'p, 'h, 'op) emulator \<Rightarrow> 't \<Rightarrow> point list \<Rightarrow> 'h option list" where
  "found_links em t ps = foldl (\<lambda>found p. found @ [link_at em t found p]) [] ps"

text \<open>\<open>for (cell, id) in cells.iter_mut().zip(ids)\<close>\<close>

definition set_links :: "cell list \<Rightarrow> u16 list \<Rightarrow> cell list" where
  "set_links cells ids =
    map (\<lambda>(c, i). c\<lparr>c_link := i\<rparr>) (zip cells ids) @ drop (length ids) cells"

definition cursor_of :: "('t, 'p, 'h, 'op) emulator \<Rightarrow> 't \<Rightarrow> term_size \<Rightarrow> cursor" where
  "cursor_of em t sz =
    (let (line, column) = em_cursor em t
     in \<lparr>cur_row = of_int (max 0 (min line (uint (sat_sub (ts_rows sz) 1)))),
         cur_col = min (of_nat column) (sat_sub (ts_cols sz) 1),
         cur_visible = tm_show_cursor (em_mode em t),
         cur_shape =
           (case em_cursor_shape em t of
              VteBlock \<Rightarrow> Block | VteHollowBlock \<Rightarrow> Block | VteUnderline \<Rightarrow> Underline
            | VteBeam \<Rightarrow> Bar | _ \<Rightarrow> Block)\<rparr>)"

definition screen_state_of ::
  "('t, 'p, 'h, 'op) emulator \<Rightarrow> 't \<Rightarrow> blink_plane \<Rightarrow> rgb list \<Rightarrow> term_size \<Rightarrow> state_meta
    \<Rightarrow> 'h link_tbl option \<Rightarrow> screen_state \<times> 'h link_tbl option" where
  "screen_state_of em t blink table sz meta links =
    (let ps = screen_points sz;
         cells = map (host_cell em t blink table) ps;
         (cells', wire, links') =
           (case links of
              Some l \<Rightarrow>
                (let (ids, l') = assign (em_uri em) (found_links em t ps) l
                 in (set_links cells ids, link_table_of l', Some l'))
            | None \<Rightarrow> (cells, [], None))
     in (\<lparr>scr_seq = sm_seq meta, scr_rows = ts_rows sz, scr_cols = ts_cols sz, scr_cells = cells',
          scr_cursor = cursor_of em t sz, scr_modes = modes_of (em_mode em t),
          scr_title = fit_title (sm_title meta), scr_bell = sm_bell meta,
          scr_scrollback_len = sm_scrollback_len meta, scr_clipboard = sm_clipboard meta,
          scr_links = wire\<rparr>, links'))"

definition snapshot ::
  "('t, 'p, 'h, 'op) emulator \<Rightarrow> u64 \<Rightarrow> ('t, 'p, 'h) host_term \<Rightarrow> screen_state \<times> ('t, 'p, 'h) host_term" where
  "snapshot em seq h =
    (let (s, links) = screen_state_of em (ht_term h) (ht_blink h) (ht_palette h) (ht_size h)
                        (state_meta_of seq h) (Some (ht_links h))
     in (s, h\<lparr>ht_links := the links\<rparr>))"

definition picture :: "('t, 'p, 'h, 'op) emulator \<Rightarrow> u64 \<Rightarrow> ('t, 'p, 'h) host_term \<Rightarrow> screen_state" where
  "picture em seq h =
    fst (screen_state_of em (ht_term h) (ht_blink h) (ht_palette h) (ht_size h) (state_meta_of seq h) None)"

text \<open>The line of a row of the history is at most the history's size back, which the ring keeps far
  below \<open>i32::MAX\<close>; the conversion is written out.\<close>

definition scrollback ::
  "('t, 'p, 'h, 'op) emulator \<Rightarrow> u64 \<Rightarrow> u64 \<Rightarrow> ('t, 'p, 'h) host_term \<Rightarrow> cell list list" where
  "scrollback em from to h =
    (let history = of_nat (em_history_size em (ht_term h)) :: u64;
         len = ht_scrollback_len h
     in if history = 0 \<or> from \<ge> to then []
        else
          (let oldest = sat_sub len history
           in map (\<lambda>want.
                 let line = - sint (ucast (len - want) :: u32)
                 in map (\<lambda>col. host_cell em (ht_term h) (ht_blink h) (ht_palette h) (line, col))
                      [0..<unat (ts_cols (ht_size h))])
               (filter (\<lambda>want. \<not> (want < oldest \<or> want \<ge> len)) (map of_nat [unat from..<unat to]))))"

section \<open>Every screen is one the client accepts\<close>

lemma cell_text_checked: "check_cell_text (cell_text c) = Inr ()"
proof (cases "fl_wide_char_spacer (vc_flags c) \<or> fl_leading_wide_char_spacer (vc_flags c)")
  case True
  then show ?thesis by (simp add: cell_text_def check_cell_text_ok_iff)
next
  case False
  then show ?thesis by (auto simp: cell_text_def Let_def check_fitted)
qed

lemma host_cell_ok: "cell_ok links (host_cell em t blink table p)" "c_link (host_cell em t blink table p) = 0"
  using cell_blank_ok [of links]
  by (auto simp: host_cell_def cell_ok_def convert_cell_def cell_text_checked cell_blank_def split: option.splits)

lemma length_screen_points: "length (screen_points sz) = unat (ts_rows sz) * unat (ts_cols sz)"
  by (simp add: screen_points_def length_concat o_def sum_list_triv)

lemma length_found_links: "length (found_links em t ps) = length ps"
proof -
  have "length (foldl (\<lambda>found p. found @ [link_at em t found p]) acc ps) = length acc + length ps" for acc
    by (induction ps arbitrary: acc) simp_all
  then show ?thesis by (simp add: found_links_def)
qed

lemma cursor_of_on_screen:
  assumes "unat (ts_rows sz) * unat (ts_cols sz) \<noteq> 0"
  shows "cur_row (cursor_of em t sz) < ts_rows sz" "cur_col (cursor_of em t sz) < ts_cols sz"
proof -
  have sub: "sat_sub n 1 < n" "unat (sat_sub n 1) = unat n - 1" if "unat n \<noteq> 0" for n :: u16
    using that by (simp_all add: word_less_nat_alt unat_sat_sub)
  obtain line column where c: "em_cursor em t = (line, column)" by fastforce
  define m where "m = max 0 (min line (uint (sat_sub (ts_rows sz) 1)))"
  have rows: "unat (ts_rows sz) \<noteq> 0" using assms by simp
  have "0 \<le> m" "m \<le> uint (sat_sub (ts_rows sz) 1)" by (auto simp: m_def)
  moreover have "uint (sat_sub (ts_rows sz) 1) < 65536" using uint_lt2p [of "sat_sub (ts_rows sz) 1"] by simp
  ultimately have "uint (of_int m :: u16) = m" by (simp add: uint_word_of_int)
  with \<open>m \<le> uint (sat_sub (ts_rows sz) 1)\<close> have "(of_int m :: u16) \<le> sat_sub (ts_rows sz) 1"
    by (simp add: word_le_def)
  with sub(1) [OF rows] show "cur_row (cursor_of em t sz) < ts_rows sz"
    by (simp add: cursor_of_def c m_def)
  show "cur_col (cursor_of em t sz) < ts_cols sz"
    using sub(1) [of "ts_cols sz"] assms by (simp add: cursor_of_def c min_less_iff_disj)
qed

definition host_ok :: "('t, 'p, 'h, 'op) emulator \<Rightarrow> ('t, 'p, 'h) host_term \<Rightarrow> bool" where
  "host_ok em h \<longleftrightarrow>
    check_bounds (ht_size h) = Inr () \<and> link_tbl_ok (em_uri em) (ht_links h)
    \<and> check_clipboard (ht_clipboard h) = Inr ()"

lemma set_links_nth:
  assumes "length ids = length cells"
  shows "length (set_links cells ids) = length cells"
    and "k < length cells \<Longrightarrow> set_links cells ids ! k = (cells ! k)\<lparr>c_link := ids ! k\<rparr>"
  using assms by (simp_all add: set_links_def)

text \<open>What the links of a screen are: a cell's id is its link's in the new table, or 0.\<close>

lemma linked_screen:
  assumes "link_tbl_ok (em_uri em) l"
    and "screen_state_of em t blink table sz meta (Some l) = (s, links')"
  obtains l' where "links' = Some l'" "link_tbl_ok (em_uri em) l'" "scr_links s = link_table_of l'"
    "assign (em_uri em) (found_links em t (screen_points sz)) l
      = (map (\<lambda>f. case f of None \<Rightarrow> 0 | Some h \<Rightarrow> (case lt_ids l' h of Some i \<Rightarrow> i | None \<Rightarrow> 0))
          (found_links em t (screen_points sz)), l')"
    "length (scr_cells s) = unat (ts_rows sz) * unat (ts_cols sz)"
    "\<And>k. k < unat (ts_rows sz) * unat (ts_cols sz) \<Longrightarrow>
      scr_cells s ! k = (host_cell em t blink table (screen_points sz ! k))\<lparr>c_link :=
        (case found_links em t (screen_points sz) ! k of
           None \<Rightarrow> 0 | Some h \<Rightarrow> (case lt_ids l' h of Some i \<Rightarrow> i | None \<Rightarrow> 0))\<rparr>"
proof -
  let ?found = "found_links em t (screen_points sz)"
  obtain ids l' where a: "assign (em_uri em) ?found l = (ids, l')" by fastforce
  note spec = assign_spec [OF assms(1) a]
  let ?cells = "map (host_cell em t blink table) (screen_points sz)"
  have len: "length ids = length ?cells" by (simp add: spec(2) length_found_links)
  have s: "links' = Some l'" "scr_links s = link_table_of l'" "scr_cells s = set_links ?cells ids"
    using assms(2) by (auto simp: screen_state_of_def a)
  show thesis
  proof (rule that)
    show "links' = Some l'" "link_tbl_ok (em_uri em) l'" "scr_links s = link_table_of l'"
      using s spec(1) by simp_all
    show "assign (em_uri em) ?found l
        = (map (\<lambda>f. case f of None \<Rightarrow> 0 | Some h \<Rightarrow> (case lt_ids l' h of Some i \<Rightarrow> i | None \<Rightarrow> 0)) ?found, l')"
      unfolding a spec(2) by simp
    show "length (scr_cells s) = unat (ts_rows sz) * unat (ts_cols sz)"
      using set_links_nth(1) [OF len] by (simp add: s length_screen_points)
    fix k assume k: "k < unat (ts_rows sz) * unat (ts_cols sz)"
    then have "ids ! k = (case ?found ! k of
        None \<Rightarrow> 0 | Some h \<Rightarrow> (case lt_ids l' h of Some i \<Rightarrow> i | None \<Rightarrow> 0))"
      unfolding spec(2) by (simp add: length_found_links length_screen_points)
    with k show "scr_cells s ! k = (host_cell em t blink table (screen_points sz ! k))\<lparr>c_link :=
        (case ?found ! k of None \<Rightarrow> 0 | Some h \<Rightarrow> (case lt_ids l' h of Some i \<Rightarrow> i | None \<Rightarrow> 0))\<rparr>"
      using set_links_nth(2) [OF len] by (simp add: s length_screen_points)
  qed
qed

lemma screen_state_of_fields:
  assumes "screen_state_of em t blink table sz meta links = (s, links')"
  shows "scr_seq s = sm_seq meta" "scr_rows s = ts_rows sz" "scr_cols s = ts_cols sz"
    "scr_cursor s = cursor_of em t sz" "scr_title s = fit_title (sm_title meta)"
    "scr_bell s = sm_bell meta" "scr_scrollback_len s = sm_scrollback_len meta"
    "scr_clipboard s = sm_clipboard meta"
  using assms by (auto simp: screen_state_of_def Let_def split: option.splits prod.splits)

lemma screen_state_of_wf:
  assumes "check_bounds sz = Inr ()" "check_clipboard (sm_clipboard meta) = Inr ()" "sm_seq meta \<noteq> 0"
    and "\<And>l. links = Some l \<Longrightarrow> link_tbl_ok (em_uri em) l"
    and s: "screen_state_of em t blink table sz meta links = (s, links')"
  shows "screen_wf s"
proof -
  note f = screen_state_of_fields [OF s]
  have parts: "length (scr_cells s) = unat (ts_rows sz) * unat (ts_cols sz)
      \<and> (\<forall>c\<in>set (scr_cells s). cell_ok (scr_links s) c)
      \<and> check_links (scr_links s) = Inr () \<and> bt_wf (scr_links s)"
  proof (cases links)
    case None
    then have "scr_cells s = map (host_cell em t blink table) (screen_points sz)" "scr_links s = []"
      using s by (auto simp: screen_state_of_def)
    then show ?thesis by (auto simp: length_screen_points host_cell_ok check_links_ok_iff)
  next
    case (Some l)
    show ?thesis
    proof (rule linked_screen [OF assms(4) [OF Some] s [unfolded Some]], goal_cases)
      case (1 l')
      note tbl = link_table_of_ok [OF 1(2)]
      have "cell_ok (scr_links s) (scr_cells s ! k)" if k: "k < unat (ts_rows sz) * unat (ts_cols sz)" for k
        unfolding 1(6) [OF k] 1(3)
        using host_cell_ok(1) [of _ em t blink table "screen_points sz ! k"] tbl(3)
        by (auto simp: cell_ok_def bt_has_def split: option.splits)
      with 1(3,5) tbl(1,2) show ?thesis by (auto simp: in_set_conv_nth)
    qed
  qed
  have "cursor_on_screen s"
    using cursor_of_on_screen [of sz em t] by (auto simp: cursor_on_screen_def f)
  with parts assms(1-3) show ?thesis
    by (simp add: screen_wf_def screen_valid_def f check_fitted check_bounds_ok_iff)
qed

lemma snapshot_wf:
  assumes "host_ok em h" "snapshot em seq h = (s, h')" "seq \<noteq> 0"
  shows "screen_wf s"
  using assms screen_state_of_wf [of "ht_size h" "state_meta_of seq h" "Some (ht_links h)" em]
  by (auto simp: snapshot_def host_ok_def state_meta_of_def split: prod.splits)

lemma picture_wf:
  assumes "host_ok em h" "seq \<noteq> 0"
  shows "screen_wf (picture em seq h)"
  using assms screen_state_of_wf [of "ht_size h" "state_meta_of seq h" None em]
  unfolding picture_def host_ok_def by (metis option.distinct(1) prod.collapse state_meta.select_convs(1,5) state_meta_of_def)

section \<open>The host only counts on\<close>

definition counts_on :: "('t, 'p, 'h) host_term \<Rightarrow> ('t, 'p, 'h) host_term \<Rightarrow> bool" where
  "counts_on h h' \<longleftrightarrow>
    ht_bell h \<le> ht_bell h' \<and> ht_scrollback_len h \<le> ht_scrollback_len h'
    \<and> cb_serial (ht_clipboard h) \<le> cb_serial (ht_clipboard h')"

text \<open>What an operation keeps: the invariant, and the order of the three counters.\<close>

definition keeps :: "('t, 'p, 'h, 'op) emulator \<Rightarrow> ('t, 'p, 'h) host_term \<Rightarrow> ('t, 'p, 'h) host_term \<Rightarrow> bool" where
  "keeps em h h' \<longleftrightarrow> (host_ok em h \<longrightarrow> host_ok em h') \<and> counts_on h h'"

lemma keeps_refl: "keeps em h h"
  by (simp add: keeps_def counts_on_def)

lemma keeps_trans: "keeps em h1 h2 \<Longrightarrow> keeps em h2 h3 \<Longrightarrow> keeps em h1 h3"
  by (auto simp: keeps_def counts_on_def)

lemma tap_call_scrolled: "tp_scrolled tp \<le> tp_scrolled (tap_call em call tp)"
  by (cases call)
    (auto simp: tap_input_def tap_linefeed_def tap_scroll_up_def tap_attribute_def forward_def note_scroll_def
      Let_def sat_add_ge split: prod.splits vte_attr.splits)

lemma tap_calls_scrolled: "tp_scrolled tp \<le> tp_scrolled (fold (tap_call em) calls tp)"
proof (induction calls arbitrary: tp)
  case (Cons call calls)
  show ?case
    using order_trans [OF tap_call_scrolled [of tp em call] Cons.IH [of "tap_call em call tp"]] by simp
qed simp

lemma keeps_same:
  assumes "ht_size h' = ht_size h" "ht_links h' = ht_links h" "ht_clipboard h' = ht_clipboard h"
    and "ht_bell h' = ht_bell h" "ht_scrollback_len h \<le> ht_scrollback_len h'"
  shows "keeps em h h'"
  using assms by (simp add: keeps_def counts_on_def host_ok_def)

lemma keeps_parse_chunk: "keeps em h (parse_chunk em bs h)"
proof (cases "em_advance em (ht_parser h) bs")
  case (Pair calls p)
  show ?thesis
    unfolding parse_chunk_def Pair Let_def send_events_def prod.case
    by (rule keeps_same) (use tap_calls_scrolled [of "\<lparr>tp_term = ht_term h, tp_blink = ht_blink h,
        tp_scrolled = ht_scrollback_len h, tp_events = []\<rparr>" em calls] in simp_all)
qed

lemma keeps_feed_output: "keeps em h (feed_output em input h)"
proof -
  have "keeps em h (fold (parse_chunk em) outs h)" for outs h
    by (induction outs arbitrary: h) (auto intro: keeps_refl keeps_trans keeps_parse_chunk)
  moreover have "keeps em h (h\<lparr>ht_osc_guard := g\<rparr>)" for g
    by (rule keeps_same) simp_all
  ultimately show ?thesis
    by (auto simp: feed_output_def split: prod.splits intro: keeps_trans)
qed

lemma keeps_poll_loop:
  "poll_loop em reads k drained changed h = (r, h', k') \<Longrightarrow> keeps em h h'"
proof (induction em reads k drained changed h rule: poll_loop.induct)
  case (1 em reads k drained changed h)
  have waiting: "keeps em h (h\<lparr>ht_output_waiting := w\<rparr>)" for w
    by (rule keeps_same) simp_all
  show ?case
    using 1 waiting keeps_refl [of em h] keeps_feed_output [of em h]
    by (subst (asm) (2) poll_loop.simps) (auto split: if_splits sum.splits intro: keeps_trans)
qed

lemma take_copies:
  assumes "check_clipboard (fst acc) = Inr ()"
  shows "check_clipboard (fst (fold take_copy es acc)) = Inr ()
    \<and> cb_serial (fst acc) \<le> cb_serial (fst (fold take_copy es acc))"
  using assms
proof (induction es arbitrary: acc)
  case (Cons e es)
  have "check_clipboard (fst (take_copy e acc)) = Inr () \<and> cb_serial (fst acc) \<le> cb_serial (fst (take_copy e acc))"
    using Cons.prems
    by (cases "record_copy (fst acc) (fst e) (snd e)")
      (auto simp: take_copy_def record_copy_def check_clipboard_def sat_add_ge split: if_splits)
  with Cons.IH [of "take_copy e acc"] show ?case by auto
qed simp

lemma take_copies_serial: "cb_serial (fst acc) \<le> cb_serial (fst (fold take_copy es acc))"
proof (induction es arbitrary: acc)
  case (Cons e es)
  have "cb_serial (fst acc) \<le> cb_serial (fst (take_copy e acc))"
    by (cases "record_copy (fst acc) (fst e) (snd e)")
      (auto simp: take_copy_def record_copy_def sat_add_ge split: if_splits)
  from order_trans [OF this Cons.IH] show ?case by simp
qed simp

lemma keeps_take_signals:
  assumes "take_signals changed h = (b, h', replies)"
  shows "keeps em h h'"
proof -
  obtain clip copied where c: "fold take_copy (sg_clipboard (ht_events h)) (ht_clipboard h, False) = (clip, copied)"
    by fastforce
  have "ht_size h' = ht_size h" "ht_links h' = ht_links h" "ht_clipboard h' = clip"
    "ht_scrollback_len h' = ht_scrollback_len h" "ht_bell h \<le> ht_bell h'"
    using assms by (auto simp: take_signals_def c Let_def sat_add_ge)
  with take_copies [of "(ht_clipboard h, False)" "sg_clipboard (ht_events h)"]
    take_copies_serial [of "(ht_clipboard h, False)" "sg_clipboard (ht_events h)"] show ?thesis
    by (simp add: keeps_def counts_on_def host_ok_def c)
qed

lemma keeps_poll:
  assumes "poll em reads h = (r, h', replies)"
  shows "keeps em h h'"
proof -
  obtain r1 h1 k where l: "poll_loop em reads 0 0 False h = (r1, h1, k)" by (metis prod_cases3)
  note one = keeps_poll_loop [OF l]
  show ?thesis
  proof (cases r1)
    case (Inl e)
    with one assms show ?thesis by (simp add: poll_def l)
  next
    case (Inr changed)
    obtain b h2 rs where t: "take_signals changed h1 = (b, h2, rs)" by (metis prod_cases3)
    have "keeps em h2 (h2\<lparr>ht_term := em_reset_damage em (ht_term h2)\<rparr>)"
      by (rule keeps_same) simp_all
    with one keeps_take_signals [OF t, of em] assms Inr show ?thesis
      by (auto simp: poll_def l t intro: keeps_trans)
  qed
qed

lemma keeps_host_resize:
  assumes "host_resize em sz pty h = (r, h')"
  shows "keeps em h h'"
proof (cases "grid_size_new sz (ht_history h)")
  case (Inr dims)
  have "check_bounds sz = Inr ()"
    using Inr by (auto simp: grid_size_new_def and_then_Inr_iff)
  then have "keeps em h (h\<lparr>ht_term := t, ht_size := sz, ht_blink := b\<rparr>)" for t b
    by (simp add: keeps_def counts_on_def host_ok_def)
  moreover have "keeps em g (send_events evs g)" for evs g
    unfolding send_events_def by (rule keeps_same) simp_all
  ultimately have "keeps em h (send_events evs (h\<lparr>ht_term := t, ht_size := sz, ht_blink := b\<rparr>))" for evs t b
    by (rule keeps_trans)
  then show ?thesis
    using assms keeps_refl [of em h]
    by (cases pty) (auto simp: host_resize_def Inr split: prod.splits)
qed (use assms keeps_refl in \<open>simp add: host_resize_def\<close>)

lemma keeps_count_on_from: "keeps em h (count_on_from prior h)"
  by (auto simp: keeps_def counts_on_def host_ok_def count_on_from_def without_text_def check_clipboard_def)

lemma keeps_delivered: "clipboard_delivered serial h = (b, h') \<Longrightarrow> keeps em h h'"
  by (auto simp: clipboard_delivered_def keeps_def counts_on_def host_ok_def check_clipboard_def split: if_splits)

lemma keeps_child_exited: "child_exited pty h = (r, h') \<Longrightarrow> keeps em h h'"
  by (rule keeps_same) (auto simp: child_exited_def Let_def split: if_splits)

lemma snapshot_links:
  assumes "snapshot em seq h = (s, h')" "link_tbl_ok (em_uri em) (ht_links h)"
  obtains l' where "h' = h\<lparr>ht_links := l'\<rparr>" "link_tbl_ok (em_uri em) l'"
    "screen_state_of em (ht_term h) (ht_blink h) (ht_palette h) (ht_size h) (state_meta_of seq h)
       (Some (ht_links h)) = (s, Some l')"
proof -
  obtain links' where s: "screen_state_of em (ht_term h) (ht_blink h) (ht_palette h) (ht_size h)
      (state_meta_of seq h) (Some (ht_links h)) = (s, links')" and h': "h' = h\<lparr>ht_links := the links'\<rparr>"
    using assms(1) by (auto simp: snapshot_def split: prod.splits)
  show thesis
    by (rule linked_screen [OF assms(2) s]) (use s h' in \<open>auto intro: that\<close>)
qed

lemma keeps_snapshot: "snapshot em seq h = (s, h') \<Longrightarrow> keeps em h h'"
proof (cases "link_tbl_ok (em_uri em) (ht_links h)")
  case True
  assume "snapshot em seq h = (s, h')"
  then show ?thesis
    by (rule snapshot_links [OF _ True]) (simp add: keeps_def counts_on_def host_ok_def)
next
  case False
  assume "snapshot em seq h = (s, h')"
  with False show ?thesis
    by (auto simp: snapshot_def keeps_def counts_on_def host_ok_def split: prod.splits)
qed

text \<open>The operations in any order: what a session loop does with its terminal.\<close>

inductive host_step :: "('t, 'p, 'h, 'op) emulator \<Rightarrow> ('t, 'p, 'h) host_term \<Rightarrow> ('t, 'p, 'h) host_term \<Rightarrow> bool"
  for em where
  step_poll: "poll em (reads :: nat \<Rightarrow> string + bytes) h = (r, h', replies) \<Longrightarrow> host_step em h h'"
| step_resize: "host_resize em sz (pty :: string + unit) h = (r, h') \<Longrightarrow> host_step em h h'"
| step_count_on: "host_step em h (count_on_from prior h)"
| step_delivered: "clipboard_delivered serial h = (b, h') \<Longrightarrow> host_step em h h'"
| step_exited: "child_exited pty_exit h = (e, h') \<Longrightarrow> host_step em h h'"
| step_snapshot: "snapshot em seq h = (s, h') \<Longrightarrow> host_step em h h'"

inductive host_reach :: "('t, 'p, 'h, 'op) emulator \<Rightarrow> ('t, 'p, 'h) host_term \<Rightarrow> ('t, 'p, 'h) host_term \<Rightarrow> bool"
  for em h where
  reach_here: "host_reach em h h"
| reach_step: "host_reach em h h1 \<Longrightarrow> host_step em h1 h2 \<Longrightarrow> host_reach em h h2"

lemma host_step_keeps: "host_step em h h' \<Longrightarrow> keeps em h h'"
  by (induction rule: host_step.induct)
    (blast intro: keeps_poll keeps_host_resize keeps_count_on_from keeps_delivered keeps_child_exited keeps_snapshot)+

lemma host_reach_keeps: "host_reach em h h' \<Longrightarrow> keeps em h h'"
  by (induction rule: host_reach.induct) (auto intro: keeps_refl keeps_trans host_step_keeps)

lemma spawn_ok:
  assumes "spawn_with em sz n pty = Inr h"
  shows "host_ok em h"
  using assms
  by (auto simp: spawn_with_def grid_size_new_def host_ok_def link_tbl_ok_default clipboard_default_def
      check_clipboard_def and_then_Inr_iff split: sum.splits)

lemma snapshot_counters:
  assumes "snapshot em seq h = (s, h')"
  shows "scr_bell s = ht_bell h \<and> scr_scrollback_len s = ht_scrollback_len h \<and> scr_clipboard s = ht_clipboard h"
proof -
  obtain links' where "screen_state_of em (ht_term h) (ht_blink h) (ht_palette h) (ht_size h)
      (state_meta_of seq h) (Some (ht_links h)) = (s, links')"
    using assms by (auto simp: snapshot_def split: prod.splits)
  from screen_state_of_fields [OF this] show ?thesis by (simp add: state_meta_of_def)
qed

section \<open>Properties\<close>

text \<open>C10: whatever the emulator holds, every screen the host builds is one the client accepts: after any
  sequence of polls, resizes, delivered copies, replaced shells and snapshots on a started terminal,
  the snapshot, and the picture taken for a preview, pass every check of a received state.\<close>

theorem host_screens_are_accepted:
  assumes "spawn_with em sz n pty = Inr h0" and "host_reach em h0 h" and "seq \<noteq> 0"
  shows "validate (fst (snapshot em seq h)) = Inr () \<and> bt_wf (scr_links (fst (snapshot em seq h)))
    \<and> validate (picture em seq h) = Inr ()"
proof -
  have "host_ok em h"
    using host_reach_keeps [OF assms(2)] spawn_ok [OF assms(1)] by (simp add: keeps_def)
  with assms(3) snapshot_wf [of em h seq] picture_wf [of em h seq] show ?thesis
    by (cases "snapshot em seq h") (simp add: validate_ok_iff screen_wf_def)
qed

text \<open>C9: successive screens of one terminal are a transition the client accepts, and exactly what the
  synchronisation asks of its caller (\<open>publishes\<close>): no operation in between moves the bell, the
  scrollback or the clipboard counter backwards.\<close>

theorem host_screens_only_move_on:
  assumes "spawn_with em sz n pty = Inr h0" and "host_reach em h0 h1" and "i \<noteq> 0" and "j \<noteq> 0"
    and "snapshot em i h1 = (s1, h1')" and "host_reach em h1' h2" and "snapshot em j h2 = (s2, h2')"
  shows "publishes s1 s2 \<and> validate_transition s2 s1 = Inr ()"
proof -
  have ok1: "host_ok em h1"
    using host_reach_keeps [OF assms(2)] spawn_ok [OF assms(1)] by (simp add: keeps_def)
  have "keeps em h1 h2"
    using keeps_snapshot [OF assms(5)] host_reach_keeps [OF assms(6)] by (rule keeps_trans)
  then have "screen_wf s2" "monotone_from s1 s2"
    using snapshot_wf [OF _ assms(7,4)] ok1 snapshot_counters [OF assms(5)] snapshot_counters [OF assms(7)]
    by (simp_all add: keeps_def counts_on_def monotone_from_def)
  then show ?thesis
    by (simp add: publishes_def validate_transition_ok_iff screen_wf_def)
qed

text \<open>C28: a shell that replaces another on the same link goes on from the last screen the client holds:
  after \<open>count_on_from\<close>, the new terminal's screen is an accepted transition from that screen, whatever
  the new shell has already done and does next.\<close>

theorem replaced_shell_counts_on:
  assumes "spawn_with em sz n pty = Inr h0" and "host_reach em h0 h" and "seq \<noteq> 0"
    and "host_reach em (count_on_from prior h) h2" and "snapshot em seq h2 = (s, h')"
  shows "publishes prior s \<and> validate_transition s prior = Inr ()"
proof -
  have ok: "host_ok em h"
    using host_reach_keeps [OF assms(2)] spawn_ok [OF assms(1)] by (simp add: keeps_def)
  note on = host_reach_keeps [OF assms(4)]
  have "host_ok em h2"
    using on ok keeps_count_on_from [of em h prior] by (simp add: keeps_def)
  then have "screen_wf s" using snapshot_wf [OF _ assms(5,3)] by blast
  moreover have "scr_bell prior \<le> ht_bell (count_on_from prior h)"
    "scr_scrollback_len prior \<le> ht_scrollback_len (count_on_from prior h)"
    "cb_serial (scr_clipboard prior) \<le> cb_serial (ht_clipboard (count_on_from prior h))"
    by (auto simp: count_on_from_def without_text_def)
  then have "monotone_from prior s"
    using on snapshot_counters [OF assms(5)] by (auto simp: keeps_def counts_on_def monotone_from_def)
  ultimately show ?thesis
    by (simp add: publishes_def validate_transition_ok_iff screen_wf_def)
qed

text \<open>The link of a cell, read off the emulator's grid row by row: a cell outside the grid has none, the
  right half of a wide glyph that is not in the first column has what the cell to its left has, and
  any other cell has its own.\<close>

definition own_link :: "('t, 'p, 'h, 'op) emulator \<Rightarrow> 't \<Rightarrow> point \<Rightarrow> 'h option" where
  "own_link em t p = (if em_clamp em t p = p then vc_hyperlink (em_grid em t p) else None)"

primrec link_of_cell :: "('t, 'p, 'h, 'op) emulator \<Rightarrow> 't \<Rightarrow> nat \<Rightarrow> nat \<Rightarrow> 'h option" where
  "link_of_cell em t r 0 = own_link em t (int r, 0)"
| "link_of_cell em t r (Suc c) =
     (if em_clamp em t (int r, Suc c) = (int r, Suc c)
         \<and> fl_wide_char_spacer (vc_flags (em_grid em t (int r, Suc c)))
      then link_of_cell em t r c else own_link em t (int r, Suc c))"

lemma row_cell_below:
  assumes "(r :: nat) < rows" and "c < cols"
  shows "r * cols + c < rows * cols"
proof -
  have "Suc r * cols \<le> rows * cols" using assms(1) by (intro mult_le_mono1) simp
  with assms(2) show ?thesis by simp
qed

lemma screen_points_nth:
  assumes "r < unat (ts_rows sz)" "c < unat (ts_cols sz)"
  shows "screen_points sz ! (r * unat (ts_cols sz) + c) = (int r, c)"
proof -
  let ?row = "\<lambda>row. map (\<lambda>col. (int row, col)) [0..<unat (ts_cols sz)]"
  have "concat (map ?row [0..<n]) ! (r * unat (ts_cols sz) + c) = (int r, c)" if "r < n" for n
    using that
  proof (induction n)
    case (Suc n)
    have len: "length (concat (map ?row [0..<n])) = n * unat (ts_cols sz)"
      by (simp add: length_concat o_def sum_list_triv)
    show ?case
    proof (cases "r = n")
      case True
      with assms(2) len show ?thesis by (simp add: nth_append)
    next
      case False
      with Suc.prems have "r < n" by simp
      then have "r * unat (ts_cols sz) + unat (ts_cols sz) \<le> n * unat (ts_cols sz)"
        by (metis Suc_leI add.commute mult_Suc mult_le_mono1)
      with assms(2) len Suc.IH [OF \<open>r < n\<close>] show ?thesis by (simp add: nth_append)
    qed
  qed simp
  with assms(1) show ?thesis by (simp add: screen_points_def)
qed

lemma found_links_snoc: "found_links em t (ps @ [p]) = found_links em t ps @ [link_at em t (found_links em t ps) p]"
  by (simp add: found_links_def)

lemma found_links_nth:
  "k < length ps \<Longrightarrow> found_links em t ps ! k = link_at em t (take k (found_links em t ps)) (ps ! k)"
proof (induction ps rule: rev_induct)
  case (snoc p ps)
  then show ?case
    by (cases "k < length ps") (simp_all add: found_links_snoc length_found_links nth_append)
qed simp

lemma found_links_cell:
  assumes "r < unat (ts_rows sz)" "c < unat (ts_cols sz)"
  shows "found_links em t (screen_points sz) ! (r * unat (ts_cols sz) + c) = link_of_cell em t r c"
  using assms(2)
proof (induction c)
  case (Suc c)
  let ?k = "r * unat (ts_cols sz) + Suc c" and ?found = "found_links em t (screen_points sz)"
  have k: "?k < length (screen_points sz)"
    using row_cell_below [OF assms(1) Suc.prems] by (simp add: length_screen_points)
  have ne: "take ?k ?found \<noteq> []"
    using k length_found_links [of em t "screen_points sz"] by auto
  moreover have "last (take ?k ?found) = ?found ! (r * unat (ts_cols sz) + c)"
    using k last_conv_nth [OF ne] by (simp add: length_found_links)
  ultimately show ?case
    using found_links_nth [OF k, of em t] screen_points_nth [OF assms(1) Suc.prems] Suc
    by (simp add: link_at_def cell_at_def own_link_def)
next
  case 0
  have k: "r * unat (ts_cols sz) + 0 < length (screen_points sz)"
    using row_cell_below [OF assms(1) 0] by (simp add: length_screen_points)
  from found_links_nth [OF k, of em t] screen_points_nth [OF assms(1) 0] show ?case
    by (simp add: link_at_def cell_at_def own_link_def)
qed

text \<open>C26: what the client is told of a hyperlink is the emulator's own. On every screen a host publishes,
  the wire id of the cell in row \<open>r\<close> and column \<open>c\<close> is 0 when the emulator's cell has no link and
  resolves to the link's URI when it has one, the right half of a wide glyph counting as its left half
  (\<open>link_of_cell\<close>); a link the host's table already held keeps its id, the table kept for the next
  screen holds every link shown under the id it was shown with, and a link is left out only when its
  URI is not one a client accepts or the screen shows 512 links already.\<close>

theorem shown_links_are_the_emulators:
  assumes "host_ok em h" and "snapshot em seq h = (s, h')"
    and "r < unat (ts_rows (ht_size h))" and "c < unat (ts_cols (ht_size h))"
  shows "(let link = c_link (scr_cells s ! (r * unat (ts_cols (ht_size h)) + c))
    in case link_of_cell em (ht_term h) r c of
      None \<Rightarrow> link = 0
    | Some g \<Rightarrow>
        (case lt_ids (ht_links h) g of Some i \<Rightarrow> link = i | None \<Rightarrow> True)
        \<and> (if link = 0 then length (scr_links s) \<ge> 512 \<or> \<not> is_ok (check_link_uri 1 (em_uri em g))
           else bt_get (scr_links s) link = Some (em_uri em g) \<and> lt_ids (ht_links h') g = Some link))"
proof -
  let ?k = "r * unat (ts_cols (ht_size h)) + c"
  have l: "link_tbl_ok (em_uri em) (ht_links h)" using assms(1) by (simp add: host_ok_def)
  obtain l0 where h': "ht_links h' = l0" and
    l0: "screen_state_of em (ht_term h) (ht_blink h) (ht_palette h) (ht_size h)
      (state_meta_of seq h) (Some (ht_links h)) = (s, Some l0)"
    by (rule snapshot_links [OF assms(2) l]) (rule that, simp_all)
  let ?found = "found_links em (ht_term h) (screen_points (ht_size h))"
  have k: "?k < unat (ts_rows (ht_size h)) * unat (ts_cols (ht_size h))"
    by (rule row_cell_below [OF assms(3,4)])
  have link: "?found ! ?k = link_of_cell em (ht_term h) r c"
    by (rule found_links_cell [OF assms(3,4)])
  show ?thesis
  proof (rule linked_screen [OF l l0], goal_cases)
    case (1 l')
    note spec = assign_spec [OF l 1(4)] and tbl = link_table_of_ok [OF 1(2)]
    note cell = 1(6) [OF k]
    have nz: "i \<noteq> 0" if "lt_ids l' g = Some i" for g i
      using 1(2) that unfolding link_tbl_ok_def by blast
    have len: "length (scr_links s) = length (lt_uris l')"
      by (simp add: 1(3) link_table_of_def)
    show ?thesis
    proof (cases "?found ! ?k")
      case None
      with cell link show ?thesis by simp
    next
      case (Some g)
      have "g \<in> links_in ?found"
        using Some k by (force simp: links_in_def in_set_conv_nth length_found_links length_screen_points)
      note g = spec(3) [OF this] spec(5) [OF this]
      show ?thesis
        using Some cell g nz tbl(3) len 1(1,3) h' link [unfolded Some, symmetric]
        by (auto simp: MAX_LINKS_def split: option.splits)
    qed
  qed
qed

text \<open>A small emulator to run the model on: one line of typed characters, every cell of it one link.\<close>

definition toy_cell :: "scalar \<Rightarrow> ustr vte_cell" where
  "toy_cell c =
    \<lparr>vc_c = c, vc_zerowidth = None, vc_fg = Named Foreground, vc_bg = Named Background,
     vc_flags = \<lparr>fl_bold = False, fl_italic = False, fl_inverse = False, fl_dim = False, fl_hidden = False,
       fl_strikeout = False, fl_underlined = False, fl_wide_char_spacer = False,
       fl_leading_wide_char_spacer = False\<rparr>,
     vc_hyperlink = Some (str_of ''http://x'')\<rparr>"

definition toy :: "(ustr, unit, ustr, unit) emulator" where
  "toy =
    \<lparr>em_new = (\<lambda>g. []), em_resize = (\<lambda>g t. (t, [])),
     em_call = (\<lambda>call t. case call of Input c \<Rightarrow> (t @ [c], [Bell]) | _ \<Rightarrow> (t, [])),
     em_clamp = (\<lambda>t p. p),
     em_grid = (\<lambda>t p. toy_cell (if snd p < length t then t ! snd p else 32)),
     em_cursor = (\<lambda>t. (0, length t)), em_needs_wrap = (\<lambda>t. False),
     em_mode = (\<lambda>t. \<lparr>tm_alt_screen = False, tm_bracketed_paste = False, tm_mouse_motion = False,
       tm_mouse_drag = False, tm_mouse_report_click = False, tm_app_cursor = False, tm_app_keypad = False,
       tm_show_cursor = True\<rparr>),
     em_cursor_shape = (\<lambda>t. VteBlock), em_colors = (\<lambda>t i. None), em_history_size = (\<lambda>t. 3),
     em_topmost_line = (\<lambda>t. - 3), em_damaged_fully = (\<lambda>t. False), em_reset_damage = (\<lambda>t. t),
     em_uri = (\<lambda>u. u), em_zero_width = (\<lambda>c. False), em_parser = (),
     em_advance = (\<lambda>p bs. (map (\<lambda>b. Input (unat b)) bs, p))\<rparr>"

definition toy_reads :: "nat \<Rightarrow> string + bytes" where
  "toy_reads k = (if k = 0 then Inr [0x68, 0x69] else Inr [])"

definition toy_host :: "(ustr, unit, ustr) host_term" where
  "toy_host = projr (spawn_with toy \<lparr>ts_cols = 2, ts_rows = 1\<rparr> 100 (Inr () :: string + unit))"

definition toy_polled :: "(ustr, unit, ustr) host_term" where
  "toy_polled = fst (snd (poll toy toy_reads toy_host))"

lemma toy_spawn: "spawn_with toy \<lparr>ts_cols = 2, ts_rows = 1\<rparr> 100 (Inr () :: string + unit) = Inr toy_host"
  by (simp add: toy_host_def spawn_with_def grid_size_new_def check_bounds_def limit_defs)

lemma toy_reach: "host_reach toy toy_host toy_polled"
  by (rule reach_step [OF reach_here step_poll [of toy toy_reads]]) (simp add: toy_polled_def prod_eq_iff)

lemma toy_polled_eq:
  "ht_term toy_polled = str_of ''hi'' \<and> ht_bell toy_polled = 2 \<and> ht_size toy_polled = \<lparr>ts_cols = 2, ts_rows = 1\<rparr>
   \<and> \<not> ht_output_waiting toy_polled \<and> ht_scrollback_len toy_polled = 0"
  by (simp add: toy_polled_def toy_host_def poll_def poll_loop.simps toy_reads_def spawn_with_def grid_size_new_def
      check_bounds_def limit_defs READ_BUDGET_def feed_output_def feed_def feed_loop.simps osc_guard_new_def byte_defs
      parse_chunk_def toy_def signals_default_def tap_input_def forward_def send_events_def mark_fits_def
      take_signals_def sat_add_def str_of_def Let_def of_char_def blink_plane_default_def)

theorem host_screens_are_accepted_witness:
  "ht_bell toy_polled = 2 \<and> validate (fst (snapshot toy 1 toy_polled)) = Inr ()"
  using host_screens_are_accepted [OF toy_spawn toy_reach, of 1] toy_polled_eq by simp

theorem host_screens_only_move_on_witness:
  "scr_bell (fst (snapshot toy 1 toy_host)) = 0 \<and> ht_bell toy_polled = 2
   \<and> publishes (fst (snapshot toy 1 toy_host))
       (fst (snapshot toy 2 (fst (snd (poll toy toy_reads (snd (snapshot toy 1 toy_host)))))))"
proof -
  let ?h1 = "snd (snapshot toy 1 toy_host)"
  have "host_reach toy ?h1 (fst (snd (poll toy toy_reads ?h1)))"
    by (rule reach_step [OF reach_here step_poll [of toy toy_reads]]) (simp add: prod_eq_iff)
  from host_screens_only_move_on [OF toy_spawn reach_here, of 1 2, OF _ _ prod.collapse [symmetric] this
      prod.collapse [symmetric]]
  have "publishes (fst (snapshot toy 1 toy_host)) (fst (snapshot toy 2 (fst (snd (poll toy toy_reads ?h1)))))"
    by simp
  moreover have "scr_bell (fst (snapshot toy 1 toy_host)) = ht_bell toy_host"
    using snapshot_counters [OF prod.collapse [symmetric]] by blast
  moreover have "ht_bell toy_host = 0"
    using toy_spawn by (auto simp: spawn_with_def split: sum.splits dest: arg_cong [where f = ht_bell])
  ultimately show ?thesis using toy_polled_eq by simp
qed

theorem replaced_shell_counts_on_witness:
  "publishes ((blank_state 1 2)\<lparr>scr_bell := 7\<rparr>)
     (fst (snapshot toy 9 (count_on_from ((blank_state 1 2)\<lparr>scr_bell := 7\<rparr>) toy_polled)))"
  using replaced_shell_counts_on [OF toy_spawn toy_reach, of 9, OF _ reach_here prod.collapse [symmetric]]
  by simp

theorem shown_links_are_the_emulators_witness:
  "link_of_cell toy (ht_term toy_polled) 0 1 = Some (str_of ''http://x'')
   \<and> (let s = fst (snapshot toy 1 toy_polled)
      in if c_link (scr_cells s ! 1) = 0
         then length (scr_links s) \<ge> 512 \<or> \<not> is_ok (check_link_uri 1 (str_of ''http://x''))
         else bt_get (scr_links s) (c_link (scr_cells s ! 1)) = Some (str_of ''http://x''))"
proof -
  have ok: "host_ok toy toy_polled"
    using host_reach_keeps [OF toy_reach] spawn_ok [OF toy_spawn] by (simp add: keeps_def)
  have link: "link_of_cell toy (ht_term toy_polled) 0 1 = Some (str_of ''http://x'')"
    by (simp add: own_link_def toy_def toy_cell_def)
  have uri: "em_uri toy u = u" for u by (simp add: toy_def)
  from shown_links_are_the_emulators [OF ok prod.collapse [symmetric], of 0 1 1] link uri show ?thesis
    by (auto simp: toy_polled_eq Let_def split: option.splits if_splits)
qed

section \<open>One turn is bounded\<close>

definition read_bytes :: "(nat \<Rightarrow> 'e + bytes) \<Rightarrow> nat \<Rightarrow> nat" where
  "read_bytes reads k = (case reads k of Inl _ \<Rightarrow> 0 | Inr bs \<Rightarrow> length bs)"

definition total_read :: "(nat \<Rightarrow> 'e + bytes) \<Rightarrow> nat \<Rightarrow> nat" where
  "total_read reads k = sum_list (map (read_bytes reads) [0..<k])"

lemma total_read_Suc: "total_read reads (Suc k) = total_read reads k + read_bytes reads k"
  by (simp add: total_read_def)

lemma poll_loop_bounded:
  assumes "\<And>k bs. reads k = Inr bs \<Longrightarrow> length bs \<le> READ_CHUNK"
    and "poll_loop em reads k (total_read reads k) changed h = (r, h', k')"
    and "k \<le> total_read reads k" "k \<le> READ_BUDGET" "total_read reads k < READ_BUDGET + READ_CHUNK"
  shows "k' \<le> READ_BUDGET + 1 \<and> total_read reads k' < READ_BUDGET + READ_CHUNK
    \<and> (case r of
         Inl e \<Rightarrow> 0 < k' \<and> reads (k' - 1) = Inl e
       | Inr _ \<Rightarrow> if ht_output_waiting h' then READ_BUDGET \<le> total_read reads k' else 0 < k' \<and> reads (k' - 1) = Inr [])"
  using assms(2-)
proof (induction "READ_BUDGET + READ_CHUNK - total_read reads k" arbitrary: k changed h rule: less_induct)
  case less
  show ?case
  proof (cases "total_read reads k \<ge> READ_BUDGET")
    case True
    with less.prems show ?thesis by (subst (asm) poll_loop.simps) auto
  next
    case False
    show ?thesis
    proof (cases "reads k")
      case (Inl e)
      with False less.prems show ?thesis
        by (subst (asm) poll_loop.simps) (auto simp: total_read_Suc read_bytes_def)
    next
      case (Inr bs)
      show ?thesis
      proof (cases "bs = []")
        case True
        with Inr False less.prems show ?thesis
          by (subst (asm) poll_loop.simps) (auto simp: total_read_Suc read_bytes_def)
      next
        case ne: False
        have t: "total_read reads (Suc k) = total_read reads k + length bs" "0 < length bs" "length bs \<le> READ_CHUNK"
          using Inr ne assms(1) [OF Inr] by (simp_all add: total_read_Suc read_bytes_def)
        have "poll_loop em reads (Suc k) (total_read reads (Suc k)) True (feed_output em bs h) = (r, h', k')"
          using less.prems(1) False Inr ne by (subst (asm) poll_loop.simps) (simp add: t(1))
        then show ?thesis
          by (rule less.hyps [rotated]) (use t False less.prems in linarith)+
      qed
    qed
  qed
qed

text \<open>C27: one poll always ends, however fast the child writes: it makes at most \<open>READ_BUDGET + 1\<close> reads and
  takes fewer than \<open>READ_BUDGET + READ_CHUNK\<close> bytes. It says output is waiting exactly when it stopped at
  the budget; otherwise its last read found the pseudo terminal empty, the only moment it is safe to
  sleep. A read that fails ends it with that failure.\<close>

theorem poll_is_bounded:
  assumes "\<forall>k bs. reads k = Inr bs \<longrightarrow> length bs \<le> READ_CHUNK"
  shows "case poll_loop em reads 0 0 False h of (r, h', n) \<Rightarrow>
    n \<le> READ_BUDGET + 1 \<and> total_read reads n < READ_BUDGET + READ_CHUNK
    \<and> (case r of
         Inl e \<Rightarrow> 0 < n \<and> reads (n - 1) = Inl e
       | Inr _ \<Rightarrow> if ht_output_waiting h' then READ_BUDGET \<le> total_read reads n else 0 < n \<and> reads (n - 1) = Inr [])"
proof (cases "poll_loop em reads 0 0 False h")
  case (fields r h' n)
  then have "poll_loop em reads 0 (total_read reads 0) False h = (r, h', n)" by (simp add: total_read_def)
  from poll_loop_bounded [OF _ this] assms show ?thesis
    unfolding fields prod.case by (simp add: total_read_def READ_BUDGET_def)
qed

theorem poll_is_bounded_witness:
  "snd (snd (poll_loop toy toy_reads 0 0 False toy_host)) \<le> READ_BUDGET + 1"
proof -
  have "\<forall>k bs. toy_reads k = Inr bs \<longrightarrow> length bs \<le> READ_CHUNK"
    by (auto simp: toy_reads_def READ_CHUNK_def split: if_splits)
  from poll_is_bounded [OF this, of toy toy_host] show ?thesis by (auto split: prod.splits)
qed

section \<open>Scrollback\<close>

lemma filter_upt_between: "filter (\<lambda>w. a \<le> w \<and> w < b) [i..<j] = [max i a..<min j b]"
proof (induction j)
  case (Suc j)
  then show ?case by (cases "i \<le> j") (auto simp: min_def max_def dest: le_antisym)
qed simp

text \<open>Asked for the scrollback lines from one number to another, the host returns exactly those of them
  the history still holds, oldest first, each as one row of unlinked cells read that many lines above
  the screen; a line that is gone, or not yet there, is left out and nothing else is.\<close>

theorem scrollback_is_the_retained_part:
  fixes h :: "('t, 'p, 'h) host_term"
  assumes "em_history_size em (ht_term h) < 2147483648"
  shows "scrollback em from to h =
    (if em_history_size em (ht_term h) = 0 then []
     else map (\<lambda>w. map (\<lambda>col. host_cell em (ht_term h) (ht_blink h) (ht_palette h)
              (- int (unat (ht_scrollback_len h) - w), col)) [0..<unat (ts_cols (ht_size h))])
       [max (unat from) (unat (ht_scrollback_len h) - em_history_size em (ht_term h))
         ..< min (unat to) (unat (ht_scrollback_len h))])"
proof -
  let ?n = "em_history_size em (ht_term h)" and ?len = "ht_scrollback_len h"
  let ?old = "unat (sat_sub ?len (of_nat ?n))"
  have n: "unat (of_nat ?n :: u64) = ?n" using assms by (intro unat_of_nat_64) simp
  have old: "?old = unat ?len - ?n" by (simp add: unat_sat_sub n)
  have w: "unat (of_nat w :: u64) = w" if "w < unat to" for w
    using that unat_lt_64 [of to] by (intro unat_of_nat_64) simp
  have line: "sint (ucast (?len - of_nat w) :: u32) = int (unat ?len - w)"
    if "w \<in> set [max (unat from) ?old..<min (unat to) (unat ?len)]" for w
  proof -
    have "(of_nat w :: u64) \<le> ?len" using that w by (simp add: word_le_nat_alt)
    then have d: "unat (?len - of_nat w) = unat ?len - w" using that w by (simp add: unat_sub)
    have "unat ?len - w < 2147483648" using that assms old by auto
    then have "unat (ucast (?len - of_nat w) :: u32) = unat ?len - w"
      by (simp add: unsigned_ucast_eq d take_bit_nat_eq_self)
    then show ?thesis
      using \<open>unat ?len - w < 2147483648\<close> by (simp add: sint_uint signed_take_bit_int_eq_self uint_nat)
  qed
  have picked: "filter (\<lambda>want. \<not> (want < sat_sub ?len (of_nat ?n) \<or> want \<ge> ?len)) (map of_nat [unat from..<unat to])
      = map of_nat [max (unat from) ?old..<min (unat to) (unat ?len)]"
  proof -
    have "\<not> ((of_nat x :: u64) < sat_sub ?len (of_nat ?n) \<or> (of_nat x :: u64) \<ge> ?len)
        \<longleftrightarrow> ?old \<le> x \<and> x < unat ?len" if "x \<in> set [unat from..<unat to]" for x
      using w [of x] that by (auto simp: word_le_nat_alt word_less_nat_alt)
    then have "filter (\<lambda>x. \<not> ((of_nat x :: u64) < sat_sub ?len (of_nat ?n) \<or> (of_nat x :: u64) \<ge> ?len))
        [unat from..<unat to] = filter (\<lambda>x. ?old \<le> x \<and> x < unat ?len) [unat from..<unat to]"
      by (rule filter_cong [OF refl])
    then show ?thesis unfolding filter_map o_def filter_upt_between by (rule arg_cong)
  qed
  have zero: "(of_nat ?n :: u64) = 0 \<longleftrightarrow> ?n = 0" 
  proof
    assume "(of_nat ?n :: u64) = 0"
    then have "unat (of_nat ?n :: u64) = 0" by (simp only: unat_0)
    with n show "?n = 0" by linarith
  qed simp
  have empty: "[max (unat from) ?old..<min (unat to) (unat ?len)] = []" if "to \<le> from"
    using that by (simp add: word_le_nat_alt)
  show ?thesis
    unfolding scrollback_def Let_def picked zero old [symmetric]
    using line empty by (auto simp: o_def)
qed

theorem scrollback_is_the_retained_part_witness:
  "scrollback toy 0 9 (toy_polled\<lparr>ht_scrollback_len := 5\<rparr>)
    = map (\<lambda>w. map (\<lambda>col. host_cell toy (str_of ''hi'') (ht_blink toy_polled) (ht_palette toy_polled)
          (- int (5 - w), col)) [0..<2]) [2, 3, 4]"
proof -
  have "em_history_size toy (ht_term (toy_polled\<lparr>ht_scrollback_len := 5\<rparr>)) < 2147483648"
    by (simp add: toy_def)
  from scrollback_is_the_retained_part [OF this, of 0 9] show ?thesis
    using toy_polled_eq by (simp add: toy_def upt_rec)
qed

section \<open>No event is lost\<close>

definition copy_fits :: "clipboard_type \<times> ustr \<Rightarrow> bool" where
  "copy_fits e \<longleftrightarrow> str_len (snd e) \<le> MAX_CLIPBOARD"

lemma take_copies_exact:
  "unat (cb_serial (fst (fold take_copy es acc)))
     = min (unat (cb_serial (fst acc)) + length (filter copy_fits es)) (2 ^ 32 - 1)
   \<and> map_option cc_text (cb_copy (fst (fold take_copy es acc)))
     = (case filter copy_fits es of [] \<Rightarrow> map_option cc_text (cb_copy (fst acc)) | cs \<Rightarrow> Some (snd (last cs)))"
proof (induction es arbitrary: acc)
  case Nil
  show ?case using unat_le_max [of "cb_serial (fst acc)"] by simp
next
  case (Cons e es)
  show ?case
  proof (cases "copy_fits e")
    case True
    then have "cb_serial (fst (take_copy e acc)) = sat_add (cb_serial (fst acc)) 1"
      "map_option cc_text (cb_copy (fst (take_copy e acc))) = Some (snd e)"
      by (simp_all add: take_copy_def record_copy_def copy_fits_def)
    with True Cons.IH [of "take_copy e acc"] show ?thesis
      by (auto simp: unat_sat_add split: list.splits)
  next
    case False
    then have "take_copy e acc = acc" by (simp add: take_copy_def record_copy_def copy_fits_def)
    with False Cons.IH [of acc] show ?thesis by simp
  qed
qed

text \<open>A poll hands on every event the emulator reported since the last one, whatever their order:
  each bell is counted (until the counter is full), each copy within the cap advances the clipboard
  serial and the last of them is the text on offer, an oversized copy is dropped whole, the last title
  wins, every reply goes to the child in order, and the sink is empty again.\<close>

theorem poll_takes_every_event:
  "case take_signals changed (h\<lparr>ht_events := fold send_event evs signals_default\<rparr>) of (dirty, h', replies) \<Rightarrow>
     unat (ht_bell h') = min (unat (ht_bell h) + count_bells evs) (2 ^ 32 - 1)
     \<and> unat (cb_serial (ht_clipboard h'))
         = min (unat (cb_serial (ht_clipboard h)) + length (filter copy_fits (List.map_filter copy_of evs))) (2 ^ 32 - 1)
     \<and> map_option cc_text (cb_copy (ht_clipboard h'))
         = (case filter copy_fits (List.map_filter copy_of evs) of
              [] \<Rightarrow> map_option cc_text (cb_copy (ht_clipboard h)) | cs \<Rightarrow> Some (snd (last cs)))
     \<and> ht_title h' = (case List.map_filter title_of evs of [] \<Rightarrow> ht_title h | ts \<Rightarrow> last ts)
     \<and> replies = List.map_filter reply_of evs \<and> ht_events h' = signals_default"
proof -
  define s where "s = fold send_event evs signals_default"
  obtain clip copied where c: "fold take_copy (sg_clipboard s) (ht_clipboard h, False) = (clip, copied)"
    by fastforce
  have copies: "sg_clipboard s = List.map_filter copy_of evs" "sg_replies s = List.map_filter reply_of evs"
    unfolding s_def send_events_lists by (simp_all add: signals_default_def)
  have bells: "unat (sg_bells s) = min (count_bells evs) (2 ^ 32 - 1)"
    unfolding s_def send_events_bells by (simp add: signals_default_def)
  have title: "sg_title s = (case List.map_filter title_of evs of [] \<Rightarrow> None | ts \<Rightarrow> Some (last ts))"
    unfolding s_def send_events_title by (simp add: signals_default_def split: list.split)
  have bell: "unat (if 0 < sg_bells s then sat_add (ht_bell h) (sg_bells s) else ht_bell h)
      = min (unat (ht_bell h) + count_bells evs) (2 ^ 32 - 1)"
    using bells unat_le_max [of "ht_bell h"] by (auto simp: unat_sat_add word_less_nat_alt)
  note clip = take_copies_exact [of "sg_clipboard s" "(ht_clipboard h, False)", unfolded c fst_conv]
  have title': "(case sg_title s of Some t \<Rightarrow> t | None \<Rightarrow> ht_title h)
      = (case List.map_filter title_of evs of [] \<Rightarrow> ht_title h | ts \<Rightarrow> last ts)"
    unfolding title by (simp split: list.split)
  obtain dirty h' replies where t: "take_signals changed (h\<lparr>ht_events := s\<rparr>) = (dirty, h', replies)"
    by (metis prod_cases3)
  have "ht_bell h' = (if 0 < sg_bells s then sat_add (ht_bell h) (sg_bells s) else ht_bell h)"
    "ht_clipboard h' = clip" "ht_title h' = (case sg_title s of Some t \<Rightarrow> t | None \<Rightarrow> ht_title h)"
    "replies = sg_replies s" "ht_events h' = signals_default"
    using t by (auto simp: take_signals_def c Let_def split: option.split)
  then show ?thesis
    unfolding s_def [symmetric] t prod.case by (simp only: copies(2) title' bell clip [unfolded copies(1)] simp_thms)
qed

end
