(* ===== verification/Host_Session.thy ===== *)
theory Host_Session
  imports Host_Term Link_State
begin

text \<open>
  The host's half of a session, from \<open>src/host_session.rs\<close>: the shell's terminal, the sender of its
  screens and the receiver of typed input, on the link of whichever client is attached, or a lobby
  with no shell. A link is an abstract value; closing one is a pair of it and the reason. What the
  operating system answers during a turn (the pty's reads and writes, its resize, the child's exit
  status, whether the connection has closed, the sender's pacing) is the record \<open>turn_env\<close>.

  The lemmas show that whatever a session does on one link -- turns with any frames, a shell started,
  killed and started again, windows resized -- each screen it publishes may follow the one before, and
  that a turn touches its channels only in the ways the synchronisation protocol allows. An error ends
  the session: it is the left of the result.
\<close>

definition DETACH_AFTER :: duration where "DETACH_AFTER = from_secs 30"
definition KILL_GRACE :: duration where "KILL_GRACE = from_secs 3"
definition REAP_AFTER_KILL :: duration where "REAP_AFTER_KILL = from_secs 2"
definition PREVIEW_MAX :: term_size where "PREVIEW_MAX = \<lparr>ts_cols = 68, ts_rows = 18\<rparr>"

datatype host_reason = RTakenOver | RSwitched | RSuperseded
datatype role = RolePrimary | RoleStandby

record ('t, 'p, 'h, 'l) host_session =
  hs_term :: "('t, 'p, 'h) host_term option"
  hs_scrollback :: nat
  hs_screen_tx :: "screen_state sender"
  hs_input_rx :: "input_state receiver"
  hs_link :: 'l
  hs_size :: term_size
  hs_last_send :: "instant option"
  hs_written :: nat
  hs_screen_stale :: bool
  hs_last_heard :: instant
  hs_presence :: "('l \<times> instant) option"
  hs_detach_after :: duration

record 'e turn_env =
  te_write :: "bytes \<Rightarrow> 'e option"
  te_resize :: "'e + unit"
  te_reads :: "nat \<Rightarrow> 'e + bytes"
  te_exit :: "int option"
  te_closed :: bool
  te_pacing :: duration

text \<open>\<open>tn_shell\<close> is what the turn wrote to the shell of the client's typing.\<close>

record host_turn =
  tn_sent :: "frame option"
  tn_applied :: nat
  tn_rejected :: nat
  tn_exited :: "int option"
  tn_detached :: bool
  tn_shell :: bytes

definition turn_default :: host_turn where
  "turn_default = \<lparr>tn_sent = None, tn_applied = 0, tn_rejected = 0, tn_exited = None, tn_detached = False, tn_shell = []\<rparr>"

section \<open>Lobby and shell\<close>

definition lobby_screen :: "term_size \<Rightarrow> screen_state \<Rightarrow> apply_error + screen_state" where
  "lobby_screen sz prior =
    and_then (blank (ts_rows sz) (ts_cols sz)) (\<lambda>b.
    Inr (b\<lparr>scr_bell := scr_bell prior, scr_scrollback_len := scr_scrollback_len prior,
           scr_clipboard := without_text (scr_clipboard prior)\<rparr>))"

definition empty_input :: "term_size \<Rightarrow> input_state" where
  "empty_input sz = \<lparr>in_seq = 1, in_pending = [], in_size = sz\<rparr>"

definition lobby :: "term_size \<Rightarrow> nat \<Rightarrow> 'l \<Rightarrow> instant \<Rightarrow> apply_error + ('t, 'p, 'h, 'l) host_session" where
  "lobby sz history link now =
    and_then (blank (ts_rows sz) (ts_cols sz)) (\<lambda>b.
    Inr \<lparr>hs_term = None, hs_scrollback = history, hs_screen_tx = sender_new b,
         hs_input_rx = receiver_new (empty_input sz), hs_link = link, hs_size = sz, hs_last_send = None,
         hs_written = 0, hs_screen_stale = False, hs_last_heard = now, hs_presence = None,
         hs_detach_after = DETACH_AFTER\<rparr>)"

definition start_shell ::
  "('t, 'p, 'h, 'op) emulator \<Rightarrow> ('e + unit) \<Rightarrow> ('t, 'p, 'h, 'l) host_session
    \<Rightarrow> ('e host_error + unit) \<times> ('t, 'p, 'h, 'l) host_session" where
  "start_shell em pty s =
    (case spawn_with em (hs_size s) (hs_scrollback s) pty of
       Inl e \<Rightarrow> (Inl e, s)
     | Inr h \<Rightarrow>
         (Inr (), s\<lparr>hs_term := Some (count_on_from (sender_current (hs_screen_tx s)) h),
                    hs_written := length (in_pending (rcv_state (hs_input_rx s))),
                    hs_screen_stale := True\<rparr>))"

definition is_lobby :: "('t, 'p, 'h, 'l) host_session \<Rightarrow> bool" where
  "is_lobby s \<longleftrightarrow> hs_term s = None"

definition become_lobby ::
  "('t, 'p, 'h, 'op) emulator \<Rightarrow> ('t, 'p, 'h, 'l) host_session \<Rightarrow> apply_error + ('t, 'p, 'h, 'l) host_session" where
  "become_lobby em s =
    (let prior = (case hs_term s of Some h \<Rightarrow> fst (snapshot em 1 h) | None \<Rightarrow> sender_current (hs_screen_tx s))
     in and_then (lobby_screen (hs_size s) prior) (\<lambda>b.
        Inr (s\<lparr>hs_term := None, hs_screen_tx := sender_update screen_ops (hs_screen_tx s) b,
               hs_screen_stale := False\<rparr>)))"

definition with_presence :: "('t, 'p, 'h, 'l) host_session \<Rightarrow> ('t, 'p, 'h, 'l) host_session" where
  "with_presence s = s\<lparr>hs_presence := Some (hs_link s, hs_last_heard s)\<rparr>"

text \<open>\<open>Presence::attached\<close>, with whether the connection noted there has closed.\<close>

definition presence_attached :: "('l \<Rightarrow> bool) \<Rightarrow> instant \<Rightarrow> ('l \<times> instant) option \<Rightarrow> bool" where
  "presence_attached closed now p =
    (case p of None \<Rightarrow> False | Some (conn, at) \<Rightarrow> \<not> closed conn \<and> duration_since now at < DETACH_AFTER)"

section \<open>A turn\<close>

definition drain_input ::
  "(bytes \<Rightarrow> 'e option) \<Rightarrow> ('t, 'p, 'h, 'l) host_session \<Rightarrow> 'e host_error + bytes \<times> ('t, 'p, 'h, 'l) host_session" where
  "drain_input pty_write s =
    (let pending = in_pending (rcv_state (hs_input_rx s));
         written = (if hs_written s > length pending then length pending else hs_written s)
     in if written < length pending then
          (let fresh = drop written pending; s' = s\<lparr>hs_written := length pending\<rparr>
           in case hs_term s of
                None \<Rightarrow> Inr ([], s')
              | Some _ \<Rightarrow> (case pty_write fresh of Some e \<Rightarrow> Inl (PtyError e) | None \<Rightarrow> Inr (fresh, s')))
        else Inr ([], s\<lparr>hs_written := written\<rparr>))"

text \<open>The body of the loop over the frames that have arrived.\<close>

definition host_frame ::
  "input_diff codec \<Rightarrow> 'e turn_env \<Rightarrow> instant \<Rightarrow> frame \<Rightarrow> host_turn \<times> ('t, 'p, 'h, 'l) host_session
    \<Rightarrow> 'e host_error + host_turn \<times> ('t, 'p, 'h, 'l) host_session" where
  "host_frame cin env now f st =
    (let (tn, s) = st;
         (r, rx) = on_frame input_ops cin (hs_input_rx s) f;
         s1 = s\<lparr>hs_last_heard := now, hs_presence := Some (hs_link s, now), hs_input_rx := rx\<rparr>
     in case r of
          Inr True \<Rightarrow>
            and_then (drain_input (te_write env) s1) (\<lambda>(bs, s2).
            Inr (tn\<lparr>tn_applied := tn_applied tn + 1, tn_shell := tn_shell tn @ bs\<rparr>, s2))
        | Inr False \<Rightarrow> Inr (tn, s1)
        | Inl _ \<Rightarrow> Inr (tn\<lparr>tn_rejected := tn_rejected tn + 1\<rparr>, s1))"

definition note_delivered :: "('t, 'p, 'h, 'l) host_session \<Rightarrow> ('t, 'p, 'h, 'l) host_session" where
  "note_delivered s =
    (let tx = on_ack (hs_screen_tx s) (rcv_peer_ack (hs_input_rx s)); s1 = s\<lparr>hs_screen_tx := tx\<rparr>
     in case (hs_term s, acked screen_ops tx) of
          (Some h, Some a) \<Rightarrow>
            if cb_copy (scr_clipboard a) \<noteq> None then
              (let (gone, h') = clipboard_delivered (cb_serial (scr_clipboard a)) h
               in if gone then s1\<lparr>hs_term := Some h', hs_screen_stale := True\<rparr> else s1)
            else s1
        | _ \<Rightarrow> s1)"

definition hs_resize ::
  "('t, 'p, 'h, 'op) emulator \<Rightarrow> term_size \<Rightarrow> ('e + unit) \<Rightarrow> ('t, 'p, 'h, 'l) host_session
    \<Rightarrow> 'e host_error + ('t, 'p, 'h, 'l) host_session" where
  "hs_resize em sz pty s =
    (if sz = hs_size s then Inr s
     else case hs_term s of
       Some h \<Rightarrow>
         (case host_resize em sz pty h of
            (Inl e, _) \<Rightarrow> Inl e
          | (Inr _, h') \<Rightarrow> Inr (s\<lparr>hs_term := Some h', hs_size := sz\<rparr>))
     | None \<Rightarrow>
         (case lobby_screen sz (sender_current (hs_screen_tx s)) of
            Inl e \<Rightarrow> Inl (BadSize e)
          | Inr b \<Rightarrow> Inr (s\<lparr>hs_screen_tx := sender_update screen_ops (hs_screen_tx s) b, hs_size := sz\<rparr>)))"

definition follow_size ::
  "('t, 'p, 'h, 'op) emulator \<Rightarrow> 'e turn_env \<Rightarrow> ('t, 'p, 'h, 'l) host_session
    \<Rightarrow> 'e host_error + ('t, 'p, 'h, 'l) host_session" where
  "follow_size em env s =
    (let wanted = in_size (rcv_state (hs_input_rx s))
     in if wanted \<noteq> hs_size s \<and> ts_cols wanted > 0 \<and> ts_rows wanted > 0
        then hs_resize em wanted (te_resize env) s else Inr s)"

definition host_attached :: "'e turn_env \<Rightarrow> instant \<Rightarrow> ('t, 'p, 'h, 'l) host_session \<Rightarrow> bool" where
  "host_attached env now s \<longleftrightarrow> \<not> te_closed env \<and> \<not> duration_since now (hs_last_heard s) \<ge> hs_detach_after s"

definition host_poll ::
  "('t, 'p, 'h, 'op) emulator \<Rightarrow> 'e turn_env \<Rightarrow> bool \<Rightarrow> ('t, 'p, 'h, 'l) host_session
    \<Rightarrow> 'e host_error + ('t, 'p, 'h, 'l) host_session" where
  "host_poll em env attached s =
    (case hs_term s of
       None \<Rightarrow> Inr s
     | Some h \<Rightarrow>
         (case poll em (te_reads env) h of
            (Inl e, _) \<Rightarrow> Inl (PtyError e)
          | (Inr moved, h1, _) \<Rightarrow>
              if attached then
                if moved \<or> hs_screen_stale s then
                  (let (snap, h2) = snapshot em 1 h1
                   in Inr (s\<lparr>hs_term := Some h2, hs_screen_tx := sender_update screen_ops (hs_screen_tx s) snap,
                             hs_screen_stale := False\<rparr>))
                else Inr (s\<lparr>hs_term := Some h1\<rparr>)
              else Inr (s\<lparr>hs_term := Some h1, hs_screen_stale := hs_screen_stale s \<or> moved\<rparr>)))"

definition host_due :: "duration \<Rightarrow> instant \<Rightarrow> ('t, 'p, 'h, 'l) host_session \<Rightarrow> bool" where
  "host_due pacing now s =
    (case hs_last_send s of None \<Rightarrow> True | Some t \<Rightarrow> duration_since now t \<ge> pacing)"

definition next_frame ::
  "screen_diff codec \<Rightarrow> instant \<Rightarrow> ('t, 'p, 'h, 'l) host_session \<Rightarrow> frame option \<times> ('t, 'p, 'h, 'l) host_session" where
  "next_frame cout now s =
    (let tx = on_ack (hs_screen_tx s) (rcv_peer_ack (hs_input_rx s))
     in case make_frame screen_ops cout tx (rcv_ack input_ops (hs_input_rx s)) of
          Inr (Some f, tx') \<Rightarrow> (Some f, s\<lparr>hs_screen_tx := tx', hs_last_send := Some now\<rparr>)
        | Inr (None, tx') \<Rightarrow> (None, s\<lparr>hs_screen_tx := tx'\<rparr>)
        | Inl _ \<Rightarrow> (None, s\<lparr>hs_screen_tx := tx\<rparr>))"

definition host_offer ::
  "screen_diff codec \<Rightarrow> duration \<Rightarrow> instant \<Rightarrow> ('t, 'p, 'h, 'l) host_session
    \<Rightarrow> frame option \<times> ('t, 'p, 'h, 'l) host_session" where
  "host_offer cout pacing now s = (if \<not> host_due pacing now s then (None, s) else next_frame cout now s)"

text \<open>The end of a turn: the screen is offered to a client that is there, and the child is asked after.\<close>

definition end_turn ::
  "screen_diff codec \<Rightarrow> 'e turn_env \<Rightarrow> instant \<Rightarrow> bool \<Rightarrow> host_turn \<Rightarrow> ('t, 'p, 'h, 'l) host_session
    \<Rightarrow> host_turn \<times> ('t, 'p, 'h, 'l) host_session" where
  "end_turn cout env now here tn s =
    (let (f, s1) = (if here then host_offer cout (te_pacing env) now s else (None, s));
         (ex, term) = (case hs_term s1 of
             None \<Rightarrow> (None, None)
           | Some h \<Rightarrow> (let (e, h') = child_exited (te_exit env) h in (e, Some h')))
     in (tn\<lparr>tn_sent := f, tn_detached := \<not> here, tn_exited := ex\<rparr>, s1\<lparr>hs_term := term\<rparr>))"

text \<open>\<open>frames\<close> is what the caller took off the link, then what \<open>try_recv\<close> gives until it has none.\<close>

definition turn_at ::
  "('t, 'p, 'h, 'op) emulator \<Rightarrow> input_diff codec \<Rightarrow> screen_diff codec \<Rightarrow> instant \<Rightarrow> 'e turn_env \<Rightarrow> frame list
    \<Rightarrow> ('t, 'p, 'h, 'l) host_session \<Rightarrow> 'e host_error + host_turn \<times> ('t, 'p, 'h, 'l) host_session" where
  "turn_at em cin cout now env frames s0 =
    and_then (fold_res (host_frame cin env now) frames (turn_default, s0)) (\<lambda>(tn, s1).
    and_then (follow_size em env (note_delivered s1)) (\<lambda>s2.
    and_then (host_poll em env (host_attached env now s2) s2) (\<lambda>s3.
    Inr (end_turn cout env now (host_attached env now s2) tn s3))))"

section \<open>Attaching\<close>

definition adopt_as ::
  "('t, 'p, 'h, 'op) emulator \<Rightarrow> 'l \<Rightarrow> term_size \<Rightarrow> host_reason \<Rightarrow> instant \<Rightarrow> ('e + unit) \<Rightarrow> ('t, 'p, 'h, 'l) host_session
    \<Rightarrow> 'e host_error + ('t, 'p, 'h, 'l) host_session \<times> ('l \<times> host_reason) list" where
  "adopt_as em link sz why now pty s =
    and_then (hs_resize em sz pty (s\<lparr>hs_link := link\<rparr>)) (\<lambda>s1.
    and_then (case hs_term s1 of
        None \<Rightarrow> and_then (map_err BadSize (lobby_screen (hs_size s1) (sender_current (hs_screen_tx s1)))) (\<lambda>l. Inr (Some l))
      | Some _ \<Rightarrow> Inr None) (\<lambda>lob.
    and_then (map_err BadSize (blank (ts_rows (hs_size s1)) (ts_cols (hs_size s1)))) (\<lambda>b.
    (let tx = sender_new b;
         tx = (case lob of Some l \<Rightarrow> sender_update screen_ops tx l | None \<Rightarrow> tx)
     in Inr (s1\<lparr>hs_screen_tx := tx, hs_input_rx := receiver_new (empty_input sz), hs_written := 0,
                hs_last_send := None, hs_screen_stale := True, hs_last_heard := now,
                hs_presence := Some (link, now)\<rparr>,
             [(hs_link s, why)])))))"

definition on_attached ::
  "('t, 'p, 'h, 'op) emulator \<Rightarrow> role \<Rightarrow> 'l \<Rightarrow> term_size \<Rightarrow> instant \<Rightarrow> ('e + unit) \<Rightarrow> 'l option
    \<Rightarrow> ('t, 'p, 'h, 'l) host_session
    \<Rightarrow> 'e host_error + ('t, 'p, 'h, 'l) host_session \<times> 'l option \<times> ('l \<times> host_reason) list" where
  "on_attached em rl link sz now pty standby s =
    (case rl of
       RolePrimary \<Rightarrow>
         (let gone = (case standby of Some old \<Rightarrow> [(old, RTakenOver)] | None \<Rightarrow> [])
          in and_then (adopt_as em link sz RTakenOver now pty s) (\<lambda>(s1, closes). Inr (s1, None, gone @ closes)))
     | RoleStandby \<Rightarrow>
         Inr (s, Some link, case standby of Some old \<Rightarrow> [(old, RSuperseded)] | None \<Rightarrow> []))"

definition promote_standby ::
  "('t, 'p, 'h, 'op) emulator \<Rightarrow> input_diff codec \<Rightarrow> screen_diff codec \<Rightarrow> instant \<Rightarrow> 'e turn_env \<Rightarrow> 'l \<Rightarrow> frame
    \<Rightarrow> frame list \<Rightarrow> ('t, 'p, 'h, 'l) host_session
    \<Rightarrow> 'e host_error + host_turn \<times> ('t, 'p, 'h, 'l) host_session \<times> ('l \<times> host_reason) list" where
  "promote_standby em cin cout now env link first waiting s =
    and_then (adopt_as em link (hs_size s) RSwitched now (te_resize env) s) (\<lambda>(s1, closes).
    and_then (turn_at em cin cout now env (first # waiting) s1) (\<lambda>(tn, s2). Inr (tn, s2, closes)))"

definition host_preview :: "('t, 'p, 'h, 'op) emulator \<Rightarrow> ('t, 'p, 'h, 'l) host_session \<Rightarrow> ustr + screen_state" where
  "host_preview em s =
    (case hs_term s of
       Some h \<Rightarrow> Inr (window (picture em 1 h) PREVIEW_MAX)
     | None \<Rightarrow> Inl (str_of ''this session has no shell''))"

text \<open>The last screen of a shell that exited; a poll that fails is as one that brought nothing.\<close>

definition host_finish ::
  "('t, 'p, 'h, 'op) emulator \<Rightarrow> screen_diff codec \<Rightarrow> instant \<Rightarrow> 'e turn_env \<Rightarrow> ('t, 'p, 'h, 'l) host_session
    \<Rightarrow> frame option \<times> ('t, 'p, 'h, 'l) host_session" where
  "host_finish em cout now env s =
    (let s1 = (case hs_term s of
           None \<Rightarrow> s
         | Some h \<Rightarrow>
             (case poll em (te_reads env) h of
                (Inr True, h1, _) \<Rightarrow>
                  (let (snap, h2) = snapshot em 1 h1
                   in s\<lparr>hs_term := Some h2, hs_screen_tx := sender_update screen_ops (hs_screen_tx s) snap\<rparr>)
              | (_, h1, _) \<Rightarrow> s\<lparr>hs_term := Some h1\<rparr>))
     in host_offer cout (te_pacing env) now (s1\<lparr>hs_last_send := None\<rparr>))"

section \<open>Killing the shell\<close>

record shell_kill =
  sk_since :: instant
  sk_grace :: duration
  sk_killed :: bool

definition kill_begin ::
  "instant \<Rightarrow> duration \<Rightarrow> int option \<Rightarrow> ('t, 'p, 'h) host_term \<Rightarrow> shell_kill \<times> ('t, 'p, 'h) host_term \<times> pty_signal list" where
  "kill_begin now grace pty h =
    (let (e, h') = child_exited pty h
     in (\<lparr>sk_since = now, sk_grace = grace, sk_killed = False\<rparr>, h', if e = None then hang_up h' else []))"

definition kill_step ::
  "instant \<Rightarrow> int option \<Rightarrow> shell_kill \<Rightarrow> ('t, 'p, 'h) host_term
    \<Rightarrow> int option \<times> shell_kill \<times> ('t, 'p, 'h) host_term \<times> pty_signal list" where
  "kill_step now pty k h =
    (let (e, h') = child_exited pty h
     in case e of
          Some code \<Rightarrow> (Some code, k, h', [])
        | None \<Rightarrow>
            (let waited = duration_since now (sk_since k);
                 kill = \<not> sk_killed k \<and> waited \<ge> sk_grace k;
                 k' = (if kill then k\<lparr>sk_killed := True\<rparr> else k)
             in (if sk_killed k' \<and> waited \<ge> sk_grace k + REAP_AFTER_KILL then Some (- 1) else None,
                 k', h', if kill then kill_group h' else [])))"

section \<open>What a session publishes may follow what it published\<close>

definition behind :: "screen_state \<Rightarrow> ('t, 'p, 'h) host_term \<Rightarrow> bool" where
  "behind cur h \<longleftrightarrow> scr_bell cur \<le> ht_bell h \<and> scr_scrollback_len cur \<le> ht_scrollback_len h
    \<and> cb_serial (scr_clipboard cur) \<le> cb_serial (ht_clipboard h)"

definition session_ok :: "('t, 'p, 'h, 'op) emulator \<Rightarrow> ('t, 'p, 'h, 'l) host_session \<Rightarrow> bool" where
  "session_ok em s \<longleftrightarrow> check_bounds (hs_size s) = Inr () \<and> screen_wf (sender_current (hs_screen_tx s))
    \<and> (case hs_term s of None \<Rightarrow> True | Some h \<Rightarrow> host_ok em h \<and> behind (sender_current (hs_screen_tx s)) h)"

text \<open>At most one screen was published, and it may follow the current one.\<close>

definition republished :: "screen_state sender \<Rightarrow> screen_state sender \<Rightarrow> bool" where
  "republished t t' \<longleftrightarrow> t' = t \<or> (\<exists>n. publishes (sender_current t) n \<and> t' = sender_update screen_ops t n)"

lemma behind_keeps: "behind cur h \<Longrightarrow> keeps em h h' \<Longrightarrow> behind cur h'"
  by (auto simp: behind_def keeps_def counts_on_def)

lemma blank_wf:
  assumes "blank rows cols = Inr b"
  shows "screen_wf b" "b = blank_state rows cols" "check_bounds \<lparr>ts_cols = cols, ts_rows = rows\<rparr> = Inr ()"
proof -
  have v: "screen_valid b" and e: "b = blank_state rows cols"
    and c: "check_bounds \<lparr>ts_cols = cols, ts_rows = rows\<rparr> = Inr ()"
    using assms by (auto simp: blank_def and_then_Inr_iff validate_ok_iff)
  show "b = blank_state rows cols" "check_bounds \<lparr>ts_cols = cols, ts_rows = rows\<rparr> = Inr ()" by (fact e c)+
  have "scr_links b = []" by (simp add: e blank_state_def)
  with v show "screen_wf b" by (simp add: screen_wf_def)
qed

lemma lobby_screen_wf:
  assumes "lobby_screen sz prior = Inr b"
  shows "screen_wf b" "monotone_from prior b" "monotone_from b prior" "check_bounds sz = Inr ()"
proof -
  obtain b0 where b0: "blank (ts_rows sz) (ts_cols sz) = Inr b0"
    and b: "b = b0\<lparr>scr_bell := scr_bell prior, scr_scrollback_len := scr_scrollback_len prior,
      scr_clipboard := without_text (scr_clipboard prior)\<rparr>"
    using assms by (auto simp: lobby_screen_def and_then_Inr_iff)
  note w = blank_wf(1,3) [OF b0]
  show "screen_wf b"
    using w(1) by (simp add: b screen_wf_def screen_valid_def cursor_on_screen_def without_text_def check_clipboard_def)
  show "monotone_from prior b" "monotone_from b prior"
    by (simp_all add: b monotone_from_def without_text_def)
  show "check_bounds sz = Inr ()" using w(2) by (cases sz) simp
qed

lemma current_update: "sender_current (sender_update screen_ops t n) = n\<lparr>scr_seq := sat_add (scr_seq (sender_current t)) 1\<rparr>"
  by (simp add: sender_update_current screen_ops_def)

lemma sat_add_1_nonzero: "sat_add a 1 \<noteq> (0 :: u64)"
  using unat_sat_add [of a 1] by (auto simp: unat_eq_zero [symmetric])

lemma current_update_wf: "screen_wf n \<Longrightarrow> screen_wf (sender_current (sender_update screen_ops t n))"
  by (simp add: current_update screen_wf_def screen_valid_def cursor_on_screen_def sat_add_1_nonzero)

lemma behind_seq [simp]: "behind (n\<lparr>scr_seq := i\<rparr>) h = behind n h"
  by (simp add: behind_def)

lemma on_ack_current [simp]: "sender_current (on_ack t a) = sender_current t"
  by (simp add: on_ack_def sender_current_def)

lemma republished_publish: "publishes (sender_current t) n \<Longrightarrow> republished t (sender_update screen_ops t n)"
  by (auto simp: republished_def)

lemma republished_same [simp]: "republished t t"
  by (simp add: republished_def)

lemma snapshot_follows:
  assumes "host_ok em h" and "behind cur h" and "snapshot em 1 h = (n, h')"
  shows "publishes cur n" "host_ok em h'" "behind n h'"
proof -
  have n: "screen_wf n" using snapshot_wf [OF assms(1,3)] by simp
  note k = keeps_snapshot [OF assms(3)] and c = snapshot_counters [OF assms(3)]
  show "publishes cur n" using n c assms(2) by (simp add: publishes_def monotone_from_def behind_def)
  show "host_ok em h'" using k assms(1) by (simp add: keeps_def)
  show "behind n h'" using k c by (simp add: behind_def keeps_def counts_on_def)
qed

lemma hs_resize_ok:
  assumes "hs_resize em sz pty s = Inr s'" and "session_ok em s"
  shows "session_ok em s' \<and> hs_input_rx s' = hs_input_rx s \<and> hs_written s' = hs_written s
    \<and> (if hs_term s = None then hs_term s' = None \<and> republished (hs_screen_tx s) (hs_screen_tx s')
       else hs_term s' \<noteq> None \<and> hs_screen_tx s' = hs_screen_tx s) \<and> hs_size s' = sz"
proof (cases "sz = hs_size s")
  case True
  with assms show ?thesis by (auto simp: hs_resize_def)
next
  case False
  show ?thesis
  proof (cases "hs_term s")
    case None
    with assms(1) False obtain b where b: "lobby_screen sz (sender_current (hs_screen_tx s)) = Inr b"
      and s': "s' = s\<lparr>hs_screen_tx := sender_update screen_ops (hs_screen_tx s) b, hs_size := sz\<rparr>"
      by (auto simp: hs_resize_def split: sum.splits)
    note l = lobby_screen_wf [OF b]
    have "republished (hs_screen_tx s) (sender_update screen_ops (hs_screen_tx s) b)"
      using l by (intro republished_publish) (simp add: publishes_def)
    then show ?thesis using l None current_update_wf [OF l(1)] by (simp add: s' session_ok_def)
  next
    case (Some h)
    with assms(1) False obtain h' where h': "host_resize em sz pty h = (Inr (), h')"
      and s': "s' = s\<lparr>hs_term := Some h', hs_size := sz\<rparr>"
      by (auto simp: hs_resize_def split: sum.splits prod.splits)
    have "check_bounds sz = Inr ()"
      using h' by (auto simp: host_resize_def grid_size_new_def and_then_Inr_iff split: sum.splits)
    moreover have "host_ok em h'" "behind (sender_current (hs_screen_tx s)) h'"
      using keeps_host_resize [OF h'] assms(2) Some behind_keeps [of _ h em h']
      by (auto simp: session_ok_def keeps_def)
    ultimately show ?thesis using assms(2) Some by (simp add: s' session_ok_def)
  qed
qed

lemma follow_size_ok:
  assumes "follow_size em env s = Inr s'" and "session_ok em s"
  shows "session_ok em s' \<and> hs_input_rx s' = hs_input_rx s \<and> hs_written s' = hs_written s
    \<and> (if hs_term s = None then hs_term s' = None \<and> republished (hs_screen_tx s) (hs_screen_tx s')
       else hs_term s' \<noteq> None \<and> hs_screen_tx s' = hs_screen_tx s)"
  using assms hs_resize_ok [of em _ "te_resize env" s s']
  by (auto simp: follow_size_def Let_def split: if_splits)

lemma note_delivered_ok:
  assumes "session_ok em s"
  shows "session_ok em (note_delivered s) \<and> hs_input_rx (note_delivered s) = hs_input_rx s
    \<and> hs_screen_tx (note_delivered s) = on_ack (hs_screen_tx s) (rcv_peer_ack (hs_input_rx s))
    \<and> (hs_term (note_delivered s) = None \<longleftrightarrow> hs_term s = None) \<and> hs_written (note_delivered s) = hs_written s"
proof -
  have "host_ok em h' \<and> behind (sender_current (hs_screen_tx s)) h'"
    if "hs_term s = Some h" "clipboard_delivered n h = (g, h')" for h n g h'
    using that assms keeps_delivered [OF that(2), of em] behind_keeps [of _ h em h']
    by (auto simp: session_ok_def keeps_def)
  then show ?thesis
    using assms
    by (auto simp: note_delivered_def session_ok_def Let_def split: option.splits prod.splits)
qed

lemma host_poll_ok:
  assumes "host_poll em env here s = Inr s'" and "session_ok em s"
  shows "session_ok em s' \<and> hs_input_rx s' = hs_input_rx s \<and> hs_written s' = hs_written s
    \<and> (if hs_term s = None then s' = s else hs_term s' \<noteq> None \<and> republished (hs_screen_tx s) (hs_screen_tx s'))"
proof (cases "hs_term s")
  case None
  with assms show ?thesis by (simp add: host_poll_def)
next
  case (Some h)
  obtain moved h1 rep where p: "poll em (te_reads env) h = (Inr moved, h1, rep)"
    using assms(1) Some by (auto simp: host_poll_def split: prod.splits sum.splits)
  have h1: "host_ok em h1" "behind (sender_current (hs_screen_tx s)) h1"
    using keeps_poll [OF p] assms(2) Some behind_keeps [of _ h em h1] by (auto simp: session_ok_def keeps_def)
  obtain n h2 where n: "snapshot em 1 h1 = (n, h2)" by fastforce
  note f = snapshot_follows [OF h1 n]
  have w: "screen_wf n" using f(1) by (simp add: publishes_def)
  show ?thesis
    using assms Some p n h1 f republished_publish [OF f(1)] current_update_wf [OF w, of "hs_screen_tx s"]
    by (auto simp: host_poll_def session_ok_def current_update split: if_splits)
qed

section \<open>What a turn does to its channels\<close>

text \<open>What a drain keeps, and what it writes: the part of the pending input past \<open>hs_written\<close>, to a shell.\<close>

lemma drain_input_ok:
  assumes "drain_input w s = Inr (bs, s')"
  shows "hs_screen_tx s' = hs_screen_tx s" "hs_term s' = hs_term s" "hs_input_rx s' = hs_input_rx s" "hs_size s' = hs_size s"
    "hs_written s \<le> length (in_pending (rcv_state (hs_input_rx s))) \<Longrightarrow>
      hs_written s' = length (in_pending (rcv_state (hs_input_rx s)))
      \<and> bs = (if hs_term s = None then [] else drop (hs_written s) (in_pending (rcv_state (hs_input_rx s))))"
  using assms by (auto simp: drain_input_def Let_def split: if_splits option.splits)

lemma host_frame_cases:
  assumes "host_frame cin env now f (tn, s) = Inr (tn', s')"
  obtains (refused) e rx where "on_frame input_ops cin (hs_input_rx s) f = (Inl e, rx)"
      "s' = s\<lparr>hs_last_heard := now, hs_presence := Some (hs_link s, now), hs_input_rx := rx\<rparr>"
      "tn' = tn\<lparr>tn_rejected := tn_rejected tn + 1\<rparr>"
  | (stale) rx where "on_frame input_ops cin (hs_input_rx s) f = (Inr False, rx)"
      "s' = s\<lparr>hs_last_heard := now, hs_presence := Some (hs_link s, now), hs_input_rx := rx\<rparr>" "tn' = tn"
  | (applied) rx bs where "on_frame input_ops cin (hs_input_rx s) f = (Inr True, rx)"
      "drain_input (te_write env) (s\<lparr>hs_last_heard := now, hs_presence := Some (hs_link s, now), hs_input_rx := rx\<rparr>) = Inr (bs, s')"
      "tn' = tn\<lparr>tn_applied := tn_applied tn + 1, tn_shell := tn_shell tn @ bs\<rparr>"
proof -
  obtain r rx where o: "on_frame input_ops cin (hs_input_rx s) f = (r, rx)" by fastforce
  consider (e) e where "r = Inl e" | (n) "r = Inr False" | (y) "r = Inr True"
    using sum.exhaust [of r] by (metis (full_types))
  then show thesis
  proof cases
    case e
    with o assms refused show thesis by (simp add: host_frame_def Let_def)
  next
    case n
    with o assms stale show thesis by (simp add: host_frame_def Let_def)
  next
    case y
    with o assms applied show thesis by (auto simp: host_frame_def Let_def and_then_Inr_iff)
  qed
qed

lemma host_frame_ok:
  assumes "host_frame cin env now f (tn, s) = Inr (tn', s')"
  shows "hs_screen_tx s' = hs_screen_tx s" "hs_term s' = hs_term s" "hs_size s' = hs_size s"
    "hs_input_rx s' = snd (on_frame input_ops cin (hs_input_rx s) f)" "tn_sent tn' = tn_sent tn"
  using assms by (cases rule: host_frame_cases; simp add: drain_input_ok)+

lemma host_frames_ok:
  assumes "fold_res (host_frame cin env now) fs (tn, s) = Inr (tn', s')"
  shows "hs_screen_tx s' = hs_screen_tx s \<and> hs_term s' = hs_term s \<and> hs_size s' = hs_size s
    \<and> hs_input_rx s' = receive_all cin input_ops fs (hs_input_rx s) \<and> tn_sent tn' = tn_sent tn"
  using assms
proof (induction fs arbitrary: tn s)
  case Nil
  then show ?case by (simp add: receive_all_def)
next
  case (Cons f fs)
  obtain tn1 s1 where 1: "host_frame cin env now f (tn, s) = Inr (tn1, s1)"
    "fold_res (host_frame cin env now) fs (tn1, s1) = Inr (tn', s')"
    using Cons.prems by (auto simp: and_then_Inr_iff)
  show ?case using Cons.IH [OF 1(2)] host_frame_ok [OF 1(1)] by (simp add: receive_all_def)
qed

lemma host_offer_ok:
  assumes "host_offer cout pacing now s = (f, s')"
    and "snd_peer_saw (hs_screen_tx s) \<ge> rcv_peer_ack (hs_input_rx s)"
  shows "hs_term s' = hs_term s \<and> hs_input_rx s' = hs_input_rx s \<and> hs_size s' = hs_size s \<and> hs_written s' = hs_written s
    \<and> (case f of
         None \<Rightarrow> hs_screen_tx s' = hs_screen_tx s
       | Some fr \<Rightarrow> make_frame screen_ops cout (hs_screen_tx s) (rcv_ack input_ops (hs_input_rx s))
           = Inr (Some fr, hs_screen_tx s'))"
proof -
  have same: "on_ack (hs_screen_tx s) (rcv_peer_ack (hs_input_rx s)) = hs_screen_tx s"
    using assms(2) by (simp add: on_ack_def max_def)
  have none: "t = hs_screen_tx s" if "make_frame screen_ops cout (hs_screen_tx s) a = Inr (None, t)" for a t
    using that by (auto simp: make_frame_def Let_def and_then_Inr_iff split: if_splits)
  show ?thesis
    using assms(1) none
    by (auto simp: host_offer_def next_frame_def same Let_def split: if_splits sum.splits prod.splits option.splits)
qed

lemma make_frame_current:
  "make_frame screen_ops cout t a = Inr (fo, t') \<Longrightarrow> sender_current t' = sender_current t"
  by (auto simp: make_frame_def Let_def and_then_Inr_iff sender_current_def split: if_splits)

lemma republished_peer_saw: "republished t t' \<Longrightarrow> snd_peer_saw t' = snd_peer_saw t"
  by (auto simp: republished_def sender_update_def Let_def)

lemma turn_channels:
  assumes "turn_at em cin cout now env fs s = Inr (tn, s')" and "session_ok em s"
  obtains tx where "hs_input_rx s' = receive_all cin input_ops fs (hs_input_rx s)"
    "republished (on_ack (hs_screen_tx s) (rcv_peer_ack (hs_input_rx s'))) tx"
    "case tn_sent tn of None \<Rightarrow> hs_screen_tx s' = tx
      | Some f \<Rightarrow> make_frame screen_ops cout tx (rcv_ack input_ops (hs_input_rx s')) = Inr (Some f, hs_screen_tx s')"
    "session_ok em s'" "hs_term s' = None \<longleftrightarrow> hs_term s = None"
proof -
  obtain tn1 s1 s2 s3 where
    1: "fold_res (host_frame cin env now) fs (turn_default, s) = Inr (tn1, s1)" and
    2: "follow_size em env (note_delivered s1) = Inr s2" and
    3: "host_poll em env (host_attached env now s2) s2 = Inr s3" and
    4: "end_turn cout env now (host_attached env now s2) tn1 s3 = (tn, s')"
    using assms(1) by (auto simp: turn_at_def and_then_Inr_iff)
  note f1 = host_frames_ok [OF 1]
  have ok1: "session_ok em s1" using f1 assms(2) by (auto simp: session_ok_def split: option.splits)
  note d = note_delivered_ok [OF ok1]
  note f2 = follow_size_ok [OF 2 d [THEN conjunct1]]
  note f3 = host_poll_ok [OF 3 f2 [THEN conjunct1]]
  let ?p = "rcv_peer_ack (hs_input_rx s1)"
  have rx: "hs_input_rx s3 = hs_input_rx s1" using d f2 f3 by simp
  have rep: "republished (on_ack (hs_screen_tx s) ?p) (hs_screen_tx s3)"
    using f1 d f2 f3 by (cases "hs_term s1 = None") (auto split: if_splits)
  have saw: "snd_peer_saw (hs_screen_tx s3) \<ge> rcv_peer_ack (hs_input_rx s3)"
    using republished_peer_saw [OF rep] by (simp add: rx on_ack_def)
  have term3: "hs_term s3 = None \<longleftrightarrow> hs_term s = None"
    using f1 d f2 f3 by (auto split: if_splits)
  obtain fo s4 where o: "(if host_attached env now s2 then host_offer cout (te_pacing env) now s3 else (None, s3)) = (fo, s4)"
    by fastforce
  have s4: "hs_term s4 = hs_term s3 \<and> hs_input_rx s4 = hs_input_rx s3 \<and> hs_size s4 = hs_size s3
    \<and> (case fo of None \<Rightarrow> hs_screen_tx s4 = hs_screen_tx s3
       | Some fr \<Rightarrow> make_frame screen_ops cout (hs_screen_tx s3) (rcv_ack input_ops (hs_input_rx s3)) = Inr (Some fr, hs_screen_tx s4))"
    using o host_offer_ok [OF _ saw] by (auto split: if_splits)
  have cur4: "sender_current (hs_screen_tx s4) = sender_current (hs_screen_tx s3)"
    using s4 make_frame_current by (auto split: option.splits)
  obtain ex tm where t: "(case hs_term s4 of None \<Rightarrow> (None, None)
      | Some h \<Rightarrow> (let (e, h') = child_exited (te_exit env) h in (e, Some h'))) = (ex, tm)" by fastforce
  have s': "s' = s4\<lparr>hs_term := tm\<rparr>" and tn: "tn_sent tn = fo"
    using 4 by (auto simp: end_turn_def o t)
  have ok3: "session_ok em s3" using f3 by blast
  have "case tm of None \<Rightarrow> hs_term s3 = None
    | Some h \<Rightarrow> host_ok em h \<and> behind (sender_current (hs_screen_tx s3)) h \<and> hs_term s3 \<noteq> None"
    using t s4 ok3
    by (auto simp: session_ok_def keeps_def split: option.splits prod.splits
        dest: keeps_child_exited [where em = em] behind_keeps [OF _ keeps_child_exited [where em = em]])
  then have "session_ok em s'" "hs_term s' = None \<longleftrightarrow> hs_term s = None"
    using ok3 s4 cur4 term3 by (auto simp: s' session_ok_def split: option.splits)
  moreover have "case tn_sent tn of None \<Rightarrow> hs_screen_tx s' = hs_screen_tx s3
      | Some f \<Rightarrow> make_frame screen_ops cout (hs_screen_tx s3) (rcv_ack input_ops (hs_input_rx s')) = Inr (Some f, hs_screen_tx s')"
    using s4 tn by (cases fo) (simp_all add: s')
  moreover have "hs_input_rx s' = hs_input_rx s1" using s4 rx by (simp add: s')
  ultimately show ?thesis
    using f1 rep by (intro that [of "hs_screen_tx s3"]) simp_all
qed

lemma start_shell_ok:
  assumes "start_shell em pty s = (r, s')" and "session_ok em s"
  shows "session_ok em s' \<and> hs_screen_tx s' = hs_screen_tx s \<and> hs_input_rx s' = hs_input_rx s"
proof (cases "spawn_with em (hs_size s) (hs_scrollback s) pty")
  case (Inl e)
  with assms show ?thesis by (simp add: start_shell_def)
next
  case (Inr h)
  have "host_ok em (count_on_from p h)" for p
    using keeps_count_on_from [of em h p] spawn_ok [OF Inr] by (simp add: keeps_def)
  moreover have "behind p (count_on_from p h)" for p
    by (auto simp: behind_def count_on_from_def without_text_def not_less)
  ultimately show ?thesis using assms Inr by (auto simp: start_shell_def session_ok_def)
qed

lemma become_lobby_ok:
  assumes "become_lobby em s = Inr s'" and "session_ok em s"
  shows "session_ok em s' \<and> republished (hs_screen_tx s) (hs_screen_tx s') \<and> hs_input_rx s' = hs_input_rx s
    \<and> hs_term s' = None"
proof -
  let ?p = "case hs_term s of Some h \<Rightarrow> fst (snapshot em 1 h) | None \<Rightarrow> sender_current (hs_screen_tx s)"
  obtain b where b: "lobby_screen (hs_size s) ?p = Inr b"
    and s': "s' = s\<lparr>hs_term := None, hs_screen_tx := sender_update screen_ops (hs_screen_tx s) b, hs_screen_stale := False\<rparr>"
    using assms(1) by (auto simp: become_lobby_def Let_def and_then_Inr_iff)
  note l = lobby_screen_wf [OF b]
  have "monotone_from (sender_current (hs_screen_tx s)) ?p"
  proof (cases "hs_term s")
    case (Some h)
    then have "host_ok em h" "behind (sender_current (hs_screen_tx s)) h" using assms(2) by (simp_all add: session_ok_def)
    from snapshot_follows(1) [OF this prod.collapse [symmetric]] show ?thesis by (simp add: Some publishes_def)
  qed (simp add: monotone_from_def)
  with l have "publishes (sender_current (hs_screen_tx s)) b"
    by (auto simp: publishes_def monotone_from_def intro: order.trans)
  then show ?thesis
    using assms(2) current_update_wf [OF l(1)] by (simp add: s' session_ok_def republished_publish)
qed

lemma lobby_ok:
  assumes "lobby sz history link now = Inr s"
  shows "session_ok em s" "hs_screen_tx s = sender_new (blank_state (ts_rows sz) (ts_cols sz))"
    "hs_input_rx s = receiver_new (empty_input sz)" "hs_written s = 0" "hs_term s = None"
proof -
  obtain b where b: "blank (ts_rows sz) (ts_cols sz) = Inr b"
    and s: "s = \<lparr>hs_term = None, hs_scrollback = history, hs_screen_tx = sender_new b,
         hs_input_rx = receiver_new (empty_input sz), hs_link = link, hs_size = sz, hs_last_send = None,
         hs_written = 0, hs_screen_stale = False, hs_last_heard = now, hs_presence = None,
         hs_detach_after = DETACH_AFTER\<rparr>"
    using assms by (auto simp: lobby_def and_then_Inr_iff)
  have w: "screen_wf b" "check_bounds sz = Inr ()" using blank_wf(1,3) [OF b] by (cases sz; simp)+
  note e = blank_wf(2) [OF b]
  from w show "session_ok em s" "hs_screen_tx s = sender_new (blank_state (ts_rows sz) (ts_cols sz))"
    "hs_input_rx s = receiver_new (empty_input sz)" "hs_written s = 0" "hs_term s = None"
    by (simp_all add: s session_ok_def sender_new_def sender_current_def) (simp add: e)
qed

lemma map_err_Inr_iff: "map_err f r = Inr x \<longleftrightarrow> r = Inr x"
  by (cases r) (simp_all add: map_err_def)

lemma behind_blank: "behind (blank_state rows cols) h"
  by (simp add: behind_def blank_state_def clipboard_default_def)

text \<open>An attach starts both channels over: a blank screen, which a lobby follows with its own, and no input.\<close>

lemma adopt_as_ok:
  assumes "adopt_as em link sz why now pty s = Inr (s', closes)" and "session_ok em s"
  shows "session_ok em s'" "republished (sender_new (blank_state (ts_rows sz) (ts_cols sz))) (hs_screen_tx s')"
    "hs_input_rx s' = receiver_new (empty_input sz)" "hs_written s' = 0" "closes = [(hs_link s, why)]"
    "hs_term s' = None \<longleftrightarrow> hs_term s = None"
proof -
  obtain s1 where 1: "hs_resize em sz pty (s\<lparr>hs_link := link\<rparr>) = Inr s1"
    using assms(1) by (cases "hs_resize em sz pty (s\<lparr>hs_link := link\<rparr>)") (simp_all add: adopt_as_def)
  define fresh where "fresh tx = s1\<lparr>hs_screen_tx := tx, hs_input_rx := receiver_new (empty_input sz), hs_written := 0,
    hs_last_send := None, hs_screen_stale := True, hs_last_heard := now, hs_presence := Some (link, now)\<rparr>" for tx
  have "\<exists>lob b. (case hs_term s1 of
        None \<Rightarrow> \<exists>l. lob = Some l \<and> lobby_screen (hs_size s1) (sender_current (hs_screen_tx s1)) = Inr l
      | Some _ \<Rightarrow> lob = None) \<and> blank (ts_rows (hs_size s1)) (ts_cols (hs_size s1)) = Inr b
    \<and> s' = fresh (case lob of Some l \<Rightarrow> sender_update screen_ops (sender_new b) l | None \<Rightarrow> sender_new b)
    \<and> closes = [(hs_link s, why)]"
  proof (cases "hs_term s1")
    case None
    with assms(1) obtain l b where "lobby_screen (hs_size s1) (sender_current (hs_screen_tx s1)) = Inr l"
      "blank (ts_rows (hs_size s1)) (ts_cols (hs_size s1)) = Inr b"
      "s' = fresh (sender_update screen_ops (sender_new b) l)" "closes = [(hs_link s, why)]"
      by (auto simp: adopt_as_def 1 and_then_Inr_iff map_err_Inr_iff fresh_def Let_def)
    then show ?thesis using None by (intro exI [of _ "Some l"] exI [of _ b]) simp
  next
    case (Some h)
    with assms(1) obtain b where "blank (ts_rows (hs_size s1)) (ts_cols (hs_size s1)) = Inr b"
      "s' = fresh (sender_new b)" "closes = [(hs_link s, why)]"
      by (auto simp: adopt_as_def 1 and_then_Inr_iff map_err_Inr_iff fresh_def Let_def)
    then show ?thesis using Some by (intro exI [of _ None] exI [of _ b]) simp
  qed
  then obtain lob b where lob: "case hs_term s1 of
        None \<Rightarrow> \<exists>l. lob = Some l \<and> lobby_screen (hs_size s1) (sender_current (hs_screen_tx s1)) = Inr l
      | Some _ \<Rightarrow> lob = None"
    and b: "blank (ts_rows (hs_size s1)) (ts_cols (hs_size s1)) = Inr b"
    and s': "s' = fresh (case lob of Some l \<Rightarrow> sender_update screen_ops (sender_new b) l | None \<Rightarrow> sender_new b)"
    and closes: "closes = [(hs_link s, why)]"
    by blast
  have "session_ok em (s\<lparr>hs_link := link\<rparr>)" using assms(2) by (auto simp: session_ok_def split: option.splits)
  note r = hs_resize_ok [OF 1 this]
  have size: "hs_size s1 = sz" using r by blast
  note bw = blank_wf(1) [OF b] and be = blank_wf(2) [OF b, unfolded size]
  have cur: "sender_current (sender_new b) = b" by (simp add: sender_new_def sender_current_def)
  have pub: "screen_wf l \<and> publishes b l" if "lob = Some l" for l
  proof -
    from that lob have "lobby_screen (hs_size s1) (sender_current (hs_screen_tx s1)) = Inr l"
      by (auto split: option.splits)
    from lobby_screen_wf(1) [OF this] show ?thesis
      by (simp add: publishes_def monotone_from_def be blank_state_def clipboard_default_def)
  qed
  show "closes = [(hs_link s, why)]" "hs_written s' = 0" "hs_input_rx s' = receiver_new (empty_input sz)"
    by (simp_all add: closes s' fresh_def)
  show "hs_term s' = None \<longleftrightarrow> hs_term s = None" using r by (auto simp: s' fresh_def split: if_splits)
  show "republished (sender_new (blank_state (ts_rows sz) (ts_cols sz))) (hs_screen_tx s')"
    using pub republished_publish [of "sender_new b"] by (cases lob) (simp_all add: s' fresh_def be [symmetric] cur)
  have "lob = None" if "hs_term s1 = Some h" for h using lob that by simp
  moreover have "case hs_term s1 of None \<Rightarrow> True | Some h \<Rightarrow> host_ok em h"
    using r by (auto simp: session_ok_def split: option.splits)
  ultimately show "session_ok em s'"
    using r pub bw current_update_wf behind_blank
    by (auto simp: s' fresh_def session_ok_def size cur be [symmetric] split: option.splits) (simp_all add: be behind_blank)
qed

section \<open>Errors and bounds\<close>

text \<open>A size that no screen can be built at ends the session when it comes with the client's input, where an
  attach that asks for one is refused before it gets here.\<close>

lemma oversized_window_ends_the_session:
  assumes "in_size (rcv_state (hs_input_rx s)) = sz" and "check_bounds sz = Inl e"
    and "sz \<noteq> hs_size s" and "ts_cols sz > 0" and "ts_rows sz > 0"
  shows "turn_at em cin cout now env [] s = Inl (BadSize e)"
proof -
  have nd: "hs_input_rx (note_delivered s) = hs_input_rx s" "hs_size (note_delivered s) = hs_size s"
    by (auto simp: note_delivered_def Let_def split: option.splits prod.splits)
  have "hs_resize em sz (te_resize env) (note_delivered s) = Inl (BadSize e)"
    using assms(2,3) nd
    by (cases sz) (auto simp: hs_resize_def host_resize_def grid_size_new_def lobby_screen_def blank_def and_then_def
        split: option.splits)
  then have "follow_size em env (note_delivered s) = Inl (BadSize e)"
    using assms nd by (simp add: follow_size_def)
  then show ?thesis by (simp add: turn_at_def and_then_def)
qed

text \<open>A kill is over by the end of the grace and the wait for the reaping.\<close>

lemma kill_is_bounded:
  assumes "duration_since now (sk_since k) \<ge> sk_grace k + REAP_AFTER_KILL"
  shows "fst (kill_step now pty k h) \<noteq> None"
  using assms by (auto simp: kill_step_def Let_def split: prod.splits option.splits)

end
