(* ===== verification/Sync_Duplex.thy ===== *)
theory Sync_Duplex
  imports Sync_Protocol "HOL-Library.Sublist"
begin

text \<open>
  The two directions of a link together. An end sends states of one kind and receives states of another, and
  the acknowledgements of one direction are the \<open>f_ack_state\<close> of the frames of the other. The locale \<open>two_way\<close> has
  two replicated states and shows that everything either end does keeps the invariants of both directions.
  Its instances are the typed input going up and the screen coming down.
\<close>

section \<open>One end\<close>

text \<open>\<open>we_hist\<close> is every state the end has published, for the statements only.\<close>

record ('a, 'b) wire_end =
  we_tx :: "'a sender"
  we_rx :: "'b receiver"
  we_out :: "frame list"
  we_hist :: "'a list"

inductive end_step ::
  "('a, 'd) sync_ops \<Rightarrow> 'd codec \<Rightarrow> ('b, 'e) sync_ops \<Rightarrow> 'e codec \<Rightarrow> ('a \<Rightarrow> 'a \<Rightarrow> bool) \<Rightarrow> frame list
    \<Rightarrow> ('a, 'b) wire_end \<Rightarrow> ('a, 'b) wire_end \<Rightarrow> bool"
  for ops cdc ops' cdc' ok inc where
  publish: "ok (sender_current (we_tx E)) n \<Longrightarrow> so_seq ops (sender_current (we_tx E)) \<noteq> - 1 \<Longrightarrow>
    t = sender_update ops (we_tx E) n \<Longrightarrow>
    end_step ops cdc ops' cdc' ok inc E (E\<lparr>we_tx := t, we_hist := we_hist E @ [sender_current t]\<rparr>)"
| receive: "f \<in> set inc \<Longrightarrow>
    end_step ops cdc ops' cdc' ok inc E (E\<lparr>we_rx := snd (on_frame ops' cdc' (we_rx E) f)\<rparr>)"
| hear: "end_step ops cdc ops' cdc' ok inc E (E\<lparr>we_tx := on_ack (we_tx E) (rcv_peer_ack (we_rx E))\<rparr>)"
| offer: "make_frame ops cdc (we_tx E) (rcv_ack ops' (we_rx E)) = Inr (Some f, t) \<Longrightarrow> frame_fits cdc f \<Longrightarrow>
    end_step ops cdc ops' cdc' ok inc E (E\<lparr>we_tx := t, we_out := f # we_out E\<rparr>)"

text \<open>What one direction looks like from its sender and the far end's receiver.\<close>

definition half :: "('a, 'b) wire_end \<Rightarrow> ('b, 'a) wire_end \<Rightarrow> 'a link_sys" where
  "half E F = \<lparr>ls_sender = we_tx E, ls_receiver = we_rx F, ls_frames = we_out E,
     ls_acks = map f_ack_state (we_out F), ls_hist = we_hist E\<rparr>"

definition heard_ok :: "('a, 'b) wire_end \<Rightarrow> ('b, 'a) wire_end \<Rightarrow> bool" where
  "heard_ok E F \<longleftrightarrow> rcv_peer_ack (we_rx E) = 0 \<or> rcv_peer_ack (we_rx E) \<in> f_ack_state ` set (we_out F)"

lemma half_simps [simp]:
  "ls_sender (half E F) = we_tx E" "ls_receiver (half E F) = we_rx F" "ls_frames (half E F) = we_out E"
  "ls_acks (half E F) = map f_ack_state (we_out F)" "ls_hist (half E F) = we_hist E"
  by (simp_all add: half_def)

lemma half_updates [simp]:
  "half (E\<lparr>we_tx := t\<rparr>) F = (half E F)\<lparr>ls_sender := t\<rparr>" "half F (E\<lparr>we_tx := t\<rparr>) = half F E"
  "half (E\<lparr>we_hist := h\<rparr>) F = (half E F)\<lparr>ls_hist := h\<rparr>" "half F (E\<lparr>we_hist := h\<rparr>) = half F E"
  "half (E\<lparr>we_rx := r\<rparr>) F = half E F" "half F (E\<lparr>we_rx := r\<rparr>) = (half F E)\<lparr>ls_receiver := r\<rparr>"
  "half (E\<lparr>we_out := os\<rparr>) F = (half E F)\<lparr>ls_frames := os\<rparr>"
  "half F (E\<lparr>we_out := os\<rparr>) = (half F E)\<lparr>ls_acks := map f_ack_state os\<rparr>"
  by (simp_all add: half_def)

lemma on_frame_peer_ack:
  "rcv_peer_ack (snd (on_frame ops cdc r f)) = max (rcv_peer_ack r) (f_ack_state f)"
  by (auto simp: on_frame_def commit_def Let_def split: sum.split)

lemma on_ack_0: "on_ack t 0 = t"
  by (simp add: on_ack_def)

section \<open>More of one direction\<close>

context sync_state
begin

text \<open>An accepted frame only moves the receiver on.\<close>

lemma delivery_mono:
  assumes inv: "link_inv cdc r0 S" and f: "f \<in> set (ls_frames S)"
    and on: "on_frame ops cdc (ls_receiver S) f = (Inr b, r)"
  shows "mono (rcv_state (ls_receiver S)) (rcv_state r)"
proof (cases "is_stale ops (ls_receiver S) f")
  case True
  with on show ?thesis by (auto simp: on_frame_def Let_def rcv_state_def mono_refl)
next
  case False
  from frame_applies [OF inv f False] on obtain s where s: "s \<in> set (ls_hist S)" "so_seq ops s = f_my_state f" "rcv_state r = s"
    by (auto simp: commit_state)
  note hist = link_invD(2) [OF inv]
  show ?thesis
  proof (cases "rcv_applied_any (ls_receiver S)")
    case True
    then have "so_seq ops (rcv_state (ls_receiver S)) \<le> so_seq ops s"
      using False s(2) by (simp add: is_stale_def)
    with hist_mono [OF hist receiver_consistent [OF inv True] s(1)] s(3) show ?thesis by simp
  next
    case none: False
    with link_invD(7) [OF inv] have "rcv_state (ls_receiver S) = r0" by (simp add: rcv_ok_def rcv_state_def)
    with hist s show ?thesis by (simp add: hist_ok_def)
  qed
qed

text \<open>The receiver never holds more than the sender published.\<close>

lemma receiver_behind:
  assumes inv: "link_inv cdc r0 S"
  shows "mono (rcv_state (ls_receiver S)) (sender_current (ls_sender S))"
proof -
  note hist = link_invD(2) [OF inv] and cur = sender_current_last [OF inv]
  have last: "last (ls_hist S) \<in> set (ls_hist S)" using hist by (simp add: hist_ok_def)
  show ?thesis
  proof (cases "rcv_applied_any (ls_receiver S)")
    case True
    note mem = receiver_consistent [OF inv True]
    have "so_seq ops (rcv_state (ls_receiver S)) \<le> so_seq ops (last (ls_hist S))"
      using hist_le_last [OF hist mem] by (simp add: word_le_nat_alt)
    with hist_mono [OF hist mem last] cur show ?thesis by simp
  next
    case False
    with link_invD(7) [OF inv] have "rcv_state (ls_receiver S) = r0" by (simp add: rcv_ok_def rcv_state_def)
    with hist last cur show ?thesis by (simp add: hist_ok_def)
  qed
qed

text \<open>A sender whose newest state has been acknowledged has a receiver that holds it.\<close>

lemma acknowledged_means_there:
  assumes inv: "link_inv cdc r0 S" and ack: "so_seq ops (sender_current (ls_sender S)) \<in> set (ls_acks S)"
  shows "rcv_state (ls_receiver S) = sender_current (ls_sender S)"
proof -
  have "sender_current (ls_sender S) \<in> set (ls_hist S)"
    using sender_current_last [OF inv] link_invD(2) [OF inv] by (simp add: hist_ok_def)
  then have "so_seq ops (sender_current (ls_sender S)) \<noteq> 0" by (rule hist_seq_nonzero [OF link_invD(2) [OF inv]])
  with ack link_invD(7) [OF inv] have "rcv_applied_any (ls_receiver S)"
    "so_seq ops (sender_current (ls_sender S)) \<le> so_seq ops (rcv_state (ls_receiver S))"
    by (auto simp: rcv_ok_def split: if_splits)
  then show ?thesis by (rule receiver_at_current [OF inv])
qed

end

section \<open>Both directions\<close>

locale two_way = mine: sync_state ops wf mono + theirs: sync_state ops' wf' mono'
  for ops :: "('a, 'd) sync_ops" and wf mono and ops' :: "('b, 'e) sync_ops" and wf' mono'
begin

definition pair_inv :: "'d codec \<Rightarrow> 'a \<Rightarrow> 'e codec \<Rightarrow> 'b \<Rightarrow> ('a, 'b) wire_end \<Rightarrow> ('b, 'a) wire_end \<Rightarrow> bool" where
  "pair_inv cdc r0 cdc' r0' E F \<longleftrightarrow> mine.link_inv cdc r0 (half E F) \<and> theirs.link_inv cdc' r0' (half F E)
    \<and> heard_ok E F \<and> heard_ok F E"

lemma pair_step:
  assumes "pair_inv cdc r0 cdc' r0' E F" "codec_ok cdc"
    and "end_step ops cdc ops' cdc' (\<lambda>cur next. wf next \<and> mono cur next) (we_out F) E E'"
  shows "pair_inv cdc r0 cdc' r0' E' F"
  using assms(3)
proof (cases rule: end_step.cases)
  case (publish n t)
  with assms(1) mine.step_update [of cdc r0 "half E F" n t] show ?thesis
    by (simp add: pair_inv_def heard_ok_def)
next
  case (receive f)
  with assms(1) theirs.step_deliver [of cdc' r0' "half F E" f] show ?thesis
    by (auto simp: pair_inv_def heard_ok_def on_frame_peer_ack max_def)
next
  case hear
  show ?thesis
  proof (cases "rcv_peer_ack (we_rx E) = 0")
    case True
    with hear have "E' = E" by (simp add: on_ack_0)
    with assms(1) show ?thesis by simp
  next
    case False
    then have "rcv_peer_ack (we_rx E) \<in> set (ls_acks (half E F))"
      using assms(1) by (auto simp: pair_inv_def heard_ok_def)
    then show ?thesis
      using assms(1) mine.step_hear_ack [of cdc r0 "half E F"] by (simp add: pair_inv_def heard_ok_def hear)
  qed
next
  case (offer f t)
  have ack: "f_ack_state f = rcv_ack ops' (we_rx E)"
    by (rule make_frame_SomeD [OF offer(2)]) simp
  from offer assms(1,2) mine.step_send [of cdc r0 "half E F" "rcv_ack ops' (we_rx E)" f t]
    theirs.step_emit_ack [of cdc' r0' "half F E"] show ?thesis
    by (auto simp: pair_inv_def heard_ok_def ack)
qed

lemma pair_steps:
  assumes "(end_step ops cdc ops' cdc' (\<lambda>cur next. wf next \<and> mono cur next) (we_out F))\<^sup>*\<^sup>* E E'"
    and "pair_inv cdc r0 cdc' r0' E F" "codec_ok cdc"
  shows "pair_inv cdc r0 cdc' r0' E' F"
  using assms by (induction rule: rtranclp_induct) (auto intro: pair_step)

lemma pair_init:
  assumes "wf s0" "wf r0" "mono r0 s0" "so_seq ops r0 \<le> so_seq ops s0"
    and "wf' s0'" "wf' r0'" "mono' r0' s0'" "so_seq ops' r0' \<le> so_seq ops' s0'"
  shows "pair_inv cdc r0 cdc' r0' \<lparr>we_tx = sender_new s0, we_rx = receiver_new r0', we_out = [], we_hist = [s0]\<rparr>
    \<lparr>we_tx = sender_new s0', we_rx = receiver_new r0, we_out = [], we_hist = [s0']\<rparr>"
  using mine.link_inv_init [OF assms(1-4)] theirs.link_inv_init [OF assms(5-8)]
  by (simp add: pair_inv_def half_def heard_ok_def link_init_def) (simp add: receiver_new_def)

lemma pair_no_refusal:
  assumes "pair_inv cdc r0 cdc' r0' E F" "f \<in> set (we_out F)"
  obtains b r where "on_frame ops' cdc' (we_rx E) f = (Inr b, r)" "mono' (rcv_state (we_rx E)) (rcv_state r)"
proof -
  have inv: "theirs.link_inv cdc' r0' (half F E)" using assms(1) by (simp add: pair_inv_def)
  obtain x r where o: "on_frame ops' cdc' (we_rx E) f = (x, r)" by fastforce
  have "f \<in> set (ls_frames (half F E))" using assms(2) by simp
  from theirs.delivery [OF inv this] o obtain b where "x = Inr b" by (cases x) auto
  with o theirs.delivery_mono [OF inv, of f b r] assms(2) that show thesis by simp
qed

lemma pair_acknowledged:
  assumes "pair_inv cdc r0 cdc' r0' E F" "rcv_peer_ack (we_rx E) = so_seq ops (sender_current (we_tx E))"
  shows "rcv_state (we_rx F) = sender_current (we_tx E)"
proof -
  have inv: "mine.link_inv cdc r0 (half E F)" and h: "heard_ok E F" using assms(1) by (simp_all add: pair_inv_def)
  have "sender_current (we_tx E) \<in> set (we_hist E)"
    using mine.sender_current_last [OF inv] mine.link_invD(2) [OF inv] by (simp add: mine.hist_ok_def)
  then have "so_seq ops (sender_current (we_tx E)) \<noteq> 0" using mine.hist_seq_nonzero [OF mine.link_invD(2) [OF inv]] by simp
  with h assms(2) have "so_seq ops (sender_current (we_tx E)) \<in> set (ls_acks (half E F))" by (auto simp: heard_ok_def)
  with mine.acknowledged_means_there [OF inv] show ?thesis by simp
qed

lemma pair_behind:
  assumes "pair_inv cdc r0 cdc' r0' E F"
  shows "mono (rcv_state (we_rx F)) (sender_current (we_tx E))"
  using assms mine.receiver_behind [of cdc r0 "half E F"] by (simp add: pair_inv_def)

end

section \<open>The input and the screen\<close>

text \<open>A client only ever appends to what was typed on a link.\<close>

definition typed_on :: "input_state \<Rightarrow> input_state \<Rightarrow> bool" where
  "typed_on a b \<longleftrightarrow> prefix (in_pending a) (in_pending b)"

interpretation typed: sync_state input_ops input_wf typed_on
  by unfold_locales
    (auto simp: input_ops_def input_diff_apply input_full_diff_apply input_validate_def input_wf_def typed_on_def
      intro: prefix_order.trans)

interpretation up: two_way input_ops input_wf typed_on screen_ops screen_wf monotone_from
  by (intro two_way.intro typed.sync_state_axioms screen.sync_state_axioms)

interpretation down: two_way screen_ops screen_wf monotone_from input_ops input_wf typed_on
  by (intro two_way.intro typed.sync_state_axioms screen.sync_state_axioms)

lemma pair_swap: "down.pair_inv cdc r0 cdc' r0' E F \<longleftrightarrow> up.pair_inv cdc' r0' cdc r0 F E"
  by (auto simp: up.pair_inv_def down.pair_inv_def)

end
