(* ===== verification/Session_Link.thy ===== *)
theory Session_Link
  imports Client_Loop Host_Session Sync_Duplex
begin

text \<open>
  A client session and a host session over one link, from the attach to the moment the client moves to
  another link: whatever the client's loop does and whatever turns the host takes, in any order, with frames
  of either side lost, doubled, held back and reordered. The lemmas reduce each method of either session to the steps
  of an end of \<open>Sync_Duplex\<close>; the theorems say what the user gets: what is typed reaches the shell once and in order,
  and no frame of either end is refused.
\<close>

section \<open>What a client does to its wire\<close>

text \<open>The frames among what a client did to the outside.\<close>

definition sent_frames :: "'l effect list \<Rightarrow> frame list" where
  "sent_frames es = concat (map (\<lambda>e. case e of SentFrame f \<Rightarrow> [f] | _ \<Rightarrow> []) es)"

lemma sent_frames_simps [simp]:
  "sent_frames [] = []" "sent_frames (es @ es') = sent_frames es @ sent_frames es'"
  "sent_frames (SentFrame f # es) = f # sent_frames es" "sent_frames (Painted ops # es) = sent_frames es"
  "sent_frames (Wrote bs # es) = sent_frames es" "sent_frames (Logged t # es) = sent_frames es"
  "sent_frames (effect.Closed k r # es) = sent_frames es" "sent_frames (map Logged ts) = []"
  by (simp_all add: sent_frames_def comp_def)

definition wire :: "('l, 'p) client \<Rightarrow> input_state sender \<times> screen_state receiver \<times> frame list \<times> bytes" where
  "wire s = (cls_input_tx s, cls_screen_rx s, sent_frames (cls_out s), ls_held (cls_link_state s))"

text \<open>What leaves the wire and the held input alone.\<close>

lemma wire_emit [simp]: "sent_frames es = [] \<Longrightarrow> wire (emit es s) = wire s"
  by (simp add: wire_def emit_def)

lemma wire_log_with [simp]: "wire (log_with r s) = wire s"
  by (simp add: wire_def log_with_def emit_def)

lemma wire_records [simp]:
  "wire (client_record w k t s) = wire s" "wire (client_detail w k t s) = wire s" "wire (client_shown w k t sh s) = wire s"
  by (simp_all add: client_record_def client_detail_def client_shown_def)

lemma held_ops [simp]:
  "ls_held (heard now l) = ls_held l" "ls_held (sent now l) = ls_held l" "ls_held (snd (evaluate now owed l)) = ls_held l"
  "ls_held (begin_attempt now l) = ls_held l" "ls_held (rebuilt now l) = ls_held l" "ls_held (attempt_failed now l) = ls_held l"
  "ls_held (retune sa ra l) = ls_held l"
  by (auto simp: heard_def sent_def evaluate_def note_owed_def begin_attempt_def rebuilt_def attempt_failed_def retune_def Let_def
      split: phase.split option.split bool.split)

lemma wire_set [simp]:
  "wire (set_ui f s) = wire s" "wire (set_selector h s) = wire s"
  "(\<And>l. ls_held (g l) = ls_held l) \<Longrightarrow> wire (set_link g s) = wire s"
  by (simp_all add: wire_def set_ui_def set_selector_def set_link_def)

lemma wire_field [simp]:
  "wire (s\<lparr>cls_renderer := rd\<rparr>) = wire s" "wire (s\<lparr>cls_size := sz\<rparr>) = wire s" "wire (s\<lparr>cls_last_send := ls\<rparr>) = wire s"
  "wire (s\<lparr>cls_path := pa\<rparr>) = wire s" "wire (s\<lparr>cls_rejected_total := rt\<rparr>) = wire s" "wire (s\<lparr>cls_ui := u\<rparr>) = wire s"
  "wire (s\<lparr>cls_quality := q\<rparr>) = wire s" "wire (s\<lparr>cls_activity := a\<rparr>) = wire s" "wire (s\<lparr>cls_identity := i\<rparr>) = wire s"
  "wire (s\<lparr>cls_route := ro\<rparr>) = wire s" "wire (s\<lparr>cls_probed_at := pr\<rparr>) = wire s" "wire (s\<lparr>cls_rebuild := rb\<rparr>) = wire s"
  "wire (s\<lparr>cls_store := st\<rparr>) = wire s" "wire (s\<lparr>cls_last_failure := lf\<rparr>) = wire s" "wire (s\<lparr>cls_standby := sb\<rparr>) = wire s"
  "wire (s\<lparr>cls_outage := on\<rparr>) = wire s" "wire (s\<lparr>cls_config := c\<rparr>) = wire s" "wire (s\<lparr>cls_config_warned := cw\<rparr>) = wire s"
  "wire (s\<lparr>cls_in_lobby := il\<rparr>) = wire s" "wire (s\<lparr>cls_asking := as\<rparr>) = wire s" "wire (s\<lparr>cls_asked := ad\<rparr>) = wire s"
  "wire (s\<lparr>cls_sessions := ss\<rparr>) = wire s" "wire (s\<lparr>cls_clipboard := cb\<rparr>) = wire s" "wire (s\<lparr>cls_open_selector := os\<rparr>) = wire s"
  "wire (s\<lparr>cls_list_owed := lo\<rparr>) = wire s"
  "ls_held l = ls_held (cls_link_state s) \<Longrightarrow> wire (s\<lparr>cls_link_state := l\<rparr>) = wire s"
  by (simp_all add: wire_def)

lemma wire_ask [simp]: "wire (snd (client_ask a s)) = wire s" "wire (snd (take_ask s)) = wire s" "wire (fetch_list s) = wire s"
  by (auto simp: client_ask_def take_ask_def fetch_list_def Let_def split: option.split)

lemma wire_aim [simp]: "wire (aim_rebuild s) = wire s" "wire (set_session_id sid s) = wire s"
  by (auto simp: aim_rebuild_def set_session_id_def split: option.split)

lemma wire_close_all [simp]: "wire (close_all cs s) = wire s"
  unfolding close_all_def by (rule wire_emit, induction cs) auto

lemma wire_standby [simp]:
  "wire (enable_standby on w s) = wire s" "wire (switch_standby w on s) = wire s" "wire (forget_standby w s) = wire s"
  by (auto simp: enable_standby_def switch_standby_def forget_standby_def Let_def case_prod_beta split: option.split)

lemma wire_warnings [simp]: "wire (fold (\<lambda>x. record_config_warning w (f x)) xs s) = wire s"
  by (induction xs arbitrary: s) (simp_all add: record_config_warning_def)

lemma wire_apply [simp]: "wire (client_apply st s) = wire s"
  by (simp add: client_apply_def Let_def wire_def)

lemma wire_config_set [simp]: "wire (client_config_set lib row v s) = wire s"
  by (auto simp: client_config_set_def split: prod.split sum.split)

lemma wire_config_save [simp]: "wire (client_config_save lib w lv s) = wire s"
  by (auto simp: client_config_save_def Let_def split: prod.split sum.split)

lemma wire_config_command [simp]: "wire (client_config_command lib w c s) = wire s"
  by (cases c) (auto simp: client_config_command_def Let_def split: prod.split sum.split shape.split setting_value.split)

lemma wire_heard [simp]: "wire (note_heard w s) = wire s" "wire (note_sent w s) = wire s"
  by (simp_all add: note_heard_def note_sent_def)

lemma wire_paint [simp]: "wire (client_paint lib s) = wire s"
  by (simp add: client_paint_def Let_def case_prod_beta)

lemma wire_layer [simp]: "wire (snd (layer_at lib w s)) = wire s"
  by (auto simp: layer_at_def Let_def case_prod_beta split: option.split link_change_ev.split)

lemma wire_sample [simp]: "wire (sample_quality w rd s) = wire s" "wire (snd (follow_route w s)) = wire s"
  by (auto simp: sample_quality_def take_sample_def follow_route_def Let_def split: option.split)

lemma wire_rebuild [simp]:
  "wire (rebuild_step w s) = wire s" "wire (record_attempt_failed w why s) = wire s" "wire (rebuild_failed w why s) = wire s"
  by (auto simp: rebuild_step_def record_attempt_failed_def rebuild_failed_def Let_def case_prod_beta split: option.split phase.split)

lemma wire_standby_events [simp]:
  "wire (snd (client_standby_step w ph rb s)) = wire s" "wire (on_standby_event lib w ev s) = wire s"
  "wire (on_standby_closed w reason words s) = wire s"
  by (auto simp: client_standby_step_def on_standby_event_def on_standby_closed_def Let_def case_prod_beta
      split: option.split standby_action.split standby_news.split)

text \<open>An answer or a report that brings no link changes nothing on the wire.\<close>

fun keeps_link :: "('l, 'p) client_event \<Rightarrow> bool" where
  "keeps_link (OnAnswered (ALanded e)) = False"
| "keeps_link (OnReport rep) = (case rep_outcome rep of Landed _ \<Rightarrow> False | _ \<Rightarrow> True)"
| "keeps_link OnFailOver = False"
| "keeps_link _ = True"

lemma wire_answered:
  assumes "client_answered w a s = Inr (gone, s')" "keeps_link (OnAnswered a)"
  shows "wire s' = wire s"
  using assms
  by (cases a) (auto simp: client_answered_def take_answer_def Let_def split: if_splits)

lemma wire_reported:
  assumes "rebuild_reported lib w rep s = Inr (gone, s')" "keeps_link (OnReport rep)"
  shows "wire s' = wire s"
  using assms
  by (auto simp: rebuild_reported_def accept_def Let_def split: option.splits attempt_outcome.splits if_splits)

section \<open>A client's steps\<close>

text \<open>A run of the steps a client takes on its wire, with the bytes it queues and the frames it sends: input is
  appended and published, a frame is received, a frame is offered on the newest acknowledgement.\<close>

inductive talks ::
  "'p client_lib \<Rightarrow> frame list \<Rightarrow> input_state sender \<times> screen_state receiver \<Rightarrow> bytes \<Rightarrow> frame list
    \<Rightarrow> input_state sender \<times> screen_state receiver \<Rightarrow> bool"
  for lib inc p where
  quiet: "talks lib inc p [] [] p"
| queue: "talks lib inc p bs fs (tx, rx) \<Longrightarrow>
    talks lib inc p (bs @ ks) fs (sender_update input_ops tx (input_append (sender_current tx) ks sz), rx)"
| take: "talks lib inc p bs fs (tx, rx) \<Longrightarrow> f \<in> set inc \<Longrightarrow>
    talks lib inc p bs fs (tx, snd (on_frame screen_ops (lb_screen lib) rx f))"
| hear: "talks lib inc p bs fs (tx, rx) \<Longrightarrow> talks lib inc p bs fs (on_ack tx (rcv_peer_ack rx), rx)"
| send: "talks lib inc p bs fs (tx, rx) \<Longrightarrow>
    make_frame input_ops (lb_input lib) tx (rcv_ack screen_ops rx) = Inr (Some f, t) \<Longrightarrow>
    talks lib inc p bs (fs @ [f]) (t, rx)"

lemma talks_trans: "talks lib inc q bs' fs' r \<Longrightarrow> talks lib inc p bs fs q \<Longrightarrow> talks lib inc p (bs @ bs') (fs @ fs') r"
proof (induction rule: talks.induct)
  case (queue bs' fs' tx rx ks sz)
  from talks.queue [OF queue.IH [OF queue.prems], of ks sz] show ?case by simp
next
  case (send bs' fs' tx rx f t)
  from talks.send [OF send.IH [OF send.prems] send.hyps(2)] show ?case by simp
qed (auto intro: talks.intros)

text \<open>The session \<open>s\<close> became \<open>s'\<close>, queueing \<open>bs\<close>.\<close>

definition speaks :: "'p client_lib \<Rightarrow> frame list \<Rightarrow> ('l, 'p) client \<Rightarrow> bytes \<Rightarrow> ('l, 'p) client \<Rightarrow> bool" where
  "speaks lib inc s bs s' \<longleftrightarrow> (\<exists>fs. talks lib inc (cls_input_tx s, cls_screen_rx s) bs fs (cls_input_tx s', cls_screen_rx s')
    \<and> sent_frames (cls_out s') = sent_frames (cls_out s) @ fs)"

lemma speaks_trans: "speaks lib inc s bs s1 \<Longrightarrow> speaks lib inc s1 bs' s2 \<Longrightarrow> speaks lib inc s (bs @ bs') s2"
  unfolding speaks_def using talks_trans by (metis append.assoc)

lemma speaks_wire: "wire s' = wire s \<Longrightarrow> speaks lib inc s [] s'"
  unfolding speaks_def wire_def by (auto intro: talks.quiet)

lemma speaks_then: "speaks lib inc s bs s1 \<Longrightarrow> wire s2 = wire s1 \<Longrightarrow> speaks lib inc s bs s2"
  using speaks_trans [of lib inc s bs s1 "[]" s2] speaks_wire [of s2 s1] by simp

lemma speaks_after: "wire s1 = wire s \<Longrightarrow> speaks lib inc s1 bs s2 \<Longrightarrow> speaks lib inc s bs s2"
  using speaks_trans [of lib inc s "[]" s1 bs s2] speaks_wire [of s1 s] by simp

definition held_of :: "('l, 'p) client \<Rightarrow> bytes" where
  "held_of s = ls_held (cls_link_state s)"

lemma held_of_wire: "wire s' = wire s \<Longrightarrow> held_of s' = held_of s"
  by (simp add: wire_def held_of_def)

lemma speaks_queue: "speaks lib inc s bs (queue_input bs s)" "held_of (queue_input bs s) = held_of s"
proof -
  have "talks lib inc (cls_input_tx s, cls_screen_rx s) ([] @ bs) [] (cls_input_tx (queue_input bs s), cls_screen_rx (queue_input bs s))"
    unfolding queue_input_def by (simp, rule talks.queue [of _ _ _ "[]", simplified], rule talks.quiet)
  then show "speaks lib inc s bs (queue_input bs s)" by (auto simp: speaks_def queue_input_def)
qed (simp add: held_of_def queue_input_def)

lemma speaks_frame:
  assumes "f \<in> set inc"
  shows "speaks lib inc (snd (snd st)) [] (snd (snd (client_frame lib w f st)))"
    "held_of (snd (snd (client_frame lib w f st))) = held_of (snd (snd st))"
proof -
  obtain painted tn s where st: "st = (painted, tn, s)" by (cases st)
  let ?s1 = "s\<lparr>cls_screen_rx := snd (on_frame screen_ops (lb_screen lib) (cls_screen_rx s) f)\<rparr>"
  have "speaks lib inc s [] ?s1"
    using talks.take [OF talks.quiet assms] by (auto simp: speaks_def)
  moreover have w: "wire (snd (snd (client_frame lib w f st))) = wire ?s1"
    by (auto simp: st client_frame_def Let_def case_prod_beta split: sum.split option.split)
  ultimately show "speaks lib inc (snd (snd st)) [] (snd (snd (client_frame lib w f st)))"
    unfolding st by (simp add: speaks_then)
  show "held_of (snd (snd (client_frame lib w f st))) = held_of (snd (snd st))"
    using held_of_wire [OF w] by (simp add: st held_of_def)
qed

lemma speaks_frames:
  assumes "set fs \<subseteq> set inc"
  shows "speaks lib inc (snd (snd st)) [] (snd (snd (fold (client_frame lib w) fs st)))
    \<and> held_of (snd (snd (fold (client_frame lib w) fs st))) = held_of (snd (snd st))"
  using assms
proof (induction fs arbitrary: st)
  case (Cons f fs)
  then have "f \<in> set inc" by simp
  from speaks_frame(1) [OF this, of lib st w] speaks_frame(2) [OF this, of lib w st] Cons.IH [of "client_frame lib w f st"] Cons.prems show ?case
    using speaks_trans [of lib inc "snd (snd st)" "[]" "snd (snd (client_frame lib w f st))" "[]"] by simp
qed (simp add: speaks_wire)

lemma speaks_take_frames:
  assumes "set fs \<subseteq> set inc"
  shows "speaks lib inc s [] (snd (take_frames lib w fs tn s)) \<and> held_of (snd (take_frames lib w fs tn s)) = held_of s"
proof -
  let ?s1 = "snd (snd (fold (client_frame lib w) fs (False, tn, s)))"
  have "wire (snd (take_frames lib w fs tn s)) = wire ?s1"
    by (simp add: take_frames_def case_prod_beta)
  then show ?thesis
    using speaks_frames [OF assms, of lib "(False, tn, s)" w] speaks_then held_of_wire by force
qed

lemma speaks_offer: "speaks lib inc s [] (snd (client_offer lib w s)) \<and> held_of (snd (client_offer lib w s)) = held_of s"
proof (cases "client_due w s")
  case False
  then show ?thesis by (simp add: client_offer_def speaks_wire)
next
  case True
  let ?tx = "on_ack (cls_input_tx s) (rcv_peer_ack (cls_screen_rx s))"
  have hear: "talks lib inc (cls_input_tx s, cls_screen_rx s) [] [] (?tx, cls_screen_rx s)"
    by (rule talks.hear [OF talks.quiet])
  show ?thesis
  proof (cases "make_frame input_ops (lb_input lib) ?tx (rcv_ack screen_ops (cls_screen_rx s))")
    case (Inl e)
    with True hear show ?thesis by (auto simp: client_offer_def speaks_def held_of_def)
  next
    case (Inr r)
    obtain fo t where r: "r = (fo, t)" by fastforce
    show ?thesis
    proof (cases fo)
      case None
      with Inr r have "t = ?tx" using make_frame_NoneD(3) by blast
      with True Inr r None hear show ?thesis by (auto simp: client_offer_def speaks_def held_of_def)
    next
      case (Some f)
      with Inr r have "talks lib inc (cls_input_tx s, cls_screen_rx s) [] ([] @ [f]) (t, cls_screen_rx s)"
        by (intro talks.send [OF hear]) simp
      with True Inr r Some show ?thesis by (auto simp: client_offer_def speaks_def held_of_def emit_def)
    qed
  qed
qed

lemma speaks_turn:
  assumes "set fs \<subseteq> set inc"
  shows "speaks lib inc s bs (snd (client_turn lib w bs fs s)) \<and> held_of (snd (client_turn lib w bs fs s)) = held_of s"
proof -
  let ?s1 = "if bs \<noteq> [] then queue_input bs s else s"
  have 1: "speaks lib inc s bs ?s1 \<and> held_of ?s1 = held_of s"
    using speaks_queue by (auto simp: speaks_wire)
  let ?s2 = "snd (take_frames lib w fs \<lparr>ct_sent = None, ct_applied = 0, ct_rejected = 0\<rparr> ?s1)"
  note 2 = speaks_take_frames [OF assms, of lib ?s1 w "\<lparr>ct_sent = None, ct_applied = 0, ct_rejected = 0\<rparr>"]
  note 3 = speaks_offer [of lib inc ?s2 w]
  have "snd (client_turn lib w bs fs s) = snd (client_offer lib w ?s2)"
    by (simp add: client_turn_def Let_def case_prod_beta)
  with 1 2 3 show ?thesis using speaks_trans by (metis append_Nil2)
qed

section \<open>What a key sends\<close>

text \<open>What an event of the loop adds to the input stream: of a read, the bytes the popup lets through, and the held
  input if the read is the answer that sends it.\<close>

definition typed_by :: "outside \<Rightarrow> ('l, 'p) client_event \<Rightarrow> ('l, 'p) client \<Rightarrow> bytes" where
  "typed_by w e s =
    (case e of
       OnKeys ks \<Rightarrow>
         (let r = snd (ui_keys ks (ls_phase (cls_link_state s)) (nw_now w) (set_switcher (cls_in_lobby s) (client_asking s) (cls_ui s)))
          in to_host r @ (if command r = Some SendHeld then held_of s else []))
     | _ \<Rightarrow> [])"

definition frames_of :: "outside \<Rightarrow> ('l, 'p) client_event \<Rightarrow> frame set" where
  "frames_of w e = (\<Union>k. set (nw_frames w k)) \<union> (case e of OnFrame f \<Rightarrow> {f} | OnTurn fs \<Rightarrow> set fs | _ \<Rightarrow> {})"

lemma answer_holds_nothing:
  assumes "command (snd (ui_keys bs ph now u)) = Some SendHeld"
  shows "to_hold (snd (ui_keys bs ph now u)) = []"
proof -
  from held_answer [OF assms] have "ph = Confirming" by simp
  moreover from ui_keys_routes [of ph bs now u] obtain ds c where "snd (ui_keys bs ph now u) = (delivered ph ds)\<lparr>command := c\<rparr>"
    by (auto simp: routes_def)
  ultimately show ?thesis by (simp add: delivered_def routed_default_def)
qed

lemma speaks_command:
  assumes "client_command lib w c s = (None, s')" "set (nw_frames w 1) \<subseteq> set inc"
  shows "speaks lib inc s (if c = Some SendHeld then held_of s else []) s'"
proof (cases "c = Some SendHeld")
  case True
  let ?s1 = "client_record w KInput (str_of ''held input sent ('' @ byte_count (length (held_of s)) @ str_of '')'')
    (s\<lparr>cls_link_state := snd (take_held (cls_link_state s))\<rparr>)"
  have s': "s' = snd (client_turn lib w (held_of s) (nw_frames w 1) ?s1)"
    using assms(1) True by (simp add: client_command_def take_held_def held_of_def)
  have "speaks lib inc s [] ?s1"
    by (simp add: speaks_def client_record_def log_with_def emit_def talks.quiet)
  with speaks_turn [OF assms(2), of lib ?s1 "held_of s" w] True show ?thesis
    using speaks_trans [of lib inc s "[]" ?s1] by (simp add: s')
next
  case False
  have "speaks lib inc s [] s'"
  proof (cases "c = Some Ui_Popup.DropHeld")
    case True
    with assms(1) show ?thesis
      by (auto simp: client_command_def speaks_def client_record_def log_with_def emit_def set_link_def Let_def talks.quiet)
  next
    case drop: False
    have "wire s' = wire s"
      using assms(1) False drop
      by (auto simp: client_command_def Let_def case_prod_beta split: option.splits command.splits if_splits)
    then show ?thesis by (rule speaks_wire)
  qed
  with False show ?thesis by simp
qed

lemma speaks_keys:
  assumes "route_keys lib w ks s = (None, s')" "frames_of w (OnKeys ks) \<subseteq> set inc"
  shows "speaks lib inc s (typed_by w (OnKeys ks) s) s'"
proof -
  define u where "u = set_switcher (cls_in_lobby s) (client_asking s) (cls_ui s)"
  define k where "k = ui_keys ks (ls_phase (cls_link_state s)) (nw_now w) u"
  define s1 where "s1 = s\<lparr>cls_ui := fst k\<rparr>"
  define s2 where "s2 = (if to_host (snd k) \<noteq> [] then snd (client_turn lib w (to_host (snd k)) (nw_frames w 0) s1) else s1)"
  define s3 where "s3 = (if to_hold (snd k) \<noteq> [] then set_link (hold_keys (to_hold (snd k))) s2 else s2)"
  have fr: "set (nw_frames w 0) \<subseteq> set inc" "set (nw_frames w 1) \<subseteq> set inc"
    using assms(2) by (auto simp: frames_of_def)
  have "route_keys lib w ks s = client_command lib w (command (snd k)) s3"
    unfolding route_keys_def Let_def case_prod_beta s3_def s2_def s1_def k_def u_def by (rule refl)
  with assms(1) have s': "client_command lib w (command (snd k)) s3 = (None, s')" by simp
  have w1: "wire s1 = wire s" by (simp add: s1_def)
  have "speaks lib inc s1 (to_host (snd k)) s2 \<and> held_of s2 = held_of s1"
    using speaks_turn [OF fr(1), of lib s1 "to_host (snd k)" w] by (auto simp: s2_def speaks_wire)
  then have 2: "speaks lib inc s (to_host (snd k)) s2" "held_of s2 = held_of s"
    using speaks_after [OF w1] held_of_wire [OF w1] by auto
  have "speaks lib inc s2 [] s3"
    by (simp add: s3_def speaks_def set_link_def talks.quiet)
  with speaks_trans [OF 2(1)] have 3: "speaks lib inc s (to_host (snd k)) s3" by fastforce
  have "held_of s3 = held_of s" if "command (snd k) = Some SendHeld"
    using answer_holds_nothing [of ks "ls_phase (cls_link_state s)" "nw_now w" u] that 2(2) by (simp add: s3_def k_def)
  then have "speaks lib inc s (to_host (snd k) @ (if command (snd k) = Some SendHeld then held_of s else [])) s'"
    using speaks_trans [OF 3 speaks_command [OF s' fr(2)]] by (auto split: if_splits)
  then show ?thesis by (simp add: typed_by_def k_def u_def Let_def)
qed

lemma client_do_speaks:
  assumes "client_do lib w e s = Some s'" "keeps_link e" "frames_of w e \<subseteq> set inc"
  shows "speaks lib inc s (typed_by w e s) s'"
proof (cases e)
  case (OnKeys ks)
  with assms speaks_keys show ?thesis by (auto split: prod.splits option.splits)
next
  case (OnFrame f)
  have "set (f # nw_frames w 0) \<subseteq> set inc" using assms(3) by (auto simp: OnFrame frames_of_def)
  from speaks_turn [OF this, of lib "note_heard w s" "[]" w] speaks_after [of "note_heard w s" s] show ?thesis
    using assms(1) by (auto simp: OnFrame wake_frame_def typed_by_def)
next
  case (OnTurn fs)
  have "set fs \<subseteq> set inc" using assms(3) by (auto simp: OnTurn frames_of_def)
  from speaks_turn [OF this, of lib s "[]" w] show ?thesis using assms(1) by (auto simp: OnTurn typed_by_def)
next
  case OnHeartbeat
  have "speaks lib inc s [] (note_sent w (queue_input [] s))"
    by (rule speaks_then [OF speaks_queue(1)]) simp
  with assms(1) show ?thesis by (auto simp: OnHeartbeat heartbeat_def typed_by_def speaks_wire split: if_splits)
next
  case (OnResize sz)
  let ?s1 = "s\<lparr>cls_renderer := rd_resize sz (cls_renderer s), cls_size := sz\<rparr>"
  have "speaks lib inc s [] (queue_input [] ?s1)"
    by (rule speaks_after [OF _ speaks_queue(1)]) simp
  with assms(1) show ?thesis by (auto simp: OnResize client_resize_def typed_by_def speaks_wire split: if_splits)
next
  case (OnAnswered a)
  with assms wire_answered [of w a s] show ?thesis
    by (auto simp: if_on_def typed_by_def intro!: speaks_wire split: sum.splits)
next
  case (OnReport rep)
  with assms wire_reported [of lib w rep s] show ?thesis
    by (auto simp: if_on_def typed_by_def intro!: speaks_wire split: sum.splits)
next
  case OnFailOver
  with assms(2) show ?thesis by simp
qed (use assms(1) in \<open>auto simp: typed_by_def intro!: speaks_wire\<close>)

section \<open>Steps of an end\<close>

text \<open>While the 64-bit counters have room, and every frame sent fits the receiver's cap, what a client does is
  a run of steps of its end.\<close>

definition client_wire :: "frame list \<Rightarrow> input_state list \<Rightarrow> ('l, 'p) client \<Rightarrow> (input_state, screen_state) wire_end" where
  "client_wire out h s = \<lparr>we_tx = cls_input_tx s, we_rx = cls_screen_rx s, we_out = out, we_hist = h\<rparr>"

definition room :: "input_state \<Rightarrow> bool" where
  "room i \<longleftrightarrow> in_seq i \<noteq> - 1 \<and> length (in_pending i) < 2 ^ 64"

abbreviation input_step :: "'p client_lib \<Rightarrow> frame list \<Rightarrow> (input_state, screen_state) wire_end \<Rightarrow> (input_state, screen_state) wire_end \<Rightarrow> bool" where
  "input_step lib \<equiv> end_step input_ops (lb_input lib) screen_ops (lb_screen lib) (\<lambda>cur next. input_wf next \<and> typed_on cur next)"

lemma sat_add_max: "sat_add (- 1) 1 = (- 1 :: u64)"
  using unat_max_word [where 'a = 64] by (simp add: sat_add_def)

lemma queued_current:
  "sender_current (sender_update input_ops tx (input_append (sender_current tx) ks sz)) =
    \<lparr>in_seq = sat_add (in_seq (sender_current tx)) 1, in_pending = in_pending (sender_current tx) @ ks, in_size = sz\<rparr>"
  by (simp add: sender_update_current input_append_def) (simp add: input_ops_def)

lemma talks_steps:
  assumes "talks lib inc (tx0, rx0) bs fs q" "in_seq (sender_current tx0) \<noteq> 0"
  shows "in_seq (sender_current (fst q)) \<noteq> 0 \<and> in_pending (sender_current (fst q)) = in_pending (sender_current tx0) @ bs
    \<and> (room (sender_current (fst q)) \<longrightarrow> (\<forall>f\<in>set fs. frame_fits (lb_input lib) f) \<longrightarrow>
        (\<exists>h'. (input_step lib inc)\<^sup>*\<^sup>* \<lparr>we_tx = tx0, we_rx = rx0, we_out = out, we_hist = h\<rparr>
           \<lparr>we_tx = fst q, we_rx = snd q, we_out = rev fs @ out, we_hist = h'\<rparr>))"
  using assms(1)
proof (induction rule: talks.induct)
  case quiet
  then show ?case using assms(2) by auto
next
  case (queue bs fs tx rx ks sz)
  let ?n = "input_append (sender_current tx) ks sz"
  let ?t = "sender_update input_ops tx ?n"
  have nz: "in_seq (sender_current tx) \<noteq> 0" using queue.IH by simp
  have "\<exists>h'. (input_step lib inc)\<^sup>*\<^sup>* \<lparr>we_tx = tx0, we_rx = rx0, we_out = out, we_hist = h\<rparr>
      \<lparr>we_tx = ?t, we_rx = rx, we_out = rev fs @ out, we_hist = h'\<rparr>"
    if r: "room (sender_current ?t)" and f: "\<forall>f\<in>set fs. frame_fits (lb_input lib) f"
  proof -
    from r have seq: "in_seq (sender_current tx) \<noteq> - 1" and len: "length (in_pending (sender_current tx) @ ks) < 2 ^ 64"
      by (auto simp: room_def queued_current sat_add_max)
    then have "room (sender_current tx)" by (simp add: room_def)
    with queue.IH f obtain h' where run: "(input_step lib inc)\<^sup>*\<^sup>* \<lparr>we_tx = tx0, we_rx = rx0, we_out = out, we_hist = h\<rparr>
      \<lparr>we_tx = tx, we_rx = rx, we_out = rev fs @ out, we_hist = h'\<rparr>" by auto
    have "input_wf ?n \<and> typed_on (sender_current tx) ?n"
      using nz len by (simp add: input_wf_def input_append_def typed_on_def)
    with seq have "input_step lib inc \<lparr>we_tx = tx, we_rx = rx, we_out = rev fs @ out, we_hist = h'\<rparr>
      (\<lparr>we_tx = tx, we_rx = rx, we_out = rev fs @ out, we_hist = h'\<rparr>\<lparr>we_tx := ?t, we_hist := h' @ [sender_current ?t]\<rparr>)"
      using end_step.publish [where E = "\<lparr>we_tx = tx, we_rx = rx, we_out = rev fs @ out, we_hist = h'\<rparr>" and n = ?n and t = ?t
          and ops = input_ops] by simp
    with run show ?thesis by (auto intro: rtranclp.rtrancl_into_rtrancl)
  qed
  then show ?case using queue.IH by (simp add: queued_current Host_Session.sat_add_1_nonzero)
next
  case (take bs fs tx rx f)
  have "input_step lib inc \<lparr>we_tx = tx, we_rx = rx, we_out = rev fs @ out, we_hist = h'\<rparr>
      (\<lparr>we_tx = tx, we_rx = rx, we_out = rev fs @ out, we_hist = h'\<rparr>\<lparr>we_rx := snd (on_frame screen_ops (lb_screen lib) rx f)\<rparr>)" for h'
    using end_step.receive [OF take.hyps(2), where E = "\<lparr>we_tx = tx, we_rx = rx, we_out = rev fs @ out, we_hist = h'\<rparr>"] by simp
  with take.IH show ?case by simp (meson rtranclp.rtrancl_into_rtrancl)
next
  case (hear bs fs tx rx)
  have "input_step lib inc \<lparr>we_tx = tx, we_rx = rx, we_out = rev fs @ out, we_hist = h'\<rparr>
      (\<lparr>we_tx = tx, we_rx = rx, we_out = rev fs @ out, we_hist = h'\<rparr>\<lparr>we_tx := on_ack tx (rcv_peer_ack rx)\<rparr>)" for h'
    using end_step.hear [where E = "\<lparr>we_tx = tx, we_rx = rx, we_out = rev fs @ out, we_hist = h'\<rparr>"] by simp
  with hear.IH show ?case by simp (meson rtranclp.rtrancl_into_rtrancl)
next
  case (send bs fs tx rx f t)
  have "input_step lib inc \<lparr>we_tx = tx, we_rx = rx, we_out = rev fs @ out, we_hist = h'\<rparr>
      (\<lparr>we_tx = tx, we_rx = rx, we_out = rev fs @ out, we_hist = h'\<rparr>\<lparr>we_tx := t, we_out := f # rev fs @ out\<rparr>)"
    if "frame_fits (lb_input lib) f" for h'
    using end_step.offer [where E = "\<lparr>we_tx = tx, we_rx = rx, we_out = rev fs @ out, we_hist = h'\<rparr>", OF _ that] send.hyps(2) by simp
  moreover have "sender_current t = sender_current tx"
    using send.hyps(2) by (auto simp: make_frame_def sender_current_def Let_def and_then_Inr_iff split: if_splits)
  ultimately show ?case using send.IH by simp (meson rtranclp.rtrancl_into_rtrancl)
qed

section \<open>A host's turn\<close>

definition host_wire :: "frame list \<Rightarrow> screen_state list \<Rightarrow> ('t, 'q, 'h, 'k) host_session \<Rightarrow> (screen_state, input_state) wire_end" where
  "host_wire out h s = \<lparr>we_tx = hs_screen_tx s, we_rx = hs_input_rx s, we_out = out, we_hist = h\<rparr>"

abbreviation screen_step :: "'p client_lib \<Rightarrow> frame list \<Rightarrow> (screen_state, input_state) wire_end \<Rightarrow> (screen_state, input_state) wire_end \<Rightarrow> bool" where
  "screen_step lib \<equiv> end_step screen_ops (lb_screen lib) input_ops (lb_input lib) (\<lambda>cur next. screen_wf next \<and> monotone_from cur next)"

lemma receive_steps:
  assumes "set fs \<subseteq> set inc"
  shows "(screen_step lib inc)\<^sup>*\<^sup>* E (E\<lparr>we_rx := receive_all (lb_input lib) input_ops fs (we_rx E)\<rparr>)"
  using assms
proof (induction fs arbitrary: E)
  case (Cons f fs)
  let ?E = "E\<lparr>we_rx := snd (on_frame input_ops (lb_input lib) (we_rx E) f)\<rparr>"
  have "screen_step lib inc E ?E" using Cons.prems by (intro end_step.receive) simp
  with Cons.IH [of ?E] Cons.prems show ?case by (simp add: receive_all_def converse_rtranclp_into_rtranclp)
qed (simp add: receive_all_def)

lemma turn_steps:
  assumes "turn_at em (lb_input lib) (lb_screen lib) now env fs s = Inr (tn, s')" "session_ok em s" "set fs \<subseteq> set inc"
    and "scr_seq (sender_current (hs_screen_tx s')) \<noteq> - 1" "\<And>f. tn_sent tn = Some f \<Longrightarrow> frame_fits (lb_screen lib) f"
  shows "\<exists>h'. (screen_step lib inc)\<^sup>*\<^sup>* (host_wire out h s)
    (host_wire ((case tn_sent tn of Some f \<Rightarrow> [f] | None \<Rightarrow> []) @ out) h' s')"
proof -
  from turn_channels [OF assms(1,2)] obtain tx where rx: "hs_input_rx s' = receive_all (lb_input lib) input_ops fs (hs_input_rx s)"
    and rep: "republished (on_ack (hs_screen_tx s) (rcv_peer_ack (hs_input_rx s'))) tx"
    and snt: "case tn_sent tn of None \<Rightarrow> hs_screen_tx s' = tx
      | Some f \<Rightarrow> make_frame screen_ops (lb_screen lib) tx (rcv_ack input_ops (hs_input_rx s')) = Inr (Some f, hs_screen_tx s')"
    by blast
  let ?t1 = "on_ack (hs_screen_tx s) (rcv_peer_ack (hs_input_rx s'))"
  let ?E1 = "\<lparr>we_tx = ?t1, we_rx = hs_input_rx s', we_out = out, we_hist = h\<rparr>"
  have "(screen_step lib inc)\<^sup>*\<^sup>* (host_wire out h s) ((host_wire out h s)\<lparr>we_rx := hs_input_rx s'\<rparr>)"
    using receive_steps [OF assms(3), of lib "host_wire out h s"] by (simp add: rx host_wire_def)
  moreover have "screen_step lib inc ((host_wire out h s)\<lparr>we_rx := hs_input_rx s'\<rparr>) ?E1"
    using end_step.hear [where E = "(host_wire out h s)\<lparr>we_rx := hs_input_rx s'\<rparr>"] by (simp add: host_wire_def)
  ultimately have 1: "(screen_step lib inc)\<^sup>*\<^sup>* (host_wire out h s) ?E1" by (rule rtranclp.rtrancl_into_rtrancl)
  have cur: "sender_current (hs_screen_tx s') = sender_current tx"
    using snt make_frame_current by (auto split: option.splits)
  obtain h' where 2: "(screen_step lib inc)\<^sup>*\<^sup>* ?E1 \<lparr>we_tx = tx, we_rx = hs_input_rx s', we_out = out, we_hist = h'\<rparr>"
  proof (cases "tx = ?t1")
    case True
    then show ?thesis by (intro that [of h]) simp
  next
    case False
    with rep obtain n where n: "publishes (sender_current ?t1) n" "tx = sender_update screen_ops ?t1 n"
      by (auto simp: republished_def)
    with assms(4) have "scr_seq (sender_current ?t1) \<noteq> - 1"
      unfolding cur by (auto simp: current_update sat_add_max)
    with n have "screen_step lib inc ?E1 (?E1\<lparr>we_tx := tx, we_hist := h @ [sender_current tx]\<rparr>)"
      using end_step.publish [where E = ?E1 and n = n and t = tx and ops = screen_ops] by (simp add: publishes_def)
    then show ?thesis by (intro that [of "h @ [sender_current tx]"]) auto
  qed
  let ?E2 = "\<lparr>we_tx = tx, we_rx = hs_input_rx s', we_out = out, we_hist = h'\<rparr>"
  have "(screen_step lib inc)\<^sup>*\<^sup>* ?E2 (host_wire ((case tn_sent tn of Some f \<Rightarrow> [f] | None \<Rightarrow> []) @ out) h' s')"
  proof (cases "tn_sent tn")
    case None
    with snt show ?thesis by (simp add: host_wire_def)
  next
    case (Some f)
    with snt have "screen_step lib inc ?E2 (?E2\<lparr>we_tx := hs_screen_tx s', we_out := f # out\<rparr>)"
      using end_step.offer [where E = ?E2 and ops = screen_ops and ops' = input_ops and f = f, OF _ assms(5)] by simp
    with Some show ?thesis by (auto simp: host_wire_def)
  qed
  with 1 2 show ?thesis by (meson rtranclp_trans)
qed

text \<open>What a turn writes to the shell, with a client whose frames are never refused: exactly what is new.\<close>

abbreviation pending_of :: "('t, 'q, 'h, 'k) host_session \<Rightarrow> bytes" where
  "pending_of s \<equiv> in_pending (rcv_state (hs_input_rx s))"

lemma host_frames_shell:
  fixes lib :: "'p client_lib"
  assumes "fold_res (host_frame (lb_input lib) env now) fs (tn, s) = Inr (tn', s')"
    and "up.pair_inv (lb_input lib) i0 (lb_screen lib) b0 C (host_wire out h s)" "set fs \<subseteq> set (we_out C)" "codec_ok (lb_screen lib)"
    and "hs_term s \<noteq> None" "hs_written s = length (pending_of s)"
  shows "tn_shell tn' = tn_shell tn @ drop (length (pending_of s)) (pending_of s') \<and> prefix (pending_of s) (pending_of s')
    \<and> hs_written s' = length (pending_of s') \<and> tn_rejected tn' = tn_rejected tn"
  using assms
proof (induction fs arbitrary: tn s)
  case Nil
  then show ?case by simp
next
  case (Cons f fs)
  obtain tn1 s1 where 1: "host_frame (lb_input lib) env now f (tn, s) = Inr (tn1, s1)"
    "fold_res (host_frame (lb_input lib) env now) fs (tn1, s1) = Inr (tn', s')"
    using Cons.prems(1) by (auto simp: and_then_Inr_iff)
  have pair: "down.pair_inv (lb_screen lib) b0 (lb_input lib) i0 (host_wire out h s) C"
    using Cons.prems(2) by (simp add: pair_swap)
  have f: "f \<in> set (we_out C)" using Cons.prems(3) by simp
  obtain b rx where on: "on_frame input_ops (lb_input lib) (hs_input_rx s) f = (Inr b, rx)"
    and mono: "prefix (pending_of s) (in_pending (rcv_state rx))"
    using down.pair_no_refusal [OF pair f] by (auto simp: host_wire_def typed_on_def)
  have s1: "hs_term s1 = hs_term s" "hs_input_rx s1 = rx" "hs_screen_tx s1 = hs_screen_tx s"
    using host_frame_ok [OF 1(1)] on by simp_all
  have "screen_step lib (we_out C) (host_wire out h s) (host_wire out h s1)"
    using end_step.receive [OF f, where E = "host_wire out h s" and cdc' = "lb_input lib" and ops' = input_ops] on s1
    by (simp add: host_wire_def)
  from down.pair_step [OF pair Cons.prems(4) this] have pair1: "up.pair_inv (lb_input lib) i0 (lb_screen lib) b0 C (host_wire out h s1)"
    by (simp add: pair_swap)
  have now: "tn_shell tn1 = tn_shell tn @ drop (length (pending_of s)) (pending_of s1) \<and> hs_written s1 = length (pending_of s1)
    \<and> tn_rejected tn1 = tn_rejected tn"
    using 1(1)
  proof (cases rule: host_frame_cases)
    case (refused e rx')
    with on show ?thesis by simp
  next
    case (stale rx')
    then have "rcv_state rx' = rcv_state (hs_input_rx s)"
      by (auto simp: on_frame_def rcv_state_def Let_def split: if_splits sum.splits)
    with stale Cons.prems(6) show ?thesis by simp
  next
    case (applied rx' bs)
    with on have rx': "rx' = rx" by simp
    have "hs_written s \<le> length (in_pending (rcv_state rx))"
      using Cons.prems(6) prefix_length_le [OF mono] by simp
    with drain_input_ok(5) [OF applied(2)] applied(3) Cons.prems(5,6) s1(2) rx' show ?thesis by simp
  qed
  from Cons.IH [OF 1(2) pair1] Cons.prems(3-5) s1 now
  have rest: "tn_shell tn' = tn_shell tn1 @ drop (length (pending_of s1)) (pending_of s') \<and> prefix (pending_of s1) (pending_of s')
    \<and> hs_written s' = length (pending_of s') \<and> tn_rejected tn' = tn_rejected tn1" by simp
  have p: "prefix (pending_of s) (pending_of s1)" using mono s1 by simp
  then have "drop (length (pending_of s)) (pending_of s1) @ drop (length (pending_of s1)) (pending_of s')
      = drop (length (pending_of s)) (pending_of s')"
    using rest by (auto simp: prefix_def)
  then have "tn_shell tn' = tn_shell tn @ drop (length (pending_of s)) (pending_of s')" using rest now by simp
  with rest now p show ?case by (auto intro: prefix_order.trans)
qed

lemma turn_shell:
  fixes lib :: "'p client_lib"
  assumes "turn_at em (lb_input lib) (lb_screen lib) now env fs s = Inr (tn, s')" "session_ok em s"
    and "up.pair_inv (lb_input lib) i0 (lb_screen lib) b0 C (host_wire out h s)" "set fs \<subseteq> set (we_out C)" "codec_ok (lb_screen lib)"
    and "hs_term s \<noteq> None" "hs_written s = length (pending_of s)"
  shows "tn_shell tn = drop (length (pending_of s)) (pending_of s') \<and> prefix (pending_of s) (pending_of s')
    \<and> hs_written s' = length (pending_of s') \<and> tn_rejected tn = 0"
proof -
  obtain tn1 s1 s2 s3 where
    1: "fold_res (host_frame (lb_input lib) env now) fs (turn_default, s) = Inr (tn1, s1)" and
    2: "follow_size em env (note_delivered s1) = Inr s2" and
    3: "host_poll em env (host_attached env now s2) s2 = Inr s3" and
    4: "end_turn (lb_screen lib) env now (host_attached env now s2) tn1 s3 = (tn, s')"
    using assms(1) by (auto simp: turn_at_def and_then_Inr_iff)
  note sh = host_frames_shell [OF 1 assms(3-7)]
  have ok1: "session_ok em s1" using host_frames_ok [OF 1] assms(2) by (auto simp: session_ok_def split: option.splits)
  note d = note_delivered_ok [OF ok1]
  note f2 = follow_size_ok [OF 2 d [THEN conjunct1]]
  note f3 = host_poll_ok [OF 3 f2 [THEN conjunct1]]
  have "hs_input_rx s' = hs_input_rx s3 \<and> hs_written s' = hs_written s3 \<and> tn_shell tn = tn_shell tn1 \<and> tn_rejected tn = tn_rejected tn1"
    using 4 by (auto simp: end_turn_def host_offer_def next_frame_def Let_def split: if_splits option.splits prod.splits sum.splits)
  with sh d f2 f3 show ?thesis by (simp add: turn_default_def)
qed

section \<open>The link\<close>

text \<open>Both sessions, the frames each has sent on this link, and, for the statements, what was typed into the
  session and what the shell was given.\<close>

record ('l, 'p, 't, 'q, 'h, 'k) session_link =
  dx_client :: "('l, 'p) client"
  dx_host :: "('t, 'q, 'h, 'k) host_session"
  dx_up :: "frame list"
  dx_down :: "frame list"
  dx_typed :: bytes
  dx_shell :: bytes

text \<open>Both ends as an attach leaves them.\<close>

definition fresh_client :: "('l, 'p) client \<Rightarrow> bool" where
  "fresh_client c \<longleftrightarrow> (\<exists>sz b. cls_input_tx c = sender_new (fresh_input sz)
    \<and> blank (ts_rows sz) (ts_cols sz) = Inr b \<and> cls_screen_rx c = receiver_new b)"

definition fresh_host :: "('t, 'q, 'h, 'op) emulator \<Rightarrow> ('t, 'q, 'h, 'k) host_session \<Rightarrow> bool" where
  "fresh_host em h \<longleftrightarrow> session_ok em h \<and> hs_term h \<noteq> None \<and> hs_written h = 0
    \<and> (\<exists>sz b. blank (ts_rows sz) (ts_cols sz) = Inr b \<and> hs_input_rx h = receiver_new (empty_input sz)
        \<and> hs_screen_tx h = sender_new b)"

lemma client_new_fresh: "client_new sz caps link rb h ext now seed = Inr s \<Longrightarrow> fresh_client s"
  by (auto simp: client_new_def and_then_Inr_iff fresh_client_def)

lemma client_start_fresh:
  fixes s :: "('l, 'p) client"
  assumes "client_start lib w sz caps link rb h i act lob sb c ws = Inr s"
  shows "fresh_client s"
proof -
  obtain s0 :: "('l, 'p) client" where s0: "client_new sz caps link (Some rb) h (lb_ext lib) (nw_now w) (nw_seen w) = Inr s0"
    using assms unfolding client_start_def and_then_Inr_iff by blast
  have "wire s = wire s0"
    using assms unfolding client_start_def s0
    by (auto simp: with_config_def with_standby_def with_lobby_def with_activity_def with_identity_def Let_def split: option.splits)
  with client_new_fresh [OF s0] show ?thesis by (simp add: fresh_client_def wire_def)
qed

lemma swap_fresh: "swap_in_as w link reason s = Inr s' \<Longrightarrow> fresh_client s'"
  by (auto simp: swap_in_as_def and_then_Inr_iff fresh_client_def emit_def)

lemma adopt_fresh:
  assumes "adopt_as em link sz why now pty s = Inr (s', closes)" "session_ok em s" "hs_term s \<noteq> None"
  shows "fresh_host em s'"
proof -
  obtain s1 where 1: "hs_resize em sz pty (s\<lparr>hs_link := link\<rparr>) = Inr s1"
    using assms(1) by (cases "hs_resize em sz pty (s\<lparr>hs_link := link\<rparr>)") (simp_all add: adopt_as_def)
  have "session_ok em (s\<lparr>hs_link := link\<rparr>)" using assms(2) by (auto simp: session_ok_def split: option.splits)
  from hs_resize_ok [OF 1 this] assms(3) have size: "hs_size s1 = sz" and "hs_term s1 \<noteq> None" by auto
  with assms(1) 1 obtain b where "blank (ts_rows sz) (ts_cols sz) = Inr b" "hs_screen_tx s' = sender_new b"
    by (auto simp: adopt_as_def and_then_Inr_iff map_err_Inr_iff Let_def)
  with adopt_as_ok [OF assms(1,2)] assms(3) show ?thesis by (auto simp: fresh_host_def)
qed

lemma spawn_fresh:
  assumes "lobby sz history link now = Inr s" "start_shell em pty s = (Inr (), s')"
  shows "fresh_host em s'"
proof -
  obtain b where "blank (ts_rows sz) (ts_cols sz) = Inr b"
    using assms(1) by (auto simp: lobby_def and_then_Inr_iff)
  moreover from this have "b = blank_state (ts_rows sz) (ts_cols sz)" by (rule blank_wf(2))
  moreover have "hs_written s' = length (pending_of s)" "hs_term s' \<noteq> None"
    using assms(2) by (auto simp: start_shell_def split: sum.splits option.splits)
  moreover have "pending_of s = []"
    using lobby_ok(3) [OF assms(1)] by (simp add: receiver_new_def rcv_state_def empty_input_def)
  moreover note lobby_ok [OF assms(1)] start_shell_ok [OF assms(2) lobby_ok(1) [OF assms(1)]]
  ultimately show ?thesis by (auto simp: fresh_host_def)
qed

inductive link_lives ::
  "('t, 'q, 'h, 'op) emulator \<Rightarrow> 'p client_lib \<Rightarrow> ('l, 'p, 't, 'q, 'h, 'k) session_link \<Rightarrow> bool"
  for em lib where
  attach: "fresh_client c \<Longrightarrow> fresh_host em h \<Longrightarrow>
    link_lives em lib \<lparr>dx_client = c, dx_host = h, dx_up = [], dx_down = [], dx_typed = [], dx_shell = []\<rparr>"
| client: "link_lives em lib D \<Longrightarrow> keeps_link e \<Longrightarrow> frames_of w e \<subseteq> set (dx_down D) \<Longrightarrow>
    client_do lib w e (dx_client D) = Some c \<Longrightarrow> room (sender_current (cls_input_tx c)) \<Longrightarrow>
    fs = drop (length (sent_frames (cls_out (dx_client D)))) (sent_frames (cls_out c)) \<Longrightarrow>
    (\<And>f. f \<in> set fs \<Longrightarrow> frame_fits (lb_input lib) f) \<Longrightarrow>
    link_lives em lib (D\<lparr>dx_client := c, dx_up := rev fs @ dx_up D, dx_typed := dx_typed D @ typed_by w e (dx_client D)\<rparr>)"
| host: "link_lives em lib D \<Longrightarrow> set fs \<subseteq> set (dx_up D) \<Longrightarrow>
    turn_at em (lb_input lib) (lb_screen lib) now (env :: ustr turn_env) fs (dx_host D) = Inr (tn, h) \<Longrightarrow>
    scr_seq (sender_current (hs_screen_tx h)) \<noteq> - 1 \<Longrightarrow> (\<And>f. tn_sent tn = Some f \<Longrightarrow> frame_fits (lb_screen lib) f) \<Longrightarrow>
    link_lives em lib (D\<lparr>dx_host := h, dx_down := (case tn_sent tn of Some f \<Rightarrow> [f] | None \<Rightarrow> []) @ dx_down D,
      dx_shell := dx_shell D @ tn_shell tn\<rparr>)"

definition link_ok ::
  "('t, 'q, 'h, 'op) emulator \<Rightarrow> 'p client_lib \<Rightarrow> ('l, 'p, 't, 'q, 'h, 'k) session_link \<Rightarrow> bool" where
  "link_ok em lib D \<longleftrightarrow> (\<exists>i0 b0 hi hs. up.pair_inv (lb_input lib) i0 (lb_screen lib) b0
        (client_wire (dx_up D) hi (dx_client D)) (host_wire (dx_down D) hs (dx_host D)))
    \<and> in_seq (sender_current (cls_input_tx (dx_client D))) \<noteq> 0
    \<and> session_ok em (dx_host D) \<and> hs_term (dx_host D) \<noteq> None
    \<and> dx_typed D = in_pending (sender_current (cls_input_tx (dx_client D)))
    \<and> dx_shell D = pending_of (dx_host D) \<and> hs_written (dx_host D) = length (dx_shell D)"

lemma link_okI:
  assumes "up.pair_inv (lb_input lib) i0 (lb_screen lib) b0 (client_wire (dx_up D) hi (dx_client D)) (host_wire (dx_down D) hs (dx_host D))"
    and "in_seq (sender_current (cls_input_tx (dx_client D))) \<noteq> 0" "session_ok em (dx_host D) \<and> hs_term (dx_host D) \<noteq> None"
    and "dx_typed D = in_pending (sender_current (cls_input_tx (dx_client D)))"
    and "dx_shell D = pending_of (dx_host D)" "hs_written (dx_host D) = length (pending_of (dx_host D))"
  shows "link_ok em lib D"
  using assms unfolding link_ok_def by auto

lemma attach_ok:
  assumes "fresh_client c" "fresh_host em h"
  shows "link_ok em lib \<lparr>dx_client = c, dx_host = h, dx_up = [], dx_down = [], dx_typed = [], dx_shell = []\<rparr>"
proof -
  obtain z b where c: "cls_input_tx c = sender_new (fresh_input z)" "cls_screen_rx c = receiver_new b"
    "blank (ts_rows z) (ts_cols z) = Inr b"
    using assms(1) by (auto simp: fresh_client_def)
  obtain sz s0 where h: "blank (ts_rows sz) (ts_cols sz) = Inr s0" "hs_input_rx h = receiver_new (empty_input sz)"
    "hs_screen_tx h = sender_new s0"
    using assms(2) by (auto simp: fresh_host_def)
  have "up.pair_inv (lb_input lib) (empty_input sz) (lb_screen lib) b
    (client_wire [] [fresh_input z] c) (host_wire [] [s0] h)"
    unfolding client_wire_def host_wire_def c h
    using blank_wf(1,2) [OF c(3)] blank_wf(1,2) [OF h(1)]
    by (intro up.pair_init)
      (simp_all add: input_wf_def fresh_input_def empty_input_def typed_on_def monotone_from_def blank_state_def)
  then show ?thesis
    using assms(2) c h by (auto simp: link_ok_def fresh_host_def sender_new_def sender_current_def receiver_new_def rcv_state_def
        fresh_input_def empty_input_def)
qed

lemma client_ok_step:
  assumes "link_ok em lib D" "keeps_link e" "frames_of w e \<subseteq> set (dx_down D)" "codec_ok (lb_input lib)"
    and "client_do lib w e (dx_client D) = Some c" "room (sender_current (cls_input_tx c))"
    and "fs = drop (length (sent_frames (cls_out (dx_client D)))) (sent_frames (cls_out c))"
    and "\<And>f. f \<in> set fs \<Longrightarrow> frame_fits (lb_input lib) f"
  shows "link_ok em lib (D\<lparr>dx_client := c, dx_up := rev fs @ dx_up D, dx_typed := dx_typed D @ typed_by w e (dx_client D)\<rparr>)"
proof -
  from assms(1) obtain i0 b0 hi hs where pair: "up.pair_inv (lb_input lib) i0 (lb_screen lib) b0
      (client_wire (dx_up D) hi (dx_client D)) (host_wire (dx_down D) hs (dx_host D))"
    and nz: "in_seq (sender_current (cls_input_tx (dx_client D))) \<noteq> 0"
    by (auto simp: link_ok_def)
  from client_do_speaks [OF assms(5,2,3)] obtain gs where
    t: "talks lib (dx_down D) (cls_input_tx (dx_client D), cls_screen_rx (dx_client D)) (typed_by w e (dx_client D)) gs
        (cls_input_tx c, cls_screen_rx c)"
    and "sent_frames (cls_out c) = sent_frames (cls_out (dx_client D)) @ gs"
    by (auto simp: speaks_def)
  with assms(7) have gs: "gs = fs" by simp
  note s = talks_steps [OF t nz, of "dx_up D" hi]
  from s assms(6,8) obtain h' where "(input_step lib (dx_down D))\<^sup>*\<^sup>* (client_wire (dx_up D) hi (dx_client D))
      (client_wire (rev fs @ dx_up D) h' c)"
    by (auto simp: client_wire_def gs)
  then have "up.pair_inv (lb_input lib) i0 (lb_screen lib) b0 (client_wire (rev fs @ dx_up D) h' c) (host_wire (dx_down D) hs (dx_host D))"
    by (intro up.pair_steps [OF _ pair assms(4)]) (simp add: host_wire_def)
  then show ?thesis using s assms(1) by (auto simp: link_ok_def)
qed

lemma host_ok_step:
  assumes "link_ok em lib D" "set fs \<subseteq> set (dx_up D)" "codec_ok (lb_screen lib)"
    and "turn_at em (lb_input lib) (lb_screen lib) now env fs (dx_host D) = Inr (tn, h)"
    and "scr_seq (sender_current (hs_screen_tx h)) \<noteq> - 1" "\<And>f. tn_sent tn = Some f \<Longrightarrow> frame_fits (lb_screen lib) f"
  shows "link_ok em lib (D\<lparr>dx_host := h, dx_down := (case tn_sent tn of Some f \<Rightarrow> [f] | None \<Rightarrow> []) @ dx_down D,
      dx_shell := dx_shell D @ tn_shell tn\<rparr>) \<and> tn_rejected tn = 0"
proof -
  from assms(1) obtain i0 b0 hi hs where pair: "up.pair_inv (lb_input lib) i0 (lb_screen lib) b0
      (client_wire (dx_up D) hi (dx_client D)) (host_wire (dx_down D) hs (dx_host D))"
    and ok: "session_ok em (dx_host D)" "hs_term (dx_host D) \<noteq> None" "hs_written (dx_host D) = length (pending_of (dx_host D))"
      "dx_shell D = pending_of (dx_host D)"
    by (auto simp: link_ok_def)
  have out: "set fs \<subseteq> set (we_out (client_wire (dx_up D) hi (dx_client D)))" using assms(2) by (simp add: client_wire_def)
  note sh = turn_shell [OF assms(4) ok(1) pair out assms(3) ok(2,3)]
  from turn_steps [OF assms(4) ok(1) assms(2,5,6), of "dx_down D" hs] obtain h' where
    steps: "(screen_step lib (dx_up D))\<^sup>*\<^sup>* (host_wire (dx_down D) hs (dx_host D))
      (host_wire ((case tn_sent tn of Some f \<Rightarrow> [f] | None \<Rightarrow> []) @ dx_down D) h' h)" by blast
  let ?down = "(case tn_sent tn of Some f \<Rightarrow> [f] | None \<Rightarrow> []) @ dx_down D"
  have up: "(screen_step lib (we_out (client_wire (dx_up D) hi (dx_client D))))\<^sup>*\<^sup>* (host_wire (dx_down D) hs (dx_host D))
      (host_wire ?down h' h)"
    using steps by (simp add: client_wire_def)
  have p: "up.pair_inv (lb_input lib) i0 (lb_screen lib) b0 (client_wire (dx_up D) hi (dx_client D)) (host_wire ?down h' h)"
    using down.pair_steps [OF up _ assms(3)] pair by (simp only: pair_swap)
  have t: "session_ok em h \<and> hs_term h \<noteq> None"
    by (rule turn_channels [OF assms(4) ok(1)]) (use ok(2) in simp)
  have s': "dx_shell D @ tn_shell tn = pending_of h"
    unfolding ok(4) using sh by (auto simp: prefix_def)
  have i: "in_seq (sender_current (cls_input_tx (dx_client D))) \<noteq> 0"
    "dx_typed D = in_pending (sender_current (cls_input_tx (dx_client D)))"
    using assms(1) unfolding link_ok_def by blast+
  have "link_ok em lib (D\<lparr>dx_host := h, dx_down := ?down, dx_shell := dx_shell D @ tn_shell tn\<rparr>)"
    using p t s' i sh by (intro link_okI [of lib i0 b0 _ hi h']) simp_all
  then show ?thesis using sh by blast
qed

lemma link_lives_ok:
  assumes "link_lives em lib D" "codec_ok (lb_input lib)" "codec_ok (lb_screen lib)"
  shows "link_ok em lib D"
  using assms(1)
proof (induction rule: link_lives.induct)
  case (attach c h)
  then show ?case by (rule attach_ok)
next
  case (client D e w c fs)
  then show ?case using assms(2) by (intro client_ok_step)
next
  case (host D fs now env tn h)
  then show ?case using host_ok_step [OF host.IH host.hyps(2) assms(3) host.hyps(3,4)] by blast
qed

section \<open>Properties\<close>

lemma client_frames_accepted:
  assumes "up.pair_inv (lb_input lib) i0 (lb_screen lib) b0 E H" "we_rx E = cls_screen_rx s" "set fs \<subseteq> set (we_out H)"
    and "codec_ok (lb_input lib)"
  shows "ct_rejected (fst (snd (fold (client_frame lib w) fs (p, tn, s)))) = ct_rejected tn"
  using assms(1-3)
proof (induction fs arbitrary: E p tn s)
  case (Cons f fs)
  have f: "f \<in> set (we_out H)" using Cons.prems(3) by simp
  obtain b rx where on: "on_frame screen_ops (lb_screen lib) (cls_screen_rx s) f = (Inr b, rx)"
    using up.pair_no_refusal [OF Cons.prems(1) f] Cons.prems(2) by metis
  obtain p1 tn1 s1 where fr: "client_frame lib w f (p, tn, s) = (p1, tn1, s1)" by (metis prod_cases3)
  have s1: "cls_screen_rx s1 = rx" "ct_rejected tn1 = ct_rejected tn"
    using fr on
    by (auto simp: client_frame_def Let_def case_prod_beta note_heard_def set_link_def emit_def split: if_splits option.splits)
  have "input_step lib (we_out H) E (E\<lparr>we_rx := rx\<rparr>)"
    using end_step.receive [OF f, where E = E and cdc' = "lb_screen lib" and ops' = screen_ops] on Cons.prems(2) by simp
  from up.pair_step [OF Cons.prems(1) assms(4) this] Cons.IH [of "E\<lparr>we_rx := rx\<rparr>" s1 p1 tn1] Cons.prems(3) s1 show ?case
    by (simp add: fr)
qed simp

lemma client_turn_accepts:
  assumes "up.pair_inv (lb_input lib) i0 (lb_screen lib) b0 (client_wire out h s) H" "set fs \<subseteq> set (we_out H)" "codec_ok (lb_input lib)"
  shows "ct_rejected (fst (client_turn lib w bs fs s)) = 0"
proof -
  let ?s1 = "if bs \<noteq> [] then queue_input bs s else s"
  have "we_rx (client_wire out h s) = cls_screen_rx ?s1" by (simp add: client_wire_def queue_input_def)
  from client_frames_accepted [OF assms(1) this assms(2,3), of w False "\<lparr>ct_sent = None, ct_applied = 0, ct_rejected = 0\<rparr>"]
  show ?thesis by (simp add: client_turn_def take_frames_def Let_def case_prod_beta)
qed


text \<open>C3: no frame of either end is ever refused. Whatever frames the client's turns and the host's turns take off
  the link, of those the other end has sent on it, in any order and any number of times, the count of rejected
  frames of a turn is zero.\<close>

theorem no_turn_rejects_a_frame:
  assumes "link_lives em lib D" "codec_ok (lb_input lib)" "codec_ok (lb_screen lib)"
    and "set fs \<subseteq> set (dx_down D)" "set gs \<subseteq> set (dx_up D)"
    and "turn_at em (lb_input lib) (lb_screen lib) now env gs (dx_host D) = Inr (tn, h)"
  shows "ct_rejected (fst (client_turn lib w bs fs (dx_client D))) = 0 \<and> tn_rejected tn = 0"
proof -
  from link_lives_ok [OF assms(1-3)] obtain i0 b0 hi hs where
    pair: "up.pair_inv (lb_input lib) i0 (lb_screen lib) b0
      (client_wire (dx_up D) hi (dx_client D)) (host_wire (dx_down D) hs (dx_host D))"
    and ok: "session_ok em (dx_host D)" "hs_term (dx_host D) \<noteq> None" "hs_written (dx_host D) = length (pending_of (dx_host D))"
    unfolding link_ok_def by metis
  have "ct_rejected (fst (client_turn lib w bs fs (dx_client D))) = 0"
    by (rule client_turn_accepts [OF pair _ assms(2)]) (use assms(4) in \<open>simp add: host_wire_def\<close>)
  moreover have "set gs \<subseteq> set (we_out (client_wire (dx_up D) hi (dx_client D)))" using assms(5) by (simp add: client_wire_def)
  from turn_shell [OF assms(6) ok(1) pair this assms(3) ok(2,3)] have "tn_rejected tn = 0" by blast
  ultimately show ?thesis by blast
qed

text \<open>C2: the client shows what the host shows. The screen a client holds is one the host may be ahead of but
  never at odds with -- bell, scrollback and clipboard counts only move on -- and as soon as the host is owed no
  acknowledgement the two are the same screen.\<close>

theorem screens_agree_when_acknowledged:
  assumes "link_lives em lib D" "codec_ok (lb_input lib)" "codec_ok (lb_screen lib)"
  shows "monotone_from (rcv_state (cls_screen_rx (dx_client D))) (sender_current (hs_screen_tx (dx_host D)))
    \<and> (rcv_peer_ack (hs_input_rx (dx_host D)) = scr_seq (sender_current (hs_screen_tx (dx_host D)))
        \<longrightarrow> rcv_state (cls_screen_rx (dx_client D)) = sender_current (hs_screen_tx (dx_host D)))"
proof -
  from link_lives_ok [OF assms] obtain i0 b0 hi hs where
    "up.pair_inv (lb_input lib) i0 (lb_screen lib) b0
      (client_wire (dx_up D) hi (dx_client D)) (host_wire (dx_down D) hs (dx_host D))"
    unfolding link_ok_def by blast
  then have pair: "down.pair_inv (lb_screen lib) b0 (lb_input lib) i0
      (host_wire (dx_down D) hs (dx_host D)) (client_wire (dx_up D) hi (dx_client D))"
    by (simp only: pair_swap)
  from down.pair_behind [OF pair] down.pair_acknowledged [OF pair] show ?thesis
    by (auto simp: client_wire_def host_wire_def)
qed

section \<open>A key, typed and delivered\<close>

text \<open>A session of the small emulator, a client attached to it, and the letter \<open>a\<close> typed: the client sends it in a
  frame, and a turn of the host writes it to the shell.\<close>

definition small_size :: term_size where
  "small_size = \<lparr>ts_cols = 2, ts_rows = 1\<rparr>"

definition typed_a :: input_state where
  "typed_a = \<lparr>in_seq = 2, in_pending = [0x61], in_size = small_size\<rparr>"

definition small_lib :: "unit client_lib" where
  "small_lib = sample_lib\<lparr>lb_input := one_diff_codec (input_full_diff typed_a)\<rparr>"

definition small_client :: "(nat, unit) client" where
  "small_client = projr (client_new small_size client_caps 0 None sample_store Config.sample_ext 0 None)"

definition small_lobby :: "(ustr, unit, ustr, nat) host_session" where
  "small_lobby = projr (lobby small_size 100 0 0)"

definition small_host :: "(ustr, unit, ustr, nat) host_session" where
  "small_host = snd (start_shell toy (Inr () :: ustr + unit) small_lobby)"

definition small_link :: "(nat, unit, ustr, unit, ustr, nat) session_link" where
  "small_link = \<lparr>dx_client = small_client, dx_host = small_host, dx_up = [], dx_down = [], dx_typed = [], dx_shell = []\<rparr>"

lemma small_blank: "blank (ts_rows small_size) (ts_cols small_size) = Inr (blank_state 1 2)"
proof -
  have c: "check_bounds \<lparr>ts_cols = 2, ts_rows = 1\<rparr> = Inr ()"
    by (simp add: check_bounds_ok_iff limit_defs)
  then have "validate (blank_state 1 2) = Inr ()"
    using screen_valid_blank by (simp add: validate_ok_iff)
  with c show ?thesis by (simp add: blank_def small_size_def)
qed

lemma small_client_new: "client_new small_size client_caps 0 None sample_store Config.sample_ext 0 None = Inr small_client"
  by (simp add: small_client_def client_new_def small_blank)

lemma small_lobby_new: "lobby small_size 100 0 0 = Inr small_lobby"
  by (simp add: small_lobby_def lobby_def small_blank)

lemma small_lobby_fields:
  "hs_size small_lobby = \<lparr>ts_cols = 2, ts_rows = 1\<rparr>" "hs_input_rx small_lobby = receiver_new (empty_input small_size)"
  "hs_screen_tx small_lobby = sender_new (blank_state 1 2)" "hs_last_heard small_lobby = 0" "hs_detach_after small_lobby = DETACH_AFTER"
  by (simp_all add: small_lobby_def lobby_def small_blank) (simp add: small_size_def)

lemma small_started: "start_shell toy (Inr () :: ustr + unit) small_lobby = (Inr (), small_host)"
  by (simp add: small_host_def start_shell_def small_lobby_fields spawn_with_def grid_size_new_def check_bounds_def limit_defs)

lemma small_attached: "link_lives toy small_lib small_link"
  unfolding small_link_def
  by (rule link_lives.attach [OF client_new_fresh [OF small_client_new] spawn_fresh [OF small_lobby_new small_started]])

lemma small_codecs: "codec_ok (lb_input small_lib)" "codec_ok (lb_screen small_lib)"
  by (simp_all add: small_lib_def sample_lib_def one_diff_codec_ok)

lemma small_client_fields:
  "cls_ui small_client = ui_new" "ls_phase (cls_link_state small_client) = Live" "cls_in_lobby small_client = False"
  "client_asking small_client = False" "cls_input_tx small_client = sender_new (fresh_input small_size)"
  "cls_screen_rx small_client = receiver_new (blank_state 1 2)" "cls_size small_client = small_size" "cls_out small_client = []"
  by (simp_all add: small_client_def client_new_def small_blank link_new_def client_asking_def)

definition small_frame :: frame where
  "small_frame = \<lparr>f_my_state = 2, f_from_state = 0, f_ack_state = 0, f_flags = 0, f_payload = []\<rparr>"

lemma small_keys: "ui_keys [0x61] Live now (set_switcher False False ui_new) = (set_switcher False False ui_new, routed_default\<lparr>to_host := [0x61]\<rparr>)"
  by (simp add: ui_keys_def ui_new_def set_switcher_def note_question_def visible_def deliver_def routed_default_def PREFIX_def is_config_def Let_def)

lemma small_turn:
  "\<exists>c. client_do small_lib sample_outside (OnKeys [0x61]) small_client = Some c
    \<and> sender_current (cls_input_tx c) = typed_a \<and> sent_frames (cls_out c) = [small_frame]"
  using small_keys
  by (simp add: route_keys_def small_client_fields client_command_def routed_default_def client_turn_def take_frames_def sample_outside_def
      client_offer_def client_due_def queue_input_def Let_def on_ack_def sender_update_def sender_new_def sender_current_def cap_ring.simps
      STATE_RING_def receiver_new_def rcv_ack_def make_frame_def input_ops_def input_append_def fresh_input_def small_lib_def
      one_diff_codec_def typed_a_def pack_payload_def emit_def small_frame_def sat_add_def input_full_diff_def map_err_def)

definition small_env :: "ustr turn_env" where
  "small_env = \<lparr>te_write = (\<lambda>_. None), te_resize = Inr (), te_reads = (\<lambda>_. Inr []), te_exit = None, te_closed = True, te_pacing = 0\<rparr>"

lemma small_delivered:
  "\<exists>r. on_frame input_ops (lb_input small_lib) (receiver_new (empty_input small_size)) small_frame = (Inr True, r)
    \<and> rcv_state r = typed_a \<and> rcv_peer_ack r = 0"
  by (simp add: on_frame_def small_frame_def receiver_new_def is_stale_def decode_payload_def small_lib_def one_diff_codec_def input_ops_def
      input_full_diff_def input_apply_def commit_def rcv_state_def frame_base_def typed_a_def empty_input_def input_validate_def
      map_err_def cap_ring.simps Let_def)

lemma small_host_turn:
  "\<exists>tn h. turn_at toy (lb_input small_lib) (lb_screen small_lib) 0 small_env [small_frame] small_host = Inr (tn, h)
    \<and> scr_seq (sender_current (hs_screen_tx h)) = 1 \<and> tn_sent tn = None \<and> tn_shell tn = [0x61]"
proof -
  obtain r where r: "on_frame input_ops (lb_input small_lib) (receiver_new (empty_input small_size)) small_frame = (Inr True, r)"
    "rcv_state r = typed_a" "rcv_peer_ack r = 0"
    using small_delivered by blast
  have h: "hs_input_rx small_host = receiver_new (empty_input small_size)" "hs_written small_host = 0" "hs_size small_host = small_size"
    "hs_screen_tx small_host = sender_new (blank_state 1 2)" "hs_term small_host \<noteq> None"
    by (simp_all add: small_host_def start_shell_def small_lobby_fields spawn_with_def grid_size_new_def check_bounds_def limit_defs
        small_size_def receiver_new_def rcv_state_def empty_input_def)
  obtain t where t: "hs_term small_host = Some t" using h(5) by blast
  have p: "\<exists>m t' rep. poll toy (\<lambda>_. Inr [] :: ustr + bytes) t = (Inr m, t', rep)"
    by (simp add: poll_def poll_loop.simps READ_BUDGET_def case_prod_beta)
  then obtain m t' rep where p: "poll toy (\<lambda>_. Inr [] :: ustr + bytes) t = (Inr m, t', rep)" by blast
  show ?thesis
    using r p
    by (simp add: turn_at_def host_frame_def h t Let_def drain_input_def small_env_def typed_a_def turn_default_def note_delivered_def
        follow_size_def host_attached_def host_poll_def end_turn_def child_exited_def on_ack_def sender_new_def acked_def sender_current_def blank_state_def)
qed

text \<open>After the key, and after the turn that took the frame.\<close>

lemma small_link_typed:
  obtains c where "link_lives toy small_lib (small_link\<lparr>dx_client := c, dx_up := [small_frame], dx_typed := [0x61]\<rparr>)"
proof -
  obtain c where c: "client_do small_lib sample_outside (OnKeys [0x61]) small_client = Some c"
    "sender_current (cls_input_tx c) = typed_a" "sent_frames (cls_out c) = [small_frame]"
    using small_turn by blast
  have fits: "frame_fits (lb_input small_lib) small_frame" by (simp add: frame_fits_def small_frame_def)
  have "link_lives toy small_lib (small_link\<lparr>dx_client := c, dx_up := rev [small_frame] @ dx_up small_link,
      dx_typed := dx_typed small_link @ typed_by sample_outside (OnKeys [0x61]) (dx_client small_link)\<rparr>)"
    by (rule link_lives.client [OF small_attached, of "OnKeys [0x61]" sample_outside])
      (use c fits in \<open>simp_all add: small_link_def frames_of_def sample_outside_def room_def typed_a_def small_client_fields\<close>)
  moreover have "typed_by sample_outside (OnKeys [0x61]) small_client = [0x61]"
    using small_keys by (simp add: typed_by_def small_client_fields routed_default_def)
  ultimately show thesis by (intro that [of c]) (simp add: small_link_def)
qed


theorem no_turn_rejects_a_frame_witness:
  "\<exists>tn h. turn_at toy (lb_input small_lib) (lb_screen small_lib) 0 small_env [small_frame] small_host = Inr (tn, h) \<and> tn_rejected tn = 0"
proof -
  obtain c where c: "link_lives toy small_lib (small_link\<lparr>dx_client := c, dx_up := [small_frame], dx_typed := [0x61]\<rparr>)" (is "link_lives _ _ ?D")
    by (rule small_link_typed)
  obtain tn h where h: "turn_at toy (lb_input small_lib) (lb_screen small_lib) 0 small_env [small_frame] small_host = Inr (tn, h)"
    using small_host_turn by blast
  have host: "dx_host ?D = small_host" "set [small_frame] \<subseteq> set (dx_up ?D)" "set [] \<subseteq> set (dx_down ?D)"
    by (simp_all add: small_link_def)
  have "tn_rejected tn = 0"
    using no_turn_rejects_a_frame [OF c small_codecs host(3,2)] h host(1) by metis
  with h show ?thesis by blast
qed

theorem screens_agree_when_acknowledged_witness:
  "monotone_from (rcv_state (cls_screen_rx small_client)) (sender_current (hs_screen_tx small_host))"
  using screens_agree_when_acknowledged [OF small_attached small_codecs] by (simp add: small_link_def)

end
