(* ===== verification/Host_Ladder.thy ===== *)
theory Host_Ladder
  imports Net_Path
begin

text \<open>
  The connection ladder's policy (\<open>crates/oxutrm-host/src/ladder.rs\<close>): which rungs are raced, which
  are tried in order after the race, and which are skipped with a reason, from both ends' facts.
\<close>

record end_facts =
  ef_nat :: family_nat
  ef_v4 :: bool
  ef_v6 :: bool
  ef_srflx_v4 :: bool
  ef_srflx_v6 :: bool

definition has_family :: "candidate list \<Rightarrow> family \<Rightarrow> bool" where
  "has_family candidates f = (\<exists>c\<in>set candidates. family_of (cand_addr c) = f)"

definition has_srflx_in :: "candidate list \<Rightarrow> family \<Rightarrow> bool" where
  "has_srflx_in candidates f =
    (\<exists>c\<in>set candidates. cand_kind c = ServerReflexive \<and> family_of (cand_addr c) = f)"

definition from_candidates :: "family_nat \<Rightarrow> candidate list \<Rightarrow> end_facts" where
  "from_candidates nt candidates = \<lparr>ef_nat = nt,
     ef_v4 = has_family candidates V4, ef_v6 = has_family candidates V6,
     ef_srflx_v4 = has_srflx_in candidates V4, ef_srflx_v6 = has_srflx_in candidates V6\<rparr>"

definition ef_has :: "end_facts \<Rightarrow> family \<Rightarrow> bool" where
  "ef_has e f = (case f of V4 \<Rightarrow> ef_v4 e | V6 \<Rightarrow> ef_v6 e)"

definition ef_has_srflx :: "end_facts \<Rightarrow> family \<Rightarrow> bool" where
  "ef_has_srflx e f = (case f of V4 \<Rightarrow> ef_srflx_v4 e | V6 \<Rightarrow> ef_srflx_v6 e)"

definition family_label :: "family \<Rightarrow> string" where
  "family_label f = (case f of V4 \<Rightarrow> ''IPv4'' | V6 \<Rightarrow> ''IPv6'')"

record ladder_plan =
  raced :: "rung list"
  sequential :: "rung list"
  skipped :: "(rung \<times> string) list"

section \<open>The plan\<close>

definition family_rungs :: "family \<Rightarrow> rung list" where
  "family_rungs f = filter (\<lambda>r. rung_family r = Some f) ALL_RUNGS"

definition missing_reason :: "end_facts \<Rightarrow> end_facts \<Rightarrow> family \<Rightarrow> string option" where
  "missing_reason ours theirs f =
    (if \<not> ef_has ours f then Some (''this end has no '' @ family_label f @ '' address'')
     else if \<not> ef_has theirs f then Some (''the peer has no '' @ family_label f @ '' address'')
     else None)"

definition punch_skips :: "end_facts \<Rightarrow> family \<Rightarrow> (rung \<times> string) list" where
  "punch_skips ours f =
    (let n = nat_get (ef_nat ours) f in
     if n = Symmetric \<or> n = AddressDependent then
       [(Punched f,
         ''the '' @ family_label f @ '' NAT is ''
           @ (if n = Symmetric then ''symmetric'' else ''address-dependent'')
           @ '', so its external port differs per destination and ordinary punching is not expected to reach it'')]
     else [])"

definition might_need_blast :: "nat_type \<Rightarrow> bool" where
  "might_need_blast n = (n = Symmetric \<or> n = AddressDependent \<or> n = NatUnknown)"

definition no_blast_reason :: "end_facts \<Rightarrow> end_facts \<Rightarrow> family \<Rightarrow> string option" where
  "no_blast_reason ours theirs f =
    (if \<not> might_need_blast (nat_get (ef_nat ours) f)
        \<and> \<not> might_need_blast (nat_get (ef_nat theirs) f)
     then Some (''neither end's '' @ family_label f
       @ '' NAT changes its port per destination, so ordinary punching covers it'')
     else if \<not> ef_has_srflx ours f
     then Some (''this end offered no '' @ family_label f
       @ '' server-reflexive candidate, so the peer has no observed external port to guess around, and a blast from one end alone is aimed at nobody'')
     else if \<not> ef_has_srflx theirs f
     then Some (''the peer offered no '' @ family_label f
       @ '' server-reflexive candidate, so there is no observed external port to guess around'')
     else None)"

text \<open>One lap of the loop over the families: what it pushes onto \<open>skipped\<close>.\<close>

definition family_skips :: "end_facts \<Rightarrow> end_facts \<Rightarrow> family \<Rightarrow> (rung \<times> string) list" where
  "family_skips ours theirs f =
    (case missing_reason ours theirs f of
       Some why \<Rightarrow> map (\<lambda>r. (r, why)) (family_rungs f)
     | None \<Rightarrow>
         punch_skips ours f
         @ (case no_blast_reason ours theirs f of
              Some why \<Rightarrow> [(Birthday f, why)]
            | None \<Rightarrow> []))"

fun is_raced_method :: "rung \<Rightarrow> bool" where
  "is_raced_method (Direct _) = True"
| "is_raced_method (PortMapped _) = True"
| "is_raced_method (Punched _) = True"
| "is_raced_method _ = False"

fun is_birthday :: "rung \<Rightarrow> bool" where
  "is_birthday (Birthday _) = True"
| "is_birthday _ = False"

definition for_ends :: "end_facts \<Rightarrow> end_facts \<Rightarrow> ladder_plan" where
  "for_ends ours theirs =
    (let skips = concat (map (family_skips ours theirs) BOTH);
         is_skipped = (\<lambda>r. \<exists>s\<in>set skips. fst s = r)
     in \<lparr>raced = filter (\<lambda>r. \<not> is_skipped r) (filter is_raced_method ALL_RUNGS),
         sequential = filter (\<lambda>r. \<not> is_skipped r) (filter is_birthday ALL_RUNGS) @ [SshTunnel],
         skipped = skips\<rparr>)"

definition attempted :: "ladder_plan \<Rightarrow> rung list" where
  "attempted p = raced p @ sequential p"

section \<open>Which rungs are skipped\<close>

text \<open>The specification: a rung is hopeless when an end lacks its family; a punch when our own NAT
  changes its port per destination; a blast when it is not needed or not possible.\<close>

definition hopeless :: "end_facts \<Rightarrow> end_facts \<Rightarrow> rung \<Rightarrow> bool" where
  "hopeless ours theirs r =
    (case rung_family r of
       None \<Rightarrow> False
     | Some f \<Rightarrow>
         \<not> (ef_has ours f \<and> ef_has theirs f)
         \<or> (r = Punched f \<and> nat_get (ef_nat ours) f \<in> {Symmetric, AddressDependent})
         \<or> (r = Birthday f \<and>
             (\<not> (might_need_blast (nat_get (ef_nat ours) f)
                  \<or> might_need_blast (nat_get (ef_nat theirs) f))
              \<or> \<not> (ef_has_srflx ours f \<and> ef_has_srflx theirs f))))"

lemma family_rungs_set: "r \<in> set (family_rungs f) \<longleftrightarrow> rung_family r = Some f"
  by (simp add: family_rungs_def)

lemma family_skips_family: "(r, why) \<in> set (family_skips ours theirs f) \<Longrightarrow> rung_family r = Some f"
  by (auto simp: family_skips_def family_rungs_set punch_skips_def Let_def
      split: option.splits if_splits)

lemma missing_reason_None_iff:
  "missing_reason ours theirs f = None \<longleftrightarrow> ef_has ours f \<and> ef_has theirs f"
  by (simp add: missing_reason_def)

lemma no_blast_reason_None_iff:
  "no_blast_reason ours theirs f = None \<longleftrightarrow>
    (might_need_blast (nat_get (ef_nat ours) f) \<or> might_need_blast (nat_get (ef_nat theirs) f))
    \<and> ef_has_srflx ours f \<and> ef_has_srflx theirs f"
  by (simp add: no_blast_reason_def)

lemma punch_skips_iff:
  "(\<exists>why. (r, why) \<in> set (punch_skips ours f)) \<longleftrightarrow>
    r = Punched f \<and> nat_get (ef_nat ours) f \<in> {Symmetric, AddressDependent}"
  by (auto simp: punch_skips_def Let_def)

lemma family_skips_iff:
  assumes "rung_family r = Some f"
  shows "(\<exists>why. (r, why) \<in> set (family_skips ours theirs f)) \<longleftrightarrow> hopeless ours theirs r"
proof (cases "missing_reason ours theirs f")
  case None
  then have have_both: "ef_has ours f \<and> ef_has theirs f"
    by (simp add: missing_reason_None_iff)
  have "(\<exists>why. (r, why) \<in> set (family_skips ours theirs f)) \<longleftrightarrow>
      (\<exists>why. (r, why) \<in> set (punch_skips ours f))
      \<or> (r = Birthday f \<and> no_blast_reason ours theirs f \<noteq> None)"
    using None by (auto simp: family_skips_def split: option.splits)
  then show ?thesis
    unfolding punch_skips_iff no_blast_reason_None_iff hopeless_def
    using assms have_both by auto
next
  case (Some why)
  then have "\<not> (ef_has ours f \<and> ef_has theirs f)"
    by (simp flip: missing_reason_None_iff)
  with Some assms show ?thesis
    by (auto simp: family_skips_def family_rungs_set hopeless_def image_iff)
qed

lemma BOTH_set: "f \<in> set BOTH"
  by (cases f) (simp_all add: BOTH_def)

lemma skipped_iff:
  "(\<exists>why. (r, why) \<in> set (skipped (for_ends ours theirs))) \<longleftrightarrow> hopeless ours theirs r"
proof (cases "rung_family r")
  case None
  then show ?thesis
    by (auto simp: for_ends_def Let_def hopeless_def dest!: family_skips_family)
next
  case (Some f)
  have "(\<exists>why. (r, why) \<in> set (skipped (for_ends ours theirs))) \<longleftrightarrow>
      (\<exists>why. (r, why) \<in> set (family_skips ours theirs f))"
    using Some BOTH_set [of f]
    by (auto simp: for_ends_def Let_def) (metis family_skips_family option.inject)
  then show ?thesis
    by (simp add: family_skips_iff [OF Some])
qed

lemma skipped_mem: "(\<exists>s\<in>set skips. fst s = r) \<longleftrightarrow> (\<exists>why. (r, why) \<in> set skips)"
  by force

lemma for_ends_lists:
  "raced (for_ends ours theirs) =
    filter (\<lambda>r. \<not> hopeless ours theirs r) (filter is_raced_method ALL_RUNGS)"
  "sequential (for_ends ours theirs) =
    filter (\<lambda>r. \<not> hopeless ours theirs r) (filter is_birthday ALL_RUNGS) @ [SshTunnel]"
proof -
  have "(\<exists>s\<in>set (concat (map (family_skips ours theirs) BOTH)). fst s = r)
      \<longleftrightarrow> hopeless ours theirs r" for r
    using skipped_iff [of r ours theirs] unfolding skipped_mem by (simp add: for_ends_def Let_def)
  then show "raced (for_ends ours theirs) =
      filter (\<lambda>r. \<not> hopeless ours theirs r) (filter is_raced_method ALL_RUNGS)"
    and "sequential (for_ends ours theirs) =
      filter (\<lambda>r. \<not> hopeless ours theirs r) (filter is_birthday ALL_RUNGS) @ [SshTunnel]"
    unfolding for_ends_def Let_def by (simp_all only: ladder_plan.simps)
qed

text \<open>The race then the rest is the ladder with the hopeless rungs left out.\<close>

lemma ALL_RUNGS_split:
  "ALL_RUNGS = filter is_raced_method ALL_RUNGS @ filter is_birthday ALL_RUNGS @ [SshTunnel]"
  by (simp add: ALL_RUNGS_def)

lemma attempted_eq:
  "attempted (for_ends ours theirs) = filter (\<lambda>r. \<not> hopeless ours theirs r) ALL_RUNGS"
proof -
  have "\<not> hopeless ours theirs SshTunnel"
    by (simp add: hopeless_def)
  then show ?thesis
    unfolding attempted_def for_ends_lists
    by (subst (3) ALL_RUNGS_split) (simp only: filter_append filter.simps if_True append.assoc simp_thms)
qed

lemma blast_symmetric:
  "is_birthday r \<Longrightarrow> hopeless ours theirs r = hopeless theirs ours r"
  by (cases r) (auto simp: hopeless_def)

section \<open>Properties\<close>

text \<open>The two ends never blast alone. Client and host, each planning from its own point of view,
  try the same costly rungs in the same order after the race, for every pair of facts.\<close>

theorem both_ends_plan_the_same_blasts:
  "sequential (for_ends ours theirs) = sequential (for_ends theirs ours)"
proof -
  have "filter (\<lambda>r. \<not> hopeless ours theirs r) (filter is_birthday ALL_RUNGS) =
      filter (\<lambda>r. \<not> hopeless theirs ours r) (filter is_birthday ALL_RUNGS)"
    by (rule filter_cong [OF refl]) (simp add: blast_symmetric)
  then show ?thesis
    unfolding for_ends_lists by (rule arg_cong)
qed

text \<open>The plan is the ladder with the hopeless rungs left out, in ladder order, the ssh tunnel
  always last; every rung is either attempted or skipped with a reason, never both. A rung is
  hopeless exactly when an end has no address in its family, when it is a punch from behind a NAT
  of ours that changes its port per destination, or when it is a blast no NAT calls for or one end
  has no observed address for.\<close>

theorem plan_is_the_ladder_without_the_hopeless:
  "attempted (for_ends ours theirs) = filter (\<lambda>r. \<not> hopeless ours theirs r) ALL_RUNGS
   \<and> sorted (attempted (for_ends ours theirs)) \<and> distinct (attempted (for_ends ours theirs))
   \<and> last (attempted (for_ends ours theirs)) = SshTunnel
   \<and> (\<forall>r. (r \<in> set (attempted (for_ends ours theirs))) \<noteq>
        (r \<in> fst ` set (skipped (for_ends ours theirs))))"
proof -
  have skip: "r \<in> fst ` set (skipped (for_ends ours theirs)) \<longleftrightarrow> hopeless ours theirs r" for r
    using skipped_iff [of r ours theirs] by force
  have "last (attempted (for_ends ours theirs)) = SshTunnel"
    by (simp add: attempted_def for_ends_lists)
  moreover have "sorted (attempted (for_ends ours theirs))" "distinct (attempted (for_ends ours theirs))"
    unfolding attempted_eq by (simp_all add: sorted_wrt_filter ALL_RUNGS_sorted ALL_RUNGS_distinct)
  ultimately show ?thesis
    by (simp add: attempted_eq skip)
qed

text \<open>Not knowing skips nothing. Between two ends that have addresses and observed external ports
  in a family, an unclassified NAT on our side leaves every method of that family in the plan.\<close>

theorem unknown_nat_skips_nothing:
  assumes "nat_get (ef_nat ours) f = NatUnknown" and "ef_has ours f" and "ef_has theirs f"
    and "ef_has_srflx ours f" and "ef_has_srflx theirs f"
  shows "{Direct f, PortMapped f, Punched f, Birthday f} \<subseteq> set (attempted (for_ends ours theirs))"
  using assms by (simp add: attempted_eq hopeless_def might_need_blast_def)

theorem unknown_nat_skips_nothing_witness:
  "let e = from_candidates UNKNOWN
       [\<lparr>cand_addr = SockV4 0x01020304 443, cand_kind = ServerReflexive, cand_priority = 1\<rparr>]
   in {Direct V4, PortMapped V4, Punched V4, Birthday V4} \<subseteq> set (attempted (for_ends e e))"
proof -
  define e where "e = from_candidates UNKNOWN
    [\<lparr>cand_addr = SockV4 0x01020304 443, cand_kind = ServerReflexive, cand_priority = 1\<rparr>]"
  have "{Direct V4, PortMapped V4, Punched V4, Birthday V4} \<subseteq> set (attempted (for_ends e e))"
    by (rule unknown_nat_skips_nothing)
      (simp_all add: e_def from_candidates_def UNKNOWN_def nat_get_def ef_has_def ef_has_srflx_def
        has_family_def has_srflx_in_def family_of_def)
  then show ?thesis by (simp add: e_def)
qed

end
