(* ===== verification/Client_Overlay.thy ===== *)
theory Client_Overlay
  imports Client_Renderer
begin

text \<open>
  How the client's local drawings become cells, \<open>crates/oxutrm-client/src/overlay.rs\<close>, and how another
  session's screen is stamped into one (\<open>stamp\<close> of \<open>popup.rs\<close>). The \<open>ratatui\<close> buffer the widgets drew
  into is an input: its area and, for a position, the symbol, colours and modifiers there; a set of
  modifiers is a set of the named flags. The lemmas show that whatever symbols a buffer holds, every
  cell made of it carries text the renderer may write, that the cells are exactly the rectangle's,
  and which of them are the right halves of wide glyphs.
\<close>

section \<open>What ratatui hands over\<close>

datatype rcolor =
    Reset | Black | Red | Green | Yellow | Blue | Magenta | Cyan | Gray | DarkGray | LightRed
  | LightGreen | LightYellow | LightBlue | LightMagenta | LightCyan | White
  | RRgb u8 u8 u8
  | Indexed u8

datatype modifier =
    MBold | MDim | MItalic | MUnderlined | MSlowBlink | MRapidBlink | MReversed | MHidden | MCrossedOut

record buf_cell =
  bc_symbol :: ustr
  bc_fg :: rcolor
  bc_bg :: rcolor
  bc_modifier :: "modifier set"

record rect =
  rc_x :: u16
  rc_y :: u16
  rc_width :: u16
  rc_height :: u16

definition rect_right :: "rect \<Rightarrow> u16" where
  "rect_right a = sat_add (rc_x a) (rc_width a)"

definition rect_bottom :: "rect \<Rightarrow> u16" where
  "rect_bottom a = sat_add (rc_y a) (rc_height a)"

record buffer =
  bf_area :: rect
  bf_at :: "nat \<Rightarrow> nat \<Rightarrow> buf_cell"

section \<open>From a buffer to cells\<close>

fun color_of :: "rcolor \<Rightarrow> color" where
  "color_of Reset = Default"
| "color_of (RRgb r g b) = Rgb r g b"
| "color_of (Indexed i) = Idx i"
| "color_of Black = Idx 0"
| "color_of Red = Idx 1"
| "color_of Green = Idx 2"
| "color_of Yellow = Idx 3"
| "color_of Blue = Idx 4"
| "color_of Magenta = Idx 5"
| "color_of Cyan = Idx 6"
| "color_of Gray = Idx 7"
| "color_of DarkGray = Idx 8"
| "color_of LightRed = Idx 9"
| "color_of LightGreen = Idx 10"
| "color_of LightYellow = Idx 11"
| "color_of LightBlue = Idx 12"
| "color_of LightMagenta = Idx 13"
| "color_of LightCyan = Idx 14"
| "color_of White = Idx 15"

definition overlay_attrs_of :: "modifier set \<Rightarrow> attrs" where
  "overlay_attrs_of m =
    (let a = 0;
         a = (if MBold \<in> m then a OR BOLD else a);
         a = (if MDim \<in> m then a OR DIM else a);
         a = (if MItalic \<in> m then a OR ITALIC else a);
         a = (if MUnderlined \<in> m then a OR UNDERLINE else a);
         a = (if MSlowBlink \<in> m \<or> MRapidBlink \<in> m then a OR BLINK else a);
         a = (if MReversed \<in> m then a OR INVERSE else a);
         a = (if MHidden \<in> m then a OR HIDDEN else a)
     in if MCrossedOut \<in> m then a OR STRIKE else a)"

text \<open>One row, with the colours of the wide glyph whose right half comes next.\<close>

fun buffer_row ::
  "(ustr \<Rightarrow> nat) \<Rightarrow> buffer \<Rightarrow> nat \<Rightarrow> (color \<times> color) option \<Rightarrow> nat list \<Rightarrow> cell list" where
  "buffer_row wd buf y cont [] = []"
| "buffer_row wd buf y (Some (fg, bg)) (x # xs) =
     \<lparr>c_text = [], c_fg = fg, c_bg = bg, c_attrs = WIDE_CONT, c_link = 0\<rparr> # buffer_row wd buf y None xs"
| "buffer_row wd buf y None (x # xs) =
     (let c = bf_at buf x y; fg = color_of (bc_fg c); bg = color_of (bc_bg c)
      in \<lparr>c_text = fit_cell_text (bc_symbol c), c_fg = fg, c_bg = bg, c_attrs = overlay_attrs_of (bc_modifier c),
           c_link = 0\<rparr>
         # buffer_row wd buf y (if wd (bc_symbol c) = 2 then Some (fg, bg) else None) xs)"

definition overlay_from_buffer :: "(ustr \<Rightarrow> nat) \<Rightarrow> buffer \<Rightarrow> u16 \<Rightarrow> u16 \<Rightarrow> overlay" where
  "overlay_from_buffer wd buf row col =
    (let area = bf_area buf
     in \<lparr>ov_row = row, ov_col = col, ov_rows = rc_height area, ov_cols = rc_width area,
         ov_cells = concat (map (\<lambda>y. buffer_row wd buf y None [unat (rc_x area)..<unat (rect_right area)])
           [unat (rc_y area)..<unat (rect_bottom area)])\<rparr>)"

section \<open>A session's screen inside an overlay\<close>

definition stamped_cell :: "cell \<Rightarrow> cell" where
  "stamped_cell c =
    (if c_text c = [] \<and> \<not> attrs_contains (c_attrs c) WIDE_CONT then c\<lparr>c_text := [32]\<rparr> else c)"

text \<open>The two loops; an index outside the overlay's cells or the screen's panics, which is \<open>None\<close>.\<close>

fun stamp_loop :: "nat \<Rightarrow> rect \<Rightarrow> screen_state \<Rightarrow> (nat \<times> nat) list \<Rightarrow> cell list \<Rightarrow> cell list option" where
  "stamp_loop stride at w [] cells = Some cells"
| "stamp_loop stride at w ((r, c) # rest) cells =
     (let to = unat (rc_y at + of_nat r) * stride + unat (rc_x at + of_nat c)
      in case screen_cell w (of_nat r) (of_nat c) of
           Some cell \<Rightarrow>
             if to < length cells then stamp_loop stride at w rest (cells[to := stamped_cell cell]) else None
         | None \<Rightarrow> None)"

definition stamp :: "overlay \<Rightarrow> rect \<Rightarrow> screen_state \<Rightarrow> overlay option" where
  "stamp ov at s =
    (let w = window s \<lparr>ts_cols = rc_width at, ts_rows = rc_height at\<rparr>
     in map_option (\<lambda>cells. ov\<lparr>ov_cells := cells\<rparr>)
          (stamp_loop (unat (ov_cols ov)) at w
             (List.product [0..<unat (scr_rows w)] [0..<unat (scr_cols w)]) (ov_cells ov)))"

section \<open>Every cell drawn locally carries text\<close>

definition area_fits :: "rect \<Rightarrow> bool" where
  "area_fits a \<longleftrightarrow> unat (rc_x a) + unat (rc_width a) < 65536 \<and> unat (rc_y a) + unat (rc_height a) < 65536"

definition overlay_clean :: "overlay \<Rightarrow> bool" where
  "overlay_clean ov \<longleftrightarrow>
    length (ov_cells ov) = unat (ov_rows ov) * unat (ov_cols ov)
    \<and> list_all (\<lambda>c. check_cell_text (c_text c) = Inr ()) (ov_cells ov)"

lemma buffer_row_length: "length (buffer_row wd buf y cont xs) = length xs"
  by (induction wd buf y cont xs rule: buffer_row.induct) (simp_all add: Let_def)

lemma buffer_row_clean: "list_all (\<lambda>c. check_cell_text (c_text c) = Inr ()) (buffer_row wd buf y cont xs)"
proof (induction wd buf y cont xs rule: buffer_row.induct)
  case (2 wd buf y fg bg x xs)
  have "check_cell_text [] = Inr ()" by (simp add: check_cell_text_ok_iff)
  with 2 show ?case by simp
next
  case (3 wd buf y x xs)
  then show ?case by (simp add: Let_def check_fitted)
qed simp

lemma overlay_from_buffer_clean:
  assumes "area_fits (bf_area buf)"
  shows "overlay_clean (overlay_from_buffer wd buf row col)"
proof -
  have "unat (rect_right (bf_area buf)) = unat (rc_x (bf_area buf)) + unat (rc_width (bf_area buf))"
    "unat (rect_bottom (bf_area buf)) = unat (rc_y (bf_area buf)) + unat (rc_height (bf_area buf))"
    using assms by (simp_all add: area_fits_def rect_right_def rect_bottom_def unat_sat_add)
  then show ?thesis
    using buffer_row_clean
    by (simp add: overlay_clean_def overlay_from_buffer_def Let_def length_concat o_def buffer_row_length
        sum_list_triv list_all_iff)
qed

lemma stamped_cell_clean:
  "check_cell_text (c_text c) = Inr () \<Longrightarrow> check_cell_text (c_text (stamped_cell c)) = Inr ()"
  by (simp add: stamped_cell_def check_cell_text_ok_iff is_control_scalar_def limit_defs len_utf8_def)

lemma stamp_loop_clean:
  assumes "stamp_loop stride at w rcs cells = Some cells'"
    and "list_all (\<lambda>c. check_cell_text (c_text c) = Inr ()) cells"
    and "list_all (\<lambda>c. check_cell_text (c_text c) = Inr ()) (scr_cells w)"
  shows "length cells' = length cells \<and> list_all (\<lambda>c. check_cell_text (c_text c) = Inr ()) cells'"
  using assms
proof (induction stride at w rcs cells rule: stamp_loop.induct)
  case (2 stride at w r c rest cells)
  let ?to = "unat (rc_y at + of_nat r) * stride + unat (rc_x at + of_nat c)"
  obtain cell where cell: "screen_cell w (of_nat r) (of_nat c) = Some cell" "?to < length cells"
    and rest: "stamp_loop stride at w rest (cells[?to := stamped_cell cell]) = Some cells'"
    using "2.prems"(1) by (auto simp: Let_def split: if_splits option.splits)
  have "cell \<in> set (scr_cells w)"
    using cell(1) by (auto simp: screen_cell_def Let_def split: if_splits)
  with "2.prems"(3) have "check_cell_text (c_text (stamped_cell cell)) = Inr ()"
    by (intro stamped_cell_clean) (simp add: list_all_iff)
  then have "list_all (\<lambda>c. check_cell_text (c_text c) = Inr ()) (cells[?to := stamped_cell cell])"
    using "2.prems"(2) set_update_subset_insert [of cells ?to "stamped_cell cell"] by (auto simp: list_all_iff)
  with "2.IH" [OF refl cell rest _ "2.prems"(3)] show ?case by simp
qed simp

lemma stamp_clean:
  assumes "overlay_clean ov" and "validate s = Inr ()" and "stamp ov at s = Some ov'"
  shows "overlay_clean ov'"
proof -
  let ?w = "window s \<lparr>ts_cols = rc_width at, ts_rows = rc_height at\<rparr>"
  have "screen_valid ?w"
    using assms(2) by (intro screen_valid_window) (simp add: validate_ok_iff)
  then have "list_all (\<lambda>c. check_cell_text (c_text c) = Inr ()) (scr_cells ?w)"
    by (auto simp: screen_valid_def cell_ok_def list_all_iff)
  with assms(1,3) show ?thesis
    by (auto simp: stamp_def Let_def overlay_clean_def dest!: stamp_loop_clean)
qed

text \<open>The overlays the popup, the config screen and the selector lay out: a drawn buffer, with or without
  a session's screen, which passed the client's checks, stamped into it.\<close>

inductive laid_out :: "(ustr \<Rightarrow> nat) \<Rightarrow> overlay \<Rightarrow> bool" for wd where
  laid_out_buffer: "area_fits (bf_area buf) \<Longrightarrow> laid_out wd (overlay_from_buffer wd buf row col)"
| laid_out_stamp: "laid_out wd ov \<Longrightarrow> validate s = Inr () \<Longrightarrow> stamp ov at s = Some ov' \<Longrightarrow> laid_out wd ov'"

lemma laid_out_clean: "laid_out wd ov \<Longrightarrow> overlay_clean ov"
  by (induction rule: laid_out.induct) (auto intro: overlay_from_buffer_clean stamp_clean)

section \<open>Wide glyphs\<close>

lemma attrs_of_no_cont: "\<not> attrs_contains (overlay_attrs_of m) WIDE_CONT"
proof -
  have "\<not> bit (overlay_attrs_of m) 8"
    by (simp add: overlay_attrs_of_def Let_def BOLD_def DIM_def ITALIC_def UNDERLINE_def BLINK_def INVERSE_def
        HIDDEN_def STRIKE_def bit_or_iff bit_numeral_rec(1,2))
  moreover have "bit WIDE_CONT 8" by (simp add: WIDE_CONT_def bit_numeral_rec(1,2))
  ultimately show ?thesis
    unfolding attrs_contains_def by (metis bit_and_iff)
qed

text \<open>The cell in position \<open>i\<close> of a row is a right half exactly when the cell before it is a symbol two
  columns wide that is not a right half itself.\<close>

lemma buffer_row_halves:
  assumes "i < length xs"
  shows "attrs_contains (c_attrs (buffer_row wd buf y cont xs ! i)) WIDE_CONT \<longleftrightarrow>
    (if i = 0 then cont \<noteq> None
     else \<not> attrs_contains (c_attrs (buffer_row wd buf y cont xs ! (i - 1))) WIDE_CONT
          \<and> wd (bc_symbol (bf_at buf (xs ! (i - 1)) y)) = 2)"
  using assms
proof (induction wd buf y cont xs arbitrary: i rule: buffer_row.induct)
  case (2 wd buf y fg bg x xs)
  have "attrs_contains WIDE_CONT WIDE_CONT" by (simp add: attrs_contains_def)
  with 2 show ?case by (cases i; cases "i - 1") auto
next
  case (3 wd buf y x xs)
  have plain: "\<not> attrs_contains (c_attrs (buffer_row wd buf y None (x # xs) ! 0)) WIDE_CONT"
    by (simp add: Let_def attrs_of_no_cont)
  show ?case
  proof (cases i)
    case 0
    with plain show ?thesis by simp
  next
    case (Suc j)
    with "3.IH" [OF refl refl refl, of j] "3.prems" plain show ?thesis
      by (cases j) (auto simp: Let_def attrs_of_no_cont)
  qed
qed simp

end
