(* ===== verification/Client_Paint.thy ===== *)
theory Client_Paint
  imports Client_Overlay
begin

text \<open>
  What the renderer's operations do to a terminal, and why the desired screen is what it shows. The
  terminal is the abstract side of the renderer's contract: a grid of glyphs with the pen and the
  hyperlink each was written with, the second column of a double-width glyph being its right half, a
  cursor, and the private modes. Writing over one half of a double-width glyph destroys the other.
\<close>

datatype glyph = Glyph ustr bytes "(u16 \<times> ustr) option" | RightHalf

record terminal =
  tm_cols :: nat
  tm_grid :: "nat \<Rightarrow> nat \<Rightarrow> glyph"
  tm_row :: nat
  tm_col :: nat
  tm_pen :: bytes
  tm_link :: "(u16 \<times> ustr) option"
  tm_title :: ustr
  tm_style :: nat
  tm_mode :: "nat \<Rightarrow> bool"
  tm_bells :: nat

text \<open>A glyph of \<open>w\<close> columns written at column \<open>c\<close> of a row. A clear fills with the current pen, as
  terminals with background colour erase do.\<close>

definition put_row :: "glyph \<Rightarrow> nat \<Rightarrow> nat \<Rightarrow> (nat \<Rightarrow> glyph) \<Rightarrow> nat \<Rightarrow> glyph" where
  "put_row gl w c g =
    (\<lambda>x. if x = c then gl
         else if c < x \<and> x < c + w then RightHalf
         else if (x + 1 = c \<and> g c = RightHalf) \<or> (x = c + w \<and> g x = RightHalf)
         then Glyph [32] SGR_RESET None
         else g x)"

fun run_op :: "(ustr \<Rightarrow> nat) \<Rightarrow> term_op \<Rightarrow> terminal \<Rightarrow> terminal" where
  "run_op wd (CursorTo row col) T = T\<lparr>tm_row := row - 1, tm_col := col - 1\<rparr>"
| "run_op wd HomeClear T =
     T\<lparr>tm_row := 0, tm_col := 0, tm_grid := (\<lambda>_ _. Glyph [32] (tm_pen T) None)\<rparr>"
| "run_op wd (Sgr bs) T = T\<lparr>tm_pen := bs\<rparr>"
| "run_op wd (PutText t) T =
     (let r = (if tm_col T + wd t > tm_cols T then tm_row T + 1 else tm_row T);
          c = (if tm_col T + wd t > tm_cols T then 0 else tm_col T)
      in T\<lparr>tm_grid := (tm_grid T)(r := put_row (Glyph t (tm_pen T) (tm_link T)) (wd t) c (tm_grid T r)),
           tm_row := r, tm_col := c + wd t\<rparr>)"
| "run_op wd (OpenLink lid uri) T = T\<lparr>tm_link := Some (lid, uri)\<rparr>"
| "run_op wd CloseLink T = T\<lparr>tm_link := None\<rparr>"
| "run_op wd (DecSet n) T = T\<lparr>tm_mode := (tm_mode T)(n := True)\<rparr>"
| "run_op wd (DecReset n) T = T\<lparr>tm_mode := (tm_mode T)(n := False)\<rparr>"
| "run_op wd (SetTitle t) T = T\<lparr>tm_title := t\<rparr>"
| "run_op wd (CursorStyle n) T = T\<lparr>tm_style := n\<rparr>"
| "run_op wd Bell T = T\<lparr>tm_bells := tm_bells T + 1\<rparr>"

definition run_ops :: "(ustr \<Rightarrow> nat) \<Rightarrow> term_op list \<Rightarrow> terminal \<Rightarrow> terminal" where
  "run_ops wd ops T = fold (run_op wd) ops T"

lemma run_ops_simps [simp]:
  "run_ops wd [] T = T"
  "run_ops wd (op # ops) T = run_ops wd ops (run_op wd op T)"
  "run_ops wd (ops @ ops') T = run_ops wd ops' (run_ops wd ops T)"
  by (simp_all add: run_ops_def)

text \<open>How a cell should look: a continuation is the right half of its lead, an empty cell is a space,
  a link is shown when links are on and its URI may be written.\<close>

definition id_link :: "renderer \<Rightarrow> link_table \<Rightarrow> u16 \<Rightarrow> (u16 \<times> ustr) option" where
  "id_link rd links lid =
    (if links_on rd \<and> lid \<noteq> 0 then
       (case bt_get links lid of
          Some uri \<Rightarrow> if is_ok (check_link_uri lid uri) then Some (lid, uri) else None
        | None \<Rightarrow> None)
     else None)"

definition look :: "renderer \<Rightarrow> link_table \<Rightarrow> cell \<Rightarrow> glyph" where
  "look rd links c =
    (if attrs_contains (c_attrs c) WIDE_CONT then RightHalf
     else Glyph (shown_text c) (sgr_for rd c) (id_link rd links (c_link c)))"

text \<open>A row a terminal can show: continuations follow their leads, leads are followed by their
  continuations, and every other cell is one column wide.\<close>

definition cell_at_ok :: "(ustr \<Rightarrow> nat) \<Rightarrow> cell list \<Rightarrow> nat \<Rightarrow> bool" where
  "cell_at_ok wd row c =
    (if attrs_contains (c_attrs (row ! c)) WIDE_CONT then c > 0 \<and> is_wide_lead wd (row ! (c - 1))
     else if wd (c_text (row ! c)) = 2
     then c + 1 < length row \<and> attrs_contains (c_attrs (row ! (c + 1))) WIDE_CONT
     else c_text (row ! c) = [] \<or> wd (c_text (row ! c)) = 1)"

definition row_drawable :: "(ustr \<Rightarrow> nat) \<Rightarrow> cell list \<Rightarrow> bool" where
  "row_drawable wd row = list_all (cell_at_ok wd row) [0..<length row]"

definition widths_ok :: "(ustr \<Rightarrow> nat) \<Rightarrow> bool" where
  "widths_ok wd \<longleftrightarrow> wd [32] = 1 \<and> wd [] = 0"

section \<open>One row\<close>

lemma attrs_contains_0 [simp]: "\<not> attrs_contains 0 WIDE_CONT"
  by (simp add: attrs_contains_def WIDE_CONT_def)

lemma row_drawableD:
  assumes "row_drawable wd row" "c < length row" "widths_ok wd"
  shows "attrs_contains (c_attrs (row ! c)) WIDE_CONT \<Longrightarrow>
      c > 0 \<and> \<not> attrs_contains (c_attrs (row ! (c - 1))) WIDE_CONT \<and> wd (shown_text (row ! (c - 1))) = 2"
    and "\<not> attrs_contains (c_attrs (row ! c)) WIDE_CONT \<Longrightarrow>
      wd (shown_text (row ! c)) = 1 \<and> (c + 1 < length row \<longrightarrow> \<not> attrs_contains (c_attrs (row ! (c + 1))) WIDE_CONT)
      \<or> wd (shown_text (row ! c)) = 2 \<and> c + 1 < length row
        \<and> attrs_contains (c_attrs (row ! (c + 1))) WIDE_CONT"
proof -
  have at: "cell_at_ok wd row x" if "x < length row" for x
    using assms(1) that by (simp add: row_drawable_def list_all_iff)
  show "c > 0 \<and> \<not> attrs_contains (c_attrs (row ! (c - 1))) WIDE_CONT \<and> wd (shown_text (row ! (c - 1))) = 2"
    if "attrs_contains (c_attrs (row ! c)) WIDE_CONT"
    using at [OF assms(2)] that assms(3)
    by (auto simp: cell_at_ok_def is_wide_lead_def shown_text_def widths_ok_def)
  show "wd (shown_text (row ! c)) = 1 \<and> (c + 1 < length row \<longrightarrow> \<not> attrs_contains (c_attrs (row ! (c + 1))) WIDE_CONT)
      \<or> wd (shown_text (row ! c)) = 2 \<and> c + 1 < length row
        \<and> attrs_contains (c_attrs (row ! (c + 1))) WIDE_CONT"
    if "\<not> attrs_contains (c_attrs (row ! c)) WIDE_CONT"
    using at [OF assms(2)] at [of "c + 1"] that assms(3)
    by (auto simp: cell_at_ok_def is_wide_lead_def shown_text_def widths_ok_def split: if_splits)
qed

text \<open>A terminal row never holds a right half without its lead.\<close>

definition halves_ok :: "(ustr \<Rightarrow> nat) \<Rightarrow> (nat \<Rightarrow> glyph) \<Rightarrow> bool" where
  "halves_ok wd g \<longleftrightarrow>
    g 0 \<noteq> RightHalf \<and> (\<forall>x. g (Suc x) = RightHalf \<longrightarrow> (\<exists>t p l. g x = Glyph t p l \<and> wd t = 2))"

lemma halves_okD:
  "halves_ok wd g \<Longrightarrow> g (Suc x) = RightHalf \<Longrightarrow> \<exists>t p l. g x = Glyph t p l \<and> wd t = 2"
  "halves_ok wd g \<Longrightarrow> g 0 \<noteq> RightHalf"
  by (simp_all add: halves_ok_def)

lemma halves_okI:
  assumes "g 0 \<noteq> RightHalf" and "\<And>x. g (Suc x) = RightHalf \<Longrightarrow> \<exists>t p l. g x = Glyph t p l \<and> wd t = 2"
  shows "halves_ok wd g"
  using assms by (simp add: halves_ok_def)

lemma halves_ok_put:
  assumes "halves_ok wd g" and "wd t = 1 \<or> wd t = 2"
  shows "halves_ok wd (put_row (Glyph t p l) (wd t) c g)"
proof (rule halves_okI)
  show "put_row (Glyph t p l) (wd t) c g 0 \<noteq> RightHalf"
    using halves_okD(2) [OF assms(1)] by (auto simp: put_row_def)
next
  fix x
  assume "put_row (Glyph t p l) (wd t) c g (Suc x) = RightHalf"
  then consider "x = c" "wd t = 2" | "Suc x \<noteq> c" "x \<noteq> c" "Suc x \<noteq> c + wd t" "g (Suc x) = RightHalf"
    "\<not> (c < Suc x \<and> Suc x < c + wd t)"
    using assms(2) by (auto simp: put_row_def split: if_splits)
  then show "\<exists>t' p' l'. put_row (Glyph t p l) (wd t) c g x = Glyph t' p' l' \<and> wd t' = 2"
  proof cases
    case 2
    with halves_okD(1) [OF assms(1) this(4)] show ?thesis
      using assms(2) by (auto simp: put_row_def)
  qed (simp add: put_row_def)
qed

definition is_cont :: "cell list \<Rightarrow> nat \<Rightarrow> bool" where
  "is_cont row c \<longleftrightarrow> c < length row \<and> attrs_contains (c_attrs (row ! c)) WIDE_CONT"

text \<open>A row painted up to column \<open>k\<close>: the columns before it and the clean ones look as they should.\<close>

definition painted_upto ::
  "(ustr \<Rightarrow> nat) \<Rightarrow> renderer \<Rightarrow> link_table \<Rightarrow> cell list \<Rightarrow> (nat \<Rightarrow> bool) \<Rightarrow> nat \<Rightarrow> (nat \<Rightarrow> glyph) \<Rightarrow> bool"
  where
  "painted_upto wd rd links row dirty k g \<longleftrightarrow>
    halves_ok wd g \<and> (\<forall>x < length row. x < k \<or> \<not> dirty x \<longrightarrow> g x = look rd links (row ! x))"

lemma painted_uptoD:
  "painted_upto wd rd links row dirty k g \<Longrightarrow> x < length row \<Longrightarrow> x < k \<or> \<not> dirty x
    \<Longrightarrow> g x = look rd links (row ! x)"
  "painted_upto wd rd links row dirty k g \<Longrightarrow> halves_ok wd g"
  by (auto simp: painted_upto_def)

lemma look_RightHalf: "look rd links c = RightHalf \<longleftrightarrow> attrs_contains (c_attrs c) WIDE_CONT"
  by (simp add: look_def)

text \<open>Painting the glyph of column \<open>k\<close> damages no column that already looks right.\<close>

lemma painted_upto_put:
  assumes ok: "row_drawable wd row" "widths_ok wd" and k: "k < length row" "\<not> is_cont row k"
    and g: "painted_upto wd rd links row dirty k g"
  defines "w \<equiv> wd (shown_text (row ! k))"
  shows "k + w \<le> length row" "w = (if is_cont row (k + 1) then 2 else 1)"
    "painted_upto wd rd links row dirty (k + w) (put_row (look rd links (row ! k)) w k g)"
proof -
  note D = row_drawableD [OF ok(1) _ ok(2)]
  have nk: "\<not> attrs_contains (c_attrs (row ! k)) WIDE_CONT"
    using k by (simp add: is_cont_def)
  from D(2) [OF k(1) nk] show w: "w = (if is_cont row (k + 1) then 2 else 1)" and le: "k + w \<le> length row"
    using k(1) by (auto simp: w_def is_cont_def)
  let ?gl = "look rd links (row ! k)"
  let ?g = "put_row ?gl w k g"
  note at = painted_uptoD(1) [OF g] and halves = painted_uptoD(2) [OF g]
  have "?g x = look rd links (row ! x)" if x: "x < length row" "x < k + w \<or> \<not> dirty x" for x
  proof -
    consider "x = k" | "k < x" "x < k + w" | "x = k + w" "\<not> dirty x" | "Suc x = k" | "x \<noteq> k" "x < k \<or> k + w < x" "Suc x \<noteq> k"
      using x(2) by linarith
    then show ?thesis
    proof cases
      case 2
      then have "x = k + 1" "is_cont row (k + 1)"
        using w by (simp_all split: if_splits)
      with 2 show ?thesis by (simp add: put_row_def look_def is_cont_def)
    next
      case 3
      have "look rd links (row ! x) \<noteq> RightHalf"
      proof
        assume "look rd links (row ! x) = RightHalf"
        with x(1) have "x > 0" "\<not> is_cont row (x - 1)" "wd (shown_text (row ! (x - 1))) = 2"
          using D(1) [of x] by (auto simp: look_RightHalf is_cont_def)
        with 3 w show False
          by (auto simp: w_def split: if_splits)
      qed
      moreover have "g x = look rd links (row ! x)"
        using 3 x by (intro at) simp_all
      moreover have "w > 0" using w by simp
      ultimately show ?thesis
        using 3 by (simp add: put_row_def)
    next
      case 4
      have "g x = look rd links (row ! x)"
        using 4 x by (intro at) simp_all
      moreover have "g k \<noteq> RightHalf"
      proof
        assume "g k = RightHalf"
        with halves_okD(1) [OF halves, of x] 4 obtain t p l where "g x = Glyph t p l" "wd t = 2"
          by auto
        with \<open>g x = look rd links (row ! x)\<close> have "\<not> attrs_contains (c_attrs (row ! x)) WIDE_CONT"
          "wd (shown_text (row ! x)) = 2"
          by (simp_all add: look_def split: if_splits)
        with D(2) [OF x(1)] 4 nk show False by auto
      qed
      ultimately show ?thesis
        using 4 by (auto simp: put_row_def)
    next
      case 5
      then have "g x = look rd links (row ! x)"
        using x by (intro at) auto
      with 5 show ?thesis by (auto simp: put_row_def)
    qed (simp add: put_row_def)
  qed
  moreover have "halves_ok wd ?g"
    using halves_ok_put [OF halves, of "shown_text (row ! k)" "sgr_for rd (row ! k)"
        "id_link rd links (c_link (row ! k))" k] w nk
    by (simp add: look_def w_def split: if_splits)
  ultimately show "painted_upto wd rd links row dirty (k + w) ?g"
    by (simp add: painted_upto_def)
qed

section \<open>One run\<close>

text \<open>What painting leaves alone.\<close>

definition same_rest :: "terminal \<Rightarrow> terminal \<Rightarrow> bool" where
  "same_rest T U \<longleftrightarrow>
    tm_cols T = tm_cols U \<and> tm_title T = tm_title U \<and> tm_style T = tm_style U \<and> tm_mode T = tm_mode U
    \<and> tm_bells T = tm_bells U"

definition no_zero_link :: "link_table \<Rightarrow> bool" where
  "no_zero_link links \<longleftrightarrow> bt_get links 0 = None"

lemma id_link_0 [simp]: "id_link rd links 0 = None"
  by (simp add: id_link_def)

lemma switch_link_run:
  assumes "no_zero_link links" "tm_link T = id_link rd links opn"
    and "switch_link rd links c opn = (ops, opn')"
  shows "run_ops wd ops T = T\<lparr>tm_link := id_link rd links (c_link c)\<rparr>"
    and "id_link rd links (c_link c) = id_link rd links opn'"
  using assms
  by (auto simp: switch_link_def Let_def no_zero_link_def id_link_def
      split: option.splits if_splits)

text \<open>The state of a pass inside a row: \<open>k\<close> is the next cell of the run, and the terminal's cursor
  stands at it, or past it when it is the continuation of the glyph just written.\<close>

definition in_run ::
  "(ustr \<Rightarrow> nat) \<Rightarrow> renderer \<Rightarrow> link_table \<Rightarrow> cell list \<Rightarrow> (nat \<Rightarrow> bool) \<Rightarrow> nat \<Rightarrow> terminal \<Rightarrow> nat
    \<Rightarrow> terminal \<Rightarrow> u16 \<Rightarrow> bytes option \<Rightarrow> bool" where
  "in_run wd rd links row dirty r U k T opn pen \<longleftrightarrow>
    tm_row T = r \<and> tm_col T = (if is_cont row k then k + 1 else k)
    \<and> painted_upto wd rd links row dirty (tm_col T) (tm_grid T r)
    \<and> (\<forall>r'. r' \<noteq> r \<longrightarrow> tm_grid T r' = tm_grid U r')
    \<and> (\<forall>p. pen = Some p \<longrightarrow> tm_pen T = p) \<and> (pen = None \<longrightarrow> tm_pen T = tm_pen U)
    \<and> tm_link T = id_link rd links opn \<and> same_rest T U"

lemma set_pen_run:
  assumes "pen = Some want \<Longrightarrow> tm_pen T = want"
  shows "run_ops wd (if pen \<noteq> Some want then [Sgr want] else []) T = T\<lparr>tm_pen := want\<rparr>"
  using assms by (cases T) auto

lemma is_cont_Suc: "row_drawable wd row \<Longrightarrow> widths_ok wd \<Longrightarrow> is_cont row k \<Longrightarrow> \<not> is_cont row (k + 1)"
  using row_drawableD(1) [of wd row "k + 1"] by (auto simp: is_cont_def)

lemma paint_cell_in_run:
  assumes ok: "row_drawable wd row" "widths_ok wd" "no_zero_link links" and k: "k < length row"
    and cols: "tm_cols U = length row"
    and I: "in_run wd rd links row dirty r U k (run_ops wd out T0) opn pen"
    and p: "paint_cell rd links (row ! k) (out, opn, pen) = (out', opn', pen')"
  shows "in_run wd rd links row dirty r U (k + 1) (run_ops wd out' T0) opn' pen'"
proof (cases "is_cont row k")
  case True
  then have "attrs_contains (c_attrs (row ! k)) WIDE_CONT"
    by (simp add: is_cont_def)
  with p have "out' = out" "opn' = opn" "pen' = pen"
    by (simp_all add: paint_cell_def)
  with I is_cont_Suc [OF ok(1,2) True] True show ?thesis
    by (auto simp: in_run_def)
next
  case False
  let ?c = "row ! k"
  let ?T = "run_ops wd out T0"
  obtain ops o' where sw: "switch_link rd links ?c opn = (ops, o')" by fastforce
  have nk: "\<not> attrs_contains (c_attrs ?c) WIDE_CONT"
    using False k by (simp add: is_cont_def)
  have out': "out' = out @ ops @ (if pen \<noteq> Some (sgr_for rd ?c) then [Sgr (sgr_for rd ?c)] else [])
      @ [PutText (shown_text ?c)]" "opn' = o'" "pen' = Some (sgr_for rd ?c)"
    using p nk by (auto simp: paint_cell_def sw Let_def)
  have T: "tm_row ?T = r" "tm_col ?T = k" "painted_upto wd rd links row dirty k (tm_grid ?T r)"
    "\<And>r'. r' \<noteq> r \<Longrightarrow> tm_grid ?T r' = tm_grid U r'" "\<And>p. pen = Some p \<Longrightarrow> tm_pen ?T = p"
    "tm_link ?T = id_link rd links opn" "same_rest ?T U"
    using I False by (auto simp: in_run_def)
  note link = switch_link_run [OF ok(3) T(6) sw]
  note put = painted_upto_put [OF ok(1,2) k False T(3)]
  let ?U = "?T\<lparr>tm_link := id_link rd links (c_link ?c), tm_pen := sgr_for rd ?c\<rparr>"
  have "run_ops wd out' T0 = run_op wd (PutText (shown_text ?c)) ?U"
    using T(5) by (simp only: out' run_ops_simps link(1)) (subst set_pen_run, simp_all)
  also have "\<dots> = ?U\<lparr>tm_grid := (tm_grid ?T)(r := put_row (look rd links ?c) (wd (shown_text ?c)) k (tm_grid ?T r)),
      tm_row := r, tm_col := k + wd (shown_text ?c)\<rparr>"
    using put(1) T(1,2,7) nk cols by (simp add: Let_def look_def same_rest_def)
  finally have fin: "run_ops wd out' T0 = \<dots>" .
  have "k + wd (shown_text ?c) = (if is_cont row (k + 1) then k + 1 + 1 else k + 1)"
    using put(2) by simp
  then show ?thesis
    unfolding in_run_def fin using T put(3) link(2)
    by (simp add: out' same_rest_def)
qed

lemma slice_snoc: "a \<le> b \<Longrightarrow> b < length xs \<Longrightarrow> slice xs a (Suc b) = slice xs a b @ [xs ! b]"
  by (simp add: slice_def Suc_diff_le take_Suc_conv_app_nth)

lemma slice_empty [simp]: "slice xs a a = []"
  by (simp add: slice_def)

lemma slice_length [simp]: "a \<le> b \<Longrightarrow> b \<le> length xs \<Longrightarrow> length (slice xs a b) = b - a"
  by (simp add: slice_def)

lemma slice_nth: "a + i < b \<Longrightarrow> b \<le> length xs \<Longrightarrow> slice xs a b ! i = xs ! (a + i)"
  by (simp add: slice_def)

lemma paint_cells_in_run:
  assumes ok: "row_drawable wd row" "widths_ok wd" "no_zero_link links" and cols: "tm_cols U = length row"
    and "b \<le> e" "e \<le> length row"
    and "in_run wd rd links row dirty r U b (run_ops wd out T0) opn pen"
    and "fold (paint_cell rd links) (slice row b e) (out, opn, pen) = (out', opn', pen')"
  shows "in_run wd rd links row dirty r U e (run_ops wd out' T0) opn' pen'"
  using assms(5-)
proof (induction e arbitrary: out' opn' pen' rule: dec_induct)
  case base
  then show ?case by simp
next
  case (step e)
  obtain o1 n1 p1 where mid: "fold (paint_cell rd links) (slice row b e) (out, opn, pen) = (o1, n1, p1)"
    by (metis prod_cases3)
  with step.prems step.hyps have "paint_cell rd links (row ! e) (o1, n1, p1) = (out', opn', pen')"
    by (simp add: slice_snoc)
  moreover have "in_run wd rd links row dirty r U e (run_ops wd o1 T0) n1 p1"
    using step.IH [OF _ step.prems(2) mid] step.prems(1) by simp
  ultimately show ?case
    using paint_cell_in_run [OF ok _ cols] step.prems(1) by (metis Suc_eq_plus1 Suc_le_lessD)
qed

text \<open>Between runs: the row is right before column \<open>k\<close> and wherever it was clean, no link is open, and
  the pen is known or untouched.\<close>

definition in_row ::
  "(ustr \<Rightarrow> nat) \<Rightarrow> renderer \<Rightarrow> link_table \<Rightarrow> cell list \<Rightarrow> (nat \<Rightarrow> bool) \<Rightarrow> nat \<Rightarrow> terminal \<Rightarrow> nat
    \<Rightarrow> terminal \<Rightarrow> bytes option \<Rightarrow> bool" where
  "in_row wd rd links row dirty r U k T pen \<longleftrightarrow>
    painted_upto wd rd links row dirty k (tm_grid T r)
    \<and> (\<forall>r'. r' \<noteq> r \<longrightarrow> tm_grid T r' = tm_grid U r')
    \<and> (\<forall>p. pen = Some p \<longrightarrow> tm_pen T = p) \<and> (pen = None \<longrightarrow> tm_pen T = tm_pen U)
    \<and> tm_link T = None \<and> same_rest T U"

lemma painted_upto_mono:
  "painted_upto wd rd links row dirty k g \<Longrightarrow> j \<le> k \<Longrightarrow> painted_upto wd rd links row dirty j g"
  by (auto simp: painted_upto_def)

lemma painted_upto_clean:
  "painted_upto wd rd links row dirty k g \<Longrightarrow> (\<And>x. k \<le> x \<Longrightarrow> x < j \<Longrightarrow> \<not> dirty x)
    \<Longrightarrow> painted_upto wd rd links row dirty j g"
  unfolding painted_upto_def by (meson not_le)

lemma paint_run_in_row:
  assumes ok: "row_drawable wd row" "widths_ok wd" "no_zero_link links" and cols: "tm_cols U = length row"
    and run: "b < e" "e \<le> length row" "\<not> is_cont row b"
    and I: "in_row wd rd links row dirty r U b (run_ops wd out T0) pen"
    and p: "paint_run rd links r row (b, e) (out, pen) = (out', pen')"
  shows "in_row wd rd links row dirty r U e (run_ops wd out' T0) pen'"
proof -
  let ?out = "out @ [CursorTo (r + 1) (b + 1)]"
  obtain o1 n1 p1 where mid: "fold (paint_cell rd links) (slice row b e) (?out, 0, pen) = (o1, n1, p1)"
    by (metis prod_cases3)
  have "in_run wd rd links row dirty r U b (run_ops wd ?out T0) 0 pen"
    using I run(3) by (auto simp: in_row_def in_run_def same_rest_def)
  from paint_cells_in_run [OF ok cols _ run(2) this mid] run(1)
  have "in_run wd rd links row dirty r U e (run_ops wd o1 T0) n1 p1" by simp
  moreover have "out' = o1 @ (if n1 \<noteq> 0 then [CloseLink] else [])" "pen' = p1"
    using p mid by (auto simp: paint_run_def)
  ultimately show ?thesis
    by (auto simp: in_run_def in_row_def same_rest_def elim: painted_upto_mono split: if_splits)
qed

section \<open>The runs of a row\<close>

primrec runs_cover :: "cell list \<Rightarrow> (nat \<Rightarrow> bool) \<Rightarrow> nat \<Rightarrow> (nat \<times> nat) list \<Rightarrow> nat \<Rightarrow> bool" where
  "runs_cover row dirty k [] m = (\<forall>x. k \<le> x \<and> x < m \<longrightarrow> \<not> dirty x)"
| "runs_cover row dirty k (run # runs) m =
     (k \<le> fst run \<and> fst run < snd run \<and> snd run \<le> m \<and> \<not> is_cont row (fst run)
      \<and> (\<forall>x. k \<le> x \<and> x < fst run \<longrightarrow> \<not> dirty x) \<and> runs_cover row dirty (snd run) runs m)"

lemma runs_cover_extend:
  "runs_cover row dirty k runs m \<Longrightarrow> m \<le> m' \<Longrightarrow> (\<And>x. m \<le> x \<Longrightarrow> x < m' \<Longrightarrow> \<not> dirty x)
    \<Longrightarrow> runs_cover row dirty k runs m'"
  by (induction runs arbitrary: k) (simp_all, meson not_le)

lemma runs_cover_snoc:
  "runs_cover row dirty k runs b \<Longrightarrow> k \<le> b \<Longrightarrow> b < e \<Longrightarrow> \<not> is_cont row b
    \<Longrightarrow> runs_cover row dirty k (runs @ [(b, e)]) e"
  by (induction runs arbitrary: k) auto

definition runs_inv :: "cell list \<Rightarrow> (nat \<Rightarrow> bool) \<Rightarrow> nat \<Rightarrow> (nat \<times> nat) list \<times> nat option \<Rightarrow> bool" where
  "runs_inv row dirty m acc =
    (case acc of
       (runs, None) \<Rightarrow> runs_cover row dirty 0 runs (m - 1) \<and> (m > 0 \<longrightarrow> \<not> dirty (m - 1))
     | (runs, Some b) \<Rightarrow> runs_cover row dirty 0 runs b \<and> b < m \<and> \<not> is_cont row b)"

lemma runs_inv_closed:
  "runs_inv row dirty m (runs, None) \<Longrightarrow> runs_cover row dirty 0 runs m"
  by (rule runs_cover_extend [of row dirty 0 runs "m - 1"])
    (auto simp: runs_inv_def, metis Suc_pred less_Suc_eq_le less_antisym not_gr_zero not_less not_less0)

lemma runs_step_inv:
  assumes ok: "row_drawable wd row" "widths_ok wd" and m: "m < length row"
    and I: "runs_inv row dirty m acc"
  shows "runs_inv row dirty (Suc m) (runs_step row dirty m acc)"
proof (cases acc)
  case (Pair runs start)
  show ?thesis
  proof (cases start)
    case None
    note I' = I [unfolded Pair None]
    have "runs_inv row dirty (Suc m) (runs, Some (run_start row m))" if "dirty m"
    proof (cases "attrs_contains (c_attrs (row ! m)) WIDE_CONT")
      case True
      from row_drawableD(1) [OF ok(1) m ok(2) True] have "m > 0" "\<not> is_cont row (m - 1)"
        by (auto simp: is_cont_def)
      with I' True show ?thesis by (simp add: runs_inv_def run_start_def)
    next
      case False
      with runs_inv_closed [OF I'] m show ?thesis
        by (simp add: runs_inv_def run_start_def is_cont_def)
    qed
    with runs_inv_closed [OF I'] show ?thesis
      unfolding Pair None runs_step_def by (simp add: runs_inv_def)
  next
    case (Some b)
    with I Pair runs_cover_snoc [of row dirty 0 runs b m] show ?thesis
      by (auto simp: runs_inv_def runs_step_def)
  qed
qed

lemma changed_runs_cover:
  assumes ok: "row_drawable wd row" "widths_ok wd"
  shows "runs_cover row (is_dirty row previous full relinked) 0 (changed_runs row previous full relinked)
    (length row)"
proof -
  let ?dirty = "is_dirty row previous full relinked"
  have "m \<le> length row \<Longrightarrow> runs_inv row ?dirty m (fold (runs_step row ?dirty) [0..<m] ([], None))" for m
    by (induction m) (auto simp: runs_step_inv [OF ok] simp: runs_inv_def [of _ _ 0])
  then obtain runs start where fin: "fold (runs_step row ?dirty) [0..<length row] ([], None) = (runs, start)"
    and I: "runs_inv row ?dirty (length row) (runs, start)"
    by (metis le_refl surj_pair)
  show ?thesis
  proof (cases start)
    case None
    with I runs_inv_closed show ?thesis by (simp add: changed_runs_def fin)
  next
    case (Some b)
    with I runs_cover_snoc [of row ?dirty 0 runs b "length row"] show ?thesis
      by (simp add: changed_runs_def fin runs_inv_def)
  qed
qed

lemma paint_runs_in_row:
  assumes ok: "row_drawable wd row" "widths_ok wd" "no_zero_link links" and cols: "tm_cols U = length row"
    and "in_row wd rd links row dirty r U k (run_ops wd out T0) pen"
    and "runs_cover row dirty k runs (length row)"
    and "fold (paint_run rd links r row) runs (out, pen) = (out', pen')"
  shows "in_row wd rd links row dirty r U (length row) (run_ops wd out' T0) pen'"
  using assms(5-)
proof (induction runs arbitrary: k out pen)
  case Nil
  then have "in_row wd rd links row dirty r U k (run_ops wd out' T0) pen'" by simp
  with Nil.prems(2) show ?case
    by (auto simp: in_row_def intro: painted_upto_clean)
next
  case (Cons run runs)
  obtain b e where run: "run = (b, e)" by fastforce
  obtain o1 p1 where p1: "paint_run rd links r row (b, e) (out, pen) = (o1, p1)" by fastforce
  from Cons.prems(2) have be: "b < e" "e \<le> length row" "\<not> is_cont row b"
    and clean: "\<And>x. k \<le> x \<Longrightarrow> x < b \<Longrightarrow> \<not> dirty x" and rest: "runs_cover row dirty e runs (length row)"
    by (auto simp: run)
  have "in_row wd rd links row dirty r U b (run_ops wd out T0) pen"
    using Cons.prems(1) clean by (auto simp: in_row_def intro: painted_upto_clean)
  from paint_run_in_row [OF ok cols be this p1] rest Cons.prems(3) show ?case
    by (intro Cons.IH) (simp_all add: run p1)
qed

section \<open>All rows\<close>

definition row_of :: "cell list \<Rightarrow> nat \<Rightarrow> nat \<Rightarrow> cell list" where
  "row_of cells cols r = slice cells (r * cols) (r * cols + cols)"

definition drawable :: "(ustr \<Rightarrow> nat) \<Rightarrow> nat \<Rightarrow> nat \<Rightarrow> cell list \<Rightarrow> bool" where
  "drawable wd rows cols cells \<longleftrightarrow>
    length cells = rows * cols \<and> list_all (\<lambda>r. row_drawable wd (row_of cells cols r)) [0..<rows]"

definition dirty_at :: "renderer \<Rightarrow> link_table \<Rightarrow> cell list \<Rightarrow> nat \<Rightarrow> bool \<Rightarrow> nat \<Rightarrow> nat \<Rightarrow> bool" where
  "dirty_at rd links cells cols full r =
    is_dirty (row_of cells cols r)
      (case rd_painted rd of
         Some p \<Rightarrow> if length (pt_cells p) = length cells then Some (row_of (pt_cells p) cols r) else None
       | None \<Rightarrow> None)
      full (relinked_at rd links (row_of cells cols r))"

definition grid_shows ::
  "renderer \<Rightarrow> link_table \<Rightarrow> cell list \<Rightarrow> nat \<Rightarrow> nat \<Rightarrow> (nat \<Rightarrow> nat \<Rightarrow> glyph) \<Rightarrow> bool" where
  "grid_shows rd links cells rows cols G \<longleftrightarrow>
    (\<forall>r < rows. \<forall>x < cols. G r x = look rd links (cells ! (r * cols + x)))"

lemma row_in_range: "r < rows \<Longrightarrow> r * cols + cols \<le> rows * (cols :: nat)"
  by (metis Suc_leI add.commute mult_Suc mult_le_mono1)

lemma row_of_facts:
  assumes "length cells = rows * cols" "r < rows"
  shows "length (row_of cells cols r) = cols"
    and "x < cols \<Longrightarrow> row_of cells cols r ! x = cells ! (r * cols + x)"
  using row_in_range [OF assms(2), of cols] assms(1) by (simp_all add: row_of_def slice_nth)

definition rows_inv ::
  "(ustr \<Rightarrow> nat) \<Rightarrow> renderer \<Rightarrow> link_table \<Rightarrow> cell list \<Rightarrow> nat \<Rightarrow> nat \<Rightarrow> terminal \<Rightarrow> nat \<Rightarrow> terminal
    \<Rightarrow> bytes option \<Rightarrow> bool" where
  "rows_inv wd rd links cells rows cols U m T pen \<longleftrightarrow>
    grid_shows rd links cells m cols (tm_grid T)
    \<and> (\<forall>r < rows. halves_ok wd (tm_grid T r)) \<and> (\<forall>r \<ge> m. tm_grid T r = tm_grid U r)
    \<and> (\<forall>p. pen = Some p \<longrightarrow> tm_pen T = p) \<and> (pen = None \<longrightarrow> tm_pen T = tm_pen U)
    \<and> tm_link T = None \<and> same_rest T U"

text \<open>Once known, the pen stays known.\<close>

lemma paint_cells_pen:
  "snd (snd acc) \<noteq> None \<Longrightarrow> snd (snd (fold (paint_cell rd links) cs acc)) \<noteq> None"
  by (induction cs arbitrary: acc) (simp_all add: paint_cell_def split_beta Let_def)

lemma paint_runs_pen:
  "snd acc \<noteq> None \<Longrightarrow> snd (fold (paint_run rd links r row) runs acc) \<noteq> None"
proof (induction runs arbitrary: acc)
  case (Cons run runs)
  have "snd (paint_run rd links r row run acc) \<noteq> None"
    using Cons.prems paint_cells_pen [of "(fst acc @ [CursorTo (r + 1) (fst run + 1)], 0, snd acc)"]
    by (simp add: paint_run_def split_beta)
  from Cons.IH [OF this] show ?case by simp
qed simp

lemma paint_row_inv:
  assumes ok: "drawable wd rows cols cells" "widths_ok wd" "no_zero_link links" and cols: "tm_cols U = cols"
    and clean: "\<And>x. x < cols \<Longrightarrow> \<not> dirty_at rd links cells cols full m x
      \<Longrightarrow> tm_grid U m x = look rd links (cells ! (m * cols + x))"
    and m: "m < rows" and I: "rows_inv wd rd links cells rows cols U m (run_ops wd out T0) pen"
    and p: "paint_row rd cells links cols full m (out, pen) = (out', pen')"
  shows "rows_inv wd rd links cells rows cols U (Suc m) (run_ops wd out' T0) pen'"
proof -
  let ?row = "row_of cells cols m"
  let ?T = "run_ops wd out T0"
  let ?dirty = "dirty_at rd links cells cols full m"
  have len: "length cells = rows * cols" and draw: "row_drawable wd ?row"
    using ok(1) m by (auto simp: drawable_def list_all_iff)
  note row = row_of_facts [OF len m]
  have T: "halves_ok wd (tm_grid ?T m)" "tm_grid ?T m = tm_grid U m" "tm_link ?T = None" "same_rest ?T U"
    using I m by (auto simp: rows_inv_def)
  have start: "in_row wd rd links ?row ?dirty m ?T 0 ?T pen"
    using I m clean T row by (auto simp: in_row_def painted_upto_def same_rest_def rows_inv_def)
  have runs: "fold (paint_run rd links m ?row)
      (changed_runs ?row (case rd_painted rd of
         Some p \<Rightarrow> if length (pt_cells p) = length cells then Some (row_of (pt_cells p) cols m) else None
       | None \<Rightarrow> None) full (relinked_at rd links ?row)) (out, pen) = (out', pen')"
    using p unfolding paint_row_def row_of_def Let_def .
  have "tm_cols ?T = length ?row"
    using T(4) cols row by (simp add: same_rest_def)
  from paint_runs_in_row [OF draw ok(2,3) this start [unfolded dirty_at_def] changed_runs_cover [OF draw ok(2)] runs]
  have fin: "in_row wd rd links ?row ?dirty m ?T (length ?row) (run_ops wd out' T0) pen'"
    unfolding dirty_at_def .
  then have "tm_grid (run_ops wd out' T0) m x = look rd links (cells ! (m * cols + x))" if "x < cols" for x
    using that row by (auto simp: in_row_def painted_upto_def)
  moreover have "halves_ok wd (tm_grid (run_ops wd out' T0) r)" if "r < rows" for r
    using fin I that by (cases "r = m") (auto simp: in_row_def painted_upto_def rows_inv_def)
  moreover have "snd (out', pen') \<noteq> None" if "pen \<noteq> None"
    unfolding runs [symmetric] using that by (intro paint_runs_pen) simp
  then have "pen' = None \<longrightarrow> pen = None" by (cases pen) simp_all
  moreover have "grid_shows rd links cells m cols (tm_grid (run_ops wd out' T0))"
    using fin I by (auto simp: in_row_def rows_inv_def grid_shows_def)
  ultimately have "grid_shows rd links cells (Suc m) cols (tm_grid (run_ops wd out' T0))"
    "pen' = None \<Longrightarrow> pen = None" "\<And>r. r < rows \<Longrightarrow> halves_ok wd (tm_grid (run_ops wd out' T0) r)"
    by (auto simp: grid_shows_def less_Suc_eq)
  then show ?thesis
    using fin I by (simp add: in_row_def rows_inv_def same_rest_def)
qed

lemma paint_rows_inv:
  assumes ok: "drawable wd rows cols cells" "widths_ok wd" "no_zero_link links" and cols: "tm_cols U = cols"
    and clean: "\<And>r x. r < rows \<Longrightarrow> x < cols \<Longrightarrow> \<not> dirty_at rd links cells cols full r x
      \<Longrightarrow> tm_grid U r x = look rd links (cells ! (r * cols + x))"
    and U: "tm_link U = None" "\<And>r. r < rows \<Longrightarrow> halves_ok wd (tm_grid U r)" "run_ops wd out T0 = U"
    and "m \<le> rows" "fold (paint_row rd cells links cols full) [0..<m] (out, None) = (out', pen')"
  shows "rows_inv wd rd links cells rows cols U m (run_ops wd out' T0) pen'"
  using assms(9-)
proof (induction m arbitrary: out' pen')
  case 0
  then show ?case
    using U by (simp add: rows_inv_def grid_shows_def same_rest_def)
next
  case (Suc m)
  obtain o1 p1 where mid: "fold (paint_row rd cells links cols full) [0..<m] (out, None) = (o1, p1)"
    by fastforce
  with Suc.prems have last: "paint_row rd cells links cols full m (o1, p1) = (out', pen')" and m: "m < rows"
    by simp_all
  show ?case
    by (rule paint_row_inv [OF ok cols clean m Suc.IH [OF less_imp_le [OF m] mid] last]) (use m in auto)
qed

section \<open>All cells\<close>

lemma sgr_for_blank: "sgr_for rd cell_blank = SGR_RESET"
  by (simp add: sgr_for_def cell_blank_def attrs_contains_def down_convert_def push_color_def
      BOLD_def DIM_def ITALIC_def UNDERLINE_def BLINK_def INVERSE_def HIDDEN_def STRIKE_def
      SGR_RESET_def ESC_def ascii_def str_of_def utf8_def utf8_scalar_def Let_def)

lemma look_blank: "look rd links cell_blank = Glyph [32] SGR_RESET None"
  unfolding look_def sgr_for_blank by (simp add: cell_blank_def shown_text_def)

lemma clean_when_full:
  "full \<Longrightarrow> \<not> dirty_at rd links cells cols full r x \<Longrightarrow> row_of cells cols r ! x = cell_blank"
  by (auto simp: dirty_at_def is_dirty_def split: option.splits if_splits)

lemma clean_look:
  assumes "rd_painted rd = Some p" "length (pt_cells p) = length cells" "length cells = rows * cols"
    and "r < rows" "x < cols" "\<not> dirty_at rd links cells cols False r x"
  shows "look rd (pt_links p) (pt_cells p ! (r * cols + x)) = look rd links (cells ! (r * cols + x))"
proof -
  note row = row_of_facts(2) [OF assms(3,4,5)]
    row_of_facts(2) [OF assms(2) [unfolded assms(3)] assms(4,5)]
  let ?c = "cells ! (r * cols + x)"
  have same: "pt_cells p ! (r * cols + x) = ?c" and nr: "\<not> relinked_at rd links (row_of cells cols r) x"
    using assms(1,2,6) row by (auto simp: dirty_at_def is_dirty_def)
  from nr have "links_on rd \<Longrightarrow> c_link ?c \<noteq> 0 \<Longrightarrow> bt_get (pt_links p) (c_link ?c) = bt_get links (c_link ?c)"
    using assms(1) row by (auto simp: relinked_at_def)
  then have "id_link rd (pt_links p) (c_link ?c) = id_link rd links (c_link ?c)"
    by (simp add: id_link_def)
  then show ?thesis by (simp add: same look_def)
qed

lemma write_cells_shows:
  assumes ok: "drawable wd (unat rows) (unat cols) cells" "widths_ok wd" "no_zero_link links"
    and T: "tm_cols T = unat cols" "tm_pen T = SGR_RESET"
    and full: "full \<Longrightarrow> tm_link T = None \<or> caps_osc8 (rd_caps rd) \<and> (links_on rd \<or> rd_link_may_be_open rd)"
    and diff: "\<not> full \<Longrightarrow> rd_painted rd = Some p \<and> length (pt_cells p) = length cells \<and> tm_link T = None
      \<and> grid_shows rd (pt_links p) (pt_cells p) (unat rows) (unat cols) (tm_grid T)
      \<and> (\<forall>r < unat rows. halves_ok wd (tm_grid T r))"
  defines "T' \<equiv> run_ops wd (write_cells rd cells links rows cols full) T"
  shows "grid_shows rd links cells (unat rows) (unat cols) (tm_grid T')
    \<and> (\<forall>r < unat rows. halves_ok wd (tm_grid T' r)) \<and> tm_pen T' = SGR_RESET \<and> tm_link T' = None
    \<and> same_rest T' T"
proof -
  define start where "start = (if full then
      (if caps_osc8 (rd_caps rd) \<and> (links_on rd \<or> rd_link_may_be_open rd) then [CloseLink] else []) @ [HomeClear]
    else [])"
  define U where "U = run_ops wd start T"
  obtain out pen where rows: "fold (paint_row rd cells links (unat cols) full) [0..<unat rows] (start, None) = (out, pen)"
    by fastforce
  have len: "length cells = unat rows * unat cols"
    using ok(1) by (simp add: drawable_def)
  have U: "tm_cols U = unat cols" "tm_pen U = SGR_RESET" "tm_link U = None" "same_rest U T"
    "\<And>r. r < unat rows \<Longrightarrow> halves_ok wd (tm_grid U r)"
    using T full diff by (auto simp: U_def start_def same_rest_def halves_ok_def)
  have "tm_grid U r x = look rd links (cells ! (r * unat cols + x))"
    if "r < unat rows" "x < unat cols" "\<not> dirty_at rd links cells (unat cols) full r x" for r x
  proof (cases full)
    case True
    with clean_when_full [OF True that(3)] row_of_facts(2) [OF len that(1,2)] T(2) show ?thesis
      by (auto simp: U_def start_def look_blank)
  next
    case False
    with clean_look [OF _ _ len that(1,2)] that diff show ?thesis
      by (auto simp: U_def start_def grid_shows_def)
  qed
  from paint_rows_inv [OF ok U(1) this U(3,5) U_def [symmetric] order_refl rows]
  have inv: "rows_inv wd rd links cells (unat rows) (unat cols) U (unat rows) (run_ops wd out T) pen"
    by simp
  have "T' = run_ops wd (case pen of Some q \<Rightarrow> if q \<noteq> SGR_RESET then [Sgr SGR_RESET] else [] | None \<Rightarrow> [])
      (run_ops wd out T)"
    using rows by (simp add: T'_def write_cells_def start_def [symmetric] Let_def)
  then show ?thesis
    using inv U by (auto simp: rows_inv_def same_rest_def split: option.splits if_splits)
qed

section \<open>The whole pass\<close>

definition modes_shown :: "terminal_caps \<Rightarrow> modes \<Rightarrow> (nat \<Rightarrow> bool) \<Rightarrow> bool" where
  "modes_shown caps m mode \<longleftrightarrow>
    (caps_bracketed_paste caps \<longrightarrow> mode 2004 = bracketed_paste m)
    \<and> mode 1000 = (mouse m = Press \<or> mouse m = PressRelease)
    \<and> mode 1002 = (mouse m = ButtonMotion) \<and> mode 1003 = (mouse m = AnyMotion)
    \<and> (mouse m = Off \<longrightarrow> \<not> mode 1006) \<and> (mouse m \<noteq> Off \<and> caps_mouse_sgr caps \<longrightarrow> mode 1006)"

definition cursor_shown :: "cursor \<Rightarrow> terminal \<Rightarrow> bool" where
  "cursor_shown cur T \<longleftrightarrow>
    tm_row T = unat (cur_row cur) \<and> tm_col T = unat (cur_col cur) \<and> tm_mode T 25 = cur_visible cur
    \<and> tm_style T = cursor_style (cur_shape cur)"

text \<open>The terminal shows what the model says is painted.\<close>

definition term_shows :: "(ustr \<Rightarrow> nat) \<Rightarrow> renderer \<Rightarrow> painted \<Rightarrow> terminal \<Rightarrow> bool" where
  "term_shows wd rd p T \<longleftrightarrow>
    (let rows = unat (ts_rows (rd_size rd)); cols = unat (ts_cols (rd_size rd)) in
     length (pt_cells p) = rows * cols
     \<and> grid_shows rd (pt_links p) (pt_cells p) rows cols (tm_grid T)
     \<and> (\<forall>r < rows. halves_ok wd (tm_grid T r))
     \<and> modes_shown (rd_caps rd) (pt_modes p) (tm_mode T) \<and> cursor_shown (pt_cursor p) T)"

text \<open>What holds between passes: the model is true or dropped, the pen is at the default, and no link is
  open, or the renderer remembers that one may be.\<close>

definition in_step :: "(ustr \<Rightarrow> nat) \<Rightarrow> renderer \<Rightarrow> terminal \<Rightarrow> bool" where
  "in_step wd rd T \<longleftrightarrow>
    (case rd_painted rd of Some p \<Rightarrow> term_shows wd rd p T \<and> tm_link T = None | None \<Rightarrow> True)
    \<and> tm_pen T = SGR_RESET
    \<and> (tm_link T = None \<or> caps_osc8 (rd_caps rd) \<and> rd_link_may_be_open rd)"

lemma write_mouse_run:
  fixes wd rd m T
  defines "mode \<equiv> tm_mode (run_ops wd (write_mouse rd m) T)"
  shows "run_ops wd (write_mouse rd m) T = T\<lparr>tm_mode := mode\<rparr>
    \<and> (\<forall>n. n \<notin> {1000, 1002, 1003, 1006} \<longrightarrow> mode n = tm_mode T n)
    \<and> mode 1000 = (m = Press \<or> m = PressRelease) \<and> mode 1002 = (m = ButtonMotion)
    \<and> mode 1003 = (m = AnyMotion) \<and> (m = Off \<longrightarrow> \<not> mode 1006)
    \<and> (m \<noteq> Off \<and> caps_mouse_sgr (rd_caps rd) \<longrightarrow> mode 1006)"
  unfolding mode_def by (cases m) (simp_all add: write_mouse_def)

lemma write_modes_run:
  assumes "\<And>p. rd_painted rd = Some p \<Longrightarrow> modes_shown (rd_caps rd) (pt_modes p) (tm_mode T)"
  shows "\<exists>mode. run_ops wd (write_modes rd s full) T = T\<lparr>tm_mode := mode\<rparr>
    \<and> modes_shown (rd_caps rd) (scr_modes s) mode \<and> mode 25 = tm_mode T 25"
proof -
  define paste where "paste = (caps_bracketed_paste (rd_caps rd) \<and> (case rd_painted rd of
      Some p \<Rightarrow> (if \<not> full then bracketed_paste (scr_modes s) \<noteq> bracketed_paste (pt_modes p) else True)
    | None \<Rightarrow> True))"
  define mous where "mous = (case rd_painted rd of
      Some p \<Rightarrow> (if \<not> full then mouse (scr_modes s) \<noteq> mouse (pt_modes p) else True) | None \<Rightarrow> True)"
  let ?b = "bracketed_paste (scr_modes s)"
  define U where "U = (if paste then T\<lparr>tm_mode := (tm_mode T)(2004 := ?b)\<rparr> else T)"
  have ops: "write_modes rd s full =
      (if paste then [if ?b then DecSet 2004 else DecReset 2004] else [])
      @ (if mous then write_mouse rd (mouse (scr_modes s)) else [])"
    unfolding write_modes_def Let_def paste_def mous_def by (cases "rd_painted rd") auto
  have run: "run_ops wd (write_modes rd s full) T = run_ops wd (if mous then write_mouse rd (mouse (scr_modes s)) else []) U"
    by (auto simp: ops U_def)
  have pasted: "caps_bracketed_paste (rd_caps rd) \<Longrightarrow> tm_mode U 2004 = ?b"
    using assms by (auto simp: U_def paste_def modes_shown_def split: option.splits if_splits)
  have T: "U = T\<lparr>tm_mode := tm_mode U\<rparr>" "tm_mode U 25 = tm_mode T 25" by (simp_all add: U_def)
  show ?thesis
  proof (cases mous)
    case False
    have "modes_shown (rd_caps rd) (scr_modes s) (tm_mode U)"
      using assms False pasted
      by (auto simp: U_def mous_def modes_shown_def split: option.splits if_splits)
    with False T show ?thesis unfolding run by (intro exI [of _ "tm_mode U"]) simp
  next
    case True
    let ?mode = "tm_mode (run_ops wd (write_mouse rd (mouse (scr_modes s))) U)"
    note mouse = write_mouse_run [of wd rd "mouse (scr_modes s)" U]
    then have "modes_shown (rd_caps rd) (scr_modes s) ?mode" "?mode 25 = tm_mode T 25"
      using pasted T(2) unfolding modes_shown_def by simp_all
    moreover have "run_ops wd (write_mouse rd (mouse (scr_modes s))) U = T\<lparr>tm_mode := ?mode\<rparr>"
      by (subst conjunct1 [OF mouse], subst T(1)) simp
    ultimately show ?thesis
      unfolding run using True by (intro exI [of _ ?mode]) simp
  qed
qed

lemma write_cursor_run:
  fixes wd :: "ustr \<Rightarrow> nat"
  assumes "\<not> full \<Longrightarrow> rd_painted rd = Some p \<and> tm_style T = cursor_style (cur_shape (pt_cursor p))
      \<and> tm_mode T 25 = cur_visible (pt_cursor p)"
    and "\<not> full \<Longrightarrow> out = [] \<Longrightarrow> cursor_shown (pt_cursor p) T"
    and "unat (cur_row cur) + 1 < 65536" "unat (cur_col cur) + 1 < 65536"
  defines "T' \<equiv> run_ops wd (write_cursor rd cur full out) T"
  shows "cursor_shown cur T' \<and> tm_cols T' = tm_cols T \<and> tm_grid T' = tm_grid T \<and> tm_pen T' = tm_pen T
    \<and> tm_link T' = tm_link T \<and> tm_title T' = tm_title T \<and> tm_bells T' = tm_bells T
    \<and> (\<forall>n. n \<noteq> 25 \<longrightarrow> tm_mode T' n = tm_mode T n)"
proof -
  have "unat (cur_row cur + 1) = unat (cur_row cur) + 1" "unat (cur_col cur + 1) = unat (cur_col cur) + 1"
    using assms(3,4) by (simp_all add: unat_word_ariths)
  then show ?thesis
    using assms(1,2)
    by (cases full) (auto simp: T'_def write_cursor_def cursor_shown_def Let_def split: if_splits)
qed

lemma look_cong:
  assumes "rd_caps rd = rd_caps rd'" "rd_hyperlinks rd = rd_hyperlinks rd'"
  shows "look rd = look rd'" "links_on rd = links_on rd'"
    "grid_shows rd = grid_shows rd'"
proof -
  show on: "links_on rd = links_on rd'" using assms by (simp add: links_on_def)
  have "look rd links c = look rd' links c" for links c
    using on assms by (simp add: look_def id_link_def sgr_for_def)
  then show "look rd = look rd'" by blast
  then show "grid_shows rd = grid_shows rd'"
    by (intro ext) (simp add: grid_shows_def)
qed

lemma composite_overlay:
  "rd_overlay rd = rd_overlay rd' \<Longrightarrow> composite wd rd = composite wd rd' \<and> shown_cursor rd = shown_cursor rd'"
  by (auto simp: composite_def shown_cursor_def intro!: ext)

text \<open>The renderer a pass works with: fitted to the screen's shape, the model dropped when the shape or
  the remote's screen buffer changed.\<close>

definition fitted :: "renderer \<Rightarrow> screen_state \<Rightarrow> renderer" where
  "fitted rd s =
    (if scr_rows s \<noteq> ts_rows (rd_size rd) \<or> scr_cols s \<noteq> ts_cols (rd_size rd)
     then rd\<lparr>rd_size := \<lparr>ts_cols = scr_cols s, ts_rows = scr_rows s\<rparr>, rd_painted := None\<rparr> else rd)"

definition swapped_out :: "renderer \<Rightarrow> screen_state \<Rightarrow> renderer" where
  "swapped_out rd s =
    (case rd_painted rd of
       Some p \<Rightarrow> if alt_screen (pt_modes p) \<noteq> alt_screen (scr_modes s) then rd\<lparr>rd_painted := None\<rparr> else rd
     | None \<Rightarrow> rd)"

definition pass_cells :: "(ustr \<Rightarrow> nat) \<Rightarrow> renderer \<Rightarrow> screen_state \<Rightarrow> term_op list" where
  "pass_cells wd rd s =
    (let rd0 = fitted rd s; rd1 = swapped_out rd0 s; full = (rd_painted rd1 = None)
     in write_modes rd0 s (rd_painted rd0 = None) @ write_title rd1 s full
        @ write_cells rd1 (composite wd rd s) (scr_links s) (scr_rows s) (scr_cols s) full)"

definition pass_ops :: "(ustr \<Rightarrow> nat) \<Rightarrow> renderer \<Rightarrow> screen_state \<Rightarrow> term_op list" where
  "pass_ops wd rd s =
    pass_cells wd rd s
    @ write_cursor (swapped_out (fitted rd s) s) (shown_cursor rd s)
        (rd_painted (swapped_out (fitted rd s) s) = None) (pass_cells wd rd s)
    @ (if should_ring (fitted rd s) s then [Bell] else [])"

lemma render_ops:
  "fst (render wd rd s written) =
    (if pass_ops wd rd s \<noteq> [] then [DecSet 2026] @ pass_ops wd rd s @ [DecReset 2026] else [])"
proof -
  let ?rd0 = "fitted rd s"
  define sw where "sw = (case rd_painted ?rd0 of
      Some p \<Rightarrow> alt_screen (pt_modes p) \<noteq> alt_screen (scr_modes s) | None \<Rightarrow> False)"
  have rd1: "(if sw then ?rd0\<lparr>rd_painted := None\<rparr> else ?rd0) = swapped_out ?rd0 s"
    "(if sw then True else rd_painted ?rd0 = None) = (rd_painted (swapped_out ?rd0 s) = None)"
    by (auto simp: sw_def swapped_out_def split: option.splits)
  have ov: "rd_overlay (swapped_out ?rd0 s) = rd_overlay rd"
    by (simp add: fitted_def swapped_out_def split: option.split)
  have cur: "write_cursor (rd1\<lparr>rd_link_may_be_open := b\<rparr>) = write_cursor rd1" for rd1 b
    by (intro ext) (simp add: write_cursor_def)
  show ?thesis
    unfolding render_def Let_def fitted_def [symmetric] sw_def [symmetric] rd1 fst_conv
    using composite_overlay [OF ov, of wd]
    by (auto simp: pass_ops_def pass_cells_def cur Let_def)
qed

lemma render_renderer:
  defines "rd1 rd s \<equiv> swapped_out (fitted rd s) s"
  shows "snd (render wd rd s True) = (rd1 rd s)\<lparr>rd_link_may_be_open := False,
      rd_painted := Some \<lparr>pt_cells = composite wd rd s, pt_cursor = shown_cursor rd s, pt_modes = scr_modes s,
        pt_title = scr_title s, pt_bell = scr_bell s, pt_links = scr_links s\<rparr>\<rparr>"
proof -
  let ?rd0 = "fitted rd s"
  define sw where "sw = (case rd_painted ?rd0 of
      Some p \<Rightarrow> alt_screen (pt_modes p) \<noteq> alt_screen (scr_modes s) | None \<Rightarrow> False)"
  have sw: "(if sw then ?rd0\<lparr>rd_painted := None\<rparr> else ?rd0) = rd1 rd s"
    by (auto simp: sw_def rd1_def swapped_out_def split: option.splits)
  have ov: "rd_overlay (rd1 rd s) = rd_overlay rd"
    by (simp add: rd1_def fitted_def swapped_out_def split: option.split)
  show ?thesis
    unfolding render_def Let_def fitted_def [symmetric] sw_def [symmetric] sw snd_conv
    using composite_overlay [OF ov, of wd] by simp
qed

lemma no_zero_link_valid: "check_links links = Inr () \<Longrightarrow> no_zero_link links"
  by (auto simp: no_zero_link_def check_links_ok_iff bt_get_def map_of_eq_None_iff)

lemma in_step_fitted:
  assumes "in_step wd rd T"
  shows "in_step wd (swapped_out (fitted rd s) s) T" "in_step wd (fitted rd s) T"
proof -
  have drop: "in_step wd rd T \<Longrightarrow> in_step wd (rd\<lparr>rd_painted := None\<rparr>) T" for rd
    by (auto simp: in_step_def split: option.splits)
  show 1: "in_step wd (fitted rd s) T"
    using assms by (auto simp: fitted_def in_step_def split: option.splits)
  then show "in_step wd (swapped_out (fitted rd s) s) T"
    using drop by (auto simp: swapped_out_def split: option.split)
qed

lemma fitted_facts:
  "rd_size (fitted rd s) = \<lparr>ts_cols = scr_cols s, ts_rows = scr_rows s\<rparr>"
  "rd_size (swapped_out rd s) = rd_size rd" "rd_caps (swapped_out rd s) = rd_caps rd"
  "rd_hyperlinks (swapped_out rd s) = rd_hyperlinks rd" "rd_overlay (swapped_out rd s) = rd_overlay rd"
  "rd_caps (fitted rd s) = rd_caps rd" "rd_hyperlinks (fitted rd s) = rd_hyperlinks rd"
  "rd_overlay (fitted rd s) = rd_overlay rd"
  "rd_link_may_be_open (fitted rd s) = rd_link_may_be_open rd"
  "rd_link_may_be_open (swapped_out rd s) = rd_link_may_be_open rd"
  by (auto simp: fitted_def swapped_out_def split: option.splits if_splits)

lemma pass_cells_shows:
  fixes rd s
  defines "rd1 \<equiv> swapped_out (fitted rd s) s"
  assumes ok: "drawable wd (unat (scr_rows s)) (unat (scr_cols s)) (composite wd rd s)" "widths_ok wd"
      "no_zero_link (scr_links s)"
    and T: "tm_cols T = unat (scr_cols s)" "in_step wd rd T"
  shows "let T' = run_ops wd (pass_cells wd rd s) T in
    grid_shows rd (scr_links s) (composite wd rd s) (unat (scr_rows s)) (unat (scr_cols s)) (tm_grid T')
    \<and> (\<forall>r < unat (scr_rows s). halves_ok wd (tm_grid T' r)) \<and> tm_pen T' = SGR_RESET \<and> tm_link T' = None
    \<and> modes_shown (rd_caps rd) (scr_modes s) (tm_mode T') \<and> tm_mode T' 25 = tm_mode T 25
    \<and> tm_style T' = tm_style T \<and> tm_bells T' = tm_bells T \<and> tm_cols T' = tm_cols T
    \<and> tm_title T' = (if write_title rd1 s (rd_painted rd1 = None) = [] then tm_title T else scr_title s)"
proof -
  let ?rd0 = "fitted rd s"
  let ?full = "rd_painted rd1 = None"
  note step0 = in_step_fitted(2) [OF T(2), of s] and step1 = in_step_fitted(1) [OF T(2), of s, folded rd1_def]
  have caps: "rd_caps rd1 = rd_caps rd" "rd_hyperlinks rd1 = rd_hyperlinks rd"
    by (simp_all add: rd1_def fitted_facts)
  have "modes_shown (rd_caps ?rd0) (pt_modes p) (tm_mode T)" if "rd_painted ?rd0 = Some p" for p
    using step0 that by (auto simp: in_step_def term_shows_def Let_def)
  from write_modes_run [OF this, of wd s "rd_painted ?rd0 = None"] obtain mode
    where M: "run_ops wd (write_modes ?rd0 s (rd_painted ?rd0 = None)) T = T\<lparr>tm_mode := mode\<rparr>"
      "modes_shown (rd_caps rd) (scr_modes s) mode" "mode 25 = tm_mode T 25"
    by (auto simp: fitted_facts)
  define title where "title = (if write_title rd1 s ?full = [] then tm_title T else scr_title s)"
  define T2 where "T2 = T\<lparr>tm_mode := mode, tm_title := title\<rparr>"
  have T2: "run_ops wd (write_title rd1 s ?full) (T\<lparr>tm_mode := mode\<rparr>) = T2"
    by (auto simp: T2_def title_def write_title_def Let_def split: option.split)
  have fields: "tm_cols T2 = unat (scr_cols s)" "tm_pen T2 = SGR_RESET" "tm_grid T2 = tm_grid T" "tm_link T2 = tm_link T"
    using T step1 by (auto simp: T2_def in_step_def)
  have shown: "rd_painted rd1 = Some p \<and> length (pt_cells p) = length (composite wd rd s) \<and> tm_link T2 = None
      \<and> grid_shows rd1 (pt_links p) (pt_cells p) (unat (scr_rows s)) (unat (scr_cols s)) (tm_grid T2)
      \<and> (\<forall>r < unat (scr_rows s). halves_ok wd (tm_grid T2 r))" if "rd_painted rd1 = Some p" for p
    using step1 that ok(1) fields
    by (auto simp: in_step_def term_shows_def Let_def rd1_def fitted_facts drawable_def)
  have cells: "grid_shows rd1 (scr_links s) (composite wd rd s) (unat (scr_rows s)) (unat (scr_cols s)) (tm_grid T')
    \<and> (\<forall>r < unat (scr_rows s). halves_ok wd (tm_grid T' r)) \<and> tm_pen T' = SGR_RESET \<and> tm_link T' = None
    \<and> same_rest T' T2"
    if "T' = run_ops wd (write_cells rd1 (composite wd rd s) (scr_links s) (scr_rows s) (scr_cols s) ?full) T2" for T'
    unfolding that
  proof (rule write_cells_shows [OF ok fields(1,2), where p = "the (rd_painted rd1)"])
    show "tm_link T2 = None \<or> caps_osc8 (rd_caps rd1) \<and> (links_on rd1 \<or> rd_link_may_be_open rd1)" if ?full
      using step1 fields by (auto simp: in_step_def)
  qed (use shown in auto)
  have "run_ops wd (pass_cells wd rd s) T
      = run_ops wd (write_cells rd1 (composite wd rd s) (scr_links s) (scr_rows s) (scr_cols s) ?full) T2"
    by (simp add: pass_cells_def Let_def rd1_def [symmetric] M(1) T2)
  from cells [OF this] M(2,3) show ?thesis
    using look_cong(3) [OF caps] T2_def title_def by (simp add: Let_def same_rest_def)
qed

lemma pass_ops_shows:
  assumes ok: "drawable wd (unat (scr_rows s)) (unat (scr_cols s)) (composite wd rd s)" "widths_ok wd"
      "no_zero_link (scr_links s)"
    and cur: "unat (cur_row (scr_cursor s)) + 1 < 65536" "unat (cur_col (scr_cursor s)) + 1 < 65536"
    and T: "tm_cols T = unat (scr_cols s)" "in_step wd rd T"
  shows "let T' = run_ops wd (pass_ops wd rd s) T in
    grid_shows rd (scr_links s) (composite wd rd s) (unat (scr_rows s)) (unat (scr_cols s)) (tm_grid T')
    \<and> (\<forall>r < unat (scr_rows s). halves_ok wd (tm_grid T' r)) \<and> tm_pen T' = SGR_RESET \<and> tm_link T' = None
    \<and> modes_shown (rd_caps rd) (scr_modes s) (tm_mode T') \<and> cursor_shown (shown_cursor rd s) T'
    \<and> tm_bells T' = tm_bells T + (if should_ring (fitted rd s) s then 1 else 0)
    \<and> tm_title T' = (if write_title (swapped_out (fitted rd s) s) s
          (rd_painted (swapped_out (fitted rd s) s) = None) = [] then tm_title T else scr_title s)"
proof -
  let ?rd1 = "swapped_out (fitted rd s) s"
  define T3 where "T3 = run_ops wd (pass_cells wd rd s) T"
  note cells = pass_cells_shows [OF ok T, folded T3_def, unfolded Let_def]
  have p: "rd_painted ?rd1 = Some (the (rd_painted ?rd1)) \<and> cursor_shown (pt_cursor (the (rd_painted ?rd1))) T"
    if "rd_painted ?rd1 \<noteq> None"
    using in_step_fitted(1) [OF T(2), of s] that by (auto simp: in_step_def term_shows_def Let_def)
  have curs: "unat (cur_row (shown_cursor rd s)) + 1 < 65536" "unat (cur_col (shown_cursor rd s)) + 1 < 65536"
    using cur by (simp_all add: shown_cursor_def split: option.split)
  have w: "cursor_shown (shown_cursor rd s) U \<and> tm_cols U = tm_cols T3 \<and> tm_grid U = tm_grid T3 \<and> tm_pen U = tm_pen T3
    \<and> tm_link U = tm_link T3 \<and> tm_title U = tm_title T3 \<and> tm_bells U = tm_bells T3
    \<and> (\<forall>n. n \<noteq> 25 \<longrightarrow> tm_mode U n = tm_mode T3 n)"
    if "U = run_ops wd (write_cursor ?rd1 (shown_cursor rd s) (rd_painted ?rd1 = None) (pass_cells wd rd s)) T3" for U
    unfolding that
  proof (rule write_cursor_run [OF _ _ curs, where p = "the (rd_painted ?rd1)"])
    assume "rd_painted ?rd1 \<noteq> None"
    with p cells show "rd_painted ?rd1 = Some (the (rd_painted ?rd1))
        \<and> tm_style T3 = cursor_style (cur_shape (pt_cursor (the (rd_painted ?rd1))))
        \<and> tm_mode T3 25 = cur_visible (pt_cursor (the (rd_painted ?rd1)))"
      by (simp add: cursor_shown_def)
  next
    assume "rd_painted ?rd1 \<noteq> None" "pass_cells wd rd s = []"
    with p show "cursor_shown (pt_cursor (the (rd_painted ?rd1))) T3"
      by (simp add: T3_def)
  qed
  show ?thesis
    using w [OF refl] cells
    by (simp add: pass_ops_def T3_def [symmetric] Let_def modes_shown_def cursor_shown_def)
qed

lemma in_step_sync:
  "in_step wd rd T \<Longrightarrow> in_step wd rd (T\<lparr>tm_mode := (tm_mode T)(2026 := b)\<rparr>)"
  by (auto simp: in_step_def term_shows_def modes_shown_def cursor_shown_def Let_def split: option.splits)

lemma render_shows:
  assumes ok: "drawable wd (unat (scr_rows s)) (unat (scr_cols s)) (composite wd rd s)" "widths_ok wd"
    and s: "screen_valid s" "0 < scr_rows s" "0 < scr_cols s"
    and T: "tm_cols T = unat (scr_cols s)" "in_step wd rd T"
  shows "let T' = run_ops wd (fst (render wd rd s True)) T in
    grid_shows rd (scr_links s) (composite wd rd s) (unat (scr_rows s)) (unat (scr_cols s)) (tm_grid T')
    \<and> modes_shown (rd_caps rd) (scr_modes s) (tm_mode T') \<and> cursor_shown (shown_cursor rd s) T'
    \<and> tm_bells T' = tm_bells T + (if should_ring (fitted rd s) s then 1 else 0)
    \<and> tm_title T' = (if write_title (swapped_out (fitted rd s) s) s
          (rd_painted (swapped_out (fitted rd s) s) = None) = [] then tm_title T else scr_title s)
    \<and> in_step wd (snd (render wd rd s True)) T'"
proof -
  define U where "U = (if pass_ops wd rd s \<noteq> [] then T\<lparr>tm_mode := (tm_mode T)(2026 := True)\<rparr> else T)"
  define V where "V = run_ops wd (pass_ops wd rd s) U"
  define T' where "T' = run_ops wd (fst (render wd rd s True)) T"
  have T': "T' = (if pass_ops wd rd s \<noteq> [] then V\<lparr>tm_mode := (tm_mode V)(2026 := False)\<rparr> else V)"
    unfolding T'_def V_def U_def render_ops by simp
  have links: "no_zero_link (scr_links s)"
    using s(1) by (simp add: screen_valid_def no_zero_link_valid)
  have "unat (scr_rows s) * unat (scr_cols s) \<noteq> 0"
    using s(2,3) by (simp add: word_less_nat_alt)
  then have "unat (cur_row (scr_cursor s)) < unat (scr_rows s)" "unat (cur_col (scr_cursor s)) < unat (scr_cols s)"
    using s(1) by (simp_all add: screen_valid_def cursor_on_screen_def word_less_nat_alt)
  then have cur: "unat (cur_row (scr_cursor s)) + 1 < 65536" "unat (cur_col (scr_cursor s)) + 1 < 65536"
    using unat_lt_16 [of "scr_rows s"] unat_lt_16 [of "scr_cols s"] by linarith+
  have U: "tm_cols U = unat (scr_cols s)" "in_step wd rd U" "tm_bells U = tm_bells T" "tm_title U = tm_title T"
    using T in_step_sync [of wd rd T True] by (auto simp: U_def)
  note V = pass_ops_shows [OF ok links cur U(1,2), folded V_def, unfolded Let_def U(3,4)]
  have shown: "grid_shows rd (scr_links s) (composite wd rd s) (unat (scr_rows s)) (unat (scr_cols s)) (tm_grid T')"
    "\<forall>r < unat (scr_rows s). halves_ok wd (tm_grid T' r)" "tm_pen T' = SGR_RESET" "tm_link T' = None"
    "modes_shown (rd_caps rd) (scr_modes s) (tm_mode T')" "cursor_shown (shown_cursor rd s) T'"
    using V by (simp_all add: T' modes_shown_def cursor_shown_def)
  let ?rd' = "snd (render wd rd s True)"
  have rd': "rd_size ?rd' = \<lparr>ts_cols = scr_cols s, ts_rows = scr_rows s\<rparr>" "rd_caps ?rd' = rd_caps rd"
    "rd_hyperlinks ?rd' = rd_hyperlinks rd"
    "rd_painted ?rd' = Some \<lparr>pt_cells = composite wd rd s, pt_cursor = shown_cursor rd s,
        pt_modes = scr_modes s, pt_title = scr_title s, pt_bell = scr_bell s, pt_links = scr_links s\<rparr>"
    unfolding render_renderer by (simp_all add: fitted_facts)
  have "in_step wd ?rd' T'"
    using shown ok(1) look_cong(3) [OF rd'(2,3)]
    by (simp add: in_step_def term_shows_def rd' Let_def drawable_def)
  moreover have "tm_bells T' = tm_bells V" "tm_title T' = tm_title V"
    by (simp_all add: T')
  ultimately show ?thesis
    using shown V by (simp add: T'_def [symmetric] Let_def)
qed

section \<open>An overlay leaves a drawable screen\<close>

definition one_or_two :: "(ustr \<Rightarrow> nat) \<Rightarrow> cell \<Rightarrow> bool" where
  "one_or_two wd c \<longleftrightarrow>
    attrs_contains (c_attrs c) WIDE_CONT \<or> c_text c = [] \<or> wd (c_text c) = 1 \<or> wd (c_text c) = 2"

definition overlay_ok :: "(ustr \<Rightarrow> nat) \<Rightarrow> overlay \<Rightarrow> bool" where
  "overlay_ok wd ov \<longleftrightarrow>
    length (ov_cells ov) = unat (ov_rows ov) * unat (ov_cols ov) \<and> list_all (one_or_two wd) (ov_cells ov)"

lemma cell_at_ok_one_or_two: "cell_at_ok wd row c \<Longrightarrow> one_or_two wd (row ! c)"
  by (auto simp: cell_at_ok_def one_or_two_def split: if_splits)

lemma one_or_two_blanked [simp]: "widths_ok wd \<Longrightarrow> one_or_two wd (blanked c)"
  and blanked_plain [simp]: "\<not> attrs_contains (c_attrs (blanked c)) WIDE_CONT" "c_text (blanked c) = [32]"
  by (simp_all add: one_or_two_def blanked_def widths_ok_def)

lemma repair_at_facts [simp]:
  "length (repair_at wd cols base c cells) = length cells"
  by (simp add: repair_at_def Let_def)

lemma repair_at_prefix:
  assumes ok: "widths_ok wd" and fit: "\<forall>x\<in>set row. one_or_two wd x" and m: "m < length row"
    and pre: "\<forall>x < m. cell_at_ok wd row x"
  defines "row' \<equiv> repair_at wd (length row) 0 m row"
  shows "\<forall>x < Suc m. cell_at_ok wd row' x" and "\<forall>x\<in>set row'. one_or_two wd x"
proof -
  let ?cont = "\<lambda>x. attrs_contains (c_attrs (row ! x)) WIDE_CONT"
  define broken where "broken = (if ?cont m then m = 0 \<or> \<not> is_wide_lead wd (row ! (m - 1))
      else is_wide_lead wd (row ! m) \<and> (m + 1 \<ge> length row \<or> \<not> ?cont (m + 1)))"
  have row': "row' = (if broken then row[m := blanked (row ! m)] else row)"
    by (simp add: row'_def repair_at_def Let_def broken_def)
  show "\<forall>x\<in>set row'. one_or_two wd x"
    using fit ok set_update_subset_insert [of row m "blanked (row ! m)"] by (auto simp: row')
  have keep: "cell_at_ok wd row' x" if "x < m" for x
  proof -
    have okx: "cell_at_ok wd row x" using pre that by blast
    then have "\<not> (x + 1 = m \<and> is_wide_lead wd (row ! x))" if broken
      using that \<open>x < m\<close> m by (auto simp: broken_def cell_at_ok_def is_wide_lead_def split: if_splits)
    with okx that m show ?thesis
      by (cases "x + 1 = m") (auto simp: row' cell_at_ok_def is_wide_lead_def nth_list_update split: if_splits)
  qed
  have "cell_at_ok wd row' m"
  proof (cases broken)
    case True
    with ok m show ?thesis by (simp add: row' cell_at_ok_def widths_ok_def)
  next
    case False
    have "one_or_two wd (row ! m)" using fit m by simp
    with False m show ?thesis
      by (auto simp: row' broken_def cell_at_ok_def is_wide_lead_def one_or_two_def split: if_splits)
  qed
  with keep show "\<forall>x < Suc m. cell_at_ok wd row' x" by (auto simp: less_Suc_eq)
qed

lemma repair_row_drawable:
  assumes ok: "widths_ok wd" and fit: "\<forall>x\<in>set row. one_or_two wd x"
  shows "row_drawable wd (fold (repair_at wd (length row) 0) [0..<length row] row)"
proof -
  have "length (fold (repair_at wd (length row) 0) [0..<m] row) = length row
      \<and> (\<forall>x < m. cell_at_ok wd (fold (repair_at wd (length row) 0) [0..<m] row) x)
      \<and> (\<forall>x\<in>set (fold (repair_at wd (length row) 0) [0..<m] row). one_or_two wd x)"
    if "m \<le> length row" for m
    using that
  proof (induction m)
    case (Suc m)
    then show ?case
      using repair_at_prefix [OF ok, of "fold (repair_at wd (length row) 0) [0..<m] row" m] by simp
  qed (use fit in simp)
  then show ?thesis by (simp add: row_drawable_def list_all_iff)
qed

text \<open>A repair of one row of the buffer is the repair of that row, and touches no other.\<close>

lemma row_index:
  assumes "c < cols" "c' < (cols :: nat)"
  shows "r * cols + c = r' * cols + c' \<longleftrightarrow> r = r' \<and> c = c'"
  using assms by (metis add.commute div_mult_self3 less_nat_zero_code mod_less mod_mult_self3 div_less add_0)

lemma row_of_update:
  assumes "length cells = rows * cols" "r < rows" "r' < rows" "c < cols"
  shows "row_of (cells[r * cols + c := v]) cols r' =
    (if r' = r then (row_of cells cols r)[c := v] else row_of cells cols r')"
proof (rule nth_equalityI)
  show "length (row_of (cells[r * cols + c := v]) cols r') =
      length (if r' = r then (row_of cells cols r)[c := v] else row_of cells cols r')"
    using assms row_of_facts(1) by simp
  fix x assume "x < length (row_of (cells[r * cols + c := v]) cols r')"
  then have x: "x < cols" using assms row_of_facts(1) by simp
  have "r' * cols + x < length cells"
    using row_in_range [OF assms(3), of cols] x assms(1) by simp
  then show "row_of (cells[r * cols + c := v]) cols r' ! x =
      (if r' = r then (row_of cells cols r)[c := v] else row_of cells cols r') ! x"
    using assms x row_index [of c cols x r r']
    by (auto simp: row_of_facts nth_list_update)
qed

lemma row_of_repair_at:
  assumes "length cells = rows * cols" "r < rows" "r' < rows" "c < cols"
  shows "row_of (repair_at wd cols (r * cols) c cells) cols r' =
    (if r' = r then repair_at wd cols 0 c (row_of cells cols r) else row_of cells cols r')"
proof -
  note at = row_of_facts(2) [OF assms(1,2)]
  have "row_of cells cols r ! (c - 1) = cells ! (r * cols + c - 1)" if "c \<noteq> 0"
    using at [of "c - 1"] assms(4) that by simp
  moreover have "row_of cells cols r ! (c + 1) = cells ! (r * cols + c + 1)" if "c + 1 < cols"
    using at [OF that] by simp
  moreover define broken where "broken = (\<lambda>(cs :: cell list) base.
      if attrs_contains (c_attrs (cs ! (base + c))) WIDE_CONT
      then c = 0 \<or> \<not> is_wide_lead wd (cs ! (base + c - 1))
      else if is_wide_lead wd (cs ! (base + c))
      then c + 1 \<ge> cols \<or> \<not> attrs_contains (c_attrs (cs ! (base + c + 1))) WIDE_CONT
      else False)"
  ultimately have "broken cells (r * cols) = broken (row_of cells cols r) 0"
    using at [OF assms(4)] by (cases "c = 0"; cases "c + 1 < cols") simp_all
  then show ?thesis
    unfolding repair_at_def Let_def broken_def [THEN fun_cong, THEN fun_cong, symmetric]
    using at [OF assms(4)] row_of_update [OF assms] by (cases "r' = r") simp_all
qed

lemma row_of_repair:
  assumes "length cells = rows * cols" "r < rows" "r' < rows"
  shows "row_of (repair_wide_pairs wd cols r cells) cols r' =
    (if r' = r then fold (repair_at wd cols 0) [0..<cols] (row_of cells cols r) else row_of cells cols r')"
    and "length (repair_wide_pairs wd cols r cells) = length cells"
proof -
  have "row_of (fold (repair_at wd cols (r * cols)) [0..<m] cells) cols r' =
      (if r' = r then fold (repair_at wd cols 0) [0..<m] (row_of cells cols r) else row_of cells cols r')
    \<and> length (fold (repair_at wd cols (r * cols)) [0..<m] cells) = length cells" if "m \<le> cols" for m
    using that
  proof (induction m)
    case (Suc m)
    then show ?case
      using assms row_of_repair_at [of "fold (repair_at wd cols (r * cols)) [0..<m] cells" rows cols r r' m wd]
      by (cases "r' = r") simp_all
  qed simp
  from this [of cols] show "row_of (repair_wide_pairs wd cols r cells) cols r' =
      (if r' = r then fold (repair_at wd cols 0) [0..<cols] (row_of cells cols r) else row_of cells cols r')"
    "length (repair_wide_pairs wd cols r cells) = length cells"
    by (simp_all add: repair_wide_pairs_def)
qed

lemma stamp_cols_facts:
  assumes "length cells = unat rows * unat cols" "srow < rows" "r' < unat rows"
    and "\<forall>c\<in>set cs. one_or_two wd (ov_cells ov ! (r * unat (ov_cols ov) + c))"
    and "\<forall>x\<in>set (row_of cells (unat cols) r'). one_or_two wd x"
  shows "length (stamp_cols ov cols r srow cs cells) = length cells
    \<and> (\<forall>x\<in>set (row_of (stamp_cols ov cols r srow cs cells) (unat cols) r'). one_or_two wd x)
    \<and> (r' \<noteq> unat srow \<longrightarrow> row_of (stamp_cols ov cols r srow cs cells) (unat cols) r' = row_of cells (unat cols) r')"
  using assms
proof (induction cs arbitrary: cells)
  case (Cons c cs)
  define scol where "scol = sat_add (ov_col ov) (of_nat c)"
  define v where "v = (ov_cells ov ! (r * unat (ov_cols ov) + c))\<lparr>c_link := 0\<rparr>"
  have v: "one_or_two wd v"
    using Cons.prems(4) by (simp add: v_def one_or_two_def)
  have srow: "unat srow < unat rows" using Cons.prems(2) by (simp add: word_less_nat_alt)
  let ?cells = "cells[unat srow * unat cols + unat scol := v]"
  have step: "stamp_cols ov cols r srow (c # cs) cells =
      (if scol \<ge> cols then cells else stamp_cols ov cols r srow cs ?cells)"
    by (simp add: scol_def v_def Let_def)
  have upd: "row_of ?cells (unat cols) r' = (if r' = unat srow then (row_of cells (unat cols) r')[unat scol := v]
      else row_of cells (unat cols) r')" if "\<not> scol \<ge> cols"
    using that row_of_update [OF Cons.prems(1) srow Cons.prems(3)] by (simp add: word_less_nat_alt not_le)
  have fit: "\<forall>x\<in>set (row_of ?cells (unat cols) r'). one_or_two wd x" if "\<not> scol \<ge> cols"
    using Cons.prems(5) v set_update_subset_insert [of "row_of cells (unat cols) r'" "unat scol" v]
    by (auto simp: upd [OF that])
  show ?case
  proof (cases "scol \<ge> cols")
    case False
    have "length ?cells = unat rows * unat cols"
      "\<forall>c\<in>set cs. one_or_two wd (ov_cells ov ! (r * unat (ov_cols ov) + c))"
      using Cons.prems(1,4) by simp_all
    note IH = Cons.IH [OF this(1) Cons.prems(2,3) this(2) fit [OF False]]
    from upd [OF False] have "r' \<noteq> unat srow \<longrightarrow> row_of ?cells (unat cols) r' = row_of cells (unat cols) r'"
      by simp
    with IH show ?thesis unfolding step if_not_P [OF False] by simp
  qed (use step Cons.prems(5) in simp)
qed simp

lemma drawable_row_fit:
  "row_drawable wd row \<Longrightarrow> x \<in> set row \<Longrightarrow> one_or_two wd x"
  by (auto simp: row_drawable_def list_all_iff in_set_conv_nth intro: cell_at_ok_one_or_two)

lemma stamp_rows_drawable:
  assumes ok: "widths_ok wd" "overlay_ok wd ov" and "\<forall>r\<in>set rs. r < unat (ov_rows ov)"
    and "drawable wd (unat rows) (unat cols) cells"
  shows "drawable wd (unat rows) (unat cols) (stamp_rows wd ov rows cols rs cells)"
  using assms(3-)
proof (induction rs arbitrary: cells)
  case (Cons r rs)
  define srow where "srow = sat_add (ov_row ov) (of_nat r)"
  define stamped where "stamped = stamp_cols ov cols r srow [0..<unat (ov_cols ov)] cells"
  define fixed where "fixed = repair_wide_pairs wd (unat cols) (unat srow) stamped"
  have step: "stamp_rows wd ov rows cols (r # rs) cells =
      (if srow \<ge> rows then cells else stamp_rows wd ov rows cols rs fixed)"
    by (simp add: srow_def stamped_def fixed_def Let_def)
  have "drawable wd (unat rows) (unat cols) fixed" if "\<not> srow \<ge> rows"
  proof -
    from that have srow: "srow < rows" "unat srow < unat rows" by (simp_all add: not_le word_less_nat_alt)
    have len: "length cells = unat rows * unat cols"
      using Cons.prems(2) by (simp add: drawable_def)
    have "\<forall>c\<in>set [0..<unat (ov_cols ov)]. one_or_two wd (ov_cells ov ! (r * unat (ov_cols ov) + c))"
    proof
      fix c assume "c \<in> set [0..<unat (ov_cols ov)]"
      then have "r * unat (ov_cols ov) + c < length (ov_cells ov)"
        using ok(2) Cons.prems(1) row_in_range [of r "unat (ov_rows ov)" "unat (ov_cols ov)"]
        by (simp add: overlay_ok_def)
      then show "one_or_two wd (ov_cells ov ! (r * unat (ov_cols ov) + c))"
        using ok(2) by (simp add: overlay_ok_def list_all_iff)
    qed
    note stamp = stamp_cols_facts [OF len srow(1) _ this, folded stamped_def]
    have rows: "row_drawable wd (row_of cells (unat cols) r')" if "r' < unat rows" for r'
      using Cons.prems(2) that by (simp add: drawable_def list_all_iff)
    have stamped: "length stamped = unat rows * unat cols"
      "\<And>r' x. r' < unat rows \<Longrightarrow> x \<in> set (row_of stamped (unat cols) r') \<Longrightarrow> one_or_two wd x"
      "\<And>r'. r' < unat rows \<Longrightarrow> r' \<noteq> unat srow \<Longrightarrow> row_of stamped (unat cols) r' = row_of cells (unat cols) r'"
    proof -
      have fit: "length stamped = length cells \<and> (\<forall>x\<in>set (row_of stamped (unat cols) r'). one_or_two wd x)
          \<and> (r' \<noteq> unat srow \<longrightarrow> row_of stamped (unat cols) r' = row_of cells (unat cols) r')" if "r' < unat rows" for r'
        using stamp [OF that] drawable_row_fit [OF rows [OF that]] by blast
      show "length stamped = unat rows * unat cols" using fit [OF srow(2)] len by simp
      show "one_or_two wd x" if "r' < unat rows" "x \<in> set (row_of stamped (unat cols) r')" for r' x
        using fit [OF that(1)] that(2) by blast
      show "row_of stamped (unat cols) r' = row_of cells (unat cols) r'" if "r' < unat rows" "r' \<noteq> unat srow" for r'
        using fit [OF that(1)] that(2) by blast
    qed
    have "row_drawable wd (row_of fixed (unat cols) r')" if "r' < unat rows" for r'
    proof (cases "r' = unat srow")
      case True
      with repair_row_drawable [OF ok(1), of "row_of stamped (unat cols) r'"] show ?thesis
        using stamped(2) that row_of_repair(1) [OF stamped(1) srow(2) that, of wd]
          row_of_facts(1) [OF stamped(1) that]
        by (simp add: fixed_def)
    next
      case False
      then show ?thesis
        using row_of_repair(1) [OF stamped(1) srow(2) that, of wd] stamped(3) [OF that] rows [OF that]
        by (simp add: fixed_def)
    qed
    then show ?thesis
      using row_of_repair(2) [OF stamped(1) srow(2,2)] stamped(1)
      by (simp add: drawable_def list_all_iff fixed_def)
  qed
  with Cons show ?case unfolding step by simp
qed simp

lemma composite_drawable:
  assumes "widths_ok wd" and "drawable wd (unat (scr_rows s)) (unat (scr_cols s)) (scr_cells s)"
    and "\<And>ov. rd_overlay rd = Some ov \<Longrightarrow> overlay_ok wd ov"
  shows "drawable wd (unat (scr_rows s)) (unat (scr_cols s)) (composite wd rd s)"
proof (cases "rd_overlay rd")
  case (Some ov)
  with stamp_rows_drawable [OF assms(1) assms(3) [OF Some] _ assms(2)] show ?thesis
    by (simp add: composite_def)
qed (use assms(2) in \<open>simp add: composite_def\<close>)

section \<open>Properties\<close>

text \<open>The title alone can be left behind: a full repaint states a title only when there is one. A remote
  application that drops its title and leaves the alternate screen in the same state leaves its title
  on the user's terminal.\<close>

lemma swapped_buffer_keeps_the_title:
  assumes "rd_painted rd = Some p" "alt_screen (pt_modes p) \<noteq> alt_screen (scr_modes s)" "scr_title s = []"
    and "scr_rows s = ts_rows (rd_size rd)" "scr_cols s = ts_cols (rd_size rd)"
    and "drawable wd (unat (scr_rows s)) (unat (scr_cols s)) (composite wd rd s)" "widths_ok wd"
    and "screen_valid s" "0 < scr_rows s" "0 < scr_cols s"
    and "tm_cols T = unat (scr_cols s)" "in_step wd rd T"
  shows "tm_title (run_ops wd (fst (render wd rd s True)) T) = tm_title T"
proof -
  have "write_title (swapped_out (fitted rd s) s) s (rd_painted (swapped_out (fitted rd s) s) = None) = []"
    using assms(1-5) by (simp add: fitted_def swapped_out_def write_title_def)
  with render_shows [OF assms(6-12)] show ?thesis by (simp add: Let_def)
qed

text \<open>A full repaint clears the screen under whatever pen the terminal has; only a completed pass is known
  to have left it at the default.\<close>

lemma repaint_clears_with_the_pen:
  "run_ops wd (write_cells rd (replicate (unat rows * unat cols) cell_blank) links rows cols True) T =
    (let U = run_ops wd (if caps_osc8 (rd_caps rd) \<and> (links_on rd \<or> rd_link_may_be_open rd) then [CloseLink] else []) T
     in U\<lparr>tm_row := 0, tm_col := 0, tm_grid := (\<lambda>_ _. Glyph [32] (tm_pen T) None)\<rparr>)"
proof -
  let ?cells = "replicate (unat rows * unat cols) cell_blank"
  have "changed_runs (row_of ?cells (unat cols) r) prev True rl = []" if "r < unat rows" for r prev rl
  proof -
    have row: "row_of ?cells (unat cols) r = replicate (unat cols) cell_blank"
      using row_of_facts [of ?cells "unat rows" "unat cols" r] that row_in_range [OF that, of "unat cols"]
      by (intro nth_equalityI) simp_all
    have "fold (runs_step row (is_dirty row prev True rl)) [0..<m] ([], None) = ([], None)"
      if "\<And>x. x < m \<Longrightarrow> row ! x = cell_blank" for m and row :: "cell list"
      using that by (induction m) (simp_all add: runs_step_def is_dirty_def split: option.split)
    then show ?thesis by (simp add: row changed_runs_def)
  qed
  then have rows: "fold (paint_row rd ?cells links (unat cols) True) [0..<m] acc = acc" if "m \<le> unat rows" for m acc
    using that by (induction m) (simp_all add: paint_row_def Let_def row_of_def)
  show ?thesis
    by (simp add: write_cells_def rows Let_def)
qed

definition sample_caps :: terminal_caps where
  "sample_caps = \<lparr>caps_truecolor = True, caps_colors = 16777216, caps_bracketed_paste = True,
     caps_mouse_sgr = True, caps_osc52 = False, caps_osc8 = True, caps_term_name = []\<rparr>"

definition one_letter :: screen_state where
  "one_letter = (blank_state 1 2)\<lparr>scr_cells := [cell_blank\<lparr>c_text := [97]\<rparr>, cell_blank]\<rparr>"

definition fresh_terminal :: terminal where
  "fresh_terminal = \<lparr>tm_cols = 2, tm_grid = (\<lambda>_ _. Glyph [120] SGR_RESET None), tm_row = 0, tm_col = 0,
     tm_pen = SGR_RESET, tm_link = None, tm_title = [], tm_style = 2, tm_mode = (\<lambda>_. False), tm_bells = 0\<rparr>"

lemma one_letter_ok: "screen_valid one_letter" "drawable length 1 2 (scr_cells one_letter)"
  subgoal
    by (simp add: one_letter_def blank_state_def screen_valid_def cell_ok_def check_cell_text_ok_iff
        check_title_ok_iff check_bounds_ok_iff limit_defs check_clipboard_def clipboard_default_def
        check_links_ok_iff cursor_on_screen_def cell_blank_def is_control_scalar_def str_len_def len_utf8_def)
  subgoal
    by (simp add: one_letter_def cell_blank_def drawable_def row_drawable_def row_of_def slice_def
        cell_at_ok_def upt_rec)
  done

lemma changed_runs_same:
  assumes "\<And>x. \<not> rl x"
  shows "changed_runs row (Some row) False rl = []"
proof -
  have "fold (runs_step row (is_dirty row (Some row) False rl)) [0..<m] ([], None) = ([], None)" for m
    by (induction m) (simp_all add: runs_step_def is_dirty_def assms)
  then show ?thesis by (simp add: changed_runs_def)
qed

lemma write_cells_same:
  assumes "rd_painted rd = Some p" "pt_cells p = cells" "pt_links p = links"
  shows "write_cells rd cells links rows cols False = []"
proof -
  have "paint_row rd cells links n False r acc = acc" for n r acc
    unfolding paint_row_def Let_def using assms
    by (simp add: changed_runs_same relinked_at_def)
  then have "fold (paint_row rd cells links n False) rs acc = acc" for n rs acc
    by (induction rs arbitrary: acc) simp_all
  then show ?thesis by (simp add: write_cells_def Let_def)
qed

text \<open>A render that changes nothing writes nothing. Once a screen has been painted, rendering it again
  with the same overlay writes not one byte, so a quiet session costs the terminal nothing.\<close>

theorem quiet_render_writes_nothing:
  "rendered_bytes (fst (render wd (snd (render wd rd s True)) s written)) = []"
proof -
  let ?rd' = "snd (render wd rd s True)"
  let ?p = "\<lparr>pt_cells = composite wd rd s, pt_cursor = shown_cursor rd s, pt_modes = scr_modes s,
      pt_title = scr_title s, pt_bell = scr_bell s, pt_links = scr_links s\<rparr>"
  have p: "rd_painted ?rd' = Some ?p" "rd_overlay ?rd' = rd_overlay rd"
    and size: "rd_size ?rd' = \<lparr>ts_cols = scr_cols s, ts_rows = scr_rows s\<rparr>"
    unfolding render_renderer by (simp_all add: fitted_facts)
  have fit: "fitted ?rd' s = ?rd'" "swapped_out ?rd' s = ?rd'"
    by (simp_all add: fitted_def swapped_out_def size p)
  have same: "composite wd ?rd' = composite wd rd" "shown_cursor ?rd' = shown_cursor rd"
    using composite_overlay [OF p(2), of wd] by simp_all
  have "pass_cells wd ?rd' s = []"
    using write_cells_same [OF p(1)]
    by (simp add: pass_cells_def fit p(1) Let_def same write_modes_def write_title_def)
  then have "pass_ops wd ?rd' s = []"
    by (simp add: pass_ops_def fit p(1) same write_cursor_def should_ring_def)
  then show ?thesis by (simp add: render_ops rendered_bytes_def)
qed

text \<open>Which operations carry text, and what of it could be mistaken for a command.\<close>

fun op_safe :: "term_op \<Rightarrow> bool" where
  "op_safe (PutText t) = list_all (\<lambda>c. 32 \<le> c \<and> (c < 127 \<or> 160 \<le> c)) t"
| "op_safe (SetTitle t) = list_all (\<lambda>c. 32 \<le> c \<and> (c < 127 \<or> 160 \<le> c)) t"
| "op_safe (OpenLink _ uri) = list_all (\<lambda>b. 32 \<le> b \<and> b < 127) (utf8 uri)"
| "op_safe _ = True"

definition clean_text :: "cell \<Rightarrow> bool" where
  "clean_text c \<longleftrightarrow> list_all (\<lambda>x. \<not> is_control_scalar x) (c_text c)"

definition all_clean :: "cell list \<Rightarrow> bool" where
  "all_clean cells \<longleftrightarrow> list_all clean_text cells"

lemma all_clean_update: "all_clean cells \<Longrightarrow> clean_text v \<Longrightarrow> all_clean (cells[i := v])"
  using set_update_subset_insert [of cells i v] by (auto simp: all_clean_def list_all_iff)

lemma all_clean_nth: "all_clean cells \<Longrightarrow> i < length cells \<Longrightarrow> clean_text (cells ! i)"
  by (simp add: all_clean_def list_all_iff)

lemma repair_clean:
  assumes "all_clean cells"
  shows "all_clean (repair_wide_pairs wd cols r cells)"
proof -
  have "clean_text (blanked c)" for c
    by (simp add: clean_text_def is_control_scalar_def)
  then have "all_clean (repair_at wd cols base x cells)" if "all_clean cells" for base x cells
    using that by (simp add: repair_at_def Let_def all_clean_update)
  then show ?thesis
    unfolding repair_wide_pairs_def using assms
    by (intro fold_invariant [where Q = "\<lambda>_. True" and P = all_clean]) simp_all
qed

lemma stamp_cols_clean:
  assumes "all_clean cells" "all_clean (ov_cells ov)"
    and "\<forall>c\<in>set cs. r * unat (ov_cols ov) + c < length (ov_cells ov)"
  shows "all_clean (stamp_cols ov cols r srow cs cells)"
  using assms
proof (induction cs arbitrary: cells)
  case (Cons c cs)
  have "clean_text ((ov_cells ov ! (r * unat (ov_cols ov) + c))\<lparr>c_link := 0\<rparr>)"
    using all_clean_nth [OF Cons.prems(2)] Cons.prems(3) by (simp add: clean_text_def)
  with Cons show ?case by (simp add: Let_def all_clean_update)
qed simp

lemma stamp_rows_clean:
  assumes "all_clean cells" "all_clean (ov_cells ov)"
    and "length (ov_cells ov) = unat (ov_rows ov) * unat (ov_cols ov)" "\<forall>r\<in>set rs. r < unat (ov_rows ov)"
  shows "all_clean (stamp_rows wd ov rows cols rs cells)"
  using assms
proof (induction rs arbitrary: cells)
  case (Cons r rs)
  have "\<forall>c\<in>set [0..<unat (ov_cols ov)]. r * unat (ov_cols ov) + c < length (ov_cells ov)"
    using Cons.prems(3,4) row_in_range [of r "unat (ov_rows ov)" "unat (ov_cols ov)"] by auto
  note stamp = repair_clean [OF stamp_cols_clean [OF Cons.prems(1,2) this]]
  have "\<forall>r\<in>set rs. r < unat (ov_rows ov)" using Cons.prems(4) by simp
  note IH = Cons.IH [OF stamp Cons.prems(2,3) this]
  show ?case
    unfolding stamp_rows.simps Let_def using IH Cons.prems(1) by (simp split: if_split)
qed simp

lemma composite_clean:
  assumes "all_clean (scr_cells s)"
    and "\<And>ov. rd_overlay rd = Some ov \<Longrightarrow> length (ov_cells ov) = unat (ov_rows ov) * unat (ov_cols ov)
      \<and> all_clean (ov_cells ov)"
  shows "all_clean (composite wd rd s)"
proof (cases "rd_overlay rd")
  case (Some ov)
  have "\<forall>r\<in>set [0..<unat (ov_rows ov)]. r < unat (ov_rows ov)" by simp
  with Some show ?thesis
    using stamp_rows_clean [OF assms(1)] assms(2) [OF Some] by (simp add: composite_def)
qed (use assms(1) in \<open>simp add: composite_def\<close>)

lemma printable_scalar: "\<not> is_control_scalar c \<longleftrightarrow> 32 \<le> c \<and> (c < 127 \<or> 160 \<le> c)"
  by (auto simp: is_control_scalar_def)

lemma printable_byte: "uri_byte_ok b \<longleftrightarrow> 32 \<le> b \<and> b < 127"
  by (simp add: uri_byte_ok_def word_le_nat_alt word_less_nat_alt) linarith

lemma switch_link_safe: "list_all op_safe (fst (switch_link rd links c opn))"
  by (auto simp: switch_link_def Let_def is_ok_def check_link_uri_ok_iff list_all_iff
      simp flip: printable_byte split: option.split sum.splits)

lemma shown_text_clean: "clean_text c \<Longrightarrow> op_safe (PutText (shown_text c))"
  by (auto simp: clean_text_def shown_text_def simp flip: printable_scalar) (simp add: is_control_scalar_def)

lemma paint_cell_safe:
  "list_all op_safe (fst acc) \<Longrightarrow> clean_text c \<Longrightarrow> list_all op_safe (fst (paint_cell rd links c acc))"
  using shown_text_clean [of c] by (simp add: paint_cell_def split_beta Let_def switch_link_safe)

lemma paint_run_safe:
  assumes "list_all op_safe (fst acc)" "all_clean row"
  shows "list_all op_safe (fst (paint_run rd links r row run acc))"
proof -
  have clean: "\<And>c. c \<in> set (slice row (fst run) (snd run)) \<Longrightarrow> clean_text c"
    using assms(2) unfolding slice_def all_clean_def list_all_iff
    by (meson in_set_dropD in_set_takeD)
  have "list_all op_safe (fst (fold (paint_cell rd links) (slice row (fst run) (snd run))
      (fst acc @ [CursorTo (r + 1) (fst run + 1)], 0, snd acc)))"
    by (rule fold_invariant [where Q = clean_text and P = "\<lambda>acc. list_all op_safe (fst acc)"])
      (use clean assms(1) paint_cell_safe in auto)
  then show ?thesis by (simp add: paint_run_def split_beta)
qed

lemma paint_row_safe:
  assumes "list_all op_safe (fst acc)" "all_clean cells"
  shows "list_all op_safe (fst (paint_row rd cells links cols full r acc))"
proof -
  have "all_clean (slice cells (r * cols) (r * cols + cols))"
    using assms(2) unfolding slice_def all_clean_def list_all_iff by (meson in_set_dropD in_set_takeD)
  then show ?thesis
    unfolding paint_row_def Let_def
    by (intro fold_invariant [where Q = "\<lambda>_. True" and P = "\<lambda>acc. list_all op_safe (fst acc)"])
      (simp_all add: assms(1) paint_run_safe)
qed

lemma write_cells_safe:
  assumes "all_clean cells"
  shows "list_all op_safe (write_cells rd cells links rows cols full)"
proof -
  have "list_all op_safe (fst (fold (paint_row rd cells links (unat cols) full) [0..<unat rows] acc))"
    if "list_all op_safe (fst acc)" for acc
    by (rule fold_invariant [where Q = "\<lambda>_. True" and P = "\<lambda>acc. list_all op_safe (fst acc)"])
      (simp_all add: that assms paint_row_safe)
  then show ?thesis
    by (simp add: write_cells_def Let_def split: option.split)
qed

lemma modes_cursor_safe:
  "list_all op_safe (write_modes rd s full)" "list_all op_safe (write_cursor rd cur full out)"
  by (simp_all add: write_modes_def write_mouse_def write_cursor_def Let_def
      split: option.split mouse_mode.split)

text \<open>C31: the host's text stays text. For a screen the client accepts, whatever its cells, title and links
  hold, and with no overlay or one laid out by the popup, the config screen or the selector (any buffer
  of \<open>ratatui\<close> cells, whatever symbols it holds, turned into cells by \<open>overlay_from_buffer\<close>, and any
  other session's screen that passed the same checks stamped into it), every operation of a render that
  carries text carries only printable characters: no cell, title or URI holds a C0 control, DEL or a C1
  control, so none can end the sequence it is written in or begin one of its own on the user's
  terminal. The startup splash, an overlay made elsewhere, is not covered.\<close>

theorem host_text_stays_text:
  assumes "validate s = Inr ()" and "\<And>ov. rd_overlay rd = Some ov \<Longrightarrow> laid_out wd ov"
  shows "list_all op_safe (fst (render wd rd s written))"
proof -
  have clean: "clean_text c" if "check_cell_text (c_text c) = Inr ()" for c
    using that by (simp add: check_cell_text_ok_iff clean_text_def list_all_iff)
  have s: "screen_valid s" using assms(1) by (simp add: validate_ok_iff)
  then have "all_clean (scr_cells s)"
    by (auto simp: screen_valid_def cell_ok_def all_clean_def list_all_iff intro: clean)
  then have "all_clean (composite wd rd s)"
    using laid_out_clean [OF assms(2)] clean
    by (intro composite_clean) (auto simp: overlay_clean_def all_clean_def list_all_iff)
  moreover have "list_all op_safe (write_title r s full)" for r full
    using s by (auto simp: write_title_def Let_def screen_valid_def check_title_ok_iff list_all_iff
        simp flip: printable_scalar split: option.split)
  ultimately show ?thesis
    by (simp add: render_ops pass_ops_def pass_cells_def Let_def modes_cursor_safe write_cells_safe)
qed

text \<open>A buffer with an escape sequence for a symbol.\<close>

definition hostile_buffer :: buffer where
  "hostile_buffer = \<lparr>bf_area = \<lparr>rc_x = 0, rc_y = 0, rc_width = 2, rc_height = 1\<rparr>,
     bf_at = (\<lambda>x y. \<lparr>bc_symbol = [27, 91, 72], bc_fg = Reset, bc_bg = Reset, bc_modifier = {}\<rparr>)\<rparr>"

theorem host_text_stays_text_witness:
  "list_all op_safe (fst (render length (set_overlay (Some (overlay_from_buffer length hostile_buffer 0 0))
      (renderer_new \<lparr>ts_cols = 2, ts_rows = 1\<rparr> sample_caps)) one_letter True))"
proof (rule host_text_stays_text)
  show "validate one_letter = Inr ()" using one_letter_ok(1) by (simp add: validate_ok_iff)
  fix ov
  assume "rd_overlay (set_overlay (Some (overlay_from_buffer length hostile_buffer 0 0))
      (renderer_new \<lparr>ts_cols = 2, ts_rows = 1\<rparr> sample_caps)) = Some ov"
  then have "ov = overlay_from_buffer length hostile_buffer 0 0" by (simp add: set_overlay_def)
  moreover have "area_fits (bf_area hostile_buffer)" by (simp add: area_fits_def hostile_buffer_def)
  ultimately show "laid_out length ov" by (auto intro: laid_out_buffer)
qed

text \<open>A continuation without a lead is not drawable, and for a reason: the host marks the column a wide
  glyph did not fit into, at the end of a line, as a continuation, and the renderer paints nothing
  there. Whatever the column showed before stays on the terminal.\<close>

lemma leading_spacer_is_never_painted:
  assumes "rd_painted rd = Some p" "pt_cells p = [a, x]" "tm_cols T = 2" "wd (shown_text a) = 1"
    and "\<not> attrs_contains (c_attrs a) WIDE_CONT" "attrs_contains (c_attrs c) WIDE_CONT" "c \<noteq> x"
    and "c_link a = 0" "c_link c = 0" "tm_grid T 0 1 = Glyph t q l"
  shows "tm_grid (run_ops wd (write_cells rd [a, c] links 1 2 False) T) 0 1 = Glyph t q l"
proof -
  have runs: "changed_runs [a, c] (Some [a, x]) False (relinked_at rd links [a, c]) = [(0, 2)]"
    using assms by (simp add: changed_runs_def runs_step_def is_dirty_def relinked_at_def run_start_def upt_rec)
  have "fold (paint_row rd [a, c] links 2 False) [0..<1] ([], None) =
      ([CursorTo 1 1, Sgr (sgr_for rd a), PutText (shown_text a)], Some (sgr_for rd a))"
    using assms runs
    by (simp add: paint_row_def Let_def slice_def paint_run_def paint_cell_def switch_link_def upt_rec)
  then have "write_cells rd [a, c] links 1 2 False =
      [CursorTo 1 1, Sgr (sgr_for rd a), PutText (shown_text a)]
      @ (if sgr_for rd a \<noteq> SGR_RESET then [Sgr SGR_RESET] else [])"
    by (simp add: write_cells_def Let_def)
  then show ?thesis
    using assms by (simp add: Let_def put_row_def)
qed

end
