(* ===== verification/Client_Shown.thy ===== *)
theory Client_Shown
  imports Client_Paint
begin

text \<open>
  What the user should see, said without the renderer: which cell of which layer is in front at every
  position, which half of a cut wide glyph is blanked, which colours and attributes a sequence of SGR
  parameters selects on a terminal, and when the bell rings. The property at the end is that a
  completed pass of the renderer puts exactly that on the terminal of \<open>Client_Paint\<close>.
\<close>

section \<open>The layers\<close>

definition covers :: "overlay \<Rightarrow> nat \<Rightarrow> nat \<Rightarrow> bool" where
  "covers ov r x \<longleftrightarrow>
    unat (ov_row ov) \<le> r \<and> r < unat (ov_row ov) + unat (ov_rows ov)
    \<and> unat (ov_col ov) \<le> x \<and> x < unat (ov_col ov) + unat (ov_cols ov)"

text \<open>The cell in front: the overlay's where it covers, never with a link, the screen's elsewhere.\<close>

definition front_cell :: "overlay option \<Rightarrow> screen_state \<Rightarrow> nat \<Rightarrow> nat \<Rightarrow> cell" where
  "front_cell layer s r x =
    (case layer of
       Some ov \<Rightarrow>
         if covers ov r x
         then (ov_cells ov ! ((r - unat (ov_row ov)) * unat (ov_cols ov) + (x - unat (ov_col ov))))\<lparr>c_link := 0\<rparr>
         else scr_cells s ! (r * unat (scr_cols s) + x)
     | None \<Rightarrow> scr_cells s ! (r * unat (scr_cols s) + x))"

text \<open>Half of a wide glyph whose other half is not there, in a row \<open>L\<close> of \<open>n\<close> columns.\<close>

definition half_alone :: "(ustr \<Rightarrow> nat) \<Rightarrow> (nat \<Rightarrow> cell) \<Rightarrow> nat \<Rightarrow> nat \<Rightarrow> bool" where
  "half_alone wd L n x \<longleftrightarrow>
    (if attrs_contains (c_attrs (L x)) WIDE_CONT
     then x = 0 \<or> attrs_contains (c_attrs (L (x - 1))) WIDE_CONT \<or> wd (c_text (L (x - 1))) \<noteq> 2
     else wd (c_text (L x)) = 2 \<and> (n \<le> x + 1 \<or> \<not> attrs_contains (c_attrs (L (x + 1))) WIDE_CONT))"

definition mended :: "(ustr \<Rightarrow> nat) \<Rightarrow> (nat \<Rightarrow> cell) \<Rightarrow> nat \<Rightarrow> nat \<Rightarrow> cell" where
  "mended wd L n x = (if half_alone wd L n x then (L x)\<lparr>c_text := [32], c_attrs := 0\<rparr> else L x)"

definition desired_cell :: "(ustr \<Rightarrow> nat) \<Rightarrow> overlay option \<Rightarrow> screen_state \<Rightarrow> nat \<Rightarrow> nat \<Rightarrow> cell" where
  "desired_cell wd layer s r x = mended wd (front_cell layer s r) (unat (scr_cols s)) x"

section \<open>The composition puts that cell there\<close>

lemma half_alone_lead:
  "\<not> attrs_contains (c_attrs (L x)) WIDE_CONT \<Longrightarrow>
   half_alone wd L n x \<longleftrightarrow> is_wide_lead wd (L x) \<and> (n \<le> x + 1 \<or> \<not> attrs_contains (c_attrs (L (x + 1))) WIDE_CONT)"
  by (simp add: half_alone_def is_wide_lead_def)

lemma half_alone_cont:
  "attrs_contains (c_attrs (L x)) WIDE_CONT \<Longrightarrow> half_alone wd L n x \<longleftrightarrow> x = 0 \<or> \<not> is_wide_lead wd (L (x - 1))"
  by (auto simp: half_alone_def is_wide_lead_def)

lemma half_alone_cong:
  "(\<And>y. y \<le> x + 1 \<Longrightarrow> y < n \<Longrightarrow> L y = L' y) \<Longrightarrow> x < n \<Longrightarrow> half_alone wd L n x = half_alone wd L' n x"
  by (cases "x + 1 < n") (simp_all add: half_alone_def)

lemma mended_cong:
  "(\<And>y. y < n \<Longrightarrow> L y = L' y) \<Longrightarrow> x < n \<Longrightarrow> mended wd L n x = mended wd L' n x"
  using half_alone_cong [of x n L L' wd] by (simp add: mended_def)

text \<open>The repair goes from left to right over cells it has changed itself, and yet mends each cell by
  what stood there before.\<close>

lemma repair_step:
  assumes "widths_ok wd" and m: "m < length row"
    and len: "length cur = length row"
    and seen: "\<And>x. x < length row \<Longrightarrow> cur ! x = (if x < m then mended wd ((!) row) (length row) x else row ! x)"
    and x: "x < length row"
  shows "repair_at wd (length row) 0 m cur ! x
    = (if x < Suc m then mended wd ((!) row) (length row) x else row ! x)"
proof -
  have here: "cur ! m = row ! m" "m + 1 < length row \<Longrightarrow> cur ! (m + 1) = row ! (m + 1)"
    using seen m by simp_all
  have broken: "(if attrs_contains (c_attrs (cur ! m)) WIDE_CONT then m = 0 \<or> \<not> is_wide_lead wd (cur ! (m - 1))
      else if is_wide_lead wd (cur ! m)
      then m + 1 \<ge> length row \<or> \<not> attrs_contains (c_attrs (cur ! (m + 1))) WIDE_CONT else False)
    = half_alone wd ((!) row) (length row) m"
  proof (cases "attrs_contains (c_attrs (row ! m)) WIDE_CONT")
    case True
    have "is_wide_lead wd (cur ! (m - 1)) = is_wide_lead wd (row ! (m - 1))" if "m \<noteq> 0"
    proof (cases "half_alone wd ((!) row) (length row) (m - 1)")
      case alone: True
      have "\<not> is_wide_lead wd (row ! (m - 1))"
      proof
        assume lead: "is_wide_lead wd (row ! (m - 1))"
        with alone m that True half_alone_lead [of "(!) row" "m - 1" wd "length row"] show False
          by (auto simp: is_wide_lead_def)
      qed
      moreover have "\<not> is_wide_lead wd (cur ! (m - 1))"
        using alone seen [of "m - 1"] m that assms(1) by (simp add: mended_def is_wide_lead_def widths_ok_def)
      ultimately show ?thesis by simp
    next
      case False
      with seen [of "m - 1"] m that show ?thesis by (simp add: mended_def)
    qed
    with True here half_alone_cont [of "(!) row" m wd "length row"] show ?thesis by auto
  next
    case False
    with here half_alone_lead [of "(!) row" m wd "length row"] show ?thesis
      by (cases "m + 1 < length row") auto
  qed
  have "repair_at wd (length row) 0 m cur
      = (if half_alone wd ((!) row) (length row) m then cur[m := blanked (cur ! m)] else cur)"
    by (simp only: repair_at_def Let_def add_0 broken)
  then show ?thesis
    using seen [OF x] here(1) m len x
    by (auto simp: mended_def blanked_def nth_list_update less_Suc_eq)
qed

lemma repair_row_mends:
  assumes "widths_ok wd" and "x < length row"
  shows "fold (repair_at wd (length row) 0) [0..<length row] row ! x = mended wd ((!) row) (length row) x"
proof -
  have "length (fold (repair_at wd (length row) 0) [0..<m] row) = length row
      \<and> (\<forall>x < length row. fold (repair_at wd (length row) 0) [0..<m] row ! x
            = (if x < m then mended wd ((!) row) (length row) x else row ! x))"
    if "m \<le> length row" for m
    using that
  proof (induction m)
    case (Suc m)
    then show ?case
      using repair_step [OF assms(1), of m row "fold (repair_at wd (length row) 0) [0..<m] row"] by simp
  qed simp
  with assms(2) show ?thesis by simp
qed

text \<open>What stamping one row of the overlay does to the buffer.\<close>

lemma past_the_edge:
  assumes "cols \<le> sat_add (k :: u16) (of_nat c)" and "c < 65536"
  shows "unat cols \<le> unat k + c"
proof -
  have "unat (of_nat c :: u16) = c"
    using assms(2) by (simp add: unat_of_nat)
  with assms(1) show ?thesis
    by (simp add: word_le_nat_alt unat_sat_add)
qed

lemma before_the_edge:
  assumes "\<not> cols \<le> sat_add (k :: u16) (of_nat c)" and "c < 65536"
  shows "unat (sat_add k (of_nat c)) = unat k + c" "unat k + c < unat cols"
proof -
  have c: "unat (of_nat c :: u16) = c"
    using assms(2) by (simp add: unat_of_nat)
  have le: "unat cols \<le> 65535" using unat_lt_16 [of cols] by linarith
  have "min (unat k + c) 65535 < unat cols"
    using assms(1) c by (auto simp: word_le_nat_alt unat_sat_add not_le)
  with le show "unat (sat_add k (of_nat c)) = unat k + c" "unat k + c < unat cols"
    using c by (simp_all add: unat_sat_add min_def split: if_splits)
qed

lemma stamp_cols_at:
  fixes ov :: overlay
  assumes "length cells = rows * unat cols" and "unat srow < rows" and "k \<le> unat (ov_cols ov)" "a \<le> k"
    and "r' < rows" "x < unat cols"
  shows "length (stamp_cols ov cols r srow [a..<k] cells) = length cells
    \<and> stamp_cols ov cols r srow [a..<k] cells ! (r' * unat cols + x) =
       (if r' = unat srow \<and> unat (ov_col ov) + a \<le> x \<and> x < unat (ov_col ov) + k
        then (ov_cells ov ! (r * unat (ov_cols ov) + (x - unat (ov_col ov))))\<lparr>c_link := 0\<rparr>
        else cells ! (r' * unat cols + x))"
  using assms(1,4)
proof (induction "k - a" arbitrary: a cells)
  case 0
  then show ?case by auto
next
  case (Suc d)
  then have "a < k" by simp
  then have up: "[a..<k] = a # [Suc a..<k]" by (simp add: upt_rec)
  have a: "a < 65536"
    using \<open>a < k\<close> assms(3) unat_lt_16 [of "ov_cols ov"] by linarith
  let ?scol = "sat_add (ov_col ov) (of_nat a)"
  show ?case
  proof (cases "cols \<le> ?scol")
    case True
    from past_the_edge [OF this a] assms(6) True show ?thesis by (simp add: up Let_def)
  next
    case False
    note scol = before_the_edge [OF this a]
    let ?v = "(ov_cells ov ! (r * unat (ov_cols ov) + a))\<lparr>c_link := 0\<rparr>"
    let ?cells = "cells[unat srow * unat cols + (unat (ov_col ov) + a) := ?v]"
    have step: "stamp_cols ov cols r srow [a..<k] cells = stamp_cols ov cols r srow [Suc a..<k] ?cells"
      using False scol(1) by (simp add: up Let_def)
    have "unat srow * unat cols + (unat (ov_col ov) + a) < length cells"
      using row_in_range [OF assms(2), of "unat cols"] scol(2) Suc.prems(1) by simp
    then have upd: "?cells ! (r' * unat cols + x) =
        (if r' = unat srow \<and> x = unat (ov_col ov) + a then ?v else cells ! (r' * unat cols + x))"
      using row_index [OF scol(2) assms(6), of "unat srow" r'] by (auto simp: nth_list_update)
    have "d = k - Suc a" "length ?cells = rows * unat cols" "Suc a \<le> k"
      using Suc by simp_all
    from Suc.hyps(1) [OF this] upd \<open>a < k\<close> show ?thesis
      unfolding step by (auto simp: not_le less_Suc_eq_le Suc_le_eq)
  qed
qed

text \<open>What stamping the whole overlay does: in the rows it covers, the mended row with the overlay in
  front; every other row as it was.\<close>

definition covered_row :: "overlay \<Rightarrow> nat \<Rightarrow> (nat \<Rightarrow> cell) \<Rightarrow> nat \<Rightarrow> cell" where
  "covered_row ov r L x =
    (if unat (ov_col ov) \<le> x \<and> x < unat (ov_col ov) + unat (ov_cols ov)
     then (ov_cells ov ! (r * unat (ov_cols ov) + (x - unat (ov_col ov))))\<lparr>c_link := 0\<rparr> else L x)"

lemma stamp_rows_at:
  fixes ov :: overlay
  assumes "widths_ok wd" and "length cells = unat rows * unat cols" and "n \<le> unat (ov_rows ov)" "a \<le> n"
    and "r' < unat rows" "x < unat cols"
  shows "stamp_rows wd ov rows cols [a..<n] cells ! (r' * unat cols + x) =
       (if unat (ov_row ov) + a \<le> r' \<and> r' < unat (ov_row ov) + n
        then mended wd (covered_row ov (r' - unat (ov_row ov)) (\<lambda>y. cells ! (r' * unat cols + y))) (unat cols) x
        else cells ! (r' * unat cols + x))"
  using assms(2,4)
proof (induction "n - a" arbitrary: a cells)
  case 0
  then show ?case by auto
next
  case (Suc d)
  then have "a < n" by simp
  then have up: "[a..<n] = a # [Suc a..<n]" by (simp add: upt_rec)
  have a: "a < 65536"
    using \<open>a < n\<close> assms(3) unat_lt_16 [of "ov_rows ov"] by linarith
  let ?srow = "sat_add (ov_row ov) (of_nat a)"
  show ?case
  proof (cases "rows \<le> ?srow")
    case True
    from past_the_edge [OF this a] assms(5) True show ?thesis by (simp add: up Let_def)
  next
    case False
    note srow = before_the_edge [OF this a]
    have in_range: "unat ?srow < unat rows" using srow by simp
    define stamped where "stamped = stamp_cols ov cols a ?srow [0..<unat (ov_cols ov)] cells"
    define fixed where "fixed = repair_wide_pairs wd (unat cols) (unat ?srow) stamped"
    have step: "stamp_rows wd ov rows cols [a..<n] cells = stamp_rows wd ov rows cols [Suc a..<n] fixed"
      using False by (simp add: up Let_def stamped_def fixed_def)
    note at = stamp_cols_at [OF Suc.prems(1) in_range order_refl le0, where ov = ov and r = a, folded stamped_def]
    have len: "length stamped = unat rows * unat cols"
      using at [OF assms(5,6)] Suc.prems(1) by simp
    have stamped: "stamped ! (q * unat cols + y) =
        (if q = unat ?srow then covered_row ov a (\<lambda>y. cells ! (q * unat cols + y)) y else cells ! (q * unat cols + y))"
      if "q < unat rows" "y < unat cols" for q y
      using at [OF that] by (auto simp: covered_row_def)
    note row = row_of_facts [OF len in_range]
    have fixed: "fixed ! (q * unat cols + y) =
        (if q = unat ?srow then mended wd (covered_row ov a (\<lambda>y. cells ! (q * unat cols + y))) (unat cols) y
         else cells ! (q * unat cols + y))" if q: "q < unat rows" "y < unat cols" for q y
    proof -
      have lenf: "length fixed = unat rows * unat cols"
        using row_of_repair(2) [OF len in_range in_range] len by (simp add: fixed_def)
      have "fixed ! (q * unat cols + y) = row_of fixed (unat cols) q ! y"
        using row_of_facts(2) [OF lenf q] by simp
      also have "\<dots> = (if q = unat ?srow
          then fold (repair_at wd (unat cols) 0) [0..<unat cols] (row_of stamped (unat cols) (unat ?srow)) ! y
          else row_of stamped (unat cols) q ! y)"
        using row_of_repair(1) [OF len in_range q(1), of wd] by (simp add: fixed_def)
      also have "\<dots> = (if q = unat ?srow then mended wd ((!) (row_of stamped (unat cols) (unat ?srow))) (unat cols) y
          else cells ! (q * unat cols + y))"
        using repair_row_mends [OF assms(1), of y "row_of stamped (unat cols) (unat ?srow)"] row(1) q
          row_of_facts(2) [OF len q] stamped [OF q] by simp
      also have "mended wd ((!) (row_of stamped (unat cols) (unat ?srow))) (unat cols) y
          = mended wd (covered_row ov a (\<lambda>y. cells ! (unat ?srow * unat cols + y))) (unat cols) y"
        using q(2) row(2) stamped [OF in_range] by (intro mended_cong) simp_all
      finally show ?thesis by simp
    qed
    have "length fixed = unat rows * unat cols"
      using row_of_repair(2) [OF len in_range in_range] len by (simp add: fixed_def)
    from Suc.hyps(1) [OF _ this] Suc.hyps(2) Suc.prems(2)
    have IH: "stamp_rows wd ov rows cols [Suc a..<n] fixed ! (r' * unat cols + x) =
       (if unat (ov_row ov) + Suc a \<le> r' \<and> r' < unat (ov_row ov) + n
        then mended wd (covered_row ov (r' - unat (ov_row ov)) (\<lambda>y. fixed ! (r' * unat cols + y))) (unat cols) x
        else fixed ! (r' * unat cols + x))"
      by simp
    show ?thesis
    proof (cases "r' = unat ?srow")
      case True
      with IH fixed [OF assms(5,6)] srow(1) Suc.hyps(2) show ?thesis
        unfolding step by simp
    next
      case False
      have "mended wd (covered_row ov (r' - unat (ov_row ov)) (\<lambda>y. fixed ! (r' * unat cols + y))) (unat cols) x
          = mended wd (covered_row ov (r' - unat (ov_row ov)) (\<lambda>y. cells ! (r' * unat cols + y))) (unat cols) x"
        using fixed [OF assms(5)] False assms(6) by (intro mended_cong) (simp_all add: covered_row_def)
      with IH fixed [OF assms(5,6)] srow(1) False show ?thesis
        unfolding step by (auto simp: Suc_le_eq le_less)
    qed
  qed
qed

lemma drawable_mended:
  assumes "row_drawable wd row" and "widths_ok wd" and "x < length row"
  shows "mended wd ((!) row) (length row) x = row ! x"
proof -
  have "cell_at_ok wd row x"
    using assms(1,3) by (simp add: row_drawable_def list_all_iff)
  then have "\<not> half_alone wd ((!) row) (length row) x"
    using assms(2) by (auto simp: half_alone_def cell_at_ok_def is_wide_lead_def widths_ok_def split: if_splits)
  then show ?thesis by (simp add: mended_def)
qed

lemma composite_cell:
  assumes wd: "widths_ok wd" and draw: "drawable wd (unat (scr_rows s)) (unat (scr_cols s)) (scr_cells s)"
    and r: "r < unat (scr_rows s)" and x: "x < unat (scr_cols s)"
  shows "composite wd rd s ! (r * unat (scr_cols s) + x) = desired_cell wd (rd_overlay rd) s r x"
proof -
  let ?cols = "unat (scr_cols s)"
  have len: "length (scr_cells s) = unat (scr_rows s) * ?cols"
    and row: "row_drawable wd (row_of (scr_cells s) ?cols r)"
    using draw r by (auto simp: drawable_def list_all_iff)
  note at = row_of_facts [OF len r]
  have plain: "mended wd L ?cols x = scr_cells s ! (r * ?cols + x)"
    if "\<And>y. y < ?cols \<Longrightarrow> L y = scr_cells s ! (r * ?cols + y)" for L
  proof -
    have "mended wd L ?cols x = mended wd ((!) (row_of (scr_cells s) ?cols r)) ?cols x"
      using that at(2) x by (intro mended_cong) simp_all
    with drawable_mended [OF row wd, of x] at x show ?thesis by simp
  qed
  show ?thesis
  proof (cases "rd_overlay rd")
    case None
    with plain [of "front_cell None s r"] show ?thesis
      by (simp add: composite_def desired_cell_def front_cell_def)
  next
    case (Some ov)
    note stamped = stamp_rows_at [OF wd len order_refl le0 r x, of ov]
    show ?thesis
    proof (cases "unat (ov_row ov) \<le> r \<and> r < unat (ov_row ov) + unat (ov_rows ov)")
      case True
      have "front_cell (Some ov) s r = covered_row ov (r - unat (ov_row ov)) (\<lambda>y. scr_cells s ! (r * ?cols + y))"
        using True by (auto simp: front_cell_def covered_row_def covers_def)
      with True Some stamped show ?thesis by (simp add: composite_def desired_cell_def)
    next
      case False
      with Some stamped plain [of "front_cell (Some ov) s r"] show ?thesis
        by (auto simp: composite_def desired_cell_def front_cell_def covers_def)
    qed
  qed
qed

section \<open>What a sequence of SGR parameters selects\<close>

record pen =
  pn_bold :: bool
  pn_dim :: bool
  pn_italic :: bool
  pn_underline :: bool
  pn_blink :: bool
  pn_inverse :: bool
  pn_hidden :: bool
  pn_strike :: bool
  pn_fg :: color
  pn_bg :: color

definition plain_pen :: pen where
  "plain_pen = \<lparr>pn_bold = False, pn_dim = False, pn_italic = False, pn_underline = False, pn_blink = False,
     pn_inverse = False, pn_hidden = False, pn_strike = False, pn_fg = Default, pn_bg = Default\<rparr>"

text \<open>One parameter, as ECMA-48 and xterm define it; 38 and 48 take the parameters that follow.\<close>

definition sgr_one :: "nat \<Rightarrow> pen \<Rightarrow> pen" where
  "sgr_one n p =
    (if n = 0 then plain_pen
     else if n = 1 then p\<lparr>pn_bold := True\<rparr>
     else if n = 2 then p\<lparr>pn_dim := True\<rparr>
     else if n = 3 then p\<lparr>pn_italic := True\<rparr>
     else if n = 4 then p\<lparr>pn_underline := True\<rparr>
     else if n = 5 then p\<lparr>pn_blink := True\<rparr>
     else if n = 7 then p\<lparr>pn_inverse := True\<rparr>
     else if n = 8 then p\<lparr>pn_hidden := True\<rparr>
     else if n = 9 then p\<lparr>pn_strike := True\<rparr>
     else if 30 \<le> n \<and> n \<le> 37 then p\<lparr>pn_fg := Idx (of_nat (n - 30))\<rparr>
     else if 40 \<le> n \<and> n \<le> 47 then p\<lparr>pn_bg := Idx (of_nat (n - 40))\<rparr>
     else if 90 \<le> n \<and> n \<le> 97 then p\<lparr>pn_fg := Idx (of_nat (n - 82))\<rparr>
     else if 100 \<le> n \<and> n \<le> 107 then p\<lparr>pn_bg := Idx (of_nat (n - 92))\<rparr>
     else p)"

definition paint_with :: "nat \<Rightarrow> color \<Rightarrow> pen \<Rightarrow> pen" where
  "paint_with n c p = (if n = 38 then p\<lparr>pn_fg := c\<rparr> else p\<lparr>pn_bg := c\<rparr>)"

fun sgr_apply :: "nat list \<Rightarrow> pen \<Rightarrow> pen" where
  "sgr_apply [] p = p"
| "sgr_apply (n # ps) p =
     (if n = 38 \<or> n = 48 then
        (case ps of
           m # i # rest \<Rightarrow>
             if m = 5 then sgr_apply rest (paint_with n (Idx (of_nat i)) p)
             else if m = 2 then
               (case rest of
                  g # b # rest' \<Rightarrow> sgr_apply rest' (paint_with n (Rgb (of_nat i) (of_nat g) (of_nat b)) p)
                | _ \<Rightarrow> p)
             else p
         | _ \<Rightarrow> p)
      else sgr_apply ps (sgr_one n p))"

text \<open>The decimal parameters of a sequence, separated by semicolons and ended by \<open>m\<close>.\<close>

fun sgr_params :: "nat \<Rightarrow> bytes \<Rightarrow> nat list" where
  "sgr_params n [] = []"
| "sgr_params n (b # bs) =
     (if b = 0x3b then n # sgr_params 0 bs
      else if b = 0x6d then [n]
      else sgr_params (10 * n + (unat b - 48)) bs)"

definition sgr_run :: "bytes \<Rightarrow> pen \<Rightarrow> pen" where
  "sgr_run bs p =
    (if take 2 bs = [0x1b, 0x5b] then sgr_apply (sgr_params 0 (drop 2 bs)) p else p)"

section \<open>The pen a cell is written with\<close>

text \<open>A colour as the terminal has it: brought down to its palette, and on one of fewer than sixteen
  colours a bright one as its plain counterpart, the foreground then in bold.\<close>

definition bright_lost :: "terminal_caps \<Rightarrow> color \<Rightarrow> bool" where
  "bright_lost caps c \<longleftrightarrow> caps_colors caps < 16 \<and> (\<exists>i. down_convert c caps = Idx i \<and> 8 \<le> i \<and> i < 16)"

definition terminal_color :: "terminal_caps \<Rightarrow> color \<Rightarrow> color" where
  "terminal_color caps c =
    (case down_convert c caps of
       Idx i \<Rightarrow> Idx (if caps_colors caps < 16 \<and> 8 \<le> i \<and> i < 16 then i - 8 else i)
     | d \<Rightarrow> d)"

definition wanted_pen :: "terminal_caps \<Rightarrow> cell \<Rightarrow> pen" where
  "wanted_pen caps c =
    \<lparr>pn_bold = (c_attrs c AND BOLD = BOLD \<or> bright_lost caps (c_fg c)), pn_dim = (c_attrs c AND DIM = DIM),
     pn_italic = (c_attrs c AND ITALIC = ITALIC), pn_underline = (c_attrs c AND UNDERLINE = UNDERLINE),
     pn_blink = (c_attrs c AND BLINK = BLINK), pn_inverse = (c_attrs c AND INVERSE = INVERSE),
     pn_hidden = (c_attrs c AND HIDDEN = HIDDEN), pn_strike = (c_attrs c AND STRIKE = STRIKE),
     pn_fg = terminal_color caps (c_fg c), pn_bg = terminal_color caps (c_bg c)\<rparr>"

lemma utf8_join: "utf8 (a @ b) = utf8 a @ utf8 b"
  by (simp add: utf8_def)

lemma utf8_Cons_ascii: "c < 128 \<Longrightarrow> utf8 (c # s) = of_nat c # utf8 s"
  by (simp add: utf8_def utf8_scalar_def)

lemma utf8_Nil: "utf8 [] = []"
  by (simp add: utf8_def)

lemma sgr_params_digits:
  assumes "\<forall>c\<in>set ds. 48 \<le> c \<and> c \<le> 57"
  shows "sgr_params n (utf8 ds @ rest) = sgr_params (foldl (\<lambda>a d. 10 * a + (d - 48)) n ds) rest"
  using assms
proof (induction ds arbitrary: n)
  case (Cons d ds)
  then have d: "48 \<le> d" "d \<le> 57" by simp_all
  then have u: "unat (of_nat d :: u8) = d" by (simp add: unat_of_nat)
  have "(of_nat d :: u8) \<noteq> b" if "57 < unat b" for b
    using u d that by auto
  from this [of "0x3b"] this [of "0x6d"] Cons u d show ?case by (simp add: utf8_Cons_ascii)
qed (simp add: utf8_Nil)

lemma dec_str_value: "foldl (\<lambda>a d. 10 * a + (d - 48)) 0 (dec_str k) = k"
proof (induction k rule: less_induct)
  case (less k)
  show ?case
  proof (cases "k < 10")
    case False
    then have "foldl (\<lambda>a d. 10 * a + (d - 48)) 0 (dec_str (k div 10)) = k div 10"
      by (intro less) simp
    with False show ?thesis by (subst dec_str.simps) simp
  qed (subst dec_str.simps, simp)
qed

lemma sgr_params_number: "sgr_params 0 (utf8 (dec_str k) @ rest) = sgr_params k rest"
  using sgr_params_digits [of "dec_str k" 0 rest] dec_str_digits by (simp add: dec_str_value)

text \<open>The parameters as the renderer writes them, each after its semicolon.\<close>

definition param_str :: "nat list \<Rightarrow> ustr" where
  "param_str ps = concat (map (\<lambda>n. str_of '';'' @ dec_str n) ps)"

lemma sgr_params_list: "sgr_params k (utf8 (param_str ps @ str_of ''m'')) = k # ps"
proof (induction ps arbitrary: k)
  case Nil
  show ?case by (simp add: param_str_def str_of_def utf8_Cons_ascii utf8_Nil)
next
  case (Cons n ps)
  have "utf8 (param_str (n # ps) @ str_of ''m'') = 0x3b # utf8 (dec_str n) @ utf8 (param_str ps @ str_of ''m'')"
    by (simp add: param_str_def str_of_def utf8_join utf8_Cons_ascii utf8_Nil)
  with Cons sgr_params_number show ?case by simp
qed

definition color_params :: "bool \<Rightarrow> u32 \<Rightarrow> color \<Rightarrow> nat list" where
  "color_params foreground colors c =
    (case c of
       Default \<Rightarrow> []
     | Idx i \<Rightarrow>
         if i < 8 then [(if foreground then 30 else 40) + unat i]
         else if i < 16 then
           (if colors < 16 then [(if foreground then 30 else 40) + unat (i - 8)]
            else [(if foreground then 90 else 100) + unat (i - 8)])
         else [if foreground then 38 else 48, 5, unat i]
     | Rgb r g b \<Rightarrow> [if foreground then 38 else 48, 2, unat r, unat g, unat b])"

lemma push_color_params: "push_color c foreground colors = param_str (color_params foreground colors c)"
proof -
  have "dec_str 5 = [53]" "dec_str 2 = [50]" by (simp_all add: dec_str.simps)
  then show ?thesis
    by (simp add: push_color_def color_params_def param_str_def str_of_def split: color.split)
qed

definition flag_params :: "bool \<Rightarrow> attrs \<Rightarrow> nat list" where
  "flag_params bold a =
    (if bold then [1] else []) @ (if attrs_contains a DIM then [2] else [])
    @ (if attrs_contains a ITALIC then [3] else []) @ (if attrs_contains a UNDERLINE then [4] else [])
    @ (if attrs_contains a BLINK then [5] else []) @ (if attrs_contains a INVERSE then [7] else [])
    @ (if attrs_contains a HIDDEN then [8] else []) @ (if attrs_contains a STRIKE then [9] else [])"

lemma param_str_append: "param_str (ps @ qs) = param_str ps @ param_str qs"
  by (simp add: param_str_def)

lemma param_str_if: "(if b then str_of (CHR '';'' # d) else []) = param_str (if b then [n] else [])"
  if "str_of d = dec_str n"
  using that by (simp add: param_str_def str_of_def)

lemma sgr_for_params:
  "sgr_for rd c = [0x1b, 0x5b] @ utf8 (dec_str 0 @ param_str
     (flag_params (attrs_contains (c_attrs c) BOLD \<or> bright_lost (rd_caps rd) (c_fg c)) (c_attrs c)
      @ color_params True (caps_colors (rd_caps rd)) (down_convert (c_fg c) (rd_caps rd))
      @ color_params False (caps_colors (rd_caps rd)) (down_convert (c_bg c) (rd_caps rd))) @ str_of ''m'')"
proof -
  have digits: "str_of ''1'' = dec_str 1" "str_of ''2'' = dec_str 2" "str_of ''3'' = dec_str 3"
    "str_of ''4'' = dec_str 4" "str_of ''5'' = dec_str 5" "str_of ''7'' = dec_str 7" "str_of ''8'' = dec_str 8"
    "str_of ''9'' = dec_str 9"
    by (simp_all add: dec_str.simps str_of_def)
  have lost: "(caps_colors (rd_caps rd) < 16
      \<and> (case down_convert (c_fg c) (rd_caps rd) of Idx i \<Rightarrow> 8 \<le> i \<and> i < 16 | _ \<Rightarrow> False))
    = bright_lost (rd_caps rd) (c_fg c)"
    by (auto simp: bright_lost_def split: color.splits)
  have head: "utf8 ([27] @ str_of ''[0'' @ s) = [0x1b, 0x5b] @ utf8 (dec_str 0 @ s)" for s
    by (simp add: str_of_def utf8_Cons_ascii dec_str.simps)
  show ?thesis
    unfolding sgr_for_def Let_def lost head flag_params_def param_str_append push_color_params
      param_str_if [OF digits(1)] param_str_if [OF digits(2)] param_str_if [OF digits(3)]
      param_str_if [OF digits(4)] param_str_if [OF digits(5)] param_str_if [OF digits(6)]
      param_str_if [OF digits(7)] param_str_if [OF digits(8)] append_assoc ..
qed

lemma sgr_apply_flags:
  "sgr_apply (flag_params bold a @ ps) p = sgr_apply ps (p\<lparr>
     pn_bold := pn_bold p \<or> bold, pn_dim := pn_dim p \<or> attrs_contains a DIM,
     pn_italic := pn_italic p \<or> attrs_contains a ITALIC,
     pn_underline := pn_underline p \<or> attrs_contains a UNDERLINE,
     pn_blink := pn_blink p \<or> attrs_contains a BLINK, pn_inverse := pn_inverse p \<or> attrs_contains a INVERSE,
     pn_hidden := pn_hidden p \<or> attrs_contains a HIDDEN, pn_strike := pn_strike p \<or> attrs_contains a STRIKE\<rparr>)"
proof -
  have one: "sgr_apply ((if b then [n] else []) @ qs) q = sgr_apply qs (if b then sgr_one n q else q)"
    if "n < 10" for b n q qs
    using that by simp
  show ?thesis
    unfolding flag_params_def append_assoc
    by (simp only: one) (rule arg_cong [where f = "sgr_apply ps"], cases p, auto simp: sgr_one_def)
qed

lemma sgr_apply_color:
  "sgr_apply (color_params fg (caps_colors caps) (down_convert c caps) @ ps) p =
    sgr_apply ps (case down_convert c caps of Default \<Rightarrow> p
      | _ \<Rightarrow> if fg then p\<lparr>pn_fg := terminal_color caps c\<rparr> else p\<lparr>pn_bg := terminal_color caps c\<rparr>)"
proof (cases "down_convert c caps")
  case (Idx i)
  have small: "of_nat (k + unat i - k) = i" for k by simp
  have i16: "unat i < 16" if "i < 16" using that by (simp add: word_less_nat_alt)
  have i8: "unat i < 8" if "i < 8" using that by (simp add: word_less_nat_alt)
  have sub: "unat (i - 8) = unat i - 8" "(of_nat (unat i - 8) :: u8) = i - 8" "of_nat (8 + (unat i - 8)) = i" "8 \<le> unat i"
    if "\<not> i < 8"
  proof -
    show le: "8 \<le> unat i" using that by (simp add: word_less_nat_alt not_less)
    show u: "unat (i - 8) = unat i - 8" using that by (subst unat_sub) (simp_all add: not_less)
    show "(of_nat (unat i - 8) :: u8) = i - 8" unfolding u [symmetric] by simp
    show "of_nat (8 + (unat i - 8)) = i" using le by simp
  qed
  consider "i < 8" | "\<not> i < 8" "i < 16" "caps_colors caps < 16" | "\<not> i < 8" "i < 16" "\<not> caps_colors caps < 16"
    | "\<not> i < 16" by blast
  then show ?thesis
  proof cases
    case 1
    then have "\<not> 8 \<le> i" by simp
    with 1 Idx i8 show ?thesis
      by (cases fg) (simp_all add: color_params_def terminal_color_def sgr_one_def)
  next
    case 2
    with Idx i16 sub show ?thesis
      by (cases fg) (simp_all add: color_params_def terminal_color_def sgr_one_def not_less)
  next
    case 3
    have "of_nat (unat i) = i" by simp
    with 3 Idx i16 sub show ?thesis
      by (cases fg) (simp_all add: color_params_def terminal_color_def sgr_one_def not_less)
  next
    case 4
    then have "\<not> i < 8" by (simp add: word_less_nat_alt)
    with 4 Idx show ?thesis
      by (cases fg) (simp_all add: color_params_def terminal_color_def paint_with_def del: not_less)
  qed
next
  case (Rgb r g b)
  then show ?thesis
    by (cases fg) (simp_all add: color_params_def terminal_color_def paint_with_def)
qed (simp add: color_params_def)

text \<open>Whatever the terminal's pen was, after the sequence for a cell it is the pen the cell wants.\<close>

lemma sgr_for_pen: "sgr_run (sgr_for rd c) p = wanted_pen (rd_caps rd) c"
proof -
  let ?caps = "rd_caps rd"
  have fg: "(case down_convert d ?caps of Default \<Rightarrow> q | _ \<Rightarrow> q\<lparr>pn_fg := terminal_color ?caps d\<rparr>)
      = q\<lparr>pn_fg := terminal_color ?caps d\<rparr>" if "pn_fg q = Default" for d q
    using that by (cases q) (simp add: terminal_color_def split: color.split)
  have bg: "(case down_convert d ?caps of Default \<Rightarrow> q | _ \<Rightarrow> q\<lparr>pn_bg := terminal_color ?caps d\<rparr>)
      = q\<lparr>pn_bg := terminal_color ?caps d\<rparr>" if "pn_bg q = Default" for d q
    using that by (cases q) (simp add: terminal_color_def split: color.split)
  have "sgr_run (sgr_for rd c) p = sgr_apply (0 # flag_params
      (attrs_contains (c_attrs c) BOLD \<or> bright_lost ?caps (c_fg c)) (c_attrs c)
      @ color_params True (caps_colors ?caps) (down_convert (c_fg c) ?caps)
      @ color_params False (caps_colors ?caps) (down_convert (c_bg c) ?caps) @ []) p"
    unfolding sgr_for_params sgr_run_def
    by (simp add: utf8_join [of "dec_str 0"] sgr_params_number sgr_params_list)
  also have "\<dots> = sgr_apply (flag_params
      (attrs_contains (c_attrs c) BOLD \<or> bright_lost ?caps (c_fg c)) (c_attrs c)
      @ color_params True (caps_colors ?caps) (down_convert (c_fg c) ?caps)
      @ color_params False (caps_colors ?caps) (down_convert (c_bg c) ?caps) @ []) plain_pen"
    by (simp add: sgr_one_def)
  also have "\<dots> = wanted_pen ?caps c"
    unfolding sgr_apply_flags sgr_apply_color
    by (simp add: fg bg plain_pen_def) (simp add: wanted_pen_def attrs_contains_def)
  finally show ?thesis .
qed

section \<open>Properties\<close>

text \<open>The hyperlink a cell is shown with: its own, where hyperlinks are on, the terminal has them, and the
  id resolves to a URI that may be written.\<close>

definition wanted_link :: "renderer \<Rightarrow> link_table \<Rightarrow> u16 \<Rightarrow> (u16 \<times> ustr) option" where
  "wanted_link rd links lid =
    (if rd_hyperlinks rd \<and> caps_osc8 (rd_caps rd) \<and> lid \<noteq> 0 then
       (case bt_get links lid of
          Some uri \<Rightarrow> if check_link_uri lid uri = Inr () then Some (lid, uri) else None
        | None \<Rightarrow> None)
     else None)"

lemma wanted_link_eq: "id_link rd links lid = wanted_link rd links lid"
  by (auto simp: id_link_def wanted_link_def links_on_def is_ok_def split: option.splits sum.splits)

text \<open>C8: what the user sees is the state. Given a non-empty screen the client accepts whose rows can be
  drawn (every cell one or two columns wide, wide glyphs whole), an overlay of such cells or none, and
  a terminal of its width at the default pen about which the renderer's model is true or dropped, a
  completed render leaves every position showing the cell in front there: the overlay's where it
  covers, without a link, the screen's elsewhere, half of a cut wide glyph as a blank; with its text,
  the colours and attributes its SGR parameters select (brought down to the terminal's palette) and its
  hyperlink. Cursor, shape and modes are the state's, the cursor hidden under an overlay; the bell
  rings once exactly when the counter rose since the last pass of this size; and the model is then
  true, so the next pass starts from there.\<close>

theorem render_shows_the_state:
  assumes "screen_valid s" "0 < scr_rows s" "0 < scr_cols s"
    and "widths_ok wd" "drawable wd (unat (scr_rows s)) (unat (scr_cols s)) (scr_cells s)"
    and "\<And>ov. rd_overlay rd = Some ov \<Longrightarrow> overlay_ok wd ov"
    and "tm_cols T = unat (scr_cols s)" "in_step wd rd T"
  defines "T' \<equiv> run_ops wd (fst (render wd rd s True)) T"
  shows "(\<forall>r < unat (scr_rows s). \<forall>x < unat (scr_cols s).
      let c = desired_cell wd (rd_overlay rd) s r x
      in if attrs_contains (c_attrs c) WIDE_CONT then tm_grid T' r x = RightHalf
         else \<exists>bs. tm_grid T' r x = Glyph (if c_text c = [] then [32] else c_text c) bs
                     (wanted_link rd (scr_links s) (c_link c))
                \<and> (\<forall>p. sgr_run bs p = wanted_pen (rd_caps rd) c))
    \<and> tm_row T' = unat (cur_row (scr_cursor s)) \<and> tm_col T' = unat (cur_col (scr_cursor s))
    \<and> tm_mode T' 25 = (cur_visible (scr_cursor s) \<and> rd_overlay rd = None)
    \<and> tm_style T' = (case cur_shape (scr_cursor s) of Block \<Rightarrow> 2 | Underline \<Rightarrow> 4 | Bar \<Rightarrow> 6)
    \<and> modes_shown (rd_caps rd) (scr_modes s) (tm_mode T')
    \<and> tm_bells T' = tm_bells T +
        (case rd_painted rd of
           Some p \<Rightarrow> if scr_rows s = ts_rows (rd_size rd) \<and> scr_cols s = ts_cols (rd_size rd)
                       \<and> pt_bell p < scr_bell s then 1 else 0
         | None \<Rightarrow> 0)
    \<and> in_step wd (snd (render wd rd s True)) T'"
proof -
  note shown = render_shows [OF composite_drawable [OF assms(4,5,6)] assms(4,1-3,7,8), folded T'_def, unfolded Let_def]
  have "let c = desired_cell wd (rd_overlay rd) s r x
      in if attrs_contains (c_attrs c) WIDE_CONT then tm_grid T' r x = RightHalf
         else \<exists>bs. tm_grid T' r x = Glyph (if c_text c = [] then [32] else c_text c) bs
                     (wanted_link rd (scr_links s) (c_link c))
                \<and> (\<forall>p. sgr_run bs p = wanted_pen (rd_caps rd) c)"
    if "r < unat (scr_rows s)" "x < unat (scr_cols s)" for r x
    using shown that composite_cell [OF assms(4,5) that, of rd]
    by (simp add: grid_shows_def look_def shown_text_def wanted_link_eq sgr_for_pen)
  moreover have "cursor_shown (shown_cursor rd s) T'"
    using shown by blast
  then have "tm_row T' = unat (cur_row (scr_cursor s))" "tm_col T' = unat (cur_col (scr_cursor s))"
    "tm_mode T' 25 = (cur_visible (scr_cursor s) \<and> rd_overlay rd = None)"
    "tm_style T' = (case cur_shape (scr_cursor s) of Block \<Rightarrow> 2 | Underline \<Rightarrow> 4 | Bar \<Rightarrow> 6)"
    by (auto simp: cursor_shown_def shown_cursor_def split: option.splits cursor_shape.split)
  moreover have "should_ring (fitted rd s) s \<longleftrightarrow> (case rd_painted rd of
      Some p \<Rightarrow> scr_rows s = ts_rows (rd_size rd) \<and> scr_cols s = ts_cols (rd_size rd) \<and> pt_bell p < scr_bell s
    | None \<Rightarrow> False)"
    by (auto simp: should_ring_def fitted_def split: option.splits)
  ultimately show ?thesis
    using shown by (auto split: option.split)
qed

lemma blank_pen: "wanted_pen caps (cell_blank\<lparr>c_text := t\<rparr>) = plain_pen"
proof -
  have "down_convert Default caps = Default" by (simp add: down_convert_def)
  then show ?thesis
    by (simp add: wanted_pen_def plain_pen_def cell_blank_def terminal_color_def bright_lost_def
        BOLD_def DIM_def ITALIC_def UNDERLINE_def BLINK_def INVERSE_def HIDDEN_def STRIKE_def)
qed

theorem render_shows_the_state_witness:
  "\<exists>bs. tm_grid (run_ops length (fst (render length (renderer_new \<lparr>ts_cols = 2, ts_rows = 1\<rparr> sample_caps)
      one_letter True)) fresh_terminal) 0 0 = Glyph [97] bs None \<and> (\<forall>p. sgr_run bs p = plain_pen)"
proof -
  let ?rd = "renderer_new \<lparr>ts_cols = 2, ts_rows = 1\<rparr> sample_caps"
  have size: "scr_rows one_letter = 1" "scr_cols one_letter = 2"
    by (simp_all add: one_letter_def blank_state_def)
  let ?c = "desired_cell length (rd_overlay ?rd) one_letter 0 0"
  have c: "?c = cell_blank\<lparr>c_text := [97]\<rparr>"
    by (simp add: desired_cell_def mended_def half_alone_def front_cell_def renderer_new_def one_letter_def
        cell_blank_def)
  have "let c = ?c
      in if attrs_contains (c_attrs c) WIDE_CONT
         then tm_grid (run_ops length (fst (render length ?rd one_letter True)) fresh_terminal) 0 0 = RightHalf
         else \<exists>bs. tm_grid (run_ops length (fst (render length ?rd one_letter True)) fresh_terminal) 0 0
             = Glyph (if c_text c = [] then [32] else c_text c) bs (wanted_link ?rd (scr_links one_letter) (c_link c))
           \<and> (\<forall>p. sgr_run bs p = wanted_pen (rd_caps ?rd) c)"
    using render_shows_the_state [of one_letter length ?rd fresh_terminal] one_letter_ok size
    by (simp add: widths_ok_def renderer_new_def in_step_def fresh_terminal_def)
  then show ?thesis
    unfolding c Let_def blank_pen by (simp add: cell_blank_def wanted_link_def)
qed

end
