(* ===== verification/Client_Settings.thy ===== *)
theory Client_Settings
  imports Client_Loop
begin

text \<open>
  Which values a setting of a running session can have. What the config file says goes through \<open>parse_item\<close> before
  it becomes a layer; what is typed on the config screen goes through the checks of \<open>client_config_command\<close>
  (\<open>config_command\<close> of \<open>src/client/session.rs\<close>). The lemmas follow a screen edit from the key to the
  setting: the screen opens the editor that suits the row under the cursor, the keys of that editor ask for a change of
  that row only, and the session takes the change only after the row's own check.
\<close>

section \<open>What a setting may be\<close>

text \<open>The ranges in plain numbers. A key is a control byte other than Backspace, Tab, line feed, Enter and Esc.\<close>

definition key_allowed :: "u8 option \<Rightarrow> bool" where
  "key_allowed k \<longleftrightarrow> (case k of None \<Rightarrow> True | Some b \<Rightarrow> unat b \<in> {1..31} - {8, 9, 10, 13, 27})"

text \<open>A server is a host and a port, the port a number from 1 to 65535, the host a name or an address in brackets.\<close>

definition number_of :: "ustr \<Rightarrow> nat" where
  "number_of ds = foldl (\<lambda>n c. n * 10 + (c - 48)) 0 ds"

definition server_allowed :: "ustr \<Rightarrow> bool" where
  "server_allowed s \<longleftrightarrow> (\<exists>host plus ds. s = host @ [58] @ plus @ ds \<and> plus \<in> {[], [43]}
     \<and> ds \<noteq> [] \<and> set ds \<subseteq> {48..57} \<and> number_of ds \<in> {1..65535}
     \<and> host \<noteq> [] \<and> (hd host = 91 \<and> last host = 93 \<and> host \<noteq> [91, 93] \<or> set host \<inter> {32, 58, 91, 93} = {}))"

text \<open>A whole set of settings; the other six are on or off. Durations are in nanoseconds.\<close>

definition settings_allowed :: "settings \<Rightarrow> bool" where
  "settings_allowed st \<longleftrightarrow> key_allowed (st_popup_key st)
     \<and> (case st_auto_open_after st of None \<Rightarrow> True | Some d \<Rightarrow> d \<le> 600 * 10 ^ 9)
     \<and> st_linger st \<le> 60 * 10 ^ 9
     \<and> st_silent_after st \<in> {10 ^ 9..60 * 10 ^ 9}
     \<and> st_rebuild_after st \<in> {5 * 10 ^ 9..600 * 10 ^ 9}
     \<and> st_connect_timeout st \<in> (\<lambda>n. n * 10 ^ 9) ` {1..120}
     \<and> length (st_stun_servers st) \<le> 16 \<and> (\<forall>sv\<in>set (st_stun_servers st). server_allowed sv)"

lemma key_allowed_checked: "check_key b = Inr (Some b) \<Longrightarrow> key_allowed (Some b)"
proof -
  assume a: "check_key b = Inr (Some b)"
  have "unat b \<noteq> n" if "b \<noteq> of_nat n" "n < 256" for n using that by auto
  from this [of 8] this [of 9] this [of 10] this [of 13] this [of 27] a show "key_allowed (Some b)"
    by (auto simp: check_key_def key_allowed_def word_le_nat_alt split: if_splits)
qed

lemma dec_value_number:
  "dec_value ds acc = Some n \<Longrightarrow> set ds \<subseteq> {48..57} \<and> n = foldl (\<lambda>n c. n * 10 + (c - 48)) acc ds"
  by (induction ds acc rule: dec_value.induct) (auto split: if_splits)

lemma rsplit_once_parts: "rsplit_once c s = Some (a, b) \<Longrightarrow> s = a @ [c] @ b"
proof -
  assume r: "rsplit_once c s = Some (a, b)"
  then have "c \<in> set (rev s)" by (auto simp: rsplit_once_def split: if_splits)
  then have "dropWhile (\<lambda>x. x \<noteq> c) (rev s) \<noteq> []" "hd (dropWhile (\<lambda>x. x \<noteq> c) (rev s)) = c"
    using hd_dropWhile [of "\<lambda>x. x \<noteq> c" "rev s"] by (auto simp: dropWhile_eq_Nil_conv)
  then have "dropWhile (\<lambda>x. x \<noteq> c) (rev s) = c # tl (dropWhile (\<lambda>x. x \<noteq> c) (rev s))"
    by (metis list.collapse)
  then have "rev s = takeWhile (\<lambda>x. x \<noteq> c) (rev s) @ c # tl (dropWhile (\<lambda>x. x \<noteq> c) (rev s))"
    by (metis takeWhile_dropWhile_id)
  then have "s = rev (tl (dropWhile (\<lambda>x. x \<noteq> c) (rev s))) @ [c] @ rev (takeWhile (\<lambda>x. x \<noteq> c) (rev s))"
    by (metis append.assoc append_Cons append_Nil rev.simps(2) rev_append rev_rev_ident)
  with r show ?thesis by (auto simp: rsplit_once_def split: if_splits)
qed

lemma parse_u16_number:
  assumes "parse_u16 p = Some n"
  obtains plus ds where "p = plus @ ds" "plus \<in> {[], [43]}" "ds \<noteq> []" "set ds \<subseteq> {48..57}" "n = number_of ds" "n < 65536"
proof -
  define ds where "ds = (if take 1 p = [43] then drop 1 p else p)"
  have d: "p = (if take 1 p = [43] then [43] else []) @ ds"
    unfolding ds_def by (cases p) auto
  have "ds \<noteq> []" "dec_value ds 0 = Some n" "n < 65536"
    using assms by (auto simp: parse_u16_def Let_def ds_def split: if_splits option.splits)
  with dec_value_number [of ds 0 n] d show ?thesis
    by (intro that [of "if take 1 p = [43] then [43] else []" ds]) (auto simp: number_of_def)
qed

lemma server_allowed_checked: "check_server s = Inr () \<Longrightarrow> server_allowed s"
proof -
  assume a: "check_server s = Inr ()"
  obtain host port p where h: "rsplit_once 58 s = Some (host, port)" "parse_u16 port = Some p" "p \<noteq> 0"
    and b: "host \<noteq> [] \<and> hd host = 91 \<and> last host = 93 \<and> str_len host > 2 \<or> host \<noteq> [] \<and> \<not> list_ex (\<lambda>c. c \<in> {91, 93, 58, 32}) host"
    using a unfolding check_server_def Let_def by (auto split: option.splits prod.splits if_splits)
  from parse_u16_number [OF h(2)] obtain plus ds where d: "port = plus @ ds" "plus \<in> {[], [43]}" "ds \<noteq> []"
    "set ds \<subseteq> {48..57}" "p = number_of ds" "p < 65536" .
  have "s = host @ [58] @ plus @ ds" using rsplit_once_parts [OF h(1)] d(1) by simp
  moreover have "host \<noteq> []" "hd host = 91 \<and> last host = 93 \<and> host \<noteq> [91, 93] \<or> set host \<inter> {32, 58, 91, 93} = {}"
    using b by (auto simp: list_ex_iff str_len_def len_utf8_def)
  moreover have "number_of ds \<in> {1..65535}" using h(3) d by auto
  ultimately show ?thesis unfolding server_allowed_def using d(2-4) by blast
qed

text \<open>A value in range, as the checks have it, in the plain numbers.\<close>

lemma secs [simp]: "from_secs n = n * 1000000000"
  by (simp add: from_secs_def)

lemma settings_allowed_valid:
  assumes "settings_valid st"
  shows "settings_allowed st"
proof -
  have row: "valid_value (sg_shape (SETTINGS ! i)) (row_get i st)" if "i < 13" for i
    using assms that by (simp add: settings_valid_def)
  have "key_allowed (st_popup_key st)"
    using row [of 0] key_allowed_checked by (auto simp: SETTINGS_def row_get_def key_allowed_def split: option.splits)
  moreover have "case st_auto_open_after st of None \<Rightarrow> True | Some d \<Rightarrow> d \<le> 600 * 10 ^ 9"
    using row [of 1] by (auto simp: SETTINGS_def row_get_def split: option.splits)
  moreover have "st_linger st \<le> 60 * 10 ^ 9" "st_silent_after st \<in> {10 ^ 9..60 * 10 ^ 9}" "st_rebuild_after st \<in> {5 * 10 ^ 9..600 * 10 ^ 9}"
    using row [of 2] row [of 4] row [of 5] by (auto simp: SETTINGS_def row_get_def)
  moreover have "st_connect_timeout st \<in> (\<lambda>n. n * 10 ^ 9) ` {1..120}"
  proof -
    let ?t = "st_connect_timeout st"
    have "10 ^ 9 \<le> ?t" "?t \<le> 120 * 10 ^ 9" "?t mod 10 ^ 9 = 0"
      using row [of 6] by (simp_all add: SETTINGS_def row_get_def)
    then have "?t = (?t div 10 ^ 9) * 10 ^ 9" "?t div 10 ^ 9 \<in> {1..120}" by auto
    then show ?thesis by blast
  qed
  moreover have "length (st_stun_servers st) \<le> 16" "\<forall>sv\<in>set (st_stun_servers st). server_allowed sv"
    using row [of 8] by (auto simp: SETTINGS_def row_get_def MAX_SERVERS_def server_allowed_checked)
  ultimately show ?thesis by (simp add: settings_allowed_def)
qed

section \<open>The editor suits the row\<close>

text \<open>The screen captures a key only on a key's row and edits a list only on the servers' row; a field suits every
  row, since what is typed into it is read as the row's own kind.\<close>

definition editor_suits :: "mode \<Rightarrow> bool" where
  "editor_suits m \<longleftrightarrow> (case m of
      Config i e \<Rightarrow> i < 13
        \<and> (case e of EditingCapture \<Rightarrow> sg_shape (SETTINGS ! i) = ShapeKey
           | EditingServers _ _ \<Rightarrow> sg_shape (SETTINGS ! i) = ShapeServers | _ \<Rightarrow> True)
    | _ \<Rightarrow> True)"

lemma editor_suits_simps [simp]:
  "editor_suits mode.Closed" "editor_suits (Open p)" "editor_suits Auto" "editor_suits (Lingering s d)" "editor_suits Sessions"
  "editor_suits (Config i EditingNone) \<longleftrightarrow> i < 13" "editor_suits (Config i EditingText) \<longleftrightarrow> i < 13"
  "editor_suits (Config i EditingSave) \<longleftrightarrow> i < 13"
  "editor_suits (Config i EditingCapture) \<longleftrightarrow> i < 13 \<and> sg_shape (SETTINGS ! i) = ShapeKey"
  "editor_suits (Config i (EditingServers a f)) \<longleftrightarrow> i < 13 \<and> sg_shape (SETTINGS ! i) = ShapeServers"
  by (simp_all add: editor_suits_def)

lemma editor_suits_row: "editor_suits (Config i e) \<Longrightarrow> i < 13"
  by (simp add: editor_suits_def)

abbreviation suits :: "ui \<Rightarrow> bool" where
  "suits u \<equiv> editor_suits (ui_mode u)"

text \<open>What a read may ask of the config: a change of the row under the cursor, of the kind its editor makes.\<close>

definition command_suits :: "ui \<Rightarrow> command option \<Rightarrow> bool" where
  "command_suits u c \<longleftrightarrow> (case c of
      Some (CmdConfig (CmdEdit i)) \<Rightarrow> \<exists>e. ui_mode u = Config i e
    | Some (CmdConfig (CmdAccept i _)) \<Rightarrow> i < 13
    | Some (CmdConfig (CmdReset i)) \<Rightarrow> i < 13
    | Some (CmdConfig (CmdCapture i _)) \<Rightarrow> i < 13 \<and> sg_shape (SETTINGS ! i) = ShapeKey
    | Some (CmdConfig (CmdServers i _)) \<Rightarrow> i < 13 \<and> sg_shape (SETTINGS ! i) = ShapeServers
    | _ \<Rightarrow> True)"

lemma command_suits_simps [simp]:
  "command_suits u None" "command_suits u (Some CmdQuit)" "command_suits u (Some SendHeld)"
  "command_suits u (Some Ui_Popup.DropHeld)" "command_suits u (Some (CmdAsk a))" "command_suits u (Some (CmdConfig (CmdSave lv)))"
  "command_suits u (Some (CmdConfig (CmdEdit i))) \<longleftrightarrow> (\<exists>e. ui_mode u = Config i e)"
  "command_suits u (Some (CmdConfig (CmdAccept i t))) \<longleftrightarrow> i < 13" "command_suits u (Some (CmdConfig (CmdReset i))) \<longleftrightarrow> i < 13"
  "command_suits u (Some (CmdConfig (CmdCapture i k))) \<longleftrightarrow> i < 13 \<and> sg_shape (SETTINGS ! i) = ShapeKey"
  "command_suits u (Some (CmdConfig (CmdServers i l))) \<longleftrightarrow> i < 13 \<and> sg_shape (SETTINGS ! i) = ShapeServers"
  by (simp_all add: command_suits_def)

lemma suits_ops [simp]:
  "suits u \<Longrightarrow> suits (leave_config u)" "suits u \<Longrightarrow> suits (leave_sessions u)" "suits (open_sessions u)" "suits (close_popup u)"
  "suits (set_switcher l b u) = suits u" "suits (note_question ph now u) = suits u" "suits u \<Longrightarrow> suits (touch u)"
  "suits u \<Longrightarrow> suits (open_text t u)" "suits u \<Longrightarrow> suits (ui_accepted u)" "suits (ui_say t u) = suits u"
  "suits (ui_retune k lg a u) = suits u"
  by (auto simp: leave_config_def leave_sessions_def open_sessions_def close_popup_def set_switcher_def note_question_def
      touch_def open_text_def ui_accepted_def ui_say_def ui_retune_def Let_def editor_suits_row
      split: mode.splits editing.splits option.splits)

lemma suits_config_key:
  assumes "config_key k ph u = (over, u', c)" "suits u"
  shows "suits u' \<and> command_suits u' c"
proof (cases "ui_mode u")
  case (Config i e)
  have lc: "suits (leave_config u)" using assms(2) by simp
  have ac: "suits (ui_accepted u)" using assms(2) by simp
  have fk: "suits u' \<and> command_suits u' c" if "field_key k i e u = (over, u', c)" "e \<noteq> EditingCapture"
    using that Config assms(2) ac
    by (auto simp: field_key_def no_cmd_def cmd_def Let_def split: if_splits editing.splits option.splits key.splits)
  have sk: "suits u' \<and> command_suits u' c" if "servers_key k i at u = (over, u', c)" "e = EditingServers at False" for at
    using that Config assms(2) by (auto simp: servers_key_def no_cmd_def cmd_def Let_def split: if_splits)
  have ck: "suits u' \<and> command_suits u' c" if "capture_key k i u = (over, u', c)" "e = EditingCapture"
    using that Config assms(2) by (auto simp: capture_key_def no_cmd_def cmd_def split: if_splits key.splits)
  have vk: "suits u' \<and> command_suits u' c" if "save_key k i u = (over, u', c)" "e = EditingSave"
    using that Config assms(2) by (auto simp: save_key_def no_cmd_def cmd_def split: if_splits)
  have bk: "suits u' \<and> command_suits u' c" if "browse_key k ph i u = (over, u', c)" "e = EditingNone"
    using that Config assms(2) lc by (auto simp: browse_key_def no_cmd_def cmd_def Let_def split: if_splits)
  from assms(1) Config fk sk ck vk bk show ?thesis
    by (auto simp: config_key_def split: editing.splits if_splits)
qed (use assms in \<open>auto simp: config_key_def\<close>)

lemma paste_mode: "ui_paste bs u = (u', rest) \<Longrightarrow> ui_mode u' = ui_mode u"
proof -
  have "ui_mode (fold paste_byte ds u) = ui_mode u" for ds
    by (induction ds arbitrary: u) (auto simp: paste_byte_def)
  then show "ui_paste bs u = (u', rest) \<Longrightarrow> ui_mode u' = ui_mode u"
    by (auto simp: ui_paste_def split: prod.splits)
qed

lemma suits_config_keys:
  assumes "suits u" "config_keys bs ph u = (u', r)"
  shows "suits u' \<and> command_suits u' (command r)"
proof -
  obtain c where c: "config_loop bs (bs = [KEY_ESC]) ph (u\<lparr>ui_note := None\<rparr>) = (u', c)" "command r = c"
    using assms(2) by (auto simp: config_keys_def split: prod.splits)
  have "suits u' \<and> command_suits u' c"
    by (rule config_loop_rule [OF c(1), of suits "\<lambda>v c. suits v \<and> command_suits v c"])
      (use assms(1) in \<open>auto dest: suits_config_key paste_mode\<close>)
  with c(2) show ?thesis by simp
qed

lemma suits_shown_key:
  assumes "shown_key b ph now u r = (over, u', r')" "suits u" "\<And>v. command_suits v (command r)"
  shows "suits u' \<and> command_suits v (command r')"
proof (cases "shown_command b ph now u")
  case (Some c)
  then have "command_suits v (Some c)" by (auto simp: shown_command_def Let_def split: if_splits)
  with Some assms show ?thesis by (auto simp: shown_key_command)
next
  case None
  have "suits (fst (ui_close b ph now u r)) \<and> command (snd (ui_close b ph now u r)) = command r"
    by (auto simp: ui_close_def Let_def deliver_def)
  with assms None show ?thesis
    by (auto simp: shown_key_def Let_def split: if_split_asm prod.splits)
qed

lemma suits_status_keys:
  assumes "suits u" "\<And>v. command_suits v (command r)"
  shows "suits (fst (status_keys bs lone ph now u r)) \<and> command_suits v (command (snd (status_keys bs lone ph now u r)))"
  using assms
proof (induction bs arbitrary: u r)
  case (Cons b bs)
  obtain over u1 r1 where k: "shown_key b ph now u r = (over, u1, r1)" by (metis prod_cases3)
  have "command_suits v (command (deliver b ph r))" for v using Cons.prems(2) by (simp add: deliver_def)
  with suits_shown_key [OF k Cons.prems] Cons show ?case by (auto simp: k)
qed simp

lemma suits_sessions_keys:
  "suits u \<Longrightarrow> suits (fst (sessions_keys bs ph now u)) \<and> command_suits v (command (snd (sessions_keys bs ph now u)))"
  by (auto simp: sessions_keys_def Let_def routed_default_def split: prod.split option.split out.split)

lemma suits_keys:
  assumes "suits u" "ui_keys bs ph now u = (u', r)"
  shows "suits u' \<and> command_suits u' (command r)"
proof (cases rule: ui_keys_cases [of bs ph now u])
  case (selector v)
  with suits_sessions_keys [of v bs ph now u'] assms(2) show ?thesis by simp
next
  case (screen v bs')
  with suits_config_keys [of v bs' ph u' r] assms show ?thesis by simp
next
  case (status v)
  have "suits v" using status(3,4) by (cases "ui_mode v") (simp_all add: is_config_def)
  moreover have "command_suits w (command routed_default)" for w by (simp add: routed_default_def)
  ultimately have "suits (fst (ui_keys bs ph now u)) \<and> command_suits u' (command (snd (ui_keys bs ph now u)))"
    unfolding status(1) by (rule suits_status_keys)
  with assms(2) show ?thesis by simp
qed

lemma suits_tick: "suits u \<Longrightarrow> suits (snd (tick ph now u))"
proof -
  assume u: "suits u"
  have o: "suits (snd (tick_outage ph now v))" if "suits v" for v
    using that suits_ops(1) [of "v\<lparr>ui_outage_since := os, ui_dismissed := False, ui_config_decided := True\<rparr>" for os]
      suits_ops(1) [of "v\<lparr>ui_config_decided := True\<rparr>"] unfolding tick_outage_def Let_def
    by (cases "ui_outage_since v"; cases "ui_mode v") auto
  have a: "suits (snd (tick_answering ph now v))" if "suits v" for v
    using that unfolding tick_answering_def Let_def by (cases "ui_outage_since v"; cases "ui_mode v") auto
  from u o a show ?thesis by (auto simp: tick_def Let_def)
qed

section \<open>From the key to the setting\<close>

text \<open>A session whose config has had checked values only (\<open>config_reach\<close>) and whose screen has the row's own
  editor open.\<close>

definition sound :: "'p client_lib \<Rightarrow> ('l, 'p) client \<Rightarrow> bool" where
  "sound lib s \<longleftrightarrow> config_reach (lb_ext lib) (cls_config s) \<and> suits (cls_ui s)"

lemma cls_config_keeps [simp]: "cls_config (set_ui f s) = cls_config s" "cls_config (enable_standby on w s) = cls_config s"
  using tuning_set(1) [of f s] tuning_standby(2) [of on w s] unfolding tuning_def by blast+

lemma sound_set_ui: "sound lib s \<Longrightarrow> suits (f (cls_ui s)) \<Longrightarrow> sound lib (set_ui f s)"
  by (simp add: sound_def set_ui_def)

lemma sound_apply: "config_reach (lb_ext lib) c \<Longrightarrow> sound lib s \<Longrightarrow> sound lib (client_apply st (s\<lparr>cls_config := c\<rparr>))"
  by (simp add: sound_def client_apply_def Let_def)

lemma sound_config: "config_reach (lb_ext lib) c \<Longrightarrow> sound lib s \<Longrightarrow> sound lib (s\<lparr>cls_config := c\<rparr>)"
  by (simp add: sound_def)

lemma sound_config_set:
  assumes "sound lib s" "i < 13" "valid_value (sg_shape (SETTINGS ! i)) v"
  shows "sound lib (client_config_set lib i v s)"
  using config_reach.set [of "lb_ext lib" "cls_config s" i v] assms
  by (auto simp: client_config_set_def sound_def set_ui_def client_apply_def Let_def split: sum.split prod.split)

lemma sound_same:
  assumes "sound lib s" "tuning s' = tuning s" "suits (cls_ui s')"
  shows "sound lib s'"
  using assms by (simp add: sound_def tuning_def)

lemma sound_config_save:
  assumes "sound lib s0"
  shows "sound lib (client_config_save lib w lv s0)"
proof -
  define s where "s = set_ui ui_accepted s0"
  have s: "sound lib s" unfolding s_def using assms by (simp add: sound_def)
  obtain r c where r: "config_save (lb_ext lib) lv (nw_file w) (nw_writable w) (cls_config s) = (r, c)" by fastforce
  have "config_reach (lb_ext lib) c"
    using config_reach.save [of "lb_ext lib" "cls_config s" lv "nw_file w" "nw_writable w"] s r by (simp add: sound_def)
  then have c: "sound lib (s\<lparr>cls_config := c\<rparr>)" by (rule sound_config [OF _ s])
  have say: "sound lib (set_ui (ui_say t) s')" if "tuning s' = tuning (s\<lparr>cls_config := c\<rparr>)" "cls_ui s' = cls_ui s" for t s'
    using s that by (intro sound_set_ui sound_same [OF c that(1)]) (simp_all add: sound_def)
  have none: "sound lib (set_ui (ui_say t) s)" for t using s by (intro sound_set_ui) (simp_all add: sound_def)
  show ?thesis
    unfolding client_config_save_def Let_def s_def [symmetric] r by (auto simp: none intro!: say split: sum.split)
qed

text \<open>The row's check stands between what is typed and the setting.\<close>

lemma sound_config_command:
  assumes "sound lib s" "command_suits (cls_ui s) (Some (CmdConfig c))"
  shows "sound lib (client_config_command lib w c s)"
proof (cases c)
  case (CmdEdit i)
  with assms obtain e where m: "ui_mode (cls_ui s) = Config i e" by auto
  with assms(1) have i: "i < 13" by (auto simp: sound_def editor_suits_row)
  with assms(1) m show ?thesis
    by (auto simp: CmdEdit client_config_command_def Let_def open_capture_def open_servers_def sound_def [of lib s]
        intro!: sound_config_set sound_set_ui split: shape.split setting_value.split)
next
  case (CmdReset i)
  with assms config_reach.reset [of "lb_ext lib" "cls_config s" i] show ?thesis
    by (auto simp: client_config_command_def sound_def client_apply_def Let_def split: sum.split prod.split)
next
  case (CmdCapture i k)
  have "valid_value ShapeKey (VKey v)" if "(case k of None \<Rightarrow> Inr None | Some b \<Rightarrow> check_key b) = Inr v" for v
    using that by (auto split: option.splits dest: check_key_Some)
  with CmdCapture assms show ?thesis
    by (auto simp: client_config_command_def intro!: sound_config_set sound_set_ui split: sum.split)
      (simp_all add: sound_def)
qed (use assms parse_text_valid check_servers_valid in
    \<open>auto simp: client_config_command_def sound_def [of lib s] intro!: sound_config_set sound_set_ui sound_config_save split: sum.split\<close>)

lemma sound_client_command:
  assumes "sound lib s" "command_suits (cls_ui s) c" "client_command lib w c s = (None, s')"
  shows "sound lib s'"
proof (cases "\<exists>x. c = Some (CmdConfig x)")
  case True
  then show ?thesis using assms by (auto simp: client_command_def sound_config_command)
next
  case False
  then have "tuning s' = tuning s \<and> ui_mode (cls_ui s') = ui_mode (cls_ui s)"
    using assms(3)
    by (auto simp: client_command_def Let_def case_prod_beta split: option.splits command.splits if_splits)
  with assms(1) show ?thesis by (intro sound_same [OF assms(1)]) (simp_all add: sound_def)
qed

lemma sound_route_keys:
  assumes "sound lib s" "route_keys lib w ks s = (None, s')"
  shows "sound lib s'"
proof -
  obtain u1 r where k: "ui_keys ks (ls_phase (cls_link_state s)) (nw_now w) (set_switcher (cls_in_lobby s) (client_asking s) (cls_ui s)) = (u1, r)"
    by fastforce
  have u: "suits u1 \<and> command_suits u1 (command r)"
    using suits_keys [OF _ k] assms(1) by (simp add: sound_def)
  from assms(2) k obtain s3 where s3: "client_command lib w (command r) s3 = (None, s')" "tuning s3 = tuning s" "cls_ui s3 = u1"
    by (auto simp: route_keys_def Let_def)
  with u have "sound lib s3" by (intro sound_same [OF assms(1)]) simp_all
  with sound_client_command s3 u show ?thesis by blast
qed

section \<open>Everything else leaves the editor alone\<close>

lemma suits_layer: "sound lib s \<Longrightarrow> suits (cls_ui (snd (layer_at lib w s)))"
  by (auto simp: layer_at_def Let_def case_prod_beta sound_def suits_tick split: option.split link_change_ev.split)

lemma suits_answer: "take_answer w a s = Inr (gone, s') \<Longrightarrow> sound lib s \<Longrightarrow> suits (cls_ui s')"
  by (auto simp: take_answer_def Let_def and_then_def sound_def dest!: tuning_moved
      split: answered.splits sum.splits option.splits if_splits)

lemma suits_answered: "client_answered w a s = Inr (gone, s') \<Longrightarrow> sound lib s \<Longrightarrow> suits (cls_ui s')"
  by (auto simp: client_answered_def Let_def and_then_def dest!: suits_answer split: sum.splits if_splits)

lemma sound_do:
  assumes "sound lib s" "client_do lib w e s = Some s'"
  shows "sound lib s'"
proof (cases e)
  case (OnKeys ks)
  with assms sound_route_keys show ?thesis by (auto split: prod.splits option.splits)
next
  case OnLayer
  with assms layer_keeps suits_layer [OF assms(1)] show ?thesis by (intro sound_same [OF assms(1)]) auto
next
  case (OnAnswered a)
  with assms(2) obtain gone where g: "client_answered w a s = Inr (gone, s')"
    by (auto simp: if_on_def split: sum.splits prod.splits)
  from sound_same [OF assms(1) _ suits_answered [OF g assms(1)]] answered_keeps [OF g] show ?thesis by blast
next
  case (OnReport rep)
  with assms show ?thesis
    by (auto simp: if_on_def sound_def dest!: tuning_reported intro!: sound_same [OF assms(1), unfolded sound_def] split: sum.splits)
next
  case OnFailOver
  with assms show ?thesis
    by (auto simp: if_on_def sound_def dest!: tuning_fail_over intro!: sound_same [OF assms(1), unfolded sound_def] split: sum.splits)
qed (use assms in \<open>auto simp: sound_def [of lib s] intro: sound_same [OF assms(1)]\<close>)

lemma sound_start:
  assumes "client_start lib w sz caps link rb h i act lob sb (config_state_new dir target (load_config (lb_ext lib) rd target)) ws = Inr s"
  shows "sound lib s"
proof -
  let ?c = "config_state_new dir target (load_config (lb_ext lib) rd target)"
  have new: "ui_mode (cls_ui s0) = mode.Closed" if "client_new sz caps link rbo h ext' now seen = Inr s0" for s0 :: "('a, 'b) client" and rbo ext' now seen
    using that by (auto simp: client_new_def Let_def and_then_def ui_new_def split: sum.splits)
  from assms obtain s3 where s3: "with_config lib w ?c ws s3 = s" "ui_mode (cls_ui s3) = mode.Closed"
    unfolding client_start_def
    by (auto simp: and_then_def Let_def with_activity_def with_identity_def with_lobby_def with_standby_def dest!: new
        split: sum.splits option.splits if_splits)
  then have "cls_config s = ?c" "suits (cls_ui s)"
    by (auto simp: with_config_def Let_def client_apply_def tuning_def)
  with config_reach.start show ?thesis by (metis sound_def)
qed

lemma client_sound: "client_reach lib s \<Longrightarrow> sound lib s"
proof (induction rule: client_reach.induct)
  case (start w sz caps link rb h i act lob sb dir target rd ws s)
  then show ?case by (rule sound_start)
next
  case (event s w e s')
  then show ?case using sound_do by blast
qed

text \<open>So the config of a running session is one of those the laws of \<open>config_reach\<close> are about.\<close>

lemma client_config_reach: "client_reach lib s \<Longrightarrow> config_reach (lb_ext lib) (cls_config s)"
  using client_sound by (auto simp: sound_def)

text \<open>C24: every setting of a running session is one it may have. Whatever the config file holds and whatever is typed
  at the popup, in every state the session's loop can reach, the settings the session runs with and the settings the
  config screen shows, row by row, are all in range: the popup's key is off or a control byte other than Backspace,
  Tab, line feed, Enter and Esc; it opens of itself after at most 600 s or never; it lingers at most 60 s; the link is
  silent after 1 to 60 s and rebuilt after 5 to 600 s; ssh's timeout is a whole number of seconds from 1 to 120; and
  there are at most 16 STUN servers, each a host and a port from 1 to 65535. Nothing is assumed of the values: the
  session's own checks of what is typed and read are what keeps them there.\<close>

theorem settings_stay_in_range:
  assumes "client_reach lib s"
  shows "settings_allowed (cs_applied (cls_config s))
    \<and> (\<exists>shown. settings_allowed shown
        \<and> (\<forall>i<length SETTINGS. fst (snd (row_shown (cls_config s) i)) = sg_get (SETTINGS ! i) shown))"
proof -
  let ?c = "cls_config s"
  have c: "wf_layers (cs_layers ?c)" "wf_pending (cs_pending ?c)" "settings_valid (cs_applied ?c)"
    using config_reach_inv [OF client_config_reach [OF assms]] config_applied_valid [OF client_config_reach [OF assms]]
    by (simp_all add: config_inv_def)
  have "fst (snd (row_shown ?c i)) = row_get i (in_effect (cs_layers ?c) (cs_pending ?c))" if "i < 13" for i
    by (simp add: in_effect_row [OF c(1,2) that] row_shown_def Let_def case_prod_beta)
  moreover have "settings_allowed (in_effect (cs_layers ?c) (cs_pending ?c))"
    using in_effect_valid [OF c(1,2)] by (rule settings_allowed_valid)
  ultimately show ?thesis
    using settings_allowed_valid [OF c(3)] by (auto simp: row_get_def)
qed

text \<open>The sample session: its popup key, and the servers it asks.\<close>

theorem settings_stay_in_range_witness:
  "key_allowed (st_popup_key (cs_applied (cls_config sample_client)))
    \<and> length (st_stun_servers (cs_applied (cls_config sample_client))) \<le> 16"
  using settings_stay_in_range [OF sample_client_reach] by (simp add: settings_allowed_def)

end
