(* ===== verification/Spec2Isabelle.thy ===== *)
theory Spec2Isabelle
  imports Session_Link Host_Ladder Client_Shown Client_Settings Osc_Guard
begin

text \<open>
  A verification development of oxutrm, a roaming terminal: a client keeps a copy of a remote
  terminal's screen and sends it keystrokes over a link that may fall silent, move to another network
  or be rebuilt, and nothing typed or shown is lost or doubled meanwhile.

  \<^bold>\<open>The program and its parts.\<close> The host runs a shell on a pseudo terminal behind an emulator and turns
  what the emulator shows into a replicated screen (\<open>crates/oxutrm-term\<close>). Screens travel to the client,
  and typed bytes to the host, as numbered states over a lossy link: a sender offers diffs against a
  state the peer has, a receiver applies or refuses them (\<open>crates/oxutrm-sync\<close>, over the types of
  \<open>crates/oxutrm-proto\<close>). The client paints the screen on the user's terminal (\<open>crates/oxutrm-client\<close>),
  judges the link by what it hears, holds what is typed in an outage, keeps a standby link and
  rebuilds a lost one (\<open>src/\<close>), and finds a path through NATs (\<open>crates/oxutrm-net\<close>, \<open>crates/oxutrm-host\<close>).
  A popup on the client shows the link's state, asks about held input, switches sessions and changes
  settings.

  \<^bold>\<open>Theories and sources.\<close>
  \<^item> \<open>Prelude\<close>: machine integers as words, results, ordered maps behind the locale \<open>ordered_map\<close>, text and
    its UTF-8.
  \<^item> \<open>Proto_Types\<close>, \<open>Proto_Screen\<close> (\<open>crates/oxutrm-proto/src/types.rs\<close>, \<open>cell.rs\<close>, \<open>text.rs\<close>, \<open>clipboard.rs\<close>,
    \<open>link.rs\<close>, \<open>error.rs\<close>, \<open>screen.rs\<close>): limits, cells, the painted-text rule, the screen and its invariant.
  \<^item> \<open>Sync_Screen\<close>, \<open>Sync_Input\<close> (\<open>crates/oxutrm-sync/src/screen.rs\<close>, \<open>input.rs\<close>): diffs and how they apply.
  \<^item> \<open>Sync_Channel\<close>, \<open>Sync_Protocol\<close> (\<open>channel.rs\<close>, \<open>lib.rs\<close>, \<open>frame.rs\<close>): sender and receiver; the locale of a
    replicated state, interpreted on the screen and on the input, and both ends of a link that loses,
    doubles and reorders frames as an inductive system.
  \<^item> \<open>Sync_Duplex\<close>: both directions of a link together, the acknowledgements of one being part of the frames of the
    other; the locale \<open>two_way\<close> of two replicated states, interpreted on typed input going up and screens coming
    down.
  \<^item> \<open>Link_State\<close>, \<open>Standby\<close>, \<open>Rebuild\<close> (\<open>src/linkstate.rs\<close>, \<open>standby.rs\<close>, \<open>roam.rs\<close>, \<open>rebuild.rs\<close>, parts of
    \<open>session.rs\<close>): phases, held input, probes and failover, the race between an attempt and a failover.
  \<^item> \<open>Net_Path\<close>, \<open>Host_Ladder\<close>, \<open>Session_Choice\<close> (\<open>crates/oxutrm-net/src/socketfam.rs\<close>, \<open>candidates.rs\<close>,
    \<open>crates/oxutrm-host/src/ladder.rs\<close>, \<open>crates/oxutrm-proto/src/ids.rs\<close>, \<open>name.rs\<close>, \<open>src/choose.rs\<close>).
  \<^item> \<open>Osc_Guard\<close>, \<open>Host_Links\<close>, \<open>Host_Emulator\<close>, \<open>Host_Term\<close> (\<open>crates/oxutrm-term/src/\<close>): the filter before
    the emulator, link ids, the conversions out of the emulator's grid, and the host terminal.
  \<^item> \<open>Client_Color\<close>, \<open>Client_Renderer\<close>, \<open>Client_Overlay\<close>, \<open>Client_Text\<close> (\<open>crates/oxutrm-client/src/color.rs\<close>,
    \<open>renderer.rs\<close>, \<open>overlay.rs\<close>, parts of \<open>popup.rs\<close>): the renderer as a writer of terminal operations, and how a
    drawn buffer and a preview become the cells it lays over the screen.
  \<^item> \<open>Client_Paint\<close>, \<open>Client_Shown\<close>: an abstract terminal that reads those operations, the SGR bytes among them, and
    what it shows after a render.
  \<^item> \<open>Ui_Keys\<close>, \<open>Ui_Selector\<close>, \<open>Config\<close>, \<open>Ui_Popup\<close> (\<open>src/ui.rs\<close>, \<open>selector.rs\<close>, \<open>config.rs\<close>, \<open>config/save.rs\<close>):
    fields, keys and pastes, the session selector, the settings with their file, and the popup over them.
  \<^item> \<open>Link_Quality\<close>, \<open>Activity_Log\<close> (\<open>src/quality.rs\<close>, \<open>activity.rs\<close>): the minute of measurements the popup shows,
    and the log of what happened, in the popup and in its file.
  \<^item> \<open>Client_Clipboard\<close>, \<open>Client_Session\<close>, \<open>Client_Loop\<close> (\<open>crates/oxutrm-client/src/clipboard.rs\<close>, \<open>src/session.rs\<close>,
    parts of \<open>connect.rs\<close>, \<open>view.rs\<close>, \<open>switcher.rs\<close>): the clipboard relay, every method that changes a client session,
    and the session as the events of its loop.
  \<^item> \<open>Client_Settings\<close>: a change of a setting followed from the key that is typed to the session that runs with it.
  \<^item> \<open>Host_Session\<close> (\<open>src/host_session.rs\<close>): the host's half, turn by turn, with its lobby, attaches and kills.
  \<^item> \<open>Session_Link\<close>: a client session and a host session over one link, from the attach until the client leaves it.

  \<^bold>\<open>How the code is written down.\<close> A struct is a record whose fields carry the source's names, usually with
  a short prefix; an enum is a datatype; a method that changes \<open>self\<close> is a function from the old record
  to the new one beside its result; \<open>Result\<close> is a sum with the error on the left. Integers keep their
  width where the code's arithmetic depends on it (words that wrap, \<open>sat_add\<close> and \<open>sat_sub\<close> where the code
  saturates); \<open>usize\<close> and instants, in nanoseconds, are natural numbers. A \<open>BTreeMap\<close> is a strictly
  sorted list of entries. Every definition that models code is executable.

  \<^bold>\<open>What the theorems show.\<close>
  \<^item> Synchronisation: what \<open>diff_from\<close> describes \<open>apply\<close> reproduces; whatever the link loses or reorders, one
    frame that arrives brings the peer to the sender's state, no frame of a correct peer is refused, and
    a silent sender has a peer that agrees; a refused frame changes nothing, and an accepted one from
    any peer leaves a legal screen.
  \<^item> Sessions: composed of all of the above, what is typed reaches the shell once and in order, the client holds the
    host's screen as soon as it is acknowledged, no turn of either end rejects a frame; a session runs with the
    settings in effect in every part that uses them.
  \<^item> Host: the screens a host sends only ever move on and are all acceptable to the client, every cell keeps the
    emulator's link, escape sequences stay within their caps and all other output passes unchanged.
  \<^item> Client: after a render of a state that can be drawn the abstract terminal shows it cell by cell, with the
    popup on top, in the colours and attributes of each cell, and rings when the bell count has risen; nothing the
    host sends, and nothing drawn from a buffer or a preview, reaches it but as text.
  \<^item> Link: outages end only with a frame, a failover follows an answered probe, every standby link is used or closed
    once, an abandoned rebuild never attaches.
  \<^item> Popup and settings: typed bytes go one way, a shown popup keeps its keys, held input waits for an
    answer that was meant, a selector asks only for what was confirmed, the popup stays reachable,
    the settings of a running session stay in range because what is typed and read is checked, and a save keeps
    what the screen shows, unless the file had a value the popup rule dropped.
  \<^item> Measurements and log: every number shown is taken over the current link's samples alone; the log file
    accounts for every entry once, the popup's list gives up steps before what it shows, and the dates
    are the calendar's.

  \<^bold>\<open>Termination and bounds.\<close> No definition runs on fuel. Loops over data are structural recursion; the
  others (the OSC filter, the link table search, the poll loop, the key loops, the reachability loop) are
  functions with a measure, so that they return is part of their definition; the poll loop's bound on
  the bytes of one poll is a theorem of its own. \<open>Session_Link\<close> speaks of links on which the 64-bit state numbers
  and the 64-bit length of the input have not run out.

  \<^bold>\<open>Parameters.\<close> Code outside the repository is an argument of the definitions that use it, and what is
  relied on is a named hypothesis: postcard and zstd (\<open>codec\<close>), the emulator (\<open>emulator\<close>; nothing is
  assumed of it), the pty's answers, Unicode widths, the machine's interfaces and routes, the order in
  which the tasks of a rebuild run, \<open>toml_edit\<close> and \<open>jiff\<close> (\<open>config_ext\<close>).

  \<^bold>\<open>Not modelled.\<close> What only drives the operating system or a library: the async loops of \<open>src/session.rs\<close> and
  \<open>host_session.rs\<close> that pick the next event, \<open>control.rs\<close>, \<open>accept.rs\<close> and their neighbours, ssh and process handling, sockets, QUIC,
  TLS and ICE (\<open>crates/oxutrm-net\<close>), daemons and the session registry's files (\<open>crates/oxutrm-host\<close>), raw
  mode, the startup splash, the previews of other sessions, and the layout of popups and views as text. The words of messages are left as the data they are
  written from. \<open>PROJECT.json\<close> lists every part with its status.
\<close>

end
